(* ===== verification/Motto_Prelude.thy ===== *)
theory Motto_Prelude
  imports Main "HOL-Library.AList" "HOL-Library.Word"
begin

text \<open>
  Shared vocabulary of the development: results of code that may throw, the ordered
  dictionaries of JavaScript (\<open>Map\<close>: insertion order, an update in place), the loops
  that collect at most a given number of items, and the simplification collections that the
  component theories extend.
\<close>

named_theorems js_simps \<open>evaluation of the JavaScript primitives\<close>
named_theorems session_simps \<open>definitions of the session operations\<close>

section \<open>Results of code that may throw\<close>

text \<open>
  \<open>Inl e\<close> is a thrown error, \<open>Inr x\<close> a normal return. \<open>rbind\<close> runs the continuation of
  a call that returned, \<open>ensure\<close> is an early \<^verbatim>\<open>throw\<close> when its condition fails.
\<close>

definition rbind :: "'e + 'a \<Rightarrow> ('a \<Rightarrow> 'e + 'b) \<Rightarrow> 'e + 'b" where
  "rbind m f = (case m of Inl e \<Rightarrow> Inl e | Inr x \<Rightarrow> f x)"

definition ensure :: "bool \<Rightarrow> 'e \<Rightarrow> 'e + unit" where
  "ensure c e = (if c then Inr () else Inl e)"

lemma rbind_simps [simp]:
  "rbind (Inl e) f = Inl e"
  "rbind (Inr x) f = f x"
  by (simp_all add: rbind_def)

lemma rbind_cong [fundef_cong]:
  "m = m' \<Longrightarrow> (\<And>x. m' = Inr x \<Longrightarrow> f x = g x) \<Longrightarrow> rbind m f = rbind m' g"
  by (auto simp: rbind_def split: sum.splits)

lemma rbind_Inr_iff: "rbind m f = Inr y \<longleftrightarrow> (\<exists>x. m = Inr x \<and> f x = Inr y)"
  by (auto simp: rbind_def split: sum.splits)

lemma rbind_Inl_iff: "rbind m f = Inl e \<longleftrightarrow> m = Inl e \<or> (\<exists>x. m = Inr x \<and> f x = Inl e)"
  by (auto simp: rbind_def split: sum.splits)

lemma rbind_InrE:
  assumes "rbind m f = Inr y"
  obtains x where "m = Inr x" "f x = Inr y"
  using assms by (auto simp: rbind_Inr_iff)

lemma ensure_simps [simp]:
  "ensure True e = Inr ()"
  "ensure False e = Inl e"
  by (simp_all add: ensure_def)

lemma ensure_Inr_iff [simp]: "ensure c e = Inr u \<longleftrightarrow> c"
  by (simp add: ensure_def)

lemma ensure_Inl_iff [simp]: "ensure c e = Inl d \<longleftrightarrow> \<not> c \<and> d = e"
  by (auto simp: ensure_def)

text \<open>A loop that runs a fallible body over the items and stops at the first error.\<close>

fun rfold :: "('s \<Rightarrow> 'a \<Rightarrow> 'e + 's) \<Rightarrow> 's \<Rightarrow> 'a list \<Rightarrow> 'e + 's" where
  "rfold f s [] = Inr s"
| "rfold f s (x # xs) = rbind (f s x) (\<lambda>s'. rfold f s' xs)"

lemma rfold_append: "rfold f s (xs @ ys) = rbind (rfold f s xs) (\<lambda>s'. rfold f s' ys)"
  by (induction xs arbitrary: s) (auto simp: rbind_def split: sum.splits)

lemma rfold_invariant:
  assumes "\<And>s x s'. x \<in> set xs \<Longrightarrow> P s \<Longrightarrow> f s x = Inr s' \<Longrightarrow> P s'"
    and "P s" and "rfold f s xs = Inr t"
  shows "P t"
  using assms
proof (induction xs arbitrary: s)
  case (Cons x xs)
  from Cons.prems(3) obtain s' where s': "f s x = Inr s'" "rfold f s' xs = Inr t"
    by (auto simp: rbind_Inr_iff)
  with Cons.prems have "P s'" by (meson list.set_intros(1))
  with s'(2) Cons.prems(1) show ?case by (intro Cons.IH) (auto intro: list.set_intros(2))
qed simp

section \<open>Ordered dictionaries\<close>

text \<open>
  A JavaScript \<^verbatim>\<open>Map\<close> is an association list with distinct keys: \<open>map_of\<close> is
  \<^verbatim>\<open>get\<close>, \<open>AList.update\<close> is \<^verbatim>\<open>set\<close> (an existing key keeps its position, a new one goes
  to the end) and \<open>AList.delete\<close> is \<^verbatim>\<open>delete\<close>.
\<close>

type_synonym ('k, 'v) js_map = "('k \<times> 'v) list"

abbreviation map_get :: "('k, 'v) js_map \<Rightarrow> 'k \<Rightarrow> 'v option" where
  "map_get \<equiv> map_of"

abbreviation map_set :: "'k \<Rightarrow> 'v \<Rightarrow> ('k, 'v) js_map \<Rightarrow> ('k, 'v) js_map" where
  "map_set \<equiv> AList.update"

abbreviation map_delete :: "'k \<Rightarrow> ('k, 'v) js_map \<Rightarrow> ('k, 'v) js_map" where
  "map_delete \<equiv> AList.delete"

definition map_has :: "('k, 'v) js_map \<Rightarrow> 'k \<Rightarrow> bool" where
  "map_has m k = (map_of m k \<noteq> None)"

lemma map_has_iff: "map_has m k \<longleftrightarrow> k \<in> fst ` set m"
  by (simp add: map_has_def map_of_eq_None_iff)

lemma map_get_set [simp]: "map_of (map_set k v m) = (map_of m)(k \<mapsto> v)"
  by (simp add: update_conv')

lemma map_get_delete [simp]: "map_of (map_delete k m) = (map_of m)(k := None)"
  by (simp add: delete_conv')

lemma map_set_new: "map_of m k = None \<Longrightarrow> map_set k v m = m @ [(k, v)]"
  by (induction m) (auto split: if_splits)

lemma keys_map_set: "fst ` set (map_set k v m) = insert k (fst ` set m)"
  by (simp add: dom_update)

lemma distinct_map_set: "distinct (map fst m) \<Longrightarrow> distinct (map fst (map_set k v m))"
  by (rule distinct_update)

lemma distinct_map_delete: "distinct (map fst m) \<Longrightarrow> distinct (map fst (map_delete k m))"
  by (rule distinct_delete)

section \<open>Collecting loops\<close>

text \<open>
  \<^verbatim>\<open>for (const x of xs) { if (!p(x)) continue; results.push(x); if (results.length === limit) break; }\<close>:
  the shape of every query of the session stores. The limit was checked to be positive or is
  \<^verbatim>\<open>undefined\<close>.
\<close>

fun collect_loop :: "('a \<Rightarrow> bool) \<Rightarrow> nat option \<Rightarrow> 'a list \<Rightarrow> 'a list \<Rightarrow> 'a list" where
  "collect_loop p limit results [] = results"
| "collect_loop p limit results (x # xs) =
     (if p x then
        (let results' = results @ [x] in
         if Some (length results') = limit then results' else collect_loop p limit results' xs)
      else collect_loop p limit results xs)"

definition take_limit :: "nat option \<Rightarrow> 'a list \<Rightarrow> 'a list" where
  "take_limit limit xs = (case limit of None \<Rightarrow> xs | Some n \<Rightarrow> take n xs)"

lemma collect_loop_gen:
  assumes "\<And>n. limit = Some n \<Longrightarrow> length results < n"
  shows "collect_loop p limit results xs = take_limit limit (results @ filter p xs)"
  using assms
proof (induction p limit results xs rule: collect_loop.induct)
  case (1 p limit results)
  then show ?case by (auto simp: take_limit_def split: option.splits)
next
  case (2 p limit results x xs)
  show ?case
  proof (cases "p x")
    case False
    with 2 show ?thesis by simp
  next
    case True
    show ?thesis
    proof (cases "Some (length (results @ [x])) = limit")
      case True
      with \<open>p x\<close> show ?thesis by (auto simp: take_limit_def)
    next
      case False
      have "\<And>n. limit = Some n \<Longrightarrow> length (results @ [x]) < n"
        using "2.prems" False by (metis length_append_singleton not_less_eq linorder_neqE_nat)
      with 2(1)[OF \<open>p x\<close> refl False] \<open>p x\<close> False show ?thesis by simp
    qed
  qed
qed

lemma collect_loop_eq:
  "limit \<noteq> Some 0 \<Longrightarrow> collect_loop p limit [] xs = take_limit limit (filter p xs)"
  by (subst collect_loop_gen) auto

lemma set_take_limit: "set (take_limit limit xs) \<subseteq> set xs"
  by (auto simp: take_limit_def split: option.splits dest: in_set_takeD)

lemma length_take_limit: "length (take_limit (Some n) xs) \<le> n"
  by (simp add: take_limit_def)

end
