(* ===== verification/Js_Values.thy ===== *)
theory Js_Values
  imports Motto_Prelude
begin

text \<open>
  The JavaScript values the program computes with: numbers, strings of UTF-16 code units,
  JSON payloads. A number with an integral value other than \<open>-0\<close> is \<open>NInt\<close> of that value;
  every other number (\<open>-0\<close>, fractions, infinities, NaN) is \<open>NFloat\<close> of its IEEE 754 binary64
  pattern. The predicates of \<^verbatim>\<open>Number\<close> are computed from the pattern.
\<close>

unbundle bit_operations_syntax

section \<open>Numbers\<close>

datatype js_num = NInt int | NFloat "64 word"

definition f64_exponent :: "64 word \<Rightarrow> nat" where
  "f64_exponent w = unat (take_bit 11 (drop_bit 52 w))"

definition f64_fraction :: "64 word \<Rightarrow> nat" where
  "f64_fraction w = unat (take_bit 52 w)"

definition f64_negative :: "64 word \<Rightarrow> bool" where
  "f64_negative w = bit w 63"

definition f64_neg_zero :: "64 word" where
  "f64_neg_zero = 0x8000000000000000"

definition f64_finite :: "64 word \<Rightarrow> bool" where
  "f64_finite w = (f64_exponent w \<noteq> 2047)"

text \<open>
  A normal number is \<open>(2^52 + fraction) * 2^(exponent - 1075)\<close>; with exponent field 0 the only
  integral values are the two zeros.
\<close>

definition f64_is_integer :: "64 word \<Rightarrow> bool" where
  "f64_is_integer w =
     (f64_finite w \<and>
      (if f64_exponent w = 0 then f64_fraction w = 0
       else (2 ^ 52 + f64_fraction w) mod 2 ^ (1075 - f64_exponent w) = 0))"

definition f64_int :: "64 word \<Rightarrow> int" where
  "f64_int w =
     (let magnitude =
        (if f64_exponent w = 0 then 0
         else int ((2 ^ 52 + f64_fraction w) * 2 ^ (f64_exponent w - 1075)
                   div 2 ^ (1075 - f64_exponent w)))
      in if f64_negative w then - magnitude else magnitude)"

definition f64_num :: "64 word \<Rightarrow> js_num" where
  "f64_num w =
     (if f64_is_integer w \<and> w \<noteq> f64_neg_zero then NInt (f64_int w) else NFloat w)"

fun js_isFinite :: "js_num \<Rightarrow> bool" where
  "js_isFinite (NInt i) = True"
| "js_isFinite (NFloat w) = f64_finite w"

fun js_isInteger :: "js_num \<Rightarrow> bool" where
  "js_isInteger (NInt i) = True"
| "js_isInteger (NFloat w) = f64_is_integer w"

fun js_int :: "js_num \<Rightarrow> int" where
  "js_int (NInt i) = i"
| "js_int (NFloat w) = f64_int w"

definition MAX_SAFE_INTEGER :: int where
  "MAX_SAFE_INTEGER = 2 ^ 53 - 1"

definition js_isSafeInteger :: "js_num \<Rightarrow> bool" where
  "js_isSafeInteger n = (js_isInteger n \<and> \<bar>js_int n\<bar> \<le> MAX_SAFE_INTEGER)"

definition js_is_neg_zero :: "js_num \<Rightarrow> bool" where
  "js_is_neg_zero n = (n = NFloat f64_neg_zero)"

text \<open>The same number in its canonical form.\<close>

definition num_canon :: "js_num \<Rightarrow> js_num" where
  "num_canon n = (case n of NInt i \<Rightarrow> NInt i | NFloat w \<Rightarrow> f64_num w)"

lemma f64_neg_zero_integer [simp]: "f64_is_integer f64_neg_zero"
  by (simp add: f64_is_integer_def f64_finite_def f64_exponent_def f64_fraction_def
      f64_neg_zero_def)

lemma f64_neg_zero_finite [simp]: "f64_finite f64_neg_zero"
  by (simp add: f64_finite_def f64_exponent_def f64_neg_zero_def)

lemma f64_neg_zero_int [simp]: "f64_int f64_neg_zero = 0"
  by (simp add: f64_int_def f64_exponent_def f64_neg_zero_def)

lemma num_canon_idem [simp]: "num_canon (num_canon n) = num_canon n"
  by (auto simp: num_canon_def f64_num_def split: js_num.splits)

lemma num_canon_integral:
  "js_isInteger n \<Longrightarrow> \<not> js_is_neg_zero n \<Longrightarrow> num_canon n = NInt (js_int n)"
  by (cases n) (auto simp: num_canon_def f64_num_def js_is_neg_zero_def)

lemma num_canon_float:
  "\<not> js_isInteger n \<or> js_is_neg_zero n \<Longrightarrow> \<exists>w. n = NFloat w \<and> num_canon n = NFloat w"
  by (cases n) (auto simp: num_canon_def f64_num_def js_is_neg_zero_def)

lemma js_isInteger_finite: "js_isInteger n \<Longrightarrow> js_isFinite n"
  by (cases n) (auto simp: f64_is_integer_def)

section \<open>Strings and JSON payloads\<close>

text \<open>
  Where the code reads the contents of a string, a string is its list of UTF-16 code units.
  Identifiers, lane names and other strings that are only compared are HOL strings.
\<close>

type_synonym js_string = "16 word list"

definition js_ascii :: "string \<Rightarrow> js_string" where
  "js_ascii s = map (\<lambda>c. of_char c) s"

lemma js_ascii_simps [simp]:
  "js_ascii [] = []"
  "js_ascii (c # s) = of_char c # js_ascii s"
  by (simp_all add: js_ascii_def)

text \<open>A JSON value (\<^verbatim>\<open>JsonValue\<close>): the opaque payloads of entries and records.\<close>

datatype json =
    JsonNull
  | JsonBool bool
  | JsonNumber js_num
  | JsonString string
  | JsonArray "json list"
  | JsonObject "(string \<times> json) list"

end
