(* ===== verification/Js_Sums.thy ===== *)
theory Js_Sums
  imports Complex_Main Js_Values "HOL-Library.Log_Nat"
begin

text \<open>
  Sums of JavaScript numbers. A finite number is the rational it stands for. A sum is rounded to the nearest binary64
  number, a tie to the one with an even significand.
\<close>

definition pow2 :: "int \<Rightarrow> rat" where
  "pow2 k = (if 0 \<le> k then 2 ^ nat k else 1 / 2 ^ nat (- k))"

definition nearest_even :: "rat \<Rightarrow> int" where
  "nearest_even x =
     (let f = \<lfloor>x\<rfloor>; d = x - of_int f
      in if d < 1 / 2 \<or> d = 1 / 2 \<and> even f then f else f + 1)"

text \<open>The exponent of the last place: the least one, not under -1074, with which the significand has at most 53 bits.\<close>

definition f64_ulp :: "rat \<Rightarrow> int" where
  "f64_ulp x =
     (let (p, q) = quotient_of \<bar>x\<bar>; b = bitlen p - bitlen q
      in max (-1074) ((if \<bar>x\<bar> < pow2 b then b else b + 1) - 53))"

definition round64 :: "rat \<Rightarrow> rat" where
  "round64 x = (let u = pow2 (f64_ulp x) in of_int (nearest_even (x / u)) * u)"

text \<open>The addition of numbers. The sums of the program are far below \<open>2 ^ 1024\<close>: infinities are left out.\<close>

definition num_add :: "rat \<Rightarrow> rat \<Rightarrow> rat" where
  "num_add x y = round64 (x + y)"

lemma nearest_even_int [simp]: "nearest_even (of_int n) = n"
  by (simp add: nearest_even_def)

lemma nearest_even_error: "\<bar>of_int (nearest_even x) - x\<bar> \<le> 1 / 2"
  unfolding nearest_even_def Let_def by (simp add: abs_if) linarith

lemma pow2_pos [simp]: "0 < pow2 k"
  by (simp add: pow2_def)

lemma round64_error: "\<bar>round64 x - x\<bar> \<le> pow2 (f64_ulp x) / 2"
proof -
  let ?u = "pow2 (f64_ulp x)"
  have "round64 x - x = (of_int (nearest_even (x / ?u)) - x / ?u) * ?u"
    using pow2_pos [of "f64_ulp x"] by (simp add: round64_def Let_def left_diff_distrib less_imp_neq [symmetric])
  then have "\<bar>round64 x - x\<bar> = \<bar>of_int (nearest_even (x / ?u)) - x / ?u\<bar> * ?u"
    by (simp add: abs_mult abs_of_pos)
  also have "\<dots> \<le> 1 / 2 * ?u"
    using nearest_even_error [of "x / ?u"] by (intro mult_right_mono) (auto simp: less_imp_le)
  finally show ?thesis by simp
qed

lemma f64_ulp_safe:
  assumes "\<bar>n\<bar> \<le> MAX_SAFE_INTEGER"
  shows "f64_ulp (of_int n) \<le> 0"
proof -
  have q: "quotient_of \<bar>of_int n\<bar> = (\<bar>n\<bar>, 1)"
    by (metis of_int_abs quotient_of_int Rat.of_int_def)
  have lt: "\<bar>n\<bar> < 2 ^ 53" using assms by (simp add: MAX_SAFE_INTEGER_def)
  have b: "bitlen \<bar>n\<bar> - bitlen 1 \<le> 52"
    using lt bitlen_le_iff_power [of "\<bar>n\<bar>" 53] by (simp add: bitlen_alt_def [of 1])
  then show ?thesis by (simp add: f64_ulp_def q Let_def)
qed

text \<open>Sums that stay safe integers are exact.\<close>

lemma round64_safe_integer:
  assumes "\<bar>n\<bar> \<le> MAX_SAFE_INTEGER"
  shows "round64 (of_int n) = of_int n"
proof -
  let ?k = "f64_ulp (of_int n)"
  have k: "pow2 ?k = 1 / 2 ^ nat (- ?k)"
    using f64_ulp_safe [OF assms] by (cases "?k = 0") (auto simp: pow2_def)
  have "of_int n / pow2 ?k = of_int (n * 2 ^ nat (- ?k))" by (simp add: k)
  then show ?thesis by (simp only: round64_def Let_def nearest_even_int) (simp add: k)
qed

text \<open>The addition of two integral numbers, whose rounded sum is integral too.\<close>

definition int_add :: "int \<Rightarrow> int \<Rightarrow> int" where
  "int_add a b = \<lfloor>num_add (of_int a) (of_int b)\<rfloor>"

lemma int_add_safe: "\<bar>a + b\<bar> \<le> MAX_SAFE_INTEGER \<Longrightarrow> int_add a b = a + b"
  using round64_safe_integer [of "a + b"] by (simp add: int_add_def num_add_def)

text \<open>\<^verbatim>\<open>0.1 + 0.2\<close> is not \<^verbatim>\<open>0.3\<close>, and \<^verbatim>\<open>2 ** 53 + 1\<close> is \<^verbatim>\<open>2 ** 53\<close>.\<close>

lemma rounded_sum:
  "num_add (3602879701896397 / 36028797018963968) (3602879701896397 / 18014398509481984) =
     1351079888211149 / 4503599627370496"
  by code_simp

lemma unsafe_sum: "int_add (2 ^ 53) 1 = 2 ^ 53"
  by code_simp

end
