(* ===== verification/Js_Heap.thy ===== *)
theory Js_Heap
  imports Js_Values
begin

text \<open>
  JavaScript values with object identity, for the code that walks arbitrary values and guards
  against cycles: primitives, byte arrays, and references into a heap of arrays and objects. The
  own enumerable string properties of an object are listed in the order of \<^verbatim>\<open>Object.keys\<close>.
\<close>

type_synonym addr = nat

datatype js_val =
    VUndefined
  | VNull
  | VBool bool
  | VNum js_num
  | VStr js_string
  | VBytes "8 word list"  \<comment> \<open>a \<^verbatim>\<open>Uint8Array\<close>\<close>
  | VRef addr
  | VOther string  \<comment> \<open>\<^verbatim>\<open>typeof\<close> of a function, symbol or bigint\<close>

datatype proto = ObjectProto | ArrayProto | NullProto | OtherProto

text \<open>A property holds a value, or a getter with the value it returns.\<close>

datatype slot = DataSlot js_val | AccessorSlot js_val

fun slot_value :: "slot \<Rightarrow> js_val" where
  "slot_value (DataSlot v) = v"
| "slot_value (AccessorSlot v) = v"

fun is_data :: "slot \<Rightarrow> bool" where
  "is_data (DataSlot v) = True"
| "is_data (AccessorSlot v) = False"

record js_object =
  o_isArray :: bool
  o_proto :: proto
  o_elems :: "slot option list"  \<comment> \<open>array elements, \<open>None\<close> a hole\<close>
  o_props :: "(js_string \<times> slot) list"  \<comment> \<open>enumerable string keys, in \<^verbatim>\<open>Object.keys\<close> order\<close>
  o_hidden :: nat  \<comment> \<open>number of non-enumerable own string keys other than an array's \<^verbatim>\<open>length\<close>\<close>
  o_symbols :: "bool list"  \<comment> \<open>own symbols: is it enumerable\<close>

type_synonym heap = "addr \<Rightarrow> js_object"

definition isPlainObject :: "js_object \<Rightarrow> bool" where
  "isPlainObject obj = (o_proto obj = ObjectProto \<or> o_proto obj = NullProto)"

text \<open>An object has each of its keys once.\<close>

definition heap_ok :: "heap \<Rightarrow> bool" where
  "heap_ok h = (\<forall>a. distinct (map fst (o_props (h a))))"

end
