(* ===== verification/Session_Types.thy ===== *)
theory Session_Types
  imports Js_Sums
begin

text \<open>
  The data of a session: messages (\<^verbatim>\<open>packages/ai/src/types.ts\<close>,
  \<^verbatim>\<open>packages/agent/src/harness/messages.ts\<close>), tree entries, lane records, queries and errors
  (\<^verbatim>\<open>packages/agent/src/harness/session/types.ts\<close>). An optional field is an \<open>option\<close>, a
  discriminated union a datatype with the source's constructors. The fields that every entry
  (record) has are a record around the discriminated part. Token counts, sequence numbers and
  timestamps are integers; a cost is the rational that its binary64 number stands for, and sums
  of costs and token counts are rounded as in \<open>num_add\<close>.
\<close>

type_synonym id = string
type_synonym lane = string

section \<open>Messages\<close>

record usage_cost =
  cost_input :: rat
  cost_output :: rat
  cost_cacheRead :: rat
  cost_cacheWrite :: rat
  cost_total :: rat

record usage =
  u_input :: int
  u_output :: int
  u_cacheRead :: int
  u_cacheWrite :: int
  u_cacheWrite1h :: "int option"
  u_reasoning :: "int option"
  u_totalTokens :: int
  u_cost :: usage_cost

datatype stop_reason = Pending | Stop | Length | ToolUse | Error | Aborted | Deferred

record deferred_handle =
  dh_provider :: string
  dh_modelId :: string
  dh_api :: string
  dh_id :: string
  dh_expiresAt :: "int option"
  dh_pollAfterMs :: "int option"
  dh_data :: "json option"

record tool_call =
  tc_id :: id
  tc_name :: string
  tc_arguments :: json
  tc_thoughtSignature :: "string option"
  tc_namespace :: "string option"

datatype content_block =
    TextContent string "string option"
  | ThinkingContent string "string option" "bool option"
  | ImageContent string string
  | ToolCallContent tool_call

datatype message_content = StringContent string | BlockContent "content_block list"

record user_message =
  um_content :: message_content
  um_timestamp :: int

record assistant_message =
  am_content :: "content_block list"
  am_api :: string
  am_provider :: string
  am_model :: string
  am_responseModel :: "string option"
  am_responseId :: "string option"
  am_diagnostics :: "json option"
  am_usage :: usage
  am_stopReason :: stop_reason
  am_deferred :: "deferred_handle option"
  am_errorMessage :: "string option"
  am_rawStopReason :: "string option"
  am_endTurn :: "bool option"
  am_timestamp :: int

record tool_result_message =
  tr_toolCallId :: id
  tr_toolName :: string
  tr_content :: "content_block list"
  tr_details :: "json option"
  tr_usage :: "usage option"
  tr_addedToolNames :: "string list option"
  tr_isError :: bool
  tr_timestamp :: int

record bash_execution_message =
  be_command :: string
  be_output :: string
  be_exitCode :: "int option"
  be_cancelled :: bool
  be_truncated :: bool
  be_fullOutputPath :: "string option"
  be_timestamp :: int
  be_excludeFromContext :: "bool option"

record custom_message =
  cm_customType :: string
  cm_content :: message_content
  cm_display :: bool
  cm_details :: "json option"
  cm_timestamp :: int

record branch_summary_message =
  bs_summary :: string
  bs_fromId :: id
  bs_timestamp :: int

record compaction_summary_message =
  cs_summary :: string
  cs_tokensBefore :: int
  cs_timestamp :: int

datatype agent_message =
    UserMessage user_message
  | AssistantMessage assistant_message
  | ToolResultMessage tool_result_message
  | BashExecutionMessage bash_execution_message
  | CustomMessage custom_message
  | BranchSummaryMessage branch_summary_message
  | CompactionSummaryMessage compaction_summary_message

datatype role =
    RoleUser | RoleAssistant | RoleToolResult | RoleBashExecution | RoleCustom
  | RoleBranchSummary | RoleCompactionSummary

fun message_role :: "agent_message \<Rightarrow> role" where
  "message_role (UserMessage _) = RoleUser"
| "message_role (AssistantMessage _) = RoleAssistant"
| "message_role (ToolResultMessage _) = RoleToolResult"
| "message_role (BashExecutionMessage _) = RoleBashExecution"
| "message_role (CustomMessage _) = RoleCustom"
| "message_role (BranchSummaryMessage _) = RoleBranchSummary"
| "message_role (CompactionSummaryMessage _) = RoleCompactionSummary"

section \<open>Entries\<close>

datatype entry_type =
    MessageT | ModelChangeT | ThinkingLevelT | ActiveToolsT | CompactionT | BranchSummaryT | CustomT

datatype entry_body =
    MessageEntry agent_message bool  \<comment> \<open>message, \<^verbatim>\<open>terminate === true\<close>\<close>
  | ModelChangeEntry string string  \<comment> \<open>provider, modelId\<close>
  | ThinkingLevelEntry string
  | ActiveToolsEntry "string list"
  | CompactionEntry string "agent_message list" int "json option" "usage option"
      \<comment> \<open>summary, retainedTail, tokensBefore, details, usage\<close>
  | BranchSummaryEntry id string "json option" "usage option"
      \<comment> \<open>fromId, summary, details, usage\<close>
  | CustomEntry string "json option"  \<comment> \<open>customType, data\<close>

fun body_type :: "entry_body \<Rightarrow> entry_type" where
  "body_type (MessageEntry _ _) = MessageT"
| "body_type (ModelChangeEntry _ _) = ModelChangeT"
| "body_type (ThinkingLevelEntry _) = ThinkingLevelT"
| "body_type (ActiveToolsEntry _) = ActiveToolsT"
| "body_type (CompactionEntry _ _ _ _ _) = CompactionT"
| "body_type (BranchSummaryEntry _ _ _ _) = BranchSummaryT"
| "body_type (CustomEntry _ _) = CustomT"

record provisioned_entry =
  pe_id :: id
  pe_body :: entry_body

record entry =
  e_id :: id
  e_seq :: int
  e_parentId :: "id option"
  e_timestamp :: int
  e_body :: entry_body

abbreviation e_type :: "entry \<Rightarrow> entry_type" where
  "e_type e \<equiv> body_type (e_body e)"

section \<open>Lane records\<close>

record run_intent =
  ri_originalPrompt :: "agent_message list"
  ri_initialMessages :: "provisioned_entry list"
  ri_systemPromptOverride :: "string option"
  ri_resumeData :: "(string \<times> json) list option"

record compaction_intent =
  ci_customInstructions :: "string option"
  ci_resultEntryId :: id

record navigation_intent =
  ni_targetId :: "id option"
  ni_summarize :: bool
  ni_customInstructions :: "string option"
  ni_label :: "string option"
  ni_summaryEntryId :: "id option"

datatype intent =
    RunIntent run_intent
  | CompactionIntent compaction_intent
  | NavigationIntent navigation_intent

datatype operation_kind = RunKind | CompactionKind | NavigationKind

fun intent_kind :: "intent \<Rightarrow> operation_kind" where
  "intent_kind (RunIntent _) = RunKind"
| "intent_kind (CompactionIntent _) = CompactionKind"
| "intent_kind (NavigationIntent _) = NavigationKind"

datatype outcome = Completed | OutcomeAborted | Failed | Declined

datatype step_kind = AssistantStep | CompactionStep | BranchSummaryStep

record step_attempt =
  sa_runId :: id
  sa_step :: step_kind
  sa_attempt :: int
  sa_resultEntryId :: id
  sa_compactionReason :: "string option"  \<comment> \<open>unchecked when read back from a log\<close>

datatype replay = ReplayNever | ReplaySafe

record tool_started =
  ts_runId :: id
  ts_assistantEntryId :: id
  ts_toolIndex :: int
  ts_toolCallId :: id
  ts_toolName :: string
  ts_effectiveArgs :: json
  ts_resultEntryId :: id
  ts_replay :: replay

datatype queue_kind = SteerQueue | FollowUpQueue | NextRunQueue

datatype usage_cause =
    AssistantCause | CompactionCause | BranchSummaryCause | DeferredFetchCause
  | ToolCause | HookCause | AdjustmentCause

record usage_record =
  ur_usage :: usage
  ur_cause :: usage_cause
  ur_runId :: "id option"
  ur_entryId :: "id option"
  ur_attempt :: "int option"
  ur_stopReason :: "stop_reason option"
  ur_toolCallId :: "id option"
  ur_details :: "json option"

datatype record_body =
    OperationStarted "id option" intent  \<comment> \<open>sourceLeafId, intent\<close>
  | AbortRequested id
  | OperationFinished id outcome "(string \<times> string) option"
      \<comment> \<open>runId, outcome, error code and message\<close>
  | StepAttempt step_attempt
  | ToolStarted tool_started
  | QueueEnqueued queue_kind "id option" provisioned_entry  \<comment> \<open>queue, runId, target\<close>
  | QueueCancelled "id option" id  \<comment> \<open>runId, entryId\<close>
  | WriteDeferred id provisioned_entry  \<comment> \<open>runId, target\<close>
  | UsageRecord usage_record

datatype record_type =
    OperationStartedT | AbortRequestedT | OperationFinishedT | StepAttemptT | ToolStartedT
  | QueueEnqueuedT | QueueCancelledT | WriteDeferredT | UsageT

fun record_body_type :: "record_body \<Rightarrow> record_type" where
  "record_body_type (OperationStarted _ _) = OperationStartedT"
| "record_body_type (AbortRequested _) = AbortRequestedT"
| "record_body_type (OperationFinished _ _ _) = OperationFinishedT"
| "record_body_type (StepAttempt _) = StepAttemptT"
| "record_body_type (ToolStarted _) = ToolStartedT"
| "record_body_type (QueueEnqueued _ _ _) = QueueEnqueuedT"
| "record_body_type (QueueCancelled _ _) = QueueCancelledT"
| "record_body_type (WriteDeferred _ _) = WriteDeferredT"
| "record_body_type (UsageRecord _) = UsageT"

text \<open>The \<^verbatim>\<open>runId\<close> property of a record, where it has one.\<close>

fun body_runId :: "record_body \<Rightarrow> id option" where
  "body_runId (OperationStarted _ _) = None"
| "body_runId (AbortRequested r) = Some r"
| "body_runId (OperationFinished r _ _) = Some r"
| "body_runId (StepAttempt a) = Some (sa_runId a)"
| "body_runId (ToolStarted t) = Some (ts_runId t)"
| "body_runId (QueueEnqueued _ r _) = r"
| "body_runId (QueueCancelled r _) = r"
| "body_runId (WriteDeferred r _) = Some r"
| "body_runId (UsageRecord u) = ur_runId u"

record new_record =
  nr_id :: id
  nr_lane :: lane
  nr_body :: record_body

record lane_record =
  r_id :: id
  r_seq :: int
  r_lane :: lane
  r_timestamp :: int
  r_body :: record_body

section \<open>Queries, log items, metadata, errors\<close>

datatype entry_order = NewestFirst | OldestFirst

record entry_query =
  q_type :: "entry_type option"
  q_customType :: "string option"
  q_order :: "entry_order option"
  q_limit :: "js_num option"
  q_cursor :: "js_num option"  \<comment> \<open>\<^verbatim>\<open>cursor?.afterSeq\<close>\<close>

record branch_bounds =
  bb_start :: "id option"
  bb_stopAtType :: "entry_type option"
  bb_stopAtId :: "id option"

record record_query =
  rq_lane :: "lane option"
  rq_type :: "record_type option"
  rq_runId :: "id option"
  rq_operationKind :: "operation_kind option"
  rq_afterSeq :: "js_num option"
  rq_order :: "entry_order option"
  rq_limit :: "js_num option"

record log_options =
  lo_afterSeq :: "js_num option"
  lo_limit :: "js_num option"

record session_metadata =
  md_id :: id
  md_createdAt :: int
  md_parentSessionId :: "id option"

record session_stats =
  st_messageCount :: int
  st_cachedTokens :: int
  st_uncachedTokens :: int
  st_totalTokens :: int
  st_costTotal :: rat

datatype log_item =
    LogEntry int entry
  | LogRecord int lane_record
  | LogLane int lane "id option"
  | LogName int "string option"
  | LogLabel int id "string option"

fun log_seq :: "log_item \<Rightarrow> int" where
  "log_seq (LogEntry s _) = s"
| "log_seq (LogRecord s _) = s"
| "log_seq (LogLane s _ _) = s"
| "log_seq (LogName s _) = s"
| "log_seq (LogLabel s _ _) = s"

datatype fork_position = ForkBefore | ForkAt

datatype fork_options =
    ForkBranch "id option" "fork_position option"
  | ForkTree

datatype session_error_code =
    NotFound | AlreadyExists | InvalidEntry | InvalidPayload | InvalidLane | InvalidQuery
  | InvalidForkTarget | StorageError

text \<open>The errors the file backend wraps: those of the file system, and of a line that does not decode.\<close>

datatype file_error =
    FileAborted | FileNotFound | PermissionDenied | NotDirectory | IsDirectory | FileInvalid
  | FileNotSupported | FileUnknown

datatype jsonl_decode_error =
    JsonlSyntax
  | NotAnObject
  | InvalidField string
  | NotAHeader
  | UnsupportedVersion
  | BothParents
  | UnknownEntryType string
  | UnknownRecordType string
  | UnknownOperationKind string
  | UnknownFactType
  | UnknownMutationKind
  | MissingHeader

text \<open>
  \<^verbatim>\<open>SessionError\<close>: its code and what its message reports. Each message template of the
  code is a constructor over the values it prints.
\<close>

datatype error_detail =
    NonConsecutiveSeq int
  | DuplicateId id
  | MissingLane lane
  | NotChainedToLeaf
  | MissingParent id
  | MissingLaneTarget id
  | MissingLabelTarget id
  | LimitNotPositive
  | CursorNegative
  | LaneNotFound lane
  | LaneExists lane
  | EntryNotFound id
  | IdExists id
  | BranchCycle id
  | ForkTargetNotMessage id
  | OpenOperation lane id
  | SessionExists id
  | SessionNotFound id
  | OperationKindNeedsType
  | PayloadNotSerializable string
  | FileFailed string string file_error  \<comment> \<open>what failed, path, cause\<close>
  | InvalidLine string nat "jsonl_decode_error + error_detail"  \<comment> \<open>path, line number, cause\<close>
  | InvalidSessionId
  | HeaderMismatch id

datatype session_error = SessionError session_error_code error_detail

end
