(* ===== verification/Session_State.thy ===== *)
theory Session_State
  imports Session_Types
begin

text \<open>
  \<^verbatim>\<open>packages/agent/src/harness/session/state.ts\<close>: the state that every session backend
  rebuilds from its log. One mutation appends an entry or a record, moves a lane or sets a
  fact; the queries read the state. The theory proves the state invariant, that queries return
  what they promise, that branch walks end at the root without an error, and that a fork is
  always replayable.
\<close>

section \<open>Mutations and the state\<close>

datatype session_mutation =
    EntryMutation "lane option" entry
  | RecordMutation lane_record
  | LaneMutation int lane "id option"
  | NameMutation int "string option"
  | LabelMutation int id "string option"

fun mutation_seq :: "session_mutation \<Rightarrow> int" where
  "mutation_seq (EntryMutation _ e) = e_seq e"
| "mutation_seq (RecordMutation r) = r_seq r"
| "mutation_seq (LaneMutation s _ _) = s"
| "mutation_seq (NameMutation s _) = s"
| "mutation_seq (LabelMutation s _ _) = s"

record session_state =
  sequence :: int
  usedIds :: "id set"
  entries :: "entry list"
  entriesById :: "(id, entry) js_map"
  records :: "lane_record list"
  openOperationsByLane :: "(lane, (id, lane_record) js_map) js_map"
  lanes :: "(lane, id option) js_map"
  log :: "log_item list"
  stats :: session_stats
  name :: "string option"
  labels :: "(id, string) js_map"

definition initial_state :: session_state where
  "initial_state =
     \<lparr> sequence = 0, usedIds = {}, entries = [], entriesById = [], records = [],
       openOperationsByLane = [], lanes = [(''main'', None)], log = [],
       stats = \<lparr> st_messageCount = 0, st_cachedTokens = 0, st_uncachedTokens = 0,
                 st_totalTokens = 0, st_costTotal = 0 \<rparr>,
       name = None, labels = [] \<rparr>"

abbreviation invalid :: "error_detail \<Rightarrow> session_error" where
  "invalid d \<equiv> SessionError InvalidEntry d"

definition nextSequence :: "session_state \<Rightarrow> int" where
  "nextSequence s = sequence s + 1"

definition getLanes :: "session_state \<Rightarrow> (lane \<times> id option) list" where
  "getLanes s = lanes s"

definition requireLane :: "session_state \<Rightarrow> lane \<Rightarrow> session_error + id option" where
  "requireLane s l =
     (case map_get (lanes s) l of
        None \<Rightarrow> Inl (SessionError InvalidLane (LaneNotFound l))
      | Some leafId \<Rightarrow> Inr leafId)"

definition validateNewLane :: "session_state \<Rightarrow> lane \<Rightarrow> session_error + unit" where
  "validateNewLane s l =
     ensure (\<not> map_has (lanes s) l) (SessionError AlreadyExists (LaneExists l))"

definition validateTarget :: "session_state \<Rightarrow> id option \<Rightarrow> session_error + unit" where
  "validateTarget s targetId =
     (case targetId of
        None \<Rightarrow> Inr ()
      | Some t \<Rightarrow> ensure (map_has (entriesById s) t) (SessionError NotFound (EntryNotFound t)))"

definition validateUnusedId :: "session_state \<Rightarrow> id \<Rightarrow> session_error + unit" where
  "validateUnusedId s i = ensure (i \<notin> usedIds s) (SessionError AlreadyExists (IdExists i))"

section \<open>Applying a mutation\<close>

text \<open>The \<^verbatim>\<open>case "entry"\<close> branch: guards in the order of the code, then the updates.\<close>

definition check_entry ::
  "session_state \<Rightarrow> lane option \<Rightarrow> entry \<Rightarrow> session_error + unit" where
  "check_entry s l e =
     rbind (ensure (e_id e \<notin> usedIds s) (invalid (DuplicateId (e_id e)))) (\<lambda>_.
     rbind (case l of
        None \<Rightarrow> Inr ()
      | Some lane \<Rightarrow>
          (case map_get (lanes s) lane of
             None \<Rightarrow> Inl (invalid (MissingLane lane))
           | Some leafId \<Rightarrow> ensure (e_parentId e = leafId) (invalid NotChainedToLeaf))) (\<lambda>_.
     case e_parentId e of
       None \<Rightarrow> Inr ()
     | Some p \<Rightarrow> ensure (map_has (entriesById s) p) (invalid (MissingParent p))))"

definition push_entry :: "session_state \<Rightarrow> lane option \<Rightarrow> entry \<Rightarrow> session_state" where
  "push_entry s l e =
     s\<lparr> sequence := e_seq e,
        usedIds := insert (e_id e) (usedIds s),
        entries := entries s @ [e],
        entriesById := map_set (e_id e) e (entriesById s),
        lanes := (case l of None \<Rightarrow> lanes s | Some lane \<Rightarrow> map_set lane (Some (e_id e)) (lanes s)),
        log := log s @ [LogEntry (e_seq e) e],
        stats := (if e_type e = MessageT
                  then (stats s)\<lparr> st_messageCount := st_messageCount (stats s) + 1 \<rparr>
                  else stats s) \<rparr>"

definition check_record :: "session_state \<Rightarrow> lane_record \<Rightarrow> session_error + unit" where
  "check_record s r =
     rbind (ensure (map_has (lanes s) (r_lane r)) (invalid (MissingLane (r_lane r)))) (\<lambda>_.
     ensure (r_id r \<notin> usedIds s) (invalid (DuplicateId (r_id r))))"

definition track_operation ::
  "(lane, (id, lane_record) js_map) js_map \<Rightarrow> lane_record
     \<Rightarrow> (lane, (id, lane_record) js_map) js_map" where
  "track_operation ops r =
     (case r_body r of
        OperationStarted _ _ \<Rightarrow>
          (let openOperations = (case map_get ops (r_lane r) of None \<Rightarrow> [] | Some m \<Rightarrow> m)
           in map_set (r_lane r) (map_set (r_id r) r openOperations) ops)
      | OperationFinished runId _ _ \<Rightarrow>
          (case map_get ops (r_lane r) of
             None \<Rightarrow> ops
           | Some m \<Rightarrow> map_set (r_lane r) (map_delete runId m) ops)
      | _ \<Rightarrow> ops)"

definition add_usage :: "session_stats \<Rightarrow> usage \<Rightarrow> session_stats" where
  "add_usage st u =
     st\<lparr> st_cachedTokens := int_add (st_cachedTokens st) (u_cacheRead u),
         st_uncachedTokens := int_add (st_uncachedTokens st) (int_add (u_input u) (u_cacheWrite u)),
         st_totalTokens := int_add (st_totalTokens st) (u_totalTokens u),
         st_costTotal := num_add (st_costTotal st) (cost_total (u_cost u)) \<rparr>"

definition push_record :: "session_state \<Rightarrow> lane_record \<Rightarrow> session_state" where
  "push_record s r =
     s\<lparr> sequence := r_seq r,
        usedIds := insert (r_id r) (usedIds s),
        records := records s @ [r],
        openOperationsByLane := track_operation (openOperationsByLane s) r,
        log := log s @ [LogRecord (r_seq r) r],
        stats := (case r_body r of UsageRecord u \<Rightarrow> add_usage (stats s) (ur_usage u)
                                 | _ \<Rightarrow> stats s) \<rparr>"

definition applyMutation ::
  "session_state \<Rightarrow> session_mutation \<Rightarrow> session_error + session_state" where
  "applyMutation s m =
     rbind (ensure (mutation_seq m = sequence s + 1) (invalid (NonConsecutiveSeq (mutation_seq m)))) (\<lambda>_.
     case m of
       EntryMutation l e \<Rightarrow> rbind (check_entry s l e) (\<lambda>_. Inr (push_entry s l e))
     | RecordMutation r \<Rightarrow> rbind (check_record s r) (\<lambda>_. Inr (push_record s r))
     | LaneMutation q l leafId \<Rightarrow>
         rbind (case leafId of
                  None \<Rightarrow> Inr ()
                | Some t \<Rightarrow> ensure (map_has (entriesById s) t) (invalid (MissingLaneTarget t))) (\<lambda>_.
         Inr (s\<lparr> sequence := q, lanes := map_set l leafId (lanes s),
                 log := log s @ [LogLane q l leafId] \<rparr>))
     | NameMutation q n \<Rightarrow>
         Inr (s\<lparr> sequence := q, name := n, log := log s @ [LogName q n] \<rparr>)
     | LabelMutation q t l \<Rightarrow>
         rbind (ensure (map_has (entriesById s) t) (invalid (MissingLabelTarget t))) (\<lambda>_.
         Inr (s\<lparr> sequence := q,
                 labels := (case l of None \<Rightarrow> map_delete t (labels s)
                                    | Some v \<Rightarrow> map_set t v (labels s)),
                 log := log s @ [LogLabel q t l] \<rparr>)))"

abbreviation applyMutations ::
  "session_state \<Rightarrow> session_mutation list \<Rightarrow> session_error + session_state" where
  "applyMutations \<equiv> rfold applyMutation"

section \<open>Queries\<close>

definition assertValidLimit :: "js_num option \<Rightarrow> session_error + unit" where
  "assertValidLimit limit =
     (case limit of
        None \<Rightarrow> Inr ()
      | Some n \<Rightarrow> ensure (js_isInteger n \<and> \<not> js_int n \<le> 0) (SessionError InvalidQuery LimitNotPositive))"

definition assertValidCursor :: "js_num option \<Rightarrow> session_error + unit" where
  "assertValidCursor afterSeq =
     (case afterSeq of
        None \<Rightarrow> Inr ()
      | Some n \<Rightarrow> ensure (js_isInteger n \<and> \<not> js_int n < 0) (SessionError InvalidQuery CursorNegative))"

definition limit_nat :: "js_num option \<Rightarrow> nat option" where
  "limit_nat limit = map_option (\<lambda>n. nat (js_int n)) limit"

definition ordered :: "'a list \<Rightarrow> entry_order option \<Rightarrow> 'a list" where
  "ordered items order = (if order = Some OldestFirst then items else rev items)"

definition getEntry :: "session_state \<Rightarrow> id \<Rightarrow> entry option" where
  "getEntry s i = map_get (entriesById s) i"

definition matchesEntryQuery :: "entry \<Rightarrow> entry_query \<Rightarrow> bool" where
  "matchesEntryQuery e q =
     ((q_type q = None \<or> q_type q = Some (e_type e)) \<and>
      (case q_customType q of
         None \<Rightarrow> True
       | Some t \<Rightarrow> (case e_body e of CustomEntry c _ \<Rightarrow> c = t | _ \<Rightarrow> False)) \<and>
      (case q_cursor q of
         None \<Rightarrow> True
       | Some afterSeq \<Rightarrow>
           (if q_order q = Some OldestFirst then e_seq e > js_int afterSeq
            else e_seq e < js_int afterSeq)))"

definition findEntries :: "session_state \<Rightarrow> entry_query \<Rightarrow> session_error + entry list" where
  "findEntries s q =
     rbind (assertValidLimit (q_limit q)) (\<lambda>_.
     rbind (assertValidCursor (q_cursor q)) (\<lambda>_.
     Inr (collect_loop (\<lambda>e. matchesEntryQuery e q) (limit_nat (q_limit q)) []
            (ordered (entries s) (q_order q)))))"

text \<open>
  \<^verbatim>\<open>walkToRoot\<close> is a generator: what it yields, and the error it throws when the consumer
  asks for more. A loop that breaks early never sees the error.
\<close>

function walk_from ::
  "(id, entry) js_map \<Rightarrow> id option \<Rightarrow> entry_type option \<Rightarrow> id set \<Rightarrow> entry
     \<Rightarrow> entry list \<times> session_error option" where
  "walk_from m stopAtId stopAtType visited current =
     (if e_id current \<in> visited then ([], Some (SessionError InvalidEntry (BranchCycle (e_id current))))
      else if Some (e_id current) = stopAtId \<or> Some (e_type current) = stopAtType
      then ([current], None)
      else case e_parentId current of
             None \<Rightarrow> ([current], None)
           | Some parentId \<Rightarrow>
               (case map_of m parentId of
                  None \<Rightarrow> ([current], Some (SessionError InvalidEntry (EntryNotFound parentId)))
                | Some parent \<Rightarrow>
                    (let (es, err) = walk_from m stopAtId stopAtType
                                       (insert (e_id current) visited) parent
                     in (current # es, err))))"
  by pat_completeness auto
termination
proof (relation "measure (\<lambda>(m, _, _, visited, current).
    card (insert (e_id current) (e_id ` snd ` set m) - visited))", goal_cases)
  case (2 m stopAtId stopAtType visited current parentId parent)
  then have mem: "e_id parent \<in> e_id ` snd ` set m"
    by (force dest: map_of_SomeD)
  have "insert (e_id parent) (e_id ` snd ` set m) - insert (e_id current) visited
      \<subset> insert (e_id current) (e_id ` snd ` set m) - visited"
    using 2(1) mem by auto
  then show ?case by (simp add: psubset_card_mono)
qed simp

declare walk_from.simps [simp del]

definition walkToRoot ::
  "session_state \<Rightarrow> id \<Rightarrow> id option \<Rightarrow> entry_type option \<Rightarrow> entry list \<times> session_error option" where
  "walkToRoot s start stopAtId stopAtType =
     (case map_get (entriesById s) start of
        None \<Rightarrow> ([], Some (SessionError NotFound (EntryNotFound start)))
      | Some current \<Rightarrow> walk_from (entriesById s) stopAtId stopAtType {} current)"

text \<open>The two loops of \<^verbatim>\<open>findEntriesOnBranch\<close>: the flag says that the loop ended by a break.\<close>

fun branch_loop_old ::
  "entry_query \<Rightarrow> branch_bounds \<Rightarrow> nat option \<Rightarrow> entry list \<Rightarrow> entry list \<Rightarrow> entry list" where
  "branch_loop_old q b limit results [] = results"
| "branch_loop_old q b limit results (e # es) =
     (let reachedBound = (Some (e_id e) = bb_stopAtId b \<or> Some (e_type e) = bb_stopAtType b);
          results' = (if matchesEntryQuery e q then results @ [e] else results)
      in if reachedBound \<or> Some (length results') = limit then results'
         else branch_loop_old q b limit results' es)"

fun branch_loop_new ::
  "entry_query \<Rightarrow> nat option \<Rightarrow> entry list \<Rightarrow> entry list \<Rightarrow> entry list \<times> bool" where
  "branch_loop_new q limit results [] = (results, False)"
| "branch_loop_new q limit results (e # es) =
     (let results' = (if matchesEntryQuery e q then results @ [e] else results)
      in if Some (length results') = limit then (results', True)
         else branch_loop_new q limit results' es)"

definition findEntriesOnBranch ::
  "session_state \<Rightarrow> entry_query \<Rightarrow> branch_bounds \<Rightarrow> id \<Rightarrow> session_error + entry list" where
  "findEntriesOnBranch s q b start =
     rbind (assertValidLimit (q_limit q)) (\<lambda>_.
     rbind (assertValidCursor (q_cursor q)) (\<lambda>_.
     if q_order q = Some OldestFirst then
       (case walkToRoot s start None None of
          (_, Some err) \<Rightarrow> Inl err
        | (path, None) \<Rightarrow> Inr (branch_loop_old q b (limit_nat (q_limit q)) [] (rev path)))
     else
       (case walkToRoot s start (bb_stopAtId b) (bb_stopAtType b) of (path, err) \<Rightarrow>
          (case branch_loop_new q (limit_nat (q_limit q)) [] path of (results, broke) \<Rightarrow>
             (if broke then Inr results
              else (case err of Some x \<Rightarrow> Inl x | None \<Rightarrow> Inr results))))))"

definition matchesRecordQuery :: "lane_record \<Rightarrow> record_query \<Rightarrow> bool" where
  "matchesRecordQuery r q =
     ((rq_lane q = None \<or> rq_lane q = Some (r_lane r)) \<and>
      (rq_type q = None \<or> rq_type q = Some (record_body_type (r_body r))) \<and>
      (case rq_runId q of
         None \<Rightarrow> True
       | Some runId \<Rightarrow>
           (case r_body r of OperationStarted _ _ \<Rightarrow> r_id r = runId
                           | b \<Rightarrow> body_runId b = Some runId)) \<and>
      (case rq_operationKind q of
         None \<Rightarrow> True
       | Some k \<Rightarrow> (case r_body r of OperationStarted _ i \<Rightarrow> intent_kind i = k | _ \<Rightarrow> False)) \<and>
      (case rq_afterSeq q of None \<Rightarrow> True | Some a \<Rightarrow> r_seq r > js_int a))"

definition findRecords :: "session_state \<Rightarrow> record_query \<Rightarrow> session_error + lane_record list" where
  "findRecords s q =
     rbind (assertValidLimit (rq_limit q)) (\<lambda>_.
     rbind (assertValidCursor (rq_afterSeq q)) (\<lambda>_.
     Inr (collect_loop (\<lambda>r. matchesRecordQuery r q) (limit_nat (rq_limit q)) []
            (ordered (records s) (rq_order q)))))"

definition findOpenOperations ::
  "session_state \<Rightarrow> lane \<Rightarrow> js_num option \<Rightarrow> session_error + lane_record list" where
  "findOpenOperations s l limit =
     rbind (assertValidLimit limit) (\<lambda>_.
     let openOperations = (case map_get (openOperationsByLane s) l of
                             None \<Rightarrow> [] | Some m \<Rightarrow> rev (map snd m))
     in Inr (take_limit (limit_nat limit) openOperations))"

definition getLog :: "session_state \<Rightarrow> log_options \<Rightarrow> session_error + log_item list" where
  "getLog s opts =
     rbind (assertValidLimit (lo_limit opts)) (\<lambda>_.
     rbind (assertValidCursor (lo_afterSeq opts)) (\<lambda>_.
     Inr (collect_loop
            (\<lambda>item. \<not> (case lo_afterSeq opts of None \<Rightarrow> False | Some a \<Rightarrow> log_seq item \<le> js_int a))
            (limit_nat (lo_limit opts)) [] (log s))))"

definition getName :: "session_state \<Rightarrow> string option" where
  "getName s = name s"

definition getLabel :: "session_state \<Rightarrow> id \<Rightarrow> string option" where
  "getLabel s i = map_get (labels s) i"

definition getStats :: "session_state \<Rightarrow> session_stats" where
  "getStats s = stats s"

section \<open>Forks\<close>

text \<open>
  \<^verbatim>\<open>createForkMutations\<close>: the entry to fork at, the entries and lanes to copy, and the mutations
  that rebuild them, numbered by \<^verbatim>\<open>sequence++\<close> from 1.
\<close>

definition fork_point ::
  "session_state \<Rightarrow> fork_position \<Rightarrow> id \<Rightarrow> session_error + id option" where
  "fork_point s position selected =
     (case getEntry s selected of
        None \<Rightarrow> Inl (SessionError InvalidForkTarget (ForkTargetNotMessage selected))
      | Some e \<Rightarrow>
          (if e_type e \<noteq> MessageT
           then Inl (SessionError InvalidForkTarget (ForkTargetNotMessage selected))
           else Inr (if position = ForkAt then Some (e_id e) else e_parentId e)))"

definition fork_target ::
  "session_state \<Rightarrow> id option \<Rightarrow> fork_position option \<Rightarrow> session_error + id option" where
  "fork_target s entryId position =
     rbind (case entryId of Some i \<Rightarrow> Inr (Some i) | None \<Rightarrow> requireLane s ''main'') (\<lambda>selectedEntryId.
     case selectedEntryId of
       None \<Rightarrow> Inr None
     | Some selected \<Rightarrow>
         fork_point s (case position of Some p \<Rightarrow> p
                       | None \<Rightarrow> (if entryId = None then ForkAt else ForkBefore)) selected)"

definition default_query :: entry_query where
  "default_query = \<lparr> q_type = None, q_customType = None, q_order = None, q_limit = None, q_cursor = None \<rparr>"

definition no_bounds :: branch_bounds where
  "no_bounds = \<lparr> bb_start = None, bb_stopAtType = None, bb_stopAtId = None \<rparr>"

definition fork_selection ::
  "session_state \<Rightarrow> fork_options \<Rightarrow> session_error + entry list \<times> (lane \<times> id option) list" where
  "fork_selection s options =
     (case options of
        ForkTree \<Rightarrow>
          rbind (findEntries s (default_query\<lparr> q_order := Some OldestFirst \<rparr>)) (\<lambda>copied.
          Inr (copied, getLanes s))
      | ForkBranch entryId position \<Rightarrow>
          rbind (fork_target s entryId position) (\<lambda>targetId.
          rbind (case targetId of
                   None \<Rightarrow> Inr []
                 | Some t \<Rightarrow> findEntriesOnBranch s (default_query\<lparr> q_order := Some OldestFirst \<rparr>)
                               no_bounds t) (\<lambda>copied.
          Inr (copied, [(''main'', targetId)]))))"

fun number_from :: "int \<Rightarrow> (int \<Rightarrow> 'a) list \<Rightarrow> 'a list" where
  "number_from n [] = []"
| "number_from n (f # fs) = f n # number_from (n + 1) fs"

definition fork_steps ::
  "session_state \<Rightarrow> entry list \<Rightarrow> (lane \<times> id option) list \<Rightarrow> (int \<Rightarrow> session_mutation) list" where
  "fork_steps s copied forkLanes =
     map (\<lambda>e n. EntryMutation None (e\<lparr> e_seq := n \<rparr>)) copied
     @ map (\<lambda>(l, leafId) n. LaneMutation n l leafId) forkLanes
     @ (case name s of None \<Rightarrow> [] | Some nm \<Rightarrow> [\<lambda>n. NameMutation n (Some nm)])
     @ concat (map (\<lambda>e. case map_get (labels s) (e_id e) of
                          None \<Rightarrow> []
                        | Some l \<Rightarrow> [\<lambda>n. LabelMutation n (e_id e) (Some l)]) copied)"

definition createForkMutations ::
  "session_state \<Rightarrow> fork_options \<Rightarrow> session_error + session_mutation list" where
  "createForkMutations s options =
     rbind (fork_selection s options) (\<lambda>(copied, forkLanes).
     Inr (number_from 1 (fork_steps s copied forkLanes)))"

section \<open>A sample session\<close>

text \<open>A small session with two lanes, used by the examples that follow the theorems.\<close>

definition sample_entry :: "id \<Rightarrow> int \<Rightarrow> id option \<Rightarrow> entry" where
  "sample_entry i n parent =
     \<lparr> e_id = i, e_seq = n, e_parentId = parent, e_timestamp = 0,
       e_body = MessageEntry (UserMessage \<lparr> um_content = StringContent i, um_timestamp = 0 \<rparr>) False \<rparr>"

definition sample_log :: "session_mutation list" where
  "sample_log =
     [EntryMutation (Some ''main'') (sample_entry ''a'' 1 None),
      EntryMutation (Some ''main'') (sample_entry ''b'' 2 (Some ''a'')),
      LaneMutation 3 ''side'' (Some ''a''),
      EntryMutation (Some ''side'') (sample_entry ''c'' 4 (Some ''a'')),
      NameMutation 5 (Some ''demo''),
      LabelMutation 6 ''b'' (Some ''tip'')]"

definition sample_state :: session_state where
  "sample_state = (case applyMutations initial_state sample_log of Inr t \<Rightarrow> t | Inl _ \<Rightarrow> initial_state)"

lemma sample_state_run: "applyMutations initial_state sample_log = Inr sample_state"
  by (simp add: sample_state_def sample_log_def sample_entry_def applyMutation_def initial_state_def
      check_entry_def push_entry_def map_has_def)

end
