(* ===== verification/Session_Invariant.thy ===== *)
theory Session_Invariant
  imports Session_State
begin

text \<open>
  What every session state satisfies: the log is numbered without gaps, identifiers are used
  once, every parent is an earlier entry, lanes and labels point at entries, and the derived
  fields (index, open operations, statistics) agree with the entries and records they are
  derived from.
\<close>

section \<open>Machines whose steps may fail\<close>

locale fallible_machine =
  fixes step :: "'s \<Rightarrow> 'a \<Rightarrow> 'e + 's"
    and init :: 's
    and inv :: "'s \<Rightarrow> bool"
  assumes inv_init: "inv init"
    and inv_step: "inv s \<Longrightarrow> step s x = Inr s' \<Longrightarrow> inv s'"
begin

lemma inv_run: "inv s \<Longrightarrow> rfold step s xs = Inr t \<Longrightarrow> inv t"
  using rfold_invariant [of xs inv step s t] inv_step by blast

lemma inv_reachable: "rfold step init xs = Inr t \<Longrightarrow> inv t"
  using inv_init by (rule inv_run)

lemma inv_prefix:
  assumes "rfold step init (xs @ ys) = Inr t"
  shows "\<exists>s. rfold step init xs = Inr s \<and> inv s \<and> rfold step s ys = Inr t"
  using assms by (auto simp: rfold_append rbind_Inr_iff intro: inv_reachable)

end

section \<open>The invariant\<close>

fun parents_ok :: "id set \<Rightarrow> entry list \<Rightarrow> bool" where
  "parents_ok seen [] = True"
| "parents_ok seen (e # es) =
     ((case e_parentId e of None \<Rightarrow> True | Some p \<Rightarrow> p \<in> seen) \<and>
      parents_ok (insert (e_id e) seen) es)"

definition starts_on :: "lane \<Rightarrow> lane_record \<Rightarrow> bool" where
  "starts_on l r = (r_lane r = l \<and> record_body_type (r_body r) = OperationStartedT)"

definition finishes_on :: "lane \<Rightarrow> id \<Rightarrow> lane_record \<Rightarrow> bool" where
  "finishes_on l i r =
     (r_lane r = l \<and> (case r_body r of OperationFinished runId _ _ \<Rightarrow> runId = i | _ \<Rightarrow> False))"

text \<open>The operations of a lane that started and were not finished later, oldest first.\<close>

fun open_started :: "lane \<Rightarrow> lane_record list \<Rightarrow> lane_record list" where
  "open_started l [] = []"
| "open_started l (r # rs) =
     (if starts_on l r \<and> \<not> list_ex (finishes_on l (r_id r)) rs then r # open_started l rs
      else open_started l rs)"

definition record_usages :: "lane_record list \<Rightarrow> usage list" where
  "record_usages rs =
     concat (map (\<lambda>r. case r_body r of UsageRecord u \<Rightarrow> [ur_usage u] | _ \<Rightarrow> []) rs)"

definition log_entries :: "log_item list \<Rightarrow> entry list" where
  "log_entries is = concat (map (\<lambda>i. case i of LogEntry _ e \<Rightarrow> [e] | _ \<Rightarrow> []) is)"

definition log_records :: "log_item list \<Rightarrow> lane_record list" where
  "log_records is = concat (map (\<lambda>i. case i of LogRecord _ r \<Rightarrow> [r] | _ \<Rightarrow> []) is)"

definition log_item_ok :: "log_item \<Rightarrow> bool" where
  "log_item_ok i =
     (case i of LogEntry s e \<Rightarrow> e_seq e = s | LogRecord s r \<Rightarrow> r_seq r = s | _ \<Rightarrow> True)"

definition log_inv :: "session_state \<Rightarrow> bool" where
  "log_inv s =
     (map log_seq (log s) = map int [1..<Suc (length (log s))] \<and>
      sequence s = int (length (log s)) \<and>
      list_all log_item_ok (log s) \<and>
      entries s = log_entries (log s) \<and>
      records s = log_records (log s))"

definition tree_inv :: "session_state \<Rightarrow> bool" where
  "tree_inv s =
     (distinct (map e_id (entries s) @ map r_id (records s)) \<and>
      usedIds s = e_id ` set (entries s) \<union> r_id ` set (records s) \<and>
      entriesById s = map (\<lambda>e. (e_id e, e)) (entries s) \<and>
      parents_ok {} (entries s))"

definition targets_in :: "id set \<Rightarrow> (lane \<times> id option) list \<Rightarrow> bool" where
  "targets_in A ls = list_all (\<lambda>p. case snd p of None \<Rightarrow> True | Some t \<Rightarrow> t \<in> A) ls"

definition pointer_inv :: "session_state \<Rightarrow> bool" where
  "pointer_inv s =
     (distinct (map fst (lanes s)) \<and>
      ''main'' \<in> fst ` set (lanes s) \<and>
      targets_in (e_id ` set (entries s)) (lanes s) \<and>
      distinct (map fst (labels s)) \<and>
      fst ` set (labels s) \<subseteq> e_id ` set (entries s))"

definition open_inv :: "session_state \<Rightarrow> bool" where
  "open_inv s =
     (\<forall>l. (case map_get (openOperationsByLane s) l of None \<Rightarrow> [] | Some m \<Rightarrow> m)
          = map (\<lambda>r. (r_id r, r)) (open_started l (records s)))"

text \<open>
  The totals are running sums in the order of the records, each addition rounded to a binary64
  number.
\<close>

definition running_total :: "('a \<Rightarrow> int) \<Rightarrow> 'a list \<Rightarrow> int" where
  "running_total f us = foldl (\<lambda>t u. int_add t (f u)) 0 us"

definition running_cost :: "usage list \<Rightarrow> rat" where
  "running_cost us = foldl (\<lambda>t u. num_add t (cost_total (u_cost u))) 0 us"

definition stats_inv :: "session_state \<Rightarrow> bool" where
  "stats_inv s =
     (stats s =
       \<lparr> st_messageCount = int (length (filter (\<lambda>e. e_type e = MessageT) (entries s))),
         st_cachedTokens = running_total u_cacheRead (record_usages (records s)),
         st_uncachedTokens =
           running_total (\<lambda>u. int_add (u_input u) (u_cacheWrite u)) (record_usages (records s)),
         st_totalTokens = running_total u_totalTokens (record_usages (records s)),
         st_costTotal = running_cost (record_usages (records s)) \<rparr>)"

definition session_inv :: "session_state \<Rightarrow> bool" where
  "session_inv s = (log_inv s \<and> tree_inv s \<and> pointer_inv s \<and> open_inv s \<and> stats_inv s)"

text \<open>Token totals that stay safe integers are exact sums.\<close>

lemma running_total_exact:
  assumes "\<forall>u \<in> set us. 0 \<le> f u" and "sum_list (map f us) \<le> MAX_SAFE_INTEGER"
  shows "running_total f us = sum_list (map f us)"
  using assms
proof (induction us rule: rev_induct)
  case (snoc u us)
  have "0 \<le> sum_list (map f us)" using snoc.prems(1) by (intro sum_list_nonneg) auto
  with snoc show ?case by (simp add: running_total_def int_add_safe)
qed (simp add: running_total_def)

lemma running_snoc [simp]:
  "running_total f [] = 0" "running_total f (us @ [u]) = int_add (running_total f us) (f u)"
  "running_cost [] = 0" "running_cost (vs @ [v]) = num_add (running_cost vs) (cost_total (u_cost v))"
  by (simp_all add: running_total_def running_cost_def)

section \<open>Every mutation keeps it\<close>

lemma session_inv_initial: "session_inv initial_state"
  by (simp add: session_inv_def log_inv_def tree_inv_def pointer_inv_def open_inv_def stats_inv_def
      initial_state_def log_entries_def log_records_def record_usages_def targets_in_def)

lemma parents_ok_append:
  "parents_ok seen (es @ [e]) \<longleftrightarrow>
     parents_ok seen es \<and>
     (case e_parentId e of None \<Rightarrow> True | Some p \<Rightarrow> p \<in> seen \<union> e_id ` set es)"
  by (induction es arbitrary: seen) (auto split: option.splits)

lemma open_started_snoc:
  "open_started l (rs @ [r]) =
     filter (\<lambda>x. \<not> finishes_on l (r_id x) r) (open_started l rs) @ (if starts_on l r then [r] else [])"
  by (induction rs) auto

lemma open_started_subset: "set (open_started l rs) \<subseteq> set rs"
  by (induction rs) auto

lemma log_projections_snoc [simp]:
  "log_entries (is @ [i]) = log_entries is @ (case i of LogEntry _ e \<Rightarrow> [e] | _ \<Rightarrow> [])"
  "log_records (is @ [i]) = log_records is @ (case i of LogRecord _ r \<Rightarrow> [r] | _ \<Rightarrow> [])"
  by (simp_all add: log_entries_def log_records_def)

lemma record_usages_snoc [simp]:
  "record_usages (rs @ [r]) =
     record_usages rs @ (case r_body r of UsageRecord u \<Rightarrow> [ur_usage u] | _ \<Rightarrow> [])"
  by (simp add: record_usages_def)

lemma index_has [simp]: "map_has (map (\<lambda>e. (e_id e, e)) es) i \<longleftrightarrow> i \<in> e_id ` set es"
  by (force simp: map_has_iff)

lemma index_set_new:
  "i \<notin> e_id ` set es \<Longrightarrow> e_id e = i \<Longrightarrow>
   map_set i e (map (\<lambda>e. (e_id e, e)) es) = map (\<lambda>e. (e_id e, e)) (es @ [e])"
  by (subst map_set_new) (auto simp: map_of_eq_None_iff)

lemmas inv_defs = log_inv_def tree_inv_def pointer_inv_def open_inv_def stats_inv_def

text \<open>The log part: one new item, numbered by the next sequence number.\<close>

lemma log_inv_push:
  assumes "log_inv s" and "log t = log s @ [i]" and "log_seq i = sequence s + 1"
    and "sequence t = sequence s + 1" and "log_item_ok i"
    and "entries t = entries s @ (case i of LogEntry _ e \<Rightarrow> [e] | _ \<Rightarrow> [])"
    and "records t = records s @ (case i of LogRecord _ r \<Rightarrow> [r] | _ \<Rightarrow> [])"
  shows "log_inv t"
  using assms by (simp add: log_inv_def)

lemma map_set_values:
  "(k', v') \<in> set (map_set k v m) \<Longrightarrow> (k', v') \<in> set m \<or> (k' = k \<and> v' = v)"
  by (induction m) (auto split: if_splits)

lemma check_entry_fresh: "check_entry s l e = Inr u \<Longrightarrow> e_id e \<notin> usedIds s"
  by (auto simp: check_entry_def rbind_Inr_iff)

lemma check_entry_parent:
  "check_entry s l e = Inr u \<Longrightarrow> e_parentId e = Some p \<Longrightarrow> map_has (entriesById s) p"
  by (auto simp: check_entry_def rbind_Inr_iff)

lemma check_entry_lane:
  "check_entry s (Some l) e = Inr u \<Longrightarrow> map_get (lanes s) l = Some (e_parentId e)"
  by (auto simp: check_entry_def rbind_Inr_iff split: option.splits)

lemma targets_in_mono: "targets_in A m \<Longrightarrow> A \<subseteq> B \<Longrightarrow> targets_in B m"
  by (auto simp: targets_in_def list_all_iff split: option.splits)

lemma targets_in_set:
  "targets_in A m \<Longrightarrow> (\<And>t. v = Some t \<Longrightarrow> t \<in> A) \<Longrightarrow> targets_in A (map_set k v m)"
  by (induction m) (auto simp: targets_in_def split: option.splits)

lemma targets_in_get: "targets_in A m \<Longrightarrow> map_get m l = Some (Some t) \<Longrightarrow> t \<in> A"
  by (auto simp: targets_in_def list_all_iff dest!: map_of_SomeD)

lemma tree_inv_entry:
  assumes "tree_inv s" and "check_entry s l e = Inr u"
  shows "tree_inv (push_entry s l e)"
proof -
  note fresh = check_entry_fresh [OF assms(2)]
  have "parents_ok {} (entries s @ [e])"
    using assms check_entry_parent [OF assms(2)]
    by (auto simp: tree_inv_def parents_ok_append split: option.splits)
  moreover have "entriesById (push_entry s l e) = map (\<lambda>e. (e_id e, e)) (entries s @ [e])"
    using assms(1) fresh by (simp add: tree_inv_def push_entry_def index_set_new)
  ultimately show ?thesis
    using assms(1) fresh by (auto simp: tree_inv_def push_entry_def)
qed

lemma pointer_inv_entry:
  assumes "pointer_inv s"
  shows "pointer_inv (push_entry s l e)"
proof -
  have "targets_in (e_id ` set (entries s @ [e])) (lanes s)"
    using assms by (auto simp: pointer_inv_def intro: targets_in_mono)
  then have "targets_in (e_id ` set (entries s @ [e])) (lanes (push_entry s l e))"
    by (cases l) (auto simp: push_entry_def intro!: targets_in_set)
  with assms show ?thesis
    by (cases l) (auto simp: pointer_inv_def push_entry_def distinct_update dom_update)
qed

lemma session_inv_entry:
  assumes inv: "session_inv s" and seq: "e_seq e = sequence s + 1"
    and ok: "check_entry s l e = Inr u"
  shows "session_inv (push_entry s l e)"
proof -
  have "log_inv (push_entry s l e)"
    by (rule log_inv_push [where s = s and i = "LogEntry (e_seq e) e"])
      (use inv seq in \<open>simp_all add: session_inv_def push_entry_def log_item_ok_def\<close>)
  moreover have "open_inv (push_entry s l e)" "stats_inv (push_entry s l e)"
    using inv by (simp_all add: session_inv_def open_inv_def stats_inv_def push_entry_def)
  ultimately show ?thesis
    using inv ok by (simp add: session_inv_def tree_inv_entry pointer_inv_entry)
qed

lemma index_delete:
  "map_delete i (map (\<lambda>r. (r_id r, r)) rs) = map (\<lambda>r. (r_id r, r)) (filter (\<lambda>r. r_id r \<noteq> i) rs)"
  by (simp add: AList.delete_eq filter_map o_def eq_commute)

lemma index_set_new_record:
  "i \<notin> r_id ` set rs \<Longrightarrow> r_id r = i \<Longrightarrow>
   map_set i r (map (\<lambda>r. (r_id r, r)) rs) = map (\<lambda>r. (r_id r, r)) (rs @ [r])"
  by (subst map_set_new) (auto simp: map_of_eq_None_iff)

lemma open_inv_record:
  assumes "open_inv s" and fresh: "r_id r \<notin> r_id ` set (records s)"
  shows "open_inv (push_record s r)"
  unfolding open_inv_def
proof
  fix l
  have old: "(case map_get (openOperationsByLane s) l of None \<Rightarrow> [] | Some m \<Rightarrow> m) = map (\<lambda>r. (r_id r, r)) (open_started l (records s))"
    for l using assms(1) by (simp add: open_inv_def)
  have new: "r_id r \<notin> r_id ` set (open_started l (records s))" for l
    using fresh open_started_subset [of l "records s"] by blast
  show "(case map_get (openOperationsByLane (push_record s r)) l of None \<Rightarrow> [] | Some m \<Rightarrow> m)
      = map (\<lambda>r. (r_id r, r)) (open_started l (records (push_record s r)))"
  proof (cases "r_body r")
    case (OperationStarted a b)
    then show ?thesis
      using old [of l] index_set_new_record [OF new [of l] refl]
      by (auto simp: push_record_def track_operation_def open_started_snoc starts_on_def
          finishes_on_def Let_def)
  next
    case (OperationFinished runId a b)
    then show ?thesis
      using old [of l] by (cases "l = r_lane r")
        (auto simp: push_record_def track_operation_def open_started_snoc starts_on_def
          finishes_on_def index_delete neq_commute split: option.splits)
  qed (use old [of l] in \<open>auto simp: push_record_def track_operation_def open_started_snoc
      starts_on_def finishes_on_def\<close>)
qed

lemma stats_inv_record: "stats_inv s \<Longrightarrow> stats_inv (push_record s r)"
  by (cases "r_body r") (simp_all add: stats_inv_def push_record_def add_usage_def)

lemma session_inv_record:
  assumes inv: "session_inv s" and seq: "r_seq r = sequence s + 1"
    and ok: "check_record s r = Inr u"
  shows "session_inv (push_record s r)"
proof -
  from ok have fresh: "r_id r \<notin> usedIds s"
    by (auto simp: check_record_def rbind_Inr_iff)
  have "log_inv (push_record s r)"
    by (rule log_inv_push [where s = s and i = "LogRecord (r_seq r) r"])
      (use inv seq in \<open>simp_all add: session_inv_def push_record_def log_item_ok_def\<close>)
  moreover have "tree_inv (push_record s r)"
    using inv fresh by (auto simp: session_inv_def tree_inv_def push_record_def)
  moreover have "pointer_inv (push_record s r)"
    using inv by (simp add: session_inv_def pointer_inv_def push_record_def)
  moreover have "open_inv (push_record s r)"
    using inv fresh by (intro open_inv_record) (auto simp: session_inv_def tree_inv_def)
  moreover have "stats_inv (push_record s r)"
    using inv by (simp add: session_inv_def stats_inv_record)
  ultimately show ?thesis by (simp add: session_inv_def)
qed

lemma session_inv_lane:
  assumes "session_inv s" and "\<And>t. leafId = Some t \<Longrightarrow> map_has (entriesById s) t"
  shows "session_inv (s\<lparr> sequence := sequence s + 1, lanes := map_set l leafId (lanes s),
           log := log s @ [LogLane (sequence s + 1) l leafId] \<rparr>)" (is "session_inv ?t")
proof -
  have "log_inv ?t"
    by (rule log_inv_push [where s = s and i = "LogLane (sequence s + 1) l leafId"])
      (use assms(1) in \<open>simp_all add: session_inv_def log_item_ok_def\<close>)
  moreover have "targets_in (e_id ` set (entries s)) (map_set l leafId (lanes s))"
    using assms by (intro targets_in_set) (auto simp: session_inv_def pointer_inv_def tree_inv_def)
  ultimately show ?thesis
    using assms(1)
    by (simp add: session_inv_def tree_inv_def pointer_inv_def open_inv_def stats_inv_def
        distinct_update dom_update)
qed

lemma session_inv_name:
  assumes "session_inv s"
  shows "session_inv (s\<lparr> sequence := sequence s + 1, name := n,
           log := log s @ [LogName (sequence s + 1) n] \<rparr>)" (is "session_inv ?t")
proof -
  have "log_inv ?t"
    by (rule log_inv_push [where s = s and i = "LogName (sequence s + 1) n"])
      (use assms in \<open>simp_all add: session_inv_def log_item_ok_def\<close>)
  then show ?thesis
    using assms
    by (simp add: session_inv_def tree_inv_def pointer_inv_def open_inv_def stats_inv_def)
qed

lemma session_inv_label:
  assumes "session_inv s" and "map_has (entriesById s) t"
  shows "session_inv (s\<lparr> sequence := sequence s + 1,
           labels := (case l of None \<Rightarrow> map_delete t (labels s) | Some v \<Rightarrow> map_set t v (labels s)),
           log := log s @ [LogLabel (sequence s + 1) t l] \<rparr>)" (is "session_inv ?t")
proof -
  have "log_inv ?t"
    by (rule log_inv_push [where s = s and i = "LogLabel (sequence s + 1) t l"])
      (use assms in \<open>simp_all add: session_inv_def log_item_ok_def\<close>)
  moreover have "t \<in> e_id ` set (entries s)"
    using assms by (simp add: session_inv_def tree_inv_def)
  then have "pointer_inv ?t"
    using assms(1) by (cases l)
      (auto simp: session_inv_def pointer_inv_def AList.delete_eq distinct_map_filter
        distinct_update dom_update)
  ultimately show ?thesis
    using assms(1) by (simp add: session_inv_def tree_inv_def open_inv_def stats_inv_def)
qed

lemma session_inv_applyMutation:
  assumes "session_inv s" and "applyMutation s m = Inr t"
  shows "session_inv t"
proof -
  from assms(2) have seq: "mutation_seq m = sequence s + 1"
    by (simp add: applyMutation_def rbind_Inr_iff)
  show ?thesis
  proof (cases m)
    case (EntryMutation l e)
    with assms seq show ?thesis
      by (auto simp: applyMutation_def rbind_Inr_iff intro: session_inv_entry)
  next
    case (RecordMutation r)
    with assms seq show ?thesis
      by (auto simp: applyMutation_def rbind_Inr_iff intro: session_inv_record)
  next
    case (LaneMutation q l leafId)
    with assms(2) seq have "t = s\<lparr> sequence := sequence s + 1, lanes := map_set l leafId (lanes s),
           log := log s @ [LogLane (sequence s + 1) l leafId] \<rparr>"
      and "\<And>x. leafId = Some x \<Longrightarrow> map_has (entriesById s) x"
      by (auto simp: applyMutation_def rbind_Inr_iff)
    with assms(1) show ?thesis by (simp only: session_inv_lane)
  next
    case (NameMutation q n)
    with assms seq show ?thesis
      by (auto simp: applyMutation_def rbind_Inr_iff intro: session_inv_name)
  next
    case (LabelMutation q i l)
    with assms(2) seq have "t = s\<lparr> sequence := sequence s + 1,
           labels := (case l of None \<Rightarrow> map_delete i (labels s) | Some v \<Rightarrow> map_set i v (labels s)),
           log := log s @ [LogLabel (sequence s + 1) i l] \<rparr>"
      and "map_has (entriesById s) i"
      by (auto simp: applyMutation_def rbind_Inr_iff)
    with assms(1) show ?thesis by (simp only: session_inv_label)
  qed
qed

interpretation session: fallible_machine applyMutation initial_state session_inv
  by unfold_locales (auto intro: session_inv_initial session_inv_applyMutation)

section \<open>The invariant of replayed sessions\<close>

lemma sample_inv: "session_inv sample_state"
  using session.inv_reachable [OF sample_state_run] .

text \<open>C1. Every state that a log of mutations rebuilds satisfies the session invariant: the log is
numbered 1, 2, ... without gaps and holds exactly the entries and records of the state, identifiers
are unique, every parent precedes its children, lanes and labels point to stored entries, the open
operations are the started and not finished ones, and the statistics are the counts and running binary64
totals over the log, added in its order.\<close>

theorem replayed_session_invariant:
  assumes "applyMutations initial_state mutations = Inr s"
  shows "session_inv s"
  using assms by (rule session.inv_reachable)

theorem replayed_session_invariant_witness:
  "session_inv sample_state \<and> length (entries sample_state) = 3"
proof -
  have "length (entries sample_state) = 3" by code_simp
  with replayed_session_invariant [OF sample_state_run] show ?thesis by simp
qed

text \<open>On a state with the invariant an entry is accepted on a lane exactly if it has the next
sequence number, a new identifier and the leaf of the lane as its parent: the check that the parent
is stored then never fails. The accepted entry is the new leaf of that lane and no other lane moves.\<close>

theorem entry_accepted_iff:
  assumes "session_inv s"
  shows "(\<exists>t. applyMutation s (EntryMutation (Some l) e) = Inr t \<and>
            map_get (lanes t) l = Some (Some (e_id e)) \<and>
            (\<forall>l'. l' \<noteq> l \<longrightarrow> map_get (lanes t) l' = map_get (lanes s) l'))
    \<longleftrightarrow> e_seq e = sequence s + 1 \<and> e_id e \<notin> usedIds s \<and> map_get (lanes s) l = Some (e_parentId e)"
    (is "?accepted \<longleftrightarrow> ?guards")
proof
  assume ?accepted
  then show ?guards
    by (auto simp: applyMutation_def check_entry_def rbind_Inr_iff split: option.splits)
next
  assume guards: ?guards
  have "map_has (entriesById s) p" if "e_parentId e = Some p" for p
    using assms guards that targets_in_get [of "e_id ` set (entries s)" "lanes s" l p]
    by (auto simp: session_inv_def pointer_inv_def tree_inv_def)
  with guards show ?accepted
    by (auto simp: applyMutation_def check_entry_def push_entry_def split: option.splits)
qed

theorem entry_accepted_iff_witness:
  "session_inv sample_state \<and>
   (\<exists>t. applyMutation sample_state (EntryMutation (Some ''main'') (sample_entry ''d'' 7 (Some ''b''))) = Inr t \<and>
     map_get (lanes t) ''main'' = Some (Some ''d'') \<and>
     (\<forall>l'. l' \<noteq> ''main'' \<longrightarrow> map_get (lanes t) l' = map_get (lanes sample_state) l'))"
proof -
  have "sequence sample_state = 6" and "map_get (lanes sample_state) ''main'' = Some (Some ''b'')"
    and "''d'' \<notin> usedIds sample_state" by code_simp+
  then show ?thesis
    using entry_accepted_iff [OF sample_inv, of "''main''" "sample_entry ''d'' 7 (Some ''b'')"] sample_inv
    by (simp add: sample_entry_def)
qed

end
