(* ===== verification/Session_Branch.thy ===== *)
theory Session_Branch
  imports Session_Invariant "HOL-Library.Sublist"
begin

text \<open>
  Branch walks, branch queries and forks of a session whose state satisfies the invariant.
\<close>

section \<open>Walking to the root\<close>

abbreviation index :: "entry list \<Rightarrow> (id, entry) js_map" where
  "index es \<equiv> map (\<lambda>e. (e_id e, e)) es"

text \<open>A path from an entry to the root of its tree, each element the parent of the one before.\<close>

fun rooted_path :: "(id, entry) js_map \<Rightarrow> entry list \<Rightarrow> bool" where
  "rooted_path m [] = False"
| "rooted_path m [e] = (e_parentId e = None)"
| "rooted_path m (e # f # es) =
     (e_parentId e = Some (e_id f) \<and> map_get m (e_id f) = Some f \<and> rooted_path m (f # es))"

fun take_until :: "('a \<Rightarrow> bool) \<Rightarrow> 'a list \<Rightarrow> 'a list" where
  "take_until P [] = []"
| "take_until P (x # xs) = (if P x then [x] else x # take_until P xs)"

definition at_bound :: "id option \<Rightarrow> entry_type option \<Rightarrow> entry \<Rightarrow> bool" where
  "at_bound stopAtId stopAtType e = (Some (e_id e) = stopAtId \<or> Some (e_type e) = stopAtType)"

lemma at_bound_none [simp]: "at_bound None None e = False"
  by (simp add: at_bound_def)

lemma index_get:
  "distinct (map e_id es) \<Longrightarrow> map_of (index es) i = Some e \<longleftrightarrow> e \<in> set es \<and> e_id e = i"
  by (subst map_of_eq_Some_iff) (auto simp: o_def)

lemma parents_ok_split:
  "parents_ok seen (ys @ e # zs) \<Longrightarrow> e_parentId e = Some p \<Longrightarrow> p \<in> seen \<union> e_id ` set ys"
  by (induction ys arbitrary: seen) (auto split: option.splits)

lemma walk_reaches_root:
  assumes "distinct (map e_id (ys @ e # zs))" and "parents_ok {} (ys @ e # zs)"
    and "visited \<inter> e_id ` set (ys @ [e]) = {}"
  shows "\<exists>path. walk_from (index (ys @ e # zs)) None None visited e = (e # path, None) \<and>
    rooted_path (index (ys @ e # zs)) (e # path) \<and> subseq (rev (e # path)) (ys @ [e]) \<and>
    parents_ok {} (rev (e # path))"
  using assms
proof (induction "length ys" arbitrary: ys e zs visited rule: less_induct)
  case less
  let ?m = "index (ys @ e # zs)"
  have fresh: "e_id e \<notin> visited" using less.prems(3) by auto
  show ?case
  proof (cases "e_parentId e")
    case None
    with fresh show ?thesis by (subst walk_from.simps) auto
  next
    case (Some p)
    with less.prems(2) have "p \<in> e_id ` set ys" by (auto dest: parents_ok_split)
    then obtain us f vs where ys: "ys = us @ f # vs" and f: "e_id f = p"
      by (metis (no_types, opaque_lifting) imageE split_list)
    have es: "ys @ e # zs = us @ f # (vs @ e # zs)" using ys by simp
    have get: "map_of ?m p = Some f"
      using less.prems(1) f ys by (subst index_get) auto
    have "insert (e_id e) visited \<inter> e_id ` set (us @ [f]) = {}"
      using less.prems(1,3) ys by auto
    then obtain path where path:
      "walk_from ?m None None (insert (e_id e) visited) f = (f # path, None)"
      "rooted_path ?m (f # path)" "subseq (rev (f # path)) (us @ [f])" "parents_ok {} (rev (f # path))"
      using less.hyps [of us f "vs @ e # zs" "insert (e_id e) visited"] less.prems(1,2) ys
      unfolding es by auto
    have "walk_from ?m None None visited e = (e # f # path, None)"
      using fresh Some get path(1) by (subst walk_from.simps) (simp add: index_get)
    moreover have "rooted_path ?m (e # f # path)"
      using Some f get path(2) by simp
    moreover have "subseq (rev (f # path)) ys"
    proof -
      have "prefix (us @ [f]) ys" using ys by simp
      then have "subseq (us @ [f]) ys" by (rule prefix_imp_subseq)
      with path(3) show ?thesis by (rule subseq_order.order_trans)
    qed
    then have "subseq (rev (e # f # path)) (ys @ [e])"
      using subseq_append [of "rev path @ [f]" "[e]" ys] by simp
    moreover have "parents_ok {} (rev (e # f # path))"
      using path(4) parents_ok_append [of "{}" "rev (f # path)" e] Some f by simp
    ultimately show ?thesis by blast
  qed
qed

lemma walk_bounded:
  "walk_from m None None visited e = (path, None) \<Longrightarrow>
   walk_from m sid sty visited e = (take_until (at_bound sid sty) path, None)"
proof (induction m "None :: id option" "None :: entry_type option" visited e
    arbitrary: path rule: walk_from.induct)
  case (1 m visited e)
  show ?case
  proof (cases "e_id e \<in> visited")
    case True
    with 1(2) show ?thesis by (subst (asm) walk_from.simps) simp
  next
    case fresh: False
    show ?thesis
    proof (cases "\<exists>p f. e_parentId e = Some p \<and> map_of m p = Some f")
      case True
      then obtain p f where pf: "e_parentId e = Some p" "map_of m p = Some f" by blast
      with 1(2) fresh obtain es where es: "path = e # es"
        "walk_from m None None (insert (e_id e) visited) f = (es, None)"
        by (subst (asm) walk_from.simps) (auto split: prod.splits)
      from 1(1) [OF fresh _ pf es(2)] have
        "walk_from m sid sty (insert (e_id e) visited) f = (take_until (at_bound sid sty) es, None)"
        by simp
      with fresh pf es(1) show ?thesis by (subst walk_from.simps) (simp add: at_bound_def)
    next
      case False
      with 1(2) fresh show ?thesis
        by (subst walk_from.simps, subst (asm) walk_from.simps)
          (auto simp: at_bound_def split: option.splits)
    qed
  qed
qed

lemma inv_walk:
  assumes "session_inv s" and "getEntry s start = Some e"
  shows "\<exists>path. walkToRoot s start None None = (e # path, None) \<and>
    rooted_path (entriesById s) (e # path) \<and> subseq (rev (e # path)) (entries s) \<and>
    parents_ok {} (rev (e # path))"
proof -
  have tree: "distinct (map e_id (entries s))" "entriesById s = index (entries s)"
    "parents_ok {} (entries s)"
    using assms(1) by (auto simp: session_inv_def tree_inv_def)
  with assms(2) have "e \<in> set (entries s)" by (simp add: getEntry_def index_get)
  then obtain ys zs where es: "entries s = ys @ e # zs" by (meson split_list)
  from walk_reaches_root [of ys e zs "{}"] tree es obtain path where path:
    "walk_from (index (entries s)) None None {} e = (e # path, None)"
    "rooted_path (index (entries s)) (e # path)" "subseq (rev (e # path)) (ys @ [e])"
    "parents_ok {} (rev (e # path))"
    by auto
  have "subseq (ys @ [e]) (entries s)"
    unfolding es by (rule prefix_imp_subseq) simp
  with path(3) have "subseq (rev (e # path)) (entries s)" by (rule subseq_order.order_trans)
  with path tree(2) assms(2) show ?thesis
    by (auto simp: walkToRoot_def getEntry_def)
qed

section \<open>Queries\<close>

definition valid_limit :: "js_num option \<Rightarrow> bool" where
  "valid_limit l = (case l of None \<Rightarrow> True | Some n \<Rightarrow> js_isInteger n \<and> 0 < js_int n)"

definition valid_cursor :: "js_num option \<Rightarrow> bool" where
  "valid_cursor c = (case c of None \<Rightarrow> True | Some n \<Rightarrow> js_isInteger n \<and> 0 \<le> js_int n)"

lemma assertValidLimit_eq:
  "assertValidLimit l =
     (if valid_limit l then Inr () else Inl (SessionError InvalidQuery LimitNotPositive))"
  by (auto simp: assertValidLimit_def valid_limit_def ensure_def split: option.splits)

lemma assertValidCursor_eq:
  "assertValidCursor c =
     (if valid_cursor c then Inr () else Inl (SessionError InvalidQuery CursorNegative))"
  by (auto simp: assertValidCursor_def valid_cursor_def ensure_def split: option.splits)

lemma limit_nat_nonzero: "valid_limit l \<Longrightarrow> limit_nat l \<noteq> Some 0"
  by (auto simp: valid_limit_def limit_nat_def split: option.splits)

lemma branch_loop_new_eq:
  assumes "\<And>n. limit = Some n \<Longrightarrow> length results < n"
  shows "fst (branch_loop_new q limit results es)
    = take_limit limit (results @ filter (\<lambda>e. matchesEntryQuery e q) es)"
  using assms
proof (induction q limit results es rule: branch_loop_new.induct)
  case (1 q limit results)
  then show ?case by (auto simp: take_limit_def split: option.splits)
next
  case (2 q limit results e es)
  let ?r = "if matchesEntryQuery e q then results @ [e] else results"
  show ?case
  proof (cases "Some (length ?r) = limit")
    case True
    with "2.prems" show ?thesis by (auto simp: take_limit_def split: if_splits)
  next
    case False
    then have "\<And>n. limit = Some n \<Longrightarrow> length ?r < n"
      using "2.prems" by (auto intro: Suc_lessI split: if_splits)
    with False "2.IH" [OF refl] show ?thesis by (simp add: Let_def split: if_splits)
  qed
qed

lemma branch_loop_old_eq:
  assumes "\<And>n. limit = Some n \<Longrightarrow> length results < n"
  shows "branch_loop_old q b limit results es
    = take_limit limit (results @ filter (\<lambda>e. matchesEntryQuery e q)
        (take_until (at_bound (bb_stopAtId b) (bb_stopAtType b)) es))"
  using assms
proof (induction q b limit results es rule: branch_loop_old.induct)
  case (1 q b limit results)
  then show ?case by (auto simp: take_limit_def split: option.splits)
next
  case (2 q b limit results e es)
  let ?r = "if matchesEntryQuery e q then results @ [e] else results"
  show ?case
  proof (cases "Some (length ?r) = limit")
    case True
    with "2.prems" show ?thesis by (auto simp: take_limit_def Let_def split: if_splits)
  next
    case False
    then have lt: "\<And>n. limit = Some n \<Longrightarrow> length ?r < n"
      using "2.prems" by (auto intro: Suc_lessI split: if_splits)
    show ?thesis
    proof (cases "at_bound (bb_stopAtId b) (bb_stopAtType b) e")
      case True
      with lt show ?thesis
        by (auto simp: take_limit_def at_bound_def Let_def less_imp_le split: option.splits)
    next
      case nb: False
      with False lt "2.IH" [OF refl refl] show ?thesis
        by (simp add: at_bound_def Let_def split: if_splits)
    qed
  qed
qed

text \<open>What a branch query returns, as a function of the path to the root.\<close>

definition branch_answer :: "entry_query \<Rightarrow> branch_bounds \<Rightarrow> entry list \<Rightarrow> entry list" where
  "branch_answer q b path =
     take_limit (limit_nat (q_limit q))
       (filter (\<lambda>e. matchesEntryQuery e q)
         (take_until (at_bound (bb_stopAtId b) (bb_stopAtType b))
           (if q_order q = Some OldestFirst then rev path else path)))"

lemma findEntriesOnBranch_path:
  assumes "walkToRoot s start None None = (path, None)"
    and "valid_limit (q_limit q)" and "valid_cursor (q_cursor q)"
  shows "findEntriesOnBranch s q b start = Inr (branch_answer q b path)"
proof -
  have lim: "\<And>n. limit_nat (q_limit q) = Some n \<Longrightarrow> length ([] :: entry list) < n"
    using limit_nat_nonzero [OF assms(2)] by auto
  have "walkToRoot s start (bb_stopAtId b) (bb_stopAtType b)
      = (take_until (at_bound (bb_stopAtId b) (bb_stopAtType b)) path, None)"
    using assms(1) by (auto simp: walkToRoot_def intro: walk_bounded split: option.splits)
  with assms branch_loop_old_eq [OF lim] branch_loop_new_eq [OF lim] show ?thesis
    by (auto simp: findEntriesOnBranch_def assertValidLimit_eq assertValidCursor_eq
        branch_answer_def split: prod.splits) (metis append_Nil fst_conv)+
qed

lemma findEntries_eq:
  "valid_limit (q_limit q) \<Longrightarrow> valid_cursor (q_cursor q) \<Longrightarrow>
   findEntries s q = Inr (take_limit (limit_nat (q_limit q))
     (filter (\<lambda>e. matchesEntryQuery e q) (ordered (entries s) (q_order q))))"
  by (simp add: findEntries_def assertValidLimit_eq assertValidCursor_eq collect_loop_eq
      limit_nat_nonzero)

section \<open>Forks\<close>

fun renumber :: "int \<Rightarrow> entry list \<Rightarrow> entry list" where
  "renumber n [] = []"
| "renumber n (e # es) = e\<lparr> e_seq := n \<rparr> # renumber (n + 1) es"

lemma renumber_ids [simp]: "map e_id (renumber n es) = map e_id es"
  by (induction es arbitrary: n) auto

lemma renumber_id_set [simp]: "e_id ` set (renumber n es) = e_id ` set es"
  by (metis renumber_ids list.set_map)

lemma number_from_append:
  "number_from n (fs @ gs) = number_from n fs @ number_from (n + int (length fs)) gs"
  by (induction fs arbitrary: n) (auto simp: ac_simps)

text \<open>The part of the state that the replay of a fork is about.\<close>

definition same_but ::
  "session_state \<Rightarrow> session_state \<Rightarrow> nat \<Rightarrow> bool" where
  "same_but s t n = (sequence t = sequence s + int n \<and> records t = records s)"

lemma replay_entries:
  assumes "session_inv s" and "parents_ok (e_id ` set (entries s)) cs"
    and "distinct (map e_id cs)" and "usedIds s \<inter> e_id ` set cs = {}"
  shows "\<exists>t. applyMutations s (number_from (sequence s + 1)
            (map (\<lambda>e n. EntryMutation None (e\<lparr> e_seq := n \<rparr>)) cs)) = Inr t \<and>
          same_but s t (length cs) \<and> entries t = entries s @ renumber (sequence s + 1) cs \<and>
          lanes t = lanes s \<and> name t = name s \<and> labels t = labels s"
  using assms
proof (induction cs arbitrary: s)
  case Nil
  then show ?case by (simp add: same_but_def)
next
  case (Cons e cs)
  let ?e = "e\<lparr> e_seq := sequence s + 1 \<rparr>"
  have "check_entry s None ?e = Inr ()"
    using Cons.prems by (auto simp: check_entry_def session_inv_def tree_inv_def split: option.splits)
  then have step: "applyMutation s (EntryMutation None ?e) = Inr (push_entry s None ?e)"
    by (simp add: applyMutation_def)
  have inv: "session_inv (push_entry s None ?e)"
    using session.inv_step [OF Cons.prems(1) step] .
  have "parents_ok (e_id ` set (entries (push_entry s None ?e))) cs"
    using Cons.prems(2) by (simp add: push_entry_def insert_commute)
  moreover have "usedIds (push_entry s None ?e) \<inter> e_id ` set cs = {}"
    using Cons.prems(3,4) by (auto simp: push_entry_def)
  ultimately obtain t where t:
    "applyMutations (push_entry s None ?e) (number_from (sequence s + 1 + 1)
       (map (\<lambda>e n. EntryMutation None (e\<lparr> e_seq := n \<rparr>)) cs)) = Inr t"
    "same_but (push_entry s None ?e) t (length cs)"
    "entries t = entries (push_entry s None ?e) @ renumber (sequence s + 1 + 1) cs"
    "lanes t = lanes s" "name t = name s" "labels t = labels s"
    using Cons.IH [OF inv] Cons.prems(3) by (auto simp: push_entry_def)
  then show ?case using step by (auto simp: same_but_def push_entry_def)
qed

lemma replay_lanes:
  assumes "targets_in (e_id ` set (entries s)) ls" and "session_inv s"
  shows "\<exists>t. applyMutations s (number_from (sequence s + 1)
            (map (\<lambda>(l, leafId) n. LaneMutation n l leafId) ls)) = Inr t \<and>
          same_but s t (length ls) \<and> entries t = entries s \<and>
          lanes t = fold (\<lambda>(l, leafId). map_set l leafId) ls (lanes s) \<and>
          name t = name s \<and> labels t = labels s"
  using assms
proof (induction ls arbitrary: s)
  case Nil
  then show ?case by (simp add: same_but_def)
next
  case (Cons p ls)
  obtain l leafId where p: "p = (l, leafId)" by (cases p)
  let ?t = "s\<lparr> sequence := sequence s + 1, lanes := map_set l leafId (lanes s),
                 log := log s @ [LogLane (sequence s + 1) l leafId] \<rparr>"
  have step: "applyMutation s (LaneMutation (sequence s + 1) l leafId) = Inr ?t"
    using Cons.prems p
    by (auto simp: applyMutation_def session_inv_def tree_inv_def targets_in_def split: option.splits)
  have "targets_in (e_id ` set (entries ?t)) ls" using Cons.prems(1) by (simp add: targets_in_def)
  from Cons.IH [OF this session.inv_step [OF Cons.prems(2) step]] step p show ?case
    by (auto simp: same_but_def)
qed

definition fork_labels :: "session_state \<Rightarrow> entry list \<Rightarrow> (id \<times> string) list" where
  "fork_labels s copied =
     concat (map (\<lambda>e. case map_get (labels s) (e_id e) of None \<Rightarrow> [] | Some l \<Rightarrow> [(e_id e, l)]) copied)"

lemma replay_labels:
  assumes "fst ` set ls \<subseteq> e_id ` set (entries s)" and "session_inv s"
  shows "\<exists>t. applyMutations s (number_from (sequence s + 1)
            (map (\<lambda>(i, l) n. LabelMutation n i (Some l)) ls)) = Inr t \<and>
          same_but s t (length ls) \<and> entries t = entries s \<and> lanes t = lanes s \<and>
          name t = name s \<and> labels t = fold (\<lambda>(i, l). map_set i l) ls (labels s)"
  using assms
proof (induction ls arbitrary: s)
  case Nil
  then show ?case by (simp add: same_but_def)
next
  case (Cons p ls)
  obtain i l where p: "p = (i, l)" by (cases p)
  let ?t = "s\<lparr> sequence := sequence s + 1, labels := map_set i l (labels s),
                 log := log s @ [LogLabel (sequence s + 1) i (Some l)] \<rparr>"
  have step: "applyMutation s (LabelMutation (sequence s + 1) i (Some l)) = Inr ?t"
    using Cons.prems p by (auto simp: applyMutation_def session_inv_def tree_inv_def)
  have "fst ` set ls \<subseteq> e_id ` set (entries ?t)" using Cons.prems(1) by simp
  from Cons.IH [OF this session.inv_step [OF Cons.prems(2) step]] step p show ?case
    by (auto simp: same_but_def)
qed

lemma fork_steps_alt:
  "fork_steps s copied forkLanes =
     map (\<lambda>e n. EntryMutation None (e\<lparr> e_seq := n \<rparr>)) copied
     @ map (\<lambda>(l, leafId) n. LaneMutation n l leafId) forkLanes
     @ (case name s of None \<Rightarrow> [] | Some nm \<Rightarrow> [\<lambda>n. NameMutation n (Some nm)])
     @ map (\<lambda>(i, l) n. LabelMutation n i (Some l)) (fork_labels s copied)"
  by (simp add: fork_steps_def fork_labels_def map_concat o_def option.case_distrib [where h = "map _"]
      cong: option.case_cong)

lemma fold_map_set:
  "distinct (map fst ls) \<Longrightarrow>
   map_of (fold (\<lambda>(k, v). map_set k v) ls m) = map_of m ++ map_of ls"
  by (induction ls arbitrary: m)
    (auto simp: map_add_upd_left dom_map_of_conv_image_fst simp del: fun_upd_apply)

lemma fork_labels_get:
  assumes "distinct (map e_id cs)"
  shows "map_of (fork_labels s cs) i = (if i \<in> e_id ` set cs then map_of (labels s) i else None)"
    and "distinct (map fst (fork_labels s cs))"
    and "fst ` set (fork_labels s cs) \<subseteq> e_id ` set cs"
proof -
  show sub: "fst ` set (fork_labels s cs) \<subseteq> e_id ` set cs" for cs
    by (auto simp: fork_labels_def split: option.splits)
  show "map_of (fork_labels s cs) i = (if i \<in> e_id ` set cs then map_of (labels s) i else None)"
    using assms by (induction cs) (auto simp: fork_labels_def split: option.splits)
  show "distinct (map fst (fork_labels s cs))"
    using assms
  proof (induction cs)
    case (Cons c cs)
    with sub [of cs] show ?case by (force simp: fork_labels_def split: option.splits)
  qed (simp add: fork_labels_def)
qed

text \<open>What the mutations of a fork must copy for their replay to succeed.\<close>

definition fork_ok :: "session_state \<Rightarrow> entry list \<Rightarrow> (lane \<times> id option) list \<Rightarrow> bool" where
  "fork_ok s copied forkLanes =
     (subseq copied (entries s) \<and> parents_ok {} copied \<and> distinct (map e_id copied) \<and>
      distinct (map fst forkLanes) \<and> ''main'' \<in> fst ` set forkLanes \<and>
      targets_in (e_id ` set copied) forkLanes)"

lemma fork_replays:
  assumes "fork_ok s copied forkLanes"
  shows "\<exists>t. applyMutations initial_state (number_from 1 (fork_steps s copied forkLanes)) = Inr t \<and>
    entries t = renumber 1 copied \<and> records t = [] \<and> map_get (lanes t) = map_get forkLanes \<and>
    name t = name s \<and>
    map_get (labels t) = (\<lambda>i. if i \<in> e_id ` set copied then map_get (labels s) i else None)"
proof -
  have ok: "parents_ok {} copied" "distinct (map e_id copied)" "distinct (map fst forkLanes)"
    "''main'' \<in> fst ` set forkLanes" "targets_in (e_id ` set copied) forkLanes"
    using assms by (auto simp: fork_ok_def)
  let ?s0 = initial_state
  have s0: "sequence ?s0 = 0" "entries ?s0 = []" "usedIds ?s0 = {}" "records ?s0 = []"
    "lanes ?s0 = [(''main'', None)]" "name ?s0 = None" "labels ?s0 = []"
    by (simp_all add: initial_state_def)
  obtain s1 where s1: "applyMutations ?s0 (number_from 1
        (map (\<lambda>e n. EntryMutation None (e\<lparr> e_seq := n \<rparr>)) copied)) = Inr s1"
      "same_but ?s0 s1 (length copied)" "entries s1 = renumber 1 copied" "lanes s1 = lanes ?s0"
      "name s1 = None" "labels s1 = []"
    using replay_entries [OF session_inv_initial, of copied] ok s0 by auto
  note i1 = session.inv_reachable [OF s1(1)]
  obtain s2 where s2: "applyMutations s1 (number_from (sequence s1 + 1)
        (map (\<lambda>(l, leafId) n. LaneMutation n l leafId) forkLanes)) = Inr s2"
      "same_but s1 s2 (length forkLanes)" "entries s2 = renumber 1 copied"
      "lanes s2 = fold (\<lambda>(l, leafId). map_set l leafId) forkLanes (lanes ?s0)"
      "name s2 = None" "labels s2 = []"
    using replay_lanes [OF _ i1, of forkLanes] ok s1 by auto
  note i2 = session.inv_run [OF i1 s2(1)]
  let ?nm = "case name s of None \<Rightarrow> [] | Some nm \<Rightarrow> [\<lambda>n. NameMutation n (Some nm)]"
  have "\<exists>s3. applyMutations s2 (number_from (sequence s2 + 1) ?nm) = Inr s3 \<and>
      same_but s2 s3 (length ?nm) \<and> entries s3 = entries s2 \<and> lanes s3 = lanes s2 \<and>
      name s3 = name s \<and> labels s3 = labels s2"
    using s2(5) by (cases "name s") (auto simp: applyMutation_def same_but_def)
  then obtain s3 where s3: "applyMutations s2 (number_from (sequence s2 + 1) ?nm) = Inr s3"
      "same_but s2 s3 (length ?nm)" "entries s3 = renumber 1 copied" "lanes s3 = lanes s2"
      "name s3 = name s" "labels s3 = []"
    using s2 by auto
  note i3 = session.inv_run [OF i2 s3(1)]
  obtain t where t: "applyMutations s3 (number_from (sequence s3 + 1)
        (map (\<lambda>(i, l) n. LabelMutation n i (Some l)) (fork_labels s copied))) = Inr t"
      "same_but s3 t (length (fork_labels s copied))" "entries t = renumber 1 copied"
      "lanes t = lanes s3" "name t = name s"
      "labels t = fold (\<lambda>(i, l). map_set i l) (fork_labels s copied) []"
    using replay_labels [OF _ i3, of "fork_labels s copied"] fork_labels_get(3) [OF ok(2), of s] s3
    by auto
  have seqs: "sequence s1 = int (length copied)" "sequence s2 = sequence s1 + int (length forkLanes)"
    "sequence s3 = sequence s2 + int (length ?nm)" "records t = []"
    using s1(2) s2(2) s3(2) t(2) s0 by (simp_all add: same_but_def)
  have "applyMutations initial_state (number_from 1 (fork_steps s copied forkLanes)) = Inr t"
    using s1(1) s2(1) s3(1) t(1)
    by (simp add: fork_steps_alt number_from_append rfold_append seqs ac_simps)
  moreover have "map_get forkLanes ''main'' \<noteq> None" using ok(4) by (simp add: map_of_eq_None_iff)
  then have "map_get (lanes t) l = map_get forkLanes l" for l
    using ok(3) t(4) s3(4) s2(4) s0(5)
    by (auto simp: fold_map_set map_add_def split: option.splits)
  moreover have "map_get (labels t) i = (if i \<in> e_id ` set copied then map_get (labels s) i else None)" for i
    using t(6) fork_labels_get [OF ok(2), of s] by (simp add: fold_map_set)
  ultimately show ?thesis using t seqs by (intro exI [of _ t]) auto
qed

lemma matches_default: "matchesEntryQuery e (default_query\<lparr> q_order := x \<rparr>)"
  by (simp add: matchesEntryQuery_def default_query_def)

lemma take_until_unbounded [simp]: "take_until (at_bound None None) xs = xs"
  by (induction xs) auto

lemma branch_answer_default:
  "branch_answer (default_query\<lparr> q_order := Some OldestFirst \<rparr>) no_bounds path = rev path"
  by (simp add: branch_answer_def matches_default no_bounds_def take_limit_def
      limit_nat_def) (simp add: default_query_def)

lemma default_query_valid:
  "valid_limit (q_limit (default_query\<lparr> q_order := x \<rparr>))"
  "valid_cursor (q_cursor (default_query\<lparr> q_order := x \<rparr>))"
  by (simp_all add: default_query_def valid_limit_def valid_cursor_def)

lemma findEntries_default:
  "findEntries s (default_query\<lparr> q_order := Some OldestFirst \<rparr>) = Inr (entries s)"
proof -
  have "q_limit (default_query\<lparr> q_order := Some OldestFirst \<rparr>) = None"
    by (simp add: default_query_def)
  then show ?thesis
    by (subst findEntries_eq [OF default_query_valid])
      (simp add: matches_default ordered_def take_limit_def limit_nat_def)
qed

lemma fork_branch_path:
  assumes "session_inv s" and "getEntry s t = Some e"
  shows "\<exists>path. findEntriesOnBranch s (default_query\<lparr> q_order := Some OldestFirst \<rparr>) no_bounds t
      = Inr (rev (e # path)) \<and> rooted_path (entriesById s) (e # path) \<and>
      subseq (rev (e # path)) (entries s) \<and> parents_ok {} (rev (e # path))"
  using inv_walk [OF assms] findEntriesOnBranch_path [of s t _ "default_query\<lparr> q_order := Some OldestFirst \<rparr>"]
    branch_answer_default default_query_valid
  by metis

lemma subseq_keeps_distinct: "subseq xs ys \<Longrightarrow> distinct ys \<Longrightarrow> distinct xs"
  by (induction rule: list_emb.induct) (auto dest: list_emb_set)

lemma fork_point_Inr:
  "fork_point s pos i = Inr (Some t) \<Longrightarrow>
   \<exists>e. getEntry s i = Some e \<and> (t = e_id e \<or> e_parentId e = Some t)"
  by (auto simp: fork_point_def split: option.splits if_splits)

lemma subseq_distinct_ids:
  "subseq xs ys \<Longrightarrow> distinct (map e_id ys) \<Longrightarrow> distinct (map e_id xs)"
  by (metis subseq_map subseq_keeps_distinct)

lemma getEntry_id: "session_inv s \<Longrightarrow> getEntry s i = Some e \<Longrightarrow> e_id e = i \<and> e \<in> set (entries s)"
  by (simp add: session_inv_def tree_inv_def getEntry_def index_get)

lemma getEntry_exists:
  "session_inv s \<Longrightarrow> i \<in> e_id ` set (entries s) \<Longrightarrow> \<exists>e. getEntry s i = Some e"
  by (auto simp: session_inv_def tree_inv_def getEntry_def index_get)

lemma parent_exists:
  assumes "session_inv s" and "e \<in> set (entries s)" and "e_parentId e = Some p"
  shows "p \<in> e_id ` set (entries s)"
proof -
  from assms(2) obtain ys zs where es: "entries s = ys @ e # zs" by (meson split_list)
  with assms(1) have "parents_ok {} (ys @ e # zs)" by (simp add: session_inv_def tree_inv_def)
  from parents_ok_split [OF this assms(3)] es show ?thesis by auto
qed

lemma fork_target_exists:
  assumes inv: "session_inv s" and target: "fork_target s entryId pos = Inr (Some t)"
  shows "\<exists>e. getEntry s t = Some e"
proof -
  from target obtain i e where e: "getEntry s i = Some e"
    and t: "t = e_id e \<or> e_parentId e = Some t"
    by (auto simp: fork_target_def rbind_Inr_iff split: option.splits dest!: fork_point_Inr)
  then have "t \<in> e_id ` set (entries s)"
    using getEntry_id [OF inv e] parent_exists [OF inv] by blast
  with inv show ?thesis by (rule getEntry_exists)
qed

lemma fork_selection_ok:
  assumes inv: "session_inv s" and sel: "fork_selection s options = Inr (copied, forkLanes)"
  shows "fork_ok s copied forkLanes"
proof (cases options)
  case ForkTree
  with sel have "copied = entries s" "forkLanes = lanes s"
    by (simp_all add: fork_selection_def findEntries_default getLanes_def)
  with inv show ?thesis
    by (simp add: fork_ok_def session_inv_def tree_inv_def pointer_inv_def)
next
  case (ForkBranch entryId pos)
  with sel obtain target where target: "fork_target s entryId pos = Inr target"
    and lanes: "forkLanes = [(''main'', target)]"
    and found: "(case target of None \<Rightarrow> Inr []
        | Some t \<Rightarrow> findEntriesOnBranch s (default_query\<lparr> q_order := Some OldestFirst \<rparr>) no_bounds t)
        = Inr copied"
    by (auto simp: fork_selection_def rbind_Inr_iff)
  show ?thesis
  proof (cases target)
    case None
    with found lanes show ?thesis by (simp add: fork_ok_def targets_in_def)
  next
    case (Some t)
    from fork_target_exists [OF inv] target Some obtain e where e: "getEntry s t = Some e" by blast
    from fork_branch_path [OF inv e] found Some obtain path where
      "copied = rev (e # path)" "subseq copied (entries s)" "parents_ok {} copied" by auto
    moreover from this inv have "distinct (map e_id copied)"
      by (intro subseq_distinct_ids [of copied "entries s"]) (auto simp: session_inv_def tree_inv_def)
    ultimately show ?thesis
      using lanes Some getEntry_id [OF inv e] by (simp add: fork_ok_def targets_in_def)
  qed
qed

section \<open>Branch queries and forks\<close>

text \<open>C14. From any stored entry a branch query answers what its specification says: the walk to the root
ends without an error, its path is a path of parents to a root in log order, and the answer is the
first entries (up to the limit) of that path, cut after the first entry at a stop bound, that match.\<close>

theorem branch_query_correct:
  assumes "session_inv s" and "getEntry s start = Some e"
    and "valid_limit (q_limit q)" and "valid_cursor (q_cursor q)"
  shows "\<exists>path. rooted_path (entriesById s) (e # path) \<and> subseq (rev (e # path)) (entries s) \<and>
    findEntriesOnBranch s q b start = Inr (branch_answer q b (e # path))"
  using inv_walk [OF assms(1,2)] findEntriesOnBranch_path [OF _ assms(3,4)] by blast

theorem branch_query_correct_witness:
  "session_inv sample_state \<and> getEntry sample_state ''c'' = Some (sample_entry ''c'' 4 (Some ''a'')) \<and>
   (\<exists>path. rooted_path (entriesById sample_state) (sample_entry ''c'' 4 (Some ''a'') # path) \<and>
      findEntriesOnBranch sample_state default_query no_bounds ''c''
        = Inr (branch_answer default_query no_bounds (sample_entry ''c'' 4 (Some ''a'') # path)))"
proof -
  have get: "getEntry sample_state ''c'' = Some (sample_entry ''c'' 4 (Some ''a''))" by code_simp
  have "valid_limit (q_limit default_query)" "valid_cursor (q_cursor default_query)"
    by (simp_all add: default_query_def valid_limit_def valid_cursor_def)
  from branch_query_correct [OF sample_inv get this, of no_bounds] get sample_inv show ?thesis by blast
qed

text \<open>C20. Whenever the code produces the mutations of a fork, a fresh session accepts all of them: the
result satisfies the invariant, holds exactly the selected entries renumbered from 1 and no records, has
the selected lanes, the name of the source and the labels of the copied entries.\<close>

theorem fork_replayable:
  assumes "session_inv s" and "createForkMutations s options = Inr mutations"
  shows "\<exists>copied forkLanes t. fork_selection s options = Inr (copied, forkLanes) \<and>
    applyMutations initial_state mutations = Inr t \<and> session_inv t \<and>
    entries t = renumber 1 copied \<and> records t = [] \<and> map_get (lanes t) = map_get forkLanes \<and>
    name t = name s \<and>
    map_get (labels t) = (\<lambda>i. if i \<in> e_id ` set copied then map_get (labels s) i else None)"
proof -
  from assms(2) obtain copied forkLanes where sel: "fork_selection s options = Inr (copied, forkLanes)"
    and ms: "mutations = number_from 1 (fork_steps s copied forkLanes)"
    by (auto simp: createForkMutations_def rbind_Inr_iff)
  from fork_replays [OF fork_selection_ok [OF assms(1) sel]] sel ms session.inv_reachable
  show ?thesis by blast
qed

theorem fork_replayable_witness:
  "\<exists>mutations t. createForkMutations sample_state ForkTree = Inr mutations \<and>
     applyMutations initial_state mutations = Inr t \<and> name t = Some ''demo''"
proof -
  have "\<exists>ms. createForkMutations sample_state ForkTree = Inr ms"
    by (simp add: createForkMutations_def fork_selection_def findEntries_default)
  then obtain ms where ms: "createForkMutations sample_state ForkTree = Inr ms" by blast
  have "name sample_state = Some ''demo''" by code_simp
  with fork_replayable [OF sample_inv ms] ms show ?thesis by fastforce
qed

text \<open>Forking at a stored message succeeds and copies exactly the path from the root to that message,
in order, with the lane \<open>main\<close> at the message and no other lane.\<close>

theorem fork_at_message:
  assumes "session_inv s" and "getEntry s i = Some e" and "e_type e = MessageT"
  shows "\<exists>path mutations t. rooted_path (entriesById s) (e # path) \<and>
    createForkMutations s (ForkBranch (Some i) (Some ForkAt)) = Inr mutations \<and>
    applyMutations initial_state mutations = Inr t \<and>
    entries t = renumber 1 (rev (e # path)) \<and> map_get (lanes t) = [''main'' \<mapsto> Some i]"
proof -
  have i: "e_id e = i" using getEntry_id [OF assms(1,2)] by simp
  obtain path where path: "findEntriesOnBranch s (default_query\<lparr> q_order := Some OldestFirst \<rparr>) no_bounds i
      = Inr (rev (e # path))" and rooted: "rooted_path (entriesById s) (e # path)"
    using fork_branch_path [OF assms(1,2)] by blast
  have sel: "fork_selection s (ForkBranch (Some i) (Some ForkAt)) = Inr (rev (e # path), [(''main'', Some i)])"
    using path assms(2,3) i by (simp add: fork_selection_def fork_target_def fork_point_def)
  from fork_replays [OF fork_selection_ok [OF assms(1) sel]] obtain t where
    "applyMutations initial_state (number_from 1 (fork_steps s (rev (e # path)) [(''main'', Some i)])) = Inr t"
    "entries t = renumber 1 (rev (e # path))" "map_get (lanes t) = map_get [(''main'', Some i)]" by blast
  moreover have "map_get [(''main'', Some i)] = [''main'' \<mapsto> Some i]" by simp
  ultimately show ?thesis
    using rooted sel by (auto simp: createForkMutations_def)
qed

theorem fork_at_message_witness:
  "\<exists>path mutations t. rooted_path (entriesById sample_state) (sample_entry ''c'' 4 (Some ''a'') # path) \<and>
    createForkMutations sample_state (ForkBranch (Some ''c'') (Some ForkAt)) = Inr mutations \<and>
    applyMutations initial_state mutations = Inr t \<and> map_get (lanes t) = [''main'' \<mapsto> Some ''c'']"
proof -
  have get: "getEntry sample_state ''c'' = Some (sample_entry ''c'' 4 (Some ''a''))" by code_simp
  have "e_type (sample_entry ''c'' 4 (Some ''a'')) = MessageT" by (simp add: sample_entry_def)
  from fork_at_message [OF sample_inv get this] show ?thesis by blast
qed

end
