(* ===== verification/Session_Memory.thy ===== *)
theory Session_Memory
  imports Session_Branch
begin

text \<open>
  \<^verbatim>\<open>packages/agent/src/harness/session/memory.ts\<close>: the in-memory session storage and repository.
  \<^verbatim>\<open>Date.now()\<close> and \<^verbatim>\<open>uuidv7()\<close> are arguments; \<^verbatim>\<open>structuredClone\<close> copies are values.
  The contract of \<^verbatim>\<open>SessionStorage\<close> is a locale: what the clients of any backend rely on is
  proved there once and interpreted on the in-memory storage.
\<close>

section \<open>The storage\<close>

record memory_storage =
  ms_metadata :: session_metadata
  ms_state :: session_state

definition new_storage :: "session_metadata \<Rightarrow> memory_storage" where
  "new_storage md = \<lparr> ms_metadata = md, ms_state = initial_state \<rparr>"

definition ms_fork ::
  "memory_storage \<Rightarrow> session_metadata \<Rightarrow> fork_options \<Rightarrow> session_error + memory_storage" where
  "ms_fork st md options =
     rbind (createForkMutations (ms_state st) options) (\<lambda>mutations.
     rbind (applyMutations (ms_state (new_storage md)) mutations) (\<lambda>s.
     Inr ((new_storage md)\<lparr> ms_state := s \<rparr>)))"

definition ms_apply :: "memory_storage \<Rightarrow> session_mutation \<Rightarrow> session_error + memory_storage" where
  "ms_apply st m = rbind (applyMutation (ms_state st) m) (\<lambda>s. Inr (st\<lparr> ms_state := s \<rparr>))"

definition ms_createLane ::
  "memory_storage \<Rightarrow> lane \<Rightarrow> id option \<Rightarrow> session_error + memory_storage" where
  "ms_createLane st l target =
     rbind (validateNewLane (ms_state st) l) (\<lambda>_.
     rbind (validateTarget (ms_state st) target) (\<lambda>_.
     ms_apply st (LaneMutation (nextSequence (ms_state st)) l target)))"

definition ms_moveLane ::
  "memory_storage \<Rightarrow> lane \<Rightarrow> id option \<Rightarrow> session_error + memory_storage" where
  "ms_moveLane st l to =
     rbind (requireLane (ms_state st) l) (\<lambda>_.
     rbind (validateTarget (ms_state st) to) (\<lambda>_.
     ms_apply st (LaneMutation (nextSequence (ms_state st)) l to)))"

definition provision :: "int \<Rightarrow> int \<Rightarrow> provisioned_entry \<Rightarrow> id option \<Rightarrow> entry" where
  "provision seq now p parentId =
     \<lparr> e_id = pe_id p, e_seq = seq, e_parentId = parentId, e_timestamp = now, e_body = pe_body p \<rparr>"

definition ms_appendEntry ::
  "int \<Rightarrow> memory_storage \<Rightarrow> provisioned_entry \<Rightarrow> lane \<Rightarrow> session_error + entry \<times> memory_storage" where
  "ms_appendEntry now st newEntry l =
     rbind (requireLane (ms_state st) l) (\<lambda>parentId.
     rbind (validateUnusedId (ms_state st) (pe_id newEntry)) (\<lambda>_.
     let e = provision (nextSequence (ms_state st)) now newEntry parentId
     in rbind (ms_apply st (EntryMutation (Some l) e)) (\<lambda>st'. Inr (e, st'))))"

definition stamp_record :: "int \<Rightarrow> int \<Rightarrow> new_record \<Rightarrow> lane_record" where
  "stamp_record seq now n =
     \<lparr> r_id = nr_id n, r_seq = seq, r_lane = nr_lane n, r_timestamp = now, r_body = nr_body n \<rparr>"

definition ms_appendRecord ::
  "int \<Rightarrow> memory_storage \<Rightarrow> new_record \<Rightarrow> session_error + lane_record \<times> memory_storage" where
  "ms_appendRecord now st newRecord =
     rbind (requireLane (ms_state st) (nr_lane newRecord)) (\<lambda>_.
     rbind (validateUnusedId (ms_state st) (nr_id newRecord)) (\<lambda>_.
     rbind (findOpenOperations (ms_state st) (nr_lane newRecord) (Some (NInt 1))) (\<lambda>open_ops.
     rbind (case open_ops of
              [] \<Rightarrow> Inr ()
            | current # _ \<Rightarrow>
                ensure (record_body_type (nr_body newRecord) \<noteq> OperationStartedT)
                  (SessionError StorageError (OpenOperation (nr_lane newRecord) (r_id current)))) (\<lambda>_.
     let r = stamp_record (nextSequence (ms_state st)) now newRecord
     in rbind (ms_apply st (RecordMutation r)) (\<lambda>st'. Inr (r, st'))))))"

definition ms_setName :: "memory_storage \<Rightarrow> string option \<Rightarrow> session_error + memory_storage" where
  "ms_setName st n = ms_apply st (NameMutation (nextSequence (ms_state st)) n)"

definition ms_setLabel ::
  "memory_storage \<Rightarrow> id \<Rightarrow> string option \<Rightarrow> session_error + memory_storage" where
  "ms_setLabel st i l =
     rbind (validateTarget (ms_state st) (Some i)) (\<lambda>_.
     ms_apply st (LabelMutation (nextSequence (ms_state st)) i l))"

section \<open>The repository\<close>

text \<open>
  \<^verbatim>\<open>InMemorySessionRepo\<close> holds references to storages: a handle returned earlier and the
  dictionary share one storage object. The objects are a list, a reference is an index.
\<close>

record memory_repo =
  mr_sessions :: "(id, nat) js_map"
  mr_objects :: "memory_storage list"

definition empty_repo :: memory_repo where
  "empty_repo = \<lparr> mr_sessions = [], mr_objects = [] \<rparr>"

definition requireStorage :: "memory_repo \<Rightarrow> id \<Rightarrow> session_error + nat" where
  "requireStorage repo i =
     (case map_get (mr_sessions repo) i of
        None \<Rightarrow> Inl (SessionError NotFound (SessionNotFound i))
      | Some ref \<Rightarrow> Inr ref)"

definition add_storage :: "memory_repo \<Rightarrow> id \<Rightarrow> memory_storage \<Rightarrow> nat \<times> memory_repo" where
  "add_storage repo i st =
     (length (mr_objects repo),
      \<lparr> mr_sessions = map_set i (length (mr_objects repo)) (mr_sessions repo),
        mr_objects = mr_objects repo @ [st] \<rparr>)"

definition repo_create ::
  "id \<Rightarrow> int \<Rightarrow> memory_repo \<Rightarrow> id option \<Rightarrow> id option \<Rightarrow> session_error + nat \<times> memory_repo" where
  "repo_create uuid now repo optId parentSessionId =
     (let i = (case optId of Some x \<Rightarrow> x | None \<Rightarrow> uuid)
      in rbind (ensure (\<not> map_has (mr_sessions repo) i) (SessionError AlreadyExists (SessionExists i))) (\<lambda>_.
         Inr (add_storage repo i
           (new_storage \<lparr> md_id = i, md_createdAt = now, md_parentSessionId = parentSessionId \<rparr>))))"

definition repo_open :: "memory_repo \<Rightarrow> session_metadata \<Rightarrow> session_error + nat" where
  "repo_open repo md = requireStorage repo (md_id md)"

definition repo_list :: "memory_repo \<Rightarrow> session_metadata list" where
  "repo_list repo = map (\<lambda>(i, ref). ms_metadata (mr_objects repo ! ref)) (mr_sessions repo)"

definition repo_delete :: "memory_repo \<Rightarrow> session_metadata \<Rightarrow> memory_repo" where
  "repo_delete repo md = repo\<lparr> mr_sessions := map_delete (md_id md) (mr_sessions repo) \<rparr>"

definition repo_fork ::
  "id \<Rightarrow> int \<Rightarrow> memory_repo \<Rightarrow> session_metadata \<Rightarrow> id option \<Rightarrow> id option \<Rightarrow> fork_options
     \<Rightarrow> session_error + nat \<times> memory_repo" where
  "repo_fork uuid now repo source optId optParent options =
     rbind (requireStorage repo (md_id source)) (\<lambda>ref.
     let i = (case optId of Some x \<Rightarrow> x | None \<Rightarrow> uuid)
     in rbind (ensure (\<not> map_has (mr_sessions repo) i) (SessionError AlreadyExists (SessionExists i))) (\<lambda>_.
        rbind (ms_fork (mr_objects repo ! ref)
                 \<lparr> md_id = i, md_createdAt = now,
                   md_parentSessionId = Some (case optParent of Some p \<Rightarrow> p | None \<Rightarrow> md_id source) \<rparr>
                 options) (\<lambda>st.
        Inr (add_storage repo i st))))"

section \<open>The contract of a session storage\<close>

text \<open>At most one operation of a lane is open.\<close>

definition single_open :: "session_state \<Rightarrow> bool" where
  "single_open s = (\<forall>l. length (open_started l (records s)) \<le> 1)"

text \<open>
  What \<^verbatim>\<open>SessionStorage\<close> promises to its clients, over an abstraction to the session state:
  each write is one mutation with the next sequence number, chained to the lane.
\<close>

lemma applyMutation_pushes:
  "applyMutation s (RecordMutation r) = Inr t \<Longrightarrow> t = push_record s r"
  "applyMutation s (EntryMutation l e) = Inr t \<Longrightarrow> t = push_entry s l e"
  by (auto simp: applyMutation_def rbind_Inr_iff)

locale session_storage =
  fixes state_of :: "'st \<Rightarrow> session_state"
    and create_lane :: "'st \<Rightarrow> lane \<Rightarrow> id option \<Rightarrow> session_error + 'st"
    and move_lane :: "'st \<Rightarrow> lane \<Rightarrow> id option \<Rightarrow> session_error + 'st"
    and append_entry :: "int \<Rightarrow> 'st \<Rightarrow> provisioned_entry \<Rightarrow> lane \<Rightarrow> session_error + entry \<times> 'st"
    and append_record :: "int \<Rightarrow> 'st \<Rightarrow> new_record \<Rightarrow> session_error + lane_record \<times> 'st"
  assumes create_lane_step: "create_lane st l target = Inr st' \<Longrightarrow>
      map_get (lanes (state_of st)) l = None \<and>
      applyMutation (state_of st) (LaneMutation (nextSequence (state_of st)) l target) = Inr (state_of st')"
    and move_lane_step: "move_lane st l to = Inr st' \<Longrightarrow>
      map_get (lanes (state_of st)) l \<noteq> None \<and>
      applyMutation (state_of st) (LaneMutation (nextSequence (state_of st)) l to) = Inr (state_of st')"
    and append_entry_step: "append_entry now st p l = Inr (e, st') \<Longrightarrow>
      map_get (lanes (state_of st)) l = Some (e_parentId e) \<and>
      e = provision (nextSequence (state_of st)) now p (e_parentId e) \<and>
      applyMutation (state_of st) (EntryMutation (Some l) e) = Inr (state_of st')"
    and append_record_step: "append_record now st n = Inr (r, st') \<Longrightarrow>
      r = stamp_record (nextSequence (state_of st)) now n \<and>
      (record_body_type (nr_body n) = OperationStartedT \<longrightarrow>
         findOpenOperations (state_of st) (nr_lane n) None = Inr []) \<and>
      applyMutation (state_of st) (RecordMutation r) = Inr (state_of st')"
begin

lemma append_entry_inv:
  "session_inv (state_of st) \<Longrightarrow> append_entry now st p l = Inr (e, st') \<Longrightarrow> session_inv (state_of st')"
  using append_entry_step session.inv_step by blast

lemma append_entry_push:
  "append_entry now st p l = Inr (e, st') \<Longrightarrow> state_of st' = push_entry (state_of st) (Some l) e"
  using append_entry_step applyMutation_pushes(2) by blast

lemma append_entry_leaf:
  "append_entry now st p l = Inr (e, st') \<Longrightarrow>
   map_get (lanes (state_of st')) l = Some (Some (e_id e)) \<and>
   getEntry (state_of st') (e_id e) = Some e \<and>
   (\<forall>l'. l' \<noteq> l \<longrightarrow> map_get (lanes (state_of st')) l' = map_get (lanes (state_of st)) l')"
  by (auto simp: append_entry_push push_entry_def getEntry_def)

lemma append_record_inv:
  "session_inv (state_of st) \<Longrightarrow> append_record now st n = Inr (r, st') \<Longrightarrow> session_inv (state_of st')"
  using append_record_step session.inv_step by blast

lemma open_none:
  "session_inv s \<Longrightarrow> findOpenOperations s l None = Inr [] \<Longrightarrow> open_started l (records s) = []"
  by (auto simp: findOpenOperations_def assertValidLimit_def take_limit_def limit_nat_def
      session_inv_def open_inv_def Let_def dest!: spec [of _ l] split: option.splits)

lemma append_record_single_open:
  assumes inv: "session_inv (state_of st)" and one: "single_open (state_of st)"
    and app: "append_record now st n = Inr (r, st')"
  shows "single_open (state_of st')"
  unfolding single_open_def
proof
  fix l
  note step = append_record_step [OF app]
  then have "state_of st' = push_record (state_of st) r" using applyMutation_pushes(1) by blast
  then have recs: "records (state_of st') = records (state_of st) @ [r]"
    by (simp add: push_record_def)
  have old: "length (open_started l (records (state_of st))) \<le> 1"
    using one by (simp add: single_open_def)
  show "length (open_started l (records (state_of st'))) \<le> 1"
  proof (cases "starts_on l r")
    case False
    with old show ?thesis
      by (simp add: recs open_started_snoc) (meson le_trans length_filter_le)
  next
    case True
    with step have "open_started l (records (state_of st)) = []"
      by (intro open_none [OF inv]) (auto simp: starts_on_def stamp_record_def)
    with True show ?thesis by (simp add: recs open_started_snoc)
  qed
qed

end

lemma ms_apply_Inr: "ms_apply st m = Inr st' \<longleftrightarrow>
    (\<exists>s. applyMutation (ms_state st) m = Inr s \<and> st' = st\<lparr> ms_state := s \<rparr>)"
  by (auto simp: ms_apply_def rbind_Inr_iff)

interpretation memory: session_storage ms_state ms_createLane ms_moveLane ms_appendEntry ms_appendRecord
proof unfold_locales
  fix st l target st'
  assume "ms_createLane st l target = Inr st'"
  then show "map_get (lanes (ms_state st)) l = None \<and>
      applyMutation (ms_state st) (LaneMutation (nextSequence (ms_state st)) l target) = Inr (ms_state st')"
    by (auto simp: ms_createLane_def rbind_Inr_iff ms_apply_Inr validateNewLane_def map_has_def)
next
  fix st l target st'
  assume "ms_moveLane st l target = Inr st'"
  then show "map_get (lanes (ms_state st)) l \<noteq> None \<and>
      applyMutation (ms_state st) (LaneMutation (nextSequence (ms_state st)) l target) = Inr (ms_state st')"
    by (auto simp: ms_moveLane_def rbind_Inr_iff ms_apply_Inr requireLane_def split: option.splits)
next
  fix now st p l e st'
  assume "ms_appendEntry now st p l = Inr (e, st')"
  then show "map_get (lanes (ms_state st)) l = Some (e_parentId e) \<and>
      e = provision (nextSequence (ms_state st)) now p (e_parentId e) \<and>
      applyMutation (ms_state st) (EntryMutation (Some l) e) = Inr (ms_state st')"
    by (auto simp: ms_appendEntry_def rbind_Inr_iff ms_apply_Inr requireLane_def provision_def Let_def
        split: option.splits)
next
  fix now st n r st'
  assume "ms_appendRecord now st n = Inr (r, st')"
  then show "r = stamp_record (nextSequence (ms_state st)) now n \<and>
      (record_body_type (nr_body n) = OperationStartedT \<longrightarrow>
         findOpenOperations (ms_state st) (nr_lane n) None = Inr []) \<and>
      applyMutation (ms_state st) (RecordMutation r) = Inr (ms_state st')"
    by (auto simp: ms_appendRecord_def rbind_Inr_iff ms_apply_Inr Let_def findOpenOperations_def
        assertValidLimit_def take_limit_def limit_nat_def split: option.splits list.splits)
qed

section \<open>The storage as a state machine\<close>

text \<open>A write of a client of the storage; the results of the calls are not needed here.\<close>

inductive storage_step :: "memory_storage \<Rightarrow> memory_storage \<Rightarrow> bool" where
  create_lane: "ms_createLane st l target = Inr st' \<Longrightarrow> storage_step st st'"
| move_lane: "ms_moveLane st l to = Inr st' \<Longrightarrow> storage_step st st'"
| append_entry: "ms_appendEntry now st p l = Inr (e, st') \<Longrightarrow> storage_step st st'"
| append_record: "ms_appendRecord now st n = Inr (r, st') \<Longrightarrow> storage_step st st'"
| set_name: "ms_setName st nm = Inr st' \<Longrightarrow> storage_step st st'"
| set_label: "ms_setLabel st i lb = Inr st' \<Longrightarrow> storage_step st st'"

text \<open>A storage is new or the fork of a reachable one, then any writes follow.\<close>

inductive storage_reachable :: "memory_storage \<Rightarrow> bool" where
  reach_new: "storage_reachable (new_storage md)"
| reach_fork: "storage_reachable st \<Longrightarrow> ms_fork st md options = Inr st' \<Longrightarrow> storage_reachable st'"
| reach_step: "storage_reachable st \<Longrightarrow> storage_step st st' \<Longrightarrow> storage_reachable st'"

lemma storage_step_inv:
  assumes "storage_step st st'" and "session_inv (ms_state st)"
  shows "session_inv (ms_state st')"
  using assms
  by (cases rule: storage_step.cases)
    (auto simp: ms_createLane_def ms_moveLane_def ms_setName_def ms_setLabel_def ms_apply_Inr rbind_Inr_iff
      dest: memory.append_entry_inv memory.append_record_inv session_inv_applyMutation)

lemma records_unchanged:
  "applyMutation s m = Inr t \<Longrightarrow> (\<And>r. m \<noteq> RecordMutation r) \<Longrightarrow> records t = records s"
  by (cases m) (auto simp: applyMutation_def rbind_Inr_iff push_entry_def split: option.splits)

lemma storage_step_single_open:
  assumes "storage_step st st'" and "session_inv (ms_state st)" and "single_open (ms_state st)"
  shows "single_open (ms_state st')"
  using assms
proof (cases rule: storage_step.cases)
  case (append_record now n r)
  then show ?thesis using memory.append_record_single_open assms by blast
next
  case (append_entry now p l e)
  then have "records (ms_state st') = records (ms_state st)"
    by (auto simp: ms_appendEntry_def Let_def ms_apply_Inr rbind_Inr_iff dest: records_unchanged)
  with assms(3) show ?thesis by (simp add: single_open_def)
qed (auto simp: single_open_def ms_createLane_def ms_moveLane_def ms_setName_def ms_setLabel_def ms_apply_Inr
    rbind_Inr_iff dest: records_unchanged)

lemma fork_reachable:
  assumes "ms_fork st md options = Inr st'" and "session_inv (ms_state st)"
  shows "session_inv (ms_state st') \<and> records (ms_state st') = []"
proof -
  from assms(1) obtain copied forkLanes where sel: "fork_selection (ms_state st) options = Inr (copied, forkLanes)"
    and run: "applyMutations initial_state (number_from 1 (fork_steps (ms_state st) copied forkLanes)) = Inr (ms_state st')"
    by (auto simp: ms_fork_def createForkMutations_def rbind_Inr_iff new_storage_def)
  from fork_replays [OF fork_selection_ok [OF assms(2) sel]] run session.inv_reachable [OF run]
  show ?thesis by auto
qed

lemma storage_reachable_ok:
  "storage_reachable st \<Longrightarrow> session_inv (ms_state st) \<and> single_open (ms_state st)"
proof (induction rule: storage_reachable.induct)
  case (reach_new md)
  have "records initial_state = []" by (simp add: initial_state_def)
  then show ?case by (simp add: new_storage_def session_inv_initial single_open_def)
next
  case (reach_fork st md options st')
  then show ?case by (auto simp: single_open_def dest!: fork_reachable)
next
  case (reach_step st st')
  then show ?case using storage_step_inv storage_step_single_open by blast
qed

definition sample_storage :: memory_storage where
  "sample_storage = new_storage \<lparr> md_id = ''s'', md_createdAt = 0, md_parentSessionId = None \<rparr>"

definition sample_start :: "id \<Rightarrow> new_record" where
  "sample_start i = \<lparr> nr_id = i, nr_lane = ''main'', nr_body = OperationStarted None
     (CompactionIntent \<lparr> ci_customInstructions = None, ci_resultEntryId = ''x'' \<rparr>) \<rparr>"

text \<open>C21. In every storage that a client can reach by creating or forking a session and then writing to it,
the session invariant holds and at most one operation of a lane is open: the guard of \<^verbatim>\<open>appendRecord\<close>
keeps a second one out.\<close>

theorem reachable_storage_ok:
  assumes "storage_reachable st"
  shows "session_inv (ms_state st) \<and> (\<forall>l. length (open_started l (records (ms_state st))) \<le> 1)"
  using storage_reachable_ok [OF assms] by (simp add: single_open_def)

theorem reachable_storage_ok_witness:
  "\<exists>r st. ms_appendRecord 5 sample_storage (sample_start ''op'') = Inr (r, st) \<and> storage_reachable st \<and>
     session_inv (ms_state st) \<and> length (open_started ''main'' (records (ms_state st))) \<le> 1"
proof -
  have "\<not> isl (ms_appendRecord 5 sample_storage (sample_start ''op''))" by code_simp
  then obtain r st where run: "ms_appendRecord 5 sample_storage (sample_start ''op'') = Inr (r, st)"
    by (cases "ms_appendRecord 5 sample_storage (sample_start ''op'')") auto
  have "storage_reachable st"
    using run by (auto simp: sample_storage_def intro: reach_new reach_step append_record)
  with run reachable_storage_ok [of st] show ?thesis by blast
qed

lemma findOpenOperations_eq:
  "session_inv s \<Longrightarrow> valid_limit limit \<Longrightarrow>
   findOpenOperations s l limit = Inr (take_limit (limit_nat limit) (rev (open_started l (records s))))"
  by (auto simp: findOpenOperations_def assertValidLimit_eq session_inv_def open_inv_def rev_map o_def
      split: option.splits dest: spec [of _ l])

text \<open>A record that starts an operation, on a known lane and with a new identifier, is refused with the
storage error that names the open operation if the lane has one; otherwise it is stored with the next
sequence number.\<close>

theorem start_operation_outcome:
  assumes "storage_reachable st" and "map_get (lanes (ms_state st)) (nr_lane n) \<noteq> None"
    and "nr_id n \<notin> usedIds (ms_state st)" and "record_body_type (nr_body n) = OperationStartedT"
  shows "ms_appendRecord now st n =
    (case open_started (nr_lane n) (records (ms_state st)) of
       [] \<Rightarrow> (let r = stamp_record (nextSequence (ms_state st)) now n
              in Inr (r, st\<lparr> ms_state := push_record (ms_state st) r \<rparr>))
     | current # _ \<Rightarrow> Inl (SessionError StorageError (OpenOperation (nr_lane n) (r_id current))))"
proof -
  let ?s = "ms_state st" and ?open = "open_started (nr_lane n) (records (ms_state st))"
  have inv: "session_inv ?s" and "length ?open \<le> 1"
    using storage_reachable_ok [OF assms(1)] by (auto simp: single_open_def)
  then have rev: "take_limit (Some (Suc 0)) (rev ?open) = ?open"
    by (cases ?open) (auto simp: take_limit_def)
  have "findOpenOperations ?s (nr_lane n) (Some (NInt 1)) = Inr ?open"
    using findOpenOperations_eq [OF inv, of "Some (NInt 1)"] rev by (simp add: valid_limit_def limit_nat_def)
  with assms show ?thesis
    by (auto simp: ms_appendRecord_def requireLane_def validateUnusedId_def ms_apply_def applyMutation_def
        check_record_def stamp_record_def nextSequence_def map_has_def Let_def split: list.splits option.splits)
qed

theorem start_operation_outcome_witness:
  "\<exists>r st. ms_appendRecord 5 sample_storage (sample_start ''op'') = Inr (r, st) \<and>
     ms_appendRecord 6 st (sample_start ''op2'') = Inl (SessionError StorageError (OpenOperation ''main'' ''op''))"
proof -
  have reach: "storage_reachable sample_storage" by (simp add: sample_storage_def reach_new)
  have new: "map_get (lanes (ms_state sample_storage)) ''main'' \<noteq> None" "''op'' \<notin> usedIds (ms_state sample_storage)"
    "open_started ''main'' (records (ms_state sample_storage)) = []"
    by code_simp+
  define r where "r = stamp_record (nextSequence (ms_state sample_storage)) 5 (sample_start ''op'')"
  define st where "st = sample_storage\<lparr> ms_state := push_record (ms_state sample_storage) r \<rparr>"
  have run: "ms_appendRecord 5 sample_storage (sample_start ''op'') = Inr (r, st)"
    using start_operation_outcome [OF reach, of "sample_start ''op''" 5] new
    by (simp add: sample_start_def r_def st_def Let_def)
  have "map_get (lanes (ms_state st)) ''main'' \<noteq> None \<and> ''op2'' \<notin> usedIds (ms_state st) \<and>
    open_started ''main'' (records (ms_state st)) = [r] \<and> r_id r = ''op''"
    unfolding st_def r_def by code_simp
  with start_operation_outcome [of st "sample_start ''op2''" 6] reach run
  show ?thesis by (auto simp: sample_start_def intro: reach_step append_record)
qed

text \<open>Reading one's own write: after an entry was appended to a lane, it is stored under its identifier,
it is the leaf of that lane chained to the leaf before, and no other lane moved.\<close>

theorem append_entry_read_back:
  assumes "ms_appendEntry now st p l = Inr (e, st')"
  shows "getEntry (ms_state st') (pe_id p) = Some e \<and> e_body e = pe_body p \<and>
    map_get (lanes (ms_state st)) l = Some (e_parentId e) \<and>
    map_get (lanes (ms_state st')) l = Some (Some (pe_id p)) \<and>
    (\<forall>l'. l' \<noteq> l \<longrightarrow> map_get (lanes (ms_state st')) l' = map_get (lanes (ms_state st)) l')"
proof -
  have "e = provision (nextSequence (ms_state st)) now p (e_parentId e)"
    using memory.append_entry_step [OF assms] by blast
  then have "e_id e = pe_id p \<and> e_body e = pe_body p" by (metis provision_def entry.select_convs(1,5))
  then show ?thesis using memory.append_entry_leaf [OF assms] memory.append_entry_step [OF assms] by auto
qed

theorem append_entry_read_back_witness:
  "\<exists>e st. ms_appendEntry 5 sample_storage \<lparr> pe_id = ''a'', pe_body = ThinkingLevelEntry ''high'' \<rparr> ''main'' = Inr (e, st)
     \<and> getEntry (ms_state st) ''a'' = Some e \<and> e_body e = ThinkingLevelEntry ''high''"
proof -
  let ?p = "\<lparr> pe_id = ''a'', pe_body = ThinkingLevelEntry ''high'' \<rparr>"
  have "\<not> isl (ms_appendEntry 5 sample_storage ?p ''main'')" by code_simp
  then obtain e st where run: "ms_appendEntry 5 sample_storage ?p ''main'' = Inr (e, st)"
    by (cases "ms_appendEntry 5 sample_storage ?p ''main''") auto
  with append_entry_read_back [OF run] show ?thesis by auto
qed

end
