(* ===== verification/Session_Context.thy ===== *)
theory Session_Context
  imports Session_Types
begin

text \<open>
  \<^verbatim>\<open>packages/agent/src/harness/messages.ts\<close> and \<^verbatim>\<open>packages/agent/src/harness/session/context.ts\<close>:
  from the entries of a branch to the messages the model sees. A compaction hides everything
  before it; deferred assistant messages and settings entries produce no message.
\<close>

section \<open>Messages for the model\<close>

definition newline :: char where
  "newline = CHR 0x0A"

definition COMPACTION_SUMMARY_PREFIX :: string where
  "COMPACTION_SUMMARY_PREFIX =
     ''The conversation history before this point was compacted into the following summary:''
     @ [newline, newline] @ ''<summary>'' @ [newline]"

definition COMPACTION_SUMMARY_SUFFIX :: string where
  "COMPACTION_SUMMARY_SUFFIX = [newline] @ ''</summary>''"

definition BRANCH_SUMMARY_PREFIX :: string where
  "BRANCH_SUMMARY_PREFIX =
     ''The following is a summary of a branch that this conversation came back from:''
     @ [newline, newline] @ ''<summary>'' @ [newline]"

definition BRANCH_SUMMARY_SUFFIX :: string where
  "BRANCH_SUMMARY_SUFFIX = ''</summary>''"

fun show_nat :: "nat \<Rightarrow> string" where
  "show_nat n = (if n < 10 then [char_of (48 + n)] else show_nat (n div 10) @ [char_of (48 + n mod 10)])"

definition show_int :: "int \<Rightarrow> string" where
  "show_int i = (if i < 0 then CHR ''-'' # show_nat (nat (- i)) else show_nat (nat i))"

definition fence :: string where
  "fence = replicate 3 (CHR 0x60)"

definition bashExecutionToText :: "bash_execution_message \<Rightarrow> string" where
  "bashExecutionToText msg =
     ''Ran '' @ [CHR 0x60] @ be_command msg @ [CHR 0x60, newline]
     @ (if be_output msg \<noteq> [] then fence @ [newline] @ be_output msg @ [newline] @ fence
        else ''(no output)'')
     @ (if be_cancelled msg then [newline, newline] @ ''(command cancelled)''
        else case be_exitCode msg of
               None \<Rightarrow> []
             | Some code \<Rightarrow> (if code \<noteq> 0
                 then [newline, newline] @ ''Command exited with code '' @ show_int code else []))
     @ (case be_fullOutputPath msg of
          None \<Rightarrow> []
        | Some path \<Rightarrow> (if be_truncated msg \<and> path \<noteq> []
            then [newline, newline] @ ''[Output truncated. Full output: '' @ path @ '']'' else []))"

text \<open>
  A timestamp is a number, or a date string that \<^verbatim>\<open>new Date(...).getTime()\<close> reads
  (\<open>date_time\<close>).
\<close>

definition timestamp_ms :: "(string \<Rightarrow> int) \<Rightarrow> string + int \<Rightarrow> int" where
  "timestamp_ms date_time t = (case t of Inl d \<Rightarrow> date_time d | Inr n \<Rightarrow> n)"

definition createBranchSummaryMessage ::
  "(string \<Rightarrow> int) \<Rightarrow> string \<Rightarrow> id \<Rightarrow> string + int \<Rightarrow> branch_summary_message" where
  "createBranchSummaryMessage date_time summary fromId t =
     \<lparr> bs_summary = summary, bs_fromId = fromId, bs_timestamp = timestamp_ms date_time t \<rparr>"

definition createCompactionSummaryMessage ::
  "(string \<Rightarrow> int) \<Rightarrow> string \<Rightarrow> int \<Rightarrow> string + int \<Rightarrow> compaction_summary_message" where
  "createCompactionSummaryMessage date_time summary tokensBefore t =
     \<lparr> cs_summary = summary, cs_tokensBefore = tokensBefore, cs_timestamp = timestamp_ms date_time t \<rparr>"

definition createCustomMessage ::
  "(string \<Rightarrow> int) \<Rightarrow> string \<Rightarrow> message_content \<Rightarrow> bool \<Rightarrow> json option \<Rightarrow> string + int
     \<Rightarrow> custom_message" where
  "createCustomMessage date_time customType content display details t =
     \<lparr> cm_customType = customType, cm_content = content, cm_display = display,
       cm_details = details, cm_timestamp = timestamp_ms date_time t \<rparr>"

definition user_text :: "string \<Rightarrow> int \<Rightarrow> agent_message" where
  "user_text text timestamp =
     UserMessage \<lparr> um_content = BlockContent [TextContent text None], um_timestamp = timestamp \<rparr>"

fun toLlmMessage :: "agent_message \<Rightarrow> agent_message option" where
  "toLlmMessage (BashExecutionMessage m) =
     (if be_excludeFromContext m = Some True then None
      else Some (user_text (bashExecutionToText m) (be_timestamp m)))"
| "toLlmMessage (CustomMessage m) =
     Some (UserMessage
       \<lparr> um_content = BlockContent (case cm_content m of StringContent t \<Rightarrow> [TextContent t None]
                                                         | BlockContent bs \<Rightarrow> bs),
         um_timestamp = cm_timestamp m \<rparr>)"
| "toLlmMessage (BranchSummaryMessage m) =
     Some (user_text (BRANCH_SUMMARY_PREFIX @ bs_summary m @ BRANCH_SUMMARY_SUFFIX) (bs_timestamp m))"
| "toLlmMessage (CompactionSummaryMessage m) =
     Some (user_text (COMPACTION_SUMMARY_PREFIX @ cs_summary m @ COMPACTION_SUMMARY_SUFFIX)
       (cs_timestamp m))"
| "toLlmMessage m = Some m"

definition convertToLlm :: "agent_message list \<Rightarrow> agent_message list" where
  "convertToLlm messages = List.map_filter toLlmMessage messages"

section \<open>The context of a branch\<close>

record session_context =
  sc_messages :: "agent_message list"
  sc_thinkingLevel :: string
  sc_model :: "(string \<times> string) option"
  sc_activeToolNames :: "string list option"

type_synonym projector = "entry \<Rightarrow> nat \<Rightarrow> entry list \<Rightarrow> agent_message list option"

record context_options =
  co_entryTransforms :: "(entry list \<Rightarrow> entry list) list"
  co_entryProjectors :: "string \<Rightarrow> projector option"

definition context_state_step ::
  "string \<times> (string \<times> string) option \<times> string list option \<Rightarrow> entry
     \<Rightarrow> string \<times> (string \<times> string) option \<times> string list option" where
  "context_state_step = (\<lambda>(thinkingLevel, model, activeToolNames) e.
     case e_body e of
       ThinkingLevelEntry t \<Rightarrow> (t, model, activeToolNames)
     | ModelChangeEntry provider modelId \<Rightarrow> (thinkingLevel, Some (provider, modelId), activeToolNames)
     | MessageEntry (AssistantMessage m) _ \<Rightarrow>
         (thinkingLevel, Some (am_provider m, am_model m), activeToolNames)
     | ActiveToolsEntry names \<Rightarrow> (thinkingLevel, model, Some names)
     | _ \<Rightarrow> (thinkingLevel, model, activeToolNames))"

definition deriveSessionContextState ::
  "entry list \<Rightarrow> string \<times> (string \<times> string) option \<times> string list option" where
  "deriveSessionContextState pathEntries = foldl context_state_step (''off'', None, None) pathEntries"

text \<open>The loop scans from the end for the last compaction.\<close>

fun last_compaction :: "entry list \<Rightarrow> nat \<Rightarrow> nat option" where
  "last_compaction path 0 = None"
| "last_compaction path (Suc index) =
     (if e_type (path ! index) = CompactionT then Some index else last_compaction path index)"

definition defaultContextEntryTransform :: "entry list \<Rightarrow> entry list" where
  "defaultContextEntryTransform path =
     (case last_compaction path (length path) of
        None \<Rightarrow> path
      | Some i \<Rightarrow> path ! i # drop (Suc i) path)"

definition buildContextEntries :: "entry list \<Rightarrow> context_options \<Rightarrow> entry list" where
  "buildContextEntries path options =
     foldl (\<lambda>es transform. transform es) (defaultContextEntryTransform path) (co_entryTransforms options)"

definition sessionEntryToContextMessages ::
  "(string \<Rightarrow> int) \<Rightarrow> entry \<Rightarrow> nat \<Rightarrow> entry list \<Rightarrow> context_options \<Rightarrow> agent_message list" where
  "sessionEntryToContextMessages date_time e index es options =
     (case e_body e of
        MessageEntry (AssistantMessage m) _ \<Rightarrow>
          (if am_stopReason m = Deferred then [] else [AssistantMessage m])
      | MessageEntry m _ \<Rightarrow> [m]
      | CompactionEntry summary retainedTail tokensBefore _ _ \<Rightarrow>
          CompactionSummaryMessage
            (createCompactionSummaryMessage date_time summary tokensBefore (Inr (e_timestamp e)))
          # retainedTail
      | BranchSummaryEntry fromId summary _ _ \<Rightarrow>
          (if summary \<noteq> []
           then [BranchSummaryMessage
                  (createBranchSummaryMessage date_time summary fromId (Inr (e_timestamp e)))]
           else [])
      | CustomEntry customType _ \<Rightarrow>
          (case co_entryProjectors options customType of
             None \<Rightarrow> []
           | Some project \<Rightarrow> (case project e index es of None \<Rightarrow> [] | Some ms \<Rightarrow> ms))
      | _ \<Rightarrow> [])"

definition buildSessionContext ::
  "(string \<Rightarrow> int) \<Rightarrow> entry list \<Rightarrow> context_options \<Rightarrow> session_context" where
  "buildSessionContext date_time path options =
     (case deriveSessionContextState path of (thinkingLevel, model, activeToolNames) \<Rightarrow>
        let contextEntries = buildContextEntries path options
        in \<lparr> sc_messages =
               concat (map (\<lambda>(index, e). sessionEntryToContextMessages date_time e index contextEntries options)
                 (enumerate 0 contextEntries)),
             sc_thinkingLevel = thinkingLevel, sc_model = model, sc_activeToolNames = activeToolNames \<rparr>)"

section \<open>What the model sees\<close>

lemma last_compaction_append:
  "n \<le> length ys \<Longrightarrow> list_all (\<lambda>e. e_type e \<noteq> CompactionT) (take n ys) \<Longrightarrow> e_type c = CompactionT \<Longrightarrow>
   last_compaction (xs @ c # ys) (Suc (length xs) + n) = Some (length xs)"
proof (induction n)
  case (Suc n)
  then have "e_type (ys ! n) \<noteq> CompactionT"
    by (simp add: list_all_length)
  moreover have "last_compaction (xs @ c # ys) (Suc (length xs) + n) = Some (length xs)"
    using Suc by (intro Suc.IH) (auto simp: list_all_length)
  ultimately show ?case by (simp add: nth_append)
qed (simp add: nth_append)

lemma last_compaction_none:
  "n \<le> length xs \<Longrightarrow> list_all (\<lambda>e. e_type e \<noteq> CompactionT) (take n xs) \<Longrightarrow> last_compaction xs n = None"
proof (induction n)
  case (Suc n)
  then have "e_type (xs ! n) \<noteq> CompactionT" by (simp add: list_all_length)
  with Suc show ?case by (auto simp: list_all_length)
qed simp

lemma transform_after_compaction:
  "e_type c = CompactionT \<Longrightarrow> list_all (\<lambda>e. e_type e \<noteq> CompactionT) ys \<Longrightarrow>
   defaultContextEntryTransform (xs @ c # ys) = c # ys"
  using last_compaction_append [of "length ys" ys c xs]
  by (simp add: defaultContextEntryTransform_def nth_append)

lemma transform_no_compaction:
  "list_all (\<lambda>e. e_type e \<noteq> CompactionT) xs \<Longrightarrow> defaultContextEntryTransform xs = xs"
  by (simp add: defaultContextEntryTransform_def last_compaction_none)

lemma transform_idem:
  "defaultContextEntryTransform (defaultContextEntryTransform path) = defaultContextEntryTransform path"
proof (cases "list_ex (\<lambda>e. e_type e = CompactionT) path")
  case True
  then obtain xs c ys where "path = xs @ c # ys" "e_type c = CompactionT"
    "list_all (\<lambda>e. e_type e \<noteq> CompactionT) ys"
    using split_list_last_prop [of path "\<lambda>e. e_type e = CompactionT"]
    by (auto simp: list_ex_iff list_all_iff)
  then show ?thesis
    using transform_after_compaction [of c ys xs] transform_after_compaction [of c ys "[]"] by simp
next
  case False
  then show ?thesis by (simp add: transform_no_compaction list_ex_iff list_all_iff)
qed

lemma messages_after_compaction:
  assumes "e_type c = CompactionT" and "list_all (\<lambda>e. e_type e \<noteq> CompactionT) ys"
    and "co_entryTransforms options = []"
  shows "sc_messages (buildSessionContext date_time (xs @ c # ys) options)
    = sc_messages (buildSessionContext date_time (c # ys) options)"
  using assms transform_after_compaction [of c ys "[]"] transform_after_compaction [of c ys xs]
  by (simp add: buildSessionContext_def buildContextEntries_def Let_def split: prod.splits)

section \<open>The context after a compaction\<close>

definition plain_options :: context_options where
  "plain_options = \<lparr> co_entryTransforms = [], co_entryProjectors = (\<lambda>_. None) \<rparr>"

lemma plain_messages:
  "sessionEntryToContextMessages date_time e i es plain_options
    = sessionEntryToContextMessages date_time e 0 [] plain_options"
  by (simp add: sessionEntryToContextMessages_def plain_options_def split: entry_body.split)

lemma concat_enumerate: "concat (map (\<lambda>(i, e). f e) (enumerate n xs)) = concat (map f xs)"
  by (induction xs arbitrary: n) auto

lemma plain_context:
  "sc_messages (buildSessionContext date_time path plain_options) =
     concat (map (\<lambda>e. sessionEntryToContextMessages date_time e 0 [] plain_options)
       (defaultContextEntryTransform path))"
proof -
  have "buildContextEntries path plain_options = defaultContextEntryTransform path"
    by (simp add: buildContextEntries_def plain_options_def)
  moreover have "(\<lambda>(i, e). sessionEntryToContextMessages date_time e i es plain_options)
      = (\<lambda>(i, e). sessionEntryToContextMessages date_time e 0 [] plain_options)" for es
    by (simp add: fun_eq_iff plain_messages [of date_time _ _ es])
  ultimately show ?thesis
    by (simp add: buildSessionContext_def Let_def concat_enumerate split: prod.splits)
qed

text \<open>A compaction replaces everything before it: without transforms and projectors of its own, the
context of a branch whose last compaction is \<open>c\<close> is the summary message of \<open>c\<close>, the messages \<open>c\<close>
retained, and the context of the entries after \<open>c\<close>; the entries before it do not matter.\<close>

theorem context_after_compaction:
  assumes "e_body c = CompactionEntry summary retainedTail tokensBefore details u"
    and "list_all (\<lambda>e. e_type e \<noteq> CompactionT) ys"
  shows "sc_messages (buildSessionContext date_time (xs @ c # ys) plain_options) =
    CompactionSummaryMessage
      \<lparr> cs_summary = summary, cs_tokensBefore = tokensBefore, cs_timestamp = e_timestamp c \<rparr>
    # retainedTail @ sc_messages (buildSessionContext date_time ys plain_options)"
  using assms transform_after_compaction [of c ys xs] transform_no_compaction [of ys]
  by (simp add: plain_context sessionEntryToContextMessages_def createCompactionSummaryMessage_def
      timestamp_ms_def)

definition sample_message :: "string \<Rightarrow> agent_message" where
  "sample_message t = UserMessage \<lparr> um_content = StringContent t, um_timestamp = 1 \<rparr>"

definition sample_body :: "id \<Rightarrow> entry_body \<Rightarrow> entry" where
  "sample_body i b = \<lparr> e_id = i, e_seq = 1, e_parentId = None, e_timestamp = 9, e_body = b \<rparr>"

theorem context_after_compaction_witness:
  "sc_messages (buildSessionContext (\<lambda>_. 0)
     ([sample_body ''a'' (MessageEntry (sample_message ''old'') False)]
      @ sample_body ''b'' (CompactionEntry ''sum'' [sample_message ''kept''] 100 None None)
      # [sample_body ''c'' (MessageEntry (sample_message ''new'') False)]) plain_options)
   = [CompactionSummaryMessage \<lparr> cs_summary = ''sum'', cs_tokensBefore = 100, cs_timestamp = 9 \<rparr>,
      sample_message ''kept'', sample_message ''new'']"
  by (subst context_after_compaction)
    (simp_all add: sample_body_def plain_context transform_no_compaction sessionEntryToContextMessages_def
      sample_message_def)

end
