(* ===== verification/Json_Payload.thy ===== *)
theory Json_Payload
  imports Js_Heap
begin

text \<open>
  \<^verbatim>\<open>assertJsonSerializable\<close> of \<^verbatim>\<open>packages/agent/src/harness/session/session.ts\<close>: an explicit stack
  machine that decides whether a JavaScript value can be stored as JSON. It is shown to end on
  every finite heap and to accept exactly the values that unfold to a finite tree of plain data.
\<close>

section \<open>The code\<close>

datatype payload_error =
    NonFiniteNumber | ContainsType string | PayloadCycle | NonStandardArray | ArrayProperties
  | SparseArray | ArrayAccessor | NonPlainObject | SymbolKeyed | NonEnumerable | HasAccessor

datatype validation_frame = FValue js_val | FExit addr

text \<open>\<^verbatim>\<open>Object.getOwnPropertyNames(array).length\<close>: the elements present, \<^verbatim>\<open>length\<close> and the other keys.\<close>

definition array_names :: "js_object \<Rightarrow> nat" where
  "array_names obj = length (filter (\<lambda>x. x \<noteq> None) (o_elems obj)) + 1 + length (o_props obj) + o_hidden obj"

fun push_element :: "validation_frame list \<Rightarrow> slot option \<Rightarrow> payload_error + validation_frame list" where
  "push_element stack None = Inl SparseArray"
| "push_element stack (Some (AccessorSlot v)) = Inl ArrayAccessor"
| "push_element stack (Some (DataSlot v)) = Inr (FValue v # stack)"

fun push_property :: "validation_frame list \<Rightarrow> js_string \<times> slot \<Rightarrow> payload_error + validation_frame list" where
  "push_property stack (k, AccessorSlot v) = Inl HasAccessor"
| "push_property stack (k, DataSlot v) = Inr (FValue v # stack)"

text \<open>The children of an object, pushed last to first onto the stack.\<close>

definition push_children :: "js_object \<Rightarrow> validation_frame list \<Rightarrow> payload_error + validation_frame list" where
  "push_children obj stack =
     (if o_isArray obj then
        rbind (ensure (o_proto obj = ArrayProto) NonStandardArray) (\<lambda>_.
        rbind (ensure (\<not> (o_symbols obj \<noteq> [] \<or> array_names obj \<noteq> length (o_elems obj) + 1)) ArrayProperties) (\<lambda>_.
        rfold push_element stack (rev (o_elems obj))))
      else
        rbind (ensure (o_proto obj = ObjectProto \<or> o_proto obj = NullProto) NonPlainObject) (\<lambda>_.
        rbind (ensure (o_symbols obj = []) SymbolKeyed) (\<lambda>_.
        rbind (ensure (o_hidden obj = 0) NonEnumerable) (\<lambda>_.
        rfold push_property stack (rev (o_props obj))))))"

fun json_step :: "heap \<Rightarrow> addr set \<Rightarrow> validation_frame \<Rightarrow> validation_frame list
    \<Rightarrow> payload_error + addr set \<times> validation_frame list" where
  "json_step h active (FExit a) stack = Inr (active - {a}, stack)"
| "json_step h active (FValue v) stack =
     (case v of
        VNull \<Rightarrow> Inr (active, stack)
      | VStr s \<Rightarrow> Inr (active, stack)
      | VBool b \<Rightarrow> Inr (active, stack)
      | VNum n \<Rightarrow> if js_isFinite n then Inr (active, stack) else Inl NonFiniteNumber
      | VUndefined \<Rightarrow> Inl (ContainsType ''undefined'')
      | VOther t \<Rightarrow> Inl (ContainsType t)
      | VBytes bytes \<Rightarrow> Inl NonPlainObject
      | VRef a \<Rightarrow>
          if a \<in> active then Inl PayloadCycle
          else rbind (push_children (h a) (FExit a # stack)) (\<lambda>stack'. Inr (insert a active, stack')))"

partial_function (option) json_run :: "heap \<Rightarrow> addr set \<Rightarrow> validation_frame list \<Rightarrow> (payload_error + unit) option" where
  "json_run h active stack =
     (case stack of
        [] \<Rightarrow> Some (Inr ())
      | frame # rest \<Rightarrow>
          (case json_step h active frame rest of
             Inl e \<Rightarrow> Some (Inl e)
           | Inr (active', stack') \<Rightarrow> json_run h active' stack'))"

definition assertJsonSerializable :: "heap \<Rightarrow> js_val \<Rightarrow> (payload_error + unit) option" where
  "assertJsonSerializable h v = json_run h {} [FValue v]"

section \<open>The values that unfold to plain data\<close>

text \<open>An object of plain data: nothing is lost when it is written as JSON.\<close>

definition plain_node :: "js_object \<Rightarrow> bool" where
  "plain_node obj =
     (o_symbols obj = [] \<and>
      (if o_isArray obj then o_proto obj = ArrayProto \<and> o_props obj = [] \<and> o_hidden obj = 0 \<and>
         (\<forall>x \<in> set (o_elems obj). \<exists>v. x = Some (DataSlot v))
       else isPlainObject obj \<and> o_hidden obj = 0 \<and> (\<forall>x \<in> set (o_props obj). is_data (snd x))))"

definition children :: "js_object \<Rightarrow> js_val list" where
  "children obj =
     (if o_isArray obj then map (\<lambda>x. case x of Some s \<Rightarrow> slot_value s | None \<Rightarrow> VUndefined) (o_elems obj)
      else map (\<lambda>x. slot_value (snd x)) (o_props obj))"

fun plain_leaf :: "js_val \<Rightarrow> bool" where
  "plain_leaf VNull = True"
| "plain_leaf (VStr s) = True"
| "plain_leaf (VBool b) = True"
| "plain_leaf (VNum n) = js_isFinite n"
| "plain_leaf _ = False"

text \<open>Inductive, so that a value which reaches itself is not serializable.\<close>

inductive serializable :: "heap \<Rightarrow> js_val \<Rightarrow> bool" for h where
  leaf: "plain_leaf v \<Longrightarrow> serializable h v"
| node: "plain_node (h a) \<Longrightarrow> (\<And>v. v \<in> set (children (h a)) \<Longrightarrow> serializable h v) \<Longrightarrow> serializable h (VRef a)"

inductive_simps serializable_ref: "serializable h (VRef a)"
inductive_cases serializableE: "serializable h v"

lemma serializable_leaf: "\<nexists>a. v = VRef a \<Longrightarrow> serializable h v \<longleftrightarrow> plain_leaf v"
  by (auto elim: serializableE intro: leaf)

section \<open>The machine\<close>

lemma json_run_nil [simp]: "json_run h active [] = Some (Inr ())"
  by (subst json_run.simps) simp

lemma json_run_Cons:
  "json_run h active (frame # rest) =
     (case json_step h active frame rest of
        Inl e \<Rightarrow> Some (Inl e) | Inr (active', stack') \<Rightarrow> json_run h active' stack')"
  by (subst json_run.simps) simp

lemma push_elements:
  "\<forall>x \<in> set xs. \<exists>v. x = Some (DataSlot v) \<Longrightarrow> rfold push_element stack (rev xs) =
     Inr (map FValue (map (\<lambda>x. case x of Some s \<Rightarrow> slot_value s | None \<Rightarrow> VUndefined) xs) @ stack)"
  by (induction xs) (auto simp: rfold_append)

lemma push_elements_fail:
  "\<not> (\<forall>x \<in> set xs. \<exists>v. x = Some (DataSlot v)) \<Longrightarrow> \<exists>e. rfold push_element stack xs = Inl e"
proof (induction xs arbitrary: stack)
  case (Cons x xs)
  show ?case
  proof (cases "\<exists>v. x = Some (DataSlot v)")
    case True
    with Cons show ?thesis by auto
  next
    case False
    then show ?thesis by (cases "(stack, x)" rule: push_element.cases) auto
  qed
qed simp

lemma push_properties:
  "\<forall>x \<in> set xs. is_data (snd x) \<Longrightarrow>
   rfold push_property stack (rev xs) = Inr (map FValue (map (\<lambda>x. slot_value (snd x)) xs) @ stack)"
proof (induction xs)
  case (Cons x xs)
  then show ?case by (cases "(stack, x)" rule: push_property.cases) (auto simp: rfold_append)
qed simp

lemma push_properties_fail:
  "\<not> (\<forall>x \<in> set xs. is_data (snd x)) \<Longrightarrow> \<exists>e. rfold push_property stack xs = Inl e"
proof (induction xs arbitrary: stack)
  case (Cons x xs)
  then show ?case by (cases "(stack, x)" rule: push_property.cases) auto
qed simp

lemma present_all:
  "\<forall>x \<in> set xs. \<exists>v. x = Some (DataSlot v) \<Longrightarrow> length (filter (\<lambda>x. x \<noteq> None) xs) = length xs"
  by (induction xs) auto

lemma push_children_plain:
  "plain_node obj \<Longrightarrow> push_children obj stack = Inr (map FValue (children obj) @ stack)"
  using present_all [of "o_elems obj"] push_elements [of "o_elems obj" stack]
    push_properties [of "o_props obj" stack]
  by (auto simp: push_children_def plain_node_def children_def array_names_def isPlainObject_def split: if_splits)

lemma push_children_fail:
  assumes "\<not> plain_node obj"
  shows "\<exists>e. push_children obj stack = Inl e"
proof (cases "o_isArray obj")
  case True
  show ?thesis
  proof (cases "\<forall>x \<in> set (o_elems obj). \<exists>v. x = Some (DataSlot v)")
    case elems: True
    with True assms present_all [OF elems] show ?thesis
      by (auto simp: push_children_def plain_node_def array_names_def ensure_def)
  next
    case False
    with push_elements_fail [of "rev (o_elems obj)" stack] True show ?thesis
      by (auto simp: push_children_def ensure_def)
  qed
next
  case False
  with assms push_properties_fail [of "rev (o_props obj)" stack] show ?thesis
    by (auto simp: push_children_def plain_node_def isPlainObject_def ensure_def)
qed

text \<open>One object is below another.\<close>

definition child :: "heap \<Rightarrow> (js_val \<times> js_val) set" where
  "child h = {(VRef a, v) | a v. v \<in> set (children (h a))}"

lemma child_ref [simp]: "(VRef a, v) \<in> child h \<longleftrightarrow> v \<in> set (children (h a))"
  by (auto simp: child_def)

lemma serializable_acyclic: "serializable h v \<Longrightarrow> (v, w) \<in> (child h)\<^sup>* \<Longrightarrow> (w, w) \<notin> (child h)\<^sup>+"
proof (induction arbitrary: w rule: serializable.induct)
  case (leaf v)
  have no: "(v, u) \<notin> child h" for u using leaf.hyps by (cases v) (auto simp: child_def)
  from leaf.prems have "w = v" by (cases rule: converse_rtranclE) (simp_all add: no)
  with no show ?case by (auto elim: converse_tranclE)
next
  case (node a)
  show ?case
  proof (cases "w = VRef a")
    case False
    with node.prems obtain v where "v \<in> set (children (h a))" "(v, w) \<in> (child h)\<^sup>*"
      by (metis child_ref converse_rtranclE)
    with node.IH show ?thesis by blast
  next
    case True
    show ?thesis
    proof
      assume "(w, w) \<in> (child h)\<^sup>+"
      with True obtain v where v: "v \<in> set (children (h a))" "(v, w) \<in> (child h)\<^sup>*"
        by (metis child_ref tranclD)
      then have "(v, v) \<in> (child h)\<^sup>+" using True by (metis child_ref rtrancl_into_trancl1)
      with node.IH v(1) show False by blast
    qed
  qed
qed

definition bounded :: "nat \<Rightarrow> js_val \<Rightarrow> bool" where
  "bounded n v = (\<forall>a. v = VRef a \<longrightarrow> a < n)"

text \<open>The heap has finitely many objects.\<close>

definition heap_bounded :: "heap \<Rightarrow> nat \<Rightarrow> bool" where
  "heap_bounded h n = (\<forall>a < n. \<forall>v \<in> set (children (h a)). bounded n v)"

definition decides :: "heap \<Rightarrow> addr set \<Rightarrow> js_val list \<Rightarrow> bool" where
  "decides h active vs =
     (\<forall>stack. if \<forall>v \<in> set vs. serializable h v
              then json_run h active (map FValue vs @ stack) = json_run h active stack
              else \<exists>e. json_run h active (map FValue vs @ stack) = Some (Inl e))"

lemma decidesI:
  assumes "\<And>stack. \<forall>v \<in> set vs. serializable h v \<Longrightarrow>
      json_run h active (map FValue vs @ stack) = json_run h active stack"
    and "\<And>stack. \<not> (\<forall>v \<in> set vs. serializable h v) \<Longrightarrow>
      \<exists>e. json_run h active (map FValue vs @ stack) = Some (Inl e)"
  shows "decides h active vs"
  unfolding decides_def using assms by presburger

lemma decides_ok:
  "decides h active vs \<Longrightarrow> \<forall>v \<in> set vs. serializable h v \<Longrightarrow>
   json_run h active (map FValue vs @ stack) = json_run h active stack"
  unfolding decides_def by presburger

lemma decides_err:
  "decides h active vs \<Longrightarrow> \<not> (\<forall>v \<in> set vs. serializable h v) \<Longrightarrow>
   \<exists>e. json_run h active (map FValue vs @ stack) = Some (Inl e)"
  unfolding decides_def by presburger

lemma decides_Cons:
  assumes v: "decides h active [v]" and vs: "decides h active vs"
  shows "decides h active (v # vs)"
proof (rule decidesI)
  fix stack
  assume "\<forall>v \<in> set (v # vs). serializable h v"
  then show "json_run h active (map FValue (v # vs) @ stack) = json_run h active stack"
    using decides_ok [OF v, of "map FValue vs @ stack"] decides_ok [OF vs, of stack] by simp
next
  fix stack
  assume no: "\<not> (\<forall>v \<in> set (v # vs). serializable h v)"
  show "\<exists>e. json_run h active (map FValue (v # vs) @ stack) = Some (Inl e)"
  proof (cases "serializable h v")
    case True
    with no decides_err [OF vs, of stack] decides_ok [OF v, of "map FValue vs @ stack"] show ?thesis by simp
  next
    case False
    with decides_err [OF v, of "map FValue vs @ stack"] show ?thesis by simp
  qed
qed

lemma decides_list: "(\<And>v. v \<in> set vs \<Longrightarrow> decides h active [v]) \<Longrightarrow> decides h active vs"
proof (induction vs)
  case Nil
  then show ?case by (simp add: decides_def)
next
  case (Cons v vs)
  then show ?case by (simp add: decides_Cons)
qed

lemma decides_leaf: "\<nexists>a. v = VRef a \<Longrightarrow> decides h active [v]"
proof (intro decidesI)
  fix stack
  assume "\<nexists>a. v = VRef a" "\<forall>u \<in> set [v]. serializable h u"
  then have "plain_leaf v" by (simp add: serializable_leaf)
  then show "json_run h active (map FValue [v] @ stack) = json_run h active stack"
    by (cases v) (simp_all add: json_run_Cons)
next
  fix stack
  assume r: "\<nexists>a. v = VRef a" and "\<not> (\<forall>u \<in> set [v]. serializable h u)"
  then have "\<not> plain_leaf v" by (simp add: serializable_leaf)
  then show "\<exists>e. json_run h active (map FValue [v] @ stack) = Some (Inl e)"
    using r by (cases v) (simp_all add: json_run_Cons)
qed

lemma decides_value:
  assumes "heap_bounded h n" and "bounded n v" and "\<forall>a \<in> active. (VRef a, v) \<in> (child h)\<^sup>+"
  shows "decides h active [v]"
  using assms(2,3)
proof (induction "card ({..<n} - active)" arbitrary: active v rule: less_induct)
  case less
  show ?case
  proof (cases "\<exists>a. v = VRef a")
    case False
    then show ?thesis by (rule decides_leaf)
  next
    case True
    then obtain a where v: "v = VRef a" by blast
    show ?thesis
    proof (cases "a \<in> active \<or> \<not> plain_node (h a)")
      case True
      have "\<not> serializable h v"
        using True less.prems(2) v serializable_acyclic [of h v v] by (auto simp: serializable_ref)
      moreover have "\<exists>e. json_run h active (FValue v # stack) = Some (Inl e)" for stack
        using True v push_children_fail [of "h a" "FExit a # stack"] by (cases "a \<in> active") (auto simp: json_run_Cons)
      ultimately show ?thesis by (intro decidesI) simp_all
    next
      case False
      have a: "a < n" using less.prems(1) v by (simp add: bounded_def)
      then have "card ({..<n} - insert a active) < card ({..<n} - active)"
        using False by (intro psubset_card_mono) auto
      moreover have "\<forall>b \<in> insert a active. (VRef b, c) \<in> (child h)\<^sup>+" if "c \<in> set (children (h a))" for c
        using that less.prems(2) v by (auto intro: trancl_into_trancl)
      moreover have "bounded n c" if "c \<in> set (children (h a))" for c
        using that a assms(1) by (simp add: heap_bounded_def)
      ultimately have d: "decides h (insert a active) (children (h a))"
        by (blast intro: decides_list [of _ h "insert a active"] less.hyps)
      have run: "json_run h active (FValue v # stack) =
          json_run h (insert a active) (map FValue (children (h a)) @ FExit a # stack)" for stack
        using False v by (simp add: json_run_Cons push_children_plain)
      have exit: "json_run h (insert a active) (FExit a # stack) = json_run h active stack" for stack
        using False by (simp add: json_run_Cons)
      have ser: "serializable h v \<longleftrightarrow> (\<forall>c \<in> set (children (h a)). serializable h c)"
        using False v by (auto simp: serializable_ref)
      show ?thesis
      proof (rule decidesI)
        fix stack
        assume "\<forall>u \<in> set [v]. serializable h u"
        then show "json_run h active (map FValue [v] @ stack) = json_run h active stack"
          using decides_ok [OF d, of "FExit a # stack"] ser by (simp add: run exit)
      next
        fix stack
        assume "\<not> (\<forall>u \<in> set [v]. serializable h u)"
        then show "\<exists>e. json_run h active (map FValue [v] @ stack) = Some (Inl e)"
          using decides_err [OF d, of "FExit a # stack"] ser by (simp add: run)
      qed
    qed
  qed
qed

lemma assertJsonSerializable_decides:
  assumes "heap_bounded h n" and "bounded n v"
  shows "if serializable h v then assertJsonSerializable h v = Some (Inr ())
    else \<exists>e. assertJsonSerializable h v = Some (Inl e)"
  using decides_ok [OF decides_value [OF assms, of "{}"], of "[]"]
    decides_err [OF decides_value [OF assms, of "{}"], of "[]"]
  by (simp add: assertJsonSerializable_def)

end
