(* ===== verification/Session_Client.thy ===== *)
theory Session_Client
  imports Session_Memory Json_Payload
begin

text \<open>
  The \<^verbatim>\<open>Session\<close> class of \<^verbatim>\<open>packages/agent/src/harness/session/session.ts\<close> over the in-memory
  storage: lane views, queries with validated options, and writes that validate their payload.
  A payload comes twice: as the JavaScript value \<open>v\<close> of the heap that the code validates, and as
  the typed entry or record that the storage keeps. \<^verbatim>\<open>idGenerator.next()\<close> is an argument.
\<close>

section \<open>The code\<close>

fun payload_message :: "payload_error \<Rightarrow> string" where
  "payload_message NonFiniteNumber = ''contains a non-finite number''"
| "payload_message (ContainsType t) = ''contains '' @ t"
| "payload_message PayloadCycle = ''contains a cycle''"
| "payload_message NonStandardArray = ''contains a non-standard array''"
| "payload_message ArrayProperties = ''contains an array with unsupported properties''"
| "payload_message SparseArray = ''contains a sparse array''"
| "payload_message ArrayAccessor = ''contains an array accessor''"
| "payload_message NonPlainObject = ''contains a non-plain object''"
| "payload_message SymbolKeyed = ''contains a symbol-keyed property''"
| "payload_message NonEnumerable = ''contains a non-enumerable property''"
| "payload_message HasAccessor = ''contains an accessor''"

definition invalidPayload :: "payload_error \<Rightarrow> session_error" where
  "invalidPayload e = SessionError InvalidPayload (PayloadNotSerializable (payload_message e))"

definition getLeafIdForLane :: "memory_storage \<Rightarrow> lane \<Rightarrow> session_error + id option" where
  "getLeafIdForLane st l =
     (case find (\<lambda>(candidate, leafId). candidate = l) (getLanes (ms_state st)) of
        None \<Rightarrow> Inl (SessionError InvalidLane (LaneNotFound l))
      | Some (_, leafId) \<Rightarrow> Inr leafId)"

text \<open>\<open>resultLimit\<close> defaults to the limit of the query; a single-entry query passes 1.\<close>

definition queryEntries :: "memory_storage \<Rightarrow> entry_query \<Rightarrow> js_num option \<Rightarrow> session_error + entry list" where
  "queryEntries st q resultLimit =
     rbind (assertValidLimit (q_limit q)) (\<lambda>_.
     rbind (assertValidCursor (q_cursor q)) (\<lambda>_.
     findEntries (ms_state st) (q\<lparr> q_limit := resultLimit \<rparr>)))"

definition queryBranchEntries :: "memory_storage \<Rightarrow> lane \<Rightarrow> entry_query \<Rightarrow> branch_bounds \<Rightarrow> js_num option
    \<Rightarrow> session_error + entry list" where
  "queryBranchEntries st defaultLane q b resultLimit =
     rbind (assertValidLimit (q_limit q)) (\<lambda>_.
     rbind (assertValidCursor (q_cursor q)) (\<lambda>_.
     rbind (case bb_start b of Some start \<Rightarrow> Inr (Some start) | None \<Rightarrow> getLeafIdForLane st defaultLane) (\<lambda>start.
     case start of
       None \<Rightarrow> Inr []
     | Some i \<Rightarrow> findEntriesOnBranch (ms_state st) (q\<lparr> q_limit := resultLimit \<rparr>) (b\<lparr> bb_start := Some i \<rparr>) i)))"

definition session_findEntries :: "memory_storage \<Rightarrow> entry_query \<Rightarrow> session_error + entry list" where
  "session_findEntries st q = queryEntries st q (q_limit q)"

definition first_of :: "'a list \<Rightarrow> 'a option" where
  "first_of xs = (case xs of [] \<Rightarrow> None | x # _ \<Rightarrow> Some x)"

definition session_findEntry :: "memory_storage \<Rightarrow> entry_query \<Rightarrow> session_error + entry option" where
  "session_findEntry st q = rbind (queryEntries st q (Some (NInt 1))) (\<lambda>es. Inr (first_of es))"

definition session_findEntriesOnBranch :: "memory_storage \<Rightarrow> lane \<Rightarrow> entry_query \<Rightarrow> branch_bounds
    \<Rightarrow> session_error + entry list" where
  "session_findEntriesOnBranch st l q b = queryBranchEntries st l q b (q_limit q)"

definition session_findEntryOnBranch :: "memory_storage \<Rightarrow> lane \<Rightarrow> entry_query \<Rightarrow> branch_bounds
    \<Rightarrow> session_error + entry option" where
  "session_findEntryOnBranch st l q b =
     rbind (queryBranchEntries st l q b (Some (NInt 1))) (\<lambda>es. Inr (first_of es))"

definition queryRecords :: "memory_storage \<Rightarrow> record_query \<Rightarrow> session_error + lane_record list" where
  "queryRecords st q =
     rbind (assertValidLimit (rq_limit q)) (\<lambda>_.
     rbind (assertValidCursor (rq_afterSeq q)) (\<lambda>_.
     rbind (ensure (\<not> (rq_operationKind q \<noteq> None \<and> rq_type q \<noteq> Some OperationStartedT))
              (SessionError InvalidQuery OperationKindNeedsType)) (\<lambda>_.
     findRecords (ms_state st) q)))"

definition queryLog :: "memory_storage \<Rightarrow> log_options \<Rightarrow> session_error + log_item list" where
  "queryLog st opts =
     rbind (assertValidLimit (lo_limit opts)) (\<lambda>_.
     rbind (assertValidCursor (lo_afterSeq opts)) (\<lambda>_.
     getLog (ms_state st) opts))"

definition session_findOpenOperations :: "memory_storage \<Rightarrow> lane \<Rightarrow> js_num option \<Rightarrow> session_error + lane_record list" where
  "session_findOpenOperations st l limit =
     rbind (assertValidLimit limit) (\<lambda>_. findOpenOperations (ms_state st) l limit)"

text \<open>The writes: \<open>None\<close> if the validation of the payload does not end.\<close>

definition commitEntry :: "int \<Rightarrow> heap \<Rightarrow> js_val \<Rightarrow> memory_storage \<Rightarrow> provisioned_entry \<Rightarrow> lane
    \<Rightarrow> (session_error + entry \<times> memory_storage) option" where
  "commitEntry now h v st e l =
     map_option (\<lambda>r. rbind (map_sum invalidPayload id r) (\<lambda>_. ms_appendEntry now st e l)) (assertJsonSerializable h v)"

definition commitRecord :: "int \<Rightarrow> heap \<Rightarrow> js_val \<Rightarrow> memory_storage \<Rightarrow> new_record
    \<Rightarrow> (session_error + lane_record \<times> memory_storage) option" where
  "commitRecord now h v st r =
     map_option (\<lambda>x. rbind (map_sum invalidPayload id x) (\<lambda>_. ms_appendRecord now st r)) (assertJsonSerializable h v)"

definition appendMessageToLane :: "int \<Rightarrow> id \<Rightarrow> heap \<Rightarrow> js_val \<Rightarrow> memory_storage \<Rightarrow> lane \<Rightarrow> agent_message
    \<Rightarrow> (session_error + id \<times> memory_storage) option" where
  "appendMessageToLane now nextId h v st l m =
     map_option (\<lambda>r. rbind r (\<lambda>(e, st'). Inr (e_id e, st')))
       (commitEntry now h v st \<lparr> pe_id = nextId, pe_body = MessageEntry m False \<rparr> l)"

definition appendCustomEntryToLane :: "int \<Rightarrow> id \<Rightarrow> heap \<Rightarrow> js_val \<Rightarrow> memory_storage \<Rightarrow> lane \<Rightarrow> string
    \<Rightarrow> json option \<Rightarrow> (session_error + id \<times> memory_storage) option" where
  "appendCustomEntryToLane now nextId h v st l customType data =
     map_option (\<lambda>r. rbind r (\<lambda>(e, st'). Inr (e_id e, st')))
       (commitEntry now h v st \<lparr> pe_id = nextId, pe_body = CustomEntry customType data \<rparr> l)"

section \<open>Single-entry queries\<close>

lemma valid_one [simp]: "valid_limit (Some (NInt 1))" "limit_nat (Some (NInt 1)) = Some 1"
  by (simp_all add: valid_limit_def limit_nat_def)

lemma first_of_take: "first_of (take_limit (Some (Suc 0)) xs) = first_of xs"
  by (cases xs) (simp_all add: first_of_def take_limit_def)

lemma matches_limit [simp]: "matchesEntryQuery e (q\<lparr> q_limit := x \<rparr>) = matchesEntryQuery e q"
  by (auto simp: matchesEntryQuery_def split: option.splits)

lemma unlimited [simp]: "limit_nat None = None" "take_limit None xs = xs" "valid_limit None"
  by (simp_all add: limit_nat_def take_limit_def valid_limit_def)

lemma findEntry_first:
  assumes "valid_limit (q_limit q)" and "valid_cursor (q_cursor q)"
  shows "session_findEntry st q =
    rbind (session_findEntries st (q\<lparr> q_limit := None \<rparr>)) (\<lambda>es. Inr (first_of es))"
  using assms
  by (simp add: session_findEntry_def session_findEntries_def queryEntries_def assertValidLimit_eq
      assertValidCursor_eq findEntries_eq first_of_take)

lemma getLeafIdForLane_eq:
  "getLeafIdForLane st l =
     (case map_get (lanes (ms_state st)) l of
        None \<Rightarrow> Inl (SessionError InvalidLane (LaneNotFound l)) | Some leaf \<Rightarrow> Inr leaf)"
proof -
  have "find (\<lambda>(candidate, leafId). candidate = l) xs = map_option (Pair l) (map_of xs l)"
    for xs :: "(lane \<times> id option) list"
    by (induction xs) auto
  then show ?thesis by (simp add: getLeafIdForLane_def getLanes_def split: option.splits)
qed

lemma findEntryOnBranch_leaf:
  assumes "session_inv (ms_state st)" and "map_get (lanes (ms_state st)) l = Some (Some i)"
    and "getEntry (ms_state st) i = Some e"
  shows "session_findEntryOnBranch st l default_query no_bounds = Inr (Some e)"
proof -
  from inv_walk [OF assms(1,3)] obtain path where
    path: "walkToRoot (ms_state st) i None None = (e # path, None)" by blast
  let ?q = "default_query\<lparr> q_limit := Some (NInt 1) \<rparr>"
  have v: "valid_limit (q_limit ?q)" "valid_cursor (q_cursor ?q)" "q_limit default_query = None"
    "q_cursor default_query = None" "q_order default_query = None"
    by (simp_all add: default_query_def valid_cursor_def)
  have "matchesEntryQuery e' default_query" for e'
    by (simp add: matchesEntryQuery_def default_query_def)
  then have "branch_answer ?q (no_bounds\<lparr> bb_start := Some i \<rparr>) (e # path) = [e]"
    by (simp add: branch_answer_def no_bounds_def take_limit_def v)
  with findEntriesOnBranch_path [OF path v(1,2)] assms(2) show ?thesis
    by (simp add: session_findEntryOnBranch_def queryBranchEntries_def assertValidLimit_eq assertValidCursor_eq
        v getLeafIdForLane_eq first_of_def) (simp add: no_bounds_def valid_cursor_def getLeafIdForLane_eq)
qed

section \<open>Writes\<close>

lemma commitEntry_accepts:
  assumes "heap_bounded h n" and "bounded n v" and "serializable h v"
  shows "commitEntry now h v st e l = Some (ms_appendEntry now st e l)"
  using assertJsonSerializable_decides [OF assms(1,2)] assms(3) by (simp add: commitEntry_def)

lemma commitEntry_rejects:
  assumes "heap_bounded h n" and "bounded n v" and "\<not> serializable h v"
  shows "\<exists>detail. commitEntry now h v st e l = Some (Inl (SessionError InvalidPayload detail))"
  using assertJsonSerializable_decides [OF assms(1,2)] assms(3)
  by (auto simp: commitEntry_def invalidPayload_def)

lemma appendMessage_Inr:
  assumes "appendMessageToLane now i h v st l m = Some (Inr (i', st'))"
  obtains e where "ms_appendEntry now st \<lparr> pe_id = i, pe_body = MessageEntry m False \<rparr> l = Inr (e, st')" "i' = e_id e"
  using assms by (auto simp: appendMessageToLane_def commitEntry_def rbind_Inr_iff)

section \<open>Payloads and messages\<close>

text \<open>C28. The stack machine that checks a payload ends on every finite heap, cyclic values included, and accepts
exactly the serializable values: trees of finite numbers, strings, booleans, null, dense arrays and plain
objects without accessors, hidden or symbol properties; every other payload ends in an error.\<close>

theorem payload_check_decides:
  assumes "heap_bounded h n" and "bounded n v"
  shows "if serializable h v then assertJsonSerializable h v = Some (Inr ())
    else \<exists>e. assertJsonSerializable h v = Some (Inl e)"
  using assms by (rule assertJsonSerializable_decides)

definition loop_heap :: heap where
  "loop_heap = (\<lambda>a. \<lparr> o_isArray = True, o_proto = ArrayProto, o_elems = [Some (DataSlot (VRef 0))],
     o_props = [], o_hidden = 0, o_symbols = [] \<rparr>)"

lemma loop_heap_bounded: "heap_bounded loop_heap 1" "bounded 1 (VRef 0)"
  by (simp_all add: heap_bounded_def bounded_def loop_heap_def children_def)

lemma loop_not_serializable: "\<not> serializable loop_heap (VRef 0)"
proof -
  have "serializable loop_heap v \<Longrightarrow> v = VRef 0 \<Longrightarrow> False" for v
    by (induction rule: serializable.induct) (auto simp: loop_heap_def children_def)
  then show ?thesis by blast
qed

theorem payload_check_decides_witness:
  "\<exists>e. assertJsonSerializable loop_heap (VRef 0) = Some (Inl e)"
  using payload_check_decides [OF loop_heap_bounded] loop_not_serializable by simp

text \<open>Committing an entry validates before it writes: an entry whose payload is not serializable is refused with
an \<open>invalid_payload\<close> error before the storage sees it; otherwise the outcome is the storage's own.\<close>

theorem commit_outcome:
  assumes "heap_bounded h n" and "bounded n v"
  shows "if serializable h v then commitEntry now h v st e l = Some (ms_appendEntry now st e l)
    else \<exists>detail. commitEntry now h v st e l = Some (Inl (SessionError InvalidPayload detail))"
  using commitEntry_accepts [OF assms] commitEntry_rejects [OF assms] by simp

theorem commit_outcome_witness:
  "\<exists>detail. commitEntry 0 loop_heap (VRef 0) sample_storage \<lparr> pe_id = ''a'', pe_body = ThinkingLevelEntry ''off'' \<rparr> ''main''
     = Some (Inl (SessionError InvalidPayload detail))"
  using commit_outcome [OF loop_heap_bounded, of 0 sample_storage] loop_not_serializable by simp

text \<open>C40. A message appended to a lane is what a branch query on that lane then finds first, under the identifier
the append returned.\<close>

theorem appended_message_found:
  assumes "session_inv (ms_state st)" and "appendMessageToLane now i h v st l m = Some (Inr (i', st'))"
  shows "i' = i \<and> (\<exists>e. session_findEntryOnBranch st' l default_query no_bounds = Inr (Some e) \<and> e_id e = i \<and>
    e_body e = MessageEntry m False)"
proof -
  let ?p = "\<lparr> pe_id = i, pe_body = MessageEntry m False \<rparr>"
  obtain e where app: "ms_appendEntry now st ?p l = Inr (e, st')" and i': "i' = e_id e"
    using appendMessage_Inr [OF assms(2)] by blast
  have "e = provision (nextSequence (ms_state st)) now ?p (e_parentId e)"
    using memory.append_entry_step [OF app] by blast
  then have e: "e_id e = i" "e_body e = MessageEntry m False"
    by (metis provision_def entry.select_convs(1,5) provisioned_entry.select_convs)+
  have "session_findEntryOnBranch st' l default_query no_bounds = Inr (Some e)"
    using memory.append_entry_leaf [OF app] memory.append_entry_inv [OF assms(1) app] e
    by (intro findEntryOnBranch_leaf) auto
  with e i' show ?thesis by blast
qed

definition sample_text :: agent_message where
  "sample_text = UserMessage \<lparr> um_content = StringContent ''hi'', um_timestamp = 3 \<rparr>"

theorem appended_message_found_witness:
  "\<exists>st e. appendMessageToLane 3 ''a'' loop_heap VNull sample_storage ''main'' sample_text = Some (Inr (''a'', st)) \<and>
     session_findEntryOnBranch st ''main'' default_query no_bounds = Inr (Some e) \<and> e_body e = MessageEntry sample_text False"
proof -
  have "bounded 1 VNull" "serializable loop_heap VNull" by (simp_all add: bounded_def leaf)
  note commit = commitEntry_accepts [OF loop_heap_bounded(1) this]
  have "\<not> isl (ms_appendEntry 3 sample_storage \<lparr> pe_id = ''a'', pe_body = MessageEntry sample_text False \<rparr> ''main'')"
    by code_simp
  then obtain e st where
    "ms_appendEntry 3 sample_storage \<lparr> pe_id = ''a'', pe_body = MessageEntry sample_text False \<rparr> ''main'' = Inr (e, st)"
    by (cases "ms_appendEntry 3 sample_storage \<lparr> pe_id = ''a'', pe_body = MessageEntry sample_text False \<rparr> ''main''") auto
  then have run: "appendMessageToLane 3 ''a'' loop_heap VNull sample_storage ''main'' sample_text = Some (Inr (e_id e, st))"
    by (simp add: appendMessageToLane_def commit)
  have "session_inv (ms_state sample_storage)" by (simp add: sample_storage_def new_storage_def session_inv_initial)
  from appended_message_found [OF this run] run show ?thesis by auto
qed

text \<open>A query for one entry is the query for all of them cut to its first answer.\<close>

lemma find_one_is_first_of_all:
  assumes "valid_limit (q_limit q)" and "valid_cursor (q_cursor q)"
  shows "session_findEntry st q = rbind (session_findEntries st (q\<lparr> q_limit := None \<rparr>)) (\<lambda>es. Inr (first_of es))"
  using assms by (rule findEntry_first)

lemma find_one_is_first_of_all_witness:
  "session_findEntry sample_storage default_query
     = rbind (session_findEntries sample_storage (default_query\<lparr> q_limit := None \<rparr>)) (\<lambda>es. Inr (first_of es))"
  by (rule find_one_is_first_of_all) (simp_all add: default_query_def valid_cursor_def)

end
