(* ===== verification/Session_Manager.thy ===== *)
theory Session_Manager
  imports Session_Types
begin

text \<open>
  \<^verbatim>\<open>packages/coding-agent/src/core/session-manager.ts\<close>: the session of the command-line application, an append-only tree of
  entries with a leaf pointer, labels and a file. A line of a session file is the entry it holds, or nothing when it
  cannot be parsed; writing and reading of the JSON text of a line is that of \<^verbatim>\<open>JSON\<close>, and a line that is JSON is taken to be a
  header or an entry. Paths are resolved already. What the program draws from outside (random identifiers, the time) is an
  argument. An operation that throws gives \<open>Inl\<close>: what it leaves of the object is not described.
\<close>

section \<open>Entries\<close>

record session_header =
  sh_version :: "nat option"
  sh_id :: string
  sh_timestamp :: string
  sh_cwd :: string
  sh_parentSession :: "string option"

text \<open>A message as it stands in a file: its content may be null, and version 2 files have hook messages.\<close>

datatype stored_message =
    StoredMessage agent_message bool  \<comment> \<open>is the content null or missing\<close>
  | HookMessage custom_message

datatype session_body =
    SMessage stored_message
  | SThinkingLevelChange string
  | SModelChange string string
  | SCompaction string string int "json option" "usage option" bool "nat option"
      \<comment> \<open>summary, firstKeptEntryId, tokensBefore, details, usage, fromHook, firstKeptEntryIndex (version 1)\<close>
  | SBranchSummary string string "json option" "usage option" bool
      \<comment> \<open>fromId, summary, details, usage, fromHook\<close>
  | SCustom string "json option"
  | SLabel string "string option"
  | SSessionInfo "string option"
  | SCustomMessage string "message_content option" bool "json option"

record session_entry =
  se_id :: string
  se_parentId :: "string option"
  se_timestamp :: string
  se_body :: session_body

datatype file_entry = FileHeader session_header | FileEntry session_entry

definition CURRENT_SESSION_VERSION :: nat where
  "CURRENT_SESSION_VERSION = 3"

section \<open>State\<close>

record session_manager =
  sm_sessionId :: string
  sm_sessionFile :: "string option"
  sm_sessionDir :: string
  sm_cwd :: string
  sm_persist :: bool
  sm_flushed :: bool
  sm_fileEntries :: "file_entry list"
  sm_byId :: "(string, session_entry) js_map"
  sm_labelsById :: "(string, string) js_map"
  sm_labelTimestampsById :: "(string, string) js_map"
  sm_leafId :: "string option"

text \<open>
  The files of the session directory, as lists of lines that end with a newline; \<open>None\<close> is a line that cannot be read. A last line
  without its newline is not represented.
\<close>

type_synonym session_disk = "string \<Rightarrow> file_entry option list option"

datatype manager_error = EntryNotFound string | InvalidSessionId | NotASession string | FileExists string | NoForkSource

text \<open>What an operation draws: the random prefixes it may try, a full random identifier, and the time.\<close>

record draw =
  dr_short :: "string list"
  dr_full :: string
  dr_time :: string

section \<open>Identifiers\<close>

definition id_alnum :: "char \<Rightarrow> bool" where
  "id_alnum c \<longleftrightarrow> (let n = (of_char c :: nat) in 65 \<le> n \<and> n \<le> 90 \<or> 97 \<le> n \<and> n \<le> 122 \<or> 48 \<le> n \<and> n \<le> 57)"

definition assertValidSessionId :: "string \<Rightarrow> manager_error + unit" where
  "assertValidSessionId s =
     ensure (s \<noteq> [] \<and> id_alnum (hd s) \<and> id_alnum (last s) \<and> list_all (\<lambda>c. id_alnum c \<or> c \<in> {CHR ''.'', CHR ''_'', CHR ''-''}) s)
       InvalidSessionId"

definition generateId :: "string set \<Rightarrow> draw \<Rightarrow> string" where
  "generateId taken d = (case List.find (\<lambda>i. i \<notin> taken) (take 100 (dr_short d)) of Some i \<Rightarrow> i | None \<Rightarrow> dr_full d)"

definition map_keys :: "('k, 'v) js_map \<Rightarrow> 'k set" where
  "map_keys m = fst ` set m"

section \<open>Reading the entries\<close>

definition getEntries :: "session_manager \<Rightarrow> session_entry list" where
  "getEntries m = List.map_filter (\<lambda>e. case e of FileHeader h \<Rightarrow> None | FileEntry x \<Rightarrow> Some x) (sm_fileEntries m)"

fun is_header :: "file_entry \<Rightarrow> bool" where
  "is_header (FileHeader h) = True"
| "is_header (FileEntry x) = False"

definition getHeader :: "file_entry list \<Rightarrow> session_header option" where
  "getHeader es = (case List.find is_header es of Some (FileHeader h) \<Rightarrow> Some h | _ \<Rightarrow> None)"

fun is_assistant_entry :: "file_entry \<Rightarrow> bool" where
  "is_assistant_entry (FileEntry x) =
     (case se_body x of SMessage (StoredMessage m b) \<Rightarrow> message_role m = RoleAssistant | _ \<Rightarrow> False)"
| "is_assistant_entry (FileHeader h) = False"

text \<open>A JavaScript string is false when it is empty.\<close>

definition truthy :: "string option \<Rightarrow> string option" where
  "truthy s = (case s of None \<Rightarrow> None | Some t \<Rightarrow> if t = [] then None else Some t)"

definition label_step :: "(string, string) js_map \<times> (string, string) js_map \<Rightarrow> session_entry
    \<Rightarrow> (string, string) js_map \<times> (string, string) js_map" where
  "label_step maps e =
     (case se_body e of
        SLabel target label \<Rightarrow>
          (case truthy label of
             Some l \<Rightarrow> (map_set target l (fst maps), map_set target (se_timestamp e) (snd maps))
           | None \<Rightarrow> (map_delete target (fst maps), map_delete target (snd maps)))
      | _ \<Rightarrow> maps)"

definition index_step :: "session_manager \<Rightarrow> file_entry \<Rightarrow> session_manager" where
  "index_step m e =
     (case e of
        FileHeader h \<Rightarrow> m
      | FileEntry x \<Rightarrow>
          (let (labels, stamps) = label_step (sm_labelsById m, sm_labelTimestampsById m) x in
           m\<lparr> sm_byId := map_set (se_id x) x (sm_byId m), sm_leafId := Some (se_id x),
              sm_labelsById := labels, sm_labelTimestampsById := stamps \<rparr>))"

definition buildIndex :: "session_manager \<Rightarrow> session_manager" where
  "buildIndex m =
     foldl index_step (m\<lparr> sm_byId := [], sm_labelsById := [], sm_labelTimestampsById := [], sm_leafId := None \<rparr>) (sm_fileEntries m)"

section \<open>Writing\<close>

definition rewriteFile :: "session_manager \<Rightarrow> session_disk \<Rightarrow> session_disk" where
  "rewriteFile m disk =
     (case sm_sessionFile m of
        None \<Rightarrow> disk
      | Some f \<Rightarrow> if sm_persist m then disk(f \<mapsto> map Some (sm_fileEntries m)) else disk)"

definition appendLine :: "string \<Rightarrow> file_entry \<Rightarrow> session_disk \<Rightarrow> session_disk" where
  "appendLine f e disk = disk(f \<mapsto> (case disk f of None \<Rightarrow> [] | Some ls \<Rightarrow> ls) @ [Some e])"

definition persistEntry :: "session_entry \<Rightarrow> session_manager \<Rightarrow> session_disk \<Rightarrow> manager_error + session_manager \<times> session_disk" where
  "persistEntry x m disk =
     (case sm_sessionFile m of
        None \<Rightarrow> Inr (m, disk)
      | Some f \<Rightarrow>
          if \<not> sm_persist m then Inr (m, disk)
          else if \<not> (\<exists>e \<in> set (sm_fileEntries m). is_assistant_entry e) then
            Inr (m, if sm_flushed m then appendLine f (FileEntry x) disk else disk)
          else if \<not> sm_flushed m then
            (if disk f \<noteq> None then Inl (FileExists f)
             else Inr (m\<lparr> sm_flushed := True \<rparr>, disk(f \<mapsto> map Some (sm_fileEntries m))))
          else Inr (m, appendLine f (FileEntry x) disk))"

definition appendEntry :: "session_entry \<Rightarrow> session_manager \<Rightarrow> session_disk \<Rightarrow> manager_error + session_manager \<times> session_disk" where
  "appendEntry x m disk =
     persistEntry x (m\<lparr> sm_fileEntries := sm_fileEntries m @ [FileEntry x], sm_byId := map_set (se_id x) x (sm_byId m),
       sm_leafId := Some (se_id x) \<rparr>) disk"

text \<open>The entry of an append: a child of the leaf.\<close>

definition new_entry :: "session_body \<Rightarrow> draw \<Rightarrow> session_manager \<Rightarrow> session_entry" where
  "new_entry body d m =
     \<lparr> se_id = generateId (map_keys (sm_byId m)) d, se_parentId = sm_leafId m, se_timestamp = dr_time d, se_body = body \<rparr>"

definition append_body :: "session_body \<Rightarrow> draw \<Rightarrow> session_manager \<Rightarrow> session_disk \<Rightarrow> manager_error + session_manager \<times> session_disk" where
  "append_body body d m disk = appendEntry (new_entry body d m) m disk"

definition appendMessage :: "agent_message \<Rightarrow> draw \<Rightarrow> session_manager \<Rightarrow> session_disk \<Rightarrow> manager_error + session_manager \<times> session_disk" where
  "appendMessage message = append_body (SMessage (StoredMessage message False))"

definition appendThinkingLevelChange where
  "appendThinkingLevelChange level = append_body (SThinkingLevelChange level)"

definition appendModelChange where
  "appendModelChange provider modelId = append_body (SModelChange provider modelId)"

definition appendCompaction where
  "appendCompaction summary firstKept tokensBefore details fromHook usage =
     append_body (SCompaction summary firstKept tokensBefore details usage fromHook None)"

definition appendCustomEntry where
  "appendCustomEntry customType data = append_body (SCustom customType data)"

definition appendCustomMessageEntry where
  "appendCustomMessageEntry customType content display details = append_body (SCustomMessage customType (Some content) display details)"

text \<open>Runs of line breaks in a name become one space, and the name is trimmed.\<close>

definition is_break :: "char \<Rightarrow> bool" where
  "is_break c \<longleftrightarrow> c = CHR 0x0D \<or> c = CHR 0x0A"

definition is_blank :: "char \<Rightarrow> bool" where
  "is_blank c \<longleftrightarrow> c \<in> {CHR 0x20, CHR 0x09, CHR 0x0A, CHR 0x0B, CHR 0x0C, CHR 0x0D, CHR 0xA0}"

definition trim :: "string \<Rightarrow> string" where
  "trim s = rev (dropWhile is_blank (rev (dropWhile is_blank s)))"

fun join_breaks :: "bool \<Rightarrow> string \<Rightarrow> string" where
  "join_breaks inside [] = []"
| "join_breaks inside (c # s) =
     (if is_break c then (if inside then join_breaks True s else CHR '' '' # join_breaks True s) else c # join_breaks False s)"

definition appendSessionInfo where
  "appendSessionInfo name = append_body (SSessionInfo (Some (trim (join_breaks False name))))"

definition is_session_info :: "session_entry \<Rightarrow> bool" where
  "is_session_info e = (case se_body e of SSessionInfo n \<Rightarrow> True | _ \<Rightarrow> False)"

definition getSessionName :: "session_manager \<Rightarrow> string option" where
  "getSessionName m =
     (case List.find is_session_info (rev (getEntries m)) of
        Some e \<Rightarrow> (case se_body e of SSessionInfo (Some n) \<Rightarrow> truthy (Some (trim n)) | _ \<Rightarrow> None)
      | None \<Rightarrow> None)"

definition appendLabelChange ::
  "string \<Rightarrow> string option \<Rightarrow> draw \<Rightarrow> session_manager \<Rightarrow> session_disk \<Rightarrow> manager_error + session_manager \<times> session_disk" where
  "appendLabelChange target label d m disk =
     rbind (ensure (map_has (sm_byId m) target) (EntryNotFound target)) (\<lambda>_.
     let x = new_entry (SLabel target label) d m in
     rbind (appendEntry x m disk) (\<lambda>(m', disk').
     let (labels, stamps) = label_step (sm_labelsById m', sm_labelTimestampsById m') x in
     Inr (m'\<lparr> sm_labelsById := labels, sm_labelTimestampsById := stamps \<rparr>, disk')))"

section \<open>Traversal\<close>

partial_function (option) walk :: "(string, session_entry) js_map \<Rightarrow> session_entry option \<Rightarrow> session_entry list \<Rightarrow> session_entry list option" where
  "walk byId current path =
     (case current of
        None \<Rightarrow> Some path
      | Some e \<Rightarrow> walk byId (Option.bind (truthy (se_parentId e)) (map_get byId)) (e # path))"

definition getBranch :: "string option \<Rightarrow> session_manager \<Rightarrow> session_entry list option" where
  "getBranch fromId m =
     (let startId = (case fromId of Some i \<Rightarrow> Some i | None \<Rightarrow> sm_leafId m) in
      walk (sm_byId m) (Option.bind (truthy startId) (map_get (sm_byId m))) [])"

definition getChildren :: "string \<Rightarrow> session_manager \<Rightarrow> session_entry list" where
  "getChildren parent m = filter (\<lambda>e. se_parentId e = Some parent) (map snd (sm_byId m))"

definition getLabel :: "string \<Rightarrow> session_manager \<Rightarrow> string option" where
  "getLabel i m = map_get (sm_labelsById m) i"

section \<open>Branching\<close>

definition branch :: "string \<Rightarrow> session_manager \<Rightarrow> manager_error + session_manager" where
  "branch from m =
     rbind (ensure (map_has (sm_byId m) from) (EntryNotFound from)) (\<lambda>_. Inr (m\<lparr> sm_leafId := Some from \<rparr>))"

definition resetLeaf :: "session_manager \<Rightarrow> session_manager" where
  "resetLeaf m = m\<lparr> sm_leafId := None \<rparr>"

definition branchWithSummary ::
  "string option \<Rightarrow> string \<Rightarrow> json option \<Rightarrow> bool \<Rightarrow> usage option \<Rightarrow> draw \<Rightarrow> session_manager \<Rightarrow> session_disk
    \<Rightarrow> manager_error + session_manager \<times> session_disk" where
  "branchWithSummary from summary details fromHook usage d m disk =
     rbind (case from of None \<Rightarrow> Inr () | Some i \<Rightarrow> ensure (map_has (sm_byId m) i) (EntryNotFound i)) (\<lambda>_.
     append_body (SBranchSummary (case from of None \<Rightarrow> ''root'' | Some i \<Rightarrow> i) summary details usage fromHook) d
       (m\<lparr> sm_leafId := from \<rparr>) disk)"

definition is_label :: "session_entry \<Rightarrow> bool" where
  "is_label e = (case se_body e of SLabel t l \<Rightarrow> True | _ \<Rightarrow> False)"

text \<open>The path without its labels, chained anew.\<close>

fun rechain :: "string option \<Rightarrow> session_entry list \<Rightarrow> session_entry list" where
  "rechain parent [] = []"
| "rechain parent (e # es) =
     (if is_label e then rechain parent es else e\<lparr> se_parentId := parent \<rparr> # rechain (Some (se_id e)) es)"

definition labelsToWrite :: "string set \<Rightarrow> session_manager \<Rightarrow> (string \<times> string \<times> string) list" where
  "labelsToWrite pathIds m =
     List.map_filter (\<lambda>(target, label). if target \<in> pathIds
       then Some (target, label, case map_get (sm_labelTimestampsById m) target of Some t \<Rightarrow> t | None \<Rightarrow> [])
       else None) (sm_labelsById m)"

fun label_entries :: "(nat \<Rightarrow> draw) \<Rightarrow> nat \<Rightarrow> string set \<Rightarrow> string option \<Rightarrow> (string \<times> string \<times> string) list \<Rightarrow> session_entry list" where
  "label_entries ds n taken parent ((target, label, time) # rest) =
     (let x = \<lparr> se_id = generateId taken (ds n), se_parentId = parent, se_timestamp = time, se_body = SLabel target (Some label) \<rparr> in
      x # label_entries ds (Suc n) (insert (se_id x) taken) (Some (se_id x)) rest)"
| "label_entries ds n taken parent [] = []"

definition session_file_name :: "string \<Rightarrow> string \<Rightarrow> string \<Rightarrow> string" where
  "session_file_name dir time i =
     dir @ ''/'' @ map (\<lambda>c. if c \<in> {CHR '':'', CHR ''.''} then CHR ''-'' else c) time @ ''_'' @ i @ ''.jsonl''"

definition createBranchedSession ::
  "string \<Rightarrow> draw \<Rightarrow> (nat \<Rightarrow> draw) \<Rightarrow> session_manager \<Rightarrow> session_disk \<Rightarrow> (manager_error + session_manager \<times> session_disk) option" where
  "createBranchedSession leaf d ds m disk =
     (case getBranch (Some leaf) m of
        None \<Rightarrow> None
      | Some path \<Rightarrow> Some (
          if path = [] then Inl (EntryNotFound leaf)
          else let
            kept = rechain None path;
            header = \<lparr> sh_version = Some CURRENT_SESSION_VERSION, sh_id = dr_full d, sh_timestamp = dr_time d, sh_cwd = sm_cwd m,
              sh_parentSession = (if sm_persist m then sm_sessionFile m else None) \<rparr>;
            ids = se_id ` set kept;
            labels = label_entries ds 0 ids (truthy (if kept = [] then None else Some (se_id (last kept)))) (labelsToWrite ids m);
            entries = FileHeader header # map FileEntry kept @ map FileEntry labels
          in if sm_persist m then
               let m1 = buildIndex (m\<lparr> sm_fileEntries := entries, sm_sessionId := dr_full d,
                     sm_sessionFile := Some (session_file_name (sm_sessionDir m) (dr_time d) (dr_full d)) \<rparr>)
               in if \<exists>e \<in> set entries. is_assistant_entry e
                  then Inr (m1\<lparr> sm_flushed := True \<rparr>, rewriteFile m1 disk)
                  else Inr (m1\<lparr> sm_flushed := False \<rparr>, disk)
             else Inr (buildIndex (m\<lparr> sm_fileEntries := entries, sm_sessionId := dr_full d \<rparr>), disk)))"

section \<open>Opening\<close>

definition newSession :: "string option \<Rightarrow> string option \<Rightarrow> draw \<Rightarrow> session_manager \<Rightarrow> manager_error + session_manager" where
  "newSession ident parent d m =
     rbind (case ident of None \<Rightarrow> Inr () | Some i \<Rightarrow> assertValidSessionId i) (\<lambda>_.
     let i = (case ident of None \<Rightarrow> dr_full d | Some i \<Rightarrow> i);
         header = \<lparr> sh_version = Some CURRENT_SESSION_VERSION, sh_id = i, sh_timestamp = dr_time d, sh_cwd = sm_cwd m,
           sh_parentSession = parent \<rparr>
     in Inr (m\<lparr> sm_sessionId := i, sm_fileEntries := [FileHeader header], sm_byId := [], sm_labelsById := [],
          sm_labelTimestampsById := [], sm_leafId := None, sm_flushed := False,
          sm_sessionFile := (if sm_persist m then Some (session_file_name (sm_sessionDir m) (dr_time d) i) else sm_sessionFile m) \<rparr>))"

text \<open>A file is a session when its first line that can be read is a header.\<close>

definition loadEntriesFromFile :: "file_entry option list \<Rightarrow> file_entry list" where
  "loadEntriesFromFile ls =
     (case List.map_filter id ls of FileHeader h # rest \<Rightarrow> FileHeader h # rest | _ \<Rightarrow> [])"

text \<open>
  \<^verbatim>\<open>migrateV1ToV2\<close>: entries of version 1 have no identifiers. The loop gives them identifiers and chains them; the entry
  that a compaction names by its index is read from the list that is being changed.
\<close>

definition first_kept_of :: "file_entry list \<Rightarrow> session_entry \<Rightarrow> session_entry" where
  "first_kept_of entries x =
     (case se_body x of
        SCompaction summary firstKept tokens details usage fromHook (Some k) \<Rightarrow>
          (let target = (if k < length entries then Some (entries ! k) else None);
               firstKept' = (case target of Some (FileEntry y) \<Rightarrow> se_id y | _ \<Rightarrow> firstKept)
           in x\<lparr> se_body := SCompaction summary firstKept' tokens details usage fromHook None \<rparr>)
      | _ \<Rightarrow> x)"

fun migrate_v1 :: "(nat \<Rightarrow> draw) \<Rightarrow> string set \<Rightarrow> string option \<Rightarrow> file_entry list \<Rightarrow> file_entry list \<Rightarrow> file_entry list" where
  "migrate_v1 ds ids prev migrated [] = migrated"
| "migrate_v1 ds ids prev migrated (FileHeader h # rest) =
     migrate_v1 ds ids prev (migrated @ [FileHeader (h\<lparr> sh_version := Some 2 \<rparr>)]) rest"
| "migrate_v1 ds ids prev migrated (FileEntry x # rest) =
     (let i = generateId ids (ds (length migrated));
          x1 = x\<lparr> se_id := i, se_parentId := prev \<rparr>;
          x2 = first_kept_of (migrated @ FileEntry x1 # rest) x1
      in migrate_v1 ds ids (Some i) (migrated @ [FileEntry x2]) rest)"

definition migrateV1ToV2 :: "(nat \<Rightarrow> draw) \<Rightarrow> file_entry list \<Rightarrow> file_entry list" where
  "migrateV1ToV2 ds es = migrate_v1 ds {} None [] es"

definition migrate_message :: "session_entry \<Rightarrow> session_entry" where
  "migrate_message e =
     (case se_body e of SMessage (HookMessage c) \<Rightarrow> e\<lparr> se_body := SMessage (StoredMessage (CustomMessage c) False) \<rparr> | _ \<Rightarrow> e)"

definition migrateV2ToV3 :: "file_entry list \<Rightarrow> file_entry list" where
  "migrateV2ToV3 es = map (\<lambda>e. case e of FileHeader h \<Rightarrow> FileHeader (h\<lparr> sh_version := Some 3 \<rparr>) | FileEntry x \<Rightarrow> FileEntry (migrate_message x)) es"

text \<open>The migrated entries, and whether there was anything to migrate.\<close>

definition migrateToCurrentVersion :: "(nat \<Rightarrow> draw) \<Rightarrow> file_entry list \<Rightarrow> file_entry list \<times> bool" where
  "migrateToCurrentVersion ds es =
     (let version = (case getHeader es of Some h \<Rightarrow> (case sh_version h of Some v \<Rightarrow> v | None \<Rightarrow> 1) | None \<Rightarrow> 1) in
      if version \<ge> CURRENT_SESSION_VERSION then (es, False)
      else let es1 = (if version < 2 then migrateV1ToV2 ds es else es) in (migrateV2ToV3 es1, True))"

definition setSessionFile ::
  "string \<Rightarrow> draw \<Rightarrow> (nat \<Rightarrow> draw) \<Rightarrow> session_manager \<Rightarrow> session_disk \<Rightarrow> manager_error + session_manager \<times> session_disk" where
  "setSessionFile f d ds m disk =
     (case disk f of
        Some ls \<Rightarrow>
          (case loadEntriesFromFile ls of
             [] \<Rightarrow>
               if ls \<noteq> [] then Inl (NotASession f)
               else rbind (newSession None None d m) (\<lambda>m1.
                    let m2 = m1\<lparr> sm_sessionFile := Some f \<rparr> in
                    Inr (m2\<lparr> sm_flushed := True \<rparr>, rewriteFile m2 disk))
           | es \<Rightarrow>
               let (es', migrated) = migrateToCurrentVersion ds es;
                   m1 = m\<lparr> sm_sessionFile := Some f, sm_sessionId := (case getHeader es of Some h \<Rightarrow> sh_id h | None \<Rightarrow> dr_full d),
                     sm_fileEntries := es' \<rparr>
               in Inr ((buildIndex m1)\<lparr> sm_flushed := True \<rparr>, if migrated then rewriteFile m1 disk else disk))
      | None \<Rightarrow>
          rbind (newSession None None d m) (\<lambda>m1. Inr (m1\<lparr> sm_sessionFile := Some f \<rparr>, disk)))"

definition blank_manager :: "string \<Rightarrow> string \<Rightarrow> bool \<Rightarrow> session_manager" where
  "blank_manager cwd dir persist = \<lparr> sm_sessionId = [], sm_sessionFile = None, sm_sessionDir = dir, sm_cwd = cwd, sm_persist = persist,
     sm_flushed = False, sm_fileEntries = [], sm_byId = [], sm_labelsById = [], sm_labelTimestampsById = [], sm_leafId = None \<rparr>"

text \<open>\<^verbatim>\<open>create\<close>, \<^verbatim>\<open>inMemory\<close> and \<^verbatim>\<open>open\<close>: the constructor without and with a file.\<close>

definition create_manager where
  "create_manager cwd dir persist ident d = newSession ident None d (blank_manager cwd dir persist)"

definition open_manager where
  "open_manager cwd dir f d ds disk = setSessionFile f d ds (blank_manager cwd dir True) disk"

definition forkFrom ::
  "string \<Rightarrow> string \<Rightarrow> string \<Rightarrow> string option \<Rightarrow> draw \<Rightarrow> (nat \<Rightarrow> draw) \<Rightarrow> session_disk \<Rightarrow> manager_error + session_manager \<times> session_disk" where
  "forkFrom source cwd dir ident d ds disk =
     (case loadEntriesFromFile (case disk source of None \<Rightarrow> [] | Some ls \<Rightarrow> ls) of
        [] \<Rightarrow> Inl NoForkSource
      | es \<Rightarrow>
          rbind (case ident of None \<Rightarrow> Inr () | Some i \<Rightarrow> assertValidSessionId i) (\<lambda>_.
          let i = (case ident of None \<Rightarrow> dr_full d | Some i \<Rightarrow> i);
              f = session_file_name dir (dr_time d) i;
              header = \<lparr> sh_version = Some CURRENT_SESSION_VERSION, sh_id = i, sh_timestamp = dr_time d, sh_cwd = cwd,
                sh_parentSession = Some source \<rparr>
          in if disk f \<noteq> None then Inl (FileExists f)
             else open_manager cwd dir f d ds (disk(f \<mapsto> Some (FileHeader header) # map Some (filter (\<lambda>e. \<not> is_header e) es)))))"

section \<open>Context\<close>

definition with_empty_content :: "agent_message \<Rightarrow> agent_message" where
  "with_empty_content m =
     (case m of
        UserMessage u \<Rightarrow> UserMessage (u\<lparr> um_content := BlockContent [] \<rparr>)
      | AssistantMessage a \<Rightarrow> AssistantMessage (a\<lparr> am_content := [] \<rparr>)
      | ToolResultMessage r \<Rightarrow> ToolResultMessage (r\<lparr> tr_content := [] \<rparr>)
      | _ \<Rightarrow> m)"

definition sessionEntryToContextMessages :: "(string \<Rightarrow> int) \<Rightarrow> session_entry \<Rightarrow> stored_message list" where
  "sessionEntryToContextMessages date e =
     (case se_body e of
        SMessage (StoredMessage m nocontent) \<Rightarrow>
          (if message_role m \<in> {RoleUser, RoleAssistant, RoleToolResult} \<and> nocontent
           then [StoredMessage (with_empty_content m) False] else [StoredMessage m nocontent])
      | SMessage (HookMessage c) \<Rightarrow> [HookMessage c]
      | SCustomMessage customType content display details \<Rightarrow>
          [StoredMessage (CustomMessage \<lparr> cm_customType = customType, cm_content = (case content of None \<Rightarrow> BlockContent [] | Some c \<Rightarrow> c),
            cm_display = display, cm_details = details, cm_timestamp = date (se_timestamp e) \<rparr>) False]
      | SBranchSummary fromId summary details usage fromHook \<Rightarrow>
          (if summary = [] then []
           else [StoredMessage (BranchSummaryMessage \<lparr> bs_summary = summary, bs_fromId = fromId, bs_timestamp = date (se_timestamp e) \<rparr>) False])
      | SCompaction summary firstKept tokensBefore details usage fromHook firstIndex \<Rightarrow>
          [StoredMessage (CompactionSummaryMessage \<lparr> cs_summary = summary, cs_tokensBefore = tokensBefore,
            cs_timestamp = date (se_timestamp e) \<rparr>) False]
      | _ \<Rightarrow> [])"

definition setting_step :: "string \<times> (string \<times> string) option \<Rightarrow> session_entry \<Rightarrow> string \<times> (string \<times> string) option" where
  "setting_step st e =
     (case se_body e of
        SThinkingLevelChange level \<Rightarrow> (level, snd st)
      | SModelChange provider modelId \<Rightarrow> (fst st, Some (provider, modelId))
      | SMessage (StoredMessage (AssistantMessage a) b) \<Rightarrow> (fst st, Some (am_provider a, am_model a))
      | _ \<Rightarrow> st)"

definition getSessionContextSettings :: "session_entry list \<Rightarrow> string \<times> (string \<times> string) option" where
  "getSessionContextSettings path = foldl setting_step (''off'', None) path"

definition buildSessionPath ::
  "session_entry list \<Rightarrow> string option option \<Rightarrow> (string, session_entry) js_map \<Rightarrow> session_entry list option" where
  "buildSessionPath entries leafId byId =
     (if leafId = Some None then Some []
      else let found = Option.bind (truthy (Option.bind leafId id)) (map_get byId);
               leaf = (case found of Some e \<Rightarrow> Some e | None \<Rightarrow> if entries = [] then None else Some (last entries))
           in walk byId leaf [])"

definition compaction_first_kept :: "session_entry \<Rightarrow> string option" where
  "compaction_first_kept e = (case se_body e of SCompaction summary firstKept t d u h k \<Rightarrow> Some firstKept | _ \<Rightarrow> None)"

text \<open>The entries of a path that the context shows (\<^verbatim>\<open>buildContextEntries\<close> after its path).\<close>

definition context_entries :: "session_entry list \<Rightarrow> session_entry list" where
  "context_entries path =
     (case List.find (\<lambda>e. compaction_first_kept e \<noteq> None) (rev path) of
        None \<Rightarrow> path
      | Some c \<Rightarrow>
          let before = takeWhile (\<lambda>e. se_id e \<noteq> se_id c) path;
              after = drop (Suc (length before)) path
          in c # dropWhile (\<lambda>e. Some (se_id e) \<noteq> compaction_first_kept c) before @ after)"

definition buildContextEntries where
  "buildContextEntries entries leafId byId = map_option context_entries (buildSessionPath entries leafId byId)"

record session_context =
  sc_messages :: "stored_message list"
  sc_thinkingLevel :: string
  sc_model :: "(string \<times> string) option"

definition path_context :: "(string \<Rightarrow> int) \<Rightarrow> session_entry list \<Rightarrow> session_context" where
  "path_context date path =
     \<lparr> sc_messages = concat (map (sessionEntryToContextMessages date) (context_entries path)),
       sc_thinkingLevel = fst (getSessionContextSettings path), sc_model = snd (getSessionContextSettings path) \<rparr>"

definition buildSessionContext where
  "buildSessionContext date entries leafId byId = map_option (path_context date) (buildSessionPath entries leafId byId)"

definition manager_context :: "(string \<Rightarrow> int) \<Rightarrow> session_manager \<Rightarrow> session_context option" where
  "manager_context date m = buildSessionContext date (getEntries m) (Some (sm_leafId m)) (sm_byId m)"

end
