(* ===== verification/Session_Tree.thy ===== *)
theory Session_Tree
  imports Session_Manager "HOL-Library.Sublist"
begin

text \<open>
  What the session manager guarantees: its entries form a tree that only grows, its index and labels agree with them, its
  file holds all of them from the first assistant message on, a file that is opened again gives the same session, and
  a session made of one branch keeps the context of that branch.
\<close>

section \<open>Trees that grow\<close>

definition entry_ids :: "session_entry list \<Rightarrow> string set" where
  "entry_ids es = se_id ` set es"

inductive grown_tree :: "session_entry list \<Rightarrow> bool" where
  empty: "grown_tree []"
| snoc: "grown_tree es \<Longrightarrow> se_id e \<noteq> [] \<Longrightarrow> se_id e \<notin> entry_ids es \<Longrightarrow> (\<And>p. se_parentId e = Some p \<Longrightarrow> p \<in> entry_ids es) \<Longrightarrow> grown_tree (es @ [e])"

inductive_cases grown_tree_snocE: "grown_tree (es @ [e])"

definition tree_index :: "session_entry list \<Rightarrow> (string, session_entry) js_map" where
  "tree_index es = map (\<lambda>e. (se_id e, e)) es"

definition labels_of :: "session_entry list \<Rightarrow> (string, string) js_map \<times> (string, string) js_map" where
  "labels_of es = foldl label_step ([], []) es"

definition manager_ok :: "session_manager \<Rightarrow> bool" where
  "manager_ok m \<longleftrightarrow> (\<exists>h es. sm_fileEntries m = FileHeader h # map FileEntry es \<and> grown_tree es \<and> sm_byId m = tree_index es \<and>
     (sm_labelsById m, sm_labelTimestampsById m) = labels_of es \<and> (\<forall>l. sm_leafId m = Some l \<longrightarrow> l \<in> entry_ids es))"

lemma entry_ids_simps [simp]: "entry_ids [] = {}" "entry_ids (e # es) = insert (se_id e) (entry_ids es)" "entry_ids (es @ fs) = entry_ids es \<union> entry_ids fs"
  by (auto simp: entry_ids_def)

lemma keys_index [simp]: "map_keys (tree_index es) = entry_ids es"
  by (simp add: map_keys_def tree_index_def entry_ids_def image_image)

lemma tree_index_snoc [simp]: "tree_index (es @ fs) = tree_index es @ tree_index fs" "tree_index [e] = [(se_id e, e)]" "tree_index [] = []"
  by (simp_all add: tree_index_def)

lemma map_get_index: "map_get (tree_index es) i = None \<longleftrightarrow> i \<notin> entry_ids es"
  by (auto simp: tree_index_def entry_ids_def map_of_eq_None_iff image_image)

lemma has_index [simp]: "map_has (tree_index es) i \<longleftrightarrow> i \<in> entry_ids es"
  using map_get_index by (simp add: map_has_def)

lemma set_index: "se_id e \<notin> entry_ids es \<Longrightarrow> map_set (se_id e) e (tree_index es) = tree_index (es @ [e])"
  by (simp add: map_set_new map_get_index)

lemma grown_distinct: "grown_tree es \<Longrightarrow> distinct (map se_id es)"
  by (induction rule: grown_tree.induct) (auto simp: entry_ids_def)

lemma get_member: "grown_tree es \<Longrightarrow> e \<in> set es \<Longrightarrow> map_get (tree_index es) (se_id e) = Some e"
  using grown_distinct [of es] by (intro map_of_is_SomeI) (auto simp: tree_index_def comp_def)

lemma get_Some: "map_get (tree_index es) i = Some e \<Longrightarrow> e \<in> set es \<and> se_id e = i"
  by (induction es) (auto simp: tree_index_def split: if_splits)

lemma labels_of_snoc [simp]: "labels_of (es @ [e]) = label_step (labels_of es) e" "labels_of [] = ([], [])"
  by (simp_all add: labels_of_def)

lemma getEntries_file: "sm_fileEntries m = FileHeader h # map FileEntry es \<Longrightarrow> getEntries m = es"
proof -
  have "List.map_filter (\<lambda>e. case e of FileHeader h \<Rightarrow> None | FileEntry x \<Rightarrow> Some x) (map FileEntry es) = es" for es
    by (induction es) (simp_all add: map_filter_simps)
  then show "sm_fileEntries m = FileHeader h # map FileEntry es \<Longrightarrow> getEntries m = es"
    by (simp add: getEntries_def map_filter_simps)
qed

lemma manager_okE:
  assumes "manager_ok m"
  obtains h where "sm_fileEntries m = FileHeader h # map FileEntry (getEntries m)" "grown_tree (getEntries m)"
    "sm_byId m = tree_index (getEntries m)" "(sm_labelsById m, sm_labelTimestampsById m) = labels_of (getEntries m)"
    "\<And>l. sm_leafId m = Some l \<Longrightarrow> l \<in> entry_ids (getEntries m)"
proof -
  from assms obtain h es where es: "sm_fileEntries m = FileHeader h # map FileEntry es" "grown_tree es" "sm_byId m = tree_index es"
     "(sm_labelsById m, sm_labelTimestampsById m) = labels_of es" "\<forall>l. sm_leafId m = Some l \<longrightarrow> l \<in> entry_ids es"
    unfolding manager_ok_def by blast
  moreover have "getEntries m = es" using es(1) by (rule getEntries_file)
  ultimately show thesis using that by simp
qed

lemma manager_okD:
  assumes "manager_ok m"
  shows "grown_tree (getEntries m)" "sm_byId m = tree_index (getEntries m)" "(sm_labelsById m, sm_labelTimestampsById m) = labels_of (getEntries m)"
    "sm_leafId m = Some l \<Longrightarrow> l \<in> entry_ids (getEntries m)"
  by (rule manager_okE [OF assms], simp)+

section \<open>The index\<close>

lemma indexed_entries:
  assumes "grown_tree (es @ fs)" and "sm_byId m = tree_index es" and "(sm_labelsById m, sm_labelTimestampsById m) = labels_of es"
  shows "sm_byId (foldl index_step m (map FileEntry fs)) = tree_index (es @ fs) \<and>
    (sm_labelsById (foldl index_step m (map FileEntry fs)), sm_labelTimestampsById (foldl index_step m (map FileEntry fs))) = labels_of (es @ fs) \<and>
    sm_leafId (foldl index_step m (map FileEntry fs)) = (if fs = [] then sm_leafId m else Some (se_id (last fs)))"
  using assms
proof (induction fs arbitrary: es m)
  case (Cons f fs)
  let ?m = "index_step m (FileEntry f)"
  have new: "se_id f \<notin> entry_ids es" using grown_distinct [OF Cons.prems(1)] by (auto simp: entry_ids_def)
  have byId: "sm_byId ?m = tree_index (es @ [f])"
    using Cons.prems(2) set_index [OF new] by (simp add: index_step_def split_beta)
  have labels: "(sm_labelsById ?m, sm_labelTimestampsById ?m) = labels_of (es @ [f])"
    using Cons.prems(3) by (simp add: index_step_def split_beta)
  have leaf: "sm_leafId ?m = Some (se_id f)" by (simp add: index_step_def split_beta)
  have grown_tree: "grown_tree ((es @ [f]) @ fs)" using Cons.prems(1) by simp
  show ?case using Cons.IH [OF grown_tree byId labels] leaf by simp
qed simp_all

lemma index_frame [simp]:
  "sm_fileEntries (foldl index_step m es) = sm_fileEntries m" "sm_sessionFile (foldl index_step m es) = sm_sessionFile m"
  "sm_persist (foldl index_step m es) = sm_persist m" "sm_flushed (foldl index_step m es) = sm_flushed m"
  "sm_cwd (foldl index_step m es) = sm_cwd m" "sm_sessionDir (foldl index_step m es) = sm_sessionDir m" "sm_sessionId (foldl index_step m es) = sm_sessionId m"
  by (induction es arbitrary: m) (auto simp: index_step_def split_beta split: file_entry.splits)

lemma buildIndex_frame [simp]:
  "sm_fileEntries (buildIndex m) = sm_fileEntries m" "sm_sessionFile (buildIndex m) = sm_sessionFile m" "sm_persist (buildIndex m) = sm_persist m"
  "sm_flushed (buildIndex m) = sm_flushed m" "sm_cwd (buildIndex m) = sm_cwd m" "sm_sessionDir (buildIndex m) = sm_sessionDir m"
  "sm_sessionId (buildIndex m) = sm_sessionId m"
  by (simp_all add: buildIndex_def del: foldl_Cons)

lemma buildIndex_ok:
  assumes "sm_fileEntries m = FileHeader h # map FileEntry es" and "grown_tree es"
  shows "sm_byId (buildIndex m) = tree_index es" "(sm_labelsById (buildIndex m), sm_labelTimestampsById (buildIndex m)) = labels_of es"
    "sm_leafId (buildIndex m) = (if es = [] then None else Some (se_id (last es)))" "sm_fileEntries (buildIndex m) = sm_fileEntries m"
proof -
  let ?m = "m\<lparr> sm_byId := [], sm_labelsById := [], sm_labelTimestampsById := [], sm_leafId := None \<rparr>"
  have m: "buildIndex m = foldl index_step ?m (map FileEntry es)"
    by (simp add: buildIndex_def assms(1) index_step_def)
  show "sm_byId (buildIndex m) = tree_index es" "(sm_labelsById (buildIndex m), sm_labelTimestampsById (buildIndex m)) = labels_of es"
    "sm_leafId (buildIndex m) = (if es = [] then None else Some (se_id (last es)))" "sm_fileEntries (buildIndex m) = sm_fileEntries m"
    unfolding m using indexed_entries [of "[]" es ?m] assms(2) by simp_all
qed

lemma buildIndex_manager_ok:
  assumes "sm_fileEntries m = FileHeader h # map FileEntry es" and "grown_tree es"
  shows "manager_ok (buildIndex m)"
  unfolding manager_ok_def using buildIndex_ok [OF assms] assms by (intro exI [of _ h] exI [of _ es]) (auto simp: entry_ids_def)

section \<open>The file\<close>

text \<open>The lines of a file that can be read; blank and malformed ones are skipped.\<close>

definition readable :: "file_entry option list \<Rightarrow> file_entry list" where
  "readable ls = List.map_filter id ls"

lemma readable_simps [simp]:
  "readable [] = []" "readable (Some e # ls) = e # readable ls" "readable (None # ls) = readable ls"
  "readable (ks @ ls) = readable ks @ readable ls" "readable (map Some es) = es" "readable (map (Some \<circ> g) xs) = map g xs"
  by (simp_all add: readable_def List.map_filter_def comp_def)

text \<open>
  A session that has been written has all its entries in its file: they are the lines of the file that can be read. Before that,
  it has no assistant message and its file does not exist.
\<close>

definition disk_ok :: "session_manager \<Rightarrow> session_disk \<Rightarrow> bool" where
  "disk_ok m disk \<longleftrightarrow> (sm_persist m \<longrightarrow> (\<forall>f. sm_sessionFile m = Some f \<longrightarrow>
     (if sm_flushed m then \<exists>ls. disk f = Some ls \<and> readable ls = sm_fileEntries m
      else disk f = None \<and> \<not> (\<exists>e \<in> set (sm_fileEntries m). is_assistant_entry e))))"

text \<open>What is drawn is not taken.\<close>

definition good_draw :: "string set \<Rightarrow> draw \<Rightarrow> bool" where
  "good_draw taken d \<longleftrightarrow> dr_full d \<notin> taken \<and> dr_full d \<noteq> [] \<and> (\<forall>i \<in> set (dr_short d). i \<noteq> [])"

lemma generateId_fresh: "good_draw taken d \<Longrightarrow> generateId taken d \<notin> taken \<and> generateId taken d \<noteq> []"
  by (auto simp: good_draw_def generateId_def find_Some_iff dest!: in_set_takeD split: option.splits)

lemma appendEntry_result:
  assumes "disk_ok m disk"
  obtains m' disk' where "appendEntry x m disk = Inr (m', disk')" "sm_fileEntries m' = sm_fileEntries m @ [FileEntry x]"
    "sm_byId m' = map_set (se_id x) x (sm_byId m)" "sm_leafId m' = Some (se_id x)" "sm_labelsById m' = sm_labelsById m"
    "sm_labelTimestampsById m' = sm_labelTimestampsById m" "disk_ok m' disk'"
proof -
  let ?m = "m\<lparr> sm_fileEntries := sm_fileEntries m @ [FileEntry x], sm_byId := map_set (se_id x) x (sm_byId m), sm_leafId := Some (se_id x) \<rparr>"
  have "\<exists>m' disk'. persistEntry x ?m disk = Inr (m', disk') \<and> m' = ?m\<lparr> sm_flushed := sm_flushed m' \<rparr> \<and> disk_ok m' disk'"
  proof (cases "sm_persist m \<and> sm_sessionFile m \<noteq> None")
    case False
    then show ?thesis by (auto simp: persistEntry_def disk_ok_def split: option.splits)
  next
    case True
    then obtain f where f: "sm_sessionFile m = Some f" "sm_persist m" by auto
    with assms have disk: "if sm_flushed m then \<exists>ls. disk f = Some ls \<and> readable ls = sm_fileEntries m
        else disk f = None \<and> \<not> (\<exists>e \<in> set (sm_fileEntries m). is_assistant_entry e)" by (simp add: disk_ok_def)
    show ?thesis
      using f disk by (cases "sm_flushed m") (auto simp: persistEntry_def disk_ok_def appendLine_def)
  qed
  then obtain m' disk' where r: "persistEntry x ?m disk = Inr (m', disk')" "m' = ?m\<lparr> sm_flushed := sm_flushed m' \<rparr>" "disk_ok m' disk'"
    by blast
  show thesis
  proof (rule that)
    show "appendEntry x m disk = Inr (m', disk')" using r(1) by (simp add: appendEntry_def)
    show "sm_fileEntries m' = sm_fileEntries m @ [FileEntry x]" "sm_byId m' = map_set (se_id x) x (sm_byId m)"
      "sm_leafId m' = Some (se_id x)" "sm_labelsById m' = sm_labelsById m" "sm_labelTimestampsById m' = sm_labelTimestampsById m"
      by (subst r(2), simp)+
  qed (fact r(3))
qed

lemma append_grown:
  assumes "manager_ok m" and "good_draw (map_keys (sm_byId m)) d"
  shows "grown_tree (getEntries m @ [new_entry body d m])" "se_id (new_entry body d m) \<notin> entry_ids (getEntries m)"
proof -
  note m = manager_okD [OF assms(1)]
  from generateId_fresh [OF assms(2)] m(2)
  have "generateId (map_keys (sm_byId m)) d \<notin> entry_ids (getEntries m)" "generateId (map_keys (sm_byId m)) d \<noteq> []" by simp_all
  then show "grown_tree (getEntries m @ [new_entry body d m])" "se_id (new_entry body d m) \<notin> entry_ids (getEntries m)"
    using m by (auto simp: new_entry_def intro: grown_tree.snoc)
qed

text \<open>An append adds one entry, a child of the leaf that becomes the leaf, and no operation on a session in order fails.\<close>

lemma append_body_ok:
  assumes m: "manager_ok m" and "disk_ok m disk" and d: "good_draw (map_keys (sm_byId m)) d" and "\<nexists>t l. body = SLabel t l"
  obtains m' disk' where "append_body body d m disk = Inr (m', disk')" "manager_ok m'" "disk_ok m' disk'"
    "getEntries m' = getEntries m @ [new_entry body d m]" "sm_leafId m' = Some (se_id (new_entry body d m))"
proof -
  let ?x = "new_entry body d m"
  from appendEntry_result [OF assms(2), of ?x] obtain m' disk' where r: "appendEntry ?x m disk = Inr (m', disk')"
    "sm_fileEntries m' = sm_fileEntries m @ [FileEntry ?x]" "sm_byId m' = map_set (se_id ?x) ?x (sm_byId m)" "sm_leafId m' = Some (se_id ?x)"
    "sm_labelsById m' = sm_labelsById m" "sm_labelTimestampsById m' = sm_labelTimestampsById m" "disk_ok m' disk'" by metis
  from m obtain h where h: "sm_fileEntries m = FileHeader h # map FileEntry (getEntries m)" "grown_tree (getEntries m)"
    "sm_byId m = tree_index (getEntries m)" "(sm_labelsById m, sm_labelTimestampsById m) = labels_of (getEntries m)"
    by (metis manager_okE)
  have lines: "sm_fileEntries m' = FileHeader h # map FileEntry (getEntries m @ [?x])" using r(2) h(1) by simp
  have "label_step (labels_of (getEntries m)) ?x = labels_of (getEntries m)"
    using assms(4) by (auto simp: label_step_def new_entry_def split: session_body.splits)
  then have "manager_ok m'"
    unfolding manager_ok_def using lines r h append_grown [OF m d] set_index
    by (intro exI [of _ h] exI [of _ "getEntries m @ [?x]"]) (auto simp: entry_ids_def)
  with r(1,4,7) getEntries_file [OF lines] show thesis by (intro that) (simp_all add: append_body_def)
qed

lemma appendLabelChange_ok:
  assumes m: "manager_ok m" and "disk_ok m disk" and d: "good_draw (map_keys (sm_byId m)) d" and t: "target \<in> entry_ids (getEntries m)"
  obtains m' disk' where "appendLabelChange target label d m disk = Inr (m', disk')" "manager_ok m'" "disk_ok m' disk'"
    "getEntries m' = getEntries m @ [new_entry (SLabel target label) d m]"
proof -
  let ?x = "new_entry (SLabel target label) d m"
  from appendEntry_result [OF assms(2), of ?x] obtain m' disk' where r: "appendEntry ?x m disk = Inr (m', disk')"
    "sm_fileEntries m' = sm_fileEntries m @ [FileEntry ?x]" "sm_byId m' = map_set (se_id ?x) ?x (sm_byId m)" "sm_leafId m' = Some (se_id ?x)"
    "sm_labelsById m' = sm_labelsById m" "sm_labelTimestampsById m' = sm_labelTimestampsById m" "disk_ok m' disk'" by metis
  from m obtain h where h: "sm_fileEntries m = FileHeader h # map FileEntry (getEntries m)" "grown_tree (getEntries m)"
    "sm_byId m = tree_index (getEntries m)" "(sm_labelsById m, sm_labelTimestampsById m) = labels_of (getEntries m)"
    by (metis manager_okE)
  let ?maps = "label_step (sm_labelsById m', sm_labelTimestampsById m') ?x"
  let ?m = "m'\<lparr> sm_labelsById := fst ?maps, sm_labelTimestampsById := snd ?maps \<rparr>"
  have lines: "sm_fileEntries ?m = FileHeader h # map FileEntry (getEntries m @ [?x])" using r(2) h(1) by simp
  have "?maps = labels_of (getEntries m @ [?x])" using h(4) r(5,6) by simp
  then have "manager_ok ?m"
    unfolding manager_ok_def using lines r h append_grown [OF m d] set_index
    by (intro exI [of _ h] exI [of _ "getEntries m @ [?x]"]) (auto simp: entry_ids_def)
  moreover have "disk_ok ?m disk'" using r(7) by (simp add: disk_ok_def)
  moreover have "appendLabelChange target label d m disk = Inr (?m, disk')"
    using r(1) t h(3) by (simp add: appendLabelChange_def Let_def split_beta)
  ultimately show thesis using getEntries_file [OF lines] that by blast
qed

section \<open>Paths\<close>

fun linked :: "string option \<Rightarrow> session_entry list \<Rightarrow> bool" where
  "linked parent [] \<longleftrightarrow> True"
| "linked parent (e # es) \<longleftrightarrow> se_parentId e = parent \<and> linked (Some (se_id e)) es"

lemma linked_append: "linked parent (es @ fs) \<longleftrightarrow> linked parent es \<and> linked (if es = [] then parent else Some (se_id (last es))) fs"
  by (induction es arbitrary: parent) auto

lemma walk_None [simp]: "walk byId None path = Some path"
  by (subst walk.simps) simp

lemma walk_Some: "walk byId (Some e) path = walk byId (Option.bind (truthy (se_parentId e)) (map_get byId)) (e # path)"
  by (subst walk.simps) simp

lemma grown_nonempty: "grown_tree es \<Longrightarrow> e \<in> set es \<Longrightarrow> se_id e \<noteq> []"
  by (induction rule: grown_tree.induct) auto

lemma truthy_id: "i \<noteq> [] \<Longrightarrow> truthy (Some i) = Some i" "truthy None = None"
  by (simp_all add: truthy_def)

lemma walk_parent:
  assumes "grown_tree full" and "f \<in> set full" and "se_parentId e = Some (se_id f)"
  shows "walk (tree_index full) (Some e) path = walk (tree_index full) (Some f) (e # path)"
  using assms grown_nonempty get_member by (simp add: walk_Some truthy_id)

lemma walk_to_root:
  assumes "grown_tree es" and "grown_tree full" and "set es \<subseteq> set full" and "e \<in> set es"
  shows "\<exists>p. (\<forall>path. walk (tree_index full) (Some e) path = Some (p @ path)) \<and> subseq p es \<and> p \<noteq> [] \<and> last p = e \<and> linked None p"
  using assms(1,3,4)
proof (induction arbitrary: e rule: grown_tree.induct)
  case (snoc es x)
  show ?case
  proof (cases "e \<in> set es")
    case True
    with snoc.IH [of e] snoc.prems(1) obtain p where
      p: "\<forall>path. walk (tree_index full) (Some e) path = Some (p @ path)" "subseq p es" "p \<noteq> []" "last p = e" "linked None p"
      by auto
    then have "subseq p (es @ [x])" by (meson subseq_order.trans prefix_imp_subseq prefixI)
    with p show ?thesis by blast
  next
    case False
    with snoc.prems have e: "e = x" by simp
    show ?thesis
    proof (cases "se_parentId x")
      case None
      then show ?thesis using e by (intro exI [of _ "[x]"]) (simp add: walk_Some truthy_id subseq_singleton_left)
    next
      case (Some i)
      with snoc.hyps(4) obtain f where f: "f \<in> set es" "i = se_id f" by (auto simp: entry_ids_def)
      with snoc.IH [of f] snoc.prems(1) obtain p where
        p: "\<forall>path. walk (tree_index full) (Some f) path = Some (p @ path)" "subseq p es" "p \<noteq> []" "last p = f" "linked None p" by auto
      have "walk (tree_index full) (Some x) path = Some ((p @ [x]) @ path)" for path
        using walk_parent [OF assms(2), of f x path] f Some snoc.prems(1) p(1) by auto
      moreover have "subseq (p @ [x]) (es @ [x])" using p(2) by simp
      ultimately show ?thesis using e p Some f(2) by (intro exI [of _ "p @ [x]"]) (simp add: linked_append)
    qed
  qed
qed simp

text \<open>The branch of an entry: from a root down to the entry, each the parent of the next.\<close>

lemma getBranch_path:
  assumes "manager_ok m" and "i \<in> entry_ids (getEntries m)"
  shows "\<exists>p e. getBranch (Some i) m = Some p \<and> e \<in> set (getEntries m) \<and> se_id e = i \<and> subseq p (getEntries m) \<and> p \<noteq> [] \<and>
    last p = e \<and> linked None p"
proof -
  note m = manager_okD [OF assms(1)]
  from assms(2) obtain e where e: "e \<in> set (getEntries m)" "se_id e = i" by (auto simp: entry_ids_def)
  with walk_to_root [OF m(1) m(1) subset_refl] obtain p where
    p: "walk (tree_index (getEntries m)) (Some e) [] = Some p" "subseq p (getEntries m)" "p \<noteq> []" "last p = e" "linked None p"
    by (metis append_Nil2)
  have "map_get (sm_byId m) i = Some e" "i \<noteq> []" using e m(1,2) get_member grown_nonempty by auto
  then have "getBranch (Some i) m = Some p" using p(1) m(2) by (simp add: getBranch_def truthy_id)
  with p e show ?thesis by blast
qed

lemma walk_linked:
  assumes "grown_tree full" and "set xs \<subseteq> set full" and "linked None xs" and "xs \<noteq> []"
  shows "walk (tree_index full) (Some (last xs)) path = Some (xs @ path)"
  using assms(2,3,4)
proof (induction xs arbitrary: path rule: rev_induct)
  case (snoc x xs)
  show ?case
  proof (cases "xs = []")
    case True
    with snoc.prems show ?thesis by (simp add: walk_Some truthy_id)
  next
    case False
    with snoc.prems have "se_parentId x = Some (se_id (last xs))" "last xs \<in> set full" by (auto simp: linked_append)
    with walk_parent [OF assms(1)] snoc.IH [of "x # path"] snoc.prems False show ?thesis by (simp add: linked_append)
  qed
qed simp

lemma linked_grown:
  assumes "linked None es" and "distinct (map se_id es)" and "\<And>e. e \<in> set es \<Longrightarrow> se_id e \<noteq> []"
  shows "grown_tree es"
  using assms
proof (induction es rule: rev_induct)
  case (snoc x xs)
  then have "grown_tree xs" by (simp add: linked_append)
  moreover have "p \<in> entry_ids xs" if "se_parentId x = Some p" for p
    using snoc.prems(1) that by (auto simp: linked_append entry_ids_def split: if_splits)
  ultimately show ?case using snoc.prems by (intro grown_tree.snoc) (auto simp: entry_ids_def)
qed (rule grown_tree.empty)

section \<open>One branch as a session of its own\<close>

lemma rechain_linked: "linked parent (rechain parent es)"
  by (induction es arbitrary: parent) auto

definition erase :: "session_entry \<Rightarrow> session_entry" where
  "erase e = e\<lparr> se_parentId := None \<rparr>"

lemma erase_simps [simp]: "se_timestamp (erase e) = se_timestamp e" "se_id (erase e) = se_id e" "se_body (erase e) = se_body e" "is_label (erase e) = is_label e"
  by (simp_all add: erase_def is_label_def)

lemma rechain_erase: "map erase (rechain parent es) = map erase (filter (\<lambda>e. \<not> is_label e) es)"
  by (induction es arbitrary: parent) (auto simp: erase_def)

lemma rechain_ids: "map se_id (rechain parent es) = map se_id (filter (\<lambda>e. \<not> is_label e) es)"
  by (induction es arbitrary: parent) auto

lemma rechain_no_label: "e \<in> set (rechain parent es) \<Longrightarrow> \<not> is_label e"
  by (induction es arbitrary: parent) (auto simp: is_label_def split: if_splits)

definition fresh_draws :: "string set \<Rightarrow> nat \<Rightarrow> (nat \<Rightarrow> draw) \<Rightarrow> bool" where
  "fresh_draws taken n ds \<longleftrightarrow> (\<forall>k \<ge> n. dr_full (ds k) \<notin> taken \<and> dr_full (ds k) \<noteq> [] \<and> (\<forall>i \<in> set (dr_short (ds k)). i \<noteq> [])) \<and>
     (\<forall>j \<ge> n. \<forall>k \<ge> n. dr_full (ds k) \<notin> set (dr_short (ds j)) \<and> (j \<noteq> k \<longrightarrow> dr_full (ds k) \<noteq> dr_full (ds j)))"

lemma generateId_source: "generateId taken d = dr_full d \<or> generateId taken d \<in> set (dr_short d)"
  by (auto simp: generateId_def find_Some_iff split: option.splits dest: in_set_takeD)

lemma label_entries_ok:
  assumes "fresh_draws taken n ds"
  shows "linked parent (label_entries ds n taken parent ls) \<and> distinct (map se_id (label_entries ds n taken parent ls)) \<and>
    (\<forall>e \<in> set (label_entries ds n taken parent ls). se_id e \<notin> taken \<and> se_id e \<noteq> [] \<and> is_label e)"
  using assms
proof (induction ls arbitrary: n taken parent)
  case (Cons l ls)
  obtain target label time where l: "l = (target, label, time)" by (cases l)
  let ?i = "generateId taken (ds n)"
  have "good_draw taken (ds n)" using Cons.prems unfolding fresh_draws_def good_draw_def by blast
  then have i: "?i \<notin> taken" "?i \<noteq> []" using generateId_fresh by auto
  have other: "dr_full (ds k) \<noteq> ?i" if "k \<ge> Suc n" for k
    using generateId_source [of taken "ds n"] Cons.prems that unfolding fresh_draws_def
    by (metis Suc_leD Suc_n_not_le_n le_refl)
  then have "fresh_draws (insert ?i taken) (Suc n) ds"
    using Cons.prems unfolding fresh_draws_def by (metis Suc_leD insertE)
  from Cons.IH [OF this, of "Some ?i"] i show ?case
    by (auto simp: l Let_def is_label_def)
qed simp

lemma subseq_set: "subseq xs ys \<Longrightarrow> set xs \<subseteq> set ys"
  by (induction rule: list_emb.induct) auto

lemma distinct_subseq: "subseq xs ys \<Longrightarrow> distinct ys \<Longrightarrow> distinct xs"
  by (induction rule: list_emb.induct) (auto dest: subseq_set)

lemma branch_entries_ok:
  assumes "grown_tree es" and "subseq p es" and "fresh_draws (se_id ` set kept) 0 ds" and kept_def: "kept = rechain None p"
    and labels_def: "labels = label_entries ds 0 (se_id ` set kept) (truthy (if kept = [] then None else Some (se_id (last kept)))) ls"
  shows "grown_tree (kept @ labels)" "linked None (kept @ labels)" "\<forall>e \<in> set labels. is_label e"
proof -
  have sub: "set p \<subseteq> set es" using assms(2) by (rule subseq_set)
  have ids: "map se_id kept = map se_id (filter (\<lambda>e. \<not> is_label e) p)" by (simp add: kept_def rechain_ids)
  have nonempty: "se_id e \<noteq> []" if "e \<in> set kept" for e
  proof -
    from that have "se_id e \<in> set (map se_id kept)" by simp
    then have "se_id e \<in> se_id ` set p" unfolding ids by auto
    then show ?thesis using grown_nonempty [OF assms(1)] sub by (metis imageE subsetD)
  qed
  have "distinct (map se_id p)" using grown_distinct [OF assms(1)] assms(2) by (meson subseq_map distinct_subseq)
  then have distinct: "distinct (map se_id kept)" unfolding ids by (simp add: distinct_map_filter)
  let ?parent = "if kept = [] then None else Some (se_id (last kept))"
  have truthy: "truthy ?parent = ?parent" using nonempty by (simp add: truthy_id)
  note lo = label_entries_ok [OF assms(3), of "truthy ?parent" ls, folded labels_def, unfolded truthy]
  have labels: "linked ?parent labels" "distinct (map se_id labels)"
    "\<forall>e \<in> set labels. se_id e \<notin> se_id ` set kept \<and> se_id e \<noteq> [] \<and> is_label e"
    using lo by blast+
  show linked: "linked None (kept @ labels)" 
    using labels(1) rechain_linked [of None p, folded kept_def] unfolding linked_append by blast
  have "i \<notin> se_id ` set kept" if "i \<in> se_id ` set labels" for i
    using that labels(3) by (elim imageE) simp
  then have "se_id ` set kept \<inter> se_id ` set labels = {}" by blast
  then have "distinct (map se_id (kept @ labels))" using distinct labels(2) by simp
  then show "grown_tree (kept @ labels)"
    by (rule linked_grown [OF linked]) (use labels(3) nonempty in auto)
  show "\<forall>e \<in> set labels. is_label e" using labels(3) by blast
qed
section \<open>The context of a branch\<close>

lemma label_no_messages: "is_label e \<Longrightarrow> sessionEntryToContextMessages date e = []"
  by (simp add: is_label_def sessionEntryToContextMessages_def split: session_body.splits)

lemma label_no_setting: "is_label e \<Longrightarrow> setting_step st e = st"
  by (simp add: is_label_def setting_step_def split: session_body.splits)

lemma label_no_compaction: "is_label e \<Longrightarrow> compaction_first_kept e = None"
  by (simp add: is_label_def compaction_first_kept_def split: session_body.splits)

lemma messages_filter: "concat (map (sessionEntryToContextMessages date) (filter (\<lambda>e. \<not> is_label e) es)) =
    concat (map (sessionEntryToContextMessages date) es)"
  by (induction es) (simp_all add: label_no_messages)

lemma settings_filter: "foldl setting_step st (filter (\<lambda>e. \<not> is_label e) es) = foldl setting_step st es"
  by (induction es arbitrary: st) (simp_all add: label_no_setting)

text \<open>The last compaction of a path, with what stands before and after it.\<close>

lemma context_entries_none: "(\<And>e. e \<in> set path \<Longrightarrow> compaction_first_kept e = None) \<Longrightarrow> context_entries path = path"
proof -
  assume "\<And>e. e \<in> set path \<Longrightarrow> compaction_first_kept e = None"
  then have "List.find (\<lambda>e. compaction_first_kept e \<noteq> None) (rev path) = None" by (simp add: find_None_iff)
  then show ?thesis by (simp add: context_entries_def)
qed

lemma find_snoc_last:
  assumes "P c" and "\<And>x. x \<in> set ys \<Longrightarrow> \<not> P x"
  shows "List.find P (rev (xs @ c # ys)) = Some c"
proof -
  have "List.find P (zs @ ws) = List.find P ws" if "\<And>x. x \<in> set zs \<Longrightarrow> \<not> P x" for zs ws
    using that by (induction zs) auto
  from this [of "rev ys" "c # rev xs"] assms show ?thesis by simp
qed

lemma context_entries_split:
  assumes "compaction_first_kept c \<noteq> None" and "\<And>y. y \<in> set ys \<Longrightarrow> compaction_first_kept y = None" and "\<And>x. x \<in> set xs \<Longrightarrow> se_id x \<noteq> se_id c"
  shows "context_entries (xs @ c # ys) = c # dropWhile (\<lambda>e. Some (se_id e) \<noteq> compaction_first_kept c) xs @ ys"
proof -
  have "List.find (\<lambda>e. compaction_first_kept e \<noteq> None) (rev (xs @ c # ys)) = Some c"
    by (rule find_snoc_last) (use assms in auto)
  moreover have "takeWhile (\<lambda>e. se_id e \<noteq> se_id c) (xs @ c # ys) = xs" using assms(3) by (simp add: takeWhile_append)
  ultimately show ?thesis by (simp add: context_entries_def Let_def)
qed

lemma last_compaction_split:
  assumes "distinct (map se_id path)" and "\<not> (\<forall>e \<in> set path. compaction_first_kept e = None)"
  obtains xs c ys where "path = xs @ c # ys" "compaction_first_kept c \<noteq> None" "\<And>y. y \<in> set ys \<Longrightarrow> compaction_first_kept y = None"
    "\<And>x. x \<in> set xs \<Longrightarrow> se_id x \<noteq> se_id c"
proof -
  from assms(2) obtain xs c ys where p: "path = xs @ c # ys" "compaction_first_kept c \<noteq> None" "\<forall>y \<in> set ys. \<not> compaction_first_kept y \<noteq> None"
    using split_list_last_prop [of path "\<lambda>e. compaction_first_kept e \<noteq> None"] by blast
  with assms(1) show thesis by (intro that [of xs c ys]) (auto simp: image_iff)
qed

text \<open>The first entry that the last compaction of the path keeps is not a label.\<close>

definition keeps_no_label :: "session_entry list \<Rightarrow> bool" where
  "keeps_no_label path \<longleftrightarrow> (\<forall>c \<in> set path. \<forall>e \<in> set path. compaction_first_kept c = Some (se_id e) \<longrightarrow> \<not> is_label e)"

lemma filter_dropWhile:
  assumes "\<And>x. x \<in> set xs \<Longrightarrow> \<not> P x \<Longrightarrow> Q x"
  shows "filter Q (dropWhile P xs) = dropWhile P (filter Q xs)"
  using assms by (induction xs) auto

lemma context_filter:
  assumes "distinct (map se_id path)" and "keeps_no_label path"
  shows "context_entries (filter (\<lambda>e. \<not> is_label e) path) = filter (\<lambda>e. \<not> is_label e) (context_entries path)"
proof (cases "\<forall>e \<in> set path. compaction_first_kept e = None")
  case True
  then have "context_entries path = path" "context_entries (filter (\<lambda>e. \<not> is_label e) path) = filter (\<lambda>e. \<not> is_label e) path"
    by (auto intro!: context_entries_none)
  then show ?thesis by simp
next
  case False
  from last_compaction_split [OF assms(1) this] obtain xs c ys where p: "path = xs @ c # ys" "compaction_first_kept c \<noteq> None"
    "\<And>y. y \<in> set ys \<Longrightarrow> compaction_first_kept y = None" "\<And>x. x \<in> set xs \<Longrightarrow> se_id x \<noteq> se_id c" by blast
  have c: "\<not> is_label c" using p(2) label_no_compaction [of c] by auto
  have "filter (\<lambda>e. \<not> is_label e) (dropWhile (\<lambda>e. Some (se_id e) \<noteq> compaction_first_kept c) xs) =
      dropWhile (\<lambda>e. Some (se_id e) \<noteq> compaction_first_kept c) (filter (\<lambda>e. \<not> is_label e) xs)"
    by (rule filter_dropWhile) (use assms(2) p(1) in \<open>auto simp: keeps_no_label_def\<close>)
  moreover have "context_entries path = c # dropWhile (\<lambda>e. Some (se_id e) \<noteq> compaction_first_kept c) xs @ ys"
    unfolding p(1) by (rule context_entries_split [OF p(2,3,4)])
  moreover have "context_entries (filter (\<lambda>e. \<not> is_label e) xs @ c # filter (\<lambda>e. \<not> is_label e) ys) =
      c # dropWhile (\<lambda>e. Some (se_id e) \<noteq> compaction_first_kept c) (filter (\<lambda>e. \<not> is_label e) xs) @ filter (\<lambda>e. \<not> is_label e) ys"
    by (rule context_entries_split) (use p(2,3,4) in auto)
  ultimately show ?thesis using c p(1) by simp
qed

lemma path_context_filter:
  assumes "distinct (map se_id path)" and "keeps_no_label path"
  shows "path_context date (filter (\<lambda>e. \<not> is_label e) path) = path_context date path"
  using context_filter [OF assms] by (simp add: path_context_def messages_filter getSessionContextSettings_def settings_filter)

text \<open>The context does not depend on the parents.\<close>

lemma messages_erase [simp]: "sessionEntryToContextMessages date (erase e) = sessionEntryToContextMessages date e"
  unfolding sessionEntryToContextMessages_def erase_simps by (rule refl)

lemma setting_erase [simp]: "setting_step st (erase e) = setting_step st e"
  by (simp add: setting_step_def)

lemma first_kept_erase [simp]: "compaction_first_kept (erase e) = compaction_first_kept e"
  by (simp add: compaction_first_kept_def)

lemma settings_erase: "foldl setting_step st (map erase es) = foldl setting_step st es"
  by (induction es arbitrary: st) simp_all

lemma find_erase: "List.find (\<lambda>e. compaction_first_kept e \<noteq> None) (map erase es) =
    map_option erase (List.find (\<lambda>e. compaction_first_kept e \<noteq> None) es)"
  by (induction es) (simp_all del: not_None_eq)

lemma context_erase: "context_entries (map erase path) = map erase (context_entries path)"
  by (simp add: context_entries_def rev_map find_erase Let_def takeWhile_map dropWhile_map drop_map comp_def del: not_None_eq split: option.split)

lemma path_context_erase: "map erase path = map erase path' \<Longrightarrow> path_context date path = path_context date path'"
proof -
  have "path_context date p = path_context date (map erase p)" for p
    by (simp add: path_context_def context_erase getSessionContextSettings_def settings_erase comp_def)
  then show "map erase path = map erase path' \<Longrightarrow> path_context date path = path_context date path'" by metis
qed

section \<open>The new session has the context of the branch\<close>

text \<open>Every compaction of the path keeps an entry of the path, and that entry is not a label.\<close>

definition keeps_entry :: "session_entry list \<Rightarrow> bool" where
  "keeps_entry path \<longleftrightarrow> (\<forall>c \<in> set path. case compaction_first_kept c of None \<Rightarrow> True
     | Some i \<Rightarrow> (\<exists>e \<in> set path. se_id e = i \<and> \<not> is_label e))"

lemma keeps_entryD: "keeps_entry path \<Longrightarrow> c \<in> set path \<Longrightarrow> compaction_first_kept c = Some i \<Longrightarrow> i \<in> se_id ` set (filter (\<lambda>e. \<not> is_label e) path)"
  unfolding keeps_entry_def by (drule bspec, assumption) auto

lemma same_id: "distinct (map se_id es) \<Longrightarrow> e \<in> set es \<Longrightarrow> f \<in> set es \<Longrightarrow> se_id e = se_id f \<Longrightarrow> e = f"
  by (simp add: distinct_map inj_on_def)

lemma keeps_no_labelI:
  assumes "distinct (map se_id path)" and "keeps_entry path"
  shows "keeps_no_label path"
  unfolding keeps_no_label_def
proof (intro ballI impI)
  fix c e
  assume c: "c \<in> set path" and e: "e \<in> set path" and kept: "compaction_first_kept c = Some (se_id e)"
  from keeps_entryD [OF assms(2) c kept] obtain f where f: "f \<in> set path" "\<not> is_label f" "se_id f = se_id e" by auto
  with same_id [OF assms(1) f(1) e] show "\<not> is_label e" by simp
qed

lemma rechain_first_kept: "c \<in> set (rechain parent path) \<Longrightarrow> \<exists>c' \<in> set path. compaction_first_kept c = compaction_first_kept c'"
  by (induction path arbitrary: parent) (auto simp: compaction_first_kept_def split: if_splits)

lemma branch_path_context:
  assumes "distinct (map se_id path)" and "keeps_entry path" and kept_def: "kept = rechain None path"
    and new: "distinct (map se_id (kept @ labels))" and labels: "\<forall>e \<in> set labels. is_label e"
  shows "path_context date (kept @ labels) = path_context date path"
proof -
  have kept: "filter (\<lambda>e. \<not> is_label e) (kept @ labels) = kept"
    using labels rechain_no_label [of _ None path] by (simp add: kept_def filter_empty_conv)
  have "keeps_no_label (kept @ labels)"
    unfolding keeps_no_label_def
  proof (intro ballI impI)
    fix c e
    assume c: "c \<in> set (kept @ labels)" and e: "e \<in> set (kept @ labels)" and first: "compaction_first_kept c = Some (se_id e)"
    have "c \<in> set kept" using c labels first label_no_compaction [of c] by auto
    then obtain c' where "c' \<in> set path" "compaction_first_kept c' = Some (se_id e)"
      using rechain_first_kept [of c None path] first kept_def by auto
    then have "se_id e \<in> set (map se_id kept)" using keeps_entryD [OF assms(2)] by (simp add: kept_def rechain_ids)
    then obtain f where f: "f \<in> set kept" "se_id f = se_id e" by auto
    then have "f = e" using same_id [OF new, of f e] e by simp
    then show "\<not> is_label e" using f rechain_no_label [of f None path] kept_def by simp
  qed
  from path_context_filter [OF new this, of date] have "path_context date (kept @ labels) = path_context date kept" by (simp only: kept)
  also have "\<dots> = path_context date (filter (\<lambda>e. \<not> is_label e) path)"
    by (rule path_context_erase) (simp add: kept_def rechain_erase)
  also have "\<dots> = path_context date path" by (rule path_context_filter [OF assms(1) keeps_no_labelI [OF assms(1,2)]])
  finally show ?thesis .
qed

lemma fresh_draws_mono: "fresh_draws taken n ds \<Longrightarrow> taken' \<subseteq> taken \<Longrightarrow> fresh_draws taken' n ds"
  unfolding fresh_draws_def by (meson subsetD)

lemma branch_distinct_ids: "grown_tree es \<Longrightarrow> subseq p es \<Longrightarrow> distinct (map se_id p)"
  by (meson grown_distinct subseq_map distinct_subseq)

lemma context_at:
  assumes "manager_ok m" and "getBranch (Some leaf) m = Some p" and "p \<noteq> []" and "leaf \<noteq> []" 
  shows "manager_context date (m\<lparr> sm_leafId := Some leaf \<rparr>) = Some (path_context date p)"
proof -
  have "map_get (sm_byId m) leaf \<noteq> None"
    using assms(2,3,4) by (cases "map_get (sm_byId m) leaf") (auto simp: getBranch_def truthy_id)
  then show ?thesis using assms(2,4)
    by (auto simp: manager_context_def buildSessionContext_def buildSessionPath_def getBranch_def truthy_id Let_def)
qed

lemma context_linked:
  assumes "sm_fileEntries m = FileHeader h # map FileEntry es" and "grown_tree es" and "linked None es"
  shows "manager_context date (buildIndex m) = Some (path_context date es)"
proof (cases "es = []")
  case True
  then show ?thesis using buildIndex_ok [OF assms(1,2)]
    by (simp add: manager_context_def buildSessionContext_def buildSessionPath_def)
next
  case False
  then have "last es \<in> set es" by simp
  then have "map_get (tree_index es) (se_id (last es)) = Some (last es)" "se_id (last es) \<noteq> []"
    using assms(2) get_member grown_nonempty by blast+
  then show ?thesis using buildIndex_ok [OF assms(1,2)] False walk_linked [OF assms(2) subset_refl assms(3) False, of "[]"]
    by (simp add: manager_context_def buildSessionContext_def buildSessionPath_def truthy_id Let_def)
qed

definition branch_file :: "draw \<Rightarrow> session_manager \<Rightarrow> string" where
  "branch_file d m = session_file_name (sm_sessionDir m) (dr_time d) (dr_full d)"

lemma createBranchedSession_result:
  assumes m: "manager_ok m" and leaf: "leaf \<in> entry_ids (getEntries m)" and nofile: "disk (branch_file d m) = None"
    and ds: "fresh_draws (entry_ids (getEntries m)) 0 ds"
  obtains m' disk' p where "createBranchedSession leaf d ds m disk = Some (Inr (m', disk'))" "manager_ok m'" "disk_ok m' disk'"
    "getBranch (Some leaf) m = Some p" "p \<noteq> []" "subseq p (getEntries m)" "linked None p"
    "keeps_entry p \<Longrightarrow> manager_context date m' = Some (path_context date p)"
proof -
  note ok = manager_okD [OF m]
  from getBranch_path [OF m leaf] obtain p where p: "getBranch (Some leaf) m = Some p" "subseq p (getEntries m)" "p \<noteq> []" "linked None p"
    by blast
  define kept where "kept = rechain None p"
  define labels where "labels = label_entries ds 0 (se_id ` set kept) (truthy (if kept = [] then None else Some (se_id (last kept)))) (labelsToWrite (se_id ` set kept) m)"
  have "set (map se_id kept) \<subseteq> se_id ` set p" unfolding kept_def rechain_ids by auto
  then have "se_id ` set kept \<subseteq> entry_ids (getEntries m)"
    using subseq_set [OF p(2)] by (auto simp: entry_ids_def)
  then have "fresh_draws (se_id ` set kept) 0 ds" by (rule fresh_draws_mono [OF ds])
  note new = branch_entries_ok [OF ok(1) p(2) this kept_def labels_def]
  let ?h = "\<lparr> sh_version = Some CURRENT_SESSION_VERSION, sh_id = dr_full d, sh_timestamp = dr_time d, sh_cwd = sm_cwd m,
      sh_parentSession = (if sm_persist m then sm_sessionFile m else None) \<rparr>"
  let ?m = "m\<lparr> sm_fileEntries := FileHeader ?h # map FileEntry (kept @ labels), sm_sessionId := dr_full d \<rparr>"
  let ?p = "?m\<lparr> sm_sessionFile := Some (branch_file d m) \<rparr>"
  let ?n = "if sm_persist m then ?p else ?m"
  define m' where "m' = (if sm_persist m then (buildIndex ?p)\<lparr> sm_flushed := \<exists>e \<in> set (sm_fileEntries ?p). is_assistant_entry e \<rparr> else buildIndex ?m)"
  define disk' where "disk' = (if sm_persist m \<and> (\<exists>e \<in> set (sm_fileEntries ?p). is_assistant_entry e) then rewriteFile (buildIndex ?p) disk else disk)"
  have result: "createBranchedSession leaf d ds m disk = Some (Inr (m', disk'))"
    using p by (simp add: createBranchedSession_def Let_def m'_def disk'_def kept_def [symmetric] labels_def [symmetric] branch_file_def)
  have n: "sm_fileEntries ?n = FileHeader ?h # map FileEntry (kept @ labels)" by simp
  have "manager_ok (buildIndex ?n)" by (rule buildIndex_manager_ok [OF n new(1)])
  then have "manager_ok m'" by (cases "sm_persist m") (simp_all add: m'_def manager_ok_def)
  moreover have "disk_ok m' disk'"
    using nofile by (simp add: m'_def disk'_def disk_ok_def rewriteFile_def)
  moreover have "manager_context date m' = Some (path_context date p)" if "keeps_entry p"
  proof -
    have "manager_context date m' = manager_context date (buildIndex ?n)"
      by (cases "sm_persist m") (simp_all add: m'_def manager_context_def getEntries_def)
    also have "\<dots> = Some (path_context date (kept @ labels))" by (rule context_linked [OF n new(1,2)])
    also have "\<dots> = Some (path_context date p)"
      using branch_path_context [OF branch_distinct_ids [OF ok(1) p(2)] that kept_def grown_distinct [OF new(1)] new(3)] by simp
    finally show ?thesis .
  qed
  ultimately show thesis by (rule that [OF result _ _ p(1,3,2,4)])
qed

section \<open>Sessions on disk\<close>

definition header_ok :: "session_manager \<Rightarrow> bool" where
  "header_ok m \<longleftrightarrow> (\<exists>h es. sm_fileEntries m = FileHeader h # es \<and> sh_version h = Some CURRENT_SESSION_VERSION \<and> sh_id h = sm_sessionId m)"

text \<open>
  A file in order: its lines that can be read are a header of the current version and a tree of entries. A run starts on any
  files, whatever is in them; what it leaves of them is as it was or in order, and nothing is deleted.
\<close>

definition in_order :: "file_entry option list \<Rightarrow> bool" where
  "in_order ls \<longleftrightarrow> (\<exists>h es. readable ls = FileHeader h # map FileEntry es \<and> sh_version h = Some CURRENT_SESSION_VERSION \<and> grown_tree es)"

definition files_kept :: "session_disk \<Rightarrow> session_disk \<Rightarrow> bool" where
  "files_kept disk0 disk \<longleftrightarrow> (\<forall>f. disk f = disk0 f \<or> (\<exists>ls. disk f = Some ls \<and> in_order ls))"

definition manager_inv :: "session_disk \<Rightarrow> session_manager \<Rightarrow> session_disk \<Rightarrow> bool" where
  "manager_inv disk0 m disk \<longleftrightarrow> manager_ok m \<and> header_ok m \<and> disk_ok m disk \<and> files_kept disk0 disk"

text \<open>
  An operation writes the file of the session it leaves and no other, and none at all for a session in memory. It deletes none.
\<close>

definition writes_own :: "session_manager \<Rightarrow> session_disk \<Rightarrow> session_disk \<Rightarrow> bool" where
  "writes_own m disk disk' \<longleftrightarrow> (\<forall>g. (\<not> (sm_persist m \<and> sm_sessionFile m = Some g) \<longrightarrow> disk' g = disk g) \<and> (disk' g = None \<longrightarrow> disk g = None))"

lemma own_file_in_order:
  assumes "manager_ok m" and "header_ok m" and "readable ls = sm_fileEntries m"
  shows "in_order ls"
proof -
  from assms(1) obtain h es where "sm_fileEntries m = FileHeader h # map FileEntry es" "grown_tree es" unfolding manager_ok_def by blast
  then show ?thesis using assms(2,3) unfolding in_order_def by (intro exI [of _ h] exI [of _ es]) (auto simp: header_ok_def)
qed

lemma manager_invI:
  assumes "manager_ok m" and "header_ok m" and "disk_ok m disk'" and "writes_own m disk disk'" and "files_kept disk0 disk"
  shows "manager_inv disk0 m disk'"
proof -
  have "disk' f = disk0 f \<or> (\<exists>ls. disk' f = Some ls \<and> in_order ls)" for f
  proof (cases "sm_persist m \<and> sm_sessionFile m = Some f \<and> disk' f \<noteq> None")
    case True
    with assms(3) obtain ls where "disk' f = Some ls" "readable ls = sm_fileEntries m" by (auto simp: disk_ok_def split: if_splits)
    with own_file_in_order [OF assms(1,2)] show ?thesis by blast
  next
    case False
    with assms(4) have "disk' f = disk f" by (auto simp: writes_own_def)
    with assms(5) show ?thesis by (simp add: files_kept_def)
  qed
  with assms(1,2,3) show ?thesis by (simp add: manager_inv_def files_kept_def)
qed

lemma persist_frame:
  assumes "persistEntry x m disk = Inr (m', disk')"
  shows "m' = m\<lparr> sm_flushed := sm_flushed m' \<rparr>" "writes_own m disk disk'"
  using assms by (auto simp: persistEntry_def writes_own_def appendLine_def split: option.splits if_splits)

lemma append_frame:
  assumes "appendEntry x m disk = Inr (m', disk')" and "header_ok m"
  shows "header_ok m'" "writes_own m' disk disk'"
proof -
  note frame = persist_frame [OF assms(1) [unfolded appendEntry_def]]
  have "sm_fileEntries m' = sm_fileEntries m @ [FileEntry x]" "sm_sessionId m' = sm_sessionId m"
    "sm_persist m' = sm_persist m" "sm_sessionFile m' = sm_sessionFile m" by (subst frame(1), simp)+
  then show "header_ok m'" "writes_own m' disk disk'" using assms(2) frame(2) by (auto simp: header_ok_def writes_own_def)
qed

lemma manager_invD: "manager_inv disk0 m disk \<Longrightarrow> manager_ok m" "manager_inv disk0 m disk \<Longrightarrow> header_ok m" "manager_inv disk0 m disk \<Longrightarrow> disk_ok m disk"
  "manager_inv disk0 m disk \<Longrightarrow> files_kept disk0 disk"
  by (simp_all add: manager_inv_def)

lemma append_inv:
  assumes inv: "manager_inv disk0 m disk" and d: "good_draw (map_keys (sm_byId m)) d" and body: "\<nexists>t l. body = SLabel t l"
    and result: "append_body body d m disk = Inr (m', disk')"
  shows "manager_inv disk0 m' disk'"
proof -
  note m = manager_invD [OF inv]
  from append_body_ok [OF m(1,3) d body] result have "manager_ok m'" "disk_ok m' disk'" by (metis Pair_inject sum.inject(2))+
  moreover from append_frame [OF _ m(2)] result have "header_ok m'" "writes_own m' disk disk'" unfolding append_body_def by blast+
  ultimately show ?thesis using m(4) by (intro manager_invI [of m' disk' disk])
qed

lemma label_inv:
  assumes inv: "manager_inv disk0 m disk" and d: "good_draw (map_keys (sm_byId m)) d" and result: "appendLabelChange target label d m disk = Inr (m', disk')"
  shows "manager_inv disk0 m' disk'"
proof -
  note m = manager_invD [OF inv]
  have target: "target \<in> entry_ids (getEntries m)"
    using result manager_okD(2) [OF m(1)] by (simp add: appendLabelChange_def ensure_def split: if_splits)
  from appendLabelChange_ok [OF m(1,3) d target] result have ok: "manager_ok m'" "disk_ok m' disk'" by (metis Pair_inject sum.inject(2))+
  from result target manager_okD(2) [OF m(1)] obtain m1 labels stamps where
    "appendEntry (new_entry (SLabel target label) d m) m disk = Inr (m1, disk')" "m' = m1\<lparr> sm_labelsById := labels, sm_labelTimestampsById := stamps \<rparr>"
    by (auto simp: appendLabelChange_def Let_def split_beta rbind_Inr_iff)
  with append_frame [OF _ m(2)] have "header_ok m'" "writes_own m' disk disk'" by (simp_all add: header_ok_def writes_own_def)
  with ok m(4) show ?thesis by (intro manager_invI [of m' disk' disk])
qed

lemma leaf_inv: "manager_inv disk0 m disk \<Longrightarrow> (\<And>l. leaf = Some l \<Longrightarrow> l \<in> entry_ids (getEntries m)) \<Longrightarrow> manager_inv disk0 (m\<lparr> sm_leafId := leaf \<rparr>) disk"
proof -
  assume inv: "manager_inv disk0 m disk" and leaf: "\<And>l. leaf = Some l \<Longrightarrow> l \<in> entry_ids (getEntries m)"
  from manager_invD(1) [OF inv] have "manager_ok (m\<lparr> sm_leafId := leaf \<rparr>)"
  proof (rule manager_okE)
    fix h
    assume "sm_fileEntries m = FileHeader h # map FileEntry (getEntries m)" "grown_tree (getEntries m)"
      "sm_byId m = tree_index (getEntries m)" "(sm_labelsById m, sm_labelTimestampsById m) = labels_of (getEntries m)"
    then show ?thesis unfolding manager_ok_def using leaf by (intro exI [of _ h] exI [of _ "getEntries m"]) simp
  qed
  then show ?thesis using inv by (simp add: manager_inv_def header_ok_def disk_ok_def)
qed

definition unwritten :: "session_manager \<Rightarrow> session_disk \<Rightarrow> bool" where
  "unwritten m disk \<longleftrightarrow> (case sm_sessionFile m of None \<Rightarrow> True | Some f \<Rightarrow> sm_persist m \<longrightarrow> disk f = None)"

lemma fresh_inv:
  assumes "newSession ident parent d m = Inr m'" and "files_kept disk0 disk" and "m'' = m'\<lparr> sm_sessionFile := f \<rparr>" and "unwritten m'' disk"
  shows "manager_inv disk0 m'' disk"
proof -
  from assms(1) obtain h where m': "sm_fileEntries m' = FileHeader h # map FileEntry []" "sh_version h = Some CURRENT_SESSION_VERSION"
      "sh_id h = sm_sessionId m'" "sm_byId m' = tree_index []" "(sm_labelsById m', sm_labelTimestampsById m') = labels_of []"
      "sm_leafId m' = None" "\<not> sm_flushed m'"
    by (auto simp: newSession_def Let_def rbind_Inr_iff)
  then have "manager_ok m''" unfolding manager_ok_def using assms(3) grown_tree.empty by (intro exI [of _ h] exI [of _ "[]"]) simp
  with m' assms show ?thesis by (auto simp: manager_inv_def header_ok_def disk_ok_def unwritten_def)
qed

lemma load_written: "loadEntriesFromFile (map Some (FileHeader h # es)) = FileHeader h # es"
proof -
  have "List.map_filter id (map Some xs) = xs" for xs :: "file_entry list" by (induction xs) (simp_all add: map_filter_simps)
  from this [of "FileHeader h # es"] show ?thesis by (simp only: loadEntriesFromFile_def list.case file_entry.case)
qed

text \<open>A session file in order is opened as it stands: nothing is migrated and nothing is written.\<close>

lemma load_readable: "readable ls = FileHeader h # es \<Longrightarrow> loadEntriesFromFile ls = FileHeader h # es"
  by (simp add: loadEntriesFromFile_def readable_def)

lemma open_written:
  assumes "disk f = Some ls" and "readable ls = FileHeader h # map FileEntry es" and "sh_version h = Some CURRENT_SESSION_VERSION"
  shows "setSessionFile f d ds m disk = Inr ((buildIndex (m\<lparr> sm_sessionFile := Some f, sm_sessionId := sh_id h,
    sm_fileEntries := FileHeader h # map FileEntry es \<rparr>))\<lparr> sm_flushed := True \<rparr>, disk)"
proof -
  have "getHeader (FileHeader h # map FileEntry es) = Some h" by (simp add: getHeader_def)
  moreover from this have "migrateToCurrentVersion ds (FileHeader h # map FileEntry es) = (FileHeader h # map FileEntry es, False)"
    using assms(3) by (simp add: migrateToCurrentVersion_def Let_def)
  ultimately show ?thesis using assms(1) load_readable [OF assms(2)] by (simp add: setSessionFile_def Let_def)
qed

text \<open>
  A file that can be opened: it is absent, it is no session (then opening fails, or starts anew on an empty file), or its lines that can be
  read, migrated to the current version, are a header and a tree of entries. Old versions and malformed lines are allowed.
\<close>

definition openable :: "(nat \<Rightarrow> draw) \<Rightarrow> session_disk \<Rightarrow> string \<Rightarrow> bool" where
  "openable ds disk f \<longleftrightarrow> (\<forall>ls. disk f = Some ls \<longrightarrow> loadEntriesFromFile ls = [] \<or>
     (\<exists>h es. fst (migrateToCurrentVersion ds (loadEntriesFromFile ls)) = FileHeader h # map FileEntry es \<and>
        sh_version h = Some CURRENT_SESSION_VERSION \<and> grown_tree es))"

lemma migrate_v1_prefix: "\<exists>zs. migrate_v1 ds ids prev migrated es = migrated @ zs"
proof (induction es arbitrary: prev migrated)
  case (Cons e es)
  show ?case
  proof (cases e)
    case (FileHeader h)
    with Cons.IH [of prev "migrated @ [FileHeader (h\<lparr> sh_version := Some 2 \<rparr>)]"] show ?thesis by auto
  next
    case (FileEntry x)
    then obtain i y where "migrate_v1 ds ids prev migrated (e # es) = migrate_v1 ds ids (Some i) (migrated @ [FileEntry y]) es"
      by (auto simp: Let_def)
    with Cons.IH [of "Some i" "migrated @ [FileEntry y]"] show ?thesis by auto
  qed
qed simp

lemma migrated_header_id:
  assumes "fst (migrateToCurrentVersion ds (FileHeader h0 # rest)) = FileHeader h # es"
  shows "sh_id h = sh_id h0"
proof -
  obtain zs where "migrateV1ToV2 ds (FileHeader h0 # rest) = FileHeader (h0\<lparr> sh_version := Some 2 \<rparr>) # zs"
    using migrate_v1_prefix [of ds "{}" None "[FileHeader (h0\<lparr> sh_version := Some 2 \<rparr>)]" rest] by (auto simp: migrateV1ToV2_def)
  with assms show ?thesis
    by (auto simp: migrateToCurrentVersion_def migrateV2ToV3_def Let_def split: if_splits)
qed

lemma opened_session:
  assumes "disk f = Some ls" and "loadEntriesFromFile ls \<noteq> []" and "setSessionFile f d ds m disk = Inr (m', disk')"
    and "fst (migrateToCurrentVersion ds (loadEntriesFromFile ls)) = FileHeader h # map FileEntry es"
  obtains m1 where "m' = (buildIndex m1)\<lparr> sm_flushed := True \<rparr>" "sm_fileEntries m1 = FileHeader h # map FileEntry es"
    "sm_sessionFile m1 = Some f" "sm_sessionId m1 = sh_id h"
    "disk' = (if snd (migrateToCurrentVersion ds (loadEntriesFromFile ls)) then rewriteFile m1 disk else disk)"
proof -
  obtain h0 rest where es: "loadEntriesFromFile ls = FileHeader h0 # rest"
    using assms(2) by (auto simp: loadEntriesFromFile_def split: list.splits file_entry.splits)
  let ?m = "m\<lparr> sm_sessionFile := Some f, sm_sessionId := sh_id h0, sm_fileEntries := FileHeader h # map FileEntry es \<rparr>"
  have "getHeader (FileHeader h0 # rest) = Some h0" by (simp add: getHeader_def)
  moreover obtain migrated where "migrateToCurrentVersion ds (FileHeader h0 # rest) = (FileHeader h # map FileEntry es, migrated)"
    using assms(4) es by (metis prod.collapse)
  ultimately show thesis
    using assms(1,3) es migrated_header_id [of ds h0 rest h] by (intro that [of ?m]) (auto simp: setSessionFile_def Let_def)
qed

lemma unmigrated: "\<not> snd (migrateToCurrentVersion ds es) \<Longrightarrow> fst (migrateToCurrentVersion ds es) = es"
  by (simp add: migrateToCurrentVersion_def Let_def split: if_splits)

lemma loaded_readable: "loadEntriesFromFile ls \<noteq> [] \<Longrightarrow> loadEntriesFromFile ls = readable ls"
  by (auto simp: loadEntriesFromFile_def readable_def split: list.splits file_entry.splits)

lemma opened_inv:
  assumes disk: "files_kept disk0 disk" and f: "disk f = Some ls" and es: "loadEntriesFromFile ls \<noteq> []"
    and result: "setSessionFile f d ds m disk = Inr (m', disk')" and ok: "openable ds disk f"
  shows "manager_inv disk0 m' disk'"
proof -
  from ok f es obtain h es where h: "fst (migrateToCurrentVersion ds (loadEntriesFromFile ls)) = FileHeader h # map FileEntry es"
    "sh_version h = Some CURRENT_SESSION_VERSION" "grown_tree es" by (auto simp: openable_def)
  obtain m1 where m1: "m' = (buildIndex m1)\<lparr> sm_flushed := True \<rparr>" "sm_fileEntries m1 = FileHeader h # map FileEntry es"
    "sm_sessionFile m1 = Some f" "sm_sessionId m1 = sh_id h"
    "disk' = (if snd (migrateToCurrentVersion ds (loadEntriesFromFile ls)) then rewriteFile m1 disk else disk)"
    by (rule opened_session [OF f assms(3) result h(1)])
  have "manager_ok (buildIndex m1)" by (rule buildIndex_manager_ok [OF m1(2) h(3)])
  then have "manager_ok m'" by (simp add: m1(1) manager_ok_def)
  moreover have "header_ok m'" using m1 h(2) by (simp add: header_ok_def)
  moreover have "disk_ok m' disk'"
    using m1 f unmigrated [of ds "loadEntriesFromFile ls"] loaded_readable [OF assms(3)] h(1)
    by (auto simp: disk_ok_def rewriteFile_def)
  moreover have "writes_own m' disk disk'" using m1 by (auto simp: writes_own_def rewriteFile_def)
  ultimately show ?thesis using disk by (intro manager_invI [of m' disk' disk])
qed

lemma switch_inv:
  assumes "files_kept disk0 disk" and "setSessionFile f d ds m disk = Inr (m', disk')" and "openable ds disk f"
  shows "manager_inv disk0 m' disk'"
proof (cases "disk f")
  case None
  with assms(2) obtain m1 where m1: "newSession None None d m = Inr m1" "m' = m1\<lparr> sm_sessionFile := Some f \<rparr>" "disk' = disk"
    by (auto simp: setSessionFile_def rbind_Inr_iff)
  then have "unwritten m' disk" using None by (simp add: unwritten_def)
  then show ?thesis using fresh_inv [OF m1(1) assms(1) m1(2)] m1(3) by simp
next
  case (Some ls)
  show ?thesis
  proof (cases "loadEntriesFromFile ls = []")
    case True
    with Some assms(2) obtain m1 where m1: "newSession None None d m = Inr m1"
      "m' = m1\<lparr> sm_sessionFile := Some f, sm_flushed := True \<rparr>" "disk' = rewriteFile (m1\<lparr> sm_sessionFile := Some f \<rparr>) disk"
      by (auto simp: setSessionFile_def rbind_Inr_iff Let_def split: if_splits)
    from fresh_inv [OF m1(1), of "\<lambda>_. None" "\<lambda>_. None" "m1\<lparr> sm_sessionFile := Some f \<rparr>" "Some f"]
    have "manager_ok (m1\<lparr> sm_sessionFile := Some f \<rparr>)" "header_ok (m1\<lparr> sm_sessionFile := Some f \<rparr>)"
      by (simp_all add: manager_inv_def files_kept_def unwritten_def)
    then have "manager_ok m'" "header_ok m'" by (simp_all add: m1(2) manager_ok_def header_ok_def)
    moreover have "disk_ok m' disk'" "writes_own m' disk disk'"
      using m1 by (auto simp: disk_ok_def writes_own_def rewriteFile_def)
    ultimately show ?thesis using assms(1) by (intro manager_invI [of m' disk' disk])
  qed (use opened_inv [OF assms(1) Some _ assms(2,3)] in blast)
qed

lemma branched_inv:
  assumes inv: "manager_inv disk0 m disk" and ds: "fresh_draws (entry_ids (getEntries m)) 0 ds" and free: "disk (branch_file d m) = None"
    and result: "createBranchedSession leaf d ds m disk = Some (Inr (m', disk'))"
  shows "manager_inv disk0 m' disk'"
proof -
  note m = manager_invD [OF inv]
  have leaf: "leaf \<in> entry_ids (getEntries m)"
    using result manager_okD(2) [OF m(1)] map_get_index [of "getEntries m" leaf]
    by (cases "leaf = []"; cases "map_get (tree_index (getEntries m)) leaf")
      (auto simp: createBranchedSession_def getBranch_def truthy_def Let_def split: if_splits)
  obtain m1 disk1 where "createBranchedSession leaf d ds m disk = Some (Inr (m1, disk1))" "manager_ok m1" "disk_ok m1 disk1"
    by (rule createBranchedSession_result [of m leaf disk d ds, OF m(1) leaf free ds]) (rule that)
  with result have "manager_ok m'" "disk_ok m' disk'" by simp_all
  moreover have "header_ok m'" "writes_own m' disk disk'"
    using result by (auto simp: createBranchedSession_def Let_def header_ok_def writes_own_def rewriteFile_def split: option.splits if_splits)
  ultimately show ?thesis using m(4) by (intro manager_invI [of m' disk' disk])
qed


end
