(* ===== verification/Session_Runs.thy ===== *)
theory Session_Runs
  imports Session_Tree
begin

text \<open>
  Runs of the session manager: every operation as a step on the manager and the files of its directory, which may hold anything
  at the start (old versions, malformed lines, files that are no sessions), the properties of
  the states a run can reach, the migration of old files, and the cases in which an operation loses something.
\<close>

section \<open>Runs of the session manager\<close>

inductive plain_append :: "(draw \<Rightarrow> session_manager \<Rightarrow> session_disk \<Rightarrow> manager_error + session_manager \<times> session_disk) \<Rightarrow> bool" where
  message: "plain_append (appendMessage message)"
| thinkingLevel: "plain_append (appendThinkingLevelChange level)"
| model: "plain_append (appendModelChange provider modelId)"
| compaction: "plain_append (appendCompaction summary firstKept tokensBefore details fromHook usage)"
| custom: "plain_append (appendCustomEntry customType data)"
| customMessage: "plain_append (appendCustomMessageEntry customType content display details)"
| sessionInfo: "plain_append (appendSessionInfo name)"

lemmas append_defs = appendMessage_def appendThinkingLevelChange_def appendModelChange_def appendCompaction_def appendCustomEntry_def
  appendCustomMessageEntry_def appendSessionInfo_def

lemma plain_append_body: "plain_append f \<Longrightarrow> \<exists>body. f = append_body body \<and> (\<nexists>t l. body = SLabel t l)"
  by (induction rule: plain_append.induct) (auto simp: append_defs)

inductive manager_step :: "session_manager \<times> session_disk \<Rightarrow> session_manager \<times> session_disk \<Rightarrow> bool" where
  append: "plain_append f \<Longrightarrow> good_draw (map_keys (sm_byId m)) d \<Longrightarrow> f d m disk = Inr (m', disk') \<Longrightarrow> manager_step (m, disk) (m', disk')"
| label: "good_draw (map_keys (sm_byId m)) d \<Longrightarrow> appendLabelChange target label d m disk = Inr (m', disk') \<Longrightarrow> manager_step (m, disk) (m', disk')"
| branch: "branch start m = Inr m' \<Longrightarrow> manager_step (m, disk) (m', disk)"
| reset: "manager_step (m, disk) (resetLeaf m, disk)"
| summary: "good_draw (map_keys (sm_byId m)) d \<Longrightarrow> branchWithSummary start summary details fromHook usage d m disk = Inr (m', disk')
    \<Longrightarrow> manager_step (m, disk) (m', disk')"
| branched: "fresh_draws (entry_ids (getEntries m)) 0 ds \<Longrightarrow> disk (branch_file d m) = None
    \<Longrightarrow> createBranchedSession leaf d ds m disk = Some (Inr (m', disk')) \<Longrightarrow> manager_step (m, disk) (m', disk')"
| fresh: "newSession ident parent d m = Inr m' \<Longrightarrow> unwritten m' disk \<Longrightarrow> manager_step (m, disk) (m', disk)"
| switch: "openable ds disk f \<Longrightarrow> setSessionFile f d ds m disk = Inr (m', disk') \<Longrightarrow> manager_step (m, disk) (m', disk')"

lemma step_inv: "manager_step s s' \<Longrightarrow> manager_inv disk0 (fst s) (snd s) \<Longrightarrow> manager_inv disk0 (fst s') (snd s')"
proof (induction rule: manager_step.induct)
  case (append f m d disk m' disk')
  from plain_append_body [OF append.hyps(1)] obtain body where body: "f = append_body body" "\<nexists>t l. body = SLabel t l" by blast
  with append append_inv [OF _ append.hyps(2) body(2)] show ?case by simp
next
  case (label m d target label disk m' disk')
  then show ?case using label_inv by simp
next
  case (branch start m m' disk)
  then have start: "start \<in> entry_ids (getEntries m)" "m' = m\<lparr> sm_leafId := Some start \<rparr>"
    using manager_okD(2) [OF manager_invD(1)] by (auto simp: branch_def ensure_def rbind_Inr_iff split: if_splits)
  with branch leaf_inv [of disk0 m disk "Some start"] show ?case by simp
next
  case (reset m disk)
  then show ?case using leaf_inv [of disk0 m disk None] by (simp add: resetLeaf_def)
next
  case (summary m d start summary details fromHook usage disk m' disk')
  then have inv: "manager_inv disk0 m disk" by simp
  from summary.hyps(2) obtain body where r: "\<nexists>t l. body = SLabel t l" "append_body body d (m\<lparr> sm_leafId := start \<rparr>) disk = Inr (m', disk')"
    and leaf: "\<And>l. start = Some l \<Longrightarrow> l \<in> entry_ids (getEntries m)"
    using manager_okD(2) [OF manager_invD(1) [OF inv]] by (auto simp: branchWithSummary_def rbind_Inr_iff ensure_def split: option.splits if_splits)
  show ?case using append_inv [OF leaf_inv [OF inv leaf] _ r] summary.hyps(1) by simp
next
  case (branched m ds disk d leaf m' disk')
  then show ?case using branched_inv by simp
next
  case (fresh ident parent d m m' disk)
  then show ?case using fresh_inv [of ident parent d m m' disk0 disk m' "sm_sessionFile m'"] manager_invD(4) by simp
next
  case (switch f d ds m disk m' disk')
  then show ?case using switch_inv [OF manager_invD(4) switch.hyps(2,1)] by simp
qed

text \<open>The runs on a directory with the files \<open>disk0\<close>, whatever they hold. The file of a new session does not exist yet.\<close>

inductive manager_reachable :: "session_disk \<Rightarrow> session_manager \<times> session_disk \<Rightarrow> bool" for disk0 :: session_disk where
  create: "create_manager cwd dir persist ident d = Inr m \<Longrightarrow> unwritten m disk0 \<Longrightarrow> manager_reachable disk0 (m, disk0)"
| step: "manager_reachable disk0 s \<Longrightarrow> manager_step s s' \<Longrightarrow> manager_reachable disk0 s'"

lemma run_inv: "manager_reachable disk0 s \<Longrightarrow> manager_inv disk0 (fst s) (snd s)"
proof (induction rule: manager_reachable.induct)
  case (create cwd dir persist ident d m)
  then show ?case using fresh_inv [of ident None d _ m disk0 disk0 m "sm_sessionFile m"] by (simp add: create_manager_def files_kept_def)
qed (rule step_inv)

section \<open>What a run guarantees\<close>

text \<open>A session of two messages, a label and a compaction, and the draws of its identifiers.\<close>

definition sample_draw :: "string \<Rightarrow> draw" where
  "sample_draw i = \<lparr> dr_short = [], dr_full = i, dr_time = ''t'' \<rparr>"

definition sample_question :: agent_message where
  "sample_question = UserMessage \<lparr> um_content = StringContent ''q'', um_timestamp = 0 \<rparr>"

definition sample_answer :: agent_message where
  "sample_answer = AssistantMessage \<lparr> am_content = [], am_api = ''a'', am_provider = ''p'', am_model = ''m'',
     am_responseModel = None, am_responseId = None, am_diagnostics = None,
     am_usage = \<lparr> u_input = 0, u_output = 0, u_cacheRead = 0, u_cacheWrite = 0, u_cacheWrite1h = None,
         u_reasoning = None, u_totalTokens = 0,
         u_cost = \<lparr> cost_input = 0, cost_output = 0, cost_cacheRead = 0, cost_cacheWrite = 0, cost_total = 0 \<rparr> \<rparr>,
     am_stopReason = Stop, am_deferred = None, am_errorMessage = None, am_rawStopReason = None,
     am_endTurn = None, am_timestamp = 2 \<rparr>"

definition sample_session_header :: session_header where
  "sample_session_header = \<lparr> sh_version = Some CURRENT_SESSION_VERSION, sh_id = ''s'', sh_timestamp = ''t'', sh_cwd = ''/w'', sh_parentSession = None \<rparr>"

definition sample_session_entry :: "string \<Rightarrow> string option \<Rightarrow> session_body \<Rightarrow> session_entry" where
  "sample_session_entry i p body = \<lparr> se_id = i, se_parentId = p, se_timestamp = ''t'', se_body = body \<rparr>"

definition sample_entries :: "session_entry list" where
  "sample_entries = [sample_session_entry ''a'' None (SMessage (StoredMessage sample_question False)),
     sample_session_entry ''b'' (Some ''a'') (SMessage (StoredMessage sample_answer False))]"

definition sample_manager :: session_manager where
  "sample_manager = \<lparr> sm_sessionId = ''s'', sm_sessionFile = Some ''/d/t_s.jsonl'', sm_sessionDir = ''/d'', sm_cwd = ''/w'', sm_persist = True,
     sm_flushed = True, sm_fileEntries = FileHeader sample_session_header # map FileEntry sample_entries, sm_byId = tree_index sample_entries,
     sm_labelsById = [], sm_labelTimestampsById = [], sm_leafId = Some ''b'' \<rparr>"

definition sample_disk :: session_disk where
  "sample_disk = Map.empty(''/d/t_s.jsonl'' \<mapsto> map Some (FileHeader sample_session_header # map FileEntry sample_entries))"

lemma sample_good_draw: "i \<noteq> [] \<Longrightarrow> i \<notin> taken \<Longrightarrow> good_draw taken (sample_draw i)"
  by (simp add: good_draw_def sample_draw_def)

lemmas sample_run_simps = sample_session_header_def sample_session_entry_def sample_draw_def newSession_def Let_def session_file_name_def
  append_defs append_body_def appendEntry_def persistEntry_def new_entry_def generateId_def map_keys_def

lemma sample_reachable: "manager_reachable Map.empty (sample_manager, sample_disk)"
proof -
  obtain m0 where m0: "create_manager ''/w'' ''/d'' True (Some ''s'') (sample_draw ''z'') = Inr m0"
    "m0 = \<lparr> sm_sessionId = ''s'', sm_sessionFile = Some ''/d/t_s.jsonl'', sm_sessionDir = ''/d'', sm_cwd = ''/w'', sm_persist = True,
      sm_flushed = False, sm_fileEntries = [FileHeader sample_session_header], sm_byId = [], sm_labelsById = [], sm_labelTimestampsById = [], sm_leafId = None \<rparr>"
    by (simp add: create_manager_def blank_manager_def assertValidSessionId_def id_alnum_def sample_run_simps)
  have start: "manager_reachable Map.empty (m0, Map.empty)"
    by (rule manager_reachable.create [OF m0(1)]) (simp add: unwritten_def m0(2))
  obtain m1 where m1: "appendMessage sample_question (sample_draw ''a'') m0 Map.empty = Inr (m1, Map.empty)"
    "m1 = m0\<lparr> sm_fileEntries := [FileHeader sample_session_header, FileEntry (hd sample_entries)], sm_byId := tree_index [hd sample_entries], sm_leafId := Some ''a'' \<rparr>"
    by (simp add: m0(2) sample_entries_def sample_question_def sample_run_simps)
  have first: "manager_reachable Map.empty (m1, Map.empty)"
    by (rule manager_reachable.step [OF start], rule manager_step.append [OF plain_append.message _ m1(1)], rule sample_good_draw) (simp_all add: m0(2) map_keys_def)
  have m2: "appendMessage sample_answer (sample_draw ''b'') m1 Map.empty = Inr (sample_manager, sample_disk)"
    by (simp add: m1(2) m0(2) sample_manager_def sample_disk_def sample_entries_def sample_question_def sample_answer_def sample_run_simps tree_index_def)
  show ?thesis
    by (rule manager_reachable.step [OF first], rule manager_step.append [OF plain_append.message _ m2], rule sample_good_draw)
      (simp_all add: m1(2) m0(2) map_keys_def sample_entries_def sample_session_entry_def)
qed

text \<open>
  A file of the second version with a malformed line, and the run that opens it: the readable lines are migrated and the file is
  written anew.
\<close>

definition old_disk :: session_disk where
  "old_disk = Map.empty(''/d/old.jsonl'' \<mapsto>
     [None, Some (FileHeader (sample_session_header\<lparr> sh_version := Some 2 \<rparr>)), None, Some (FileEntry (hd sample_entries))])"

definition old_lines :: "file_entry list" where
  "old_lines = [FileHeader sample_session_header, FileEntry (hd sample_entries)]"

lemma old_migrated:
  "migrateToCurrentVersion ds [FileHeader (sample_session_header\<lparr> sh_version := Some 2 \<rparr>), FileEntry (hd sample_entries)] = (old_lines, True)"
  by (simp add: migrateToCurrentVersion_def getHeader_def CURRENT_SESSION_VERSION_def migrateV2ToV3_def old_lines_def
      sample_session_header_def migrate_message_def sample_entries_def sample_session_entry_def)

lemma old_loaded:
  "loadEntriesFromFile [None, Some (FileHeader (sample_session_header\<lparr> sh_version := Some 2 \<rparr>)), None, Some (FileEntry (hd sample_entries))] =
   [FileHeader (sample_session_header\<lparr> sh_version := Some 2 \<rparr>), FileEntry (hd sample_entries)]"
  by (simp add: loadEntriesFromFile_def map_filter_simps)

lemma old_reachable:
  "\<exists>m. manager_reachable old_disk (m, old_disk(''/d/old.jsonl'' \<mapsto> map Some old_lines)) \<and> sm_fileEntries m = old_lines"
proof -
  let ?f = "''/d/old.jsonl''"
  let ?tree = "[hd sample_entries]"
  obtain m0 where m0: "create_manager ''/w'' ''/d'' True (Some ''s'') (sample_draw ''z'') = Inr m0" "sm_sessionFile m0 = Some ''/d/t_s.jsonl''" "sm_persist m0"
    by (simp add: create_manager_def blank_manager_def assertValidSessionId_def id_alnum_def sample_run_simps)
  have start: "manager_reachable old_disk (m0, old_disk)"
    by (rule manager_reachable.create [OF m0(1)]) (simp add: unwritten_def m0(2) old_disk_def)
  have "grown_tree ?tree"
    using grown_tree.snoc [OF grown_tree.empty, of "hd sample_entries"] by (simp add: sample_entries_def sample_session_entry_def)
  then have tree: "\<exists>h es. old_lines = FileHeader h # map FileEntry es \<and> sh_version h = Some CURRENT_SESSION_VERSION \<and> grown_tree es"
    by (intro exI [of _ sample_session_header] exI [of _ ?tree]) (simp add: old_lines_def sample_session_header_def)
  have ok: "openable ds old_disk ?f" for ds
    using tree by (simp add: openable_def old_disk_def old_loaded old_migrated)
  let ?m = "m0\<lparr> sm_sessionFile := Some ?f, sm_sessionId := ''s'', sm_fileEntries := old_lines \<rparr>"
  have "setSessionFile ?f (sample_draw ''z'') (\<lambda>_. sample_draw ''z'') m0 old_disk =
      Inr ((buildIndex ?m)\<lparr> sm_flushed := True \<rparr>, old_disk(?f \<mapsto> map Some old_lines))"
  proof -
    have "sh_id sample_session_header = ''s''" by (simp add: sample_session_header_def)
    then show ?thesis using m0(3) by (simp add: setSessionFile_def old_disk_def old_loaded old_migrated rewriteFile_def getHeader_def)
  qed
  from manager_reachable.step [OF start manager_step.switch [OF ok this]] show ?thesis
    using buildIndex_ok(4) [of ?m sample_session_header ?tree] \<open>grown_tree ?tree\<close> by (intro exI conjI) (auto simp: old_lines_def)
qed

text \<open>C16. On a directory with any files at the start, in every state that a run of the session manager reaches, by any sequence of appends,
  labels, branches, branch summaries, new sessions, extracted branches and switches to files whose readable lines, migrated if
  they are of an old version, are a header and a tree of entries (\<open>openable\<close>): the entries are a tree that has only grown
  (distinct identifiers, parents before their children), the index by identifier, the labels and their times are those of
  the entries, the leaf is an entry or nothing, and the file of the session holds all its entries as soon as one is an
  assistant message; every file of the directory is as it was at the start or a session in order, and none is deleted.\<close>

theorem session_runs_ok:
  assumes "manager_reachable disk0 (m, disk)"
  shows "manager_ok m \<and> disk_ok m disk \<and> files_kept disk0 disk"
  using run_inv [OF assms] by (simp add: manager_inv_def)

theorem session_runs_ok_witness:
  "\<exists>m. sm_fileEntries m = old_lines \<and> manager_ok m \<and> disk_ok m (old_disk(''/d/old.jsonl'' \<mapsto> map Some old_lines)) \<and>
     files_kept old_disk (old_disk(''/d/old.jsonl'' \<mapsto> map Some old_lines))"
  using old_reachable session_runs_ok by blast

text \<open>C17. A session whose file has been written can be opened again from it, by any session manager: the entries, the index, the labels
  with their times and the session identifier are the same, the leaf is the last entry, and opening writes nothing.\<close>

theorem reopened_file_same:
  assumes "manager_reachable disk0 (m, disk)" and "sm_persist m" and "sm_flushed m" and "sm_sessionFile m = Some f"
  shows "\<exists>m'. setSessionFile f d ds m0 disk = Inr (m', disk) \<and> getEntries m' = getEntries m \<and> sm_byId m' = sm_byId m \<and>
    sm_labelsById m' = sm_labelsById m \<and> sm_labelTimestampsById m' = sm_labelTimestampsById m \<and> sm_sessionId m' = sm_sessionId m \<and>
    sm_leafId m' = (if getEntries m = [] then None else Some (se_id (last (getEntries m))))"
proof -
  have inv: "manager_inv disk0 m disk" using run_inv [OF assms(1)] by simp
  note m = manager_invD [OF inv]
  from m(1,2) obtain h where h: "sm_fileEntries m = FileHeader h # map FileEntry (getEntries m)" "sh_version h = Some CURRENT_SESSION_VERSION"
    "sh_id h = sm_sessionId m" by (elim manager_okE) (auto simp: header_ok_def)
  obtain ls where f: "disk f = Some ls" "readable ls = FileHeader h # map FileEntry (getEntries m)"
    using m(3) assms(2,3,4) h(1) by (auto simp: disk_ok_def)
  let ?m = "m0\<lparr> sm_sessionFile := Some f, sm_sessionId := sh_id h, sm_fileEntries := FileHeader h # map FileEntry (getEntries m) \<rparr>"
  have lines: "sm_fileEntries ?m = FileHeader h # map FileEntry (getEntries m)" by simp
  note index = buildIndex_ok [OF lines manager_okD(1) [OF m(1)]]
  have "getEntries ((buildIndex ?m)\<lparr> sm_flushed := True \<rparr>) = getEntries m" by (rule getEntries_file [of _ h]) simp
  moreover have "(sm_labelsById (buildIndex ?m), sm_labelTimestampsById (buildIndex ?m)) = (sm_labelsById m, sm_labelTimestampsById m)"
    using index(2) manager_okD(3) [OF m(1)] by simp
  ultimately
  show ?thesis
    using open_written [of disk f ls h "getEntries m", OF f h(2), of d ds m0] index(1,3) manager_okD(2) [OF m(1)] h(3)
    by simp
qed

theorem reopened_file_same_witness:
  "\<exists>m'. setSessionFile ''/d/t_s.jsonl'' (sample_draw ''z'') (\<lambda>_. sample_draw ''z'') (blank_manager ''/w'' ''/d'' True) sample_disk = Inr (m', sample_disk) \<and>
    getEntries m' = sample_entries \<and> sm_leafId m' = Some ''b''"
proof -
  have "getEntries sample_manager = sample_entries" by (rule getEntries_file [of _ sample_session_header]) (simp add: sample_manager_def)
  moreover have "se_id (last sample_entries) = ''b''" "sample_entries \<noteq> []" by (simp_all add: sample_entries_def sample_session_entry_def)
  ultimately show ?thesis
    using reopened_file_same [OF sample_reachable, of "''/d/t_s.jsonl''" "sample_draw ''z''" "\<lambda>_. sample_draw ''z''" "blank_manager ''/w'' ''/d'' True"]
    by (auto simp: sample_manager_def)
qed

text \<open>C15. A session made of one branch of another (\<^verbatim>\<open>createBranchedSession\<close>) is always made, has the context of that branch, that is, the
  same messages, model and thinking level, and leaves every other file as it was, the parent session's included. This needs
  that every compaction on the branch keeps an entry of the branch that is not a label.\<close>

theorem branched_session_context:
  assumes "manager_reachable disk0 (m, disk)" and "leaf \<in> entry_ids (getEntries m)" and "disk (branch_file d m) = None"
    and "fresh_draws (entry_ids (getEntries m)) 0 ds" and "getBranch (Some leaf) m = Some p" and "keeps_entry p"
  shows "\<exists>m' disk' c. createBranchedSession leaf d ds m disk = Some (Inr (m', disk')) \<and> manager_context date m' = Some c \<and>
    manager_context date (m\<lparr> sm_leafId := Some leaf \<rparr>) = Some c \<and> (\<forall>f. f \<noteq> branch_file d m \<longrightarrow> disk' f = disk f)"
proof -
  have m: "manager_ok m" using run_inv [OF assms(1)] by (simp add: manager_inv_def)
  obtain m' disk' where r: "createBranchedSession leaf d ds m disk = Some (Inr (m', disk'))" "p \<noteq> []" "manager_context date m' = Some (path_context date p)"
    by (rule createBranchedSession_result [of m leaf disk d ds date, OF m assms(2,3,4)]) (use assms(5,6) that in simp)
  have "leaf \<noteq> []" using assms(2) grown_nonempty [OF manager_okD(1) [OF m]] by (auto simp: entry_ids_def)
  note at_leaf = context_at [OF m assms(5) r(2) this]
  have "disk' f = disk f" if "f \<noteq> branch_file d m" for f
    using r(1) that by (auto simp: createBranchedSession_def Let_def rewriteFile_def branch_file_def split: option.splits if_splits)
  with r(1,3) at_leaf show ?thesis by blast
qed

definition sample_draws :: "nat \<Rightarrow> draw" where
  "sample_draws n = sample_draw (replicate (n + 2) CHR ''x'')"

lemma sample_fresh_draws: "fresh_draws {''a'', ''b''} 0 sample_draws"
proof -
  have "dr_full (sample_draws k) \<notin> {''a'', ''b''}" for k by (simp add: sample_draws_def sample_draw_def)
  moreover have "dr_full (sample_draws k) \<noteq> dr_full (sample_draws j)" if "j \<noteq> k" for j k
    using that arg_cong [of _ _ length] by (auto simp: sample_draws_def sample_draw_def)
  ultimately show ?thesis by (auto simp: fresh_draws_def sample_draws_def sample_draw_def)
qed

theorem branched_session_context_witness:
  "\<exists>m' disk' c. createBranchedSession ''a'' (sample_draw ''n'') sample_draws sample_manager sample_disk = Some (Inr (m', disk')) \<and>
    manager_context (\<lambda>_. 0) m' = Some c \<and> manager_context (\<lambda>_. 0) (sample_manager\<lparr> sm_leafId := Some ''a'' \<rparr>) = Some c \<and>
    disk' ''/d/t_s.jsonl'' = sample_disk ''/d/t_s.jsonl''"
proof -
  have entries: "getEntries sample_manager = sample_entries" by (rule getEntries_file [of _ sample_session_header]) (simp add: sample_manager_def)
  have ids: "entry_ids (getEntries sample_manager) = {''a'', ''b''}" by (simp add: entries sample_entries_def sample_session_entry_def)
  have path: "getBranch (Some ''a'') sample_manager = Some [hd sample_entries]"
    by (simp add: getBranch_def truthy_def sample_manager_def tree_index_def sample_entries_def sample_session_entry_def walk_Some)
  have other: "''/d/t_s.jsonl'' \<noteq> branch_file (sample_draw ''n'') sample_manager"
    by (simp add: branch_file_def session_file_name_def sample_manager_def sample_draw_def)
  have free: "sample_disk (branch_file (sample_draw ''n'') sample_manager) = None" using other by (simp add: sample_disk_def)
  have keeps: "keeps_entry [hd sample_entries]" by (simp add: keeps_entry_def compaction_first_kept_def sample_entries_def sample_session_entry_def)
  show ?thesis
    using branched_session_context [OF sample_reachable, of "''a''" "sample_draw ''n''" sample_draws "[hd sample_entries]" "\<lambda>_. 0"]
      ids path free keeps other sample_fresh_draws by auto
qed

text \<open>Every branch of a session that a run reaches is found, from its root to the entry, and an unknown entry has the empty branch.\<close>

theorem branch_found:
  assumes "manager_reachable disk0 (m, disk)"
  shows "\<exists>p. getBranch (Some i) m = Some p \<and> subseq p (getEntries m) \<and> linked None p \<and>
    (if i \<in> entry_ids (getEntries m) then p \<noteq> [] \<and> se_id (last p) = i else p = [])"
proof (cases "i \<in> entry_ids (getEntries m)")
  case True
  have "manager_ok m" using run_inv [OF assms] by (simp add: manager_inv_def)
  from getBranch_path [OF this True] True show ?thesis by auto
next
  case False
  have "sm_byId m = tree_index (getEntries m)" using run_inv [OF assms] manager_okD(2) by (simp add: manager_inv_def)
  then have "getBranch (Some i) m = Some []"
    using False map_get_index [of "getEntries m" i] by (cases "i = []") (simp_all add: getBranch_def truthy_def)
  then show ?thesis using False by simp
qed

section \<open>Migration\<close>

lemma migrate_v1_entries:
  "\<exists>ys. migrate_v1 ds ids prev migrated (map FileEntry es) = migrated @ map FileEntry ys \<and> length ys = length es \<and> linked prev ys \<and>
    (\<forall>i < length es. se_id (ys ! i) = generateId ids (ds (length migrated + i)) \<and> se_timestamp (ys ! i) = se_timestamp (es ! i) \<and>
      (compaction_first_kept (es ! i) = None \<longrightarrow> se_body (ys ! i) = se_body (es ! i)) \<and>
      (\<forall>s f t d u h k y. se_body (es ! i) = SCompaction s f t d u h (Some k) \<longrightarrow> k \<le> length migrated + i \<longrightarrow>
        (migrated @ map FileEntry ys) ! k = FileEntry y \<longrightarrow> se_body (ys ! i) = SCompaction s (se_id y) t d u h None))"
proof (induction es arbitrary: migrated prev)
  case (Cons x es)
  let ?i = "generateId ids (ds (length migrated))"
  let ?x1 = "x\<lparr> se_id := ?i, se_parentId := prev \<rparr>"
  let ?x2 = "first_kept_of (migrated @ FileEntry ?x1 # map FileEntry es) ?x1"
  have x2: "se_id ?x2 = ?i" "se_parentId ?x2 = prev" "se_timestamp ?x2 = se_timestamp x"
    by (simp_all add: first_kept_of_def Let_def split: session_body.split option.split)
  have plain: "se_body ?x2 = se_body x" if "compaction_first_kept x = None"
    using that by (simp add: first_kept_of_def compaction_first_kept_def split: session_body.splits)
  from Cons.IH [of "Some ?i" "migrated @ [FileEntry ?x2]"] obtain ys where
    ys: "migrate_v1 ds ids (Some ?i) (migrated @ [FileEntry ?x2]) (map FileEntry es) = (migrated @ [FileEntry ?x2]) @ map FileEntry ys"
      "length ys = length es" "linked (Some ?i) ys"
    and each: "\<forall>i < length es. se_id (ys ! i) = generateId ids (ds (length (migrated @ [FileEntry ?x2]) + i)) \<and> se_timestamp (ys ! i) = se_timestamp (es ! i) \<and>
      (compaction_first_kept (es ! i) = None \<longrightarrow> se_body (ys ! i) = se_body (es ! i)) \<and>
      (\<forall>s f t d u h k y. se_body (es ! i) = SCompaction s f t d u h (Some k) \<longrightarrow> k \<le> length (migrated @ [FileEntry ?x2]) + i \<longrightarrow>
        ((migrated @ [FileEntry ?x2]) @ map FileEntry ys) ! k = FileEntry y \<longrightarrow> se_body (ys ! i) = SCompaction s (se_id y) t d u h None)"
    by blast
  have kept: "se_body ?x2 = SCompaction s (se_id y) t d u h None"
    if "se_body x = SCompaction s f t d u h (Some k)" "k \<le> length migrated" "(migrated @ map FileEntry (?x2 # ys)) ! k = FileEntry y" for s f t d u h k y
    using that x2(1) by (cases "k < length migrated") (auto simp: first_kept_of_def Let_def nth_append)
  show ?case
  proof (intro exI [of _ "?x2 # ys"] conjI allI impI)
    show "migrate_v1 ds ids prev migrated (map FileEntry (x # es)) = migrated @ map FileEntry (?x2 # ys)" using ys(1) by (simp add: Let_def)
    show "length (?x2 # ys) = length (x # es)" "linked prev (?x2 # ys)" using ys(2,3) x2 by simp_all
  next
    fix i
    assume i: "i < length (x # es)"
    show "se_id ((?x2 # ys) ! i) = generateId ids (ds (length migrated + i))" "se_timestamp ((?x2 # ys) ! i) = se_timestamp ((x # es) ! i)"
      using i x2 each by (cases i; auto)+
    show "se_body ((?x2 # ys) ! i) = se_body ((x # es) ! i)" if "compaction_first_kept ((x # es) ! i) = None"
      using i that plain each by (cases i) auto
    fix s f t d u h k y
    assume "se_body ((x # es) ! i) = SCompaction s f t d u h (Some k)" "k \<le> length migrated + i" "(migrated @ map FileEntry (?x2 # ys)) ! k = FileEntry y"
    then show "se_body ((?x2 # ys) ! i) = SCompaction s (se_id y) t d u h None"
      using i kept [of s f t d u h k y] each by (cases i) auto
  qed
qed simp

text \<open>The second migration changes neither the identifiers nor the tree.\<close>

lemma migrate_message_frame: "se_id (migrate_message e) = se_id e" "se_parentId (migrate_message e) = se_parentId e"
  by (simp_all add: migrate_message_def split: session_body.split stored_message.split)

lemma linked_migrated: "linked parent (map migrate_message es) = linked parent es"
  by (induction es arbitrary: parent) (simp_all add: migrate_message_frame)

lemma migrateV2_entries: "migrateV2ToV3 (map FileEntry es) = map FileEntry (map migrate_message es)"
  by (simp add: migrateV2ToV3_def)

text \<open>
  A file of the first version is opened as a chain in the order of its entries when the identifiers drawn for them are distinct:
  the migration itself does not check it, see below.
\<close>

theorem old_file_migrated:
  assumes "sh_version h = None \<or> sh_version h = Some 1" and "distinct (map (\<lambda>i. generateId {} (ds (Suc i))) [0..<length es])"
    and "\<And>i. i < length es \<Longrightarrow> generateId {} (ds (Suc i)) \<noteq> []"
  shows "\<exists>ys. migrateToCurrentVersion ds (FileHeader h # map FileEntry es) =
      (FileHeader (h\<lparr> sh_version := Some CURRENT_SESSION_VERSION \<rparr>) # map FileEntry ys, True) \<and>
    length ys = length es \<and> linked None ys \<and> grown_tree ys"
proof -
  let ?h = "FileHeader (h\<lparr> sh_version := Some 2 \<rparr>)"
  from migrate_v1_entries [of ds "{}" None "[?h]" es] obtain xs where
    xs: "migrate_v1 ds {} None [?h] (map FileEntry es) = [?h] @ map FileEntry xs" "length xs = length es" "linked None xs"
      "\<forall>i < length es. se_id (xs ! i) = generateId {} (ds (length [?h] + i))" by blast
  define ys where "ys = map migrate_message xs"
  have ids: "map se_id ys = map (\<lambda>i. generateId {} (ds (Suc i))) [0..<length es]"
    using xs(2,4) by (intro nth_equalityI) (simp_all add: ys_def migrate_message_frame)
  have "se_id e \<noteq> []" if "e \<in> set ys" for e
  proof -
    from that have "se_id e \<in> set (map se_id ys)" by simp
    then show ?thesis unfolding ids using assms(3) by fastforce
  qed
  then have "grown_tree ys" using xs(3) ids assms(2) by (intro linked_grown) (simp_all add: ys_def linked_migrated)
  moreover have "migrateToCurrentVersion ds (FileHeader h # map FileEntry es) =
      (FileHeader (h\<lparr> sh_version := Some CURRENT_SESSION_VERSION \<rparr>) # map FileEntry ys, True)"
    using assms(1) xs(1)
    by (auto simp: migrateToCurrentVersion_def getHeader_def CURRENT_SESSION_VERSION_def migrateV1ToV2_def migrateV2ToV3_def ys_def Let_def)
  ultimately show ?thesis using xs(2,3) by (intro exI [of _ ys]) (simp add: ys_def linked_migrated)
qed

corollary old_file_openable:
  assumes "sh_version h = None \<or> sh_version h = Some 1" and "distinct (map (\<lambda>i. generateId {} (ds (Suc i))) [0..<length es])"
    and "\<And>i. i < length es \<Longrightarrow> generateId {} (ds (Suc i)) \<noteq> []"
    and "disk f = Some ls" and "readable ls = FileHeader h # map FileEntry es"
  shows "openable ds disk f"
  using old_file_migrated [OF assms(1-3)] assms(4) load_readable [OF assms(5)] by (auto simp: openable_def)

section \<open>What goes wrong\<close>

text \<open>
  The first migration draws each identifier against a set to which nothing is ever added. When two draws agree, the second entry
  takes the identifier of the first, is its own parent, and the walk to the root does not end.
\<close>

lemma walk_self_loop:
  assumes "walk byId current path = Some y" and "map_get byId (se_id e) = Some e" and "se_parentId e = Some (se_id e)" and "se_id e \<noteq> []"
  shows "current \<noteq> Some e"
proof -
  have "map_get byId (se_id e) = Some e \<longrightarrow> current \<noteq> Some e"
    by (rule walk.raw_induct [where P = "\<lambda>byId current path y. map_get byId (se_id e) = Some e \<longrightarrow> current \<noteq> Some e", OF _ assms(1)])
      (use assms(3,4) in \<open>fastforce simp: truthy_id split: option.splits\<close>)
  with assms(2) show ?thesis by blast
qed

lemma migrated_ids_collide:
  fixes d :: draw
  defines "old \<equiv> \<lambda>body. \<lparr> se_id = [], se_parentId = None, se_timestamp = ''t'', se_body = body \<rparr>"
    and "new \<equiv> \<lambda>p body. \<lparr> se_id = ''1234abcd'', se_parentId = p, se_timestamp = ''t'', se_body = body \<rparr>"
  assumes "dr_short d = [''1234abcd'']" and "compaction_first_kept (old a) = None" and "compaction_first_kept (old b) = None"
  shows "migrateV1ToV2 (\<lambda>_. d) [FileHeader h, FileEntry (old a), FileEntry (old b)] =
      [FileHeader (h\<lparr> sh_version := Some 2 \<rparr>), FileEntry (new None a), FileEntry (new (Some ''1234abcd'') b)]"
    and "sm_fileEntries m = [FileHeader h', FileEntry (new None a), FileEntry (new (Some ''1234abcd'') b)] \<Longrightarrow>
      getBranch None (buildIndex m) = None"
proof -
  have plain: "first_kept_of es x = x" if "compaction_first_kept x = None" for es x
    using that by (simp add: first_kept_of_def compaction_first_kept_def split: session_body.splits)
  have none: "compaction_first_kept (new p a) = None" "compaction_first_kept (new p b) = None" for p
    using assms(4,5) by (simp_all add: old_def new_def compaction_first_kept_def)
  show "migrateV1ToV2 (\<lambda>_. d) [FileHeader h, FileEntry (old a), FileEntry (old b)] =
      [FileHeader (h\<lparr> sh_version := Some 2 \<rparr>), FileEntry (new None a), FileEntry (new (Some ''1234abcd'') b)]"
    using assms(3) plain none by (simp add: migrateV1ToV2_def Let_def generateId_def old_def new_def)
  let ?e = "new (Some ''1234abcd'') b"
  assume m: "sm_fileEntries m = [FileHeader h', FileEntry (new None a), FileEntry ?e]"
  have "sm_byId (buildIndex m) = [(''1234abcd'', ?e)]" "sm_leafId (buildIndex m) = Some ''1234abcd''"
    by (simp_all add: buildIndex_def m index_step_def split_beta new_def)
  moreover have "walk [(''1234abcd'', ?e)] (Some ?e) [] = None"
    using walk_self_loop [of "[(''1234abcd'', ?e)]" "Some ?e" "[]" _ ?e] by (cases "walk [(''1234abcd'', ?e)] (Some ?e) []") (auto simp: new_def)
  ultimately show "getBranch None (buildIndex m) = None" by (simp add: getBranch_def truthy_def)
qed

text \<open>
  A fork writes a header of the current version over entries of an old file that it has not migrated: opened again, they
  keep their missing identifiers, and the index holds only the last of them.
\<close>

lemma forked_old_file_unmigrated:
  assumes "disk source = Some (map Some [FileHeader h, FileEntry a, FileEntry b])" and "sh_version h = None" and "se_id a = []" and "se_id b = []"
    and "disk (session_file_name dir (dr_time d) (dr_full d)) = None"
  shows "\<exists>m disk'. forkFrom source cwd dir None d ds disk = Inr (m, disk') \<and> getEntries m = [a, b] \<and> sm_byId m = [([], b)] \<and> sm_leafId m = Some []"
proof -
  let ?f = "session_file_name dir (dr_time d) (dr_full d)"
  let ?h = "\<lparr> sh_version = Some CURRENT_SESSION_VERSION, sh_id = dr_full d, sh_timestamp = dr_time d, sh_cwd = cwd, sh_parentSession = Some source \<rparr>"
  let ?disk = "disk(?f \<mapsto> map Some [FileHeader ?h, FileEntry a, FileEntry b])"
  have "forkFrom source cwd dir None d ds disk = open_manager cwd dir ?f d ds ?disk"
    using assms(1,5) load_written [of h "[FileEntry a, FileEntry b]"] by (simp add: forkFrom_def Let_def)
  moreover have "loadEntriesFromFile (map Some [FileHeader ?h, FileEntry a, FileEntry b]) = [FileHeader ?h, FileEntry a, FileEntry b]"
    by (rule load_written)
  moreover have "migrateToCurrentVersion ds [FileHeader ?h, FileEntry a, FileEntry b] = ([FileHeader ?h, FileEntry a, FileEntry b], False)"
    by (simp add: migrateToCurrentVersion_def getHeader_def)
  ultimately show ?thesis
    using assms(3,4) by (simp add: open_manager_def setSessionFile_def buildIndex_def index_step_def split_beta getEntries_def
      map_filter_simps blank_manager_def getHeader_def)
qed

text \<open>
  A compaction may name a label as the first entry it keeps: the cut is moved back over entries that the context does not show. A
  session made of the branch has no such entry, and its context loses every message that the compaction kept.
\<close>

definition label_kept_path :: "session_entry list" where
  "label_kept_path = [sample_session_entry ''a'' None (SLabel ''z'' (Some ''l'')), sample_session_entry ''b'' (Some ''a'') (SMessage (StoredMessage sample_question False)),
     sample_session_entry ''c'' (Some ''b'') (SCompaction ''s'' ''a'' 0 None None False None)]"

lemma kept_message_lost:
  "StoredMessage sample_question False \<in> set (sc_messages (path_context date label_kept_path))"
  "StoredMessage sample_question False \<notin> set (sc_messages (path_context date (rechain None label_kept_path)))"
  by (simp_all add: label_kept_path_def path_context_def context_entries_def compaction_first_kept_def sample_session_entry_def Let_def
    sessionEntryToContextMessages_def sample_question_def is_label_def)

end
