(* ===== verification/Transform_Messages.thy ===== *)
theory Transform_Messages
  imports Session_Manager
begin

text \<open>
  \<^verbatim>\<open>packages/ai/src/api/transform-messages.ts\<close>: what a provider makes of a conversation before it sends it. Images are replaced
  for models without vision, blocks of other models become plain, identifiers of tool calls are normalised, and calls without
  a result get one. Content that is null has no counterpart in the type of messages; the time of a result that is made up
  is an argument.
\<close>

section \<open>Images\<close>

record target_model =
  tg_provider :: string
  tg_api :: string
  tg_id :: string
  tg_input :: "string list"

definition NON_VISION_USER_IMAGE_PLACEHOLDER :: string where
  "NON_VISION_USER_IMAGE_PLACEHOLDER = ''(image omitted: model does not support images)''"

definition NON_VISION_TOOL_IMAGE_PLACEHOLDER :: string where
  "NON_VISION_TOOL_IMAGE_PLACEHOLDER = ''(tool image omitted: model does not support images)''"

definition block_text :: "content_block \<Rightarrow> string option" where
  "block_text b = (case b of TextContent t s \<Rightarrow> Some t | _ \<Rightarrow> None)"

fun replace_images :: "string \<Rightarrow> bool \<Rightarrow> content_block list \<Rightarrow> content_block list" where
  "replace_images placeholder previousWasPlaceholder [] = []"
| "replace_images placeholder previousWasPlaceholder (ImageContent d m # rest) =
     (if previousWasPlaceholder then [] else [TextContent placeholder None]) @ replace_images placeholder True rest"
| "replace_images placeholder previousWasPlaceholder (block # rest) =
     block # replace_images placeholder (block_text block = Some placeholder) rest"

definition replaceImagesWithPlaceholder :: "content_block list \<Rightarrow> string \<Rightarrow> content_block list" where
  "replaceImagesWithPlaceholder content placeholder = replace_images placeholder False content"

definition downgrade_message :: "agent_message \<Rightarrow> agent_message" where
  "downgrade_message msg =
     (case msg of
        UserMessage u \<Rightarrow>
          (case um_content u of
             BlockContent content \<Rightarrow>
               UserMessage (u\<lparr> um_content := BlockContent (replaceImagesWithPlaceholder content NON_VISION_USER_IMAGE_PLACEHOLDER) \<rparr>)
           | StringContent s \<Rightarrow> msg)
      | ToolResultMessage r \<Rightarrow>
          ToolResultMessage (r\<lparr> tr_content := replaceImagesWithPlaceholder (tr_content r) NON_VISION_TOOL_IMAGE_PLACEHOLDER \<rparr>)
      | _ \<Rightarrow> msg)"

definition downgradeUnsupportedImages :: "agent_message list \<Rightarrow> target_model \<Rightarrow> agent_message list" where
  "downgradeUnsupportedImages messages model =
     (if ''image'' \<in> set (tg_input model) then messages else map downgrade_message messages)"

section \<open>First pass\<close>

type_synonym id_map = "(string, string) js_map"
type_synonym normalizer = "string \<Rightarrow> target_model \<Rightarrow> assistant_message \<Rightarrow> string"

text \<open>The callback of \<^verbatim>\<open>map\<close> changes the map of identifiers as it goes.\<close>

primrec map_state :: "('s \<Rightarrow> 'a \<Rightarrow> 's \<times> 'b) \<Rightarrow> 's \<Rightarrow> 'a list \<Rightarrow> 's \<times> 'b list" where
  "map_state f s [] = (s, [])"
| "map_state f s (x # xs) = (let (s', y) = f s x; (s'', ys) = map_state f s' xs in (s'', y # ys))"

definition isSameModel :: "target_model \<Rightarrow> assistant_message \<Rightarrow> bool" where
  "isSameModel model a \<longleftrightarrow> am_provider a = tg_provider model \<and> am_api a = tg_api model \<and> am_model a = tg_id model"

definition transform_thinking :: "bool \<Rightarrow> string \<Rightarrow> string option \<Rightarrow> bool option \<Rightarrow> content_block list" where
  "transform_thinking same thinking sig redacted =
     (if redacted = Some True then (if same then [ThinkingContent thinking sig redacted] else [])
      else if same \<and> truthy sig \<noteq> None then [ThinkingContent thinking sig redacted]
      else if trim thinking = [] then []
      else if same then [ThinkingContent thinking sig redacted]
      else [TextContent thinking None])"

definition transform_call :: "normalizer option \<Rightarrow> target_model \<Rightarrow> assistant_message \<Rightarrow> id_map \<Rightarrow> tool_call \<Rightarrow> id_map \<times> tool_call" where
  "transform_call normalizeId model a ids tc =
     (let same = isSameModel model a;
          tc1 = (if \<not> same \<and> truthy (tc_thoughtSignature tc) \<noteq> None then tc\<lparr> tc_thoughtSignature := None \<rparr> else tc)
      in case normalizeId of
           None \<Rightarrow> (ids, tc1)
         | Some f \<Rightarrow>
             if same then (ids, tc1)
             else let n = f (tc_id tc) model a in
                  if n \<noteq> tc_id tc then (map_set (tc_id tc) n ids, tc1\<lparr> tc_id := n \<rparr>) else (ids, tc1))"

definition transform_block :: "normalizer option \<Rightarrow> target_model \<Rightarrow> assistant_message \<Rightarrow> id_map \<Rightarrow> content_block \<Rightarrow> id_map \<times> content_block list" where
  "transform_block normalizeId model a ids block =
     (case block of
        ThinkingContent thinking sig redacted \<Rightarrow> (ids, transform_thinking (isSameModel model a) thinking sig redacted)
      | TextContent text sig \<Rightarrow> (ids, if isSameModel model a then [block] else [TextContent text None])
      | ToolCallContent tc \<Rightarrow> (let (ids', tc') = transform_call normalizeId model a ids tc in (ids', [ToolCallContent tc']))
      | ImageContent d m \<Rightarrow> (ids, [block]))"

definition transform_message :: "normalizer option \<Rightarrow> target_model \<Rightarrow> id_map \<Rightarrow> agent_message \<Rightarrow> id_map \<times> agent_message" where
  "transform_message normalizeId model ids msg =
     (case msg of
        ToolResultMessage r \<Rightarrow>
          (ids, case truthy (map_get ids (tr_toolCallId r)) of
             Some n \<Rightarrow> if n \<noteq> tr_toolCallId r then ToolResultMessage (r\<lparr> tr_toolCallId := n \<rparr>) else msg
           | None \<Rightarrow> msg)
      | AssistantMessage a \<Rightarrow>
          (let (ids', blocks) = map_state (transform_block normalizeId model a) ids (am_content a)
           in (ids', AssistantMessage (a\<lparr> am_content := concat blocks \<rparr>)))
      | _ \<Rightarrow> (ids, msg))"

definition first_pass :: "normalizer option \<Rightarrow> target_model \<Rightarrow> agent_message list \<Rightarrow> agent_message list" where
  "first_pass normalizeId model messages = snd (map_state (transform_message normalizeId model) [] (downgradeUnsupportedImages messages model))"

section \<open>Second pass\<close>

record pass_state =
  ps_result :: "agent_message list"
  ps_pendingToolCalls :: "tool_call list"
  ps_existingToolResultIds :: "string set"

definition synthetic_result :: "(tool_call \<Rightarrow> int) \<Rightarrow> tool_call \<Rightarrow> agent_message" where
  "synthetic_result now tc = ToolResultMessage \<lparr> tr_toolCallId = tc_id tc, tr_toolName = tc_name tc,
     tr_content = [TextContent ''No result provided'' None], tr_details = None, tr_usage = None, tr_addedToolNames = None,
     tr_isError = True, tr_timestamp = now tc \<rparr>"

definition insertSyntheticToolResults :: "(tool_call \<Rightarrow> int) \<Rightarrow> pass_state \<Rightarrow> pass_state" where
  "insertSyntheticToolResults now st =
     (if ps_pendingToolCalls st = [] then st
      else \<lparr> ps_result = ps_result st @ map (synthetic_result now) (filter (\<lambda>tc. tc_id tc \<notin> ps_existingToolResultIds st) (ps_pendingToolCalls st)),
        ps_pendingToolCalls = [], ps_existingToolResultIds = {} \<rparr>)"

definition content_calls :: "content_block list \<Rightarrow> tool_call list" where
  "content_calls content = List.map_filter (\<lambda>b. case b of ToolCallContent tc \<Rightarrow> Some tc | _ \<Rightarrow> None) content"

definition pass_message :: "(tool_call \<Rightarrow> int) \<Rightarrow> pass_state \<Rightarrow> agent_message \<Rightarrow> pass_state" where
  "pass_message now st msg =
     (case msg of
        AssistantMessage a \<Rightarrow>
          (let st1 = insertSyntheticToolResults now st in
           if am_stopReason a \<in> {Error, Aborted} then st1
           else let toolCalls = content_calls (am_content a);
                    st2 = (if toolCalls \<noteq> [] then st1\<lparr> ps_pendingToolCalls := toolCalls, ps_existingToolResultIds := {} \<rparr> else st1)
                in st2\<lparr> ps_result := ps_result st2 @ [msg] \<rparr>)
      | ToolResultMessage r \<Rightarrow>
          st\<lparr> ps_existingToolResultIds := insert (tr_toolCallId r) (ps_existingToolResultIds st), ps_result := ps_result st @ [msg] \<rparr>
      | UserMessage u \<Rightarrow>
          (let st1 = insertSyntheticToolResults now st in st1\<lparr> ps_result := ps_result st1 @ [msg] \<rparr>)
      | _ \<Rightarrow> st\<lparr> ps_result := ps_result st @ [msg] \<rparr>)"

definition second_pass :: "(tool_call \<Rightarrow> int) \<Rightarrow> agent_message list \<Rightarrow> agent_message list" where
  "second_pass now transformed =
     ps_result (insertSyntheticToolResults now
       (foldl (pass_message now) \<lparr> ps_result = [], ps_pendingToolCalls = [], ps_existingToolResultIds = {} \<rparr> transformed))"

definition transformMessages :: "(tool_call \<Rightarrow> int) \<Rightarrow> agent_message list \<Rightarrow> target_model \<Rightarrow> normalizer option \<Rightarrow> agent_message list" where
  "transformMessages now messages model normalizeToolCallId = second_pass now (first_pass normalizeToolCallId model messages)"

text \<open>The identifiers that the Anthropic provider accepts (\<^verbatim>\<open>api/anthropic-messages.ts\<close>).\<close>

definition id_char :: "char \<Rightarrow> bool" where
  "id_char c \<longleftrightarrow> id_alnum c \<or> c = CHR ''_'' \<or> c = CHR ''-''"

definition anthropic_normalizeToolCallId :: "string \<Rightarrow> string" where
  "anthropic_normalizeToolCallId i = take 64 (map (\<lambda>c. if id_char c then c else CHR ''_'') i)"

section \<open>Every call has a result\<close>

definition turn_boundary :: "agent_message \<Rightarrow> bool" where
  "turn_boundary m \<longleftrightarrow> message_role m \<in> {RoleUser, RoleAssistant}"

definition dropped :: "agent_message \<Rightarrow> bool" where
  "dropped m = (case m of AssistantMessage a \<Rightarrow> am_stopReason a \<in> {Error, Aborted} | _ \<Rightarrow> False)"

definition calls_of :: "agent_message \<Rightarrow> tool_call list" where
  "calls_of m = (case m of AssistantMessage a \<Rightarrow> content_calls (am_content a) | _ \<Rightarrow> [])"

definition result_ids :: "agent_message list \<Rightarrow> string set" where
  "result_ids ms = {i. \<exists>r. ToolResultMessage r \<in> set ms \<and> i = tr_toolCallId r}"

text \<open>The results after a message: those before the next user or assistant message.\<close>

fun calls_answered :: "agent_message list \<Rightarrow> bool" where
  "calls_answered [] \<longleftrightarrow> True"
| "calls_answered (m # ms) \<longleftrightarrow>
     (\<forall>tc \<in> set (calls_of m). tc_id tc \<in> result_ids (takeWhile (\<lambda>m. \<not> turn_boundary m) ms)) \<and> calls_answered ms"

text \<open>The conversation completed, turn by turn.\<close>

function completed :: "(tool_call \<Rightarrow> int) \<Rightarrow> agent_message list \<Rightarrow> agent_message list" where
  "completed now [] = []"
| "completed now (m # ms) =
     (let others = takeWhile (\<lambda>m. \<not> turn_boundary m) ms in
      if dropped m then others @ completed now (dropWhile (\<lambda>m. \<not> turn_boundary m) ms)
      else m # others @ map (synthetic_result now) (filter (\<lambda>tc. tc_id tc \<notin> result_ids others) (calls_of m)) @
        completed now (dropWhile (\<lambda>m. \<not> turn_boundary m) ms))"
  by pat_completeness auto
termination by (relation "measure (length \<circ> snd)") (auto simp: le_imp_less_Suc length_dropWhile_le)

lemma result_ids_simps [simp]: "result_ids [] = {}" "result_ids (m # ms) = (case m of ToolResultMessage r \<Rightarrow> {tr_toolCallId r} | _ \<Rightarrow> {}) \<union> result_ids ms"
  "result_ids (ms @ ns) = result_ids ms \<union> result_ids ns"
  by (auto simp: result_ids_def split: agent_message.split)

lemma synthetic_role [simp]: "\<not> turn_boundary (synthetic_result now tc)" "calls_of (synthetic_result now tc) = []" "\<not> dropped (synthetic_result now tc)"
  by (simp_all add: turn_boundary_def synthetic_result_def calls_of_def dropped_def)

lemma synthetic_ids [simp]: "result_ids (map (synthetic_result now) tcs) = tc_id ` set tcs"
  by (induction tcs) (auto simp: synthetic_result_def)

lemma no_calls: "\<not> turn_boundary m \<Longrightarrow> calls_of m = [] \<and> \<not> dropped m"
  by (cases m) (simp_all add: turn_boundary_def calls_of_def dropped_def)

lemma completed_others: "completed now ms = takeWhile (\<lambda>m. \<not> turn_boundary m) ms @ completed now (dropWhile (\<lambda>m. \<not> turn_boundary m) ms)"
proof (induction ms)
  case (Cons m ms)
  then show ?case using no_calls [of m] by (simp add: Let_def)
qed simp

text \<open>The code's single loop completes the conversation turn by turn.\<close>

lemma flush_fields [simp]:
  "ps_result (insertSyntheticToolResults now st) =
     ps_result st @ map (synthetic_result now) (filter (\<lambda>tc. tc_id tc \<notin> ps_existingToolResultIds st) (ps_pendingToolCalls st))"
  "ps_pendingToolCalls (insertSyntheticToolResults now st) = []"
  by (simp_all add: insertSyntheticToolResults_def)

lemma turn_boundary_simps [simp]: "turn_boundary (UserMessage u)" "turn_boundary (AssistantMessage a)" "\<not> turn_boundary (ToolResultMessage r)"
  "\<not> turn_boundary (BashExecutionMessage b)" "\<not> turn_boundary (CustomMessage c)" "\<not> turn_boundary (BranchSummaryMessage bs)" "\<not> turn_boundary (CompactionSummaryMessage cs)"
  by (simp_all add: turn_boundary_def)

lemma pass_completes:
  "ps_result (insertSyntheticToolResults now (foldl (pass_message now) st ms)) =
     ps_result st @ takeWhile (\<lambda>m. \<not> turn_boundary m) ms @
     map (synthetic_result now) (filter (\<lambda>tc. tc_id tc \<notin> ps_existingToolResultIds st \<union> result_ids (takeWhile (\<lambda>m. \<not> turn_boundary m) ms)) (ps_pendingToolCalls st)) @
     completed now (dropWhile (\<lambda>m. \<not> turn_boundary m) ms)"
proof (induction ms arbitrary: st)
  case Nil
  then show ?case by simp
next
  case (Cons m ms)
  show ?case
  proof (cases m)
    case (UserMessage u)
    then show ?thesis by (simp only: foldl_Cons Cons.IH) (simp add: pass_message_def Let_def dropped_def calls_of_def)
  next
    case (AssistantMessage a)
    then show ?thesis by (simp only: foldl_Cons Cons.IH) (simp add: pass_message_def Let_def dropped_def calls_of_def)
  next
    case (ToolResultMessage r)
    then show ?thesis by (simp only: foldl_Cons Cons.IH) (simp add: pass_message_def)
  qed (simp_all only: foldl_Cons Cons.IH, simp_all add: pass_message_def)
qed

theorem second_pass_completed: "second_pass now ms = completed now ms"
  using pass_completes [of now "\<lparr> ps_result = [], ps_pendingToolCalls = [], ps_existingToolResultIds = {} \<rparr>" ms] completed_others [of now ms]
  by (simp add: second_pass_def)

lemma calls_answered_append: "(\<forall>m \<in> set ms. \<not> turn_boundary m) \<Longrightarrow> calls_answered (ms @ ns) \<longleftrightarrow> calls_answered ns"
  by (induction ms) (simp_all add: no_calls)

lemma takeWhile_others: "(\<forall>m \<in> set ms. \<not> turn_boundary m) \<Longrightarrow> takeWhile (\<lambda>m. \<not> turn_boundary m) (ms @ ns) = ms @ takeWhile (\<lambda>m. \<not> turn_boundary m) ns"
  by (induction ms) simp_all

lemma completed_answered: "calls_answered (completed now ms)"
proof (induction now ms rule: completed.induct)
  case (2 now m ms)
  let ?others = "takeWhile (\<lambda>m. \<not> turn_boundary m) ms"
  let ?made = "map (synthetic_result now) (filter (\<lambda>tc. tc_id tc \<notin> result_ids ?others) (calls_of m))"
  have others: "\<forall>m \<in> set ?others. \<not> turn_boundary m" by (auto dest: set_takeWhileD)
  have made: "\<forall>m \<in> set ?made. \<not> turn_boundary m" by auto
  show ?case
  proof (cases "dropped m")
    case True
    then show ?thesis using 2(1) [OF refl True] calls_answered_append [OF others] by (simp add: Let_def)
  next
    case False
    have "calls_answered (completed now (dropWhile (\<lambda>m. \<not> turn_boundary m) ms))" using 2(2) [OF refl False] .
    then show ?thesis using False calls_answered_append [OF others] calls_answered_append [OF made] takeWhile_others [OF others] takeWhile_others [OF made]
      by (auto simp: Let_def)
  qed
qed simp


lemma completed_none_dropped: "m \<in> set (completed now ms) \<Longrightarrow> \<not> dropped m"
proof (induction now ms rule: completed.induct)
  case (2 now m' ms)
  have "\<not> dropped m" if "m \<in> set (takeWhile (\<lambda>m. \<not> turn_boundary m) ms)" using that no_calls by (auto dest: set_takeWhileD)
  with 2 show ?case by (auto simp: Let_def split: if_splits)
qed simp

text \<open>The calls that a conversation has to answer: those of messages that are sent.\<close>

definition live_calls :: "agent_message \<Rightarrow> tool_call list" where
  "live_calls m = (if dropped m then [] else calls_of m)"

fun turns_complete :: "agent_message list \<Rightarrow> bool" where
  "turns_complete [] \<longleftrightarrow> True"
| "turns_complete (m # ms) \<longleftrightarrow>
     (\<forall>tc \<in> set (live_calls m). tc_id tc \<in> result_ids (takeWhile (\<lambda>m. \<not> turn_boundary m) ms)) \<and> turns_complete ms"

definition call_ids :: "agent_message list \<Rightarrow> string list" where
  "call_ids ms = concat (map (\<lambda>m. map tc_id (calls_of m)) ms)"

lemma call_ids_simps [simp]: "call_ids [] = []" "call_ids (m # ms) = map tc_id (calls_of m) @ call_ids ms"
  by (simp_all add: call_ids_def)

lemma turns_complete_dropWhile: "turns_complete ms \<Longrightarrow> turns_complete (dropWhile P ms)"
  by (induction ms) simp_all

lemma filter_others: "filter (\<lambda>m. \<not> dropped m) (takeWhile (\<lambda>m. \<not> turn_boundary m) ms) = takeWhile (\<lambda>m. \<not> turn_boundary m) ms"
  using no_calls by (auto simp: filter_id_conv dest: set_takeWhileD)

lemma filter_split: "filter P ms = filter P (takeWhile Q ms) @ filter P (dropWhile Q ms)"
  by (metis filter_append takeWhile_dropWhile_id)

lemma completed_complete: "turns_complete ms \<Longrightarrow> completed now ms = filter (\<lambda>m. \<not> dropped m) ms"
proof (induction now ms rule: completed.induct)
  case (2 now m ms)
  let ?rest = "dropWhile (\<lambda>m. \<not> turn_boundary m) ms"
  have rest: "turns_complete ?rest" using 2(3) by (simp add: turns_complete_dropWhile)
  have ms: "filter (\<lambda>m. \<not> dropped m) ms = takeWhile (\<lambda>m. \<not> turn_boundary m) ms @ filter (\<lambda>m. \<not> dropped m) ?rest"
    by (subst filter_split [where Q = "\<lambda>m. \<not> turn_boundary m"]) (simp only: filter_others)
  show ?case
  proof (cases "dropped m")
    case True
    then show ?thesis using 2(1) [OF refl True rest] ms by (simp add: Let_def)
  next
    case False
    then have "filter (\<lambda>tc. tc_id tc \<notin> result_ids (takeWhile (\<lambda>m. \<not> turn_boundary m) ms)) (calls_of m) = []"
      using 2(3) by (simp add: live_calls_def filter_empty_conv)
    then show ?thesis using 2(2) [OF refl False rest] ms False by (simp add: Let_def)
  qed
qed simp

section \<open>Identifiers stay together\<close>

definition lookup_id :: "id_map \<Rightarrow> string \<Rightarrow> string" where
  "lookup_id ids i = (case truthy (map_get ids i) of Some n \<Rightarrow> n | None \<Rightarrow> i)"

definition keeps_nonempty :: "normalizer option \<Rightarrow> target_model \<Rightarrow> bool" where
  "keeps_nonempty nz model \<longleftrightarrow> (\<forall>f i a. nz = Some f \<longrightarrow> i \<noteq> [] \<longrightarrow> f i model a \<noteq> [])"

lemma transform_result: "transform_message nz model ids (ToolResultMessage r) = (ids, ToolResultMessage (r\<lparr> tr_toolCallId := lookup_id ids (tr_toolCallId r) \<rparr>))"
  by (auto simp: transform_message_def lookup_id_def split: option.split)

lemma transform_call_id:
  assumes "keeps_nonempty nz model" and "map_get ids (tc_id tc) = None" and "transform_call nz model a ids tc = (ids', tc')"
  shows "tc_id tc' = lookup_id ids' (tc_id tc)" "i \<noteq> tc_id tc \<Longrightarrow> map_get ids' i = map_get ids i"
proof -
  have "lookup_id (map_set (tc_id tc) n ids) (tc_id tc) = n" if "n \<noteq> tc_id tc" "tc_id tc \<noteq> [] \<longrightarrow> n \<noteq> []" for n
    using that by (auto simp: lookup_id_def truthy_def)
  moreover have "lookup_id ids (tc_id tc) = tc_id tc" using assms(2) by (simp add: lookup_id_def truthy_def)
  ultimately show "tc_id tc' = lookup_id ids' (tc_id tc)"
    using assms(1,3) by (auto simp: transform_call_def Let_def keeps_nonempty_def split: option.splits if_splits)
  show "i \<noteq> tc_id tc \<Longrightarrow> map_get ids' i = map_get ids i"
    using assms(3) by (auto simp: transform_call_def Let_def split: option.splits if_splits)
qed

lemma content_calls_simps [simp]: "content_calls [] = []"
  "content_calls (b # bs) = (case b of ToolCallContent tc \<Rightarrow> [tc] | _ \<Rightarrow> []) @ content_calls bs" "content_calls (bs @ cs) = content_calls bs @ content_calls cs"
  by (simp_all add: content_calls_def map_filter_def split: content_block.split)

lemma no_call_block:
  assumes "\<And>tc. b \<noteq> ToolCallContent tc"
  shows "fst (transform_block nz model a ids b) = ids" "content_calls (snd (transform_block nz model a ids b)) = []"
  using assms by (auto simp: transform_block_def transform_thinking_def split: content_block.split)

lemma transform_blocks_ids:
  assumes "keeps_nonempty nz model" and "map_state (transform_block nz model a) ids bs = (ids', bss)"
    and "distinct (map tc_id (content_calls bs))" and "\<And>tc. tc \<in> set (content_calls bs) \<Longrightarrow> map_get ids (tc_id tc) = None"
  shows "map tc_id (content_calls (concat bss)) = map (lookup_id ids' \<circ> tc_id) (content_calls bs) \<and>
    (\<forall>i. i \<notin> tc_id ` set (content_calls bs) \<longrightarrow> map_get ids' i = map_get ids i)"
  using assms(2,3,4)
proof (induction bs arbitrary: ids bss)
  case (Cons b bs)
  obtain ids1 b' where b': "transform_block nz model a ids b = (ids1, b')" by force
  from Cons.prems(1) b' obtain bss1 where rest: "map_state (transform_block nz model a) ids1 bs = (ids', bss1)" "bss = b' # bss1"
    by (auto simp: Let_def split: prod.splits)
  show ?case
  proof (cases "\<exists>tc. b = ToolCallContent tc")
    case False
    then have "ids1 = ids" "content_calls b' = []" using no_call_block [of b nz model a ids] b' by auto
    moreover have "content_calls (b # bs) = content_calls bs" using False by (auto split: content_block.split)
    ultimately show ?thesis using Cons.IH [OF rest(1)] Cons.prems(2,3) rest(2) by (simp del: content_calls_simps(2))
  next
    case True
    then obtain tc where b: "b = ToolCallContent tc" by blast
    with b' obtain tc' where call: "transform_call nz model a ids tc = (ids1, tc')" "b' = [ToolCallContent tc']"
      by (auto simp: transform_block_def split: prod.splits)
    note tc = transform_call_id [OF assms(1) _ call(1)]
    have new: "tc_id tc \<notin> tc_id ` set (content_calls bs)" "distinct (map tc_id (content_calls bs))" using Cons.prems(2) b by auto
    have "map_get ids1 (tc_id t) = None" if "t \<in> set (content_calls bs)" for t
    proof -
      have "tc_id t \<noteq> tc_id tc" using that new(1) by (metis imageI)
      then show ?thesis using tc(2) Cons.prems(3) that b by simp
    qed
    note IH = Cons.IH [OF rest(1) new(2) this]
    have same: "map_get ids' (tc_id tc) = map_get ids1 (tc_id tc)" using IH new(1) by blast
    have "tc_id tc' = lookup_id ids' (tc_id tc)" using tc(1) Cons.prems(3) [of tc] b same by (simp add: lookup_id_def)
    moreover have "map_get ids' i = map_get ids i" if "i \<noteq> tc_id tc" "i \<notin> tc_id ` set (content_calls bs)" for i
      using IH that tc(2) Cons.prems(3) [of tc] b by simp
    ultimately show ?thesis using IH rest(2) call(2) b by auto
  qed
qed simp

lemma transform_simps: "transform_message nz model ids (UserMessage u) = (ids, UserMessage u)"
  "transform_message nz model ids (BashExecutionMessage be) = (ids, BashExecutionMessage be)"
  "transform_message nz model ids (CustomMessage c) = (ids, CustomMessage c)"
  "transform_message nz model ids (BranchSummaryMessage bs) = (ids, BranchSummaryMessage bs)"
  "transform_message nz model ids (CompactionSummaryMessage cs) = (ids, CompactionSummaryMessage cs)"
  "transform_message nz model ids (AssistantMessage a) = (let (ids', blocks) = map_state (transform_block nz model a) ids (am_content a)
     in (ids', AssistantMessage (a\<lparr> am_content := concat blocks \<rparr>)))"
  by (simp_all add: transform_message_def)

lemma transform_frame:
  assumes "transform_message nz model ids m = (ids', m')"
  shows "turn_boundary m' \<longleftrightarrow> turn_boundary m" "dropped m' \<longleftrightarrow> dropped m" "\<not> turn_boundary m \<Longrightarrow> ids' = ids"
    "\<not> turn_boundary m \<Longrightarrow> result_ids [m'] = lookup_id ids ` result_ids [m]"
  using assms by (cases m; auto simp: transform_result transform_simps dropped_def split: prod.splits)+

lemma transform_calls:
  assumes "keeps_nonempty nz model" and "transform_message nz model ids m = (ids', m')" and "distinct (map tc_id (calls_of m))"
    and "\<And>i. i \<in> tc_id ` set (calls_of m) \<Longrightarrow> map_get ids i = None"
  shows "map tc_id (calls_of m') = map (lookup_id ids' \<circ> tc_id) (calls_of m)" "i \<notin> tc_id ` set (calls_of m) \<Longrightarrow> map_get ids' i = map_get ids i"
proof -
  have "map tc_id (calls_of m') = map (lookup_id ids' \<circ> tc_id) (calls_of m) \<and> (i \<notin> tc_id ` set (calls_of m) \<longrightarrow> map_get ids' i = map_get ids i)"
  proof (cases m)
    case (AssistantMessage a)
    obtain ids1 bss where bss: "map_state (transform_block nz model a) ids (am_content a) = (ids1, bss)" by force
    from bss assms(2) AssistantMessage have "ids' = ids1" "m' = AssistantMessage (a\<lparr> am_content := concat bss \<rparr>)"
      by (simp_all add: transform_message_def)
    then show ?thesis using transform_blocks_ids [OF assms(1) bss] assms(3,4) AssistantMessage by (simp add: calls_of_def)
  qed (use assms(2) in \<open>auto simp: transform_message_def calls_of_def split: option.splits if_splits\<close>)
  then show "map tc_id (calls_of m') = map (lookup_id ids' \<circ> tc_id) (calls_of m)" "i \<notin> tc_id ` set (calls_of m) \<Longrightarrow> map_get ids' i = map_get ids i"
    by blast+
qed

lemma transform_others:
  assumes "map_state (transform_message nz model) ids ms = (ids', ms')"
  shows "result_ids (takeWhile (\<lambda>m. \<not> turn_boundary m) ms') = lookup_id ids ` result_ids (takeWhile (\<lambda>m. \<not> turn_boundary m) ms)"
  using assms
proof (induction ms arbitrary: ids ms')
  case (Cons m ms)
  obtain ids1 m1 where m1: "transform_message nz model ids m = (ids1, m1)" by force
  with Cons.prems obtain ms1 where rest: "map_state (transform_message nz model) ids1 ms = (ids', ms1)" "ms' = m1 # ms1"
    by (auto simp: Let_def split: prod.splits)
  show ?case
  proof (cases "turn_boundary m")
    case True
    then show ?thesis using transform_frame(1) [OF m1] rest(2) by simp
  next
    case False
    with transform_frame [OF m1] have "\<not> turn_boundary m1" "ids1 = ids" "result_ids [m1] = lookup_id ids ` result_ids [m]" by simp_all
    with Cons.IH [OF rest(1)] rest(2) False show ?thesis by (simp add: image_Un)
  qed
qed simp

lemma transform_keeps_turns:
  assumes "keeps_nonempty nz model" and "map_state (transform_message nz model) ids ms = (ids', ms')" and "distinct (call_ids ms)"
    and "\<And>i. i \<in> set (call_ids ms) \<Longrightarrow> map_get ids i = None" and "turns_complete ms"
  shows "turns_complete ms'"
  using assms(2-5)
proof (induction ms arbitrary: ids ms')
  case (Cons m ms)
  obtain ids1 m1 where m1: "transform_message nz model ids m = (ids1, m1)" by force
  with Cons.prems obtain ms1 where rest: "map_state (transform_message nz model) ids1 ms = (ids', ms1)" "ms' = m1 # ms1"
    by (auto simp: Let_def split: prod.splits)
  have ids: "distinct (map tc_id (calls_of m))" "distinct (call_ids ms)" "tc_id ` set (calls_of m) \<inter> set (call_ids ms) = {}"
    using Cons.prems(2) by auto
  have none: "map_get ids i = None" if "i \<in> tc_id ` set (calls_of m)" for i using Cons.prems(3) that by simp
  note calls = transform_calls [OF assms(1) m1 ids(1) none]
  have "map_get ids1 i = None" if "i \<in> set (call_ids ms)" for i
    using calls(2) [of i] Cons.prems(3) [of i] ids(3) that by auto
  then have "turns_complete ms1" using Cons.IH [OF rest(1) ids(2)] Cons.prems(4) by simp
  moreover have "tc_id t \<in> result_ids (takeWhile (\<lambda>m. \<not> turn_boundary m) ms1)" if "t \<in> set (live_calls m1)" for t
  proof -
    have t: "tc_id t \<in> set (map tc_id (calls_of m1))" "\<not> dropped m" using that transform_frame(2) [OF m1] by (auto simp: live_calls_def split: if_splits)
    have "tc_id t \<in> set (map (lookup_id ids1 \<circ> tc_id) (calls_of m))" using t(1) by (simp only: calls(1))
    then obtain tc where "tc \<in> set (calls_of m)" "tc_id t = lookup_id ids1 (tc_id tc)" by auto
    moreover from this Cons.prems(4) t(2) have "tc_id tc \<in> result_ids (takeWhile (\<lambda>m. \<not> turn_boundary m) ms)" by (simp add: live_calls_def)
    ultimately show ?thesis unfolding transform_others [OF rest(1)] by blast
  qed
  ultimately show ?case using rest(2) by simp
qed simp

lemma downgrade_frame: "calls_of (downgrade_message m) = calls_of m" "turn_boundary (downgrade_message m) = turn_boundary m"
  "dropped (downgrade_message m) = dropped m" "result_ids (downgrade_message m # ms) = result_ids (m # ms)"
  by (auto simp: downgrade_message_def calls_of_def dropped_def split: agent_message.split message_content.split)

lemma downgrade_ids: "call_ids (map downgrade_message ms) = call_ids ms"
  by (induction ms) (simp_all add: downgrade_frame)

lemma downgrade_results:
  "result_ids (takeWhile (\<lambda>m. \<not> turn_boundary m) (map downgrade_message ms)) = result_ids (takeWhile (\<lambda>m. \<not> turn_boundary m) ms)"
proof (induction ms)
  case (Cons m ms)
  have "result_ids [downgrade_message m] = result_ids [m]" by (rule downgrade_frame(4))
  then have "result_ids (downgrade_message m # xs) = result_ids [m] \<union> result_ids xs" for xs
    using result_ids_simps(3) [of "[downgrade_message m]" xs] by simp
  then have "result_ids (downgrade_message m # xs) = result_ids (m # ys)" if "result_ids xs = result_ids ys" for xs ys
    using that by simp
  then show ?case using Cons by (cases "turn_boundary m") (simp_all only: list.map takeWhile.simps downgrade_frame(2) if_False if_True not_True_eq_False not_False_eq_True)
qed simp

lemma downgrade_turns: "turns_complete (map downgrade_message ms) = turns_complete ms"
  by (induction ms) (simp_all add: downgrade_frame live_calls_def downgrade_results)

section \<open>What a provider receives\<close>

text \<open>C12. Whatever the conversation, in what a provider sends every tool call is followed, before the next user or assistant message, by a
  result with its identifier, and no assistant message that ended in an error or was aborted is sent.\<close>

theorem transformed_calls_answered:
  "calls_answered (transformMessages now messages model normalizeId) \<and> list_all (\<lambda>m. \<not> dropped m) (transformMessages now messages model normalizeId)"
  using completed_answered completed_none_dropped by (auto simp: transformMessages_def second_pass_completed list_all_iff)

text \<open>C18. In a conversation where every call that is sent has its result in its turn and no two calls share an identifier, no result is made
  up, whatever the identifiers are normalised to: calls and results are renamed together, and what is sent is the transformed
  conversation less the failed messages.\<close>

theorem complete_conversation_kept:
  assumes "turns_complete messages" and "distinct (call_ids messages)" and "keeps_nonempty normalizeId model"
  shows "transformMessages now messages model normalizeId = filter (\<lambda>m. \<not> dropped m) (first_pass normalizeId model messages)"
proof -
  let ?ms = "downgradeUnsupportedImages messages model"
  have ms: "turns_complete ?ms" "call_ids ?ms = call_ids messages"
    using assms(1) by (simp_all add: downgradeUnsupportedImages_def downgrade_turns downgrade_ids)
  obtain ids' ms' where ms': "map_state (transform_message normalizeId model) [] ?ms = (ids', ms')" by force
  from transform_keeps_turns [OF assms(3) ms'] ms assms(2) have "turns_complete ms'" by simp
  then show ?thesis using completed_complete ms' by (simp add: transformMessages_def second_pass_completed first_pass_def)
qed

definition sample_turn :: "agent_message list" where
  "sample_turn = [UserMessage \<lparr> um_content = StringContent ''q'', um_timestamp = 0 \<rparr>,
     AssistantMessage \<lparr> am_content = [ToolCallContent \<lparr> tc_id = ''call|1'', tc_name = ''read'', tc_arguments = JsonObject [],
         tc_thoughtSignature = Some ''s'', tc_namespace = None \<rparr>],
       am_api = ''a'', am_provider = ''p'', am_model = ''m'', am_responseModel = None, am_responseId = None, am_diagnostics = None,
       am_usage = \<lparr> u_input = 0, u_output = 0, u_cacheRead = 0, u_cacheWrite = 0, u_cacheWrite1h = None, u_reasoning = None, u_totalTokens = 0,
         u_cost = \<lparr> cost_input = 0, cost_output = 0, cost_cacheRead = 0, cost_cacheWrite = 0, cost_total = 0 \<rparr> \<rparr>,
       am_stopReason = ToolUse, am_deferred = None, am_errorMessage = None, am_rawStopReason = None, am_endTurn = None, am_timestamp = 1 \<rparr>,
     ToolResultMessage \<lparr> tr_toolCallId = ''call|1'', tr_toolName = ''read'', tr_content = [], tr_details = None, tr_usage = None,
       tr_addedToolNames = None, tr_isError = False, tr_timestamp = 2 \<rparr>]"

definition sample_other_model :: target_model where
  "sample_other_model = \<lparr> tg_provider = ''anthropic'', tg_api = ''anthropic-messages'', tg_id = ''c'', tg_input = [''text''] \<rparr>"

definition anthropic_normalizer :: "normalizer option" where
  "anthropic_normalizer = Some (\<lambda>i model a. anthropic_normalizeToolCallId i)"

theorem complete_conversation_kept_witness:
  "transformMessages (\<lambda>_. 0) sample_turn sample_other_model anthropic_normalizer =
     filter (\<lambda>m. \<not> dropped m) (first_pass anthropic_normalizer sample_other_model sample_turn) \<and>
   call_ids (first_pass anthropic_normalizer sample_other_model sample_turn) = [''call_1'']"
proof (rule conjI, rule complete_conversation_kept)
  show "turns_complete sample_turn" by (simp add: sample_turn_def live_calls_def calls_of_def dropped_def)
  show "distinct (call_ids sample_turn)" by (simp add: sample_turn_def calls_of_def)
  show "keeps_nonempty anthropic_normalizer sample_other_model"
    by (auto simp: keeps_nonempty_def anthropic_normalizer_def anthropic_normalizeToolCallId_def)
  show "call_ids (first_pass anthropic_normalizer sample_other_model sample_turn) = [''call_1'']"
    by (simp add: first_pass_def downgradeUnsupportedImages_def sample_turn_def sample_other_model_def downgrade_message_def transform_message_def
      transform_block_def transform_call_def isSameModel_def anthropic_normalizer_def anthropic_normalizeToolCallId_def id_char_def id_alnum_def
      truthy_def calls_of_def replaceImagesWithPlaceholder_def Let_def)
qed

section \<open>Nothing foreign\<close>

lemma map_state_member: "y \<in> set (snd (map_state f s xs)) \<Longrightarrow> \<exists>s' x. x \<in> set xs \<and> y = snd (f s' x)"
proof (induction xs arbitrary: s)
  case (Cons x xs)
  then have "y = snd (f s x) \<or> y \<in> set (snd (map_state f (fst (f s x)) xs))" by (simp add: Let_def split_beta)
  with Cons.IH [of "fst (f s x)"] show ?case by (auto intro: exI [of _ s])
qed simp

lemma completed_member: "m \<in> set (completed now ms) \<Longrightarrow> m \<in> set ms \<or> (\<exists>tc. m = synthetic_result now tc)"
  by (induction now ms rule: completed.induct) (auto simp: Let_def dest!: set_takeWhileD set_dropWhileD split: if_splits)

lemma transformed_cases:
  assumes "m \<in> set (transformMessages now messages model nz)"
  obtains s x where "x \<in> set (downgradeUnsupportedImages messages model)" "m = snd (transform_message nz model s x)"
  | tc where "m = synthetic_result now tc"
proof -
  from assms have "m \<in> set (completed now (first_pass nz model messages))" by (simp add: transformMessages_def second_pass_completed)
  then consider "m \<in> set (first_pass nz model messages)" | tc where "m = synthetic_result now tc" using completed_member [of m now] by blast
  then show thesis
  proof cases
    case 1
    then show ?thesis using map_state_member [of m "transform_message nz model" "[]"] that(1) unfolding first_pass_def by blast
  qed (rule that(2))
qed

definition plain_block :: "content_block \<Rightarrow> bool" where
  "plain_block b = (case b of TextContent t sig \<Rightarrow> sig = None | ThinkingContent t sig r \<Rightarrow> False
     | ToolCallContent tc \<Rightarrow> truthy (tc_thoughtSignature tc) = None | ImageContent d m \<Rightarrow> True)"

definition plain_unless_same :: "target_model \<Rightarrow> agent_message \<Rightarrow> bool" where
  "plain_unless_same model m = (case m of AssistantMessage a \<Rightarrow> isSameModel model a \<or> list_all plain_block (am_content a) | _ \<Rightarrow> True)"

lemma foreign_block: "\<not> isSameModel model a \<Longrightarrow> list_all plain_block (snd (transform_block nz model a ids b))"
  by (auto simp: transform_block_def transform_thinking_def transform_call_def plain_block_def Let_def truthy_def
    split: content_block.split option.split prod.splits if_splits)

lemma foreign_message: "plain_unless_same model (snd (transform_message nz model ids m))"
proof (cases m)
  case (AssistantMessage a)
  obtain ids' blocks where blocks: "map_state (transform_block nz model a) ids (am_content a) = (ids', blocks)" by force
  have "list_all plain_block b" if "b \<in> set blocks" "\<not> isSameModel model a" for b
  proof -
    from that(1) blocks map_state_member [of b "transform_block nz model a" ids "am_content a"] obtain s x where "b = snd (transform_block nz model a s x)" by auto
    then show ?thesis using foreign_block [OF that(2)] by simp
  qed
  then show ?thesis using AssistantMessage blocks
    by (auto simp: transform_simps plain_unless_same_def list_all_iff isSameModel_def)
qed (simp_all add: transform_simps transform_result plain_unless_same_def)

text \<open>An assistant message of another model is sent without thinking, redacted content and signatures.\<close>

theorem foreign_blocks_plain: "list_all (plain_unless_same model) (transformMessages now messages model normalizeId)"
  unfolding list_all_iff
proof
  fix m
  assume "m \<in> set (transformMessages now messages model normalizeId)"
  then show "plain_unless_same model m"
    by (cases rule: transformed_cases) (simp add: foreign_message, simp add: synthetic_result_def plain_unless_same_def)
qed

definition is_image :: "content_block \<Rightarrow> bool" where
  "is_image b = (case b of ImageContent d m \<Rightarrow> True | _ \<Rightarrow> False)"

definition without_images :: "agent_message \<Rightarrow> bool" where
  "without_images m = (case m of
     UserMessage u \<Rightarrow> (case um_content u of BlockContent bs \<Rightarrow> list_all (\<lambda>b. \<not> is_image b) bs | StringContent s \<Rightarrow> True)
   | ToolResultMessage r \<Rightarrow> list_all (\<lambda>b. \<not> is_image b) (tr_content r) | _ \<Rightarrow> True)"

lemma replaced_images: "list_all (\<lambda>b. \<not> is_image b) (replace_images placeholder prev bs)"
  by (induction placeholder prev bs rule: replace_images.induct) (auto simp: is_image_def)

lemma text_kept: "filter (\<lambda>b. \<not> is_image b \<and> block_text b \<noteq> Some placeholder) (replace_images placeholder prev bs) =
    filter (\<lambda>b. \<not> is_image b \<and> block_text b \<noteq> Some placeholder) bs"
  by (induction placeholder prev bs rule: replace_images.induct) (auto simp: is_image_def block_text_def)

lemma downgraded: "without_images (downgrade_message m)"
  by (auto simp: without_images_def downgrade_message_def replaceImagesWithPlaceholder_def replaced_images split: agent_message.split message_content.split)

lemma transform_images: "without_images m \<Longrightarrow> without_images (snd (transform_message nz model ids m))"
  by (cases m) (auto simp: transform_simps transform_result without_images_def split: prod.splits)

text \<open>A model without vision is sent no image of a user or of a tool.\<close>

theorem no_images_sent:
  assumes "''image'' \<notin> set (tg_input model)"
  shows "list_all without_images (transformMessages now messages model normalizeId)"
  unfolding list_all_iff
proof
  fix m
  assume "m \<in> set (transformMessages now messages model normalizeId)"
  then show "without_images m"
  proof (cases rule: transformed_cases)
    case (1 s x)
    then have "without_images x" using downgraded assms by (auto simp: downgradeUnsupportedImages_def)
    then show ?thesis using 1(2) transform_images by simp
  qed (simp add: synthetic_result_def without_images_def is_image_def)
qed

section \<open>The same model\<close>

text \<open>Blocks that the code leaves out even for the same model: thinking that is blank and has no signature.\<close>

definition blank_thinking :: "content_block \<Rightarrow> bool" where
  "blank_thinking b = (case b of ThinkingContent t sig redacted \<Rightarrow> redacted \<noteq> Some True \<and> truthy sig = None \<and> trim t = [] | _ \<Rightarrow> False)"

definition replayable :: "target_model \<Rightarrow> agent_message \<Rightarrow> bool" where
  "replayable model m = (case m of AssistantMessage a \<Rightarrow> isSameModel model a \<and> list_all (\<lambda>b. \<not> blank_thinking b) (am_content a) | _ \<Rightarrow> True)"

lemma same_block: "isSameModel model a \<Longrightarrow> \<not> blank_thinking b \<Longrightarrow> transform_block nz model a ids b = (ids, [b])"
  by (auto simp: transform_block_def transform_thinking_def transform_call_def blank_thinking_def Let_def split: content_block.split option.split)

lemma same_blocks: "isSameModel model a \<Longrightarrow> list_all (\<lambda>b. \<not> blank_thinking b) bs \<Longrightarrow>
    map_state (transform_block nz model a) ids bs = (ids, map (\<lambda>b. [b]) bs)"
  by (induction bs) (simp_all add: same_block)

lemma same_message: "replayable model m \<Longrightarrow> transform_message nz model [] m = ([], m)"
  by (cases m) (simp_all add: transform_simps transform_result replayable_def same_blocks lookup_id_def truthy_def)

lemma same_messages: "list_all (replayable model) ms \<Longrightarrow> map_state (transform_message nz model) [] ms = ([], ms)"
  by (induction ms) (simp_all add: same_message)

text \<open>A complete conversation of one model with vision is sent to it as it stands, signatures and identifiers included, less what failed.\<close>

theorem same_model_replayed:
  assumes "turns_complete messages" and "list_all (replayable model) messages" and "''image'' \<in> set (tg_input model)"
  shows "transformMessages now messages model normalizeId = filter (\<lambda>m. \<not> dropped m) messages"
  using completed_complete [OF assms(1)] same_messages [OF assms(2)] assms(3)
  by (simp add: transformMessages_def second_pass_completed first_pass_def downgradeUnsupportedImages_def)

section \<open>Identifiers of the Anthropic provider\<close>

theorem anthropic_id_valid:
  "length (anthropic_normalizeToolCallId i) \<le> 64 \<and> list_all id_char (anthropic_normalizeToolCallId i) \<and>
   anthropic_normalizeToolCallId (anthropic_normalizeToolCallId i) = anthropic_normalizeToolCallId i"
proof -
  have c: "id_char (if id_char c then c else CHR ''_'')" for c by (simp add: id_char_def)
  then have all: "list_all id_char (anthropic_normalizeToolCallId i)"
    unfolding anthropic_normalizeToolCallId_def list_all_iff by (metis (no_types, lifting) in_set_takeD list.set_map imageE)
  then have "map (\<lambda>c. if id_char c then c else CHR ''_'') (anthropic_normalizeToolCallId i) = anthropic_normalizeToolCallId i"
    by (auto simp: list_all_iff intro!: map_idI)
  then show ?thesis using all by (simp add: anthropic_normalizeToolCallId_def [of "anthropic_normalizeToolCallId i"]) (simp add: anthropic_normalizeToolCallId_def)
qed

end
