(* ===== verification/Event_Stream.thy ===== *)
theory Event_Stream
  imports Motto_Prelude
begin

text \<open>
  \<^verbatim>\<open>packages/ai/src/utils/event-stream.ts\<close>: the stream between a provider and its consumers. A consumer that asks for the next event
  gets one from the queue, or the end, or waits. An answer is the consumer with the event, or with nothing at the end.
\<close>

section \<open>The stream\<close>

type_synonym consumer = nat
type_synonym 'e answer = "consumer \<times> 'e option"

record ('e, 'r) event_stream =
  es_queue :: "'e list"
  es_waiting :: "consumer list"
  es_done :: bool
  es_finalResult :: "'r option"

definition new_stream :: "('e, 'r) event_stream" where
  "new_stream = \<lparr> es_queue = [], es_waiting = [], es_done = False, es_finalResult = None \<rparr>"

text \<open>A promise is resolved once.\<close>

definition resolveFinalResult :: "'r \<Rightarrow> ('e, 'r) event_stream \<Rightarrow> ('e, 'r) event_stream" where
  "resolveFinalResult r st = (case es_finalResult st of None \<Rightarrow> st\<lparr> es_finalResult := Some r \<rparr> | Some _ \<Rightarrow> st)"

definition push :: "('e \<Rightarrow> bool) \<Rightarrow> ('e \<Rightarrow> 'r) \<Rightarrow> 'e \<Rightarrow> ('e, 'r) event_stream \<Rightarrow> ('e, 'r) event_stream \<times> 'e answer list" where
  "push isComplete extractResult event st =
     (if es_done st then (st, [])
      else let st1 = (if isComplete event then resolveFinalResult (extractResult event) (st\<lparr> es_done := True \<rparr>) else st)
           in case es_waiting st1 of
                waiter # rest \<Rightarrow> (st1\<lparr> es_waiting := rest \<rparr>, [(waiter, Some event)])
              | [] \<Rightarrow> (st1\<lparr> es_queue := es_queue st1 @ [event] \<rparr>, []))"

definition end_stream :: "'r option \<Rightarrow> ('e, 'r) event_stream \<Rightarrow> ('e, 'r) event_stream \<times> 'e answer list" where
  "end_stream result st =
     (let st1 = st\<lparr> es_done := True \<rparr>;
          st2 = (case result of Some r \<Rightarrow> resolveFinalResult r st1 | None \<Rightarrow> st1)
      in (st2\<lparr> es_waiting := [] \<rparr>, map (\<lambda>waiter. (waiter, None)) (es_waiting st2)))"

definition next_event :: "consumer \<Rightarrow> ('e, 'r) event_stream \<Rightarrow> ('e, 'r) event_stream \<times> 'e answer list" where
  "next_event c st =
     (case es_queue st of
        event # rest \<Rightarrow> (st\<lparr> es_queue := rest \<rparr>, [(c, Some event)])
      | [] \<Rightarrow> if es_done st then (st, [(c, None)]) else (st\<lparr> es_waiting := es_waiting st @ [c] \<rparr>, []))"

section \<open>Runs\<close>

text \<open>What has happened: the events that were pushed before the stream was done, and all answers, in order.\<close>

record ('e, 'r) stream_run =
  sr_stream :: "('e, 'r) event_stream"
  sr_accepted :: "'e list"
  sr_answers :: "'e answer list"

definition answered_events :: "'e answer list \<Rightarrow> 'e list" where
  "answered_events as = List.map_filter snd as"

text \<open>Consumers may ask while others wait (\<open>shared\<close>), or there is one, which asks again only when it has its answer.\<close>

inductive stream_reachable :: "bool \<Rightarrow> ('e \<Rightarrow> bool) \<Rightarrow> ('e \<Rightarrow> 'r) \<Rightarrow> ('e, 'r) stream_run \<Rightarrow> bool"
  for shared :: bool and isComplete :: "'e \<Rightarrow> bool" and extractResult :: "'e \<Rightarrow> 'r" where
  created: "stream_reachable shared isComplete extractResult \<lparr> sr_stream = new_stream, sr_accepted = [], sr_answers = [] \<rparr>"
| pushed: "stream_reachable shared isComplete extractResult s \<Longrightarrow> push isComplete extractResult event (sr_stream s) = (st, as) \<Longrightarrow>
    stream_reachable shared isComplete extractResult
      \<lparr> sr_stream = st, sr_accepted = sr_accepted s @ (if es_done (sr_stream s) then [] else [event]), sr_answers = sr_answers s @ as \<rparr>"
| ended: "stream_reachable shared isComplete extractResult s \<Longrightarrow> end_stream result (sr_stream s) = (st, as) \<Longrightarrow>
    stream_reachable shared isComplete extractResult (s\<lparr> sr_stream := st, sr_answers := sr_answers s @ as \<rparr>)"
| asked: "stream_reachable shared isComplete extractResult s \<Longrightarrow> shared \<or> es_waiting (sr_stream s) = [] \<Longrightarrow>
    next_event c (sr_stream s) = (st, as) \<Longrightarrow>
    stream_reachable shared isComplete extractResult (s\<lparr> sr_stream := st, sr_answers := sr_answers s @ as \<rparr>)"

lemma answered_simps [simp]: "answered_events [] = []" "answered_events (as @ bs) = answered_events as @ answered_events bs"
  "answered_events [(c, Some e)] = [e]" "answered_events [(c, None)] = []" "answered_events (map (\<lambda>w. (w, None)) ws) = []"
  by (simp_all add: answered_events_def map_filter_def)

lemma resolve_fields [simp]: "es_queue (resolveFinalResult r st) = es_queue st" "es_waiting (resolveFinalResult r st) = es_waiting st"
  "es_done (resolveFinalResult r st) = es_done st"
  by (simp_all add: resolveFinalResult_def split: option.split)

lemma waits_on_empty_queue:
  assumes "stream_reachable shared isComplete extractResult s"
  shows "es_waiting (sr_stream s) \<noteq> [] \<Longrightarrow> es_queue (sr_stream s) = []"
  using assms
proof induction
  case (pushed s event st as)
  then show ?case by (cases "es_waiting (sr_stream s)") (auto simp: push_def Let_def split: if_splits)
next
  case (asked s c st as)
  then show ?case by (cases "es_queue (sr_stream s)") (auto simp: next_event_def split: if_splits)
qed (auto simp: new_stream_def end_stream_def Let_def split: option.splits)

lemma final_event:
  assumes "stream_reachable shared isComplete extractResult s"
  shows "(\<not> es_done (sr_stream s) \<longrightarrow> es_finalResult (sr_stream s) = None \<and> (\<forall>e \<in> set (sr_accepted s). \<not> isComplete e)) \<and>
    (\<forall>e \<in> set (butlast (sr_accepted s)). \<not> isComplete e) \<and>
    (\<forall>e \<in> set (sr_accepted s). isComplete e \<longrightarrow> es_finalResult (sr_stream s) = Some (extractResult e))"
  using assms
proof induction
  case (pushed s event st as)
  then show ?case
    by (cases "es_waiting (sr_stream s)") (auto simp: push_def Let_def butlast_append resolveFinalResult_def split: if_splits dest: in_set_butlastD)
next
  case (ended s result st as)
  then show ?case by (auto simp: end_stream_def Let_def resolveFinalResult_def split: option.splits)
next
  case (asked s c st as)
  then show ?case by (cases "es_queue (sr_stream s)") (auto simp: next_event_def split: if_splits)
qed (simp add: new_stream_def)

text \<open>C19. Events reach the consumers in the order in which they were pushed, each once: what has been answered, followed by what is in the
  queue, is what was accepted. A final event is the last that is accepted, and it gives the result of the stream.\<close>

theorem events_in_order:
  assumes "stream_reachable shared isComplete extractResult s"
  shows "answered_events (sr_answers s) @ es_queue (sr_stream s) = sr_accepted s \<and>
    (\<forall>e \<in> set (butlast (sr_accepted s)). \<not> isComplete e) \<and>
    (\<forall>e \<in> set (sr_accepted s). isComplete e \<longrightarrow> es_finalResult (sr_stream s) = Some (extractResult e))"
proof -
  have "answered_events (sr_answers s) @ es_queue (sr_stream s) = sr_accepted s"
    using assms
  proof induction
    case (pushed s event st as)
    then show ?case using waits_on_empty_queue [OF pushed.hyps(1)]
      by (cases "es_waiting (sr_stream s)") (auto simp: push_def Let_def split: if_splits)
  next
    case (asked s c st as)
    then show ?case by (cases "es_queue (sr_stream s)") (auto simp: next_event_def split: if_splits)
  qed (auto simp: new_stream_def end_stream_def Let_def split: option.splits)
  with final_event [OF assms] show ?thesis by blast
qed

text \<open>A single consumer is never left waiting once the stream is done, and gets the rest of the queue and then the end.\<close>

lemma consumer_not_stranded:
  assumes "stream_reachable False isComplete extractResult s"
  shows "(es_done (sr_stream s) \<longrightarrow> es_waiting (sr_stream s) = []) \<and> length (es_waiting (sr_stream s)) \<le> 1"
  using assms
proof induction
  case (pushed s event st as)
  then show ?case by (cases "es_waiting (sr_stream s)") (auto simp: push_def Let_def split: if_splits)
next
  case (asked s c st as)
  then show ?case by (cases "es_queue (sr_stream s)") (auto simp: next_event_def split: if_splits)
qed (auto simp: new_stream_def end_stream_def Let_def split: option.splits)

primrec asks :: "consumer \<Rightarrow> nat \<Rightarrow> ('e, 'r) event_stream \<Rightarrow> 'e answer list" where
  "asks c 0 st = []"
| "asks c (Suc n) st = (let (st', as) = next_event c st in as @ asks c n st')"

theorem done_stream_drained:
  "es_done st \<Longrightarrow> asks c (Suc (length (es_queue st))) st = map (\<lambda>e. (c, Some e)) (es_queue st) @ [(c, None)]"
proof (induction "es_queue st" arbitrary: st)
  case Nil
  then show ?case by (simp add: next_event_def flip: Nil.hyps)
next
  case (Cons e q)
  have "next_event c st = (st\<lparr> es_queue := q \<rparr>, [(c, Some e)])" using Cons.hyps(2) by (simp add: next_event_def flip: Cons.hyps(2))
  then show ?case using Cons.hyps(1) [of "st\<lparr> es_queue := q \<rparr>"] Cons.prems by (simp flip: Cons.hyps(2))
qed

text \<open>Two consumers: an event that is taken by one that waits, then the final one, which the queue keeps for whoever asks next.\<close>

theorem events_in_order_witness:
  "\<exists>s. stream_reachable True (\<lambda>e. e = (9::nat)) (\<lambda>e. e) s \<and> sr_answers s = [(1, Some 5)] \<and> es_queue (sr_stream s) = [9] \<and>
    answered_events (sr_answers s) @ es_queue (sr_stream s) = sr_accepted s \<and> es_finalResult (sr_stream s) = Some 9"
proof -
  let ?R = "stream_reachable True (\<lambda>e. e = (9::nat)) (\<lambda>e. e)"
  have "?R \<lparr> sr_stream = new_stream\<lparr> es_waiting := [1] \<rparr>, sr_accepted = [], sr_answers = [] \<rparr>"
    using stream_reachable.asked [OF stream_reachable.created [of True "\<lambda>e. e = (9::nat)" "\<lambda>e. e"], of 1] by (simp add: next_event_def new_stream_def)
  from stream_reachable.pushed [OF this, of 5] have "?R \<lparr> sr_stream = new_stream, sr_accepted = [5], sr_answers = [(1, Some 5)] \<rparr>"
    by (simp add: push_def new_stream_def)
  from stream_reachable.pushed [OF this, of 9] have r: "?R \<lparr> sr_stream = new_stream\<lparr> es_queue := [9], es_done := True, es_finalResult := Some 9 \<rparr>,
      sr_accepted = [5, 9], sr_answers = [(1, Some 5)] \<rparr>"
    by (simp add: push_def new_stream_def resolveFinalResult_def)
  show ?thesis using r events_in_order [OF r] by (intro exI) (auto simp: new_stream_def)
qed

end
