(* ===== verification/Client.thy ===== *)
theory Client
  imports Js_Values "HOL-Library.Multiset"
begin

text \<open>
  \<^verbatim>\<open>packages/client/src\<close>: the connection (\<^verbatim>\<open>connection.ts\<close>), the requests and leases (\<^verbatim>\<open>client.ts\<close>) and what the client knows of the
  sessions (\<^verbatim>\<open>state.ts\<close>). Promises are numbered, and what is settled goes to a log. A chunk of data is what the
  message decoder makes of it. Listeners are called but do not call back into the client.
\<close>

section \<open>Messages\<close>

datatype command_name = CList | CCreate | CAttach | CDetach | CPrompt | CSteer | CAbort | CSetModel | CSetThinking

text \<open>Snapshots: what the client looks at, and the rest, which it hands on.\<close>

record session_snapshot =
  ss_id :: string
  ss_revision :: nat
  ss_attached :: bool
  ss_rest :: json

record server_snapshot =
  sv_revision :: nat
  sv_rest :: json

datatype command_result = ListResult json | DetachResult string | SessionResult command_name session_snapshot

fun result_command :: "command_result \<Rightarrow> command_name" where
  "result_command (ListResult sessions) = CList"
| "result_command (DetachResult i) = CDetach"
| "result_command (SessionResult c s) = c"

datatype server_event =
    ServerSnapshotEvent server_snapshot
  | SessionSnapshotEvent session_snapshot
  | SessionProgressEvent string json
  | SessionRemovedEvent string

datatype server_message =
    Hello server_snapshot
  | HelloError json
  | ResponseOk nat command_result
  | ResponseError nat json
  | EventMessage server_event

datatype client_error = ClientDisposed | ClientDisconnected | ServerFailure json | ProtocolFailure | TransportFailure json | EncodeFailure

section \<open>State\<close>

datatype lifecycle = Disconnected | Connecting nat bool  \<comment> \<open>has the transport been opened\<close> | Connected nat

datatype request_outcome = Resolved command_result | Rejected client_error

record client =
  cl_lifecycle :: lifecycle
  cl_sequence :: nat
  cl_requestSequence :: nat
  cl_pendingRequests :: "(nat, command_name) js_map"
  cl_disposed :: bool
  cl_snapshot :: "server_snapshot option"
  cl_sessionSnapshots :: "(string, session_snapshot) js_map"
  cl_attachedSessionIds :: "string set"
  cl_leaseCounts :: "(string, nat) js_map"
  cl_exclusiveLeases :: "(string, nat) js_map"
  cl_leaseGenerations :: "(string, nat) js_map"
  cl_cleanupRequired :: "string set"
  cl_settled :: "(nat \<times> request_outcome) list"
  cl_handshakes :: "(nat \<times> (client_error + server_snapshot)) list"
  cl_closedTransports :: "nat list"

definition new_client :: client where
  "new_client = \<lparr> cl_lifecycle = Disconnected, cl_sequence = 0, cl_requestSequence = 0, cl_pendingRequests = [], cl_disposed = False,
     cl_snapshot = None, cl_sessionSnapshots = [], cl_attachedSessionIds = {}, cl_leaseCounts = [], cl_exclusiveLeases = [],
     cl_leaseGenerations = [], cl_cleanupRequired = {}, cl_settled = [], cl_handshakes = [], cl_closedTransports = [] \<rparr>"

section \<open>What is known of the sessions\<close>

definition reset_state :: "client \<Rightarrow> client" where
  "reset_state c = c\<lparr> cl_snapshot := None, cl_sessionSnapshots := [], cl_attachedSessionIds := {} \<rparr>"

definition clearAttachments :: "client \<Rightarrow> client" where
  "clearAttachments c = c\<lparr> cl_attachedSessionIds := {} \<rparr>"

definition isSessionAttached :: "string \<Rightarrow> client \<Rightarrow> bool" where
  "isSessionAttached i c \<longleftrightarrow> i \<in> cl_attachedSessionIds c"

definition forgetSessionSnapshot :: "string \<Rightarrow> client \<Rightarrow> client \<times> session_snapshot option" where
  "forgetSessionSnapshot i c = (c\<lparr> cl_sessionSnapshots := map_delete i (cl_sessionSnapshots c) \<rparr>, map_get (cl_sessionSnapshots c) i)"

definition restoreSessionSnapshot :: "session_snapshot \<Rightarrow> client \<Rightarrow> client" where
  "restoreSessionSnapshot s c =
     (if map_has (cl_sessionSnapshots c) (ss_id s) then c
      else c\<lparr> cl_sessionSnapshots := map_set (ss_id s) s (cl_sessionSnapshots c) \<rparr>)"

definition applyServerSnapshot :: "server_snapshot \<Rightarrow> client \<Rightarrow> client" where
  "applyServerSnapshot s c =
     (case cl_snapshot c of
        Some current \<Rightarrow> if sv_revision s < sv_revision current then c else c\<lparr> cl_snapshot := Some s \<rparr>
      | None \<Rightarrow> c\<lparr> cl_snapshot := Some s \<rparr>)"

definition applySessionSnapshot :: "bool \<Rightarrow> session_snapshot \<Rightarrow> client \<Rightarrow> client" where
  "applySessionSnapshot force s c =
     (let stale = (case map_get (cl_sessionSnapshots c) (ss_id s) of
                     Some current \<Rightarrow> \<not> force \<and> ss_revision s < ss_revision current | None \<Rightarrow> False)
      in if stale then c
         else c\<lparr> cl_sessionSnapshots := map_set (ss_id s) s (cl_sessionSnapshots c),
           cl_attachedSessionIds := (if ss_attached s then insert (ss_id s) (cl_attachedSessionIds c) else cl_attachedSessionIds c - {ss_id s}) \<rparr>)"

definition applyResult :: "command_result \<Rightarrow> client \<Rightarrow> client" where
  "applyResult r c =
     (case r of
        ListResult sessions \<Rightarrow> c
      | DetachResult i \<Rightarrow>
          (let c1 = c\<lparr> cl_attachedSessionIds := cl_attachedSessionIds c - {i} \<rparr> in
           case map_get (cl_sessionSnapshots c1) i of
             Some s \<Rightarrow> applySessionSnapshot True (s\<lparr> ss_attached := False \<rparr>) c1
           | None \<Rightarrow> c1)
      | SessionResult command s \<Rightarrow> applySessionSnapshot False s c)"

definition applyEvent :: "server_event \<Rightarrow> client \<Rightarrow> client" where
  "applyEvent e c =
     (case e of
        ServerSnapshotEvent s \<Rightarrow> applyServerSnapshot s c
      | SessionSnapshotEvent s \<Rightarrow> applySessionSnapshot False s c
      | SessionProgressEvent i p \<Rightarrow> c
      | SessionRemovedEvent i \<Rightarrow>
          c\<lparr> cl_sessionSnapshots := map_delete i (cl_sessionSnapshots c), cl_attachedSessionIds := cl_attachedSessionIds c - {i} \<rparr>)"

section \<open>Leases\<close>

datatype lease_mode = SharedLease | ExclusiveLease

text \<open>A token is an object: a fresh number.\<close>

definition reserveSessionLease :: "string \<Rightarrow> lease_mode \<Rightarrow> nat \<Rightarrow> client \<Rightarrow> client option" where
  "reserveSessionLease i mode token c =
     (let count = (case map_get (cl_leaseCounts c) i of Some n \<Rightarrow> n | None \<Rightarrow> 0) in
      if mode = ExclusiveLease \<and> count > 0 then None
      else if mode = SharedLease \<and> map_has (cl_exclusiveLeases c) i then None
      else Some (c\<lparr> cl_leaseCounts := map_set i (count + 1) (cl_leaseCounts c),
        cl_exclusiveLeases := (if mode = ExclusiveLease then map_set i token (cl_exclusiveLeases c) else cl_exclusiveLeases c) \<rparr>))"

definition releaseSessionLease :: "string \<Rightarrow> nat \<Rightarrow> client \<Rightarrow> client" where
  "releaseSessionLease i token c =
     (let count = (case map_get (cl_leaseCounts c) i of Some n \<Rightarrow> n | None \<Rightarrow> 0) in
      c\<lparr> cl_leaseCounts := (if count \<le> 1 then map_delete i (cl_leaseCounts c) else map_set i (count - 1) (cl_leaseCounts c)),
         cl_exclusiveLeases := (if map_get (cl_exclusiveLeases c) i = Some token then map_delete i (cl_exclusiveLeases c) else cl_exclusiveLeases c) \<rparr>)"

definition invalidateSessionLeases :: "string \<Rightarrow> client \<Rightarrow> client" where
  "invalidateSessionLeases i c =
     c\<lparr> cl_leaseCounts := map_delete i (cl_leaseCounts c), cl_exclusiveLeases := map_delete i (cl_exclusiveLeases c),
        cl_cleanupRequired := cl_cleanupRequired c - {i},
        cl_leaseGenerations := map_set i ((case map_get (cl_leaseGenerations c) i of Some n \<Rightarrow> n | None \<Rightarrow> 0) + 1) (cl_leaseGenerations c) \<rparr>"

definition invalidateAllSessionLeases :: "client \<Rightarrow> client" where
  "invalidateAllSessionLeases c =
     (foldl (\<lambda>c i. invalidateSessionLeases i c) c (map fst (cl_leaseCounts c)))\<lparr> cl_cleanupRequired := {} \<rparr>"

text \<open>A handle remembers the generation of its session; it is active while the generation lasts and the session is attached.\<close>

definition createSessionLease :: "string \<Rightarrow> client \<Rightarrow> client \<times> nat" where
  "createSessionLease i c =
     (let generation = (case map_get (cl_leaseGenerations c) i of Some n \<Rightarrow> n | None \<Rightarrow> 0)
      in (c\<lparr> cl_leaseGenerations := map_set i generation (cl_leaseGenerations c) \<rparr>, generation))"

definition lease_active :: "string \<Rightarrow> nat \<Rightarrow> client \<Rightarrow> bool" where
  "lease_active i generation c \<longleftrightarrow> map_get (cl_leaseGenerations c) i = Some generation \<and> isSessionAttached i c"

section \<open>Requests\<close>

definition settle_request :: "nat \<Rightarrow> request_outcome \<Rightarrow> client \<Rightarrow> client" where
  "settle_request i r c = c\<lparr> cl_settled := cl_settled c @ [(i, r)] \<rparr>"

definition rejectPendingRequests :: "client_error \<Rightarrow> client \<Rightarrow> client" where
  "rejectPendingRequests err c =
     c\<lparr> cl_pendingRequests := [], cl_settled := cl_settled c @ map (\<lambda>(i, command). (i, Rejected err)) (cl_pendingRequests c) \<rparr>"

definition handleConnectionStateChange :: "client_error option \<Rightarrow> client \<Rightarrow> client" where
  "handleConnectionStateChange disconnected c =
     (case disconnected of
        None \<Rightarrow> c
      | Some err \<Rightarrow> rejectPendingRequests err (invalidateAllSessionLeases (clearAttachments c)))"

definition fail_connection :: "client_error \<Rightarrow> client \<Rightarrow> client" where
  "fail_connection err c =
     (case cl_lifecycle c of
        Disconnected \<Rightarrow> c
      | Connecting i opened \<Rightarrow>
          handleConnectionStateChange (Some err) (c\<lparr> cl_lifecycle := Disconnected, cl_handshakes := cl_handshakes c @ [(i, Inl err)] \<rparr>)
      | Connected i \<Rightarrow> handleConnectionStateChange (Some err) (c\<lparr> cl_lifecycle := Disconnected \<rparr>))"

definition failAndClose :: "client_error \<Rightarrow> client \<Rightarrow> client" where
  "failAndClose err c =
     (let transport = (case cl_lifecycle c of Connecting i True \<Rightarrow> Some i | Connected i \<Rightarrow> Some i | _ \<Rightarrow> None);
          c1 = fail_connection err c
      in case transport of Some i \<Rightarrow> c1\<lparr> cl_closedTransports := cl_closedTransports c1 @ [i] \<rparr> | None \<Rightarrow> c1)"

text \<open>
  \<^verbatim>\<open>#request\<close>: the number of the request, or why it is refused at once. The frame may fail to be encoded, and the transport may
  throw when it is given the frame.
\<close>

datatype send_outcome = Sent | EncodingFails | SendingThrows json

definition request :: "command_name \<Rightarrow> send_outcome \<Rightarrow> client \<Rightarrow> client \<times> (client_error + nat)" where
  "request command send c =
     (if cl_disposed c then (c, Inl ClientDisposed)
      else case cl_lifecycle c of
        Connected t \<Rightarrow>
          (let i = Suc (cl_requestSequence c);
               c1 = c\<lparr> cl_requestSequence := i, cl_pendingRequests := map_set i command (cl_pendingRequests c) \<rparr>
           in case send of
                EncodingFails \<Rightarrow> (settle_request i (Rejected EncodeFailure) (c1\<lparr> cl_pendingRequests := map_delete i (cl_pendingRequests c1) \<rparr>), Inr i)
              | SendingThrows e \<Rightarrow> (failAndClose (TransportFailure e) c1, Inr i)
              | Sent \<Rightarrow> (c1, Inr i))
      | _ \<Rightarrow> (c, Inl ClientDisconnected))"

definition handle_message :: "server_message \<Rightarrow> client \<Rightarrow> client" where
  "handle_message m c =
     (case m of
        EventMessage e \<Rightarrow>
          applyEvent e (case e of SessionRemovedEvent i \<Rightarrow> invalidateSessionLeases i c | _ \<Rightarrow> c)
      | ResponseError i e \<Rightarrow>
          (case map_get (cl_pendingRequests c) i of
             None \<Rightarrow> failAndClose ProtocolFailure c
           | Some command \<Rightarrow> settle_request i (Rejected (ServerFailure e)) (c\<lparr> cl_pendingRequests := map_delete i (cl_pendingRequests c) \<rparr>))
      | ResponseOk i r \<Rightarrow>
          (case map_get (cl_pendingRequests c) i of
             None \<Rightarrow> failAndClose ProtocolFailure c
           | Some command \<Rightarrow>
               (let c1 = c\<lparr> cl_pendingRequests := map_delete i (cl_pendingRequests c) \<rparr> in
                if result_command r \<noteq> command then failAndClose ProtocolFailure (settle_request i (Rejected ProtocolFailure) c1)
                else settle_request i (Resolved r) (applyResult r c1)))
      | _ \<Rightarrow> c)"

section \<open>The connection\<close>

definition connect :: "client \<Rightarrow> client \<times> (client_error + nat)" where
  "connect c =
     (if cl_disposed c then (c, Inl ClientDisposed)
      else case cl_lifecycle c of
        Disconnected \<Rightarrow>
          (let i = Suc (cl_sequence c) in
           (handleConnectionStateChange None ((reset_state c)\<lparr> cl_sequence := i, cl_lifecycle := Connecting i False \<rparr>), Inr i))
      | _ \<Rightarrow> (c, Inl ClientDisconnected))"

definition isCurrent :: "nat \<Rightarrow> client \<Rightarrow> bool" where
  "isCurrent i c = (case cl_lifecycle c of Disconnected \<Rightarrow> False | Connecting j opened \<Rightarrow> j = i | Connected j \<Rightarrow> j = i)"

text \<open>The transport factory answers: with a transport, or with an error. Then the hello is sent, which may fail.\<close>

definition transport_opened :: "nat \<Rightarrow> client \<Rightarrow> client" where
  "transport_opened i c =
     (case cl_lifecycle c of
        Connecting j opened \<Rightarrow>
          if j = i then c\<lparr> cl_lifecycle := Connecting i True \<rparr> else c\<lparr> cl_closedTransports := cl_closedTransports c @ [i] \<rparr>
      | _ \<Rightarrow> c\<lparr> cl_closedTransports := cl_closedTransports c @ [i] \<rparr>)"

definition open_failed :: "nat \<Rightarrow> json \<Rightarrow> client \<Rightarrow> client" where
  "open_failed i e c = (if isCurrent i c then fail_connection (TransportFailure e) c else c)"

definition transport_failed :: "nat \<Rightarrow> json \<Rightarrow> client \<Rightarrow> client" where
  "transport_failed i e c = (if isCurrent i c then failAndClose (TransportFailure e) c else c)"

definition connection_message :: "server_message \<Rightarrow> client \<Rightarrow> client" where
  "connection_message m c =
     (case cl_lifecycle c of
        Connecting i opened \<Rightarrow>
          (case m of
             HelloError e \<Rightarrow> failAndClose (ServerFailure e) c
           | Hello s \<Rightarrow>
               if \<not> opened then failAndClose ProtocolFailure c
               else (applyServerSnapshot s (c\<lparr> cl_lifecycle := Connected i \<rparr>))\<lparr> cl_handshakes := cl_handshakes c @ [(i, Inr s)] \<rparr>
           | _ \<Rightarrow> failAndClose ProtocolFailure c)
      | Connected i \<Rightarrow>
          (case m of
             Hello s \<Rightarrow> failAndClose ProtocolFailure c
           | HelloError e \<Rightarrow> failAndClose ProtocolFailure c
           | _ \<Rightarrow> handle_message m c)
      | Disconnected \<Rightarrow> c)"

text \<open>A chunk gives messages, or the decoder throws. The loop stops when a message has ended the connection.\<close>

fun handle_messages :: "server_message list \<Rightarrow> client \<Rightarrow> client" where
  "handle_messages [] c = c"
| "handle_messages (m # ms) c = (if cl_lifecycle c = Disconnected then c else handle_messages ms (connection_message m c))"

definition handleData :: "nat \<Rightarrow> server_message list option \<Rightarrow> client \<Rightarrow> client" where
  "handleData i decoded c =
     (if \<not> isCurrent i c then c
      else case cl_lifecycle c of
        Connecting j False \<Rightarrow> failAndClose ProtocolFailure c
      | _ \<Rightarrow> (case decoded of None \<Rightarrow> failAndClose ProtocolFailure c | Some ms \<Rightarrow> handle_messages ms c))"

definition handleClose :: "nat \<Rightarrow> bool \<Rightarrow> client \<Rightarrow> client" where
  "handleClose i complete c =
     (if isCurrent i c then fail_connection (if complete then ClientDisconnected else ProtocolFailure) c else c)"

definition disconnect_client :: "client \<Rightarrow> client" where
  "disconnect_client c = (if cl_lifecycle c = Disconnected then c else failAndClose ClientDisconnected c)"

definition dispose :: "client \<Rightarrow> client" where
  "dispose c =
     (if cl_disposed c then c
      else let c1 = rejectPendingRequests ClientDisposed (c\<lparr> cl_disposed := True \<rparr>);
               c2 = (if cl_lifecycle c1 = Disconnected then c1 else failAndClose ClientDisposed c1)
           in invalidateAllSessionLeases (reset_state c2))"


section \<open>Runs of a client\<close>

text \<open>The requests made so far with their commands, and the client.\<close>

inductive client_run :: "(nat \<times> command_name) list \<Rightarrow> client \<Rightarrow> bool" where
  start: "client_run [] new_client"
| connect: "client_run issued c \<Longrightarrow> client_run issued (fst (connect c))"
| opened: "client_run issued c \<Longrightarrow> client_run issued (transport_opened i c)"
| open_failed: "client_run issued c \<Longrightarrow> client_run issued (open_failed i e c)"
| failed: "client_run issued c \<Longrightarrow> client_run issued (transport_failed i e c)"
| data: "client_run issued c \<Longrightarrow> client_run issued (handleData i decoded c)"
| closed: "client_run issued c \<Longrightarrow> client_run issued (handleClose i complete c)"
| disconnect: "client_run issued c \<Longrightarrow> client_run issued (disconnect_client c)"
| dispose: "client_run issued c \<Longrightarrow> client_run issued (dispose c)"
| request: "client_run issued c \<Longrightarrow> request command send c = (c', r) \<Longrightarrow>
    client_run (issued @ (case r of Inr i \<Rightarrow> [(i, command)] | Inl e \<Rightarrow> [])) c'"
| reserve: "client_run issued c \<Longrightarrow> reserveSessionLease i mode token c = Some c' \<Longrightarrow> client_run issued c'"
| release: "client_run issued c \<Longrightarrow> client_run issued (releaseSessionLease i token c)"
| leased: "client_run issued c \<Longrightarrow> client_run issued (fst (createSessionLease i c))"
| forget: "client_run issued c \<Longrightarrow> client_run issued (fst (forgetSessionSnapshot i c))"
| restore: "client_run issued c \<Longrightarrow> client_run issued (restoreSessionSnapshot s c)"

definition requests_ok :: "(nat \<times> command_name) list \<Rightarrow> (nat, command_name) js_map \<Rightarrow> (nat \<times> request_outcome) list \<Rightarrow> nat \<Rightarrow> bool" where
  "requests_ok issued pending settled n \<longleftrightarrow>
     distinct (map fst issued) \<and> (\<forall>i \<in> fst ` set issued. i \<le> n) \<and> mset (map fst pending @ map fst settled) = mset (map fst issued) \<and> set pending \<subseteq> set issued \<and>
     (\<forall>i r. (i, Resolved r) \<in> set settled \<longrightarrow> (i, result_command r) \<in> set issued)"

definition connecting :: "lifecycle \<Rightarrow> nat list" where
  "connecting l = (case l of Connecting i opened \<Rightarrow> [i] | _ \<Rightarrow> [])"

definition is_connected :: "lifecycle \<Rightarrow> bool" where
  "is_connected l = (case l of Connected i \<Rightarrow> True | _ \<Rightarrow> False)"

text \<open>The attempts to connect, each once.\<close>

primrec attempts :: "nat \<Rightarrow> nat multiset" where
  "attempts 0 = {#}"
| "attempts (Suc n) = add_mset (Suc n) (attempts n)"

definition client_ok :: "(nat \<times> command_name) list \<Rightarrow> client \<Rightarrow> bool" where
  "client_ok issued c \<longleftrightarrow>
     requests_ok issued (cl_pendingRequests c) (cl_settled c) (cl_requestSequence c) \<and>
     mset (connecting (cl_lifecycle c) @ map fst (cl_handshakes c)) = attempts (cl_sequence c) \<and>
     (is_connected (cl_lifecycle c) \<or> cl_pendingRequests c = [] \<and> cl_attachedSessionIds c = {}) \<and>
     (cl_disposed c \<longrightarrow> cl_lifecycle c = Disconnected)"

lemma requests_rejected:
  assumes "requests_ok issued pending settled n"
  shows "requests_ok issued [] (settled @ map (\<lambda>(i, command). (i, Rejected err)) pending) n"
proof -
  have "map fst (map (\<lambda>(i, command). (i, Rejected err)) pending) = map fst pending" by (simp add: split_beta comp_def)
  moreover have "mset (map fst settled @ map fst pending) = mset (map fst issued)" using assms unfolding requests_ok_def by (metis mset_append union_commute)
  ultimately show ?thesis using assms unfolding requests_ok_def by (simp only: append_Nil list.map map_append) auto
qed

lemma delete_mset: "distinct (map fst m) \<Longrightarrow> map_get m k = Some v \<Longrightarrow> mset (map fst m) = add_mset k (mset (map fst (map_delete k m)))"
proof (induction m)
  case (Cons x m)
  show ?case
  proof (cases "fst x = k")
    case True
    with Cons.prems(1) have "k \<notin> fst ` set m" by auto
    then have "map_delete k m = m" by (rule delete_id)
    then have "map_delete k (x # m) = m" using True by (cases x) simp
    then show ?thesis using True by simp
  qed (use Cons in auto)
qed simp

lemma requests_distinct: "requests_ok issued pending settled n \<Longrightarrow> distinct (map fst pending @ map fst settled)"
  unfolding requests_ok_def by (metis mset_eq_imp_distinct_iff)

lemma request_settled:
  assumes "requests_ok issued pending settled n" and "map_get pending i = Some command" and "\<And>r. out = Resolved r \<Longrightarrow> result_command r = command"
  shows "requests_ok issued (map_delete i pending) (settled @ [(i, out)]) n"
proof -
  have distinct: "distinct (map fst pending)" using requests_distinct [OF assms(1)] by simp
  have "(i, command) \<in> set issued" using assms(1) map_of_SomeD [OF assms(2)] unfolding requests_ok_def by blast
  moreover have "set (map_delete i pending) \<subseteq> set pending" by (induction pending) auto
  moreover have "mset (map fst (map_delete i pending) @ map fst (settled @ [(i, out)])) = mset (map fst issued)"
    using delete_mset [OF distinct assms(2)] assms(1) unfolding requests_ok_def
    by (metis add_mset_add_single append.right_neutral list.simps(8,9) map_append mset.simps mset_append prod.sel(1) union_assoc union_commute union_mset_add_mset_left)
  ultimately show ?thesis using assms(1,3) unfolding requests_ok_def by (auto simp del: mset_map mset_append)
qed

lemma request_added:
  assumes "requests_ok issued pending settled n"
  shows "requests_ok (issued @ [(Suc n, command)]) (map_set (Suc n) command pending) settled (Suc n)" "map_get pending (Suc n) = None"
proof -
  have "fst ` set pending \<subseteq> fst ` set issued" using assms unfolding requests_ok_def by blast
  moreover have new: "Suc n \<notin> fst ` set issued" using assms unfolding requests_ok_def by (metis Suc_n_not_le_n)
  ultimately show none: "map_get pending (Suc n) = None" by (auto simp: map_of_eq_None_iff)
  show "requests_ok (issued @ [(Suc n, command)]) (map_set (Suc n) command pending) settled (Suc n)"
    using assms new unfolding requests_ok_def map_set_new [OF none] by (auto simp: le_Suc_eq)
qed

lemma invalidate_frame [simp]:
  "cl_pendingRequests (invalidateSessionLeases i c) = cl_pendingRequests c" "cl_settled (invalidateSessionLeases i c) = cl_settled c"
  "cl_requestSequence (invalidateSessionLeases i c) = cl_requestSequence c" "cl_lifecycle (invalidateSessionLeases i c) = cl_lifecycle c"
  "cl_sequence (invalidateSessionLeases i c) = cl_sequence c" "cl_handshakes (invalidateSessionLeases i c) = cl_handshakes c"
  "cl_attachedSessionIds (invalidateSessionLeases i c) = cl_attachedSessionIds c" "cl_disposed (invalidateSessionLeases i c) = cl_disposed c"
  "cl_sessionSnapshots (invalidateSessionLeases i c) = cl_sessionSnapshots c"
  by (simp_all add: invalidateSessionLeases_def)

lemma invalidate_fold [simp]:
  "cl_pendingRequests (foldl (\<lambda>c i. invalidateSessionLeases i c) c is) = cl_pendingRequests c" "cl_settled (foldl (\<lambda>c i. invalidateSessionLeases i c) c is) = cl_settled c"
  "cl_requestSequence (foldl (\<lambda>c i. invalidateSessionLeases i c) c is) = cl_requestSequence c" "cl_lifecycle (foldl (\<lambda>c i. invalidateSessionLeases i c) c is) = cl_lifecycle c"
  "cl_sequence (foldl (\<lambda>c i. invalidateSessionLeases i c) c is) = cl_sequence c" "cl_handshakes (foldl (\<lambda>c i. invalidateSessionLeases i c) c is) = cl_handshakes c"
  "cl_attachedSessionIds (foldl (\<lambda>c i. invalidateSessionLeases i c) c is) = cl_attachedSessionIds c" "cl_disposed (foldl (\<lambda>c i. invalidateSessionLeases i c) c is) = cl_disposed c"
  "cl_sessionSnapshots (foldl (\<lambda>c i. invalidateSessionLeases i c) c is) = cl_sessionSnapshots c"
  by (induction "is" arbitrary: c) simp_all

lemma snapshot_frame [simp]:
  "cl_pendingRequests (applySessionSnapshot force s c) = cl_pendingRequests c" "cl_settled (applySessionSnapshot force s c) = cl_settled c"
  "cl_requestSequence (applySessionSnapshot force s c) = cl_requestSequence c" "cl_lifecycle (applySessionSnapshot force s c) = cl_lifecycle c"
  "cl_sequence (applySessionSnapshot force s c) = cl_sequence c" "cl_handshakes (applySessionSnapshot force s c) = cl_handshakes c"
  "cl_disposed (applySessionSnapshot force s c) = cl_disposed c"
  by (simp_all add: applySessionSnapshot_def Let_def split: option.split)

lemma server_snapshot_frame [simp]:
  "cl_pendingRequests (applyServerSnapshot s c) = cl_pendingRequests c" "cl_settled (applyServerSnapshot s c) = cl_settled c"
  "cl_requestSequence (applyServerSnapshot s c) = cl_requestSequence c" "cl_lifecycle (applyServerSnapshot s c) = cl_lifecycle c"
  "cl_sequence (applyServerSnapshot s c) = cl_sequence c" "cl_handshakes (applyServerSnapshot s c) = cl_handshakes c"
  "cl_disposed (applyServerSnapshot s c) = cl_disposed c" "cl_attachedSessionIds (applyServerSnapshot s c) = cl_attachedSessionIds c"
  "cl_sessionSnapshots (applyServerSnapshot s c) = cl_sessionSnapshots c"
  by (simp_all add: applyServerSnapshot_def split: option.split)

lemmas failing = fail_connection_def handleConnectionStateChange_def rejectPendingRequests_def invalidateAllSessionLeases_def clearAttachments_def

lemma fail_ok:
  assumes "client_ok issued c"
  shows "client_ok issued (fail_connection err c)" "cl_lifecycle (fail_connection err c) = Disconnected"
  using assms requests_rejected [of issued "cl_pendingRequests c" "cl_settled c"]
  by (auto simp: client_ok_def failing connecting_def is_connected_def split: lifecycle.splits)

lemma fail_close_ok:
  assumes "client_ok issued c"
  shows "client_ok issued (failAndClose err c)" "cl_lifecycle (failAndClose err c) = Disconnected"
  using fail_ok [OF assms, of err] by (auto simp: failAndClose_def Let_def client_ok_def split: option.split)

lemma take_ok:
  assumes "client_ok issued c" and "map_get (cl_pendingRequests c) i = Some command" and "\<And>r. out = Resolved r \<Longrightarrow> result_command r = command"
  shows "client_ok issued (settle_request i out (c\<lparr> cl_pendingRequests := map_delete i (cl_pendingRequests c) \<rparr>))"
  using assms(1,2) request_settled [of issued "cl_pendingRequests c" "cl_settled c" "cl_requestSequence c" i command out, OF _ assms(2,3)] by (auto simp: client_ok_def settle_request_def)

lemma known_ok:
  assumes "client_ok issued c" and "is_connected (cl_lifecycle c)"
  shows "client_ok issued (applyEvent e c)" "client_ok issued (applyResult r c)"
  using assms by (auto simp: client_ok_def applyEvent_def applyResult_def Let_def split: server_event.split command_result.split option.split)

lemma message_ok:
  assumes c: "client_ok issued c" and connected: "is_connected (cl_lifecycle c)"
  shows "client_ok issued (handle_message m c)"
proof (cases m)
  case (ResponseOk i r)
  show ?thesis
  proof (cases "map_get (cl_pendingRequests c) i")
    case None
    then show ?thesis using ResponseOk fail_close_ok(1) [OF c] by (simp add: handle_message_def)
  next
    case (Some command)
    show ?thesis
    proof (cases "result_command r = command")
      case False
      then show ?thesis using ResponseOk Some fail_close_ok(1) [OF take_ok [OF c Some, of "Rejected ProtocolFailure"]] by (simp add: handle_message_def Let_def)
    next
      case True
      have "settle_request i (Resolved r) (applyResult r (c\<lparr> cl_pendingRequests := map_delete i (cl_pendingRequests c) \<rparr>)) =
          applyResult r (settle_request i (Resolved r) (c\<lparr> cl_pendingRequests := map_delete i (cl_pendingRequests c) \<rparr>))"
        by (auto simp: settle_request_def applyResult_def applySessionSnapshot_def Let_def split: command_result.split option.split)
      then show ?thesis
        using ResponseOk Some True known_ok(2) [OF take_ok [OF c Some, of "Resolved r"]] connected by (simp add: handle_message_def Let_def settle_request_def)
    qed
  qed
next
  case (ResponseError i e)
  then show ?thesis using take_ok [OF c, of i _ "Rejected (ServerFailure e)"] fail_close_ok(1) [OF c] by (simp add: handle_message_def split: option.split)
next
  case (EventMessage e)
  have "client_ok issued (case e of SessionRemovedEvent i \<Rightarrow> invalidateSessionLeases i c | _ \<Rightarrow> c)"
    "is_connected (cl_lifecycle (case e of SessionRemovedEvent i \<Rightarrow> invalidateSessionLeases i c | _ \<Rightarrow> c))"
    using c connected by (auto simp: client_ok_def split: server_event.split)
  then show ?thesis using EventMessage known_ok(1) by (simp add: handle_message_def)
qed (use c in \<open>simp_all add: handle_message_def\<close>)

lemma connection_message_ok:
  assumes "client_ok issued c"
  shows "client_ok issued (connection_message m c)"
proof (cases "cl_lifecycle c")
  case Disconnected
  then show ?thesis using assms by (simp add: connection_message_def)
next
  case (Connecting i opened)
  show ?thesis
  proof (cases "\<exists>s. m = Hello s \<and> opened")
    case True
    then show ?thesis using assms Connecting by (auto simp: connection_message_def client_ok_def connecting_def is_connected_def)
  next
    case False
    then show ?thesis using Connecting fail_close_ok(1) [OF assms] by (auto simp: connection_message_def split: server_message.split)
  qed
next
  case (Connected i)
  then show ?thesis using message_ok [OF assms, of m] fail_close_ok(1) [OF assms]
    by (auto simp: connection_message_def is_connected_def split: server_message.split)
qed

lemma messages_ok: "client_ok issued c \<Longrightarrow> client_ok issued (handle_messages ms c)"
  by (induction ms arbitrary: c) (simp_all add: connection_message_ok)

lemma request_ok:
  assumes c: "client_ok issued c" and r: "request command send c = (c', r)"
  shows "client_ok (issued @ (case r of Inr i \<Rightarrow> [(i, command)] | Inl e \<Rightarrow> [])) c'"
proof (cases "cl_disposed c \<or> \<not> is_connected (cl_lifecycle c)")
  case True
  then show ?thesis using c r by (auto simp: request_def is_connected_def split: lifecycle.splits if_splits)
next
  case False
  let ?i = "Suc (cl_requestSequence c)"
  let ?c = "c\<lparr> cl_requestSequence := ?i, cl_pendingRequests := map_set ?i command (cl_pendingRequests c) \<rparr>"
  have "requests_ok issued (cl_pendingRequests c) (cl_settled c) (cl_requestSequence c)" using c by (simp add: client_ok_def)
  note added = request_added(1) [OF this, of command]
  have ok: "client_ok (issued @ [(?i, command)]) ?c" using c False added by (simp add: client_ok_def)
  have "map_get (cl_pendingRequests ?c) ?i = Some command" by simp
  from take_ok [OF ok this, of "Rejected EncodeFailure"] fail_close_ok(1) [OF ok] ok r False
  show ?thesis by (auto simp: request_def Let_def is_connected_def split: lifecycle.splits send_outcome.splits if_splits)
qed

lemma run_ok: "client_run issued c \<Longrightarrow> client_ok issued c"
proof (induction rule: client_run.induct)
  case start
  then show ?case by (simp add: new_client_def client_ok_def requests_ok_def connecting_def)
next
  case (connect issued c)
  then show ?case by (auto simp: connect_def reset_state_def handleConnectionStateChange_def client_ok_def connecting_def is_connected_def Let_def split: lifecycle.splits)
next
  case (opened issued c i)
  then show ?case by (auto simp: transport_opened_def client_ok_def connecting_def is_connected_def split: lifecycle.splits)
next
  case (open_failed issued c i e)
  then show ?case using fail_ok(1) by (simp add: open_failed_def)
next
  case (failed issued c i e)
  then show ?case using fail_close_ok(1) by (simp add: transport_failed_def)
next
  case (data issued c i decoded)
  then show ?case using fail_close_ok(1) messages_ok by (auto simp: handleData_def split: lifecycle.split option.split bool.split)
next
  case (closed issued c i complete)
  then show ?case using fail_ok(1) by (simp add: handleClose_def)
next
  case (disconnect issued c)
  then show ?case using fail_close_ok(1) by (simp add: disconnect_client_def)
next
  case (dispose issued c)
  let ?c = "rejectPendingRequests ClientDisposed (c\<lparr> cl_disposed := True \<rparr>)"
  have rejected: "requests_ok issued (cl_pendingRequests ?c) (cl_settled ?c) (cl_requestSequence ?c)"
    using dispose.IH requests_rejected by (simp add: client_ok_def rejectPendingRequests_def)
  then have "client_ok issued (fail_connection ClientDisposed ?c)"
    using dispose.IH by (auto simp: client_ok_def failing connecting_def is_connected_def split: lifecycle.splits)
  then show ?case using dispose.IH rejected
    by (auto simp: dispose_def Let_def client_ok_def failAndClose_def reset_state_def invalidateAllSessionLeases_def failing connecting_def is_connected_def split: lifecycle.splits option.splits)
next
  case (request issued c command send c' r)
  show ?case by (rule request_ok [OF request.IH request.hyps(2)])
qed (auto simp: client_ok_def reserveSessionLease_def releaseSessionLease_def forgetSessionSnapshot_def restoreSessionSnapshot_def createSessionLease_def Let_def split: if_splits)

section \<open>What a client promises\<close>

text \<open>C13. Every request that a client has made is pending or has been settled, once, whatever the server, the transport and the user do; it is
  resolved only with a result of its own command; and once the connection is gone, or the client disposed, none is pending.\<close>

theorem requests_settled_once:
  assumes "client_run issued c"
  shows "distinct (map fst issued) \<and> mset (map fst (cl_pendingRequests c)) + mset (map fst (cl_settled c)) = mset (map fst issued) \<and>
    (\<forall>(i, out) \<in> set (cl_settled c). case out of Resolved r \<Rightarrow> (i, result_command r) \<in> set issued | Rejected e \<Rightarrow> True) \<and>
    (is_connected (cl_lifecycle c) \<and> \<not> cl_disposed c \<or> cl_pendingRequests c = [])"
proof -
  have ok: "client_ok issued c" by (rule run_ok [OF assms])
  then have r: "requests_ok issued (cl_pendingRequests c) (cl_settled c) (cl_requestSequence c)" by (simp add: client_ok_def)
  have "case out of Resolved r \<Rightarrow> (i, result_command r) \<in> set issued | Rejected e \<Rightarrow> True" if "(i, out) \<in> set (cl_settled c)" for i out
    using r that by (auto simp: requests_ok_def split: request_outcome.split)
  moreover have "is_connected (cl_lifecycle c) \<and> \<not> cl_disposed c \<or> cl_pendingRequests c = []" using ok by (auto simp: client_ok_def is_connected_def)
  ultimately show ?thesis using r by (auto simp: requests_ok_def)
qed

text \<open>A promise of \<^verbatim>\<open>connect\<close> is settled once too, and sessions are attached only while the client is connected.\<close>

theorem handshakes_settled_once:
  assumes "client_run issued c"
  shows "mset (connecting (cl_lifecycle c)) + mset (map fst (cl_handshakes c)) = attempts (cl_sequence c)"
    and "is_connected (cl_lifecycle c) \<or> cl_attachedSessionIds c = {}"
  using run_ok [OF assms] by (auto simp: client_ok_def)

definition sample_session :: session_snapshot where
  "sample_session = \<lparr> ss_id = ''s'', ss_revision = 1, ss_attached = True, ss_rest = JsonNull \<rparr>"

definition sample_connected :: client where
  "sample_connected = new_client\<lparr> cl_sequence := 1, cl_lifecycle := Connected 1, cl_snapshot := Some \<lparr> sv_revision = 0, sv_rest = JsonNull \<rparr>,
     cl_handshakes := [(1, Inr \<lparr> sv_revision = 0, sv_rest = JsonNull \<rparr>)] \<rparr>"

lemma sample_connected_run: "client_run [] sample_connected"
proof -
  have 1: "client_run [] (new_client\<lparr> cl_sequence := 1, cl_lifecycle := Connecting 1 False \<rparr>)"
    using client_run.connect [OF client_run.start] by (simp add: connect_def new_client_def reset_state_def handleConnectionStateChange_def)
  have 2: "client_run [] (new_client\<lparr> cl_sequence := 1, cl_lifecycle := Connecting 1 True \<rparr>)"
    using client_run.opened [OF 1, of 1] by (simp add: transport_opened_def)
  show ?thesis using client_run.data [OF 2, of 1 "Some [Hello \<lparr> sv_revision = 0, sv_rest = JsonNull \<rparr>]"]
    by (simp add: handleData_def isCurrent_def connection_message_def applyServerSnapshot_def sample_connected_def new_client_def)
qed

theorem requests_settled_once_witness:
  "\<exists>c. client_run [(1, CAttach), (2, CList)] c \<and> cl_pendingRequests c = [] \<and>
    cl_settled c = [(1, Resolved (SessionResult CAttach sample_session)), (2, Rejected ClientDisconnected)] \<and>
    mset (map fst (cl_pendingRequests c)) + mset (map fst (cl_settled c)) = mset [1, 2]"
proof -
  let ?c1 = "sample_connected\<lparr> cl_requestSequence := 1, cl_pendingRequests := [(1, CAttach)] \<rparr>"
  have 1: "client_run [(1, CAttach)] ?c1"
    using client_run.request [OF sample_connected_run, of CAttach Sent] by (simp add: request_def sample_connected_def new_client_def)
  let ?c2 = "?c1\<lparr> cl_requestSequence := 2, cl_pendingRequests := [(1, CAttach), (2, CList)] \<rparr>"
  have 2: "client_run [(1, CAttach), (2, CList)] ?c2"
    using client_run.request [OF 1, of CList Sent] by (simp add: request_def sample_connected_def new_client_def numeral_2_eq_2)
  let ?c3 = "handleData 1 (Some [ResponseOk 1 (SessionResult CAttach sample_session)]) ?c2"
  have 3: "client_run [(1, CAttach), (2, CList)] ?c3" by (rule client_run.data [OF 2])
  have c3: "cl_settled ?c3 = [(1, Resolved (SessionResult CAttach sample_session))]" "cl_pendingRequests ?c3 = [(2, CList)]" "cl_lifecycle ?c3 = Connected 1"
    by (simp_all add: handleData_def isCurrent_def connection_message_def handle_message_def sample_connected_def new_client_def settle_request_def applyResult_def)
  let ?c4 = "disconnect_client ?c3"
  have 4: "client_run [(1, CAttach), (2, CList)] ?c4" by (rule client_run.disconnect [OF 3])
  have "cl_settled ?c4 = cl_settled ?c3 @ [(2, Rejected ClientDisconnected)]" "cl_pendingRequests ?c4 = []"
    using c3 by (simp_all add: disconnect_client_def failAndClose_def failing Let_def del: invalidate_fold) (simp_all add: c3)
  with c3 4 requests_settled_once [OF 4] show ?thesis by (intro exI [of _ ?c4]) simp
qed

section \<open>Revisions\<close>

lemma session_snapshot_grows:
  assumes "map_get (cl_sessionSnapshots c) i = Some s" and "map_get (cl_sessionSnapshots (applySessionSnapshot force new c)) i = Some s'"
    and "force \<Longrightarrow> ss_id new = i \<Longrightarrow> ss_revision s \<le> ss_revision new"
  shows "ss_revision s \<le> ss_revision s'"
  using assms by (auto simp: applySessionSnapshot_def Let_def split: if_splits option.splits)

text \<open>What a client knows of a session is never replaced by something older, whatever the server sends, unless it has forgotten it in between.\<close>

theorem snapshot_revisions_grow:
  assumes "map_get (cl_sessionSnapshots c) i = Some s" and "map_get (cl_sessionSnapshots (connection_message m c)) i = Some s'"
    and own: "\<And>j t. map_get (cl_sessionSnapshots c) j = Some t \<Longrightarrow> ss_id t = j"
  shows "ss_revision s \<le> ss_revision s'"
proof -
  have fail: "cl_sessionSnapshots (failAndClose err c') = cl_sessionSnapshots c'" for err c'
    by (simp add: failAndClose_def failing Let_def split: option.split lifecycle.split)
  have kept: "cl_sessionSnapshots (settle_request k out c') = cl_sessionSnapshots c'" for k out c' by (simp add: settle_request_def)
  have event: "ss_revision s \<le> ss_revision s'" if "map_get (cl_sessionSnapshots (applyEvent e c')) i = Some s'" "cl_sessionSnapshots c' = cl_sessionSnapshots c" for e c'
    using that assms(1) session_snapshot_grows [of c' i s False] by (auto simp: applyEvent_def split: server_event.splits if_splits)
  have result: "ss_revision s \<le> ss_revision s'" if "map_get (cl_sessionSnapshots (applyResult r c')) i = Some s'" "cl_sessionSnapshots c' = cl_sessionSnapshots c" for r c'
  proof (cases r)
    case (DetachResult j)
    let ?c = "c'\<lparr> cl_attachedSessionIds := cl_attachedSessionIds c' - {j} \<rparr>"
    show ?thesis
    proof (cases "map_get (cl_sessionSnapshots c) j")
      case (Some t)
      have "ss_id t = j" by (rule own [OF Some])
      then have "ss_id (t\<lparr> ss_attached := False \<rparr>) = i \<Longrightarrow> ss_revision s \<le> ss_revision (t\<lparr> ss_attached := False \<rparr>)" using Some assms(1) by auto
      then show ?thesis using session_snapshot_grows [of ?c i s True "t\<lparr> ss_attached := False \<rparr>" s'] that assms(1) DetachResult Some
        by (simp add: applyResult_def Let_def)
    qed (use that assms(1) DetachResult in \<open>simp add: applyResult_def Let_def\<close>)
  qed (use that assms(1) session_snapshot_grows [of c' i s False _ s'] in \<open>auto simp: applyResult_def\<close>)
  show ?thesis
  proof (cases "\<exists>k. cl_lifecycle c = Connected k")
    case False
    then have "cl_sessionSnapshots (connection_message m c) = cl_sessionSnapshots c"
      by (auto simp: connection_message_def fail split: lifecycle.split server_message.split)
    then show ?thesis using assms(1,2) by simp
  next
    case True
    show ?thesis
    proof (cases m)
      case (EventMessage e)
      then show ?thesis using True assms(2) event [of e "case e of SessionRemovedEvent i \<Rightarrow> invalidateSessionLeases i c | _ \<Rightarrow> c"]
        by (auto simp: connection_message_def handle_message_def split: server_event.splits)
    next
      case (ResponseOk k r)
      then show ?thesis using True assms(1,2) result [of r "c\<lparr> cl_pendingRequests := map_delete k (cl_pendingRequests c) \<rparr>"]
        by (auto simp: connection_message_def handle_message_def fail kept Let_def split: option.splits if_splits)
    qed (use True assms(1,2) in \<open>auto simp: connection_message_def handle_message_def fail kept split: option.splits\<close>)
  qed
qed

section \<open>A reservation outlives its session\<close>

text \<open>
  A lease is reserved before the session is attached and gets its generation after it. When the session is removed in between,
  the reservation is gone, a second exclusive lease is granted, and after the attachment both are active.
\<close>

lemma two_exclusive_leases:
  "\<exists>c c1 c2 c3 c4. client_run [(1, CAttach)] c \<and> reserveSessionLease ''s'' ExclusiveLease 1 sample_connected = Some c1 \<and>
    reserveSessionLease ''s'' ExclusiveLease 2 c2 = Some c3 \<and>
    c2 = handleData 1 (Some [EventMessage (SessionRemovedEvent ''s'')]) (fst (request CAttach Sent c1)) \<and>
    c4 = handleData 1 (Some [ResponseOk 1 (SessionResult CAttach sample_session)]) c3 \<and>
    c = fst (createSessionLease ''s'' (fst (createSessionLease ''s'' c4))) \<and> lease_active ''s'' (snd (createSessionLease ''s'' c4)) c"
proof -
  obtain c1 where c1: "reserveSessionLease ''s'' ExclusiveLease 1 sample_connected = Some c1"
      "c1 = sample_connected\<lparr> cl_leaseCounts := [(''s'', 1)], cl_exclusiveLeases := [(''s'', 1)] \<rparr>"
    by (simp add: reserveSessionLease_def sample_connected_def new_client_def)
  define c2 where "c2 = handleData 1 (Some [EventMessage (SessionRemovedEvent ''s'')]) (fst (request CAttach Sent c1))"
  have c2: "c2 = sample_connected\<lparr> cl_requestSequence := 1, cl_pendingRequests := [(1, CAttach)], cl_leaseGenerations := [(''s'', 1)] \<rparr>"
    by (simp add: c2_def c1(2) handleData_def isCurrent_def connection_message_def handle_message_def applyEvent_def invalidateSessionLeases_def request_def
      sample_connected_def new_client_def)
  define c3 where "c3 = c2\<lparr> cl_leaseCounts := [(''s'', 1)], cl_exclusiveLeases := [(''s'', 2)] \<rparr>"
  have c3: "reserveSessionLease ''s'' ExclusiveLease 2 c2 = Some c3"
    by (simp add: c3_def c2 reserveSessionLease_def sample_connected_def new_client_def)
  define c4 where "c4 = handleData 1 (Some [ResponseOk 1 (SessionResult CAttach sample_session)]) c3"
  define c where "c = fst (createSessionLease ''s'' (fst (createSessionLease ''s'' c4)))"
  have "client_run [] c1" by (rule client_run.reserve [OF sample_connected_run c1(1)])
  from client_run.request [OF this, of CAttach Sent "fst (request CAttach Sent c1)" "snd (request CAttach Sent c1)"]
  have "client_run [(1, CAttach)] (fst (request CAttach Sent c1))" by (simp add: c1(2) request_def sample_connected_def new_client_def)
  then have "client_run [(1, CAttach)] c2" unfolding c2_def by (rule client_run.data)
  then have "client_run [(1, CAttach)] c3" by (rule client_run.reserve [OF _ c3])
  then have run: "client_run [(1, CAttach)] c" unfolding c_def c4_def by (intro client_run.leased client_run.data)
  have "lease_active ''s'' (snd (createSessionLease ''s'' c4)) c"
    by (simp add: c_def c4_def c3_def c2 lease_active_def createSessionLease_def isSessionAttached_def handleData_def isCurrent_def connection_message_def
      handle_message_def settle_request_def applyResult_def applySessionSnapshot_def sample_session_def sample_connected_def new_client_def)
  with run c1(1) c3 show ?thesis using c2_def c4_def c_def by blast
qed

end
