(* ===== verification/Lane_Reducer.thy ===== *)
theory Lane_Reducer
  imports Session_Types
begin

text \<open>
  \<^verbatim>\<open>packages/agent/src/harness/reducer.ts\<close>: recovery of a lane. \<open>validateRecordLog\<close> rejects
  record logs that the single-writer protocol cannot produce; \<open>reduceLaneState\<close> rebuilds the
  orchestration state of a lane from the records and entries that survived. Deep equality of
  payloads (\<^verbatim>\<open>Guard.IsDeepEqual\<close> of typebox) is the parameter \<open>deepEq\<close>. A corruption carries its
  reason; the text of its message is not modelled.
\<close>

section \<open>Inputs and results\<close>

datatype corruption =
    MultipleOpenOperations | UnknownOperation | RecordAfterFinish | NonConsecutiveAttempt
  | InvalidCompactionReason | QueueAfterAbort | InvalidQueueCancellation | InconsistentStep
  | ToolCallMismatch | DuplicateToolInvocation | ProvisionedEntryMismatch | InvalidDeferredHandle

record operation_start =
  os_id :: id
  os_seq :: int
  os_lane :: lane
  os_timestamp :: int
  os_sourceLeafId :: "id option"
  os_intent :: intent

record lane_configuration =
  lc_model :: "string \<times> string"
  lc_thinkingLevel :: string
  lc_activeToolNames :: "string list"

record lane_input =
  li_lane :: lane
  li_openOperations :: "operation_start list"
  li_records :: "lane_record list"
  li_entries :: "entry list"
  li_leafId :: "id option"
  li_ownEntries :: "entry list"
  li_configurationEntries :: "entry list"
  li_defaults :: lane_configuration

datatype failure_source = StepSource | DeferredFetchSource

record terminal_failure =
  tf_entryId :: id
  tf_source :: failure_source
  tf_message :: assistant_message

record tool_call_state =
  tcs_toolIndex :: nat
  tcs_toolCall :: tool_call
  tcs_started :: "(lane_record \<times> tool_started) option"
  tcs_resultExists :: bool
  tcs_terminate :: bool

record tool_batch =
  tb_assistantEntryId :: id
  tb_calls :: "tool_call_state list"
  tb_truncated :: bool
  tb_unresolved :: bool

record lane_step =
  ls_kind :: step_kind
  ls_attempts :: int
  ls_resultEntryId :: id
  ls_compactionReason :: "string option"

record newest_own =
  no_entryId :: id
  no_type :: entry_type
  no_role :: "role option"
  no_stopReason :: "stop_reason option"

record lane_operation =
  op_id :: id
  op_intent :: intent
  op_aborting :: bool
  op_step :: "lane_step option"
  op_toolBatch :: "tool_batch option"
  op_missingInitialMessages :: "provisioned_entry list"
  op_pendingSteer :: "provisioned_entry list"
  op_pendingFollowUp :: "provisioned_entry list"
  op_pendingWrites :: "provisioned_entry list"
  op_deferred :: "deferred_handle option"
  op_overflowRecoveryUsed :: bool
  op_newestOwn :: "newest_own option"
  op_targetResult :: "bool option"
  op_targetSummary :: "bool option"

record lane_state =
  lst_lane :: lane
  lst_leafId :: "id option"
  lst_operation :: "lane_operation option"
  lst_pendingNextRun :: "provisioned_entry list"

record lane_reduction =
  lr_laneState :: lane_state
  lr_effectiveConfiguration :: lane_configuration
  lr_terminalFailure :: "terminal_failure option"

section \<open>Validating the record log\<close>

type_synonym entry_index = "(id, entry) js_map"

definition index_entries :: "entry list \<Rightarrow> entry_index" where
  "index_entries es = fold (\<lambda>e. map_set (e_id e) e) es []"

definition as_provisioned :: "entry \<Rightarrow> provisioned_entry" where
  "as_provisioned e = \<lparr> pe_id = e_id e, pe_body = e_body e \<rparr>"

definition matchesProvisionedEntry ::
  "(provisioned_entry \<Rightarrow> provisioned_entry \<Rightarrow> bool) \<Rightarrow> entry \<Rightarrow> provisioned_entry \<Rightarrow> bool" where
  "matchesProvisionedEntry deepEq e target = deepEq (as_provisioned e) target"

definition validateExactProvisionedEntry ::
  "(provisioned_entry \<Rightarrow> provisioned_entry \<Rightarrow> bool) \<Rightarrow> entry_index \<Rightarrow> provisioned_entry
     \<Rightarrow> corruption + unit" where
  "validateExactProvisionedEntry deepEq byId target =
     (case map_get byId (pe_id target) of
        None \<Rightarrow> Inr ()
      | Some e \<Rightarrow> ensure (matchesProvisionedEntry deepEq e target) ProvisionedEntryMismatch)"

definition validateResultEntry ::
  "entry_index \<Rightarrow> id \<Rightarrow> (entry \<Rightarrow> bool) \<Rightarrow> corruption + unit" where
  "validateResultEntry byId resultEntryId matches =
     (case map_get byId resultEntryId of
        None \<Rightarrow> Inr ()
      | Some e \<Rightarrow> ensure (matches e) ProvisionedEntryMismatch)"

definition is_assistant :: "entry \<Rightarrow> bool" where
  "is_assistant e = (case e_body e of MessageEntry (AssistantMessage _) _ \<Rightarrow> True | _ \<Rightarrow> False)"

definition validateAttemptReason :: "step_attempt \<Rightarrow> corruption + unit" where
  "validateAttemptReason a =
     (if sa_step a = CompactionStep
      then ensure (sa_compactionReason a \<in> {Some ''manual'', Some ''threshold'', Some ''overflow''})
             InvalidCompactionReason
      else ensure (sa_compactionReason a = None) InvalidCompactionReason)"

definition continuesSeries ::
  "int \<Rightarrow> step_attempt \<Rightarrow> step_attempt option \<Rightarrow> entry_index \<Rightarrow> bool" where
  "continuesSeries seq a previous byId =
     (case previous of
        None \<Rightarrow> False
      | Some p \<Rightarrow> sa_step p = sa_step a \<and>
          (case map_get byId (sa_resultEntryId p) of None \<Rightarrow> True | Some r \<Rightarrow> e_seq r \<ge> seq))"

definition validateAttemptSequence ::
  "int \<Rightarrow> step_attempt \<Rightarrow> step_attempt option \<Rightarrow> entry_index \<Rightarrow> corruption + unit" where
  "validateAttemptSequence seq a previous byId =
     (let continues = continuesSeries seq a previous byId;
          expectedAttempt = (case previous of Some p \<Rightarrow> (if continues then sa_attempt p + 1 else 1)
                                            | None \<Rightarrow> 1)
      in rbind (ensure (sa_attempt a = expectedAttempt) NonConsecutiveAttempt) (\<lambda>_.
         if \<not> continues \<or> sa_step a = AssistantStep then Inr ()
         else case previous of
                None \<Rightarrow> Inr ()
              | Some p \<Rightarrow>
                  rbind (ensure (sa_resultEntryId a = sa_resultEntryId p) InconsistentStep) (\<lambda>_.
                  ensure (sa_compactionReason a = sa_compactionReason p) InconsistentStep)))"

definition validateAttemptResult :: "entry_index \<Rightarrow> step_attempt \<Rightarrow> corruption + unit" where
  "validateAttemptResult byId a =
     (case sa_step a of
        AssistantStep \<Rightarrow> validateResultEntry byId (sa_resultEntryId a) is_assistant
      | CompactionStep \<Rightarrow>
          validateResultEntry byId (sa_resultEntryId a) (\<lambda>e. e_type e = CompactionT)
      | BranchSummaryStep \<Rightarrow>
          validateResultEntry byId (sa_resultEntryId a) (\<lambda>e. e_type e = BranchSummaryT))"

definition tool_calls :: "content_block list \<Rightarrow> tool_call list" where
  "tool_calls content =
     concat (map (\<lambda>c. case c of ToolCallContent t \<Rightarrow> [t] | _ \<Rightarrow> []) content)"

definition is_tool_result :: "id \<Rightarrow> string \<Rightarrow> entry \<Rightarrow> bool" where
  "is_tool_result callId toolName e =
     (case e_body e of
        MessageEntry (ToolResultMessage m) _ \<Rightarrow> tr_toolCallId m = callId \<and> tr_toolName m = toolName
      | _ \<Rightarrow> False)"

definition validateToolStart ::
  "tool_started \<Rightarrow> entry_index \<Rightarrow> (id \<times> int) set \<Rightarrow> corruption + (id \<times> int) set" where
  "validateToolStart t byId invocations =
     rbind (ensure ((ts_assistantEntryId t, ts_toolIndex t) \<notin> invocations) DuplicateToolInvocation) (\<lambda>_.
     let invocations' = insert (ts_assistantEntryId t, ts_toolIndex t) invocations in
     case map_get byId (ts_assistantEntryId t) of
       None \<Rightarrow> Inl ToolCallMismatch
     | Some e \<Rightarrow>
         (case e_body e of
            MessageEntry (AssistantMessage m) _ \<Rightarrow>
              (let toolCalls = tool_calls (am_content m); i = ts_toolIndex t in
               rbind (ensure (0 \<le> i \<and> i < int (length toolCalls) \<and>
                              tc_id (toolCalls ! nat i) = ts_toolCallId t \<and>
                              tc_name (toolCalls ! nat i) = ts_toolName t) ToolCallMismatch) (\<lambda>_.
               rbind (validateResultEntry byId (ts_resultEntryId t)
                        (is_tool_result (ts_toolCallId t) (ts_toolName t))) (\<lambda>_.
               Inr invocations')))
          | _ \<Rightarrow> Inl ToolCallMismatch))"

definition validateDeferredHandles :: "entry list \<Rightarrow> corruption + unit" where
  "validateDeferredHandles es =
     rfold (\<lambda>_ e. case e_body e of
                    MessageEntry (AssistantMessage m) _ \<Rightarrow>
                      ensure (\<not> (am_stopReason m = Deferred \<and> am_deferred m = None)) InvalidDeferredHandle
                  | _ \<Rightarrow> Inr ()) () es"

definition validateOperationResult ::
  "(provisioned_entry \<Rightarrow> provisioned_entry \<Rightarrow> bool) \<Rightarrow> entry_index \<Rightarrow> intent \<Rightarrow> corruption + unit" where
  "validateOperationResult deepEq byId i =
     (case i of
        RunIntent r \<Rightarrow>
          rfold (\<lambda>_ target. validateExactProvisionedEntry deepEq byId target) () (ri_initialMessages r)
      | CompactionIntent c \<Rightarrow>
          validateResultEntry byId (ci_resultEntryId c) (\<lambda>e. e_type e = CompactionT)
      | NavigationIntent n \<Rightarrow>
          (case ni_summaryEntryId n of
             None \<Rightarrow> Inr ()
           | Some summaryId \<Rightarrow>
               (if summaryId = [] then Inr ()
                else validateResultEntry byId summaryId (\<lambda>e. e_type e = BranchSummaryT))))"

record log_check =
  lk_starts :: "id set"
  lk_finishedAt :: "(id, int) js_map"
  lk_abortedAt :: "(id, int) js_map"
  lk_queueEnqueues :: "(id, int \<times> id option) js_map"  \<comment> \<open>\<^verbatim>\<open>seq\<close> and \<^verbatim>\<open>runId\<close> of the record\<close>
  lk_latestAttempt :: "(id, step_attempt) js_map"
  lk_toolInvocations :: "(id \<times> int) set"

definition empty_check :: log_check where
  "empty_check = \<lparr> lk_starts = {}, lk_finishedAt = [], lk_abortedAt = [], lk_queueEnqueues = [],
     lk_latestAttempt = [], lk_toolInvocations = {} \<rparr>"

text \<open>The guard on records that belong to an operation.\<close>

definition check_owner :: "log_check \<Rightarrow> lane_record \<Rightarrow> corruption + unit" where
  "check_owner k r =
     (case body_runId (r_body r) of
        None \<Rightarrow> Inr ()
      | Some runId \<Rightarrow>
          rbind (ensure (runId \<in> lk_starts k) UnknownOperation) (\<lambda>_.
          case map_get (lk_finishedAt k) runId of
            None \<Rightarrow> Inr ()
          | Some finishSeq \<Rightarrow> ensure (\<not> r_seq r > finishSeq) RecordAfterFinish))"

definition check_body ::
  "(provisioned_entry \<Rightarrow> provisioned_entry \<Rightarrow> bool) \<Rightarrow> entry_index \<Rightarrow> log_check \<Rightarrow> lane_record
     \<Rightarrow> corruption + log_check" where
  "check_body deepEq byId k r =
     (case r_body r of
        OperationStarted _ _ \<Rightarrow> Inr k
      | OperationFinished runId _ _ \<Rightarrow>
          Inr (k\<lparr> lk_finishedAt := map_set runId (r_seq r) (lk_finishedAt k) \<rparr>)
      | AbortRequested runId \<Rightarrow>
          Inr (k\<lparr> lk_abortedAt := map_set runId (r_seq r) (lk_abortedAt k) \<rparr>)
      | StepAttempt a \<Rightarrow>
          rbind (validateAttemptReason a) (\<lambda>_.
          rbind (validateAttemptSequence (r_seq r) a (map_get (lk_latestAttempt k) (sa_runId a)) byId) (\<lambda>_.
          rbind (validateAttemptResult byId a) (\<lambda>_.
          Inr (k\<lparr> lk_latestAttempt := map_set (sa_runId a) a (lk_latestAttempt k) \<rparr>))))
      | ToolStarted t \<Rightarrow>
          rbind (validateToolStart t byId (lk_toolInvocations k)) (\<lambda>inv.
          Inr (k\<lparr> lk_toolInvocations := inv \<rparr>))
      | QueueEnqueued queue runId target \<Rightarrow>
          rbind (case (queue, runId) of
                   (NextRunQueue, _) \<Rightarrow> Inr ()
                 | (_, None) \<Rightarrow> Inr ()
                 | (_, Some run) \<Rightarrow>
                     (case map_get (lk_abortedAt k) run of
                        None \<Rightarrow> Inr ()
                      | Some abortSeq \<Rightarrow> ensure (\<not> r_seq r > abortSeq) QueueAfterAbort)) (\<lambda>_.
          rbind (validateExactProvisionedEntry deepEq byId target) (\<lambda>_.
          Inr (k\<lparr> lk_queueEnqueues := map_set (pe_id target) (r_seq r, runId) (lk_queueEnqueues k) \<rparr>)))
      | QueueCancelled runId entryId \<Rightarrow>
          rbind (case map_get (lk_queueEnqueues k) entryId of
                   None \<Rightarrow> Inl InvalidQueueCancellation
                 | Some (enqueueSeq, enqueueRun) \<Rightarrow>
                     ensure (\<not> (enqueueSeq \<ge> r_seq r \<or> enqueueRun \<noteq> runId \<or> map_has byId entryId))
                       InvalidQueueCancellation) (\<lambda>_. Inr k)
      | WriteDeferred _ target \<Rightarrow>
          rbind (validateExactProvisionedEntry deepEq byId target) (\<lambda>_. Inr k)
      | UsageRecord _ \<Rightarrow> Inr k)"

definition check_record_step ::
  "(provisioned_entry \<Rightarrow> provisioned_entry \<Rightarrow> bool) \<Rightarrow> entry_index \<Rightarrow> log_check \<Rightarrow> lane_record
     \<Rightarrow> corruption + log_check" where
  "check_record_step deepEq byId k r =
     (case r_body r of
        OperationStarted _ i \<Rightarrow>
          rbind (validateOperationResult deepEq byId i) (\<lambda>_.
          Inr (k\<lparr> lk_starts := insert (r_id r) (lk_starts k) \<rparr>))
      | _ \<Rightarrow> rbind (check_owner k r) (\<lambda>_. check_body deepEq byId k r))"

definition validateRecordLog ::
  "(provisioned_entry \<Rightarrow> provisioned_entry \<Rightarrow> bool) \<Rightarrow> operation_start list \<Rightarrow> lane_record list
     \<Rightarrow> entry list \<Rightarrow> corruption + unit" where
  "validateRecordLog deepEq openOperations recs es =
     rbind (ensure (\<not> length openOperations > 1) MultipleOpenOperations) (\<lambda>_.
     let byId = index_entries es in
     rbind (validateDeferredHandles (map snd byId)) (\<lambda>_.
     rbind (rfold (check_record_step deepEq byId) empty_check (sort_key r_seq recs)) (\<lambda>_. Inr ())))"

section \<open>Reducing a lane\<close>

definition configuration_step :: "lane_configuration \<Rightarrow> entry \<Rightarrow> lane_configuration" where
  "configuration_step c e =
     (case e_body e of
        ModelChangeEntry provider modelId \<Rightarrow> c\<lparr> lc_model := (provider, modelId) \<rparr>
      | ThinkingLevelEntry t \<Rightarrow> c\<lparr> lc_thinkingLevel := t \<rparr>
      | ActiveToolsEntry names \<Rightarrow> c\<lparr> lc_activeToolNames := names \<rparr>
      | MessageEntry (AssistantMessage m) _ \<Rightarrow> c\<lparr> lc_model := (am_provider m, am_model m) \<rparr>
      | _ \<Rightarrow> c)"

definition deriveEffectiveConfiguration :: "lane_input \<Rightarrow> lane_configuration" where
  "deriveEffectiveConfiguration input =
     foldl configuration_step (li_defaults input)
       (sort_key e_seq (map snd (index_entries (li_configurationEntries input @ li_ownEntries input))))"

definition deriveNewestOwn :: "entry option \<Rightarrow> newest_own option" where
  "deriveNewestOwn x =
     (case x of
        None \<Rightarrow> None
      | Some e \<Rightarrow> Some
          (case e_body e of
             MessageEntry (AssistantMessage m) _ \<Rightarrow>
               \<lparr> no_entryId = e_id e, no_type = MessageT, no_role = Some RoleAssistant,
                 no_stopReason = Some (am_stopReason m) \<rparr>
           | MessageEntry m _ \<Rightarrow>
               \<lparr> no_entryId = e_id e, no_type = MessageT, no_role = Some (message_role m),
                 no_stopReason = None \<rparr>
           | _ \<Rightarrow>
               \<lparr> no_entryId = e_id e, no_type = e_type e, no_role = None, no_stopReason = None \<rparr>))"

definition entry_terminates :: "entry \<Rightarrow> bool" where
  "entry_terminates e = (case e_body e of MessageEntry _ t \<Rightarrow> t | _ \<Rightarrow> False)"

fun newest_tool_message :: "entry list \<Rightarrow> (entry \<times> assistant_message) option" where
  "newest_tool_message [] = None"
| "newest_tool_message (e # older) =
     (case e_body e of
        MessageEntry (AssistantMessage m) _ \<Rightarrow>
          (if tool_calls (am_content m) \<noteq> [] then Some (e, m) else newest_tool_message older)
      | _ \<Rightarrow> newest_tool_message older)"

definition batch_starts ::
  "id \<Rightarrow> lane_record list \<Rightarrow> id \<Rightarrow> (int, lane_record \<times> tool_started) js_map" where
  "batch_starts operationId recs assistantId =
     fold (\<lambda>r starts. case r_body r of
               ToolStarted t \<Rightarrow>
                 (if ts_runId t = operationId \<and> ts_assistantEntryId t = assistantId
                  then map_set (ts_toolIndex t) (r, t) starts else starts)
             | _ \<Rightarrow> starts) recs []"

definition blocked_result :: "entry \<Rightarrow> id set \<Rightarrow> id \<Rightarrow> entry \<Rightarrow> bool" where
  "blocked_result assistantEntry deferredWriteIds callId e =
     (e_seq e > e_seq assistantEntry \<and> e_id e \<notin> deferredWriteIds \<and>
      (case e_body e of MessageEntry (ToolResultMessage m) _ \<Rightarrow> tr_toolCallId m = callId | _ \<Rightarrow> False))"

definition tool_call_state_of ::
  "(int, lane_record \<times> tool_started) js_map \<Rightarrow> entry list \<Rightarrow> entry_index \<Rightarrow> id set \<Rightarrow> entry
     \<Rightarrow> nat \<times> tool_call \<Rightarrow> tool_call_state" where
  "tool_call_state_of starts ownEntries byId deferredWriteIds assistantEntry = (\<lambda>(toolIndex, toolCall).
     let started = map_get starts (int toolIndex);
         startedResult = (case started of None \<Rightarrow> None
                          | Some (_, t) \<Rightarrow> map_get byId (ts_resultEntryId t));
         result = (case startedResult of
                     Some e \<Rightarrow> Some e
                   | None \<Rightarrow> List.find (blocked_result assistantEntry deferredWriteIds (tc_id toolCall)) ownEntries)
     in \<lparr> tcs_toolIndex = toolIndex, tcs_toolCall = toolCall, tcs_started = started,
          tcs_resultExists = (result \<noteq> None),
          tcs_terminate = (case result of None \<Rightarrow> False | Some e \<Rightarrow> entry_terminates e) \<rparr>)"

definition deriveToolBatch ::
  "id \<Rightarrow> lane_record list \<Rightarrow> entry list \<Rightarrow> entry_index \<Rightarrow> id set \<Rightarrow> tool_batch option" where
  "deriveToolBatch operationId recs ownEntries byId deferredWriteIds =
     (case newest_tool_message (rev ownEntries) of
        None \<Rightarrow> None
      | Some (assistantEntry, m) \<Rightarrow>
          (let starts = batch_starts operationId recs (e_id assistantEntry);
               calls = map (tool_call_state_of starts ownEntries byId deferredWriteIds assistantEntry)
                         (enumerate 0 (tool_calls (am_content m)))
           in Some \<lparr> tb_assistantEntryId = e_id assistantEntry, tb_calls = calls,
                     tb_truncated = (am_stopReason m = Length),
                     tb_unresolved = list_ex (\<lambda>c. \<not> tcs_resultExists c) calls \<rparr>))"

definition cancelled_ids :: "lane_record list \<Rightarrow> id set" where
  "cancelled_ids recs =
     set (concat (map (\<lambda>r. case r_body r of QueueCancelled _ i \<Rightarrow> [i] | _ \<Rightarrow> []) recs))"

text \<open>Enqueued items that are neither in the tree nor cancelled, in sequence order.\<close>

definition pendingQueueRecords ::
  "lane_record list \<Rightarrow> entry_index \<Rightarrow> (queue_kind \<times> id option \<times> provisioned_entry) list" where
  "pendingQueueRecords recs byId =
     concat (map (\<lambda>r. case r_body r of
         QueueEnqueued queue runId target \<Rightarrow>
           (if \<not> map_has byId (pe_id target) \<and> pe_id target \<notin> cancelled_ids recs
            then [(queue, runId, target)] else [])
       | _ \<Rightarrow> []) recs)"

definition initial_messages :: "intent \<Rightarrow> provisioned_entry list" where
  "initial_messages i = (case i of RunIntent r \<Rightarrow> ri_initialMessages r | _ \<Rightarrow> [])"

definition pending_next_run ::
  "(queue_kind \<times> id option \<times> provisioned_entry) list \<Rightarrow> operation_start option
     \<Rightarrow> provisioned_entry list" where
  "pending_next_run pending started =
     (let captured = (case started of None \<Rightarrow> [] | Some s \<Rightarrow> map pe_id (initial_messages (os_intent s)))
      in map (\<lambda>(_, _, t). t)
           (filter (\<lambda>(queue, _, t). queue = NextRunQueue \<and> pe_id t \<notin> set captured) pending))"

definition pending_in ::
  "queue_kind \<Rightarrow> id \<Rightarrow> (queue_kind \<times> id option \<times> provisioned_entry) list \<Rightarrow> provisioned_entry list" where
  "pending_in queue runId pending =
     map (\<lambda>(_, _, t). t) (filter (\<lambda>(q, r, _). q = queue \<and> r = Some runId) pending)"

definition operationRecords :: "lane_record list \<Rightarrow> id \<Rightarrow> lane_record list" where
  "operationRecords recs startedId =
     filter (\<lambda>r. case r_body r of OperationStarted _ _ \<Rightarrow> r_id r = startedId
                                | b \<Rightarrow> body_runId b = Some startedId) recs"

definition step_attempts :: "lane_record list \<Rightarrow> (lane_record \<times> step_attempt) list" where
  "step_attempts recs =
     concat (map (\<lambda>r. case r_body r of StepAttempt a \<Rightarrow> [(r, a)] | _ \<Rightarrow> []) recs)"

definition deferred_writes :: "lane_record list \<Rightarrow> provisioned_entry list" where
  "deferred_writes recs =
     concat (map (\<lambda>r. case r_body r of WriteDeferred _ t \<Rightarrow> [t] | _ \<Rightarrow> []) recs)"

definition derive_step :: "lane_record list \<Rightarrow> entry_index \<Rightarrow> lane_step option" where
  "derive_step opRecs byId =
     (case rev (step_attempts opRecs) of
        [] \<Rightarrow> None
      | (_, a) # _ \<Rightarrow>
          (if map_has byId (sa_resultEntryId a) then None
           else Some \<lparr> ls_kind = sa_step a, ls_attempts = sa_attempt a,
                       ls_resultEntryId = sa_resultEntryId a,
                       ls_compactionReason =
                         (if sa_step a = CompactionStep then sa_compactionReason a else None) \<rparr>))"

definition consumed_input_ids :: "intent \<Rightarrow> lane_record list \<Rightarrow> id list" where
  "consumed_input_ids i opRecs =
     map pe_id (initial_messages i)
     @ concat (map (\<lambda>r. case r_body r of
           QueueEnqueued queue _ t \<Rightarrow> (if queue \<noteq> NextRunQueue then [pe_id t] else [])
         | _ \<Rightarrow> []) opRecs)"

text \<open>\<open>None\<close> stands for \<^verbatim>\<open>Number.NEGATIVE_INFINITY\<close>.\<close>

definition newest_consumed_seq :: "id list \<Rightarrow> entry_index \<Rightarrow> int option" where
  "newest_consumed_seq ids byId =
     fold (\<lambda>i acc. case map_get byId i of
               Some e \<Rightarrow> (if e_type e = MessageT
                          then Some (case acc of None \<Rightarrow> e_seq e | Some m \<Rightarrow> max m (e_seq e))
                          else acc)
             | None \<Rightarrow> acc) ids None"

definition overflow_recovery_used :: "intent \<Rightarrow> lane_record list \<Rightarrow> entry_index \<Rightarrow> bool" where
  "overflow_recovery_used i opRecs byId =
     list_ex (\<lambda>(r, a). sa_step a = CompactionStep \<and> sa_compactionReason a = Some ''overflow'' \<and>
                 (case newest_consumed_seq (consumed_input_ids i opRecs) byId of
                    None \<Rightarrow> True | Some m \<Rightarrow> r_seq r > m))
       (step_attempts opRecs)"

definition newest_assistant :: "entry list \<Rightarrow> assistant_message option" where
  "newest_assistant newestFirst =
     (case newestFirst of
        [] \<Rightarrow> None
      | e # _ \<Rightarrow> (case e_body e of MessageEntry (AssistantMessage m) _ \<Rightarrow> Some m | _ \<Rightarrow> None))"

definition derive_deferred :: "entry list \<Rightarrow> deferred_handle option" where
  "derive_deferred ownEntries =
     (case newest_assistant (rev ownEntries) of
        None \<Rightarrow> None
      | Some m \<Rightarrow> (if am_stopReason m = Deferred then am_deferred m else None))"

definition derive_terminal_failure ::
  "lane_record list \<Rightarrow> entry list \<Rightarrow> id set \<Rightarrow> terminal_failure option" where
  "derive_terminal_failure opRecs ownEntries deferredWriteIds =
     (case rev ownEntries of
        [] \<Rightarrow> None
      | newest # older \<Rightarrow>
          (case newest_assistant (newest # older) of
             None \<Rightarrow> None
           | Some m \<Rightarrow>
               (if am_stopReason m = Error \<and> e_id newest \<notin> deferredWriteIds then
                  (let producedByStep =
                         list_ex (\<lambda>(_, a). sa_resultEntryId a = e_id newest) (step_attempts opRecs);
                       producedByDeferredFetch =
                         (list_ex (\<lambda>r. case r_body r of
                              UsageRecord u \<Rightarrow> ur_cause u = DeferredFetchCause \<and>
                                               ur_entryId u = Some (e_id newest)
                            | _ \<Rightarrow> False) opRecs \<or>
                          (case newest_assistant older of
                             None \<Rightarrow> False | Some p \<Rightarrow> am_stopReason p = Deferred))
                   in if producedByStep \<or> producedByDeferredFetch
                      then Some \<lparr> tf_entryId = e_id newest,
                                  tf_source = (if producedByStep then StepSource else DeferredFetchSource),
                                  tf_message = m \<rparr>
                      else None)
                else None)))"

definition derive_operation ::
  "operation_start \<Rightarrow> lane_record list \<Rightarrow> entry list \<Rightarrow> entry_index
     \<Rightarrow> (queue_kind \<times> id option \<times> provisioned_entry) list \<Rightarrow> lane_operation" where
  "derive_operation started recs ownEntries byId pending =
     (let opRecs = operationRecords recs (os_id started);
          aborting = list_ex (\<lambda>r. record_body_type (r_body r) = AbortRequestedT) opRecs;
          deferredWriteIds = set (map pe_id (deferred_writes opRecs))
      in \<lparr> op_id = os_id started,
           op_intent = os_intent started,
           op_aborting = aborting,
           op_step = derive_step opRecs byId,
           op_toolBatch = deriveToolBatch (os_id started) opRecs ownEntries byId deferredWriteIds,
           op_missingInitialMessages =
             filter (\<lambda>t. \<not> map_has byId (pe_id t)) (initial_messages (os_intent started)),
           op_pendingSteer = (if aborting then [] else pending_in SteerQueue (os_id started) pending),
           op_pendingFollowUp =
             (if aborting then [] else pending_in FollowUpQueue (os_id started) pending),
           op_pendingWrites = filter (\<lambda>t. \<not> map_has byId (pe_id t)) (deferred_writes opRecs),
           op_deferred = derive_deferred ownEntries,
           op_overflowRecoveryUsed = overflow_recovery_used (os_intent started) opRecs byId,
           op_newestOwn = deriveNewestOwn (case rev ownEntries of [] \<Rightarrow> None | e # _ \<Rightarrow> Some e),
           op_targetResult =
             (case os_intent started of
                CompactionIntent c \<Rightarrow> Some (map_has byId (ci_resultEntryId c)) | _ \<Rightarrow> None),
           op_targetSummary =
             (case os_intent started of
                NavigationIntent n \<Rightarrow>
                  (case ni_summaryEntryId n of
                     None \<Rightarrow> None
                   | Some summaryId \<Rightarrow> (if summaryId = [] then None else Some (map_has byId summaryId)))
              | _ \<Rightarrow> None) \<rparr>)"

definition reduceLaneState ::
  "(provisioned_entry \<Rightarrow> provisioned_entry \<Rightarrow> bool) \<Rightarrow> lane_input \<Rightarrow> corruption + lane_reduction" where
  "reduceLaneState deepEq input =
     rbind (validateRecordLog deepEq (li_openOperations input) (li_records input) (li_entries input)) (\<lambda>_.
     let recs = sort_key r_seq (li_records input);
         ownEntries = sort_key e_seq (li_ownEntries input);
         byId = index_entries (li_entries input @ ownEntries);
         pending = pendingQueueRecords recs byId;
         started = (case li_openOperations input of [] \<Rightarrow> None | s # _ \<Rightarrow> Some s);
         pendingNextRun = pending_next_run pending started;
         configuration = deriveEffectiveConfiguration input
     in case started of
          None \<Rightarrow>
            Inr \<lparr> lr_laneState = \<lparr> lst_lane = li_lane input, lst_leafId = li_leafId input,
                                   lst_operation = None, lst_pendingNextRun = pendingNextRun \<rparr>,
                  lr_effectiveConfiguration = configuration,
                  lr_terminalFailure = None \<rparr>
        | Some s \<Rightarrow>
            (let opRecs = operationRecords recs (os_id s)
             in Inr \<lparr> lr_laneState =
                        \<lparr> lst_lane = li_lane input, lst_leafId = li_leafId input,
                          lst_operation = Some (derive_operation s recs ownEntries byId pending),
                          lst_pendingNextRun = pendingNextRun \<rparr>,
                      lr_effectiveConfiguration = configuration,
                      lr_terminalFailure =
                        derive_terminal_failure opRecs ownEntries
                          (set (map pe_id (deferred_writes opRecs))) \<rparr>))"

end
