(* ===== verification/Lane_Recovery.thy ===== *)
theory Lane_Recovery
  imports Lane_Reducer "HOL-Library.Multiset"
begin

text \<open>
  What the recovery of a lane guarantees: an accepted record log is well formed, the result does
  not depend on the order in which a backend returned the records, and the queues handed back
  hold exactly the work that is still to be done.
\<close>

section \<open>Accepted logs\<close>

definition starts_op :: "id \<Rightarrow> lane_record \<Rightarrow> bool" where
  "starts_op i r = (r_id r = i \<and> record_body_type (r_body r) = OperationStartedT)"

definition finishes_op :: "id \<Rightarrow> lane_record \<Rightarrow> bool" where
  "finishes_op i r = (case r_body r of OperationFinished run _ _ \<Rightarrow> run = i | _ \<Rightarrow> False)"

definition aborts_op :: "id \<Rightarrow> lane_record \<Rightarrow> bool" where
  "aborts_op i r = (case r_body r of AbortRequested run \<Rightarrow> run = i | _ \<Rightarrow> False)"

definition last_seq :: "(lane_record \<Rightarrow> bool) \<Rightarrow> lane_record list \<Rightarrow> int option" where
  "last_seq P rs = (case rev (filter P rs) of [] \<Rightarrow> None | r # _ \<Rightarrow> Some (r_seq r))"

lemma last_seq_snoc [simp]:
  "last_seq P (rs @ [r]) = (if P r then Some (r_seq r) else last_seq P rs)"
  by (simp add: last_seq_def)

lemma last_seq_sorted:
  assumes "sorted (map r_seq rs)" and "r \<in> set rs" and "P r"
  shows "\<exists>q. last_seq P rs = Some q \<and> r_seq r \<le> q"
  using assms
proof (induction rs rule: rev_induct)
  case (snoc x xs)
  then show ?case by (auto simp: sorted_append)
qed simp

text \<open>The bookkeeping of the validation loop after the records \<open>rs\<close>.\<close>

definition check_inv :: "lane_record list \<Rightarrow> log_check \<Rightarrow> bool" where
  "check_inv rs k =
     (lk_starts k = {i. \<exists>r \<in> set rs. starts_op i r} \<and>
      map_get (lk_finishedAt k) = (\<lambda>i. last_seq (finishes_op i) rs) \<and>
      map_get (lk_abortedAt k) = (\<lambda>i. last_seq (aborts_op i) rs))"

lemma check_inv_empty: "check_inv [] empty_check"
  by (simp add: check_inv_def empty_check_def last_seq_def)

lemma check_inv_step:
  assumes "check_inv rs k" and "check_record_step deepEq byId k r = Inr k'"
  shows "check_inv (rs @ [r]) k'"
proof (cases "r_body r")
  case (OperationStarted x2 i)
  with assms show ?thesis
    by (auto simp: check_record_step_def rbind_Inr_iff check_inv_def starts_op_def finishes_op_def
        aborts_op_def fun_eq_iff)
qed (use assms in \<open>auto simp: check_record_step_def rbind_Inr_iff check_body_def check_inv_def
      starts_op_def finishes_op_def aborts_op_def fun_eq_iff\<close>)

lemma check_inv_run:
  "rfold (check_record_step deepEq byId) empty_check rs = Inr k \<Longrightarrow> check_inv rs k"
proof (induction rs arbitrary: k rule: rev_induct)
  case (snoc r rs)
  then show ?case
    by (auto simp: rfold_append rbind_Inr_iff intro: check_inv_step)
qed (simp add: check_inv_empty)

lemma last_seq_Some: "last_seq P rs = Some q \<Longrightarrow> \<exists>g \<in> set rs. P g \<and> r_seq g = q"
  by (induction rs rule: rev_induct) (auto simp: last_seq_def split: if_splits)

lemma last_seq_None: "last_seq P rs = None \<Longrightarrow> r \<in> set rs \<Longrightarrow> \<not> P r"
  by (auto simp: last_seq_def filter_empty_conv split: list.splits)

text \<open>
  A bookkeeping entry that is not older than the current record belongs to no earlier record
  when sequence numbers are distinct and ascending.
\<close>

lemma no_earlier:
  assumes "\<forall>x \<in> set xs. r_seq x < q" and "case last_seq P xs of None \<Rightarrow> True | Some p \<Rightarrow> q \<le> p"
    and "x \<in> set xs"
  shows "\<not> P x"
proof (cases "last_seq P xs")
  case None
  then show ?thesis using assms(3) by (rule last_seq_None)
next
  case (Some p)
  then obtain g where "g \<in> set xs" "r_seq g = p" using last_seq_Some by blast
  with assms(1,2) Some show ?thesis by force
qed

lemma accepted_split:
  assumes "validateRecordLog deepEq ops recs es = Inr u" and "r \<in> set recs"
    and "distinct (map r_seq recs)"
  obtains xs k k' where "set xs = {x \<in> set recs. r_seq x < r_seq r}" "check_inv xs k"
    "check_record_step deepEq (index_entries es) k r = Inr k'"
proof -
  from assms(1) obtain kk where run:
    "rfold (check_record_step deepEq (index_entries es)) empty_check (sort_key r_seq recs) = Inr kk"
    by (auto simp: validateRecordLog_def rbind_Inr_iff Let_def)
  from assms(2) obtain xs ys where srt: "sort_key r_seq recs = xs @ r # ys"
    by (metis set_sort split_list)
  have sorted: "sorted (map r_seq (xs @ r # ys))" by (metis srt sorted_sort_key)
  have "distinct (map r_seq (sort_key r_seq recs))"
    using assms(3) by (metis distinct_map distinct_sort set_sort)
  with srt have "distinct (map r_seq (xs @ r # ys))" by simp
  then have "r_seq r \<notin> r_seq ` set xs" by simp
  moreover have "r_seq x \<le> r_seq r" if "x \<in> set xs" for x
    using sorted that by (simp add: sorted_append)
  ultimately have "r_seq x < r_seq r" if "x \<in> set xs" for x
    using that by (metis imageI le_neq_trans)
  moreover have "r_seq r \<le> r_seq y" if "y \<in> set ys" for y
    using sorted that by (simp add: sorted_append)
  moreover have "set recs = set xs \<union> {r} \<union> set ys" using arg_cong [OF srt, of set] by auto
  ultimately have xs: "set xs = {x \<in> set recs. r_seq x < r_seq r}"
    by (auto dest: leD)
  from run srt obtain k k' where
    "rfold (check_record_step deepEq (index_entries es)) empty_check xs = Inr k"
    "check_record_step deepEq (index_entries es) k r = Inr k'"
    by (auto simp: rfold_append rbind_Inr_iff)
  with xs that show ?thesis by (blast intro: check_inv_run)
qed

lemma step_owner:
  "check_record_step deepEq byId k r = Inr k' \<Longrightarrow> body_runId (r_body r) = Some i \<Longrightarrow>
   check_owner k r = Inr ()"
  by (auto simp: check_record_step_def rbind_Inr_iff split: record_body.splits)

lemma step_queue:
  "check_record_step deepEq byId k r = Inr k' \<Longrightarrow> r_body r = QueueEnqueued q (Some i) t \<Longrightarrow>
   q \<noteq> NextRunQueue \<Longrightarrow>
   (case map_get (lk_abortedAt k) i of None \<Rightarrow> True | Some p \<Rightarrow> r_seq r \<le> p)"
  by (cases q) (auto simp: check_record_step_def check_body_def rbind_Inr_iff split: option.splits)

lemma accepted_owner:
  assumes "validateRecordLog deepEq ops recs es = Inr u" and "distinct (map r_seq recs)"
    and "r \<in> set recs" and "body_runId (r_body r) = Some i"
  shows "(\<exists>s \<in> set recs. starts_op i s \<and> r_seq s < r_seq r) \<and>
    (\<forall>f \<in> set recs. finishes_op i f \<longrightarrow> r_seq r \<le> r_seq f)"
proof -
  obtain xs k k' where xs: "set xs = {x \<in> set recs. r_seq x < r_seq r}" and inv: "check_inv xs k"
    and step: "check_record_step deepEq (index_entries es) k r = Inr k'"
    using accepted_split [OF assms(1,3,2)] .
  note own = step_owner [OF step assms(4)]
  from own inv assms(4) have "\<exists>s \<in> set xs. starts_op i s"
    and fin: "case last_seq (finishes_op i) xs of None \<Rightarrow> True | Some p \<Rightarrow> r_seq r \<le> p"
    by (auto simp: check_owner_def rbind_Inr_iff check_inv_def split: option.splits)
  moreover have "\<not> finishes_op i x" if "x \<in> set xs" for x
    using no_earlier [OF _ fin that] xs by auto
  ultimately show ?thesis using xs by force
qed

lemma accepted_queue:
  assumes "validateRecordLog deepEq ops recs es = Inr u" and "distinct (map r_seq recs)"
    and "r \<in> set recs" and "r_body r = QueueEnqueued q (Some i) t" and "q \<noteq> NextRunQueue"
    and "a \<in> set recs" and "aborts_op i a"
  shows "r_seq r \<le> r_seq a"
proof -
  obtain xs k k' where xs: "set xs = {x \<in> set recs. r_seq x < r_seq r}" and inv: "check_inv xs k"
    and step: "check_record_step deepEq (index_entries es) k r = Inr k'"
    using accepted_split [OF assms(1,3,2)] .
  have "case last_seq (aborts_op i) xs of None \<Rightarrow> True | Some p \<Rightarrow> r_seq r \<le> p"
    using step_queue [OF step assms(4,5)] inv by (simp add: check_inv_def)
  from no_earlier [OF _ this] xs assms(6,7) show ?thesis by force
qed

section \<open>Independence from the order of the input\<close>

lemma sort_key_unique:
  assumes "mset xs = mset ys" and "distinct (map f xs)"
  shows "sort_key f xs = sort_key f ys"
proof -
  have s: "set (sort_key f xs) = set (sort_key f ys)"
    using assms(1) by (metis set_mset_mset set_sort)
  have inj: "inj_on f (set xs)" using assms(2) by (simp add: distinct_map)
  have "map f (sort_key f xs) = map f (sort_key f ys)"
  proof (rule sorted_distinct_set_unique)
    show "distinct (map f (sort_key f xs))"
      using assms(2) by (simp add: distinct_map)
    show "distinct (map f (sort_key f ys))"
      using assms by (metis distinct_map distinct_sort mset_eq_imp_distinct_iff s set_sort)
  qed (use s in simp_all)
  then show ?thesis
    using inj s by (metis inj_on_map_eq_map set_sort sup.idem)
qed

lemma validateRecordLog_permuted:
  "mset recs = mset recs' \<Longrightarrow> distinct (map r_seq recs) \<Longrightarrow>
   validateRecordLog deepEq ops recs es = validateRecordLog deepEq ops recs' es"
  by (simp add: validateRecordLog_def sort_key_unique [of recs recs'])

lemma reduceLaneState_permuted:
  assumes "mset (li_records input) = mset recs" and "distinct (map r_seq (li_records input))"
  shows "reduceLaneState deepEq (input\<lparr> li_records := recs \<rparr>) = reduceLaneState deepEq input"
  using validateRecordLog_permuted [OF assms] sort_key_unique [OF assms]
  by (simp add: reduceLaneState_def deriveEffectiveConfiguration_def Let_def split: list.split)

section \<open>The queues that are handed back\<close>

definition known_ids :: "lane_input \<Rightarrow> id set" where
  "known_ids input = e_id ` set (li_entries input) \<union> e_id ` set (li_ownEntries input)"

lemma index_entries_keys_gen:
  "fst ` set (fold (\<lambda>e. map_set (e_id e) e) es m) = fst ` set m \<union> e_id ` set es"
  by (induction es arbitrary: m) (auto simp: dom_update)

lemma index_entries_has [simp]: "map_has (index_entries es) i \<longleftrightarrow> i \<in> e_id ` set es"
  by (simp add: map_has_iff index_entries_def index_entries_keys_gen)

lemma cancelled_ids_iff:
  "i \<in> cancelled_ids recs \<longleftrightarrow> (\<exists>r \<in> set recs. \<exists>run. r_body r = QueueCancelled run i)"
proof -
  have "i \<in> set (case r_body r of QueueCancelled _ j \<Rightarrow> [j] | _ \<Rightarrow> []) \<longleftrightarrow> (\<exists>run. r_body r = QueueCancelled run i)"
    for r by (cases "r_body r") auto
  then show ?thesis unfolding cancelled_ids_def by (simp only: set_concat set_map) blast
qed

lemma pendingQueueRecords_iff:
  "(q, run, t) \<in> set (pendingQueueRecords recs byId) \<longleftrightarrow>
     (\<exists>r \<in> set recs. r_body r = QueueEnqueued q run t) \<and> \<not> map_has byId (pe_id t) \<and>
     pe_id t \<notin> cancelled_ids recs"
proof -
  have "(q, run, t) \<in> set (case r_body r of
         QueueEnqueued queue runId target \<Rightarrow>
           (if \<not> map_has byId (pe_id target) \<and> pe_id target \<notin> cancelled_ids recs
            then [(queue, runId, target)] else [])
       | _ \<Rightarrow> []) \<longleftrightarrow> r_body r = QueueEnqueued q run t \<and> \<not> map_has byId (pe_id t) \<and>
     pe_id t \<notin> cancelled_ids recs" for r
    by (cases "r_body r") auto
  then show ?thesis unfolding pendingQueueRecords_def by (simp only: set_concat set_map) blast
qed

lemma pending_in_iff:
  "t \<in> set (pending_in q i pending) \<longleftrightarrow> (q, Some i, t) \<in> set pending"
  by (force simp: pending_in_def)

text \<open>An item that a queue of the operation still owes: enqueued, not in the tree, not cancelled.\<close>

definition owed :: "lane_input \<Rightarrow> queue_kind \<Rightarrow> id option \<Rightarrow> provisioned_entry \<Rightarrow> bool" where
  "owed input q run t =
     ((\<exists>r \<in> set (li_records input). r_body r = QueueEnqueued q run t) \<and>
      pe_id t \<notin> known_ids input \<and>
      (\<forall>r \<in> set (li_records input). \<forall>run'. r_body r \<noteq> QueueCancelled run' (pe_id t)))"

lemma pending_owed:
  "(q, run, t) \<in> set (pendingQueueRecords (sort_key r_seq (li_records input))
       (index_entries (li_entries input @ sort_key e_seq (li_ownEntries input)))) \<longleftrightarrow> owed input q run t"
  by (auto simp: pendingQueueRecords_iff owed_def known_ids_def cancelled_ids_iff)

definition abort_requested :: "lane_input \<Rightarrow> id \<Rightarrow> bool" where
  "abort_requested input i = (\<exists>r \<in> set (li_records input). aborts_op i r)"

lemma operationRecords_abort:
  "list_ex (\<lambda>r. record_body_type (r_body r) = AbortRequestedT) (operationRecords recs i)
     \<longleftrightarrow> (\<exists>r \<in> set recs. aborts_op i r)"
proof -
  have "(case r_body r of OperationStarted _ _ \<Rightarrow> r_id r = i | b \<Rightarrow> body_runId b = Some i) \<and>
      record_body_type (r_body r) = AbortRequestedT \<longleftrightarrow> aborts_op i r" for r
    by (cases "r_body r") (auto simp: aborts_op_def)
  then show ?thesis by (auto simp: operationRecords_def list_ex_iff)
qed

lemma reduce_open:
  assumes "reduceLaneState deepEq input = Inr res" and "li_openOperations input = s # rest"
  shows "rest = [] \<and> lst_operation (lr_laneState res) = Some (derive_operation s
      (sort_key r_seq (li_records input)) (sort_key e_seq (li_ownEntries input))
      (index_entries (li_entries input @ sort_key e_seq (li_ownEntries input)))
      (pendingQueueRecords (sort_key r_seq (li_records input))
        (index_entries (li_entries input @ sort_key e_seq (li_ownEntries input)))))"
  using assms
  by (auto simp: reduceLaneState_def validateRecordLog_def rbind_Inr_iff Let_def)

lemma reduce_queues:
  assumes "reduceLaneState deepEq input = Inr res" and "li_openOperations input = s # rest"
    and "lst_operation (lr_laneState res) = Some op"
  shows "op_aborting op = abort_requested input (os_id s)"
    and "t \<in> set (op_pendingSteer op) \<longleftrightarrow>
      \<not> abort_requested input (os_id s) \<and> owed input SteerQueue (Some (os_id s)) t"
    and "t \<in> set (op_pendingFollowUp op) \<longleftrightarrow>
      \<not> abort_requested input (os_id s) \<and> owed input FollowUpQueue (Some (os_id s)) t"
  using reduce_open [OF assms(1,2)] assms(3)
  by (auto simp: derive_operation_def Let_def operationRecords_abort abort_requested_def
      pending_in_iff pending_owed)

section \<open>Recovering a lane\<close>

definition sample_run :: record_body where
  "sample_run = OperationStarted None (RunIntent \<lparr> ri_originalPrompt = [], ri_initialMessages = [],
     ri_systemPromptOverride = None, ri_resumeData = None \<rparr>)"

definition sample_record :: "id \<Rightarrow> int \<Rightarrow> record_body \<Rightarrow> lane_record" where
  "sample_record i n b = \<lparr> r_id = i, r_seq = n, r_lane = ''main'', r_timestamp = 0, r_body = b \<rparr>"

definition sample_target :: provisioned_entry where
  "sample_target = \<lparr> pe_id = ''m'', pe_body = MessageEntry
     (UserMessage \<lparr> um_content = StringContent ''hi'', um_timestamp = 0 \<rparr>) False \<rparr>"

definition sample_records :: "lane_record list" where
  "sample_records = [sample_record ''r'' 1 sample_run,
     sample_record ''q'' 2 (QueueEnqueued SteerQueue (Some ''r'') sample_target),
     sample_record ''x'' 3 (AbortRequested ''r'')]"

definition sample_start_of :: operation_start where
  "sample_start_of = \<lparr> os_id = ''r'', os_seq = 1, os_lane = ''main'', os_timestamp = 0, os_sourceLeafId = None,
     os_intent = RunIntent \<lparr> ri_originalPrompt = [], ri_initialMessages = [],
     ri_systemPromptOverride = None, ri_resumeData = None \<rparr> \<rparr>"

definition sample_input :: "lane_record list \<Rightarrow> lane_input" where
  "sample_input rs = \<lparr> li_lane = ''main'', li_openOperations = [sample_start_of], li_records = rs, li_entries = [],
     li_leafId = None, li_ownEntries = [], li_configurationEntries = [],
     li_defaults = \<lparr> lc_model = (''p'', ''m''), lc_thinkingLevel = ''off'', lc_activeToolNames = [] \<rparr> \<rparr>"

lemma sample_records_valid: "validateRecordLog (=) [sample_start_of] sample_records [] = Inr ()"
  by code_simp

text \<open>In an accepted record log every record of an operation stands after the record that started the
operation and not after a record that finished it.\<close>

theorem accepted_log_ownership:
  assumes "validateRecordLog deepEq ops recs es = Inr u" and "distinct (map r_seq recs)"
    and "r \<in> set recs" and "body_runId (r_body r) = Some i"
  shows "(\<exists>s \<in> set recs. starts_op i s \<and> r_seq s < r_seq r) \<and>
    (\<forall>f \<in> set recs. finishes_op i f \<longrightarrow> r_seq r \<le> r_seq f)"
  using assms by (rule accepted_owner)

theorem accepted_log_ownership_witness:
  "validateRecordLog (=) [sample_start_of] sample_records [] = Inr () \<and>
   (\<exists>s \<in> set sample_records. starts_op ''r'' s \<and> r_seq s < 3)"
proof -
  have "distinct (map r_seq sample_records)" "sample_record ''x'' 3 (AbortRequested ''r'') \<in> set sample_records"
    by (simp_all add: sample_records_def sample_record_def)
  then show ?thesis
    using accepted_log_ownership [OF sample_records_valid, of "sample_record ''x'' 3 (AbortRequested ''r'')" "''r''"]
      sample_records_valid
    by (simp add: sample_record_def)
qed

text \<open>In an accepted record log nothing is queued for a run after its abort was requested.\<close>

theorem no_enqueue_after_abort:
  assumes "validateRecordLog deepEq ops recs es = Inr u" and "distinct (map r_seq recs)"
    and "r \<in> set recs" and "r_body r = QueueEnqueued q (Some i) t" and "q \<noteq> NextRunQueue"
    and "a \<in> set recs" and "r_body a = AbortRequested i"
  shows "r_seq r \<le> r_seq a"
  using accepted_queue [OF assms(1-6)] assms(7) by (simp add: aborts_op_def)

theorem no_enqueue_after_abort_witness:
  "validateRecordLog (=) [sample_start_of] sample_records [] = Inr () \<and> (2 :: int) \<le> 3"
proof -
  let ?q = "sample_record ''q'' 2 (QueueEnqueued SteerQueue (Some ''r'') sample_target)"
  let ?a = "sample_record ''x'' 3 (AbortRequested ''r'')"
  have "r_seq ?q \<le> r_seq ?a"
    by (rule no_enqueue_after_abort
        [OF sample_records_valid, where q = SteerQueue and i = "''r''" and t = sample_target])
      (simp_all add: sample_record_def sample_records_def)
  then show ?thesis using sample_records_valid by (simp add: sample_record_def)
qed

text \<open>C39. Recovery does not depend on the order in which a backend returned the records of the lane: any
permutation of records with distinct sequence numbers is validated and reduced to the same result.\<close>

theorem recovery_order_independent:
  assumes "mset (li_records input) = mset recs" and "distinct (map r_seq (li_records input))"
  shows "reduceLaneState deepEq (input\<lparr> li_records := recs \<rparr>) = reduceLaneState deepEq input"
  using assms by (rule reduceLaneState_permuted)

theorem recovery_order_independent_witness:
  "reduceLaneState (=) (sample_input (rev sample_records)) = reduceLaneState (=) (sample_input sample_records)"
proof -
  have "mset (li_records (sample_input sample_records)) = mset (rev sample_records)"
    "distinct (map r_seq (li_records (sample_input sample_records)))"
    by (simp_all add: sample_input_def sample_records_def sample_record_def)
  from recovery_order_independent [OF this, of "(=)"] show ?thesis by (simp add: sample_input_def)
qed

text \<open>C7. The state recovered for the open operation hands back exactly the queue items still owed: while
no abort is requested, an item is pending for steering (or follow-up) if and only if it was enqueued there
for this run, is not in the tree yet and was not cancelled; once an abort is requested, none is.\<close>

theorem recovered_queues_exact:
  assumes "reduceLaneState deepEq input = Inr res" and "li_openOperations input = s # rest"
  shows "\<exists>op. lst_operation (lr_laneState res) = Some op \<and> op_aborting op = abort_requested input (os_id s) \<and>
    set (op_pendingSteer op) = {t. \<not> abort_requested input (os_id s) \<and> owed input SteerQueue (Some (os_id s)) t} \<and>
    set (op_pendingFollowUp op) = {t. \<not> abort_requested input (os_id s) \<and> owed input FollowUpQueue (Some (os_id s)) t}"
proof -
  obtain op where op: "lst_operation (lr_laneState res) = Some op" using reduce_open [OF assms] by blast
  from reduce_queues [OF assms this] op show ?thesis by auto
qed

theorem recovered_queues_exact_witness:
  "\<exists>res op. reduceLaneState (=) (sample_input sample_records) = Inr res \<and>
     lst_operation (lr_laneState res) = Some op \<and> op_aborting op \<and> op_pendingSteer op = []"
proof -
  have "\<not> isl (reduceLaneState (=) (sample_input sample_records))" by code_simp
  then obtain res where run: "reduceLaneState (=) (sample_input sample_records) = Inr res"
    by (cases "reduceLaneState (=) (sample_input sample_records)") auto
  have "abort_requested (sample_input sample_records) ''r''" by code_simp
  with recovered_queues_exact [OF run, of sample_start_of "[]"] run show ?thesis
    by (auto simp: sample_input_def sample_start_of_def)
qed

end
