(* ===== verification/Compaction.thy ===== *)
theory Compaction
  imports Session_Context "HOL-Library.List_Lexorder" "HOL-Library.Char_ord"
begin

text \<open>
  The decisions of \<^verbatim>\<open>packages/agent/src/harness/compaction/compaction.ts\<close> and \<^verbatim>\<open>utils.ts\<close>: token
  estimates, the cut point of a compaction, what is summarized and what is kept, and the file
  operations of the summarized history. A character of a text stands for one UTF-16 code unit.
  The text that \<^verbatim>\<open>JSON.stringify\<close> gives for tool-call arguments is the argument \<open>json_text\<close>.
  An index of \<^verbatim>\<open>-1\<close> is \<open>None\<close>.
\<close>

section \<open>File operations\<close>

text \<open>A \<^verbatim>\<open>Set\<close> of paths, in insertion order.\<close>

record file_operations =
  fo_read :: "string list"
  fo_written :: "string list"
  fo_edited :: "string list"

definition set_add :: "'a \<Rightarrow> 'a list \<Rightarrow> 'a list" where
  "set_add x xs = (if x \<in> set xs then xs else xs @ [x])"

definition createFileOps :: file_operations where
  "createFileOps = \<lparr> fo_read = [], fo_written = [], fo_edited = [] \<rparr>"

fun json_field :: "string \<Rightarrow> json \<Rightarrow> json option" where
  "json_field k (JsonObject members) = map_of members k"
| "json_field k _ = None"

definition add_file_op :: "file_operations \<Rightarrow> content_block \<Rightarrow> file_operations" where
  "add_file_op ops block =
     (case block of
        ToolCallContent call \<Rightarrow>
          (case json_field ''path'' (tc_arguments call) of
             Some (JsonString path) \<Rightarrow>
               if path = [] then ops
               else if tc_name call = ''read'' then ops\<lparr> fo_read := set_add path (fo_read ops) \<rparr>
               else if tc_name call = ''write'' then ops\<lparr> fo_written := set_add path (fo_written ops) \<rparr>
               else if tc_name call = ''edit'' then ops\<lparr> fo_edited := set_add path (fo_edited ops) \<rparr>
               else ops
           | _ \<Rightarrow> ops)
      | _ \<Rightarrow> ops)"

definition extractFileOpsFromMessage :: "agent_message \<Rightarrow> file_operations \<Rightarrow> file_operations" where
  "extractFileOpsFromMessage message fileOps =
     (case message of
        AssistantMessage m \<Rightarrow> foldl add_file_op fileOps (am_content m)
      | _ \<Rightarrow> fileOps)"

definition computeFileLists :: "file_operations \<Rightarrow> string list \<times> string list" where
  "computeFileLists ops =
     (let modified = foldl (\<lambda>acc f. set_add f acc) [] (fo_edited ops @ fo_written ops)
      in (sort (filter (\<lambda>f. f \<notin> set modified) (fo_read ops)), sort modified))"

fun join_with :: "string \<Rightarrow> string list \<Rightarrow> string" where
  "join_with sep [] = []"
| "join_with sep [s] = s"
| "join_with sep (s # t # ss) = s @ sep @ join_with sep (t # ss)"

definition blank_line :: string where
  "blank_line = [newline, newline]"

definition formatFileOperations :: "string list \<Rightarrow> string list \<Rightarrow> string" where
  "formatFileOperations readFiles modifiedFiles =
     (let sections =
        (if readFiles \<noteq> []
         then [''<read-files>'' @ newline # join_with [newline] readFiles @ newline # ''</read-files>''] else []) @
        (if modifiedFiles \<noteq> []
         then [''<modified-files>'' @ newline # join_with [newline] modifiedFiles @ newline # ''</modified-files>'']
         else [])
      in if sections = [] then [] else blank_line @ join_with blank_line sections)"

text \<open>
  The paths in an array field of the details. The code casts the field to an array of strings; an element that is no
  string, which no compaction writes, is left out here.
\<close>

definition detail_paths :: "string \<Rightarrow> json option \<Rightarrow> string list" where
  "detail_paths key details =
     (case details of
        None \<Rightarrow> []
      | Some d \<Rightarrow>
          (case json_field key d of
             Some (JsonArray xs) \<Rightarrow> List.map_filter (\<lambda>x. case x of JsonString s \<Rightarrow> Some s | _ \<Rightarrow> None) xs
           | _ \<Rightarrow> []))"

definition add_details :: "json option \<Rightarrow> file_operations \<Rightarrow> file_operations" where
  "add_details details ops =
     ops\<lparr> fo_read := foldl (\<lambda>acc f. set_add f acc) (fo_read ops) (detail_paths ''readFiles'' details),
          fo_edited := foldl (\<lambda>acc f. set_add f acc) (fo_edited ops) (detail_paths ''modifiedFiles'' details) \<rparr>"

definition extractFileOperations :: "agent_message list \<Rightarrow> entry list \<Rightarrow> nat option \<Rightarrow> file_operations" where
  "extractFileOperations messages entries prevCompactionIndex =
     (let fileOps =
        (case prevCompactionIndex of
           None \<Rightarrow> createFileOps
         | Some i \<Rightarrow> (case e_body (entries ! i) of
             CompactionEntry _ _ _ details _ \<Rightarrow> add_details details createFileOps
           | _ \<Rightarrow> createFileOps))
      in foldl (\<lambda>ops m. extractFileOpsFromMessage m ops) fileOps messages)"

section \<open>Token estimates\<close>

record compaction_settings =
  cs_enabled :: bool
  cs_reserveTokens :: int
  cs_keepRecentTokens :: int

definition DEFAULT_COMPACTION_SETTINGS :: compaction_settings where
  "DEFAULT_COMPACTION_SETTINGS = \<lparr> cs_enabled = True, cs_reserveTokens = 16384, cs_keepRecentTokens = 20000 \<rparr>"

definition ESTIMATED_IMAGE_CHARS :: nat where "ESTIMATED_IMAGE_CHARS = 4800"

definition calculateContextTokens :: "usage \<Rightarrow> int" where
  "calculateContextTokens u =
     (if u_totalTokens u \<noteq> 0 then u_totalTokens u
      else u_input u + u_output u + u_cacheRead u + u_cacheWrite u)"

definition getAssistantUsage :: "agent_message \<Rightarrow> usage option" where
  "getAssistantUsage msg =
     (case msg of
        AssistantMessage m \<Rightarrow>
          if am_stopReason m \<noteq> Aborted \<and> am_stopReason m \<noteq> Error \<and> calculateContextTokens (am_usage m) > 0
          then Some (am_usage m) else None
      | _ \<Rightarrow> None)"

definition getLastAssistantUsage :: "entry list \<Rightarrow> usage option" where
  "getLastAssistantUsage entries =
     (case List.map_filter (\<lambda>e. case e_body e of MessageEntry m _ \<Rightarrow> getAssistantUsage m | _ \<Rightarrow> None) (rev entries) of
        [] \<Rightarrow> None | u # _ \<Rightarrow> Some u)"

fun usage_info :: "agent_message list \<Rightarrow> nat \<Rightarrow> (usage \<times> nat) option" where
  "usage_info messages 0 = None"
| "usage_info messages (Suc i) =
     (case getAssistantUsage (messages ! i) of
        Some u \<Rightarrow> Some (u, i) | None \<Rightarrow> usage_info messages i)"

definition getLastAssistantUsageInfo :: "agent_message list \<Rightarrow> (usage \<times> nat) option" where
  "getLastAssistantUsageInfo messages = usage_info messages (length messages)"

fun content_chars :: "message_content \<Rightarrow> nat" where
  "content_chars (StringContent s) = length s"
| "content_chars (BlockContent blocks) =
     sum_list (map (\<lambda>b. case b of TextContent t _ \<Rightarrow> length t | ImageContent _ _ \<Rightarrow> ESTIMATED_IMAGE_CHARS | _ \<Rightarrow> 0) blocks)"

definition ceil4 :: "nat \<Rightarrow> nat" where
  "ceil4 chars = (chars + 3) div 4"

fun block_chars :: "(json \<Rightarrow> string) \<Rightarrow> content_block \<Rightarrow> nat" where
  "block_chars json_text (TextContent t _) = length t"
| "block_chars json_text (ThinkingContent t _ _) = length t"
| "block_chars json_text (ToolCallContent call) = length (tc_name call) + length (json_text (tc_arguments call))"
| "block_chars json_text (ImageContent _ _) = 0"

fun estimateTokens :: "(json \<Rightarrow> string) \<Rightarrow> agent_message \<Rightarrow> nat" where
  "estimateTokens json_text (UserMessage m) = ceil4 (content_chars (um_content m))"
| "estimateTokens json_text (AssistantMessage m) = ceil4 (sum_list (map (block_chars json_text) (am_content m)))"
| "estimateTokens json_text (CustomMessage m) = ceil4 (content_chars (cm_content m))"
| "estimateTokens json_text (ToolResultMessage m) = ceil4 (content_chars (BlockContent (tr_content m)))"
| "estimateTokens json_text (BashExecutionMessage m) = ceil4 (length (be_command m) + length (be_output m))"
| "estimateTokens json_text (BranchSummaryMessage m) = ceil4 (length (bs_summary m))"
| "estimateTokens json_text (CompactionSummaryMessage m) = ceil4 (length (cs_summary m))"

record context_usage_estimate =
  cu_tokens :: int
  cu_usageTokens :: int
  cu_trailingTokens :: int
  cu_lastUsageIndex :: "nat option"

definition estimateContextTokens :: "(json \<Rightarrow> string) \<Rightarrow> agent_message list \<Rightarrow> context_usage_estimate" where
  "estimateContextTokens json_text messages =
     (case getLastAssistantUsageInfo messages of
        None \<Rightarrow>
          let estimated = int (sum_list (map (estimateTokens json_text) messages))
          in \<lparr> cu_tokens = estimated, cu_usageTokens = 0, cu_trailingTokens = estimated, cu_lastUsageIndex = None \<rparr>
      | Some (u, i) \<Rightarrow>
          let usageTokens = calculateContextTokens u;
              trailing = int (sum_list (map (estimateTokens json_text) (drop (i + 1) messages)))
          in \<lparr> cu_tokens = usageTokens + trailing, cu_usageTokens = usageTokens, cu_trailingTokens = trailing,
               cu_lastUsageIndex = Some i \<rparr>)"

definition shouldCompact :: "int \<Rightarrow> int \<Rightarrow> compaction_settings \<Rightarrow> bool" where
  "shouldCompact contextTokens contextWindow settings =
     (if \<not> cs_enabled settings then False else contextTokens > contextWindow - cs_reserveTokens settings)"

section \<open>The cut point\<close>

definition valid_cut :: "entry \<Rightarrow> bool" where
  "valid_cut e =
     (case e_body e of
        MessageEntry m _ \<Rightarrow> message_role m \<noteq> RoleToolResult
      | BranchSummaryEntry _ _ _ _ \<Rightarrow> True
      | _ \<Rightarrow> False)"

definition findValidCutPoints :: "entry list \<Rightarrow> nat \<Rightarrow> nat \<Rightarrow> nat list" where
  "findValidCutPoints entries startIndex endIndex = filter (\<lambda>i. valid_cut (entries ! i)) [startIndex..<endIndex]"

definition starts_turn :: "entry \<Rightarrow> bool" where
  "starts_turn e =
     (case e_body e of
        BranchSummaryEntry _ _ _ _ \<Rightarrow> True
      | MessageEntry m _ \<Rightarrow> message_role m = RoleUser \<or> message_role m = RoleBashExecution
      | _ \<Rightarrow> False)"

text \<open>The loops run downwards: the argument is one more than the index of the next round.\<close>

fun turn_start_loop :: "entry list \<Rightarrow> nat \<Rightarrow> nat \<Rightarrow> nat option" where
  "turn_start_loop entries startIndex 0 = None"
| "turn_start_loop entries startIndex (Suc i) =
     (if i < startIndex then None
      else if starts_turn (entries ! i) then Some i
      else turn_start_loop entries startIndex i)"

definition findTurnStartIndex :: "entry list \<Rightarrow> nat \<Rightarrow> nat \<Rightarrow> nat option" where
  "findTurnStartIndex entries entryIndex startIndex = turn_start_loop entries startIndex (Suc entryIndex)"

record cut_point =
  cp_firstKeptEntryIndex :: nat
  cp_turnStartIndex :: "nat option"
  cp_isSplitTurn :: bool

fun budget_loop :: "(json \<Rightarrow> string) \<Rightarrow> entry list \<Rightarrow> nat \<Rightarrow> int \<Rightarrow> nat list \<Rightarrow> nat \<Rightarrow> nat \<Rightarrow> nat" where
  "budget_loop json_text entries startIndex keep cutPoints 0 accumulated = hd cutPoints"
| "budget_loop json_text entries startIndex keep cutPoints (Suc i) accumulated =
     (if i < startIndex then hd cutPoints
      else case e_body (entries ! i) of
        MessageEntry m _ \<Rightarrow>
          (let accumulated' = accumulated + estimateTokens json_text m in
           if int accumulated' \<ge> keep then
             (case find (\<lambda>c. c \<ge> i) cutPoints of Some c \<Rightarrow> c | None \<Rightarrow> hd cutPoints)
           else budget_loop json_text entries startIndex keep cutPoints i accumulated')
      | _ \<Rightarrow> budget_loop json_text entries startIndex keep cutPoints i accumulated)"

fun skip_back :: "entry list \<Rightarrow> nat \<Rightarrow> nat \<Rightarrow> nat" where
  "skip_back entries startIndex 0 = 0"
| "skip_back entries startIndex (Suc i) =
     (if Suc i > startIndex \<and> e_type (entries ! i) \<noteq> CompactionT \<and> e_type (entries ! i) \<noteq> MessageT
      then skip_back entries startIndex i else Suc i)"

definition is_user_entry :: "entry \<Rightarrow> bool" where
  "is_user_entry e = (case e_body e of MessageEntry m _ \<Rightarrow> message_role m = RoleUser | _ \<Rightarrow> False)"

definition findCutPoint :: "(json \<Rightarrow> string) \<Rightarrow> entry list \<Rightarrow> nat \<Rightarrow> nat \<Rightarrow> int \<Rightarrow> cut_point" where
  "findCutPoint json_text entries startIndex endIndex keepRecentTokens =
     (let cutPoints = findValidCutPoints entries startIndex endIndex in
      if cutPoints = [] then
        \<lparr> cp_firstKeptEntryIndex = startIndex, cp_turnStartIndex = None, cp_isSplitTurn = False \<rparr>
      else
        let cutIndex = skip_back entries startIndex
              (budget_loop json_text entries startIndex keepRecentTokens cutPoints endIndex 0);
            isUserMessage = is_user_entry (entries ! cutIndex);
            turnStartIndex = (if isUserMessage then None else findTurnStartIndex entries cutIndex startIndex)
        in \<lparr> cp_firstKeptEntryIndex = cutIndex, cp_turnStartIndex = turnStartIndex,
             cp_isSplitTurn = (\<not> isUserMessage \<and> turnStartIndex \<noteq> None) \<rparr>)"

section \<open>Preparing a compaction\<close>

record compaction_preparation =
  pr_messagesToSummarize :: "agent_message list"
  pr_turnPrefixMessages :: "agent_message list"
  pr_retainedTail :: "agent_message list"
  pr_isSplitTurn :: bool
  pr_tokensBefore :: int
  pr_previousSummary :: "string option"
  pr_fileOps :: file_operations
  pr_settings :: compaction_settings

definition getMessageFromEntry :: "(string \<Rightarrow> int) \<Rightarrow> entry \<Rightarrow> agent_message option" where
  "getMessageFromEntry date_time e =
     (case e_body e of
        MessageEntry m _ \<Rightarrow> Some m
      | BranchSummaryEntry fromId summary _ _ \<Rightarrow>
          Some (BranchSummaryMessage (createBranchSummaryMessage date_time summary fromId (Inr (e_timestamp e))))
      | CompactionEntry summary _ tokensBefore _ _ \<Rightarrow>
          Some (CompactionSummaryMessage
            (createCompactionSummaryMessage date_time summary tokensBefore (Inr (e_timestamp e))))
      | _ \<Rightarrow> None)"

definition getMessageFromEntryForCompaction :: "(string \<Rightarrow> int) \<Rightarrow> entry \<Rightarrow> agent_message option" where
  "getMessageFromEntryForCompaction date_time e =
     (if e_type e = CompactionT then None else getMessageFromEntry date_time e)"

fun message_timestamp :: "agent_message \<Rightarrow> int" where
  "message_timestamp (UserMessage m) = um_timestamp m"
| "message_timestamp (AssistantMessage m) = am_timestamp m"
| "message_timestamp (ToolResultMessage m) = tr_timestamp m"
| "message_timestamp (BashExecutionMessage m) = be_timestamp m"
| "message_timestamp (CustomMessage m) = cm_timestamp m"
| "message_timestamp (BranchSummaryMessage m) = bs_timestamp m"
| "message_timestamp (CompactionSummaryMessage m) = cs_timestamp m"

text \<open>The retained messages of a compaction, as entries.\<close>

definition retained_id :: "id \<Rightarrow> nat \<Rightarrow> id" where
  "retained_id i index = i @ '':retained:'' @ show_nat index"

definition virtual_entry :: "entry \<Rightarrow> nat \<Rightarrow> agent_message \<Rightarrow> entry" where
  "virtual_entry c index m =
     \<lparr> e_id = retained_id (e_id c) index, e_seq = e_seq c,
       e_parentId = Some (if index = 0 then e_id c else retained_id (e_id c) (index - 1)),
       e_timestamp = message_timestamp m, e_body = MessageEntry m False \<rparr>"

definition collect_messages :: "(string \<Rightarrow> int) \<Rightarrow> entry list \<Rightarrow> nat \<Rightarrow> nat \<Rightarrow> agent_message list" where
  "collect_messages date_time entries i j =
     List.map_filter (\<lambda>k. getMessageFromEntryForCompaction date_time (entries ! k)) [i..<j]"

text \<open>What a compaction works on: the summary of the last compaction, and the entries since.\<close>

definition compactable :: "entry list \<Rightarrow> nat option \<Rightarrow> string option \<times> entry list" where
  "compactable pathEntries prevCompactionIndex =
     (case prevCompactionIndex of
        None \<Rightarrow> (None, pathEntries)
      | Some i \<Rightarrow>
          (case e_body (pathEntries ! i) of
             CompactionEntry summary retainedTail _ _ _ \<Rightarrow>
               (Some summary,
                map (\<lambda>(index, m). virtual_entry (pathEntries ! i) index m) (enumerate 0 retainedTail)
                @ drop (i + 1) pathEntries)
           | _ \<Rightarrow> (None, pathEntries)))"

definition prepareCompaction :: "(json \<Rightarrow> string) \<Rightarrow> (string \<Rightarrow> int) \<Rightarrow> entry list \<Rightarrow> compaction_settings
    \<Rightarrow> compaction_preparation option" where
  "prepareCompaction json_text date_time pathEntries settings =
     (if pathEntries = [] \<or> e_type (last pathEntries) = CompactionT then None
      else
        let prevCompactionIndex = last_compaction pathEntries (length pathEntries);
            (previousSummary, entries) = compactable pathEntries prevCompactionIndex;
            boundaryEnd = length entries;
            tokensBefore = cu_tokens (estimateContextTokens json_text
              (sc_messages (buildSessionContext date_time pathEntries plain_options)));
            cutPoint = findCutPoint json_text entries 0 boundaryEnd (cs_keepRecentTokens settings);
            firstKept = cp_firstKeptEntryIndex cutPoint;
            turnStart = (case cp_turnStartIndex cutPoint of Some t \<Rightarrow> t | None \<Rightarrow> 0);
            historyEnd = (if cp_isSplitTurn cutPoint then turnStart else firstKept);
            messagesToSummarize = collect_messages date_time entries 0 historyEnd;
            turnPrefixMessages =
              (if cp_isSplitTurn cutPoint then collect_messages date_time entries turnStart firstKept else []);
            retainedTail = collect_messages date_time entries firstKept boundaryEnd;
            fileOps = extractFileOperations messagesToSummarize pathEntries prevCompactionIndex
        in Some
          \<lparr> pr_messagesToSummarize = messagesToSummarize, pr_turnPrefixMessages = turnPrefixMessages,
            pr_retainedTail = retainedTail, pr_isSplitTurn = cp_isSplitTurn cutPoint,
            pr_tokensBefore = tokensBefore, pr_previousSummary = previousSummary,
            pr_fileOps = foldl (\<lambda>ops m. extractFileOpsFromMessage m ops) fileOps turnPrefixMessages,
            pr_settings = settings \<rparr>)"

section \<open>The cut\<close>

lemma find_in: "find P xs = Some x \<Longrightarrow> x \<in> set xs"
  by (auto simp: find_Some_iff)

lemma budget_loop_in:
  "cutPoints \<noteq> [] \<Longrightarrow> budget_loop json_text entries s keep cutPoints i acc \<in> set cutPoints"
  by (induction i arbitrary: acc)
    (auto simp: Let_def dest: find_in split: entry_body.split option.split)

lemma skip_back_spec:
  "skip_back entries s c \<le> c \<and> (s \<le> c \<longrightarrow> s \<le> skip_back entries s c) \<and>
   (\<forall>k. skip_back entries s c \<le> k \<longrightarrow> k < c \<longrightarrow>
     e_type (entries ! k) \<noteq> CompactionT \<and> e_type (entries ! k) \<noteq> MessageT)"
  by (induction c) (auto simp: less_Suc_eq)

lemma turn_start_bounds: "turn_start_loop entries s n = Some t \<Longrightarrow> s \<le> t \<and> t < n"
  by (induction n) (auto split: if_splits)

lemma findValidCutPoints_iff:
  "c \<in> set (findValidCutPoints entries s n) \<longleftrightarrow> s \<le> c \<and> c < n \<and> valid_cut (entries ! c)"
  by (auto simp: findValidCutPoints_def)

text \<open>The chosen cut point and the entry it came from; between them only entries without a message.\<close>

lemma findCutPoint_cases:
  assumes "findCutPoint json_text entries s n keep = cp"
  obtains (none) "findValidCutPoints entries s n = []" "cp_firstKeptEntryIndex cp = s" "\<not> cp_isSplitTurn cp"
  | (cut) c where "c \<in> set (findValidCutPoints entries s n)"
      "cp_firstKeptEntryIndex cp = skip_back entries s c"
      "cp_isSplitTurn cp \<Longrightarrow> \<exists>t. cp_turnStartIndex cp = Some t \<and> s \<le> t \<and> t \<le> skip_back entries s c"
proof (cases "findValidCutPoints entries s n = []")
  case True
  with assms none show ?thesis by (auto simp: findCutPoint_def)
next
  case False
  define c where "c = budget_loop json_text entries s keep (findValidCutPoints entries s n) n 0"
  have "c \<in> set (findValidCutPoints entries s n)"
    unfolding c_def using False by (rule budget_loop_in)
  moreover have "cp_firstKeptEntryIndex cp = skip_back entries s c"
    using assms False by (auto simp: findCutPoint_def Let_def c_def)
  moreover have "\<exists>t. cp_turnStartIndex cp = Some t \<and> s \<le> t \<and> t \<le> skip_back entries s c"
    if "cp_isSplitTurn cp"
    using that assms False turn_start_bounds [of entries s "Suc (skip_back entries s c)"]
    by (fastforce simp: findCutPoint_def Let_def c_def findTurnStartIndex_def split: if_splits)
  ultimately show ?thesis by (rule cut)
qed

lemma findCutPoint_bounds:
  assumes "findCutPoint json_text entries 0 n keep = cp"
  shows "cp_firstKeptEntryIndex cp \<le> n"
    and "cp_isSplitTurn cp \<Longrightarrow> \<exists>t. cp_turnStartIndex cp = Some t \<and> t \<le> cp_firstKeptEntryIndex cp"
proof -
  have "cp_firstKeptEntryIndex cp \<le> n \<and>
      (cp_isSplitTurn cp \<longrightarrow> (\<exists>t. cp_turnStartIndex cp = Some t \<and> t \<le> cp_firstKeptEntryIndex cp))"
    using assms
  proof (cases rule: findCutPoint_cases)
    case (cut c)
    have "skip_back entries 0 c \<le> c" "c < n"
      using skip_back_spec [of entries 0 c] cut(1) by (simp_all add: findValidCutPoints_iff)
    with cut show ?thesis by auto
  qed auto
  then show "cp_firstKeptEntryIndex cp \<le> n"
    and "cp_isSplitTurn cp \<Longrightarrow> \<exists>t. cp_turnStartIndex cp = Some t \<and> t \<le> cp_firstKeptEntryIndex cp"
    by blast+
qed

lemma collect_split:
  "i \<le> j \<Longrightarrow> j \<le> k \<Longrightarrow> collect_messages date_time entries i j @ collect_messages date_time entries j k
    = collect_messages date_time entries i k"
proof -
  assume "i \<le> j" "j \<le> k"
  then have "[i..<k] = [i..<j] @ [j..<k]" using upt_add_eq_append [of i j "k - j"] by simp
  then show ?thesis by (simp add: collect_messages_def map_filter_def)
qed


lemma map_filter_nth:
  "List.map_filter (\<lambda>k. g (xs ! k)) ks = List.map_filter g (map ((!) xs) ks)"
  by (induction ks) (auto simp: List.map_filter_simps split: option.split)

lemma collect_slice:
  "j \<le> length entries \<Longrightarrow> collect_messages date_time entries i j
    = List.map_filter (getMessageFromEntryForCompaction date_time) (drop i (take j entries))"
proof -
  assume "j \<le> length entries"
  then have "map ((!) entries) [i..<j] = drop i (take j entries)"
    by (intro nth_equalityI) auto
  then show ?thesis by (simp add: collect_messages_def map_filter_nth)
qed

section \<open>What a compaction does with the messages\<close>

definition compactable_entries :: "entry list \<Rightarrow> entry list" where
  "compactable_entries pathEntries = snd (compactable pathEntries (last_compaction pathEntries (length pathEntries)))"

definition compactable_messages :: "(string \<Rightarrow> int) \<Rightarrow> entry list \<Rightarrow> agent_message list" where
  "compactable_messages date_time pathEntries
     = List.map_filter (getMessageFromEntryForCompaction date_time) (compactable_entries pathEntries)"

lemma prepareCompaction_Some:
  assumes "prepareCompaction json_text date_time pathEntries settings = Some p"
  obtains cp where
    "pathEntries \<noteq> []" "e_type (last pathEntries) \<noteq> CompactionT"
    "findCutPoint json_text (compactable_entries pathEntries) 0 (length (compactable_entries pathEntries))
       (cs_keepRecentTokens settings) = cp"
    "pr_messagesToSummarize p = collect_messages date_time (compactable_entries pathEntries) 0
       (if cp_isSplitTurn cp then the (cp_turnStartIndex cp) else cp_firstKeptEntryIndex cp)"
    "pr_turnPrefixMessages p = (if cp_isSplitTurn cp
       then collect_messages date_time (compactable_entries pathEntries) (the (cp_turnStartIndex cp)) (cp_firstKeptEntryIndex cp)
       else [])"
    "pr_retainedTail p = collect_messages date_time (compactable_entries pathEntries) (cp_firstKeptEntryIndex cp)
       (length (compactable_entries pathEntries))"
proof -
  define prev where "prev = last_compaction pathEntries (length pathEntries)"
  define es where "es = snd (compactable pathEntries prev)"
  define cp where "cp = findCutPoint json_text es 0 (length es) (cs_keepRecentTokens settings)"
  have es: "compactable_entries pathEntries = es" by (simp add: compactable_entries_def es_def prev_def)
  have turn: "cp_isSplitTurn cp \<Longrightarrow> (case cp_turnStartIndex cp of Some t \<Rightarrow> t | None \<Rightarrow> 0) = the (cp_turnStartIndex cp)"
    using findCutPoint_bounds(2) [of json_text es "length es" "cs_keepRecentTokens settings" cp] by (auto simp: cp_def)
  show ?thesis
    by (rule that [of cp])
      (use assms turn in \<open>auto simp: es cp_def es_def prev_def prepareCompaction_def Let_def split: if_splits prod.splits\<close>)
qed

lemma prepare_partition:
  assumes "prepareCompaction json_text date_time pathEntries settings = Some p"
  shows "pr_messagesToSummarize p @ pr_turnPrefixMessages p @ pr_retainedTail p
    = compactable_messages date_time pathEntries"
proof -
  let ?es = "compactable_entries pathEntries"
  obtain cp where cp: "findCutPoint json_text ?es 0 (length ?es) (cs_keepRecentTokens settings) = cp"
    and parts: "pr_messagesToSummarize p = collect_messages date_time ?es 0
       (if cp_isSplitTurn cp then the (cp_turnStartIndex cp) else cp_firstKeptEntryIndex cp)"
    "pr_turnPrefixMessages p = (if cp_isSplitTurn cp
       then collect_messages date_time ?es (the (cp_turnStartIndex cp)) (cp_firstKeptEntryIndex cp) else [])"
    "pr_retainedTail p = collect_messages date_time ?es (cp_firstKeptEntryIndex cp) (length ?es)"
    using prepareCompaction_Some [OF assms] by metis
  note bounds = findCutPoint_bounds [OF cp]
  have "pr_messagesToSummarize p @ pr_turnPrefixMessages p = collect_messages date_time ?es 0 (cp_firstKeptEntryIndex cp)"
    using bounds parts collect_split [of 0 "the (cp_turnStartIndex cp)" "cp_firstKeptEntryIndex cp" date_time ?es]
    by (auto simp: collect_messages_def)
  then have "pr_messagesToSummarize p @ pr_turnPrefixMessages p @ pr_retainedTail p = collect_messages date_time ?es 0 (length ?es)"
    using collect_split [of 0 "cp_firstKeptEntryIndex cp" "length ?es" date_time ?es] bounds(1) parts(3)
    by (metis append.assoc zero_le)
  then show ?thesis by (simp add: collect_slice compactable_messages_def)
qed

lemma map_filter_head:
  assumes "\<And>x m. x \<in> set xs \<Longrightarrow> g x = Some m \<Longrightarrow> P m" and "g y = Some m" and "P m"
  shows "\<exists>n ns. List.map_filter g (xs @ y # zs) = n # ns \<and> P n"
  using assms(1)
proof (induction xs)
  case Nil
  with assms(2,3) show ?case by (simp add: List.map_filter_simps)
next
  case (Cons x xs)
  show ?case
  proof (cases "g x")
    case None
    have "\<exists>n ns. List.map_filter g (xs @ y # zs) = n # ns \<and> P n"
      using Cons.prems by (intro Cons.IH) auto
    with None show ?thesis by (simp add: List.map_filter_simps)
  next
    case (Some n)
    moreover have "P n" using Cons.prems Some by (meson list.set_intros(1))
    ultimately show ?thesis by (simp add: List.map_filter_simps)
  qed
qed

lemma retained_head:
  assumes "prepareCompaction json_text date_time pathEntries settings = Some p"
    and "\<exists>e \<in> set (compactable_entries pathEntries). valid_cut e"
  shows "\<exists>m ms. pr_retainedTail p = m # ms \<and> message_role m \<noteq> RoleToolResult"
proof -
  let ?es = "compactable_entries pathEntries" and ?g = "getMessageFromEntryForCompaction date_time"
  obtain cp where cp: "findCutPoint json_text ?es 0 (length ?es) (cs_keepRecentTokens settings) = cp"
    and tail: "pr_retainedTail p = collect_messages date_time ?es (cp_firstKeptEntryIndex cp) (length ?es)"
    using prepareCompaction_Some [OF assms(1)] by metis
  have "findValidCutPoints ?es 0 (length ?es) \<noteq> []"
    using assms(2) by (force simp: findValidCutPoints_def filter_empty_conv in_set_conv_nth)
  with findCutPoint_cases [OF cp] obtain c where
    c: "c < length ?es" "valid_cut (?es ! c)" "cp_firstKeptEntryIndex cp = skip_back ?es 0 c"
    by (metis findValidCutPoints_iff)
  let ?f = "skip_back ?es 0 c"
  have f: "?f \<le> c" and between: "\<And>k. ?f \<le> k \<Longrightarrow> k < c \<Longrightarrow> e_type (?es ! k) \<noteq> CompactionT \<and> e_type (?es ! k) \<noteq> MessageT"
    using skip_back_spec [of ?es 0 c] by blast+
  have slice: "drop ?f ?es = drop ?f (take c ?es) @ ?es ! c # drop (Suc c) ?es"
    using id_take_nth_drop [OF c(1)] f c(1) by (metis (no_types, lifting) drop_append length_take min.absorb4
        diff_is_0_eq drop0 less_or_eq_imp_le)
  have mid: "message_role m \<noteq> RoleToolResult" if "x \<in> set (drop ?f (take c ?es))" "?g x = Some m" for x m
  proof -
    from that(1) obtain k where "?f \<le> k" "k < c" "x = ?es ! k"
      using c(1) f by (auto simp: in_set_conv_nth) (metis add.commute le_add1 less_diff_conv)
    then have "e_type x \<noteq> CompactionT \<and> e_type x \<noteq> MessageT" using between by blast
    with that(2) show ?thesis
      by (cases "e_body x") (auto simp: getMessageFromEntryForCompaction_def getMessageFromEntry_def)
  qed
  obtain m where m: "?g (?es ! c) = Some m" "message_role m \<noteq> RoleToolResult"
    using c(2) by (cases "e_body (?es ! c)")
      (auto simp: valid_cut_def getMessageFromEntryForCompaction_def getMessageFromEntry_def)
  have "pr_retainedTail p = List.map_filter ?g (drop ?f (take c ?es) @ ?es ! c # drop (Suc c) ?es)"
    using tail c(3) slice by (simp add: collect_slice)
  moreover have "\<exists>n ns. List.map_filter ?g (drop ?f (take c ?es) @ ?es ! c # drop (Suc c) ?es) = n # ns \<and>
      message_role n \<noteq> RoleToolResult"
    using mid m
    by (intro map_filter_head [where P = "\<lambda>m. message_role m \<noteq> RoleToolResult" and g = ?g and m = m]) auto
  ultimately show ?thesis by simp
qed

section \<open>File lists\<close>

lemma foldl_set_add: "set (foldl (\<lambda>acc f. set_add f acc) acc xs) = set acc \<union> set xs"
  by (induction xs arbitrary: acc) (auto simp: set_add_def)

lemma distinct_foldl_set_add: "distinct acc \<Longrightarrow> distinct (foldl (\<lambda>acc f. set_add f acc) acc xs)"
  by (induction xs arbitrary: acc) (auto simp: set_add_def)

definition ops_ok :: "file_operations \<Rightarrow> bool" where
  "ops_ok ops = (distinct (fo_read ops) \<and> distinct (fo_written ops) \<and> distinct (fo_edited ops))"

lemma distinct_set_add: "distinct xs \<Longrightarrow> distinct (set_add x xs)"
  by (simp add: set_add_def)

lemma ops_ok_add: "ops_ok ops \<Longrightarrow> ops_ok (add_file_op ops b)"
  by (auto simp: ops_ok_def add_file_op_def distinct_set_add split: content_block.split option.split json.split)

lemma ops_ok_message: "ops_ok ops \<Longrightarrow> ops_ok (extractFileOpsFromMessage m ops)"
proof -
  have "ops_ok ops \<Longrightarrow> ops_ok (foldl add_file_op ops bs)" for bs
    by (induction bs arbitrary: ops) (auto intro: ops_ok_add)
  then show "ops_ok ops \<Longrightarrow> ops_ok (extractFileOpsFromMessage m ops)"
    by (simp add: extractFileOpsFromMessage_def split: agent_message.split)
qed

lemma ops_ok_messages: "ops_ok ops \<Longrightarrow> ops_ok (foldl (\<lambda>ops m. extractFileOpsFromMessage m ops) ops ms)"
  by (induction ms arbitrary: ops) (auto intro: ops_ok_message)

lemma ops_ok_extract: "ops_ok (extractFileOperations ms es prev)"
proof -
  have "ops_ok createFileOps" "\<And>d ops. ops_ok ops \<Longrightarrow> ops_ok (add_details d ops)"
    by (simp_all add: ops_ok_def createFileOps_def add_details_def distinct_foldl_set_add)
  then show ?thesis
    by (auto simp: extractFileOperations_def Let_def intro!: ops_ok_messages split: option.split entry_body.split)
qed

lemma prepare_ops_ok:
  "prepareCompaction json_text date_time pathEntries settings = Some p \<Longrightarrow> ops_ok (pr_fileOps p)"
  by (auto simp: prepareCompaction_def Let_def intro!: ops_ok_messages ops_ok_extract split: if_splits prod.splits)


section \<open>What compaction promises\<close>

definition sample_reply :: "string \<Rightarrow> agent_message" where
  "sample_reply t = AssistantMessage
     \<lparr> am_content = [TextContent t None, ToolCallContent \<lparr> tc_id = ''t'', tc_name = ''read'',
         tc_arguments = JsonObject [(''path'', JsonString ''f.ts'')], tc_thoughtSignature = None, tc_namespace = None \<rparr>],
       am_api = ''a'', am_provider = ''p'', am_model = ''m'', am_responseModel = None, am_responseId = None,
       am_diagnostics = None,
       am_usage = \<lparr> u_input = 0, u_output = 0, u_cacheRead = 0, u_cacheWrite = 0, u_cacheWrite1h = None,
         u_reasoning = None, u_totalTokens = 0,
         u_cost = \<lparr> cost_input = 0, cost_output = 0, cost_cacheRead = 0, cost_cacheWrite = 0, cost_total = 0 \<rparr> \<rparr>,
       am_stopReason = Stop, am_deferred = None, am_errorMessage = None, am_rawStopReason = None,
       am_endTurn = None, am_timestamp = 2 \<rparr>"

definition sample_path :: "entry list" where
  "sample_path =
     [sample_body ''a'' (MessageEntry (sample_message ''first question'') False),
      sample_body ''b'' (MessageEntry (sample_reply ''first answer'') False),
      sample_body ''c'' (ThinkingLevelEntry ''high''),
      sample_body ''d'' (MessageEntry (sample_message ''second question'') False),
      sample_body ''e'' (MessageEntry (sample_reply ''second answer'') False)]"

definition sample_settings :: compaction_settings where
  "sample_settings = \<lparr> cs_enabled = True, cs_reserveTokens = 100, cs_keepRecentTokens = 5 \<rparr>"

definition sample_preparation :: "compaction_preparation option" where
  "sample_preparation = prepareCompaction (\<lambda>_. []) (\<lambda>_. 0) sample_path sample_settings"

lemma sample_prepared: "\<exists>p. sample_preparation = Some p"
  by (simp add: sample_preparation_def prepareCompaction_def Let_def sample_path_def sample_body_def split: prod.split)

text \<open>C6. A compaction loses no message and doubles none: the messages to summarize, the prefix of the split turn
and the retained tail, put together, are exactly the messages since (and retained by) the last
compaction, in order.\<close>

theorem compaction_partitions_messages:
  assumes "prepareCompaction json_text date_time pathEntries settings = Some p"
  shows "pr_messagesToSummarize p @ pr_turnPrefixMessages p @ pr_retainedTail p
    = compactable_messages date_time pathEntries"
  using assms by (rule prepare_partition)

theorem compaction_partitions_messages_witness:
  "\<exists>p. sample_preparation = Some p \<and>
     pr_messagesToSummarize p @ pr_turnPrefixMessages p @ pr_retainedTail p
       = [sample_message ''first question'', sample_reply ''first answer'',
          sample_message ''second question'', sample_reply ''second answer'']"
proof -
  obtain p where p: "sample_preparation = Some p" using sample_prepared by blast
  have "compactable_messages (\<lambda>_. 0) sample_path
      = [sample_message ''first question'', sample_reply ''first answer'',
         sample_message ''second question'', sample_reply ''second answer'']"
    by code_simp
  with compaction_partitions_messages [OF p [unfolded sample_preparation_def]] p show ?thesis by metis
qed

text \<open>The retained tail never starts with the result of a tool call whose call was summarized away: if the
history has any entry at which it may be cut, the tail is not empty and its first message is not a tool result.\<close>

theorem retained_tail_starts_cleanly:
  assumes "prepareCompaction json_text date_time pathEntries settings = Some p"
    and "list_ex valid_cut (compactable_entries pathEntries)"
  shows "\<exists>m ms. pr_retainedTail p = m # ms \<and> message_role m \<noteq> RoleToolResult"
  using retained_head [OF assms(1)] assms(2) by (simp add: list_ex_iff)

theorem retained_tail_starts_cleanly_witness:
  "\<exists>p m ms. sample_preparation = Some p \<and> pr_retainedTail p = m # ms \<and> message_role m \<noteq> RoleToolResult"
proof -
  obtain p where p: "sample_preparation = Some p" using sample_prepared by blast
  have "list_ex valid_cut (compactable_entries sample_path)" by code_simp
  with retained_tail_starts_cleanly [OF p [unfolded sample_preparation_def]] p show ?thesis by blast
qed

text \<open>The file lists of a compaction are sorted, without duplicates and disjoint: a file is modified if it was
edited or written, and read if it was read and not modified.\<close>

theorem compaction_file_lists:
  assumes "prepareCompaction json_text date_time pathEntries settings = Some p"
    and "computeFileLists (pr_fileOps p) = (readFiles, modifiedFiles)"
  shows "sorted readFiles \<and> distinct readFiles \<and> sorted modifiedFiles \<and> distinct modifiedFiles \<and>
    set modifiedFiles = set (fo_edited (pr_fileOps p)) \<union> set (fo_written (pr_fileOps p)) \<and>
    set readFiles = set (fo_read (pr_fileOps p)) - set modifiedFiles"
  using assms(2) prepare_ops_ok [OF assms(1)]
  by (auto simp: computeFileLists_def Let_def ops_ok_def foldl_set_add distinct_foldl_set_add)

theorem compaction_file_lists_witness:
  "\<exists>p readFiles modifiedFiles. sample_preparation = Some p \<and>
     computeFileLists (pr_fileOps p) = (readFiles, modifiedFiles) \<and> sorted readFiles \<and> distinct modifiedFiles"
proof -
  obtain p where p: "sample_preparation = Some p" using sample_prepared by blast
  obtain rf mf where "computeFileLists (pr_fileOps p) = (rf, mf)" by force
  with compaction_file_lists [OF p [unfolded sample_preparation_def]] p show ?thesis by blast
qed

end
