(* ===== verification/Coding_Compaction.thy ===== *)
theory Coding_Compaction
  imports Compaction Session_Runs
begin

text \<open>
  \<^verbatim>\<open>packages/coding-agent/src/core/compaction/compaction.ts\<close>: the cut point and the preparation of a compaction on a branch of the
  session manager. Token estimates and file operations are those of \<open>Compaction\<close>: the functions are the same, but for
  \<^verbatim>\<open>JSON.stringify\<close> in place of a variant that does not throw. Names that the
  harness has too end in \<open>_ca\<close>. The text that \<^verbatim>\<open>JSON.stringify\<close> gives for arguments is \<open>json_text\<close>.
\<close>

section \<open>Messages of an entry\<close>

fun stored_role :: "stored_message \<Rightarrow> role option" where
  "stored_role (StoredMessage m nocontent) = Some (message_role m)"
| "stored_role (HookMessage c) = None"

fun stored_tokens :: "(json \<Rightarrow> string) \<Rightarrow> stored_message \<Rightarrow> nat" where
  "stored_tokens json_text (StoredMessage m nocontent) = estimateTokens json_text m"
| "stored_tokens json_text (HookMessage c) = 0"

definition isCutPointMessage :: "stored_message \<Rightarrow> bool" where
  "isCutPointMessage m = (stored_role m \<notin> {None, Some RoleToolResult})"

definition isTurnStartMessage :: "stored_message \<Rightarrow> bool" where
  "isTurnStartMessage m = (stored_role m \<notin> {None, Some RoleToolResult, Some RoleAssistant})"

definition is_compaction :: "session_entry \<Rightarrow> bool" where
  "is_compaction e \<longleftrightarrow> compaction_first_kept e \<noteq> None"

definition isTurnStartEntry :: "(string \<Rightarrow> int) \<Rightarrow> session_entry \<Rightarrow> bool" where
  "isTurnStartEntry date e \<longleftrightarrow> \<not> is_compaction e \<and> list_ex isTurnStartMessage (sessionEntryToContextMessages date e)"

definition getMessageFromEntryForCompaction_ca :: "(string \<Rightarrow> int) \<Rightarrow> session_entry \<Rightarrow> stored_message option" where
  "getMessageFromEntryForCompaction_ca date e =
     (if is_compaction e then None
      else case sessionEntryToContextMessages date e of [] \<Rightarrow> None | m # rest \<Rightarrow> Some m)"

section \<open>The cut point\<close>

definition valid_cut_ca :: "(string \<Rightarrow> int) \<Rightarrow> session_entry \<Rightarrow> bool" where
  "valid_cut_ca date e \<longleftrightarrow> \<not> is_compaction e \<and> list_ex isCutPointMessage (sessionEntryToContextMessages date e)"

definition findValidCutPoints_ca :: "(string \<Rightarrow> int) \<Rightarrow> session_entry list \<Rightarrow> nat \<Rightarrow> nat \<Rightarrow> nat list" where
  "findValidCutPoints_ca date entries startIndex endIndex = filter (\<lambda>i. valid_cut_ca date (entries ! i)) [startIndex..<endIndex]"

text \<open>The loops run downwards: the argument is one more than the index of the next round.\<close>

fun turn_start_loop_ca :: "(string \<Rightarrow> int) \<Rightarrow> session_entry list \<Rightarrow> nat \<Rightarrow> nat \<Rightarrow> nat option" where
  "turn_start_loop_ca date entries startIndex 0 = None"
| "turn_start_loop_ca date entries startIndex (Suc i) =
     (if i < startIndex then None
      else if isTurnStartEntry date (entries ! i) then Some i
      else turn_start_loop_ca date entries startIndex i)"

definition findTurnStartIndex_ca :: "(string \<Rightarrow> int) \<Rightarrow> session_entry list \<Rightarrow> nat \<Rightarrow> nat \<Rightarrow> nat option" where
  "findTurnStartIndex_ca date entries entryIndex startIndex = turn_start_loop_ca date entries startIndex (Suc entryIndex)"

definition entry_tokens :: "(json \<Rightarrow> string) \<Rightarrow> (string \<Rightarrow> int) \<Rightarrow> session_entry \<Rightarrow> nat" where
  "entry_tokens json_text date e = sum_list (map (stored_tokens json_text) (sessionEntryToContextMessages date e))"

fun budget_loop_ca :: "(json \<Rightarrow> string) \<Rightarrow> (string \<Rightarrow> int) \<Rightarrow> session_entry list \<Rightarrow> nat \<Rightarrow> int \<Rightarrow> nat list \<Rightarrow> nat \<Rightarrow> nat \<Rightarrow> nat" where
  "budget_loop_ca json_text date entries startIndex keep cutPoints 0 accumulated = hd cutPoints"
| "budget_loop_ca json_text date entries startIndex keep cutPoints (Suc i) accumulated =
     (if i < startIndex then hd cutPoints
      else let messageTokens = entry_tokens json_text date (entries ! i) in
        if messageTokens = 0 then budget_loop_ca json_text date entries startIndex keep cutPoints i accumulated
        else if int (accumulated + messageTokens) \<ge> keep then
          (case find (\<lambda>c. c \<ge> i) cutPoints of Some c \<Rightarrow> c | None \<Rightarrow> hd cutPoints)
        else budget_loop_ca json_text date entries startIndex keep cutPoints i (accumulated + messageTokens))"

fun skip_back_ca :: "(string \<Rightarrow> int) \<Rightarrow> session_entry list \<Rightarrow> nat \<Rightarrow> nat \<Rightarrow> nat" where
  "skip_back_ca date entries startIndex 0 = 0"
| "skip_back_ca date entries startIndex (Suc i) =
     (if Suc i > startIndex \<and> \<not> is_compaction (entries ! i) \<and> sessionEntryToContextMessages date (entries ! i) = []
      then skip_back_ca date entries startIndex i else Suc i)"

definition findCutPoint_ca :: "(json \<Rightarrow> string) \<Rightarrow> (string \<Rightarrow> int) \<Rightarrow> session_entry list \<Rightarrow> nat \<Rightarrow> nat \<Rightarrow> int \<Rightarrow> cut_point" where
  "findCutPoint_ca json_text date entries startIndex endIndex keepRecentTokens =
     (let cutPoints = findValidCutPoints_ca date entries startIndex endIndex in
      if cutPoints = [] then
        \<lparr> cp_firstKeptEntryIndex = startIndex, cp_turnStartIndex = None, cp_isSplitTurn = False \<rparr>
      else
        let cutIndex = skip_back_ca date entries startIndex
              (budget_loop_ca json_text date entries startIndex keepRecentTokens cutPoints endIndex 0);
            startsTurn = isTurnStartEntry date (entries ! cutIndex);
            turnStartIndex = (if startsTurn then None else findTurnStartIndex_ca date entries cutIndex startIndex)
        in \<lparr> cp_firstKeptEntryIndex = cutIndex, cp_turnStartIndex = turnStartIndex,
             cp_isSplitTurn = (\<not> startsTurn \<and> turnStartIndex \<noteq> None) \<rparr>)"

section \<open>Preparation\<close>

record preparation_ca =
  pc_firstKeptEntryId :: string
  pc_messagesToSummarize :: "stored_message list"
  pc_turnPrefixMessages :: "stored_message list"
  pc_isSplitTurn :: bool
  pc_tokensBefore :: int
  pc_previousSummary :: "string option"
  pc_fileOps :: file_operations
  pc_settings :: compaction_settings

text \<open>The messages of a context that \<^verbatim>\<open>estimateContextTokens\<close> looks at; hook messages count nothing.\<close>

definition known_messages :: "stored_message list \<Rightarrow> agent_message list" where
  "known_messages ms = List.map_filter (\<lambda>m. case m of StoredMessage a nocontent \<Rightarrow> Some a | HookMessage c \<Rightarrow> None) ms"

definition collect_ca :: "(string \<Rightarrow> int) \<Rightarrow> session_entry list \<Rightarrow> nat \<Rightarrow> nat \<Rightarrow> stored_message list" where
  "collect_ca date entries i j = List.map_filter (\<lambda>k. getMessageFromEntryForCompaction_ca date (entries ! k)) [i..<j]"

fun last_compaction_index :: "session_entry list \<Rightarrow> nat \<Rightarrow> nat option" where
  "last_compaction_index es 0 = None"
| "last_compaction_index es (Suc i) = (if is_compaction (es ! i) then Some i else last_compaction_index es i)"

fun find_index_of :: "string \<Rightarrow> session_entry list \<Rightarrow> nat option" where
  "find_index_of i [] = None"
| "find_index_of i (e # es) = (if se_id e = i then Some 0 else map_option Suc (find_index_of i es))"

text \<open>Where the history that is not yet summarized begins, and the summary before it.\<close>

definition compaction_boundary :: "session_entry list \<Rightarrow> nat option \<Rightarrow> nat \<times> string option" where
  "compaction_boundary pathEntries prev =
     (case prev of
        None \<Rightarrow> (0, None)
      | Some i \<Rightarrow>
          (case se_body (pathEntries ! i) of
             SCompaction summary firstKept t d u h k \<Rightarrow>
               (case find_index_of firstKept pathEntries of Some j \<Rightarrow> j | None \<Rightarrow> i + 1, Some summary)
           | _ \<Rightarrow> (0, None)))"

definition extractFileOperations_ca :: "stored_message list \<Rightarrow> session_entry list \<Rightarrow> nat option \<Rightarrow> file_operations" where
  "extractFileOperations_ca messages entries prev =
     (let fileOps =
        (case prev of
           None \<Rightarrow> createFileOps
         | Some i \<Rightarrow> (case se_body (entries ! i) of
             SCompaction s f t details u fromHook k \<Rightarrow> if fromHook then createFileOps else add_details details createFileOps
           | _ \<Rightarrow> createFileOps))
      in foldl (\<lambda>ops m. extractFileOpsFromMessage m ops) fileOps (known_messages messages))"

definition prepareCompaction_ca :: "(json \<Rightarrow> string) \<Rightarrow> (string \<Rightarrow> int) \<Rightarrow> session_entry list \<Rightarrow> compaction_settings \<Rightarrow> preparation_ca option" where
  "prepareCompaction_ca json_text date pathEntries settings =
     (if pathEntries \<noteq> [] \<and> is_compaction (last pathEntries) then None
      else
        let prev = last_compaction_index pathEntries (length pathEntries);
            (boundaryStart, previousSummary) = compaction_boundary pathEntries prev;
            boundaryEnd = length pathEntries;
            tokensBefore = cu_tokens (estimateContextTokens json_text (known_messages (sc_messages (path_context date pathEntries))));
            cutPoint = findCutPoint_ca json_text date pathEntries boundaryStart boundaryEnd (cs_keepRecentTokens settings);
            firstKept = cp_firstKeptEntryIndex cutPoint
        in if \<not> firstKept < length pathEntries \<or> se_id (pathEntries ! firstKept) = [] then None
           else
             let turnStart = (case cp_turnStartIndex cutPoint of Some t \<Rightarrow> t | None \<Rightarrow> 0);
                 historyEnd = (if cp_isSplitTurn cutPoint then turnStart else firstKept);
                 messagesToSummarize = collect_ca date pathEntries boundaryStart historyEnd;
                 turnPrefixMessages = (if cp_isSplitTurn cutPoint then collect_ca date pathEntries turnStart firstKept else []);
                 fileOps = extractFileOperations_ca messagesToSummarize pathEntries prev
             in if messagesToSummarize = [] \<and> turnPrefixMessages = [] then None
                else Some \<lparr> pc_firstKeptEntryId = se_id (pathEntries ! firstKept), pc_messagesToSummarize = messagesToSummarize,
                  pc_turnPrefixMessages = turnPrefixMessages, pc_isSplitTurn = cp_isSplitTurn cutPoint, pc_tokensBefore = tokensBefore,
                  pc_previousSummary = previousSummary,
                  pc_fileOps = foldl (\<lambda>ops m. extractFileOpsFromMessage m ops) fileOps (known_messages turnPrefixMessages),
                  pc_settings = settings \<rparr>)"

text \<open>
  \<^verbatim>\<open>compact\<close> with its two calls of a model as parameters: the text and usage of a summary, or the text of the error that the
  call throws.
\<close>

definition combineUsage :: "usage \<Rightarrow> usage \<Rightarrow> usage" where
  "combineUsage a b =
     \<lparr> u_input = int_add (u_input a) (u_input b), u_output = int_add (u_output a) (u_output b),
       u_cacheRead = int_add (u_cacheRead a) (u_cacheRead b), u_cacheWrite = int_add (u_cacheWrite a) (u_cacheWrite b),
       u_cacheWrite1h = (if u_cacheWrite1h a \<noteq> None \<or> u_cacheWrite1h b \<noteq> None
         then Some (int_add (case_option 0 id (u_cacheWrite1h a)) (case_option 0 id (u_cacheWrite1h b))) else None),
       u_reasoning = (if u_reasoning a \<noteq> None \<or> u_reasoning b \<noteq> None
         then Some (int_add (case_option 0 id (u_reasoning a)) (case_option 0 id (u_reasoning b))) else None),
       u_totalTokens = int_add (u_totalTokens a) (u_totalTokens b),
       u_cost = \<lparr> cost_input = num_add (cost_input (u_cost a)) (cost_input (u_cost b)),
         cost_output = num_add (cost_output (u_cost a)) (cost_output (u_cost b)),
         cost_cacheRead = num_add (cost_cacheRead (u_cost a)) (cost_cacheRead (u_cost b)),
         cost_cacheWrite = num_add (cost_cacheWrite (u_cost a)) (cost_cacheWrite (u_cost b)),
         cost_total = num_add (cost_total (u_cost a)) (cost_total (u_cost b)) \<rparr> \<rparr>"

record compaction_result =
  cr_summary :: string
  cr_firstKeptEntryId :: string
  cr_tokensBefore :: int
  cr_usage :: usage
  cr_readFiles :: "string list"
  cr_modifiedFiles :: "string list"

definition split_turn_heading :: string where
  "split_turn_heading = blank_line @ ''---'' @ blank_line @ ''**Turn Context (split turn):**'' @ blank_line"

definition compact ::
  "(stored_message list \<Rightarrow> string option \<Rightarrow> string + string \<times> usage) \<Rightarrow> (stored_message list \<Rightarrow> string + string \<times> usage)
    \<Rightarrow> preparation_ca \<Rightarrow> string + compaction_result" where
  "compact generateSummary generateTurnPrefixSummary p =
     rbind
       (if pc_isSplitTurn p \<and> pc_turnPrefixMessages p \<noteq> [] then
          rbind (if pc_messagesToSummarize p \<noteq> []
                 then rbind (generateSummary (pc_messagesToSummarize p) (pc_previousSummary p)) (\<lambda>(text, u). Inr (text, Some u))
                 else Inr (''No prior history.'', None)) (\<lambda>(historyText, historyUsage).
          rbind (generateTurnPrefixSummary (pc_turnPrefixMessages p)) (\<lambda>(prefixText, prefixUsage).
          Inr (historyText @ split_turn_heading @ prefixText,
            case historyUsage of Some h \<Rightarrow> combineUsage h prefixUsage | None \<Rightarrow> prefixUsage)))
        else generateSummary (pc_messagesToSummarize p) (pc_previousSummary p)) (\<lambda>(summary, u).
     let (readFiles, modifiedFiles) = computeFileLists (pc_fileOps p) in
     if pc_firstKeptEntryId p = [] then Inl ''First kept entry has no UUID - session may need migration''
     else Inr \<lparr> cr_summary = summary @ formatFileOperations readFiles modifiedFiles, cr_firstKeptEntryId = pc_firstKeptEntryId p,
       cr_tokensBefore = pc_tokensBefore p, cr_usage = u, cr_readFiles = readFiles, cr_modifiedFiles = modifiedFiles \<rparr>)"


section \<open>The cut\<close>

lemma budget_loop_ca_in: "cutPoints \<noteq> [] \<Longrightarrow> budget_loop_ca json_text date entries s keep cutPoints i acc \<in> set cutPoints"
  by (induction i arbitrary: acc) (auto simp: Let_def dest: find_in split: option.split)

lemma skip_back_ca_spec:
  "skip_back_ca date entries s c \<le> c \<and> (s \<le> c \<longrightarrow> s \<le> skip_back_ca date entries s c) \<and>
   (\<forall>k. skip_back_ca date entries s c \<le> k \<longrightarrow> k < c \<longrightarrow> \<not> is_compaction (entries ! k) \<and> sessionEntryToContextMessages date (entries ! k) = [])"
  by (induction c) (auto simp: less_Suc_eq)

lemma turn_start_ca_bounds: "turn_start_loop_ca date entries s n = Some t \<Longrightarrow> s \<le> t \<and> t < n"
  by (induction n) (auto split: if_splits)

lemma valid_cut_points_ca: "c \<in> set (findValidCutPoints_ca date entries s n) \<longleftrightarrow> s \<le> c \<and> c < n \<and> valid_cut_ca date (entries ! c)"
  by (auto simp: findValidCutPoints_ca_def)

lemma cut_point_ca_cases:
  assumes "findCutPoint_ca json_text date entries s n keep = cp"
  obtains (none) "findValidCutPoints_ca date entries s n = []" "cp_firstKeptEntryIndex cp = s" "\<not> cp_isSplitTurn cp"
  | (cut) c where "c \<in> set (findValidCutPoints_ca date entries s n)" "cp_firstKeptEntryIndex cp = skip_back_ca date entries s c"
      "cp_isSplitTurn cp \<Longrightarrow> \<exists>t. cp_turnStartIndex cp = Some t \<and> s \<le> t \<and> t \<le> skip_back_ca date entries s c"
proof (cases "findValidCutPoints_ca date entries s n = []")
  case True
  with assms none show ?thesis by (auto simp: findCutPoint_ca_def)
next
  case False
  define c where "c = budget_loop_ca json_text date entries s keep (findValidCutPoints_ca date entries s n) n 0"
  have "c \<in> set (findValidCutPoints_ca date entries s n)" unfolding c_def using False by (rule budget_loop_ca_in)
  moreover have "cp_firstKeptEntryIndex cp = skip_back_ca date entries s c" using assms False by (auto simp: findCutPoint_ca_def Let_def c_def)
  moreover have "\<exists>t. cp_turnStartIndex cp = Some t \<and> s \<le> t \<and> t \<le> skip_back_ca date entries s c" if "cp_isSplitTurn cp"
    using that assms False turn_start_ca_bounds [of date entries s "Suc (skip_back_ca date entries s c)"]
    by (fastforce simp: findCutPoint_ca_def Let_def c_def findTurnStartIndex_ca_def split: if_splits)
  ultimately show ?thesis by (rule cut)
qed

lemma cut_point_ca_bounds:
  assumes "findCutPoint_ca json_text date entries s n keep = cp"
  shows "s \<le> cp_firstKeptEntryIndex cp" "cp_isSplitTurn cp \<Longrightarrow> \<exists>t. cp_turnStartIndex cp = Some t \<and> s \<le> t \<and> t \<le> cp_firstKeptEntryIndex cp"
proof -
  have "s \<le> cp_firstKeptEntryIndex cp \<and> (cp_isSplitTurn cp \<longrightarrow> (\<exists>t. cp_turnStartIndex cp = Some t \<and> s \<le> t \<and> t \<le> cp_firstKeptEntryIndex cp))"
    using assms
  proof (cases rule: cut_point_ca_cases)
    case (cut c)
    then have "s \<le> skip_back_ca date entries s c" using skip_back_ca_spec [of date entries s c] by (simp add: valid_cut_points_ca)
    with cut show ?thesis by auto
  qed auto
  then show "s \<le> cp_firstKeptEntryIndex cp" "cp_isSplitTurn cp \<Longrightarrow> \<exists>t. cp_turnStartIndex cp = Some t \<and> s \<le> t \<and> t \<le> cp_firstKeptEntryIndex cp"
    by blast+
qed

section \<open>What is summarized and what is kept\<close>

abbreviation branch_messages :: "(string \<Rightarrow> int) \<Rightarrow> session_entry list \<Rightarrow> stored_message list" where
  "branch_messages date es \<equiv> List.map_filter (getMessageFromEntryForCompaction_ca date) es"

lemma map_filter_app: "List.map_filter f (xs @ ys) = List.map_filter f xs @ List.map_filter f ys"
  by (simp add: map_filter_def)

lemma collect_ca_slice: "j \<le> length entries \<Longrightarrow> collect_ca date entries i j = branch_messages date (drop i (take j entries))"
proof -
  assume "j \<le> length entries"
  then have "map ((!) entries) [i..<j] = drop i (take j entries)" by (intro nth_equalityI) auto
  then show ?thesis by (simp add: collect_ca_def map_filter_nth)
qed

lemma slices: "i \<le> j \<Longrightarrow> j \<le> k \<Longrightarrow> drop i (take j xs) @ drop j (take k xs) = drop i (take k xs)"
proof -
  assume "i \<le> j" "j \<le> k"
  have "drop i (take k xs) = take (j - i) (drop i (take k xs)) @ drop (j - i) (drop i (take k xs))" by (rule append_take_drop_id [symmetric])
  then show ?thesis using \<open>i \<le> j\<close> \<open>j \<le> k\<close> by (simp add: take_drop min_def)
qed

text \<open>Where the messages come from that are to be summarized, and where the kept entries begin.\<close>

lemma prepared:
  assumes "prepareCompaction_ca json_text date path settings = Some p"
  obtains s prev k where "compaction_boundary path (last_compaction_index path (length path)) = (s, prev)" "s \<le> k" "k < length path"
    "pc_firstKeptEntryId p = se_id (path ! k)" "pc_previousSummary p = prev"
    "pc_messagesToSummarize p @ pc_turnPrefixMessages p = branch_messages date (drop s (take k path))"
    "cp_firstKeptEntryIndex (findCutPoint_ca json_text date path s (length path) (cs_keepRecentTokens settings)) = k"
proof -
  obtain s prev where b: "compaction_boundary path (last_compaction_index path (length path)) = (s, prev)" by force
  define cp where "cp = findCutPoint_ca json_text date path s (length path) (cs_keepRecentTokens settings)"
  let ?k = "cp_firstKeptEntryIndex cp"
  note bounds = cut_point_ca_bounds [OF cp_def [symmetric]]
  have k: "?k < length path" "pc_firstKeptEntryId p = se_id (path ! ?k)" "pc_previousSummary p = prev"
    using assms b by (auto simp: prepareCompaction_ca_def Let_def cp_def split: if_splits)
  have "pc_messagesToSummarize p @ pc_turnPrefixMessages p = branch_messages date (drop s (take ?k path))"
  proof (cases "cp_isSplitTurn cp")
    case False
    then show ?thesis using assms b k(1) by (auto simp: prepareCompaction_ca_def Let_def cp_def collect_ca_slice split: if_splits)
  next
    case True
    with bounds obtain t where t: "cp_turnStartIndex cp = Some t" "s \<le> t" "t \<le> ?k" by blast
    have "pc_messagesToSummarize p = collect_ca date path s t" "pc_turnPrefixMessages p = collect_ca date path t ?k"
      using assms b True t(1) by (auto simp: prepareCompaction_ca_def Let_def cp_def split: if_splits)
    then show ?thesis using t k(1) slices [of s t ?k path] by (simp add: collect_ca_slice flip: map_filter_app)
  qed
  then show thesis using that b bounds(1) k cp_def by blast
qed

lemma find_index_drop: "find_index_of i es = Some j \<Longrightarrow> j < length es \<and> drop j es = dropWhile (\<lambda>e. se_id e \<noteq> i) es"
  by (induction es arbitrary: j) (auto split: if_splits)

lemma find_index_None: "find_index_of i es = None \<longleftrightarrow> i \<notin> entry_ids es"
  by (induction es) (auto simp: entry_ids_def)

lemma last_index_split:
  "is_compaction c \<Longrightarrow> (\<forall>y \<in> set ys. \<not> is_compaction y) \<Longrightarrow> last_compaction_index (xs @ c # ys) (Suc (length xs + length ys)) = Some (length xs)"
proof (induction ys rule: rev_induct)
  case (snoc y ys)
  have "last_compaction_index (es @ [y]) n = last_compaction_index es n" if "n \<le> length es" for es n
    using that by (induction n) (simp_all add: nth_append)
  from this [of "Suc (length xs + length ys)" "xs @ c # ys"] snoc show ?case by (simp add: nth_append)
qed simp

lemma last_index_None: "(\<forall>e \<in> set es. \<not> is_compaction e) \<Longrightarrow> n \<le> length es \<Longrightarrow> last_compaction_index es n = None"
  by (induction n) simp_all

text \<open>What a compaction keeps stands before it.\<close>

fun keeps_earlier :: "session_entry list \<Rightarrow> bool" where
  "keeps_earlier [] \<longleftrightarrow> True"
| "keeps_earlier (e # es) \<longleftrightarrow> (case compaction_first_kept e of None \<Rightarrow> True | Some i \<Rightarrow> i \<notin> entry_ids (e # es)) \<and> keeps_earlier es"

lemma keeps_earlier_append: "keeps_earlier (xs @ ys) \<Longrightarrow> keeps_earlier ys"
  by (induction xs) auto

lemma compaction_not_shown: "is_compaction c \<Longrightarrow> getMessageFromEntryForCompaction_ca date c = None"
  by (simp add: getMessageFromEntryForCompaction_ca_def)

text \<open>The context of a branch shows the messages from the boundary on.\<close>

lemma context_from_boundary:
  assumes "distinct (map se_id path)" and "keeps_earlier path"
    and "compaction_boundary path (last_compaction_index path (length path)) = (s, prev)"
  shows "branch_messages date (context_entries path) = branch_messages date (drop s path)"
proof (cases "\<forall>e \<in> set path. compaction_first_kept e = None")
  case True
  then have "context_entries path = path" by (intro context_entries_none) simp
  moreover have "s = 0" using True last_index_None [of path "length path"] assms(3) by (simp add: is_compaction_def compaction_boundary_def)
  ultimately show ?thesis by simp
next
  case False
  from last_compaction_split [OF assms(1) this] obtain xs c ys where p: "path = xs @ c # ys" "compaction_first_kept c \<noteq> None"
    "\<And>y. y \<in> set ys \<Longrightarrow> compaction_first_kept y = None" "\<And>x. x \<in> set xs \<Longrightarrow> se_id x \<noteq> se_id c" by blast
  obtain i where i: "compaction_first_kept c = Some i" using p(2) by blast
  have c: "is_compaction c" using p(2) by (simp add: is_compaction_def)
  have "last_compaction_index path (length path) = Some (length xs)"
    using last_index_split [of c ys xs] c p(1,3) by (simp add: is_compaction_def)
  then have s: "s = (case find_index_of i path of Some j \<Rightarrow> j | None \<Rightarrow> length xs + 1)"
    using assms(3) i p(1) by (auto simp: compaction_boundary_def compaction_first_kept_def split: session_body.splits)
  have later: "i \<notin> entry_ids (c # ys)" using keeps_earlier_append [of xs "c # ys"] assms(2) p(1) i by simp
  have "context_entries path = c # dropWhile (\<lambda>e. Some (se_id e) \<noteq> compaction_first_kept c) xs @ ys"
    unfolding p(1) by (rule context_entries_split [OF p(2,3,4)])
  then have shown: "context_entries path = c # dropWhile (\<lambda>e. se_id e \<noteq> i) xs @ ys" using i by simp
  show ?thesis
  proof (cases "find_index_of i path")
    case None
    then have "\<forall>x \<in> set xs. se_id x \<noteq> i" using p(1) by (auto simp: find_index_None entry_ids_def)
    then have none: "dropWhile (\<lambda>e. se_id e \<noteq> i) xs = []" by simp
    have "context_entries path = c # ys" "drop s path = ys" using shown None s p(1) by (simp_all only: none) simp_all
    then show ?thesis using compaction_not_shown [OF c] by (simp add: map_filter_simps)
  next
    case (Some j)
    then have "i \<in> entry_ids xs" using find_index_None [of i path] later p(1) by auto
    then have "dropWhile (\<lambda>e. se_id e \<noteq> i) path = dropWhile (\<lambda>e. se_id e \<noteq> i) xs @ c # ys"
      unfolding p(1) by (auto simp: entry_ids_def dropWhile_append1)
    then have "drop s path = dropWhile (\<lambda>e. se_id e \<noteq> i) xs @ c # ys" using find_index_drop [OF Some] s Some by simp
    then show ?thesis using shown compaction_not_shown [OF c] by (simp add: map_filter_app map_filter_simps)
  qed
qed

lemma context_with_compaction:
  assumes "distinct (map se_id (path @ [c]))" and "compaction_first_kept c = Some (se_id (path ! k))" and "k < length path"
  shows "context_entries (path @ [c]) = c # drop k path"
proof -
  have "context_entries (path @ c # []) = c # dropWhile (\<lambda>e. Some (se_id e) \<noteq> compaction_first_kept c) path @ []"
    by (rule context_entries_split) (use assms in \<open>auto simp: image_iff\<close>)
  moreover have "dropWhile (\<lambda>e. se_id e \<noteq> se_id (path ! k)) path = drop k path"
  proof -
    have "\<forall>x \<in> set (take k path). se_id x \<noteq> se_id (path ! k)"
    proof
      fix x
      assume "x \<in> set (take k path)"
      then obtain i where "i < k" "x = path ! i" using assms(3) by (auto simp: in_set_conv_nth)
      moreover have "distinct (map se_id path)" using assms(1) by simp
      ultimately show "se_id x \<noteq> se_id (path ! k)" using assms(3) nth_eq_iff_index_eq [of "map se_id path" i k] by auto
    qed
    moreover have split: "drop k path = path ! k # drop (Suc k) path" using assms(3) by (simp add: Cons_nth_drop_Suc)
    ultimately have "dropWhile (\<lambda>e. se_id e \<noteq> se_id (path ! k)) (take k path @ drop k path) = drop k path"
      by (subst dropWhile_append2) (simp_all add: split)
    then show ?thesis by (simp only: append_take_drop_id)
  qed
  ultimately show ?thesis using assms(2) by simp
qed

section \<open>What a compaction promises\<close>

text \<open>A compaction of a branch of the session manager loses nothing: the messages that its context showed before, the summary of an earlier
  compaction apart, are those to be summarized, those of the prefix of a split turn, and those that the context still shows
  once the compaction is appended, in this order. The summary of the earlier compaction is handed on.\<close>

theorem branch_compaction_conserves:
  assumes "prepareCompaction_ca json_text date path settings = Some p" and "distinct (map se_id (path @ [c]))" and "keeps_earlier path"
    and "compaction_first_kept c = Some (pc_firstKeptEntryId p)"
  shows "\<exists>kept. context_entries (path @ [c]) = c # kept \<and>
    branch_messages date (context_entries path) = pc_messagesToSummarize p @ pc_turnPrefixMessages p @ branch_messages date kept \<and>
    pc_previousSummary p = snd (compaction_boundary path (last_compaction_index path (length path)))"
proof -
  obtain s prev k where k: "compaction_boundary path (last_compaction_index path (length path)) = (s, prev)" "s \<le> k" "k < length path"
    "pc_firstKeptEntryId p = se_id (path ! k)" "pc_previousSummary p = prev"
    "pc_messagesToSummarize p @ pc_turnPrefixMessages p = branch_messages date (drop s (take k path))"
    by (rule prepared [OF assms(1)]) (rule that; assumption)
  have "context_entries (path @ [c]) = c # drop k path"
    by (rule context_with_compaction [OF assms(2) _ k(3)]) (use assms(4) k(4) in simp)
  moreover have "branch_messages date (context_entries path) = branch_messages date (drop s path)"
    using context_from_boundary [OF _ assms(3) k(1)] assms(2) by simp
  moreover have "drop s path = drop s (take k path) @ drop k path"
    using slices [of s k "length path" path] k(2,3) by simp
  moreover have "branch_messages date (drop s path) = (pc_messagesToSummarize p @ pc_turnPrefixMessages p) @ branch_messages date (drop k path)"
    unfolding k(6) calculation(3) by (rule map_filter_app)
  ultimately show ?thesis using k(1,5) by (intro exI [of _ "drop k path"]) simp
qed

text \<open>A branch of two turns; a small budget keeps the second.\<close>

definition sample_branch :: "session_entry list" where
  "sample_branch = [sample_session_entry ''a'' None (SMessage (StoredMessage sample_question False)),
     sample_session_entry ''b'' (Some ''a'') (SMessage (StoredMessage sample_answer False)),
     sample_session_entry ''c'' (Some ''b'') (SMessage (StoredMessage sample_question False))]"

definition sample_compaction_entry :: session_entry where
  "sample_compaction_entry = sample_session_entry ''d'' (Some ''c'') (SCompaction ''s'' ''c'' 0 None None False None)"

lemmas sample_branch_simps = sample_branch_def sample_session_entry_def sample_question_def sample_answer_def

lemma sample_branch_prepared: "prepareCompaction_ca (\<lambda>_. []) (\<lambda>_. 0) sample_branch (sample_settings\<lparr> cs_keepRecentTokens := 1 \<rparr>) =
  Some \<lparr> pc_firstKeptEntryId = ''c'', pc_messagesToSummarize = [StoredMessage sample_question False, StoredMessage sample_answer False],
    pc_turnPrefixMessages = [], pc_isSplitTurn = False, pc_tokensBefore = 2, pc_previousSummary = None, pc_fileOps = createFileOps,
    pc_settings = sample_settings\<lparr> cs_keepRecentTokens := 1 \<rparr> \<rparr>"
  by code_simp

theorem branch_compaction_conserves_witness:
  "\<exists>kept. context_entries (sample_branch @ [sample_compaction_entry]) = sample_compaction_entry # kept \<and>
    branch_messages (\<lambda>_. 0) (context_entries sample_branch) =
      [StoredMessage sample_question False, StoredMessage sample_answer False] @ [] @ branch_messages (\<lambda>_. 0) kept"
proof -
  have "distinct (map se_id (sample_branch @ [sample_compaction_entry]))" "keeps_earlier sample_branch"
    "compaction_first_kept sample_compaction_entry = Some ''c''" by code_simp+
  then show ?thesis using branch_compaction_conserves [OF sample_branch_prepared, of sample_compaction_entry] by auto
qed

text \<open>The entries that are kept do not begin with the result of a tool: the first that shows a message shows one at which a cut is allowed.\<close>

lemma entry_messages: "\<not> is_compaction e \<Longrightarrow> length (sessionEntryToContextMessages date e) \<le> 1"
  by (simp add: sessionEntryToContextMessages_def is_compaction_def compaction_first_kept_def split: session_body.split stored_message.split)

theorem kept_entries_start_cleanly:
  assumes "prepareCompaction_ca json_text date path settings = Some p" and "compaction_boundary path (last_compaction_index path (length path)) = (s, prev)"
    and "list_ex (valid_cut_ca date) (drop s path)"
  shows "\<exists>k hidden e rest. drop k path = hidden @ e # rest \<and> pc_firstKeptEntryId p = se_id (path ! k) \<and>
    (\<forall>x \<in> set hidden. sessionEntryToContextMessages date x = []) \<and> valid_cut_ca date e"
proof -
  obtain k where k: "s \<le> k" "k < length path" "pc_firstKeptEntryId p = se_id (path ! k)"
    "cp_firstKeptEntryIndex (findCutPoint_ca json_text date path s (length path) (cs_keepRecentTokens settings)) = k"
    by (rule prepared [OF assms(1)]) (use assms(2) that in auto)
  from assms(3) obtain x where "x \<in> set (drop s path)" "valid_cut_ca date x" by (auto simp: list_ex_iff)
  then obtain i where "s \<le> i" "i < length path" "valid_cut_ca date (path ! i)" by (auto simp: in_set_conv_nth) (metis le_add1 less_diff_conv add.commute)
  then have "findValidCutPoints_ca date path s (length path) \<noteq> []" using valid_cut_points_ca [of i date path s "length path"] by auto
  moreover obtain c where "findValidCutPoints_ca date path s (length path) = [] \<or>
      c \<in> set (findValidCutPoints_ca date path s (length path)) \<and> k = skip_back_ca date path s c"
    by (rule cut_point_ca_cases [OF refl, where json_text = json_text and date = date and entries = path and s = s
        and n = "length path" and keep = "cs_keepRecentTokens settings"]) (use k(4) that in auto)
  ultimately have c: "c < length path" "valid_cut_ca date (path ! c)" "k = skip_back_ca date path s c"
    by (auto simp: valid_cut_points_ca)
  note skip = skip_back_ca_spec [of date path s c, folded c(3)]
  have "drop k path = drop k (take c path) @ path ! c # drop (Suc c) path"
    using slices [of k c "length path" path] skip c(1) by (simp add: Cons_nth_drop_Suc)
  moreover have "sessionEntryToContextMessages date x = []" if "x \<in> set (drop k (take c path))" for x
  proof -
    from that obtain j where "k \<le> j" "j < c" "x = path ! j" using c(1)
      by (auto simp: in_set_conv_nth) (metis add.commute le_add1 less_diff_conv)
    then show ?thesis using skip by blast
  qed
  ultimately show ?thesis using k(3) c(2) by blast
qed

section \<open>What goes wrong\<close>

text \<open>
  An entry that shows nothing before the first message of a turn makes a clean cut look like a split turn: the cut is moved back to it, and
  it does not start a turn. The turn before, which is complete, is then summarized as the prefix of a turn.
\<close>

definition labelled_branch :: "session_entry list" where
  "labelled_branch = [sample_session_entry ''a'' None (SMessage (StoredMessage sample_question False)),
     sample_session_entry ''b'' (Some ''a'') (SMessage (StoredMessage sample_answer False)),
     sample_session_entry ''l'' (Some ''b'') (SLabel ''a'' (Some ''x'')),
     sample_session_entry ''c'' (Some ''l'') (SMessage (StoredMessage sample_question False))]"

lemma clean_cut_looks_split:
  "map_option (\<lambda>p. (pc_firstKeptEntryId p, pc_isSplitTurn p, pc_messagesToSummarize p, pc_turnPrefixMessages p))
     (prepareCompaction_ca (\<lambda>_. []) (\<lambda>_. 0) labelled_branch (sample_settings\<lparr> cs_keepRecentTokens := 1 \<rparr>)) =
   Some (''l'', True, [], [StoredMessage sample_question False, StoredMessage sample_answer False])"
  by code_simp

text \<open>With no message before that turn, the summary of the earlier compaction does not reach the new one.\<close>

lemma previous_summary_dropped:
  assumes "pc_isSplitTurn p" and "pc_turnPrefixMessages p \<noteq> []" and "pc_messagesToSummarize p = []"
  shows "compact f g p = compact f' g (p\<lparr> pc_previousSummary := None \<rparr>)"
  using assms by (simp add: compact_def split_beta cong: if_cong)

text \<open>When the cut falls before the earlier compaction, its entry is among those kept: the context shows the old summary next to the new one.\<close>

definition twice_compacted :: "session_entry list" where
  "twice_compacted = [sample_session_entry ''a'' None (SMessage (StoredMessage sample_question False)),
     sample_session_entry ''b'' (Some ''a'') (SMessage (StoredMessage sample_question False)),
     sample_session_entry ''c'' (Some ''b'') (SCompaction ''old'' ''a'' 0 None None False None),
     sample_session_entry ''e'' (Some ''c'') (SMessage (StoredMessage sample_question False)),
     sample_session_entry ''d'' (Some ''e'') (SCompaction ''new'' ''b'' 0 None None False None)]"

lemma old_summary_shown_again:
  "map_option pc_firstKeptEntryId (prepareCompaction_ca (\<lambda>_. []) (\<lambda>_. 0) (butlast twice_compacted) (sample_settings\<lparr> cs_keepRecentTokens := 3 \<rparr>)) = Some ''b'' \<and>
   map se_id (context_entries twice_compacted) = [''d'', ''b'', ''c'', ''e'']"
  by code_simp

end
