(* ===== verification/Utf8.thy ===== *)
theory Utf8
  imports Js_Values
begin

text \<open>
  The text codecs of the platform, as the protocol uses them (\<^verbatim>\<open>textEncoder\<close> and
  \<^verbatim>\<open>textDecoder\<close> of \<^verbatim>\<open>packages/protocol/src/cbor/options.ts\<close>): UTF-8 encoding of a string of
  UTF-16 code units, in which an unpaired surrogate becomes U+FFFD, and the strict decoder
  (\<^verbatim>\<open>fatal: true\<close>), which rejects every ill-formed sequence.
\<close>

section \<open>UTF-16\<close>

definition is_high :: "nat \<Rightarrow> bool" where
  "is_high c = (0xD800 \<le> c \<and> c \<le> 0xDBFF)"

definition is_low :: "nat \<Rightarrow> bool" where
  "is_low c = (0xDC00 \<le> c \<and> c \<le> 0xDFFF)"

definition surrogate_point :: "nat \<Rightarrow> nat \<Rightarrow> nat" where
  "surrogate_point hi lo = 0x10000 + (hi - 0xD800) * 0x400 + (lo - 0xDC00)"

fun utf16_points :: "js_string \<Rightarrow> nat list" where
  "utf16_points [] = []"
| "utf16_points [u] =
     [if is_high (unat u) \<or> is_low (unat u) then 0xFFFD else unat u]"
| "utf16_points (u # v # us) =
     (if is_high (unat u) then
        (if is_low (unat v) then surrogate_point (unat u) (unat v) # utf16_points us
         else 0xFFFD # utf16_points (v # us))
      else if is_low (unat u) then 0xFFFD # utf16_points (v # us)
      else unat u # utf16_points (v # us))"

text \<open>A string in which every surrogate is paired.\<close>

fun well_formed :: "js_string \<Rightarrow> bool" where
  "well_formed [] = True"
| "well_formed [u] = (\<not> is_high (unat u) \<and> \<not> is_low (unat u))"
| "well_formed (u # v # us) =
     (if is_high (unat u) then is_low (unat v) \<and> well_formed us
      else \<not> is_low (unat u) \<and> well_formed (v # us))"

definition point_units :: "nat \<Rightarrow> js_string" where
  "point_units p =
     (if p < 0x10000 then [word_of_nat p]
      else [word_of_nat (0xD800 + (p - 0x10000) div 0x400),
            word_of_nat (0xDC00 + (p - 0x10000) mod 0x400)])"

definition scalar :: "nat \<Rightarrow> bool" where
  "scalar p = (p < 0xD800 \<or> (0xE000 \<le> p \<and> p < 0x110000))"

section \<open>UTF-8\<close>

definition utf8_point :: "nat \<Rightarrow> nat list" where
  "utf8_point p =
     (if p < 0x80 then [p]
      else if p < 0x800 then [0xC0 + p div 64, 0x80 + p mod 64]
      else if p < 0x10000 then [0xE0 + p div 4096, 0x80 + p div 64 mod 64, 0x80 + p mod 64]
      else [0xF0 + p div 262144, 0x80 + p div 4096 mod 64, 0x80 + p div 64 mod 64, 0x80 + p mod 64])"

definition text_encode :: "js_string \<Rightarrow> 8 word list" where
  "text_encode s = map word_of_nat (concat (map utf8_point (utf16_points s)))"

definition cont :: "nat \<Rightarrow> bool" where
  "cont b = (0x80 \<le> b \<and> b \<le> 0xBF)"

text \<open>The second byte of a sequence has a narrower range after E0, ED, F0 and F4.\<close>

definition second_ok :: "nat \<Rightarrow> nat \<Rightarrow> bool" where
  "second_ok a b =
     ((if a = 0xE0 then 0xA0 else if a = 0xF0 then 0x90 else 0x80) \<le> b \<and>
      b \<le> (if a = 0xED then 0x9F else if a = 0xF4 then 0x8F else 0xBF))"

fun utf8_points :: "nat list \<Rightarrow> nat list option" where
  "utf8_points [] = Some []"
| "utf8_points (a # bs) =
     (if a < 0x80 then map_option ((#) a) (utf8_points bs)
      else if 0xC2 \<le> a \<and> a \<le> 0xDF then
        (case bs of
           b # cs \<Rightarrow> (if second_ok a b
                      then map_option ((#) ((a - 0xC0) * 64 + (b - 0x80))) (utf8_points cs) else None)
         | _ \<Rightarrow> None)
      else if 0xE0 \<le> a \<and> a \<le> 0xEF then
        (case bs of
           b # c # cs \<Rightarrow>
             (if second_ok a b \<and> cont c
              then map_option ((#) ((a - 0xE0) * 4096 + (b - 0x80) * 64 + (c - 0x80))) (utf8_points cs)
              else None)
         | _ \<Rightarrow> None)
      else if 0xF0 \<le> a \<and> a \<le> 0xF4 then
        (case bs of
           b # c # d # cs \<Rightarrow>
             (if second_ok a b \<and> cont c \<and> cont d
              then map_option ((#) ((a - 0xF0) * 262144 + (b - 0x80) * 4096 + (c - 0x80) * 64 + (d - 0x80)))
                     (utf8_points cs)
              else None)
         | _ \<Rightarrow> None)
      else None)"

definition text_decode :: "8 word list \<Rightarrow> js_string option" where
  "text_decode bytes = map_option (\<lambda>ps. concat (map point_units ps)) (utf8_points (map unat bytes))"

section \<open>The round trip\<close>

lemma div_bounds: "(p :: nat) < b * k \<Longrightarrow> p div k < b"
  by (simp add: less_mult_imp_div_less)

lemma base64_digits:
  "(p :: nat) = p div 64 * 64 + p mod 64"
  "p = p div 4096 * 4096 + p div 64 mod 64 * 64 + p mod 64"
  "p = p div 262144 * 262144 + p div 4096 mod 64 * 4096 + p div 64 mod 64 * 64 + p mod 64"
proof -
  have e1: "p = p div 64 * 64 + p mod 64" for p :: nat by simp
  have e2: "p div 64 = p div 4096 * 64 + p div 64 mod 64" for p :: nat
    using e1 [of "p div 64"] by (simp add: div_mult2_eq [symmetric])
  show "p = p div 64 * 64 + p mod 64" by (rule e1)
  show two: "p = p div 4096 * 4096 + p div 64 mod 64 * 64 + p mod 64" for p :: nat
    using e1 [of p] e2 [of p] by linarith
  have e3: "p div 4096 = p div 262144 * 64 + p div 4096 mod 64"
    using e1 [of "p div 4096"] by (simp add: div_mult2_eq [symmetric])
  show "p = p div 262144 * 262144 + p div 4096 mod 64 * 4096 + p div 64 mod 64 * 64 + p mod 64"
    using two [of p] e3 by linarith
qed

lemma utf8_point_decode:
  assumes "scalar p"
  shows "utf8_points (utf8_point p @ rest) = map_option ((#) p) (utf8_points rest)"
proof -
  consider "p < 0x80" | "0x80 \<le> p" "p < 0x800" | "0x800 \<le> p" "p < 0x10000" | "0x10000 \<le> p" "p < 0x110000"
    using assms by (force simp: scalar_def)
  then show ?thesis
  proof cases
    case 1
    then show ?thesis by (simp add: utf8_point_def)
  next
    case 2
    then have "p div 64 < 32" "2 \<le> p div 64" by (auto simp: div_bounds less_eq_div_iff_mult_less_eq)
    moreover have "p mod 64 \<le> 63" using mod_less_divisor [of 64 p] by linarith
    ultimately show ?thesis using 2 by (simp add: utf8_point_def second_ok_def)
  next
    case 3
    define a b c where abc: "a = p div 4096" "b = p div 64 mod 64" "c = p mod 64"
    have q: "a < 16" "b < 64" "c < 64" using 3 by (auto simp: div_bounds abc)
    have d: "a * 4096 + b * 64 + c = p" unfolding abc by (rule base64_digits(2) [symmetric])
    have ok: "second_ok (0xE0 + a) (0x80 + b)"
      using 3 assms q d by (auto simp: second_ok_def scalar_def)
    have "utf8_point p = [0xE0 + a, 0x80 + b, 0x80 + c]" using 3 by (simp add: utf8_point_def abc)
    with q ok d show ?thesis by (simp add: cont_def)
  next
    case 4
    define a b c e where abc: "a = p div 262144" "b = p div 4096 mod 64" "c = p div 64 mod 64"
      "e = p mod 64"
    have q: "a < 5" "b < 64" "c < 64" "e < 64" using 4 by (auto simp: div_bounds abc)
    have d: "a * 262144 + b * 4096 + c * 64 + e = p"
      unfolding abc by (rule base64_digits(3) [symmetric])
    have ok: "second_ok (0xF0 + a) (0x80 + b)" using 4 q d by (auto simp: second_ok_def)
    have "utf8_point p = [0xF0 + a, 0x80 + b, 0x80 + c, 0x80 + e]"
      using 4 by (simp add: utf8_point_def abc)
    with q ok d show ?thesis by (simp add: cont_def)
  qed
qed

lemma utf8_points_decode:
  "list_all scalar ps \<Longrightarrow> utf8_points (concat (map utf8_point ps)) = Some ps"
  by (induction ps) (auto simp: utf8_point_decode)

lemma unat_u16: "unat (u :: 16 word) < 65536"
  using unsigned_less [of u] by simp

lemma utf16_points_scalar: "list_all scalar (utf16_points s)"
proof (induction s rule: utf16_points.induct)
  case (2 u)
  then show ?case using unat_u16 [of u] by (auto simp: scalar_def is_high_def is_low_def)
next
  case (3 u v us)
  then show ?case using unat_u16 [of u]
    by (auto simp: scalar_def is_high_def is_low_def surrogate_point_def)
qed simp

lemma utf8_point_bytes: "scalar p \<Longrightarrow> b \<in> set (utf8_point p) \<Longrightarrow> b < 256"
  by (auto simp: utf8_point_def scalar_def split: if_splits)

lemma utf8_bytes_word:
  "list_all scalar ps \<Longrightarrow>
   map unat (map (word_of_nat :: nat \<Rightarrow> 8 word) (concat (map utf8_point ps))) = concat (map utf8_point ps)"
  by (induction ps) (auto simp: unat_of_nat o_def utf8_point_bytes intro!: map_idI)

lemma text_decode_encode:
  "text_decode (text_encode s) = Some (concat (map point_units (utf16_points s)))"
  unfolding text_decode_def text_encode_def
  by (simp only: utf8_bytes_word [OF utf16_points_scalar] utf8_points_decode [OF utf16_points_scalar])
    simp

lemma point_units_surrogate:
  assumes "is_high (unat u)" and "is_low (unat v)"
  shows "point_units (surrogate_point (unat u) (unat v)) = [u, v]"
proof -
  define a b where "a = unat u - 0xD800" and "b = unat v - 0xDC00"
  have b: "b < 0x400" and u: "unat u = 0xD800 + a" and v: "unat v = 0xDC00 + b"
    using assms by (auto simp: is_high_def is_low_def a_def b_def)
  have "word_of_nat (0xD800 + a) = u" "word_of_nat (0xDC00 + b) = v"
    by (simp_all add: u [symmetric] v [symmetric] del: of_nat_add)
  moreover have "surrogate_point (unat u) (unat v) = 0x10000 + (a * 0x400 + b)"
    by (simp add: surrogate_point_def u v)
  moreover have "(a * 0x400 + b) div 0x400 = a" "(a * 0x400 + b) mod 0x400 = b" using b by simp_all
  ultimately show ?thesis by (simp add: point_units_def del: of_nat_add)
qed

lemma point_units_bmp: "point_units (unat (u :: 16 word)) = [u]"
  using unat_u16 [of u] by (simp add: point_units_def)

lemma points_units: "well_formed s \<Longrightarrow> concat (map point_units (utf16_points s)) = s"
  by (induction s rule: utf16_points.induct)
    (auto simp: point_units_surrogate point_units_bmp split: if_splits)

text \<open>A string that is not well formed comes back changed: a replacement character is no surrogate.\<close>

lemma replacement_units: "point_units 0xFFFD = [0xFFFD]"
  by (simp add: point_units_def)

lemma points_units_ill_formed:
  "\<not> well_formed s \<Longrightarrow> concat (map point_units (utf16_points s)) \<noteq> s"
proof (induction s rule: utf16_points.induct)
  case (2 u)
  then show ?case by (auto simp: replacement_units is_high_def is_low_def)
next
  case (3 u v us)
  then show ?case
    by (auto simp: replacement_units point_units_surrogate point_units_bmp is_high_def is_low_def
        split: if_splits)
qed simp

lemma text_round_trip_iff: "text_decode (text_encode s) = Some s \<longleftrightarrow> well_formed s"
  using points_units points_units_ill_formed by (auto simp: text_decode_encode)

section \<open>The strict decoder accepts only encodings\<close>

lemma digits3:
  assumes "y < 64" and "z < 64"
  shows "(x * 4096 + y * 64 + z) div 4096 = (x :: nat)" "(x * 4096 + y * 64 + z) div 64 mod 64 = y"
    "(x * 4096 + y * 64 + z) mod 64 = z"
proof -
  have e: "x * 4096 + y * 64 + z = (x * 64 + y) * 64 + z" by simp
  have d: "(x * 4096 + y * 64 + z) div 64 = x * 64 + y" unfolding e using assms(2) by simp
  show "(x * 4096 + y * 64 + z) div 64 mod 64 = y" unfolding d using assms(1) by simp
  show "(x * 4096 + y * 64 + z) mod 64 = z"
    unfolding e using assms(2) by (simp only: mod_mult_self3 mod_less)
  have "(x * 4096 + y * 64 + z) div 4096 = (x * 4096 + y * 64 + z) div 64 div 64"
    by (simp add: div_mult2_eq [symmetric])
  then show "(x * 4096 + y * 64 + z) div 4096 = x" unfolding d using assms(1) by simp
qed

lemma digits4:
  assumes "y < 64" and "z < 64" and "u < 64"
  shows "(x * 262144 + y * 4096 + z * 64 + u) div 262144 = (x :: nat)"
    "(x * 262144 + y * 4096 + z * 64 + u) div 4096 mod 64 = y"
    "(x * 262144 + y * 4096 + z * 64 + u) div 64 mod 64 = z"
    "(x * 262144 + y * 4096 + z * 64 + u) mod 64 = u"
proof -
  let ?n = "x * 262144 + y * 4096 + z * 64 + u"
  have e: "?n = (x * 64 + y) * 4096 + z * 64 + u" by simp
  show "?n div 64 mod 64 = z" "?n mod 64 = u" unfolding e by (rule digits3 [OF assms(2,3)])+
  have d: "?n div 4096 = x * 64 + y" unfolding e by (rule digits3 [OF assms(2,3)])
  then show "?n div 4096 mod 64 = y" using assms(1) by simp
  have "?n div 262144 = ?n div 4096 div 64" by (simp add: div_mult2_eq [symmetric])
  then show "?n div 262144 = x" unfolding d using assms(1) by simp
qed

lemma utf8_points_sound:
  "utf8_points bs = Some ps \<Longrightarrow> list_all scalar ps \<and> concat (map utf8_point ps) = bs"
proof (induction bs arbitrary: ps rule: utf8_points.induct)
  case (2 a bs)
  consider (one) "a < 0x80" | (two) b cs where "0xC2 \<le> a" "a \<le> 0xDF" "bs = b # cs" "second_ok a b"
    | (three) b c cs where "0xE0 \<le> a" "a \<le> 0xEF" "bs = b # c # cs" "second_ok a b" "cont c"
    | (four) b c d cs where "0xF0 \<le> a" "a \<le> 0xF4" "bs = b # c # d # cs" "second_ok a b" "cont c" "cont d"
    using "2.prems" by (auto split: if_splits list.splits)
  then show ?case
  proof cases
    case one
    with 2 show ?thesis by (auto simp: utf8_point_def scalar_def)
  next
    case two
    define x y where xy: "x = a - 0xC0" "y = b - 0x80"
    have q: "2 \<le> x" "x < 32" "y < 64" "a = 0xC0 + x" "b = 0x80 + y"
      using two by (auto simp: second_ok_def xy)
    then have "utf8_point (x * 64 + y) = [a, b]" "scalar (x * 64 + y)"
      by (auto simp: utf8_point_def scalar_def)
    with two 2 q show ?thesis by (auto simp: xy [symmetric])
  next
    case three
    define x y z where xy: "x = a - 0xE0" "y = b - 0x80" "z = c - 0x80"
    have q: "x < 16" "y < 64" "z < 64" "a = 0xE0 + x" "b = 0x80 + y" "c = 0x80 + z"
      "x = 0 \<longrightarrow> 32 \<le> y" "x = 13 \<longrightarrow> y < 32"
      using three by (auto simp: second_ok_def cont_def xy split: if_splits)
    note digits3 [OF q(2,3), of x]
    then have u: "utf8_point (x * 4096 + y * 64 + z) = [a, b, c]"
      using q by (auto simp: utf8_point_def)
    have "x \<le> 12 \<or> x = 13 \<or> 14 \<le> x" by linarith
    then have "scalar (x * 4096 + y * 64 + z)" using q by (auto simp: scalar_def)
    note u this
    with three 2 q show ?thesis by (auto simp: xy [symmetric])
  next
    case four
    define x y z u where xy: "x = a - 0xF0" "y = b - 0x80" "z = c - 0x80" "u = d - 0x80"
    have q: "x < 5" "y < 64" "z < 64" "u < 64" "a = 0xF0 + x" "b = 0x80 + y" "c = 0x80 + z" "d = 0x80 + u"
      "x = 0 \<longrightarrow> 16 \<le> y" "x = 4 \<longrightarrow> y < 16"
      using four by (auto simp: second_ok_def cont_def xy split: if_splits)
    note digits4 [OF q(2-4), of x]
    moreover have "\<not> x * 262144 + y * 4096 + z * 64 + u < 0x10000"
      using q(9) by (cases "x = 0") simp_all
    ultimately have u: "utf8_point (x * 262144 + y * 4096 + z * 64 + u) = [a, b, c, d]"
      using q(5-8) by (simp add: utf8_point_def)
    have "x \<le> 3 \<or> x = 4" using q(1) by linarith
    then have "x * 262144 + y * 4096 + z * 64 + u < 0x110000" using q(2-4,10) by (elim disjE) simp_all
    with \<open>\<not> x * 262144 + y * 4096 + z * 64 + u < 0x10000\<close>
    have "scalar (x * 262144 + y * 4096 + z * 64 + u)" by (simp add: scalar_def)
    note u this
    with four 2 q show ?thesis by (auto simp: xy [symmetric])
  qed
qed simp

lemma utf16_points_units:
  assumes "scalar p"
  shows "utf16_points (point_units p @ s) = p # utf16_points s \<and> (well_formed (point_units p @ s) \<longleftrightarrow> well_formed s)"
proof (cases "p < 0x10000")
  case True
  then have u: "unat (word_of_nat p :: 16 word) = p" by (simp add: unat_of_nat)
  have "\<not> is_high p" "\<not> is_low p" using assms by (auto simp: scalar_def is_high_def is_low_def)
  with True u show ?thesis by (cases s) (simp_all add: point_units_def)
next
  case False
  define q where "q = p - 0x10000"
  have p: "p = 0x10000 + q" "q < 0x100000" using False assms by (auto simp: q_def scalar_def)
  then have b: "q div 0x400 < 0x400" "q mod 0x400 < 0x400" by (simp_all add: div_bounds)
  then have u: "unat (word_of_nat (0xD800 + q div 0x400) :: 16 word) = 0xD800 + q div 0x400"
      "unat (word_of_nat (0xDC00 + q mod 0x400) :: 16 word) = 0xDC00 + q mod 0x400"
    by (simp_all add: unat_of_nat del: of_nat_add)
  with b p show ?thesis
    by (simp add: point_units_def is_high_def is_low_def surrogate_point_def del: of_nat_add)
qed

lemma units_points:
  "list_all scalar ps \<Longrightarrow>
   utf16_points (concat (map point_units ps)) = ps \<and> well_formed (concat (map point_units ps))"
  by (induction ps) (simp_all add: utf16_points_units)

lemma text_encode_decode: "text_decode bs = Some s \<Longrightarrow> text_encode s = bs \<and> well_formed s"
proof -
  assume "text_decode bs = Some s"
  then obtain ps where ps: "utf8_points (map unat bs) = Some ps" and s: "s = concat (map point_units ps)"
    by (auto simp: text_decode_def)
  from utf8_points_sound [OF ps] have "list_all scalar ps" "concat (map utf8_point ps) = map unat bs" by auto
  with units_points [of ps] s show ?thesis by (simp add: text_encode_def comp_def)
qed

end
