(* ===== verification/Cbor_Writer.thy ===== *)
theory Cbor_Writer
  imports Js_Heap "HOL-Library.While_Combinator"
begin

text \<open>
  \<^verbatim>\<open>packages/protocol/src/cbor/options.ts\<close> and the \<^verbatim>\<open>CborWriter\<close> of
  \<^verbatim>\<open>packages/protocol/src/cbor/encoder.ts\<close>: options, and a growing byte buffer with a limit. The
  buffer refines an append-only byte sequence.
\<close>

section \<open>Options\<close>

datatype cbor_error =
    DepthLimit | ByteLimit | TextLimit | BytesLimit | ArrayLimit | MapLimit
  | NotFinite | UnsafeInteger | InvalidText | Cycle | ArrayHole | SymbolKey | UnsupportedValue
  | TrailingData | Truncated | IndefiniteLength | MalformedInfo | NonStringKey | DuplicateKey
  | TagUnsupported | BreakUnsupported | SimpleUnsupported
  | OptionRange string

definition UINT32_BASE :: nat where "UINT32_BASE = 0x100000000"
definition MAX_UINT32 :: nat where "MAX_UINT32 = 0xFFFFFFFF"
definition MAX_CONFIGURED_DEPTH :: nat where "MAX_CONFIGURED_DEPTH = 512"
definition DEFAULT_MAX_CBOR_BYTE_LENGTH :: nat where
  "DEFAULT_MAX_CBOR_BYTE_LENGTH = 16 * 1024 * 1024"
definition DEFAULT_MAX_CBOR_CONTAINER_LENGTH :: nat where
  "DEFAULT_MAX_CBOR_CONTAINER_LENGTH = 1000000"
definition DEFAULT_MAX_CBOR_DEPTH :: nat where "DEFAULT_MAX_CBOR_DEPTH = 64"

record cbor_options =
  opt_maxByteLength :: "js_num option"
  opt_maxContainerLength :: "js_num option"
  opt_maxDepth :: "js_num option"

record resolved_options =
  maxByteLength :: nat
  maxContainerLength :: nat
  maxDepth :: nat

definition resolveLimit :: "string \<Rightarrow> js_num \<Rightarrow> nat \<Rightarrow> cbor_error + nat" where
  "resolveLimit limitName v maximum =
     rbind (ensure (\<not> (\<not> js_isSafeInteger v \<or> js_int v < 0 \<or> js_int v > int maximum)) (OptionRange limitName))
       (\<lambda>_. Inr (nat (js_int v)))"

definition option_or :: "js_num option \<Rightarrow> nat \<Rightarrow> js_num" where
  "option_or x d = (case x of None \<Rightarrow> NInt (int d) | Some v \<Rightarrow> v)"

definition no_options :: cbor_options where
  "no_options = \<lparr> opt_maxByteLength = None, opt_maxContainerLength = None, opt_maxDepth = None \<rparr>"

definition resolveOptions :: "cbor_options \<Rightarrow> cbor_error + resolved_options" where
  "resolveOptions opts =
     rbind (resolveLimit ''maxByteLength'' (option_or (opt_maxByteLength opts) DEFAULT_MAX_CBOR_BYTE_LENGTH)
              MAX_UINT32) (\<lambda>b.
     rbind (resolveLimit ''maxContainerLength''
              (option_or (opt_maxContainerLength opts) DEFAULT_MAX_CBOR_CONTAINER_LENGTH) MAX_UINT32) (\<lambda>c.
     rbind (resolveLimit ''maxDepth'' (option_or (opt_maxDepth opts) DEFAULT_MAX_CBOR_DEPTH)
              MAX_CONFIGURED_DEPTH) (\<lambda>d.
     Inr \<lparr> maxByteLength = b, maxContainerLength = c, maxDepth = d \<rparr>)))"

section \<open>The writer\<close>

type_synonym byte = "8 word"

record cbor_writer =
  w_buffer :: "byte list"
  w_offset :: nat
  w_max :: nat

definition new_writer :: "nat \<Rightarrow> cbor_writer" where
  "new_writer m = \<lparr> w_buffer = replicate (min 256 m) 0, w_offset = 0, w_max = m \<rparr>"

definition grow_capacity :: "nat \<Rightarrow> nat \<Rightarrow> nat \<Rightarrow> nat" where
  "grow_capacity limit required capacity =
     while (\<lambda>c. c < required) (\<lambda>c. min limit (max required (c * 2))) capacity"

definition ensureCapacity :: "cbor_writer \<Rightarrow> nat \<Rightarrow> cbor_error + cbor_writer" where
  "ensureCapacity w additional =
     (let required = w_offset w + additional in
      if required > w_max w then Inl ByteLimit
      else if required \<le> length (w_buffer w) then Inr w
      else let capacity = grow_capacity (w_max w) required (max 1 (length (w_buffer w)))
           in Inr (w\<lparr> w_buffer := w_buffer w @ replicate (capacity - length (w_buffer w)) 0 \<rparr>))"

definition blit :: "byte list \<Rightarrow> nat \<Rightarrow> byte list \<Rightarrow> byte list" where
  "blit buffer offset bytes = take offset buffer @ bytes @ drop (offset + length bytes) buffer"

text \<open>Every write reserves its bytes, stores them at the offset and moves the offset.\<close>

definition writeBytes :: "cbor_writer \<Rightarrow> byte list \<Rightarrow> cbor_error + cbor_writer" where
  "writeBytes w bytes =
     rbind (ensureCapacity w (length bytes)) (\<lambda>w'.
     Inr (w'\<lparr> w_buffer := blit (w_buffer w') (w_offset w') bytes,
              w_offset := w_offset w' + length bytes \<rparr>))"

text \<open>Storing a number in a \<^verbatim>\<open>Uint8Array\<close> keeps its low eight bits; \<^verbatim>\<open>>>>\<close> works on 32 bits.\<close>

definition byte_of :: "nat \<Rightarrow> byte" where
  "byte_of n = word_of_nat n"

definition shift_right :: "nat \<Rightarrow> nat \<Rightarrow> nat" where
  "shift_right n k = (n mod 2 ^ 32) div 2 ^ k"

definition writeByte :: "cbor_writer \<Rightarrow> nat \<Rightarrow> cbor_error + cbor_writer" where
  "writeByte w v = writeBytes w [byte_of v]"

definition writeUint16 :: "cbor_writer \<Rightarrow> nat \<Rightarrow> cbor_error + cbor_writer" where
  "writeUint16 w v = writeBytes w [byte_of (shift_right v 8), byte_of v]"

definition uint32_bytes :: "nat \<Rightarrow> byte list" where
  "uint32_bytes v =
     [byte_of (shift_right v 24), byte_of (shift_right v 16), byte_of (shift_right v 8), byte_of v]"

definition writeUint32 :: "cbor_writer \<Rightarrow> nat \<Rightarrow> cbor_error + cbor_writer" where
  "writeUint32 w v = writeBytes w (uint32_bytes v)"

definition writeUint64 :: "cbor_writer \<Rightarrow> nat \<Rightarrow> cbor_error + cbor_writer" where
  "writeUint64 w v =
     (let high = v div UINT32_BASE; low = v - high * UINT32_BASE
      in rbind (writeUint32 w high) (\<lambda>w'. writeUint32 w' low))"

definition float64_bytes :: "64 word \<Rightarrow> byte list" where
  "float64_bytes v = map (\<lambda>k. ucast (drop_bit k v)) [56, 48, 40, 32, 24, 16, 8, 0]"

definition writeFloat64 :: "cbor_writer \<Rightarrow> 64 word \<Rightarrow> cbor_error + cbor_writer" where
  "writeFloat64 w v = writeBytes w (0xFB # float64_bytes v)"

definition finish :: "cbor_writer \<Rightarrow> byte list" where
  "finish w = take (w_offset w) (w_buffer w)"

section \<open>The contract of a bounded byte sink\<close>

locale byte_sink =
  fixes emit :: "'w \<Rightarrow> byte list \<Rightarrow> cbor_error + 'w"
    and content :: "'w \<Rightarrow> byte list"
    and limit :: "'w \<Rightarrow> nat"
    and ok :: "'w \<Rightarrow> bool"
  assumes emit_fits: "ok w \<Longrightarrow> length (content w) + length bs \<le> limit w \<Longrightarrow>
      \<exists>w'. emit w bs = Inr w' \<and> ok w' \<and> content w' = content w @ bs \<and> limit w' = limit w"
    and emit_full: "ok w \<Longrightarrow> limit w < length (content w) + length bs \<Longrightarrow> emit w bs = Inl ByteLimit"
begin

lemma emit_Inr:
  assumes "ok w" and "emit w bs = Inr w'"
  shows "ok w' \<and> content w' = content w @ bs \<and> limit w' = limit w \<and>
    length (content w) + length bs \<le> limit w"
proof (cases "length (content w) + length bs \<le> limit w")
  case True
  from emit_fits [OF assms(1) this] assms(2) True show ?thesis by auto
next
  case False
  then show ?thesis using emit_full [OF assms(1), of bs] assms(2) by auto
qed

lemma emit_Inl: "ok w \<Longrightarrow> emit w bs = Inl e \<Longrightarrow> e = ByteLimit \<and> limit w < length (content w) + length bs"
  using emit_fits [of w bs] emit_full [of w bs] by force

lemma emit_append:
  assumes "ok w" and "length (content w) \<le> limit w"
  shows "map_sum id content (rbind (emit w as) (\<lambda>w'. emit w' bs)) = map_sum id content (emit w (as @ bs))"
proof (cases "length (content w) + length as \<le> limit w")
  case True
  then obtain w' where w': "emit w as = Inr w'" "ok w'" "content w' = content w @ as" "limit w' = limit w"
    using emit_fits [OF assms(1)] by blast
  show ?thesis
  proof (cases "length (content w) + length (as @ bs) \<le> limit w")
    case True
    then show ?thesis
      using w' emit_fits [OF assms(1) True] emit_fits [OF w'(2), of bs] by auto
  next
    case False
    then show ?thesis
      using w' emit_full [OF assms(1), of "as @ bs"] emit_full [OF w'(2), of bs] by auto
  qed
next
  case False
  then show ?thesis
    using emit_full [OF assms(1), of as] emit_full [OF assms(1), of "as @ bs"] by auto
qed

end

section \<open>The writer is one\<close>

definition writer_ok :: "cbor_writer \<Rightarrow> bool" where
  "writer_ok w = (w_offset w \<le> length (w_buffer w) \<and> length (w_buffer w) \<le> w_max w)"

lemma grow_capacity_bounds:
  assumes "required \<le> limit" and "capacity < required"
  shows "required \<le> grow_capacity limit required capacity"
    and "grow_capacity limit required capacity \<le> limit"
proof -
  have *: "grow_capacity limit required capacity = min limit (max required (capacity * 2))"
    using assms unfolding grow_capacity_def by (subst while_unfold, subst while_unfold) auto
  show "required \<le> grow_capacity limit required capacity" using assms by (simp add: *)
  show "grow_capacity limit required capacity \<le> limit" by (simp add: *)
qed

lemma ensureCapacity_fits:
  assumes "writer_ok w" and "w_offset w + n \<le> w_max w"
  shows "\<exists>extra. ensureCapacity w n = Inr (w\<lparr> w_buffer := w_buffer w @ extra \<rparr>) \<and>
    w_offset w + n \<le> length (w_buffer w @ extra) \<and> length (w_buffer w @ extra) \<le> w_max w"
proof (cases "w_offset w + n \<le> length (w_buffer w)")
  case True
  with assms show ?thesis by (intro exI [of _ "[]"]) (auto simp: ensureCapacity_def writer_ok_def Let_def)
next
  case False
  let ?c = "grow_capacity (w_max w) (w_offset w + n) (max 1 (length (w_buffer w)))"
  have "w_offset w + n \<le> ?c \<and> ?c \<le> w_max w"
  proof (cases "max 1 (length (w_buffer w)) < w_offset w + n")
    case True
    with grow_capacity_bounds [OF assms(2)] show ?thesis by blast
  next
    case nlt: False
    then have "?c = max 1 (length (w_buffer w))"
      unfolding grow_capacity_def by (subst while_unfold) auto
    with nlt False assms show ?thesis by auto
  qed
  with False assms show ?thesis
    by (intro exI [of _ "replicate (?c - length (w_buffer w)) 0"]) (auto simp: ensureCapacity_def Let_def)
qed

lemma finish_length: "writer_ok w \<Longrightarrow> length (finish w) = w_offset w"
  by (simp add: finish_def writer_ok_def)

lemma writeBytes_fits:
  assumes "writer_ok w" and "length (finish w) + length bs \<le> w_max w"
  shows "\<exists>w'. writeBytes w bs = Inr w' \<and> writer_ok w' \<and> finish w' = finish w @ bs \<and> w_max w' = w_max w"
proof -
  from ensureCapacity_fits [of w "length bs"] assms finish_length [OF assms(1)] obtain extra where
    e: "ensureCapacity w (length bs) = Inr (w\<lparr> w_buffer := w_buffer w @ extra \<rparr>)"
      "w_offset w + length bs \<le> length (w_buffer w @ extra)" "length (w_buffer w @ extra) \<le> w_max w"
    by auto
  let ?b = "blit (w_buffer w @ extra) (w_offset w) bs"
  have "length ?b = length (w_buffer w @ extra)"
    using e(2) by (simp add: blit_def)
  moreover have "take (w_offset w + length bs) ?b = take (w_offset w) (w_buffer w) @ bs"
    using assms(1) e(2) by (simp add: blit_def writer_ok_def)
  ultimately show ?thesis
    using e assms(1) by (auto simp: writeBytes_def writer_ok_def finish_def)
qed

lemma writeBytes_full:
  "writer_ok w \<Longrightarrow> w_max w < length (finish w) + length bs \<Longrightarrow> writeBytes w bs = Inl ByteLimit"
  by (simp add: writeBytes_def ensureCapacity_def finish_length Let_def)

interpretation writer: byte_sink writeBytes finish w_max writer_ok
  by unfold_locales (rule writeBytes_fits writeBytes_full; assumption)+

lemma new_writer_ok: "writer_ok (new_writer m)" "finish (new_writer m) = []" "w_max (new_writer m) = m"
  by (simp_all add: writer_ok_def new_writer_def finish_def)

section \<open>Big-endian numbers\<close>

lemma unat_byte_of: "unat (byte_of n) = n mod 256"
  by (simp add: byte_of_def unat_of_nat)

lemma uint32_digits:
  assumes "(n :: nat) < 2 ^ 32"
  shows "n div 16777216 mod 256 * 16777216 + n div 65536 mod 256 * 65536 + n div 256 mod 256 * 256
    + n mod 256 = n"
proof -
  have a: "n div 65536 = n div 16777216 * 256 + n div 65536 mod 256"
    using div_mult_mod_eq [of "n div 65536" 256] by (simp add: div_mult2_eq [symmetric])
  have b: "n div 256 = n div 65536 * 256 + n div 256 mod 256"
    using div_mult_mod_eq [of "n div 256" 256] by (simp add: div_mult2_eq [symmetric])
  have c: "n = n div 256 * 256 + n mod 256" by simp
  have "n div 16777216 < 256" using assms by (simp add: less_mult_imp_div_less)
  then have "n div 16777216 mod 256 = n div 16777216" by simp
  then show ?thesis using a b c by linarith
qed

lemma unat_uint32_bytes:
  assumes "n < 2 ^ 32"
  shows "map unat (uint32_bytes n) = [n div 16777216 mod 256, n div 65536 mod 256, n div 256 mod 256, n mod 256]"
  using assms by (simp add: uint32_bytes_def unat_byte_of shift_right_def)

lemma be_quotients:
  assumes "a < 256" and "b < 256" and "c < 256" and "d < (256 :: nat)"
  shows "(a * 16777216 + b * 65536 + c * 256 + d) div 16777216 mod 256 = a"
    "(a * 16777216 + b * 65536 + c * 256 + d) div 65536 mod 256 = b"
    "(a * 16777216 + b * 65536 + c * 256 + d) div 256 mod 256 = c"
    "(a * 16777216 + b * 65536 + c * 256 + d) mod 256 = d"
proof -
  let ?n = "a * 16777216 + b * 65536 + c * 256 + d"
  have m: "(x * 256 + y) mod 256 = y" "(x * 256 + y) div 256 = x" if "y < 256" for x y :: nat
    using that by simp_all
  have e: "?n = ((a * 256 + b) * 256 + c) * 256 + d" by simp
  have q1: "?n div 256 = (a * 256 + b) * 256 + c" unfolding e by (rule m(2) [OF assms(4)])
  have "?n div 65536 = ?n div 256 div 256" by (simp add: div_mult2_eq [symmetric])
  then have q2: "?n div 65536 = a * 256 + b" unfolding q1 m(2) [OF assms(3)] .
  have "?n div 16777216 = ?n div 65536 div 256" by (simp add: div_mult2_eq [symmetric])
  then have q3: "?n div 16777216 = a" unfolding q2 m(2) [OF assms(2)] .
  show "?n div 16777216 mod 256 = a" unfolding q3 using assms(1) by simp
  show "?n div 65536 mod 256 = b" unfolding q2 by (rule m(1) [OF assms(2)])
  show "?n div 256 mod 256 = c" unfolding q1 by (rule m(1) [OF assms(3)])
  show "?n mod 256 = d" unfolding e by (rule m(1) [OF assms(4)])
qed

lemma uint32_of_bytes:
  "uint32_bytes (unat a * 16777216 + unat b * 65536 + unat c * 256 + unat d) = [a, b, c, d]"
proof -
  have l: "unat x < 256" for x :: byte using unsigned_less [of x] by simp
  let ?n = "unat a * 16777216 + unat b * 65536 + unat c * 256 + unat d"
  have "?n < 2 ^ 32" using l [of a] l [of b] l [of c] l [of d] by simp
  from unat_uint32_bytes [OF this] have "map unat (uint32_bytes ?n) = map unat [a, b, c, d]"
    by (simp only: be_quotients l list.map)
  then show ?thesis by (rule map_injective) (auto intro: injI dest: unsigned_word_eqI)
qed

end
