(* ===== verification/Cbor_Encoder.thy ===== *)
theory Cbor_Encoder
  imports Cbor_Writer Utf8
begin

text \<open>
  \<^verbatim>\<open>encodeValue\<close> and \<^verbatim>\<open>encodeCbor\<close> of \<^verbatim>\<open>packages/protocol/src/cbor/encoder.ts\<close>, over a heap of
  JavaScript objects: the value may share or close cycles, and the code guards against the latter
  with the set of its ancestors. A read of a property that is an accessor returns the value of its
  getter. The encoder refines a recursive encoding of finite trees.
\<close>

section \<open>The code\<close>

definition writeArgument :: "cbor_writer \<Rightarrow> nat \<Rightarrow> nat \<Rightarrow> cbor_error + cbor_writer" where
  "writeArgument w majorType v =
     (let prefix = push_bit 5 majorType in
      if v < 24 then writeByte w (prefix OR v)
      else if v \<le> 0xFF then rbind (writeByte w (prefix OR 24)) (\<lambda>w'. writeByte w' v)
      else if v \<le> 0xFFFF then rbind (writeByte w (prefix OR 25)) (\<lambda>w'. writeUint16 w' v)
      else if v \<le> MAX_UINT32 then rbind (writeByte w (prefix OR 26)) (\<lambda>w'. writeUint32 w' v)
      else rbind (writeByte w (prefix OR 27)) (\<lambda>w'. writeUint64 w' v))"

definition encodeText :: "cbor_writer \<Rightarrow> js_string \<Rightarrow> resolved_options \<Rightarrow> cbor_error + cbor_writer" where
  "encodeText w v opts =
     (let bytes = text_encode v in
      rbind (ensure (\<not> length bytes > maxByteLength opts) TextLimit) (\<lambda>_.
      rbind (ensure (text_decode bytes = Some v) InvalidText) (\<lambda>_.
      rbind (writeArgument w 3 (length bytes)) (\<lambda>w'. writeBytes w' bytes))))"

text \<open>The branch of \<^verbatim>\<open>encodeValue\<close> for numbers.\<close>

definition encodeNumber :: "cbor_writer \<Rightarrow> js_num \<Rightarrow> cbor_error + cbor_writer" where
  "encodeNumber w n =
     rbind (ensure (js_isFinite n) NotFinite) (\<lambda>_.
     if js_isInteger n \<and> \<not> js_is_neg_zero n then
       rbind (ensure (js_isSafeInteger n) UnsafeInteger) (\<lambda>_.
       if js_int n \<ge> 0 then writeArgument w 0 (nat (js_int n))
       else writeArgument w 1 (nat (- 1 - js_int n)))
     else (case n of NFloat f \<Rightarrow> writeFloat64 w f | NInt i \<Rightarrow> Inl NotFinite))"

text \<open>The entries of an object whose value is not \<^verbatim>\<open>undefined\<close>.\<close>

definition defined_entries :: "js_object \<Rightarrow> (js_string \<times> js_val) list" where
  "defined_entries obj =
     filter (\<lambda>(k, v). v \<noteq> VUndefined) (map (\<lambda>(k, s). (k, slot_value s)) (o_props obj))"

function encodeValue :: "heap \<Rightarrow> resolved_options \<Rightarrow> cbor_writer \<Rightarrow> js_val \<Rightarrow> nat \<Rightarrow> addr set
      \<Rightarrow> cbor_error + cbor_writer"
  and encodeItems :: "heap \<Rightarrow> resolved_options \<Rightarrow> cbor_writer \<Rightarrow> slot option list \<Rightarrow> nat \<Rightarrow> addr set
      \<Rightarrow> cbor_error + cbor_writer"
  and encodeEntries :: "heap \<Rightarrow> resolved_options \<Rightarrow> cbor_writer \<Rightarrow> (js_string \<times> js_val) list \<Rightarrow> nat \<Rightarrow> addr set
      \<Rightarrow> cbor_error + cbor_writer" where
  "encodeValue h opts w v depth ancestors =
     (if depth > maxDepth opts then Inl DepthLimit
      else case v of
        VNull \<Rightarrow> writeByte w 0xF6
      | VBool b \<Rightarrow> writeByte w (if b then 0xF5 else 0xF4)
      | VNum n \<Rightarrow> encodeNumber w n
      | VStr s \<Rightarrow> encodeText w s opts
      | VBytes bytes \<Rightarrow>
          (if length bytes > maxByteLength opts then Inl BytesLimit
           else rbind (writeArgument w 2 (length bytes)) (\<lambda>w'. writeBytes w' bytes))
      | VRef a \<Rightarrow>
          (if o_isArray (h a) then
             (if a \<in> ancestors then Inl Cycle
              else if length (o_elems (h a)) > maxContainerLength opts then Inl ArrayLimit
              else rbind (writeArgument w 4 (length (o_elems (h a)))) (\<lambda>w'.
                   encodeItems h opts w' (o_elems (h a)) (depth + 1) (insert a ancestors)))
           else if isPlainObject (h a) then
             (if a \<in> ancestors then Inl Cycle
              else if \<exists>enumerable \<in> set (o_symbols (h a)). enumerable then Inl SymbolKey
              else let entries = defined_entries (h a) in
                   if length entries > maxContainerLength opts then Inl MapLimit
                   else rbind (writeArgument w 5 (length entries)) (\<lambda>w'.
                        encodeEntries h opts w' entries (depth + 1) (insert a ancestors)))
           else Inl UnsupportedValue)
      | VUndefined \<Rightarrow> Inl UnsupportedValue
      | VOther t \<Rightarrow> Inl UnsupportedValue)"
| "encodeItems h opts w [] depth ancestors = Inr w"
| "encodeItems h opts w (element # rest) depth ancestors =
     (case element of
        None \<Rightarrow> Inl ArrayHole
      | Some slot \<Rightarrow>
          if slot_value slot = VUndefined then Inl ArrayHole
          else rbind (encodeValue h opts w (slot_value slot) depth ancestors) (\<lambda>w'.
               encodeItems h opts w' rest depth ancestors))"
| "encodeEntries h opts w [] depth ancestors = Inr w"
| "encodeEntries h opts w ((key, v) # rest) depth ancestors =
     rbind (encodeText w key opts) (\<lambda>w1.
     rbind (encodeValue h opts w1 v depth ancestors) (\<lambda>w2.
     encodeEntries h opts w2 rest depth ancestors))"
  by pat_completeness auto
termination
  by (relation "measures
       [\<lambda>x. case x of Inl (h, opts, w, v, d, anc) \<Rightarrow> Suc (maxDepth opts) - d
          | Inr (Inl (h, opts, w, xs, d, anc)) \<Rightarrow> Suc (maxDepth opts) - d
          | Inr (Inr (h, opts, w, xs, d, anc)) \<Rightarrow> Suc (maxDepth opts) - d,
        \<lambda>x. case x of Inl _ \<Rightarrow> 0
          | Inr (Inl (h, opts, w, xs, d, anc)) \<Rightarrow> Suc (length xs)
          | Inr (Inr (h, opts, w, xs, d, anc)) \<Rightarrow> Suc (length xs)]") auto

declare encodeValue.simps [simp del]

definition encodeCbor :: "heap \<Rightarrow> js_val \<Rightarrow> cbor_options \<Rightarrow> cbor_error + byte list" where
  "encodeCbor h v options =
     rbind (resolveOptions options) (\<lambda>resolved.
     rbind (encodeValue h resolved (new_writer (maxByteLength resolved)) v 0 {}) (\<lambda>w.
     Inr (finish w)))"

section \<open>The reference encoding of finite trees\<close>

datatype cbor =
    CNull
  | CBool bool
  | CNum js_num
  | CText js_string
  | CBytes "byte list"
  | CArray "cbor list"
  | CMap "(js_string \<times> cbor) list"

definition enc_head :: "nat \<Rightarrow> nat \<Rightarrow> byte" where
  "enc_head major info = byte_of (push_bit 5 major OR info)"

definition enc_arg :: "nat \<Rightarrow> nat \<Rightarrow> byte list" where
  "enc_arg major n =
     (if n < 24 then [enc_head major n]
      else if n \<le> 0xFF then [enc_head major 24, byte_of n]
      else if n \<le> 0xFFFF then [enc_head major 25, byte_of (shift_right n 8), byte_of n]
      else if n \<le> MAX_UINT32 then enc_head major 26 # uint32_bytes n
      else enc_head major 27 # uint32_bytes (n div UINT32_BASE) @ uint32_bytes (n mod UINT32_BASE))"

definition enc_text :: "js_string \<Rightarrow> byte list" where
  "enc_text s = enc_arg 3 (length (text_encode s)) @ text_encode s"

fun enc_num :: "js_num \<Rightarrow> byte list" where
  "enc_num (NInt i) = (if 0 \<le> i then enc_arg 0 (nat i) else enc_arg 1 (nat (- 1 - i)))"
| "enc_num (NFloat f) = 0xFB # float64_bytes f"

fun enc :: "cbor \<Rightarrow> byte list" where
  "enc CNull = [0xF6]"
| "enc (CBool b) = [if b then 0xF5 else 0xF4]"
| "enc (CNum n) = enc_num n"
| "enc (CText s) = enc_text s"
| "enc (CBytes bs) = enc_arg 2 (length bs) @ bs"
| "enc (CArray ts) = enc_arg 4 (length ts) @ concat (map enc ts)"
| "enc (CMap es) = enc_arg 5 (length es) @ concat (map (\<lambda>(k, t). enc_text k @ enc t) es)"

text \<open>The tree a value of the heap stands for.\<close>

inductive denotes :: "heap \<Rightarrow> js_val \<Rightarrow> cbor \<Rightarrow> bool" for h where
  denotes_null: "denotes h VNull CNull"
| denotes_bool: "denotes h (VBool b) (CBool b)"
| denotes_num: "denotes h (VNum n) (CNum (num_canon n))"
| denotes_text: "denotes h (VStr s) (CText s)"
| denotes_bytes: "denotes h (VBytes bs) (CBytes bs)"
| denotes_array:
    "o_isArray (h a) \<Longrightarrow>
     list_all2 (\<lambda>x t. \<exists>s. x = Some s \<and> denotes h (slot_value s) t) (o_elems (h a)) ts \<Longrightarrow>
     denotes h (VRef a) (CArray ts)"
| denotes_map:
    "\<not> o_isArray (h a) \<Longrightarrow> isPlainObject (h a) \<Longrightarrow> True \<notin> set (o_symbols (h a)) \<Longrightarrow>
     list_all2 (\<lambda>x e. fst x = fst e \<and> denotes h (snd x) (snd e)) (defined_entries (h a)) es \<Longrightarrow>
     denotes h (VRef a) (CMap es)"

inductive_simps denotes_simps [simp]:
  "denotes h VUndefined t"
  "denotes h VNull t"
  "denotes h (VBool b) t"
  "denotes h (VNum n) t"
  "denotes h (VStr s) t"
  "denotes h (VBytes bs) t"
  "denotes h (VOther x) t"

inductive_cases denotes_refE: "denotes h (VRef a) t"

text \<open>What the options allow of a tree at a depth.\<close>

fun num_ok :: "js_num \<Rightarrow> bool" where
  "num_ok (NInt i) = (\<bar>i\<bar> \<le> MAX_SAFE_INTEGER)"
| "num_ok (NFloat f) = (f64_finite f \<and> (f64_is_integer f \<longrightarrow> f = f64_neg_zero))"

definition text_ok :: "resolved_options \<Rightarrow> js_string \<Rightarrow> bool" where
  "text_ok opts s = (well_formed s \<and> length (text_encode s) \<le> maxByteLength opts)"

fun within :: "resolved_options \<Rightarrow> nat \<Rightarrow> cbor \<Rightarrow> bool" where
  "within opts d CNull = (d \<le> maxDepth opts)"
| "within opts d (CBool b) = (d \<le> maxDepth opts)"
| "within opts d (CNum n) = (d \<le> maxDepth opts \<and> num_ok n)"
| "within opts d (CText s) = (d \<le> maxDepth opts \<and> text_ok opts s)"
| "within opts d (CBytes bs) = (d \<le> maxDepth opts \<and> length bs \<le> maxByteLength opts)"
| "within opts d (CArray ts) =
     (d \<le> maxDepth opts \<and> length ts \<le> maxContainerLength opts \<and> list_all (within opts (Suc d)) ts)"
| "within opts d (CMap es) =
     (d \<le> maxDepth opts \<and> length es \<le> maxContainerLength opts \<and>
      list_all (\<lambda>(k, t). text_ok opts k \<and> within opts (Suc d) t) es)"

section \<open>The encoder refines it\<close>

text \<open>\<open>emits w r bs\<close>: running from \<open>w\<close> gave \<open>r\<close>, and \<open>r\<close> is what appending \<open>bs\<close> gives.\<close>

definition emits :: "cbor_writer \<Rightarrow> cbor_error + cbor_writer \<Rightarrow> byte list \<Rightarrow> bool" where
  "emits w r bs =
     (case r of
        Inr w' \<Rightarrow> writer_ok w' \<and> finish w' = finish w @ bs \<and> w_max w' = w_max w
      | Inl e \<Rightarrow> e = ByteLimit \<and> w_max w < length (finish w) + length bs)"

lemma emits_writeBytes: "writer_ok w \<Longrightarrow> emits w (writeBytes w bs) bs"
  using writer.emit_Inr [of w bs] writer.emit_Inl [of w bs]
  by (auto simp: emits_def split: sum.splits)

lemma emits_bind:
  assumes "emits w r as" and "\<And>w'. writer_ok w' \<Longrightarrow> r = Inr w' \<Longrightarrow> emits w' (f w') bs"
  shows "emits w (rbind r f) (as @ bs)"
  using assms by (cases r) (fastforce simp: emits_def split: sum.splits)+

lemma emits_Inr: "emits w (Inr w') bs \<longleftrightarrow> writer_ok w' \<and> finish w' = finish w @ bs \<and> w_max w' = w_max w"
  by (simp add: emits_def)

lemma emits_writeArgument:
  assumes "writer_ok w"
  shows "emits w (writeArgument w major n) (enc_arg major n)"
proof -
  have two: "emits w (rbind (writeBytes w [b]) f) (b # bs)"
    if "\<And>w'. writer_ok w' \<Longrightarrow> emits w' (f w') bs" for b f bs
    using emits_bind [OF emits_writeBytes [OF assms], of "[b]" f bs] that by simp
  have u64: "emits w' (writeUint64 w' n) (uint32_bytes (n div UINT32_BASE) @ uint32_bytes (n mod UINT32_BASE))"
    if "writer_ok w'" for w'
    unfolding writeUint64_def Let_def writeUint32_def
    using emits_bind [OF emits_writeBytes [OF that] emits_writeBytes]
    by (simp add: minus_div_mult_eq_mod)
  show ?thesis
    by (auto simp: writeArgument_def enc_arg_def enc_head_def emits_writeBytes assms Let_def writeByte_def
        writeUint16_def writeUint32_def intro!: two u64)
qed

lemma emits_encodeText:
  assumes "writer_ok w" and "text_ok opts s"
  shows "emits w (encodeText w s opts) (enc_text s)"
  using assms unfolding encodeText_def Let_def text_ok_def
  by (simp add: text_round_trip_iff enc_text_def emits_bind emits_writeArgument emits_writeBytes)

lemma encodeText_Inr: "encodeText w s opts = Inr w' \<Longrightarrow> text_ok opts s"
  by (auto simp: encodeText_def Let_def text_ok_def text_round_trip_iff rbind_Inr_iff)

lemma emits_encodeNumber:
  assumes "writer_ok w" and "num_ok (num_canon n)"
  shows "emits w (encodeNumber w n) (enc_num (num_canon n))"
proof (cases "js_isInteger n \<and> \<not> js_is_neg_zero n")
  case True
  then have "num_canon n = NInt (js_int n)" "js_isFinite n"
    by (auto intro: num_canon_integral js_isInteger_finite)
  with True assms show ?thesis
    by (simp add: encodeNumber_def js_isSafeInteger_def emits_writeArgument)
next
  case False
  then obtain f where "n = NFloat f" "num_canon n = NFloat f" using num_canon_float by blast
  with False assms show ?thesis
    by (auto simp: encodeNumber_def writeFloat64_def emits_writeBytes)
qed

lemma encodeNumber_Inr:
  assumes "encodeNumber w n = Inr w'"
  shows "num_ok (num_canon n)"
proof (cases "js_isInteger n \<and> \<not> js_is_neg_zero n")
  case True
  with assms show ?thesis
    by (simp add: encodeNumber_def js_isSafeInteger_def rbind_Inr_iff num_canon_integral)
next
  case False
  then obtain f where "n = NFloat f" "num_canon n = NFloat f" using num_canon_float by blast
  with False assms show ?thesis
    by (auto simp: encodeNumber_def rbind_Inr_iff js_is_neg_zero_def)
qed

text \<open>A value stands for at most one tree, and a tree is larger than the trees of its parts.\<close>

lemma list_all2_same_right:
  assumes "list_all2 (\<lambda>x y. \<forall>y'. Q x y' \<longrightarrow> y' = y) xs ys" and "list_all2 Q xs zs"
  shows "zs = ys"
  using assms
proof (induction arbitrary: zs rule: list_all2_induct)
  case (Cons x xs y ys)
  then show ?case by (cases zs) auto
qed simp

lemma list_all2_strengthen:
  "list_all2 P xs ys \<Longrightarrow> (\<And>x y. y \<in> set ys \<Longrightarrow> P x y \<Longrightarrow> Q x y) \<Longrightarrow> list_all2 Q xs ys"
  by (auto simp: list_all2_conv_all_nth)

lemma denotes_unique: "denotes h v t \<Longrightarrow> denotes h v t' \<Longrightarrow> t' = t"
proof (induction arbitrary: t' rule: denotes.induct)
  case (denotes_array a ts)
  from denotes_array.prems denotes_array.hyps(1) obtain ts' where t': "t' = CArray ts'"
    and "list_all2 (\<lambda>x t. \<exists>s. x = Some s \<and> denotes h (slot_value s) t) (o_elems (h a)) ts'"
    by (auto elim: denotes_refE)
  then have "ts' = ts" using denotes_array.IH
    by (intro list_all2_same_right [of _ _ ts]) (auto elim!: list_all2_mono)
  with t' show ?case by simp
next
  case (denotes_map a es)
  from denotes_map.prems denotes_map.hyps(1) obtain es' where t': "t' = CMap es'"
    and "list_all2 (\<lambda>x e. fst x = fst e \<and> denotes h (snd x) (snd e)) (defined_entries (h a)) es'"
    by (auto elim: denotes_refE)
  then have "es' = es" using denotes_map.IH
    by (intro list_all2_same_right [of _ _ es]) (auto elim!: list_all2_mono simp: prod_eq_iff)
  with t' show ?case by simp
qed auto

lemma size_item: "t \<in> set ts \<Longrightarrow> size t < size (CArray ts)"
  by (induction ts) auto

lemma size_entry: "(k, t) \<in> set es \<Longrightarrow> size t < size (CMap es)"
  by (induction es) auto

lemma emits_leaf:
  assumes "writer_ok w" and "denotes h v t" and "within opts d t" and "\<nexists>a. v = VRef a"
  shows "emits w (encodeValue h opts w v d anc) (enc t)"
  using assms
  by (cases v) (auto simp: encodeValue.simps writeByte_def byte_of_def emits_writeBytes
      emits_encodeNumber emits_encodeText emits_bind emits_writeArgument)

lemma encode_leaf:
  assumes "encodeValue h opts w v d anc = Inr w'" and "writer_ok w" and "\<nexists>a. v = VRef a"
  shows "\<exists>t. denotes h v t \<and> within opts d t \<and> emits w (Inr w') (enc t)"
proof -
  have "\<exists>t. denotes h v t \<and> within opts d t"
    using assms(1,3)
    by (cases v) (auto simp: encodeValue.simps encodeNumber_Inr encodeText_Inr split: if_splits)
  with emits_leaf [OF assms(2) _ _ assms(3)] assms(1) show ?thesis by metis
qed

lemma encode_sound_all:
  "encodeValue h opts w v d anc = Inr w' \<Longrightarrow> writer_ok w \<Longrightarrow>
     \<exists>t. denotes h v t \<and> within opts d t \<and> emits w (Inr w') (enc t)"
  "encodeItems h opts w xs d anc = Inr w' \<Longrightarrow> writer_ok w \<Longrightarrow>
     \<exists>ts. list_all2 (\<lambda>x t. \<exists>s. x = Some s \<and> denotes h (slot_value s) t) xs ts \<and>
       list_all (within opts d) ts \<and> emits w (Inr w') (concat (map enc ts))"
  "encodeEntries h opts w es d anc = Inr w' \<Longrightarrow> writer_ok w \<Longrightarrow>
     \<exists>ts. list_all2 (\<lambda>x e. fst x = fst e \<and> denotes h (snd x) (snd e)) es ts \<and>
       list_all (\<lambda>(k, t). text_ok opts k \<and> within opts d t) ts \<and>
       emits w (Inr w') (concat (map (\<lambda>(k, t). enc_text k @ enc t) ts))"
proof (induction h opts w v d anc and h opts w xs d anc and h opts w es d anc
    arbitrary: w' and w' and w' rule: encodeValue_encodeItems_encodeEntries.induct)
  case (1 h opts w v depth ancestors)
  have d: "depth \<le> maxDepth opts" using "1.prems"(1) by (simp add: encodeValue.simps split: if_splits)
  show ?case
  proof (cases "\<exists>a. v = VRef a")
    case False
    then show ?thesis using encode_leaf [OF "1.prems"] by blast
  next
    case True
    then obtain a where v: "v = VRef a" by blast
    show ?thesis
    proof (cases "o_isArray (h a)")
      case arr: True
      with v "1.prems"(1) d obtain w1 where
        c: "a \<notin> ancestors" "\<not> length (o_elems (h a)) > maxContainerLength opts"
        and w1: "writeArgument w 4 (length (o_elems (h a))) = Inr w1"
          "encodeItems h opts w1 (o_elems (h a)) (depth + 1) (insert a ancestors) = Inr w'"
        by (auto simp: encodeValue.simps rbind_Inr_iff split: if_splits)
      have e: "emits w (Inr w1) (enc_arg 4 (length (o_elems (h a))))"
        using emits_writeArgument [OF "1.prems"(2)] w1(1) by metis
      with "1.IH"(1) [OF _ v arr c w1] d obtain ts where
        ts: "list_all2 (\<lambda>x t. \<exists>s. x = Some s \<and> denotes h (slot_value s) t) (o_elems (h a)) ts"
        "list_all (within opts (depth + 1)) ts" "emits w1 (Inr w') (concat (map enc ts))"
        by (auto simp: emits_Inr)
      then show ?thesis using arr v d c e list_all2_lengthD [OF ts(1)]
        by (intro exI [of _ "CArray ts"]) (auto simp: emits_Inr intro: denotes_array)
    next
      case nonarr: False
      with v "1.prems"(1) d obtain w1 where
        c: "isPlainObject (h a)" "a \<notin> ancestors" "\<not> (\<exists>enumerable \<in> set (o_symbols (h a)). enumerable)"
          "\<not> length (defined_entries (h a)) > maxContainerLength opts"
        and w1: "writeArgument w 5 (length (defined_entries (h a))) = Inr w1"
          "encodeEntries h opts w1 (defined_entries (h a)) (depth + 1) (insert a ancestors) = Inr w'"
        by (auto simp: encodeValue.simps rbind_Inr_iff Let_def split: if_splits)
      have e: "emits w (Inr w1) (enc_arg 5 (length (defined_entries (h a))))"
        using emits_writeArgument [OF "1.prems"(2)] w1(1) by metis
      with "1.IH"(2) [OF _ v nonarr c(1,2,3) refl c(4) w1] d obtain es where
        es: "list_all2 (\<lambda>x e. fst x = fst e \<and> denotes h (snd x) (snd e)) (defined_entries (h a)) es"
        "list_all (\<lambda>(k, t). text_ok opts k \<and> within opts (depth + 1) t) es"
        "emits w1 (Inr w') (concat (map (\<lambda>(k, t). enc_text k @ enc t) es))"
        by (auto simp: emits_Inr)
      then show ?thesis using nonarr v d c e list_all2_lengthD [OF es(1)]
        by (intro exI [of _ "CMap es"]) (auto simp: emits_Inr intro!: denotes_map)
    qed
  qed
next
  case (3 h opts w element rest depth ancestors)
  then obtain s w1 where s: "element = Some s" "slot_value s \<noteq> VUndefined"
    and w1: "encodeValue h opts w (slot_value s) depth ancestors = Inr w1"
      "encodeItems h opts w1 rest depth ancestors = Inr w'"
    by (auto simp: rbind_Inr_iff split: option.splits if_splits)
  from "3.IH"(1) [OF s w1(1) "3.prems"(2)] obtain t where
    t: "denotes h (slot_value s) t" "within opts depth t" "emits w (Inr w1) (enc t)" by blast
  from "3.IH"(2) [OF s w1] t(3) obtain ts where
    "list_all2 (\<lambda>x t. \<exists>s. x = Some s \<and> denotes h (slot_value s) t) rest ts"
    "list_all (within opts depth) ts" "emits w1 (Inr w') (concat (map enc ts))"
    by (auto simp: emits_Inr)
  with t s show ?case by (intro exI [of _ "t # ts"]) (auto simp: emits_Inr)
next
  case (5 h opts w key v rest depth ancestors)
  then obtain w1 w2 where w: "encodeText w key opts = Inr w1"
      "encodeValue h opts w1 v depth ancestors = Inr w2" "encodeEntries h opts w2 rest depth ancestors = Inr w'"
    by (auto simp: rbind_Inr_iff)
  note k = encodeText_Inr [OF w(1)]
  with emits_encodeText [OF "5.prems"(2)] w(1) have e1: "emits w (Inr w1) (enc_text key)" by metis
  with "5.IH"(1) [OF w(1,2)] obtain t where
    t: "denotes h v t" "within opts depth t" "emits w1 (Inr w2) (enc t)" by (auto simp: emits_Inr)
  with "5.IH"(2) [OF w] obtain ts where
    "list_all2 (\<lambda>x e. fst x = fst e \<and> denotes h (snd x) (snd e)) rest ts"
    "list_all (\<lambda>(k, t). text_ok opts k \<and> within opts depth t) ts"
    "emits w2 (Inr w') (concat (map (\<lambda>(k, t). enc_text k @ enc t) ts))"
    by (auto simp: emits_Inr)
  with t k e1 show ?case by (intro exI [of _ "(key, t) # ts"]) (auto simp: emits_Inr)
qed (auto simp: emits_Inr)

text \<open>
  Conversely, whatever the options allow is encoded, up to the byte limit: the guard against cycles
  never fires on a value that stands for a tree, because an ancestor stands for a larger one.
\<close>

lemma emits_nil: "writer_ok w \<Longrightarrow> emits w (Inr w) []"
  by (simp add: emits_def)

lemma emits_items:
  assumes "list_all2 (\<lambda>x t. \<exists>s. x = Some s \<and> slot_value s \<noteq> VUndefined \<and>
      (\<forall>w. writer_ok w \<longrightarrow> emits w (encodeValue h opts w (slot_value s) d anc) (enc t))) xs ts"
    and "writer_ok w"
  shows "emits w (encodeItems h opts w xs d anc) (concat (map enc ts))"
  using assms
  by (induction arbitrary: w rule: list_all2_induct) (auto simp: emits_nil intro!: emits_bind)

lemma emits_entries:
  assumes "list_all2 (\<lambda>x e. fst x = fst e \<and> text_ok opts (fst e) \<and>
      (\<forall>w. writer_ok w \<longrightarrow> emits w (encodeValue h opts w (snd x) d anc) (enc (snd e)))) xs es"
    and "writer_ok w"
  shows "emits w (encodeEntries h opts w xs d anc) (concat (map (\<lambda>(k, t). enc_text k @ enc t) es))"
  using assms
  by (induction arbitrary: w rule: list_all2_induct)
    (auto simp: emits_nil split: prod.splits intro!: emits_bind emits_encodeText)

definition below :: "heap \<Rightarrow> addr set \<Rightarrow> cbor \<Rightarrow> bool" where
  "below h anc t = (\<forall>a\<in>anc. \<forall>t'. denotes h (VRef a) t' \<longrightarrow> size t < size t')"

lemma below_insert:
  "below h anc t \<Longrightarrow> denotes h (VRef a) t \<Longrightarrow> size t' < size t \<Longrightarrow> below h (insert a anc) t'"
  unfolding below_def by (metis denotes_unique insert_iff less_trans)

lemma below_not_ancestor: "below h anc t \<Longrightarrow> denotes h (VRef a) t \<Longrightarrow> a \<notin> anc"
  by (auto simp: below_def)

lemma emits_encodeValue:
  "denotes h v t \<Longrightarrow> within opts d t \<Longrightarrow> below h anc t \<Longrightarrow> writer_ok w \<Longrightarrow>
   emits w (encodeValue h opts w v d anc) (enc t)"
proof (induction arbitrary: d anc w rule: denotes.induct)
  case (denotes_array a ts)
  let ?xs = "o_elems (h a)"
  have IH: "list_all2 (\<lambda>x t. \<exists>s. x = Some s \<and> denotes h (slot_value s) t \<and>
      (\<forall>d anc w. within opts d t \<longrightarrow> below h anc t \<longrightarrow> writer_ok w \<longrightarrow>
         emits w (encodeValue h opts w (slot_value s) d anc) (enc t))) ?xs ts"
    using denotes_array.IH by (rule list_all2_mono) blast
  have self: "denotes h (VRef a) (CArray ts)"
    using denotes_array.IH denotes_array.hyps(1)
    by (intro denotes.denotes_array) (auto elim!: list_all2_mono)
  have "list_all2 (\<lambda>x t. \<exists>s. x = Some s \<and> slot_value s \<noteq> VUndefined \<and>
      (\<forall>w. writer_ok w \<longrightarrow> emits w (encodeValue h opts w (slot_value s) (Suc d) (insert a anc)) (enc t))) ?xs ts"
    using IH
  proof (rule list_all2_strengthen)
    fix x t assume t: "t \<in> set ts" and *: "\<exists>s. x = Some s \<and> denotes h (slot_value s) t \<and>
      (\<forall>d anc w. within opts d t \<longrightarrow> below h anc t \<longrightarrow> writer_ok w \<longrightarrow>
         emits w (encodeValue h opts w (slot_value s) d anc) (enc t))"
    have "within opts (Suc d) t" using t denotes_array.prems(1) by (simp add: list_all_iff)
    moreover have "below h (insert a anc) t"
      using below_insert [OF denotes_array.prems(2) self size_item [OF t]] .
    ultimately show "\<exists>s. x = Some s \<and> slot_value s \<noteq> VUndefined \<and>
      (\<forall>w. writer_ok w \<longrightarrow> emits w (encodeValue h opts w (slot_value s) (Suc d) (insert a anc)) (enc t))"
      using * by fastforce
  qed
  note items = emits_items [OF this]
  moreover have "length ?xs = length ts" using denotes_array.IH by (rule list_all2_lengthD)
  moreover note below_not_ancestor [OF denotes_array.prems(2) self] denotes_array.hyps(1)
    denotes_array.prems(1,3) emits_writeArgument [OF denotes_array.prems(3)]
  ultimately show ?case by (auto simp: encodeValue.simps intro!: emits_bind)
next
  case (denotes_map a es)
  let ?xs = "defined_entries (h a)"
  have IH: "list_all2 (\<lambda>x e. fst x = fst e \<and> denotes h (snd x) (snd e) \<and>
      (\<forall>d anc w. within opts d (snd e) \<longrightarrow> below h anc (snd e) \<longrightarrow> writer_ok w \<longrightarrow>
         emits w (encodeValue h opts w (snd x) d anc) (enc (snd e)))) ?xs es"
    using denotes_map.IH by (rule list_all2_mono) blast
  have self: "denotes h (VRef a) (CMap es)"
    using denotes_map.IH denotes_map.hyps(1-3)
    by (intro denotes.denotes_map) (auto elim!: list_all2_mono)
  have "list_all2 (\<lambda>x e. fst x = fst e \<and> text_ok opts (fst e) \<and>
      (\<forall>w. writer_ok w \<longrightarrow> emits w (encodeValue h opts w (snd x) (Suc d) (insert a anc)) (enc (snd e)))) ?xs es"
    using IH
  proof (rule list_all2_strengthen)
    fix x e assume e: "e \<in> set es" and *: "fst x = fst e \<and> denotes h (snd x) (snd e) \<and>
      (\<forall>d anc w. within opts d (snd e) \<longrightarrow> below h anc (snd e) \<longrightarrow> writer_ok w \<longrightarrow>
         emits w (encodeValue h opts w (snd x) d anc) (enc (snd e)))"
    have "text_ok opts (fst e)" "within opts (Suc d) (snd e)"
      using e denotes_map.prems(1) by (auto simp: list_all_iff)
    moreover have "below h (insert a anc) (snd e)"
      using below_insert [OF denotes_map.prems(2) self] size_entry [of "fst e" "snd e"] e by simp
    ultimately show "fst x = fst e \<and> text_ok opts (fst e) \<and>
      (\<forall>w. writer_ok w \<longrightarrow> emits w (encodeValue h opts w (snd x) (Suc d) (insert a anc)) (enc (snd e)))"
      using * by blast
  qed
  note entries = emits_entries [OF this]
  moreover have "length ?xs = length es" using denotes_map.IH by (rule list_all2_lengthD)
  moreover note below_not_ancestor [OF denotes_map.prems(2) self] denotes_map.hyps(1-3)
    denotes_map.prems(1,3) emits_writeArgument [OF denotes_map.prems(3)]
  ultimately show ?case by (auto simp: encodeValue.simps Let_def intro!: emits_bind)
qed (rule emits_leaf; simp)+

end
