(* ===== verification/Cbor_Decoder.thy ===== *)
theory Cbor_Decoder
  imports Cbor_Encoder
begin

text \<open>
  \<^verbatim>\<open>packages/protocol/src/cbor/decoder.ts\<close>. The state of a \<^verbatim>\<open>CborReader\<close> (its bytes and an
  offset into them) is the list of the bytes it has not read yet. A decoded object lists its
  properties in the order in which they were defined.
\<close>

section \<open>The code\<close>

type_synonym reader = "byte list"

definition readByte :: "reader \<Rightarrow> cbor_error + nat \<times> reader" where
  "readByte r = (case r of [] \<Rightarrow> Inl Truncated | b # r' \<Rightarrow> Inr (unat b, r'))"

definition readBytes :: "reader \<Rightarrow> nat \<Rightarrow> cbor_error + byte list \<times> reader" where
  "readBytes r n = (if n > length r then Inl Truncated else Inr (take n r, drop n r))"

definition read16 :: "reader \<Rightarrow> cbor_error + nat \<times> reader" where
  "read16 r = rbind (readBytes r 2) (\<lambda>(bytes, r').
     Inr (unat (bytes ! 0) * 0x100 + unat (bytes ! 1), r'))"

definition read32 :: "reader \<Rightarrow> cbor_error + nat \<times> reader" where
  "read32 r = rbind (readBytes r 4) (\<lambda>(bytes, r').
     Inr (unat (bytes ! 0) * 0x1000000 + unat (bytes ! 1) * 0x10000 + unat (bytes ! 2) * 0x100
          + unat (bytes ! 3), r'))"

definition readArgument :: "reader \<Rightarrow> nat \<Rightarrow> cbor_error + nat \<times> reader" where
  "readArgument r info =
     (if info < 24 then Inr (info, r)
      else if info = 24 then readByte r
      else if info = 25 then read16 r
      else if info = 26 then read32 r
      else if info = 27 then
        rbind (read32 r) (\<lambda>(high, r1).
        rbind (read32 r1) (\<lambda>(low, r2).
        if high > 0x1FFFFF then Inl UnsafeInteger else Inr (high * UINT32_BASE + low, r2)))
      else if info = 31 then Inl IndefiniteLength
      else Inl MalformedInfo)"

definition readLength :: "reader \<Rightarrow> nat \<Rightarrow> cbor_error \<Rightarrow> nat \<Rightarrow> cbor_error + nat \<times> reader" where
  "readLength r info limitError limit =
     (if info = 31 then Inl IndefiniteLength
      else rbind (readArgument r info) (\<lambda>(n, r').
           if n > limit then Inl limitError else Inr (n, r')))"

text \<open>\<^verbatim>\<open>DataView.getFloat64\<close>, big endian.\<close>

definition float64_of :: "byte list \<Rightarrow> 64 word" where
  "float64_of bytes = foldl (\<lambda>acc b. push_bit 8 acc OR ucast b) 0 bytes"

definition readSimple :: "reader \<Rightarrow> nat \<Rightarrow> cbor_error + cbor \<times> reader" where
  "readSimple r info =
     (if info = 20 then Inr (CBool False, r)
      else if info = 21 then Inr (CBool True, r)
      else if info = 22 then Inr (CNull, r)
      else if info = 27 then
        rbind (readBytes r 8) (\<lambda>(bytes, r').
        let v = f64_num (float64_of bytes) in
        if \<not> js_isFinite v then Inl NotFinite
        else if js_isInteger v \<and> \<not> js_isSafeInteger v then Inl UnsafeInteger
        else Inr (CNum v, r'))
      else if info = 31 then Inl BreakUnsupported
      else Inl SimpleUnsupported)"

function readItem :: "resolved_options \<Rightarrow> nat \<Rightarrow> reader \<Rightarrow> cbor_error + cbor \<times> reader"
  and readItems :: "resolved_options \<Rightarrow> nat \<Rightarrow> nat \<Rightarrow> cbor list \<Rightarrow> reader \<Rightarrow> cbor_error + cbor list \<times> reader"
  and readEntries :: "resolved_options \<Rightarrow> nat \<Rightarrow> nat \<Rightarrow> (js_string \<times> cbor) list \<Rightarrow> reader
      \<Rightarrow> cbor_error + (js_string \<times> cbor) list \<times> reader" where
  "readItem opts depth r =
     (if depth > maxDepth opts then Inl DepthLimit
      else rbind (readByte r) (\<lambda>(initial, r1).
        let majorType = initial div 2 ^ 5; info = initial mod 2 ^ 5 in
        if majorType = 0 then
          rbind (readArgument r1 info) (\<lambda>(n, r2). Inr (CNum (NInt (int n)), r2))
        else if majorType = 1 then
          rbind (readArgument r1 info) (\<lambda>(n, r2).
          let v = NInt (- 1 - int n) in
          if \<not> js_isSafeInteger v then Inl UnsafeInteger else Inr (CNum v, r2))
        else if majorType = 2 then
          rbind (readLength r1 info BytesLimit (maxByteLength opts)) (\<lambda>(n, r2).
          rbind (readBytes r2 n) (\<lambda>(bytes, r3). Inr (CBytes bytes, r3)))
        else if majorType = 3 then
          rbind (readLength r1 info TextLimit (maxByteLength opts)) (\<lambda>(n, r2).
          rbind (readBytes r2 n) (\<lambda>(bytes, r3).
          case text_decode bytes of None \<Rightarrow> Inl InvalidText | Some s \<Rightarrow> Inr (CText s, r3)))
        else if majorType = 4 then
          rbind (readLength r1 info ArrayLimit (maxContainerLength opts)) (\<lambda>(n, r2).
          rbind (readItems opts (depth + 1) n [] r2) (\<lambda>(ts, r3). Inr (CArray ts, r3)))
        else if majorType = 5 then
          rbind (readLength r1 info MapLimit (maxContainerLength opts)) (\<lambda>(n, r2).
          rbind (readEntries opts (depth + 1) n [] r2) (\<lambda>(es, r3). Inr (CMap es, r3)))
        else if majorType = 6 then Inl TagUnsupported
        else readSimple r1 info))"
| "readItems opts depth 0 result r = Inr (result, r)"
| "readItems opts depth (Suc n) result r =
     rbind (readItem opts depth r) (\<lambda>(t, r'). readItems opts depth n (result @ [t]) r')"
| "readEntries opts depth 0 result r = Inr (result, r)"
| "readEntries opts depth (Suc n) result r =
     rbind (readItem opts depth r) (\<lambda>(k, r1).
     case k of
       CText key \<Rightarrow>
         (if key \<in> fst ` set result then Inl DuplicateKey
          else rbind (readItem opts depth r1) (\<lambda>(t, r2).
               readEntries opts depth n (result @ [(key, t)]) r2))
     | _ \<Rightarrow> Inl NonStringKey)"
  by pat_completeness auto
termination
  by (relation "measures
       [\<lambda>x. case x of Inl (opts, d, r) \<Rightarrow> Suc (maxDepth opts) - d
          | Inr (Inl (opts, d, n, res, r)) \<Rightarrow> Suc (maxDepth opts) - d
          | Inr (Inr (opts, d, n, res, r)) \<Rightarrow> Suc (maxDepth opts) - d,
        \<lambda>x. case x of Inl _ \<Rightarrow> 0
          | Inr (Inl (opts, d, n, res, r)) \<Rightarrow> Suc n
          | Inr (Inr (opts, d, n, res, r)) \<Rightarrow> Suc n]") auto

declare readItem.simps [simp del]

definition decodeCbor :: "byte list \<Rightarrow> cbor_options \<Rightarrow> cbor_error + cbor" where
  "decodeCbor bytes options =
     rbind (resolveOptions options) (\<lambda>resolved.
     if length bytes > maxByteLength resolved then Inl ByteLimit
     else rbind (readItem resolved 0 bytes) (\<lambda>(t, rest).
          if rest \<noteq> [] then Inl TrailingData else Inr t))"

section \<open>Reading back what was written\<close>

lemma head_byte:
  assumes "m < 8" and "i < 32"
  shows "unat (enc_head m i) = 32 * m + i"
proof -
  have i: "take_bit 5 i = i" using assms(2) by (simp add: take_bit_nat_eq_self_iff)
  have "push_bit 5 m AND take_bit 5 i = 0" by (rule bit_eqI) (simp add: bit_simps)
  then have "push_bit 5 m OR i = push_bit 5 m + i" unfolding i by (rule disjunctive_add_eq_or [symmetric])
  then show ?thesis using assms
    by (simp add: enc_head_def byte_of_def unat_of_nat push_bit_eq_mult del: of_nat_add of_nat_mult)
qed

lemma readByte_Cons [simp]: "readByte (b # r) = Inr (unat b, r)"
  by (simp add: readByte_def)

lemma readBytes_append: "n = length bs \<Longrightarrow> readBytes (bs @ r) n = Inr (bs, r)"
  by (simp add: readBytes_def)

lemma read32_bytes: "n < 2 ^ 32 \<Longrightarrow> read32 (uint32_bytes n @ r) = Inr (n, r)"
  using uint32_digits [of n] by (simp add: read32_def readBytes_def uint32_bytes_def unat_byte_of shift_right_def)

text \<open>The additional information that \<open>enc_arg\<close> chooses, and the bytes that follow the head.\<close>

definition arg_info :: "nat \<Rightarrow> nat" where
  "arg_info n = (if n < 24 then n else if n \<le> 0xFF then 24 else if n \<le> 0xFFFF then 25
     else if n \<le> MAX_UINT32 then 26 else 27)"

definition arg_tail :: "nat \<Rightarrow> byte list" where
  "arg_tail n = tl (enc_arg 0 n)"

lemma enc_arg_split: "enc_arg m n = enc_head m (arg_info n) # arg_tail n"
  by (simp add: enc_arg_def arg_info_def arg_tail_def)

lemma arg_info_bound: "arg_info n < 28"
  by (simp add: arg_info_def)

lemma readArgument_tail:
  assumes "n < 2 ^ 53"
  shows "readArgument (arg_tail n @ r) (arg_info n) = Inr (n, r)"
proof -
  consider "n < 24" | "24 \<le> n" "n \<le> 0xFF" | "0xFF < n" "n \<le> 0xFFFF" | "0xFFFF < n" "n \<le> MAX_UINT32"
    | "MAX_UINT32 < n" by linarith
  then show ?thesis
  proof cases
    case 3
    then have "n div 256 < 256" by (simp add: less_mult_imp_div_less)
    with 3 show ?thesis
      by (simp add: readArgument_def arg_info_def arg_tail_def enc_arg_def read16_def readBytes_def
          unat_byte_of shift_right_def MAX_UINT32_def)
  next
    case 4
    then have "n < 2 ^ 32" by (simp add: MAX_UINT32_def)
    with 4 show ?thesis
      by (simp add: readArgument_def arg_info_def arg_tail_def enc_arg_def read32_bytes)
  next
    case 5
    have "n div UINT32_BASE < 2 ^ 21" using assms by (simp add: UINT32_BASE_def less_mult_imp_div_less)
    moreover have "n mod UINT32_BASE < 2 ^ 32" by (simp add: UINT32_BASE_def)
    moreover have "n > 0xFFFF" using 5 by (simp add: MAX_UINT32_def)
    ultimately show ?thesis using 5
      by (simp add: readArgument_def arg_info_def arg_tail_def enc_arg_def read32_bytes)
  qed (simp_all add: readArgument_def arg_info_def arg_tail_def enc_arg_def unat_byte_of MAX_UINT32_def)
qed

lemma readLength_tail:
  "n < 2 ^ 53 \<Longrightarrow> n \<le> limit \<Longrightarrow> readLength (arg_tail n @ r) (arg_info n) e limit = Inr (n, r)"
  using arg_info_bound [of n] by (simp add: readLength_def readArgument_tail)

lemma unat_head:
  assumes "m < 8"
  shows "unat (enc_head m (arg_info n)) div 32 = m" "unat (enc_head m (arg_info n)) mod 32 = arg_info n"
  using assms arg_info_bound [of n] by (simp_all add: head_byte)

lemma float64_step:
  "push_bit 8 (drop_bit (k + 8) f) OR ucast (ucast (drop_bit k f) :: byte) = drop_bit k (f :: 64 word)"
  by (rule bit_word_eqI) (auto simp: bit_simps algebra_simps)

lemma float64_top: "ucast (ucast (drop_bit 56 f) :: byte) = drop_bit 56 (f :: 64 word)"
proof (rule bit_word_eqI)
  fix n assume "n < LENGTH(64)"
  have "\<not> bit f (56 + n)" if "8 \<le> n" using that by (simp add: bit_word.rep_eq)
  then show "bit (ucast (ucast (drop_bit 56 f) :: byte) :: 64 word) n = bit (drop_bit 56 f) n"
    by (cases "n < 8") (simp_all add: bit_simps)
qed

lemma float64_round_trip: "float64_of (float64_bytes f) = f"
  using float64_top [of f] float64_step [of 48 f] float64_step [of 40 f] float64_step [of 32 f]
    float64_step [of 24 f] float64_step [of 16 f] float64_step [of 8 f] float64_step [of 0 f]
  by (simp add: float64_of_def float64_bytes_def)

end
