(* ===== verification/Cbor_Roundtrip.thy ===== *)
theory Cbor_Roundtrip
  imports Cbor_Decoder
begin

text \<open>
  The codec as a whole: the decoder inverts the reference encoding, so that what
  \<^verbatim>\<open>encodeCbor\<close> writes, \<^verbatim>\<open>decodeCbor\<close> reads back under the same options; what the decoder accepts
  obeys its limits.
\<close>

definition limits_ok :: "resolved_options \<Rightarrow> bool" where
  "limits_ok opts = (maxByteLength opts \<le> MAX_UINT32 \<and> maxContainerLength opts \<le> MAX_UINT32 \<and>
     maxDepth opts \<le> MAX_CONFIGURED_DEPTH)"

lemma resolveOptions_limits: "resolveOptions options = Inr opts \<Longrightarrow> limits_ok opts"
  by (auto simp: resolveOptions_def resolveLimit_def rbind_Inr_iff limits_ok_def)

fun keys_ok :: "cbor \<Rightarrow> bool" where
  "keys_ok (CArray ts) = list_all keys_ok ts"
| "keys_ok (CMap es) = (distinct (map fst es) \<and> list_all (\<lambda>(k, t). keys_ok t) es)"
| "keys_ok _ = True"

lemma within_depth: "within opts d t \<Longrightarrow> d \<le> maxDepth opts"
  by (cases t) auto

section \<open>The decoder inverts the reference encoding\<close>

lemma small_length: "limits_ok opts \<Longrightarrow> n \<le> maxByteLength opts \<or> n \<le> maxContainerLength opts \<Longrightarrow> n < 2 ^ 53"
  by (auto simp: limits_ok_def MAX_UINT32_def)

text \<open>Reading an item whose head carries an argument.\<close>

lemma readItem_arg:
  assumes "d \<le> maxDepth opts" and "m < 8"
  shows "readItem opts d (enc_arg m n @ r) =
    (let r1 = arg_tail n @ r; info = arg_info n in
     if m = 0 then rbind (readArgument r1 info) (\<lambda>(n, r2). Inr (CNum (NInt (int n)), r2))
     else if m = 1 then
       rbind (readArgument r1 info) (\<lambda>(n, r2).
       let v = NInt (- 1 - int n) in
       if \<not> js_isSafeInteger v then Inl UnsafeInteger else Inr (CNum v, r2))
     else if m = 2 then
       rbind (readLength r1 info BytesLimit (maxByteLength opts)) (\<lambda>(n, r2).
       rbind (readBytes r2 n) (\<lambda>(bytes, r3). Inr (CBytes bytes, r3)))
     else if m = 3 then
       rbind (readLength r1 info TextLimit (maxByteLength opts)) (\<lambda>(n, r2).
       rbind (readBytes r2 n) (\<lambda>(bytes, r3).
       case text_decode bytes of None \<Rightarrow> Inl InvalidText | Some s \<Rightarrow> Inr (CText s, r3)))
     else if m = 4 then
       rbind (readLength r1 info ArrayLimit (maxContainerLength opts)) (\<lambda>(n, r2).
       rbind (readItems opts (d + 1) n [] r2) (\<lambda>(ts, r3). Inr (CArray ts, r3)))
     else if m = 5 then
       rbind (readLength r1 info MapLimit (maxContainerLength opts)) (\<lambda>(n, r2).
       rbind (readEntries opts (d + 1) n [] r2) (\<lambda>(es, r3). Inr (CMap es, r3)))
     else if m = 6 then Inl TagUnsupported
     else readSimple r1 info)"
  using assms by (subst readItem.simps) (simp add: enc_arg_split unat_head Let_def)

lemma readItem_text:
  assumes "d \<le> maxDepth opts" and "text_ok opts s" and "limits_ok opts"
  shows "readItem opts d (enc_text s @ r) = Inr (CText s, r)"
proof -
  have "text_decode (text_encode s) = Some s" using assms(2) by (simp add: text_ok_def text_round_trip_iff)
  moreover have "length (text_encode s) < 2 ^ 53" using assms(2,3) small_length [OF assms(3)] by (simp add: text_ok_def)
  ultimately show ?thesis using assms
    by (simp add: enc_text_def readItem_arg readLength_tail readBytes_append text_ok_def Let_def)
qed

lemma readItem_num:
  assumes "d \<le> maxDepth opts" and "num_ok n"
  shows "readItem opts d (enc_num n @ r) = Inr (CNum n, r)"
proof (cases n)
  case (NInt i)
  with assms have b: "nat i < 2 ^ 53" "nat (- 1 - i) < 2 ^ 53" by (auto simp: MAX_SAFE_INTEGER_def)
  have "js_isSafeInteger (NInt i)" using NInt assms by (simp add: js_isSafeInteger_def)
  with NInt assms b show ?thesis
    by (auto simp: readItem_arg readArgument_tail Let_def)
next
  case (NFloat f)
  then have f: "f64_num f = NFloat f" "f64_finite f" "js_isInteger (NFloat f) \<Longrightarrow> js_isSafeInteger (NFloat f)"
    using assms by (auto simp: f64_num_def js_isSafeInteger_def MAX_SAFE_INTEGER_def)
  have l: "length (float64_bytes f) = 8" by (simp add: float64_bytes_def)
  have "readSimple (float64_bytes f @ r) 27 = Inr (CNum (NFloat f), r)"
    using f l by (simp add: readSimple_def readBytes_append float64_round_trip Let_def)
  with NFloat assms(1) show ?thesis by (subst readItem.simps) (simp add: Let_def)
qed

lemma readItems_enc:
  assumes "list_all (\<lambda>t. \<forall>r. readItem opts d (enc t @ r) = Inr (t, r)) ts"
  shows "readItems opts d (length ts) result (concat (map enc ts) @ r) = Inr (result @ ts, r)"
  using assms by (induction ts arbitrary: result) auto

lemma readEntries_enc:
  assumes "limits_ok opts" and "list_all (\<lambda>(k, t). text_ok opts k \<and> d \<le> maxDepth opts \<and>
      (\<forall>r. readItem opts d (enc t @ r) = Inr (t, r))) es"
    and "distinct (map fst (result @ es))"
  shows "readEntries opts d (length es) result (concat (map (\<lambda>(k, t). enc_text k @ enc t) es) @ r)
    = Inr (result @ es, r)"
  using assms(2,3)
proof (induction es arbitrary: result)
  case (Cons e es)
  obtain k t where e: "e = (k, t)" by (cases e)
  have "k \<notin> fst ` set result" using Cons.prems(2) e by auto
  moreover have "distinct (map fst ((result @ [(k, t)]) @ es))" using Cons.prems(2) e by simp
  then have "readEntries opts d (length es) (result @ [(k, t)])
      (concat (map (\<lambda>(k, t). enc_text k @ enc t) es) @ r) = Inr ((result @ [(k, t)]) @ es, r)"
    using Cons.prems(1) by (intro Cons.IH) simp_all
  ultimately show ?case using Cons.prems(1) e by (simp add: readItem_text assms(1))
qed simp

lemma readItem_enc:
  "within opts d t \<Longrightarrow> keys_ok t \<Longrightarrow> limits_ok opts \<Longrightarrow> readItem opts d (enc t @ r) = Inr (t, r)"
proof (induction t arbitrary: d r)
  case CNull
  then show ?case by (subst readItem.simps) (simp add: readSimple_def)
next
  case (CBool b)
  then show ?case by (subst readItem.simps) (simp add: readSimple_def)
next
  case (CNum n)
  then show ?case by (simp add: readItem_num)
next
  case (CText s)
  then show ?case by (simp add: readItem_text)
next
  case (CBytes bs)
  then show ?case using small_length [OF CBytes.prems(3), of "length bs"]
    by (simp add: readItem_arg readLength_tail readBytes_append Let_def)
next
  case (CArray ts)
  have "list_all (\<lambda>t. \<forall>r. readItem opts (Suc d) (enc t @ r) = Inr (t, r)) ts"
    using CArray by (auto simp: list_all_iff)
  note readItems_enc [OF this, of "[]" r]
  with CArray.prems small_length [OF CArray.prems(3), of "length ts"] show ?case
    by (simp add: readItem_arg readLength_tail Let_def)
next
  case (CMap es)
  have "list_all (\<lambda>(k, t). text_ok opts k \<and> Suc d \<le> maxDepth opts \<and>
      (\<forall>r. readItem opts (Suc d) (enc t @ r) = Inr (t, r))) es"
    using CMap by (fastforce simp: list_all_iff dest: within_depth)
  note readEntries_enc [OF CMap.prems(3) this, of "[]" r]
  with CMap.prems small_length [OF CMap.prems(3), of "length es"] show ?case
    by (simp add: readItem_arg readLength_tail Let_def)
qed

section \<open>The round trip\<close>

lemma defined_entries_distinct: "heap_ok h \<Longrightarrow> distinct (map fst (defined_entries (h a)))"
proof -
  assume "heap_ok h"
  then have "distinct (map fst (map (\<lambda>(k, s). (k, slot_value s)) (o_props (h a))))"
    by (simp add: heap_ok_def comp_def case_prod_beta)
  then show ?thesis unfolding defined_entries_def by (rule distinct_map_filter)
qed

lemma list_all2_fst: "list_all2 (\<lambda>x e. fst x = fst e \<and> P x e) xs es \<Longrightarrow> map fst xs = map fst es"
  by (induction rule: list_all2_induct) auto

lemma list_all2_right: "list_all2 (\<lambda>x y. P x y \<and> Q y) xs ys \<Longrightarrow> list_all Q ys"
  by (induction rule: list_all2_induct) auto

lemma denotes_keys_ok: "denotes h v t \<Longrightarrow> heap_ok h \<Longrightarrow> keys_ok t"
proof (induction rule: denotes.induct)
  case (denotes_array a ts)
  then have "list_all2 (\<lambda>x t. x \<noteq> None \<and> keys_ok t) (o_elems (h a)) ts" by (auto elim!: list_all2_mono)
  from list_all2_right [OF this] show ?case by simp
next
  case (denotes_map a es)
  then have *: "list_all2 (\<lambda>x e. fst x = fst e \<and> keys_ok (snd e)) (defined_entries (h a)) es"
    by (auto elim!: list_all2_mono)
  with list_all2_right [OF *] list_all2_fst [OF *] defined_entries_distinct [OF denotes_map.prems, of a]
  show ?case by (auto simp: list_all_iff)
qed auto

lemma encodeCbor_Inr:
  assumes "encodeCbor h v options = Inr bs"
  obtains opts t where "resolveOptions options = Inr opts" "denotes h v t" "within opts 0 t" "bs = enc t"
    "length bs \<le> maxByteLength opts"
proof -
  from assms obtain opts w where opts: "resolveOptions options = Inr opts"
    and w: "encodeValue h opts (new_writer (maxByteLength opts)) v 0 {} = Inr w" "finish w = bs"
    by (auto simp: encodeCbor_def rbind_Inr_iff)
  from encode_sound_all(1) [OF w(1) new_writer_ok(1)] obtain t where
    t: "denotes h v t" "within opts 0 t" and e: "emits (new_writer (maxByteLength opts)) (Inr w) (enc t)" by blast
  then have "bs = enc t" "writer_ok w" "w_max w = maxByteLength opts"
    using w(2) by (simp_all add: emits_Inr new_writer_ok)
  moreover from this(2,3) w(2) have "length bs \<le> maxByteLength opts"
    using finish_length by (fastforce simp: writer_ok_def)
  ultimately show ?thesis using that opts t by blast
qed

lemma encodeCbor_complete:
  assumes "resolveOptions options = Inr opts" and "denotes h v t" and "within opts 0 t"
  shows "encodeCbor h v options = (if length (enc t) \<le> maxByteLength opts then Inr (enc t) else Inl ByteLimit)"
proof -
  let ?w = "new_writer (maxByteLength opts)"
  have "emits ?w (encodeValue h opts ?w v 0 {}) (enc t)"
    using assms new_writer_ok by (intro emits_encodeValue) (simp_all add: below_def)
  then show ?thesis using assms(1) finish_length
    by (fastforce simp: encodeCbor_def emits_def new_writer_ok writer_ok_def split: sum.splits)
qed

lemma decodeCbor_enc:
  assumes "resolveOptions options = Inr opts" and "within opts 0 t" and "keys_ok t"
    and "length (enc t) \<le> maxByteLength opts"
  shows "decodeCbor (enc t) options = Inr t"
  using assms readItem_enc [OF assms(2,3) resolveOptions_limits [OF assms(1)], of "[]"]
  by (simp add: decodeCbor_def)

section \<open>What the decoder accepts\<close>

lemma readArgument_bound:
  assumes "readArgument r i = Inr (n, r')"
  shows "n < 2 ^ 53"
proof -
  have b: "unat b < 256" for b :: byte using unsigned_less [of b] by simp
  have r32: "n < 2 ^ 32" if "read32 r = Inr (n, r')" for r n r'
  proof -
    from that obtain bs :: "byte list" where "n = unat (bs ! 0) * 0x1000000 + unat (bs ! 1) * 0x10000 + unat (bs ! 2) * 0x100
          + unat (bs ! 3)" by (auto simp: read32_def rbind_Inr_iff)
    with b [of "bs ! 0"] b [of "bs ! 1"] b [of "bs ! 2"] b [of "bs ! 3"] show ?thesis by simp
  qed
  have r16: "n < 2 ^ 16" if "read16 r = Inr (n, r')" for r n r'
  proof -
    from that obtain bs :: "byte list" where "n = unat (bs ! 0) * 0x100 + unat (bs ! 1)"
      by (auto simp: read16_def rbind_Inr_iff)
    with b [of "bs ! 0"] b [of "bs ! 1"] show ?thesis by simp
  qed
  consider "i < 24" | "i = 24" | "i = 25" | "i = 26" | "i = 27" | "27 < i" by linarith
  then show ?thesis
  proof cases
    case 2
    then have "n < 256" using assms b by (auto simp: readArgument_def readByte_def split: list.splits)
    then show ?thesis by simp
  next
    case 3
    then show ?thesis using assms r16 by (fastforce simp: readArgument_def)
  next
    case 4
    then show ?thesis using assms r32 by (fastforce simp: readArgument_def)
  next
    case 5
    then obtain high low where "n = high * UINT32_BASE + low" "high \<le> 0x1FFFFF" "low < 2 ^ 32"
      using assms r32 by (fastforce simp: readArgument_def rbind_Inr_iff split: if_splits)
    then show ?thesis by (simp add: UINT32_BASE_def)
  qed (use assms in \<open>auto simp: readArgument_def split: if_splits\<close>)
qed

lemma readLength_bound: "readLength r i e limit = Inr (n, r') \<Longrightarrow> n \<le> limit"
  by (auto simp: readLength_def rbind_Inr_iff split: if_splits)

lemma readBytes_length: "readBytes r n = Inr (bs, r') \<Longrightarrow> length bs = n"
  by (auto simp: readBytes_def split: if_splits)

lemma f64_num_ok:
  "js_isFinite (f64_num f) \<Longrightarrow> js_isInteger (f64_num f) \<longrightarrow> js_isSafeInteger (f64_num f) \<Longrightarrow>
   num_ok (f64_num f)"
  by (auto simp: f64_num_def js_isSafeInteger_def split: if_splits)

lemma readSimple_within:
  "readSimple r i = Inr (t, r') \<Longrightarrow> d \<le> maxDepth opts \<Longrightarrow> within opts d t \<and> keys_ok t"
  by (auto simp: readSimple_def rbind_Inr_iff Let_def f64_num_ok split: if_splits)

definition item_ok :: "resolved_options \<Rightarrow> nat \<Rightarrow> cbor \<Rightarrow> bool" where
  "item_ok opts d t = (within opts d t \<and> keys_ok t)"

lemma item_ok_leaf:
  assumes "d \<le> maxDepth opts"
  shows "readArgument r i = Inr (n, r') \<Longrightarrow> item_ok opts d (CNum (NInt (int n)))"
    and "js_isSafeInteger n' \<Longrightarrow> n' = NInt k \<Longrightarrow> item_ok opts d (CNum n')"
    and "readBytes r n = Inr (bs, r') \<Longrightarrow> n \<le> maxByteLength opts \<Longrightarrow> item_ok opts d (CBytes bs)"
    and "readBytes r n = Inr (bs, r') \<Longrightarrow> n \<le> maxByteLength opts \<Longrightarrow> text_decode bs = Some s \<Longrightarrow>
      item_ok opts d (CText s)"
  using assms readArgument_bound [of r i n r']
  by (auto simp: item_ok_def text_ok_def MAX_SAFE_INTEGER_def js_isSafeInteger_def
      dest: text_encode_decode readBytes_length)

lemma readItem_Inr:
  assumes "readItem opts d r = Inr (t, r')"
  obtains (leaf) "item_ok opts d t"
  | (array) initial r1 n r2 ts where "d \<le> maxDepth opts" "readByte r = Inr (initial, r1)"
      "initial div 2 ^ 5 = 4" "readLength r1 (initial mod 2 ^ 5) ArrayLimit (maxContainerLength opts) = Inr (n, r2)"
      "readItems opts (d + 1) n [] r2 = Inr (ts, r')" "t = CArray ts"
  | (map_) initial r1 n r2 es where "d \<le> maxDepth opts" "readByte r = Inr (initial, r1)"
      "initial div 2 ^ 5 = 5" "readLength r1 (initial mod 2 ^ 5) MapLimit (maxContainerLength opts) = Inr (n, r2)"
      "readEntries opts (d + 1) n [] r2 = Inr (es, r')" "t = CMap es"
proof -
  note item = assms [unfolded readItem.simps [of opts d r]]
  from item obtain initial r1 where d: "d \<le> maxDepth opts" and b: "readByte r = Inr (initial, r1)"
    by (auto simp: rbind_Inr_iff split: if_splits)
  note leaves = item_ok_leaf [OF d] readSimple_within [OF _ d]
  consider "initial div 2 ^ 5 = 0" | "initial div 2 ^ 5 = 1" | "initial div 2 ^ 5 = 2" | "initial div 2 ^ 5 = 3"
    | "initial div 2 ^ 5 = 4" | "initial div 2 ^ 5 = 5" | "initial div 2 ^ 5 = 6" | "initial div 2 ^ 5 > 6" by linarith
  then show ?thesis
  proof cases
    case 1
    then show ?thesis using item d b leaf leaves(1) by (auto simp: rbind_Inr_iff)
  next
    case 2
    then show ?thesis using item d b leaf leaves(2) by (auto simp: rbind_Inr_iff Let_def split: if_splits)
  next
    case 3
    then show ?thesis using item d b leaf leaves(3) by (auto simp: rbind_Inr_iff dest: readLength_bound)
  next
    case 4
    with item d b obtain n r2 bs s where
      "readLength r1 (initial mod 2 ^ 5) TextLimit (maxByteLength opts) = Inr (n, r2)"
      "readBytes r2 n = Inr (bs, r')" "text_decode bs = Some s" "t = CText s"
      by (auto simp: rbind_Inr_iff split: option.splits)
    with leaf leaves(4) readLength_bound show ?thesis by blast
  next
    case 5
    then show ?thesis using item d b array by (auto simp: rbind_Inr_iff)
  next
    case 6
    then show ?thesis using item d b map_ by (auto simp: rbind_Inr_iff)
  next
    case 7
    then show ?thesis using item d b by auto
  next
    case 8
    then have "readSimple r1 (initial mod 2 ^ 5) = Inr (t, r')" using item d b by (simp add: Let_def)
    from leaf leaves(5) [OF this] show ?thesis by (simp add: item_ok_def)
  qed
qed

lemma read_sound_all:
  "readItem opts d r = Inr (t, r') \<Longrightarrow> item_ok opts d t"
  "readItems opts d n result r = Inr (ts, r') \<Longrightarrow>
     \<exists>new. ts = result @ new \<and> length new = n \<and> list_all (item_ok opts d) new"
  "readEntries opts d n entries r = Inr (es, r') \<Longrightarrow>
     \<exists>new. es = entries @ new \<and> length new = n \<and>
       list_all (\<lambda>(k, t). text_ok opts k \<and> item_ok opts d t) new \<and>
       (distinct (map fst entries) \<longrightarrow> distinct (map fst es))"
proof (induction opts d r and opts d n result r and opts d n entries r
    arbitrary: t r' and ts r' and es r' rule: readItem_readItems_readEntries.induct)
  case (1 opts depth r)
  from "1.prems" show ?case
  proof (cases rule: readItem_Inr)
    case leaf
    then show ?thesis .
  next
    case (array initial r1 n r2 ts)
    with "1.IH"(1) [of "(initial, r1)" initial r1 4 "initial mod 2 ^ 5" "(n, r2)" n r2 ts r']
    have "length ts = n \<and> list_all (item_ok opts (Suc depth)) ts" by simp
    with array readLength_bound [OF array(4)] show ?thesis by (simp add: item_ok_def list_all_iff)
  next
    case (map_ initial r1 n r2 es)
    with "1.IH"(2) [of "(initial, r1)" initial r1 5 "initial mod 2 ^ 5" "(n, r2)" n r2 es r']
    have "length es = n \<and> list_all (\<lambda>(k, t). text_ok opts k \<and> item_ok opts (Suc depth) t) es \<and>
      distinct (map fst es)" by simp
    with map_ readLength_bound [OF map_(4)] show ?thesis by (auto simp: item_ok_def list_all_iff)
  qed
next
  case (3 opts depth n result r)
  then show ?case by (fastforce simp: rbind_Inr_iff)
next
  case (5 opts depth n result r)
  from "5.prems" obtain k r1 where "readItem opts depth r = Inr (k, r1)" by (auto simp: rbind_Inr_iff)
  with "5.prems" obtain key t r2 where s: "readItem opts depth r = Inr (CText key, r1)" "key \<notin> fst ` set result"
      "readItem opts depth r1 = Inr (t, r2)" "readEntries opts depth n (result @ [(key, t)]) r2 = Inr (es, r')"
    by (cases k) (auto simp: rbind_Inr_iff split: if_splits)
  have "item_ok opts depth (CText key)" using "5.IH"(1) [OF s(1)] .
  moreover have "item_ok opts depth t" using "5.IH"(2) [OF s(1) refl refl s(2,3)] .
  moreover obtain new where "es = (result @ [(key, t)]) @ new" "length new = n"
    "list_all (\<lambda>(k, t). text_ok opts k \<and> item_ok opts depth t) new"
    "distinct (map fst (result @ [(key, t)])) \<longrightarrow> distinct (map fst es)"
    using "5.IH"(3) [OF s(1) refl refl s(2,3) refl s(4)] by blast
  ultimately show ?case using s(2)
    by (intro exI [of _ "(key, t) # new"]) (auto simp: item_ok_def)
qed simp_all

lemma decodeCbor_sound:
  assumes "decodeCbor bytes options = Inr t"
  obtains opts where "resolveOptions options = Inr opts" "within opts 0 t" "keys_ok t"
    "length bytes \<le> maxByteLength opts"
  using assms read_sound_all(1) [of _ 0 bytes t "[]"]
  by (auto simp: decodeCbor_def rbind_Inr_iff item_ok_def split: if_splits)

section \<open>The wire format\<close>

text \<open>Encoding a string to UTF-8 and decoding it again gives the string back exactly if it is well
formed; and the decoder accepts no other byte sequences than the encodings of well-formed strings.\<close>

theorem utf8_round_trip:
  "(text_decode (text_encode s) = Some s \<longleftrightarrow> well_formed s) \<and>
   (text_decode bytes = Some s \<longleftrightarrow> well_formed s \<and> text_encode s = bytes)"
  using text_round_trip_iff text_encode_decode by blast

definition sample_heap :: heap where
  "sample_heap = (\<lambda>a. if a = 0
     then \<lparr> o_isArray = False, o_proto = ObjectProto, o_elems = [],
            o_props = [(js_ascii ''k'', DataSlot (VRef 1)), (js_ascii ''u'', DataSlot VUndefined)],
            o_hidden = 0, o_symbols = [] \<rparr>
     else \<lparr> o_isArray = True, o_proto = ArrayProto, o_elems = [Some (DataSlot (VNum (NInt 1))), Some (DataSlot VNull)],
            o_props = [], o_hidden = 0, o_symbols = [] \<rparr>)"

definition sample_tree :: cbor where
  "sample_tree = CMap [(js_ascii ''k'', CArray [CNum (NInt 1), CNull])]"

lemma sample_heap_ok: "heap_ok sample_heap"
  by (simp add: heap_ok_def sample_heap_def)

lemma sample_denotes: "denotes sample_heap (VRef 0) sample_tree"
proof -
  have "denotes sample_heap (VRef 1) (CArray [CNum (NInt 1), CNull])"
    by (rule denotes_array) (simp_all add: sample_heap_def num_canon_def)
  then show ?thesis
    unfolding sample_tree_def
    by (intro denotes_map)
      (simp_all add: sample_heap_def isPlainObject_def defined_entries_def)
qed

lemmas options_eval = resolveOptions_def resolveLimit_def option_or_def no_options_def js_isSafeInteger_def
  MAX_SAFE_INTEGER_def MAX_UINT32_def MAX_CONFIGURED_DEPTH_def DEFAULT_MAX_CBOR_BYTE_LENGTH_def
  DEFAULT_MAX_CBOR_CONTAINER_LENGTH_def DEFAULT_MAX_CBOR_DEPTH_def

lemma sample_options: "resolveOptions no_options
    = Inr \<lparr> maxByteLength = 16777216, maxContainerLength = 1000000, maxDepth = 64 \<rparr>"
  by (simp add: options_eval)

lemma sample_key: "text_encode (js_ascii ''k'') = [0x6B]" "well_formed (js_ascii ''k'')"
  by (simp_all add: text_encode_def utf8_point_def is_high_def is_low_def)

lemma sample_tree_bytes: "enc sample_tree = [0xA1, 0x61, 0x6B, 0x82, 0x01, 0xF6]"
  by (simp add: sample_tree_def sample_key enc_text_def enc_arg_def enc_head_def byte_of_def
      numeral_2_eq_2 [symmetric] del: js_ascii_simps)

lemma sample_within: "maxDepth opts = 64 \<Longrightarrow> maxContainerLength opts = 1000000 \<Longrightarrow> 1 \<le> maxByteLength opts \<Longrightarrow>
    within opts 0 sample_tree"
  by (simp add: sample_tree_def sample_key text_ok_def MAX_SAFE_INTEGER_def del: js_ascii_simps)

lemma sample_encoded: "encodeCbor sample_heap (VRef 0) no_options = Inr (enc sample_tree)"
  using encodeCbor_complete [OF sample_options sample_denotes sample_within]
  by (simp add: sample_tree_bytes)

text \<open>C2. Whatever the encoder accepts, the decoder with the same options reads back: the value stands for
a tree (so it has no cycle, no hole, no unsupported value), and decoding the bytes gives that tree.\<close>

theorem cbor_round_trip:
  assumes "heap_ok h" and "encodeCbor h v options = Inr bytes"
  shows "\<exists>t. denotes h v t \<and> decodeCbor bytes options = Inr t"
proof -
  obtain opts t where "resolveOptions options = Inr opts" "denotes h v t" "within opts 0 t" "bytes = enc t"
    "length bytes \<le> maxByteLength opts"
    using encodeCbor_Inr [OF assms(2)] by blast
  then show ?thesis using decodeCbor_enc denotes_keys_ok [OF _ assms(1)] by blast
qed

theorem cbor_round_trip_witness:
  "heap_ok sample_heap \<and> decodeCbor (enc sample_tree) no_options = Inr sample_tree"
  using cbor_round_trip [OF sample_heap_ok sample_encoded] sample_heap_ok denotes_unique [OF sample_denotes]
  by metis

text \<open>The encoder is complete: a value that stands for a tree within the depth, container and text limits
is encoded to the bytes of that tree, unless there are more of them than the byte limit, and then (and only
then) the byte limit is reported. The growing buffer of the writer never gets in the way.\<close>

theorem cbor_encodes_everything_within_limits:
  assumes "resolveOptions options = Inr opts" and "denotes h v t" and "within opts 0 t"
  shows "encodeCbor h v options = (if length (enc t) \<le> maxByteLength opts then Inr (enc t) else Inl ByteLimit)"
  using assms by (rule encodeCbor_complete)

theorem cbor_encodes_everything_within_limits_witness:
  "encodeCbor sample_heap (VRef 0) (no_options\<lparr> opt_maxByteLength := Some (NInt 4) \<rparr>) = Inl ByteLimit"
proof -
  let ?options = "no_options\<lparr> opt_maxByteLength := Some (NInt 4) \<rparr>"
  let ?opts = "\<lparr> maxByteLength = 4, maxContainerLength = 1000000, maxDepth = 64 \<rparr>"
  have "resolveOptions ?options = Inr ?opts" by (simp add: options_eval)
  from cbor_encodes_everything_within_limits [OF this sample_denotes sample_within] show ?thesis
    by (simp add: sample_tree_bytes)
qed

text \<open>A value that stands for no tree (it contains itself, a hole, an unsupported value or object) is
never encoded, whatever the options: the encoder ends with an error.\<close>

theorem treeless_value_rejected:
  assumes "\<nexists>t. denotes h v t"
  shows "\<exists>e. encodeCbor h v options = Inl e"
  using assms encodeCbor_Inr [of h v options] by (cases "encodeCbor h v options") blast+

definition cyclic_heap :: heap where
  "cyclic_heap = (\<lambda>a. \<lparr> o_isArray = True, o_proto = ArrayProto, o_elems = [Some (DataSlot (VRef a))],
     o_props = [], o_hidden = 0, o_symbols = [] \<rparr>)"

lemma cyclic_denotes_nothing: "denotes cyclic_heap (VRef a) t \<Longrightarrow> False"
proof (induction t)
  case (CArray ts)
  from CArray.prems show ?case
    by (rule denotes_refE) (auto simp: cyclic_heap_def list_all2_Cons1 intro: CArray.IH)
qed (auto elim: denotes_refE simp: cyclic_heap_def)

theorem treeless_value_rejected_witness:
  "\<exists>e. encodeCbor cyclic_heap (VRef 0) no_options = Inl e"
  using treeless_value_rejected [of cyclic_heap "VRef 0" no_options] cyclic_denotes_nothing by blast

text \<open>C27. Whatever bytes arrive, a decoded value respects the limits: its depth, the length of its containers
and texts, the safe-integer range of its numbers, and no map has a key twice.\<close>

theorem decoder_respects_limits:
  assumes "decodeCbor bytes options = Inr t"
  shows "\<exists>opts. resolveOptions options = Inr opts \<and> within opts 0 t \<and> keys_ok t \<and>
    length bytes \<le> maxByteLength opts"
  using decodeCbor_sound [OF assms] by metis

theorem decoder_respects_limits_witness:
  "decodeCbor (enc sample_tree) no_options = Inr sample_tree \<and> keys_ok sample_tree"
proof -
  have run: "decodeCbor (enc sample_tree) no_options = Inr sample_tree"
    by (rule decodeCbor_enc [OF sample_options])
      (simp_all add: sample_within sample_tree_bytes denotes_keys_ok [OF sample_denotes sample_heap_ok])
  from decoder_respects_limits [OF run] run show ?thesis by blast
qed

end
