(* ===== verification/Framing.thy ===== *)
theory Framing
  imports Cbor_Writer
begin

text \<open>
  \<^verbatim>\<open>packages/protocol/src/framing.ts\<close>: length-prefixed frames, and the incremental decoder that
  splits a byte stream, cut into chunks anywhere, back into payloads. The decoder refines a
  function on the whole stream; the contract of such a decoder is the locale \<open>stream_decoder\<close>.
\<close>

section \<open>Frames\<close>

datatype frame_error =
    FrameTooLong nat | FrameEnded | FrameFailed | FrameTruncated | FrameIncomplete | FrameTrailing
  | FrameRange | PayloadRange

definition FRAME_HEADER_LENGTH :: nat where "FRAME_HEADER_LENGTH = 4"
definition PAYLOAD_BLOCK_SIZE :: nat where "PAYLOAD_BLOCK_SIZE = 64 * 1024"
definition DEFAULT_MAX_FRAME_LENGTH :: nat where "DEFAULT_MAX_FRAME_LENGTH = 16 * 1024 * 1024"

definition resolveMaxFrameLength :: "js_num option \<Rightarrow> frame_error + nat" where
  "resolveMaxFrameLength maxFrameLength =
     (let v = option_or maxFrameLength DEFAULT_MAX_FRAME_LENGTH in
      if \<not> js_isSafeInteger v \<or> js_int v < 0 \<or> js_int v > int MAX_UINT32 then Inl FrameRange
      else Inr (nat (js_int v)))"

definition encodeFrame :: "byte list \<Rightarrow> frame_error + byte list" where
  "encodeFrame payload =
     (if length payload > MAX_UINT32 then Inl PayloadRange
      else Inr (uint32_bytes (length payload) @ payload))"

text \<open>The big-endian length in the first four bytes.\<close>

definition frame_length :: "byte list \<Rightarrow> nat" where
  "frame_length header =
     unat (header ! 0) * 0x1000000 + unat (header ! 1) * 0x10000 + unat (header ! 2) * 0x100
     + unat (header ! 3)"

definition assertCompleteFrame :: "byte list \<Rightarrow> js_num option \<Rightarrow> frame_error + unit" where
  "assertCompleteFrame frame maxFrameLength =
     rbind (ensure (\<not> length frame < FRAME_HEADER_LENGTH) FrameIncomplete) (\<lambda>_.
     let n = frame_length frame in
     rbind (resolveMaxFrameLength maxFrameLength) (\<lambda>limit.
     rbind (ensure (\<not> n > limit) (FrameTooLong n)) (\<lambda>_.
     ensure (length frame = FRAME_HEADER_LENGTH + n) FrameTrailing)))"

section \<open>The incremental decoder\<close>

datatype decoder_state = DOpen | DEnded | DFailed

text \<open>\<^verbatim>\<open>currentPayloadBlock\<close> is a reference into \<^verbatim>\<open>payloadBlocks\<close>: here, the index of the block.\<close>

record frame_decoder =
  fd_header :: "byte list"
  fd_headerLength :: nat
  fd_max :: nat
  fd_blocks :: "byte list list"
  fd_current :: "nat option"
  fd_currentLength :: nat
  fd_expected :: "nat option"
  fd_payloadLength :: nat
  fd_state :: decoder_state

definition new_frame_decoder :: "js_num option \<Rightarrow> frame_error + frame_decoder" where
  "new_frame_decoder maxFrameLength =
     rbind (resolveMaxFrameLength maxFrameLength) (\<lambda>limit.
     Inr \<lparr> fd_header = replicate FRAME_HEADER_LENGTH 0, fd_headerLength = 0, fd_max = limit,
           fd_blocks = [], fd_current = None, fd_currentLength = 0, fd_expected = None,
           fd_payloadLength = 0, fd_state = DOpen \<rparr>)"

definition fd_fail :: "frame_decoder \<Rightarrow> frame_decoder" where
  "fd_fail d = d\<lparr> fd_state := DFailed, fd_headerLength := 0, fd_blocks := [], fd_current := None,
     fd_currentLength := 0, fd_expected := None, fd_payloadLength := 0 \<rparr>"

text \<open>One round of the loop that copies payload bytes into blocks.\<close>

definition open_block :: "frame_decoder \<Rightarrow> nat \<Rightarrow> frame_decoder \<times> nat" where
  "open_block d expected =
     (case fd_current d of
        Some i \<Rightarrow>
          if fd_currentLength d = length (fd_blocks d ! i)
          then (d\<lparr> fd_blocks := fd_blocks d @ [replicate (min PAYLOAD_BLOCK_SIZE (expected - fd_payloadLength d)) 0],
                   fd_current := Some (length (fd_blocks d)), fd_currentLength := 0 \<rparr>, length (fd_blocks d))
          else (d, i)
      | None \<Rightarrow>
          (d\<lparr> fd_blocks := fd_blocks d @ [replicate (min PAYLOAD_BLOCK_SIZE (expected - fd_payloadLength d)) 0],
              fd_current := Some (length (fd_blocks d)), fd_currentLength := 0 \<rparr>, length (fd_blocks d)))"

definition copy_payload :: "frame_decoder \<Rightarrow> nat \<Rightarrow> byte list \<Rightarrow> frame_decoder \<times> byte list" where
  "copy_payload d expected rest =
     (let (d1, i) = open_block d expected;
          payloadBytes = min (length (fd_blocks d1 ! i) - fd_currentLength d1) (length rest)
      in (d1\<lparr> fd_blocks := (fd_blocks d1)[i := blit (fd_blocks d1 ! i) (fd_currentLength d1) (take payloadBytes rest)],
              fd_currentLength := fd_currentLength d1 + payloadBytes,
              fd_payloadLength := fd_payloadLength d1 + payloadBytes \<rparr>, drop payloadBytes rest))"

partial_function (option) fill_payload ::
  "frame_decoder \<Rightarrow> nat \<Rightarrow> byte list \<Rightarrow> (frame_decoder \<times> byte list) option" where
  "fill_payload d expected rest =
     (if rest \<noteq> [] \<and> fd_payloadLength d < expected
      then fill_payload (fst (copy_payload d expected rest)) expected (snd (copy_payload d expected rest))
      else Some (d, rest))"

text \<open>The copy of the blocks into one payload.\<close>

definition join_blocks :: "nat \<Rightarrow> byte list list \<Rightarrow> byte list" where
  "join_blocks expected blocks =
     (if length blocks = 1 then blocks ! 0
      else fst (foldl (\<lambda>(payload, offset) block. (blit payload offset block, offset + length block))
                  (replicate expected 0, 0) blocks))"

definition reset_payload :: "frame_decoder \<Rightarrow> frame_decoder" where
  "reset_payload d = d\<lparr> fd_blocks := [], fd_current := None, fd_currentLength := 0,
     fd_expected := None, fd_payloadLength := 0 \<rparr>"

datatype header_outcome = HeaderShort | HeaderTooLong nat | HeaderEmpty | HeaderPayload nat

text \<open>The part of the loop body that reads the length prefix.\<close>

definition read_header :: "frame_decoder \<Rightarrow> byte list \<Rightarrow> frame_decoder \<times> byte list \<times> header_outcome" where
  "read_header d rest =
     (let headerBytes = min (FRAME_HEADER_LENGTH - fd_headerLength d) (length rest);
          d1 = d\<lparr> fd_header := blit (fd_header d) (fd_headerLength d) (take headerBytes rest),
                  fd_headerLength := fd_headerLength d + headerBytes \<rparr>;
          rest1 = drop headerBytes rest
      in if fd_headerLength d1 < FRAME_HEADER_LENGTH then (d1, rest1, HeaderShort)
         else let n = frame_length (fd_header d1); d2 = d1\<lparr> fd_headerLength := 0 \<rparr> in
              if n > fd_max d2 then (fd_fail d2, rest1, HeaderTooLong n)
              else if n = 0 then (d2, rest1, HeaderEmpty)
              else (d2\<lparr> fd_expected := Some n, fd_blocks := [], fd_current := None, fd_currentLength := 0,
                        fd_payloadLength := 0 \<rparr>, rest1, HeaderPayload n))"

text \<open>The part that reads the payload and delivers it when it is complete.\<close>

definition read_payload :: "frame_decoder \<Rightarrow> nat \<Rightarrow> byte list list \<Rightarrow> byte list
    \<Rightarrow> (frame_decoder \<times> byte list list \<times> byte list) option" where
  "read_payload d expected frames rest =
     map_option (\<lambda>(d1, rest1).
       if fd_payloadLength d1 = expected
       then (reset_payload d1, frames @ [join_blocks expected (fd_blocks d1)], rest1)
       else (d1, frames, rest1)) (fill_payload d expected rest)"

partial_function (option) push_loop ::
  "frame_decoder \<Rightarrow> byte list list \<Rightarrow> byte list \<Rightarrow> (frame_decoder \<times> (frame_error + byte list list)) option" where
  "push_loop d frames rest =
     (if rest = [] then Some (d, Inr frames)
      else case fd_expected d of
        None \<Rightarrow>
          (case read_header d rest of (d1, rest1, outcome) \<Rightarrow>
           (case outcome of
              HeaderShort \<Rightarrow> push_loop d1 frames rest1
            | HeaderTooLong n \<Rightarrow> Some (d1, Inl (FrameTooLong n))
            | HeaderEmpty \<Rightarrow> push_loop d1 (frames @ [[]]) rest1
            | HeaderPayload n \<Rightarrow>
                (case read_payload d1 n frames rest1 of
                   None \<Rightarrow> None
                 | Some (d2, frames2, rest2) \<Rightarrow> push_loop d2 frames2 rest2)))
      | Some n \<Rightarrow>
          (case read_payload d n frames rest of
             None \<Rightarrow> None
           | Some (d2, frames2, rest2) \<Rightarrow> push_loop d2 frames2 rest2))"

definition fd_push :: "frame_decoder \<Rightarrow> byte list \<Rightarrow> (frame_decoder \<times> (frame_error + byte list list)) option" where
  "fd_push d chunk =
     (case fd_state d of
        DEnded \<Rightarrow> Some (d, Inl FrameEnded)
      | DFailed \<Rightarrow> Some (d, Inl FrameFailed)
      | DOpen \<Rightarrow> push_loop d [] chunk)"

definition fd_end :: "frame_decoder \<Rightarrow> frame_decoder \<times> (frame_error + unit)" where
  "fd_end d =
     (case fd_state d of
        DEnded \<Rightarrow> (d, Inl FrameEnded)
      | DFailed \<Rightarrow> (d, Inl FrameFailed)
      | DOpen \<Rightarrow>
          if fd_headerLength d \<noteq> 0 \<or> fd_expected d \<noteq> None then (fd_fail d, Inl FrameTruncated)
          else (d\<lparr> fd_state := DEnded \<rparr>, Inr ()))"

section \<open>The stream as a whole\<close>

text \<open>The payloads of the complete frames at the front of a stream, and what is left of it.\<close>

function split_frames :: "nat \<Rightarrow> byte list \<Rightarrow> frame_error + byte list list \<times> byte list" where
  "split_frames limit bs =
     (if length bs < 4 then Inr ([], bs)
      else if frame_length bs > limit then Inl (FrameTooLong (frame_length bs))
      else if length bs < 4 + frame_length bs then Inr ([], bs)
      else map_sum id (\<lambda>(fs, rest). (take (frame_length bs) (drop 4 bs) # fs, rest))
             (split_frames limit (drop (4 + frame_length bs) bs)))"
  by pat_completeness auto
termination by (relation "measure (length \<circ> snd)") auto

declare split_frames.simps [simp del]

text \<open>Pushing chunks one after the other until one of them fails.\<close>

fun feed :: "('d \<Rightarrow> 'a list \<Rightarrow> ('d \<times> ('e + 'f list)) option) \<Rightarrow> 'd \<Rightarrow> 'a list list
    \<Rightarrow> ('d \<times> ('e + 'f list)) option" where
  "feed push d [] = Some (d, Inr [])"
| "feed push d (c # cs) =
     (case push d c of
        None \<Rightarrow> None
      | Some (d', Inl e) \<Rightarrow> Some (d', Inl e)
      | Some (d', Inr fs) \<Rightarrow> map_option (map_prod id (map_sum id ((@) fs))) (feed push d' cs))"

locale stream_decoder =
  fixes push :: "'d \<Rightarrow> 'a list \<Rightarrow> ('d \<times> ('e + 'f list)) option"
    and pending :: "'d \<Rightarrow> 'a list"
    and ready :: "'d \<Rightarrow> bool"
    and split :: "'d \<Rightarrow> 'a list \<Rightarrow> 'e + 'f list \<times> 'a list"
  assumes push_split: "ready d \<Longrightarrow> split d (pending d @ c) = Inr (fs, rest) \<Longrightarrow>
      \<exists>d'. push d c = Some (d', Inr fs) \<and> ready d' \<and> pending d' = rest \<and> split d' = split d"
    and push_error: "ready d \<Longrightarrow> split d (pending d @ c) = Inl e \<Longrightarrow> \<exists>d'. push d c = Some (d', Inl e)"
    and split_pending: "ready d \<Longrightarrow> split d (pending d) = Inr ([], pending d)"
    and split_append: "ready d \<Longrightarrow> split d xs = Inr (fs, rest) \<Longrightarrow>
      split d (xs @ ys) = map_sum id (\<lambda>(gs, r). (fs @ gs, r)) (split d (rest @ ys))"
    and split_error: "ready d \<Longrightarrow> split d xs = Inl e \<Longrightarrow> \<exists>e'. split d (xs @ ys) = Inl e'"
begin

text \<open>How the stream was cut does not matter.\<close>

lemma feed_split:
  "ready d \<Longrightarrow> split d (pending d @ concat cs) = Inr (fs, rest) \<Longrightarrow>
   \<exists>d'. feed push d cs = Some (d', Inr fs) \<and> ready d' \<and> pending d' = rest"
proof (induction cs arbitrary: d fs)
  case Nil
  then show ?case using split_pending [of d] by simp
next
  case (Cons c cs)
  show ?case
  proof (cases "split d (pending d @ c)")
    case (Inl e)
    then show ?thesis using Cons.prems split_error [of d "pending d @ c" e "concat cs"] by simp
  next
    case (Inr p)
    obtain gs r where p: "p = (gs, r)" by (cases p)
    from push_split [OF Cons.prems(1)] Inr p obtain d1 where
      d1: "push d c = Some (d1, Inr gs)" "ready d1" "pending d1 = r" "split d1 = split d" by blast
    from split_append [OF Cons.prems(1), of "pending d @ c" gs r "concat cs"] Inr p Cons.prems(2)
    obtain hs where "split d1 (pending d1 @ concat cs) = Inr (hs, rest)" "fs = gs @ hs"
      by (cases "split d (r @ concat cs)") (auto simp: d1)
    with Cons.IH [OF d1(2)] d1(1) show ?thesis by fastforce
  qed
qed

lemma feed_error:
  "ready d \<Longrightarrow> split d (pending d @ concat cs) = Inl e \<Longrightarrow> \<exists>d' e'. feed push d cs = Some (d', Inl e')"
proof (induction cs arbitrary: d e)
  case Nil
  then show ?case using split_pending [of d] by simp
next
  case (Cons c cs)
  show ?case
  proof (cases "split d (pending d @ c)")
    case (Inl e')
    then show ?thesis using push_error [OF Cons.prems(1)] by fastforce
  next
    case (Inr p)
    obtain gs r where p: "p = (gs, r)" by (cases p)
    from push_split [OF Cons.prems(1)] Inr p obtain d1 where
      d1: "push d c = Some (d1, Inr gs)" "ready d1" "pending d1 = r" "split d1 = split d" by blast
    from split_append [OF Cons.prems(1), of "pending d @ c" gs r "concat cs"] Inr p Cons.prems(2)
    obtain e2 where "split d1 (pending d1 @ concat cs) = Inl e2"
      by (cases "split d (r @ concat cs)") (auto simp: d1)
    with Cons.IH [OF d1(2)] d1(1) show ?thesis by fastforce
  qed
qed

end

text \<open>A decoder whose errors do not depend on what follows reports the same error for every cut.\<close>

locale exact_stream_decoder = stream_decoder +
  assumes split_exact: "ready d \<Longrightarrow> split d xs = Inl e \<Longrightarrow> split d (xs @ ys) = Inl e"
begin

lemma feed_exact:
  "ready d \<Longrightarrow> split d (pending d @ concat cs) = Inl e \<Longrightarrow> \<exists>d'. feed push d cs = Some (d', Inl e)"
proof (induction cs arbitrary: d)
  case Nil
  then show ?case using split_pending [of d] by simp
next
  case (Cons c cs)
  show ?case
  proof (cases "split d (pending d @ c)")
    case (Inl e')
    with split_exact [OF Cons.prems(1) Inl, of "concat cs"] Cons.prems(2) have "e' = e" by simp
    with Inl push_error [OF Cons.prems(1)] show ?thesis by fastforce
  next
    case (Inr p)
    obtain gs r where p: "p = (gs, r)" by (cases p)
    from push_split [OF Cons.prems(1)] Inr p obtain d1 where
      d1: "push d c = Some (d1, Inr gs)" "ready d1" "pending d1 = r" "split d1 = split d" by blast
    from split_append [OF Cons.prems(1), of "pending d @ c" gs r "concat cs"] Inr p Cons.prems(2)
    have "split d1 (pending d1 @ concat cs) = Inl e"
      by (cases "split d (r @ concat cs)") (auto simp: d1)
    with Cons.IH [OF d1(2)] d1(1) show ?thesis by fastforce
  qed
qed

end

section \<open>The decoder refines the split\<close>

definition received :: "frame_decoder \<Rightarrow> byte list" where
  "received d = take (fd_payloadLength d) (concat (fd_blocks d))"

definition blocks_ok :: "frame_decoder \<Rightarrow> nat \<Rightarrow> bool" where
  "blocks_ok d n =
     (length (concat (fd_blocks d)) \<le> n \<and>
      (case fd_current d of
         None \<Rightarrow> fd_blocks d = [] \<and> fd_payloadLength d = 0
       | Some i \<Rightarrow> \<exists>front block. fd_blocks d = front @ [block] \<and> i = length front \<and>
           fd_currentLength d \<le> length block \<and> fd_payloadLength d = length (concat front) + fd_currentLength d))"

definition same_frame :: "frame_decoder \<Rightarrow> frame_decoder \<Rightarrow> bool" where
  "same_frame d d' = (fd_header d' = fd_header d \<and> fd_headerLength d' = fd_headerLength d \<and>
     fd_max d' = fd_max d \<and> fd_expected d' = fd_expected d \<and> fd_state d' = fd_state d)"

lemma blit_append:
  "length bs \<le> length ys \<Longrightarrow> blit (xs @ ys) (length xs) bs = xs @ bs @ drop (length bs) ys"
  by (simp add: blit_def)

lemma length_blit: "offset + length bs \<le> length xs \<Longrightarrow> length (blit xs offset bs) = length xs"
  by (simp add: blit_def)

lemma take_blit: "offset + length bs \<le> length xs \<Longrightarrow> take (offset + length bs) (blit xs offset bs) = take offset xs @ bs"
  by (simp add: blit_def)

lemma open_block_ok:
  assumes "blocks_ok d n" and "fd_payloadLength d < n"
  shows "\<exists>front block. fst (open_block d n) = d\<lparr> fd_blocks := front @ [block], fd_current := Some (length front),
      fd_currentLength := fd_currentLength (fst (open_block d n)) \<rparr> \<and> snd (open_block d n) = length front \<and>
    fd_currentLength (fst (open_block d n)) < length block \<and>
    length (concat (front @ [block])) \<le> n \<and>
    fd_payloadLength d = length (concat front) + fd_currentLength (fst (open_block d n)) \<and>
    take (fd_payloadLength d) (concat (front @ [block])) = received d"
proof (cases "\<exists>front block. fd_blocks d = front @ [block] \<and> fd_current d = Some (length front) \<and>
    fd_currentLength d < length block \<and> fd_payloadLength d = length (concat front) + fd_currentLength d")
  case True
  then obtain front block where "fd_blocks d = front @ [block]" "fd_current d = Some (length front)"
    "fd_currentLength d < length block" "fd_payloadLength d = length (concat front) + fd_currentLength d" by blast
  with assms show ?thesis
    by (intro exI [of _ front] exI [of _ block]) (auto simp: open_block_def blocks_ok_def received_def)
next
  case False
  let ?new = "replicate (min PAYLOAD_BLOCK_SIZE (n - fd_payloadLength d)) 0"
  have full: "fd_payloadLength d = length (concat (fd_blocks d)) \<and>
    (case fd_current d of None \<Rightarrow> True | Some i \<Rightarrow> fd_currentLength d = length (fd_blocks d ! i))"
    using assms False by (fastforce simp: blocks_ok_def le_less split: option.splits)
  then have "open_block d n = (d\<lparr> fd_blocks := fd_blocks d @ [?new],
      fd_current := Some (length (fd_blocks d)), fd_currentLength := 0 \<rparr>, length (fd_blocks d))"
    by (auto simp: open_block_def split: option.splits)
  with full assms show ?thesis
    by (intro exI [of _ "fd_blocks d"] exI [of _ ?new]) (auto simp: received_def PAYLOAD_BLOCK_SIZE_def)
qed

lemma copy_payload_ok:
  assumes "blocks_ok d n" and "fd_payloadLength d < n" and "rest \<noteq> []"
    and "copy_payload d n rest = (d', rest')"
  shows "\<exists>k. 0 < k \<and> k \<le> n - fd_payloadLength d \<and> k \<le> length rest \<and> rest' = drop k rest \<and>
    fd_payloadLength d' = fd_payloadLength d + k \<and> received d' = received d @ take k rest \<and>
    blocks_ok d' n \<and> same_frame d d'"
proof -
  from open_block_ok [OF assms(1,2)] obtain front block l where
    ob: "open_block d n = (d\<lparr> fd_blocks := front @ [block], fd_current := Some (length front),
        fd_currentLength := l \<rparr>, length front)"
    and l: "l < length block" and len: "length (concat (front @ [block])) \<le> n"
    and pl: "fd_payloadLength d = length (concat front) + l"
    and rec: "take (fd_payloadLength d) (concat (front @ [block])) = received d"
    by (metis prod.collapse)
  define k where "k = min (length block - l) (length rest)"
  let ?block = "blit block l (take k rest)"
  have k: "0 < k" "k \<le> length rest" "l + k \<le> length block" using l assms(3) by (auto simp: k_def)
  have d': "d' = d\<lparr> fd_blocks := front @ [?block], fd_current := Some (length front),
      fd_currentLength := l + k, fd_payloadLength := fd_payloadLength d + k \<rparr>" "rest' = drop k rest"
    using assms(4) ob by (auto simp: copy_payload_def k_def Let_def)
  have "length ?block = length block" using k by (simp add: length_blit)
  moreover have "take (l + k) ?block = take l block @ take k rest" using take_blit [of l "take k rest" block] k by simp
  ultimately have "blocks_ok d' n" "received d' = received d @ take k rest"
    using len pl k rec by (auto simp: blocks_ok_def received_def d')
  then show ?thesis using k d' pl len by (intro exI [of _ k]) (auto simp: same_frame_def)
qed

lemma fill_payload_ok:
  assumes "blocks_ok d n" and "fd_payloadLength d \<le> n"
  shows "\<exists>d'. fill_payload d n rest = Some (d', drop (n - fd_payloadLength d) rest) \<and>
    received d' = received d @ take (n - fd_payloadLength d) rest \<and>
    fd_payloadLength d' = fd_payloadLength d + min (n - fd_payloadLength d) (length rest) \<and>
    blocks_ok d' n \<and> same_frame d d'"
  using assms
proof (induction rest arbitrary: d rule: length_induct)
  case (1 rest)
  show ?case
  proof (cases "rest \<noteq> [] \<and> fd_payloadLength d < n")
    case False
    then have "fill_payload d n rest = Some (d, rest)" by (subst fill_payload.simps) auto
    with False "1.prems" show ?thesis by (auto simp: same_frame_def)
  next
    case True
    obtain d1 rest1 where c: "copy_payload d n rest = (d1, rest1)" by (cases "copy_payload d n rest")
    from copy_payload_ok [OF "1.prems"(1) _ _ c] True obtain k where
      k: "0 < k" "k \<le> n - fd_payloadLength d" "k \<le> length rest" "rest1 = drop k rest"
        "fd_payloadLength d1 = fd_payloadLength d + k" "received d1 = received d @ take k rest"
        "blocks_ok d1 n" "same_frame d d1" by blast
    have "fill_payload d n rest = fill_payload d1 n rest1"
      using True c by (subst fill_payload.simps) simp
    moreover have "length rest1 < length rest" "fd_payloadLength d1 \<le> n" using k True by auto
    ultimately obtain d' where "fill_payload d n rest = Some (d', drop (n - fd_payloadLength d1) rest1)"
      "received d' = received d1 @ take (n - fd_payloadLength d1) rest1"
      "fd_payloadLength d' = fd_payloadLength d1 + min (n - fd_payloadLength d1) (length rest1)"
      "blocks_ok d' n" "same_frame d1 d'"
      using "1.IH" k(7) by metis
    moreover have "take k rest @ take (n - fd_payloadLength d1) rest1 = take (n - fd_payloadLength d) rest"
      using k True take_add [of k "n - fd_payloadLength d1" rest] by simp
    ultimately show ?thesis using k True by (auto simp: same_frame_def)
  qed
qed

lemma foldl_blit:
  "offset + length (concat blocks) \<le> length payload \<Longrightarrow>
   fst (foldl (\<lambda>(payload, offset) block. (blit payload offset block, offset + length block)) (payload, offset) blocks)
   = take offset payload @ concat blocks @ drop (offset + length (concat blocks)) payload"
proof (induction blocks arbitrary: payload offset)
  case (Cons b blocks)
  then show ?case
    by (simp add: length_blit take_blit) (simp add: blit_def add.assoc add.commute add.left_commute)
qed simp

lemma join_blocks_concat: "length (concat blocks) = n \<Longrightarrow> join_blocks n blocks = concat blocks"
  using foldl_blit [of 0 blocks "replicate n 0"]
  by (auto simp: join_blocks_def length_Suc_conv)

lemma length_received: "blocks_ok d n \<Longrightarrow> length (received d) = fd_payloadLength d"
  by (auto simp: received_def blocks_ok_def split: option.splits)

subsection \<open>Split\<close>

lemma frame_length_append: "length header = 4 \<Longrightarrow> frame_length (header @ bs) = frame_length header"
  by (simp add: frame_length_def nth_append)

lemma frame_length_uint32: "n < 2 ^ 32 \<Longrightarrow> frame_length (uint32_bytes n @ bs) = n"
  using uint32_digits [of n] by (simp add: frame_length_def uint32_bytes_def unat_byte_of shift_right_def)

lemma uint32_frame_length: "length header = 4 \<Longrightarrow> uint32_bytes (frame_length header) = header"
proof -
  assume "length header = 4"
  then obtain a b c d where h: "header = [a, b, c, d]"
    by (auto simp: length_Suc_conv numeral_eq_Suc)
  show ?thesis unfolding h frame_length_def using uint32_of_bytes [of a b c d] by simp
qed

lemma frame_length_take: "4 \<le> length xs \<Longrightarrow> frame_length (take 4 xs) = frame_length xs"
  by (simp add: frame_length_def)

lemma split_short: "length bs < 4 \<Longrightarrow> split_frames limit bs = Inr ([], bs)"
  by (simp add: split_frames.simps)

lemma split_too_long:
  "length header = 4 \<Longrightarrow> frame_length header > limit \<Longrightarrow>
   split_frames limit (header @ bs) = Inl (FrameTooLong (frame_length header))"
  by (simp add: split_frames.simps frame_length_append)

lemma split_frame:
  assumes "length header = 4" and "frame_length header \<le> limit" and "length p = frame_length header"
  shows "split_frames limit (header @ p @ bs) = map_sum id (\<lambda>(fs, rest). (p # fs, rest)) (split_frames limit bs)"
  using assms by (subst split_frames.simps) (simp add: frame_length_append)

lemma split_partial:
  assumes "length header = 4" and "frame_length header \<le> limit" and "length p < frame_length header"
  shows "split_frames limit (header @ p) = Inr ([], header @ p)"
  using assms by (subst split_frames.simps) (simp add: frame_length_append)

lemma split_frames_cases:
  obtains (stuck) "split_frames limit xs = Inr ([], xs)"
  | (too_long) header r where "xs = header @ r" "length header = 4" "frame_length header > limit"
  | (frame) header p r where "xs = header @ p @ r" "length header = 4" "frame_length header \<le> limit"
      "length p = frame_length header"
proof -
  let ?header = "take 4 xs" and ?n = "frame_length xs"
  consider "length xs < 4" | "4 \<le> length xs" "?n > limit" | "4 \<le> length xs" "?n \<le> limit" "length xs < 4 + ?n"
    | "4 + ?n \<le> length xs" "?n \<le> limit" by linarith
  then show ?thesis
  proof cases
    case 1
    then show ?thesis by (intro stuck split_short)
  next
    case 2
    then show ?thesis by (intro too_long [of ?header "drop 4 xs"]) (simp_all add: frame_length_take)
  next
    case 3
    then show ?thesis by (intro stuck) (simp add: split_frames.simps)
  next
    case 4
    have "xs = ?header @ take ?n (drop 4 xs) @ drop (4 + ?n) xs"
      by (metis append_take_drop_id drop_drop add.commute)
    with 4 show ?thesis
      by (intro frame [of ?header "take ?n (drop 4 xs)" "drop (4 + ?n) xs"]) (simp_all add: frame_length_take)
  qed
qed

lemma split_frames_append:
  "split_frames limit xs = Inr (fs, rest) \<Longrightarrow>
   split_frames limit (xs @ ys) = map_sum id (\<lambda>(gs, r). (fs @ gs, r)) (split_frames limit (rest @ ys))"
proof (induction xs arbitrary: fs rule: length_induct)
  case (1 xs)
  show ?case
  proof (cases limit xs rule: split_frames_cases)
    case stuck
    with "1.prems" show ?thesis by (cases "split_frames limit (xs @ ys)") auto
  next
    case (too_long header r)
    with "1.prems" show ?thesis by (simp add: split_too_long)
  next
    case (frame header p r)
    note step = split_frame [OF frame(2-4)]
    from "1.prems" obtain gs where gs: "split_frames limit r = Inr (gs, rest)" "fs = p # gs"
      using step [of r] frame(1) by (cases "split_frames limit r") auto
    have "split_frames limit (r @ ys) = map_sum id (\<lambda>(hs, r). (gs @ hs, r)) (split_frames limit (rest @ ys))"
      using "1.IH" [rule_format, OF _ gs(1)] frame(1,2) by simp
    with step [of "r @ ys"] gs(2) frame(1) show ?thesis by (cases "split_frames limit (rest @ ys)") auto
  qed
qed

lemma split_frames_error: "split_frames limit xs = Inl e \<Longrightarrow> split_frames limit (xs @ ys) = Inl e"
proof (induction xs rule: length_induct)
  case (1 xs)
  show ?case
  proof (cases limit xs rule: split_frames_cases)
    case stuck
    with "1.prems" show ?thesis by simp
  next
    case (too_long header r)
    with "1.prems" show ?thesis by (simp add: split_too_long)
  next
    case (frame header p r)
    note step = split_frame [OF frame(2-4)]
    have "split_frames limit r = Inl e"
      using "1.prems" step [of r] frame(1) by (cases "split_frames limit r") auto
    with "1.IH" frame(1,2) step [of "r @ ys"] show ?thesis by simp
  qed
qed

subsection \<open>The loop\<close>

definition fd_ready :: "frame_decoder \<Rightarrow> bool" where
  "fd_ready d =
     (fd_state d = DOpen \<and> length (fd_header d) = 4 \<and> fd_max d < 2 ^ 32 \<and>
      (case fd_expected d of
         None \<Rightarrow> fd_headerLength d < 4
       | Some n \<Rightarrow> fd_headerLength d = 0 \<and> n \<le> fd_max d \<and> blocks_ok d n \<and> fd_payloadLength d < n))"

definition fd_pending :: "frame_decoder \<Rightarrow> byte list" where
  "fd_pending d =
     (case fd_expected d of
        None \<Rightarrow> take (fd_headerLength d) (fd_header d)
      | Some n \<Rightarrow> uint32_bytes n @ received d)"

lemma length_uint32_bytes [simp]: "length (uint32_bytes n) = 4"
  by (simp add: uint32_bytes_def)

definition loop_ok :: "frame_decoder \<Rightarrow> byte list list \<Rightarrow> byte list
    \<Rightarrow> (frame_decoder \<times> (frame_error + byte list list)) option \<Rightarrow> bool" where
  "loop_ok d frames stream result =
     (case split_frames (fd_max d) stream of
        Inl e \<Rightarrow> \<exists>d'. result = Some (d', Inl e) \<and> fd_state d' = DFailed
      | Inr (fs, r) \<Rightarrow> \<exists>d'. result = Some (d', Inr (frames @ fs)) \<and> fd_ready d' \<and> fd_pending d' = r \<and>
          fd_max d' = fd_max d)"

lemma loop_ok_frame:
  assumes "loop_ok d1 (frames @ [p]) bs result" and "fd_max d1 = fd_max d"
    and "length header = 4" and "frame_length header \<le> fd_max d" and "length p = frame_length header"
  shows "loop_ok d frames (header @ p @ bs) result"
  using assms by (auto simp: loop_ok_def split_frame split: sum.splits)

lemma loop_ok_max: "loop_ok d1 frames bs result \<Longrightarrow> fd_max d1 = fd_max d \<Longrightarrow> loop_ok d frames bs result"
  by (auto simp: loop_ok_def split: sum.splits)

lemma split_ready_pending: "fd_ready d \<Longrightarrow> split_frames (fd_max d) (fd_pending d) = Inr ([], fd_pending d)"
proof (cases "fd_expected d")
  case (Some n)
  assume "fd_ready d"
  with Some have "n < 2 ^ 32" "n \<le> fd_max d" "length (received d) < n"
    by (auto simp: fd_ready_def length_received)
  with Some frame_length_uint32 [of n "[]"] show ?thesis
    by (simp add: fd_pending_def split_partial)
qed (simp add: fd_ready_def fd_pending_def split_short)

lemma read_header_ok:
  assumes "fd_ready d" and "fd_expected d = None" and "rest \<noteq> []"
    and "read_header d rest = (d1, rest1, outcome)"
  obtains header where "length rest1 < length rest" "fd_pending d @ rest = header @ rest1"
    "case outcome of
       HeaderShort \<Rightarrow> fd_ready d1 \<and> fd_pending d1 = header \<and> fd_max d1 = fd_max d
     | HeaderTooLong n \<Rightarrow> length header = 4 \<and> n = frame_length header \<and> fd_max d < n \<and> fd_state d1 = DFailed
     | HeaderEmpty \<Rightarrow> length header = 4 \<and> frame_length header = 0 \<and> fd_ready d1 \<and> fd_pending d1 = [] \<and>
         fd_max d1 = fd_max d
     | HeaderPayload n \<Rightarrow> fd_ready d1 \<and> fd_expected d1 = Some n \<and> fd_pending d1 = header \<and> fd_max d1 = fd_max d"
proof -
  define k where "k = min (4 - fd_headerLength d) (length rest)"
  let ?h = "blit (fd_header d) (fd_headerLength d) (take k rest)"
  let ?header = "take (fd_headerLength d) (fd_header d) @ take k rest"
  have r: "fd_headerLength d < 4" "length (fd_header d) = 4" "fd_state d = DOpen" "fd_max d < 2 ^ 32"
    using assms(1,2) by (simp_all add: fd_ready_def)
  then have k: "0 < k" "fd_headerLength d + k \<le> 4" using assms(3) by (auto simp: k_def)
  have kl: "k \<le> length rest" by (simp add: k_def)
  have h: "length ?h = 4" "take (fd_headerLength d + k) ?h = ?header"
    using k kl r take_blit [of "fd_headerLength d" "take k rest" "fd_header d"] by (simp_all add: length_blit)
  have full: "?h = ?header" if "fd_headerLength d + k = 4" using h that by simp
  note body = assms(4) [unfolded read_header_def FRAME_HEADER_LENGTH_def k_def [symmetric] Let_def [of k]]
  have rest1: "rest1 = drop k rest"
    using body by (auto simp: Let_def split: if_splits)
  have 1: "length rest1 < length rest" "fd_pending d @ rest = ?header @ rest1"
    using k assms(2,3) by (auto simp: rest1 fd_pending_def)
  show ?thesis
  proof (cases "fd_headerLength d + k < 4")
    case True
    then show ?thesis using assms(2) body r h
      by (intro that [OF 1]) (auto simp: Let_def fd_ready_def fd_pending_def)
  next
    case False
    then have e: "fd_headerLength d + k = 4" using k by linarith
    have "(case outcome of
       HeaderShort \<Rightarrow> fd_ready d1 \<and> fd_pending d1 = ?h \<and> fd_max d1 = fd_max d
     | HeaderTooLong n \<Rightarrow> n = frame_length ?h \<and> fd_max d < n \<and> fd_state d1 = DFailed
     | HeaderEmpty \<Rightarrow> frame_length ?h = 0 \<and> fd_ready d1 \<and> fd_pending d1 = [] \<and>
         fd_max d1 = fd_max d
     | HeaderPayload n \<Rightarrow> fd_ready d1 \<and> fd_expected d1 = Some n \<and> fd_pending d1 = ?h \<and> fd_max d1 = fd_max d)"
      using assms(2) body r h e
      by (auto simp: Let_def fd_ready_def fd_pending_def fd_fail_def
          blocks_ok_def received_def uint32_frame_length split: if_splits)
    with full [OF e] h(1) show ?thesis by (intro that [OF 1]) (auto split: header_outcome.splits)
  qed
qed

lemma read_payload_ok:
  assumes "fd_ready d" and "fd_expected d = Some n"
  obtains (complete) d2 rest2 p where "read_payload d n frames rest = Some (d2, frames @ [p], rest2)"
      "fd_pending d @ rest = uint32_bytes n @ p @ rest2" "length p = n" "fd_ready d2" "fd_pending d2 = []"
      "fd_max d2 = fd_max d" "length rest2 \<le> length rest" "rest \<noteq> [] \<longrightarrow> length rest2 < length rest"
  | (partial) d2 where "read_payload d n frames rest = Some (d2, frames, [])"
      "fd_pending d2 = fd_pending d @ rest" "fd_ready d2" "fd_max d2 = fd_max d"
proof -
  have r: "blocks_ok d n" "fd_payloadLength d < n" "n \<le> fd_max d" "fd_state d = DOpen" "fd_headerLength d = 0"
    "length (fd_header d) = 4" "fd_max d < 2 ^ 32"
    using assms by (simp_all add: fd_ready_def)
  let ?k = "n - fd_payloadLength d"
  from fill_payload_ok [OF r(1) less_imp_le [OF r(2)], of rest] obtain d' where
    d': "fill_payload d n rest = Some (d', drop ?k rest)" "received d' = received d @ take ?k rest"
      "fd_payloadLength d' = fd_payloadLength d + min ?k (length rest)" "blocks_ok d' n" "same_frame d d'"
    by blast
  show ?thesis
  proof (cases "?k \<le> length rest")
    case True
    with d'(3) r(2) have pl: "fd_payloadLength d' = n" by simp
    have "length (concat (fd_blocks d')) = n"
      using d'(4) pl length_received [OF d'(4)] by (auto simp: received_def blocks_ok_def)
    then have "join_blocks n (fd_blocks d') = received d'"
      using join_blocks_concat [of "fd_blocks d'" n] pl by (simp add: received_def)
    with d' pl have "read_payload d n frames rest = Some (reset_payload d', frames @ [received d'], drop ?k rest)"
      by (simp add: read_payload_def)
    moreover have "length (received d') = n" using length_received [OF d'(4)] pl by simp
    moreover have "fd_ready (reset_payload d')" "fd_pending (reset_payload d') = []" "fd_max (reset_payload d') = fd_max d"
      using d'(5) r by (simp_all add: reset_payload_def fd_ready_def fd_pending_def same_frame_def)
    moreover have "fd_pending d @ rest = uint32_bytes n @ received d' @ drop ?k rest"
      using assms(2) d'(2) by (simp add: fd_pending_def)
    moreover have "length (drop ?k rest) \<le> length rest" "rest \<noteq> [] \<longrightarrow> length (drop ?k rest) < length rest"
      using r(2) by (auto simp: length_greater_0_conv [symmetric] simp del: length_greater_0_conv)
    ultimately show ?thesis by (intro complete)
  next
    case False
    with d'(3) r(2) have pl: "fd_payloadLength d' < n" by simp
    with d' False have "read_payload d n frames rest = Some (d', frames, [])"
      by (simp add: read_payload_def)
    moreover have "fd_ready d'" "fd_pending d' = fd_pending d @ rest" "fd_max d' = fd_max d"
      using d' r pl assms(2) False by (simp_all add: fd_ready_def fd_pending_def same_frame_def)
    ultimately show ?thesis by (intro partial)
  qed
qed

lemma push_loop_nil: "fd_ready d \<Longrightarrow> loop_ok d frames (fd_pending d) (push_loop d frames [])"
  by (subst push_loop.simps) (simp add: loop_ok_def split_ready_pending)

lemma payload_loop_ok:
  assumes ready: "fd_ready d" and ex: "fd_expected d = Some n"
    and IH: "\<And>d2 frames2 rest2. length rest2 < m \<Longrightarrow> fd_ready d2 \<Longrightarrow>
      loop_ok d2 frames2 (fd_pending d2 @ rest2) (push_loop d2 frames2 rest2)"
    and m: "length rest < m \<or> rest \<noteq> [] \<and> length rest = m"
  shows "loop_ok d frames (fd_pending d @ rest)
    (case read_payload d n frames rest of None \<Rightarrow> None
     | Some (d2, frames2, rest2) \<Rightarrow> push_loop d2 frames2 rest2)"
  using ready ex
proof (cases rule: read_payload_ok [of d n frames rest])
  case (complete d2 rest2 p)
  have n: "n < 2 ^ 32" "n \<le> fd_max d" using ready ex by (auto simp: fd_ready_def)
  have "loop_ok d2 (frames @ [p]) rest2 (push_loop d2 (frames @ [p]) rest2)"
    using IH [of rest2 d2] complete m by fastforce
  from loop_ok_frame [OF this, of d "uint32_bytes n"] complete n frame_length_uint32 [of n "[]"]
  show ?thesis by simp
next
  case (partial d2)
  then show ?thesis using push_loop_nil [of d2 frames] loop_ok_max [of d2 _ _ _ d] by simp
qed

lemma push_loop_ok: "fd_ready d \<Longrightarrow> loop_ok d frames (fd_pending d @ rest) (push_loop d frames rest)"
proof (induction rest arbitrary: d frames rule: length_induct)
  case (1 rest)
  note IH = "1.IH" [rule_format]
  show ?case
  proof (cases "rest = []")
    case True
    then show ?thesis using push_loop_nil [OF "1.prems"] by simp
  next
    case ne: False
    show ?thesis
    proof (cases "fd_expected d")
      case (Some n)
      have "push_loop d frames rest = (case read_payload d n frames rest of None \<Rightarrow> None
          | Some (d2, frames2, rest2) \<Rightarrow> push_loop d2 frames2 rest2)"
        using ne Some by (subst push_loop.simps) simp
      with payload_loop_ok [OF "1.prems" Some, of "length rest"] IH ne show ?thesis by simp
    next
      case None
      obtain d1 rest1 outcome where h: "read_header d rest = (d1, rest1, outcome)"
        by (cases "read_header d rest") auto
      from read_header_ok [OF "1.prems" None ne h] obtain header where
        lt: "length rest1 < length rest" and eq: "fd_pending d @ rest = header @ rest1"
        and out: "case outcome of
       HeaderShort \<Rightarrow> fd_ready d1 \<and> fd_pending d1 = header \<and> fd_max d1 = fd_max d
     | HeaderTooLong n \<Rightarrow> length header = 4 \<and> n = frame_length header \<and> fd_max d < n \<and> fd_state d1 = DFailed
     | HeaderEmpty \<Rightarrow> length header = 4 \<and> frame_length header = 0 \<and> fd_ready d1 \<and> fd_pending d1 = [] \<and>
         fd_max d1 = fd_max d
     | HeaderPayload n \<Rightarrow> fd_ready d1 \<and> fd_expected d1 = Some n \<and> fd_pending d1 = header \<and> fd_max d1 = fd_max d" .
      note unfold = push_loop.simps [of d frames rest]
      show ?thesis
      proof (cases outcome)
        case HeaderShort
        with out IH [OF lt, of d1 frames] show ?thesis
          using ne None h eq loop_ok_max [of d1 _ _ _ d] by (subst unfold) simp
      next
        case (HeaderTooLong n)
        with out show ?thesis
          using ne None h eq by (subst unfold) (simp add: loop_ok_def split_too_long)
      next
        case HeaderEmpty
        with out IH [OF lt, of d1 "frames @ [[]]"] loop_ok_frame [of d1 frames "[]" rest1 _ d header] show ?thesis
          using ne None h eq by (subst unfold) simp
      next
        case (HeaderPayload n)
        with out payload_loop_ok [of d1 n "length rest" rest1 frames, OF _ _ IH] lt show ?thesis
          using ne None h eq loop_ok_max [of d1 _ _ _ d] by (subst unfold) simp
      qed
    qed
  qed
qed

lemma fd_push_ok: "fd_ready d \<Longrightarrow> loop_ok d [] (fd_pending d @ chunk) (fd_push d chunk)"
  using push_loop_ok [of d "[]" chunk] by (simp add: fd_push_def fd_ready_def)

interpretation frames: exact_stream_decoder fd_push fd_pending fd_ready "\<lambda>d. split_frames (fd_max d)"
proof
  fix d c fs rest
  assume "fd_ready d" "split_frames (fd_max d) (fd_pending d @ c) = Inr (fs, rest)"
  with fd_push_ok [of d c] show "\<exists>d'. fd_push d c = Some (d', Inr fs) \<and> fd_ready d' \<and> fd_pending d' = rest \<and>
      split_frames (fd_max d') = split_frames (fd_max d)"
    by (auto simp: loop_ok_def)
next
  fix d c e
  assume "fd_ready d" "split_frames (fd_max d) (fd_pending d @ c) = Inl e"
  with fd_push_ok [of d c] show "\<exists>d'. fd_push d c = Some (d', Inl e)" by (auto simp: loop_ok_def)
qed (auto intro: split_ready_pending split_frames_append split_frames_error)

section \<open>Encoded frames\<close>

lemma new_frame_decoder_ready:
  assumes "new_frame_decoder m = Inr d"
  shows "fd_ready d" "fd_pending d = []" "resolveMaxFrameLength m = Inr (fd_max d)"
  using assms
  by (auto simp: new_frame_decoder_def rbind_Inr_iff fd_ready_def fd_pending_def resolveMaxFrameLength_def
      MAX_UINT32_def FRAME_HEADER_LENGTH_def Let_def split: if_splits)

lemma split_encoded:
  assumes "list_all2 (\<lambda>p f. encodeFrame p = Inr f) ps fs" and "list_all (\<lambda>p. length p \<le> limit) ps"
    and "length tail < 4"
  shows "split_frames limit (concat fs @ tail) = Inr (ps, tail)"
  using assms
proof (induction rule: list_all2_induct)
  case (Cons p ps f fs)
  then have f: "f = uint32_bytes (length p) @ p" "length p < 2 ^ 32"
    by (auto simp: encodeFrame_def MAX_UINT32_def split: if_splits)
  with Cons split_frame [of "uint32_bytes (length p)" limit p "concat fs @ tail"]
    frame_length_uint32 [of "length p" "[]"] show ?case by simp
qed (simp add: split_short)

section \<open>Frames on the wire\<close>

lemma fd_end_ready:
  assumes "fd_ready d"
  shows "snd (fd_end d) = (if fd_pending d = [] then Inr () else Inl FrameTruncated)"
  using assms by (auto simp: fd_ready_def fd_pending_def fd_end_def uint32_bytes_def split: option.splits)

text \<open>C5. However the bytes of a sequence of frames are cut into chunks (empty ones included), the decoder
returns exactly the payloads, in order, and may then end: no byte is left over.\<close>

theorem frames_survive_chunking:
  assumes "new_frame_decoder maxFrameLength = Inr d"
    and "list_all2 (\<lambda>p f. encodeFrame p = Inr f) payloads frames"
    and "list_all (\<lambda>p. length p \<le> fd_max d) payloads"
    and "concat chunks = concat frames"
  shows "\<exists>d'. feed fd_push d chunks = Some (d', Inr payloads) \<and> snd (fd_end d') = Inr ()"
proof -
  note new = new_frame_decoder_ready [OF assms(1)]
  have "split_frames (fd_max d) (fd_pending d @ concat chunks) = Inr (payloads, [])"
    using split_encoded [OF assms(2,3), of "[]"] assms(4) new(2) by simp
  then show ?thesis
    using frames.feed_split [OF new(1)] fd_end_ready by fastforce
qed

definition sample_decoder :: frame_decoder where
  "sample_decoder = \<lparr> fd_header = [0, 0, 0, 0], fd_headerLength = 0, fd_max = 100,
     fd_blocks = [], fd_current = None, fd_currentLength = 0, fd_expected = None,
     fd_payloadLength = 0, fd_state = DOpen \<rparr>"

lemma replicate_4: "replicate 4 x = [x, x, x, x]"
  by (simp add: numeral_eq_Suc)

lemma sample_decoder_new: "new_frame_decoder (Some (NInt 100)) = Inr sample_decoder"
  by (simp add: new_frame_decoder_def resolveMaxFrameLength_def option_or_def js_isSafeInteger_def
      MAX_SAFE_INTEGER_def MAX_UINT32_def sample_decoder_def FRAME_HEADER_LENGTH_def replicate_4)

theorem frames_survive_chunking_witness:
  "\<exists>d'. feed fd_push sample_decoder [[0, 0], [0, 2, 7], [], [8, 0, 0, 0, 0]] = Some (d', Inr [[7, 8], []]) \<and>
     snd (fd_end d') = Inr ()"
  by (rule frames_survive_chunking [OF sample_decoder_new, where frames = "[[0, 0, 0, 2, 7, 8], [0, 0, 0, 0]]"])
    (simp_all add: sample_decoder_def encodeFrame_def MAX_UINT32_def uint32_bytes_def byte_of_def shift_right_def)

text \<open>C26. The decoder refines its specification on every byte stream and every chunking: no push runs forever,
the frames are those that splitting the whole stream gives, a frame over the limit is reported with
its length, and ending the stream succeeds exactly if no partial frame is left.\<close>

theorem frame_decoder_refines_split:
  assumes "new_frame_decoder maxFrameLength = Inr d"
  shows "case split_frames (fd_max d) (concat chunks) of
      Inl e \<Rightarrow> \<exists>d'. feed fd_push d chunks = Some (d', Inl e)
    | Inr (frames, rest) \<Rightarrow> \<exists>d'. feed fd_push d chunks = Some (d', Inr frames) \<and>
        snd (fd_end d') = (if rest = [] then Inr () else Inl FrameTruncated)"
proof (cases "split_frames (fd_max d) (concat chunks)")
  case (Inl e)
  then show ?thesis
    using frames.feed_exact new_frame_decoder_ready(1,2) [OF assms] by simp
next
  case (Inr r)
  then show ?thesis
    using frames.feed_split [of d chunks "fst r" "snd r"] new_frame_decoder_ready(1,2) [OF assms] fd_end_ready
    by (fastforce split: prod.splits)
qed

theorem frame_decoder_refines_split_witness:
  "\<exists>d'. feed fd_push sample_decoder [[0], [0, 0, 101]] = Some (d', Inl (FrameTooLong 101))"
proof -
  have "split_frames 100 [0, 0, 0, 101] = Inl (FrameTooLong 101)"
    by (subst split_frames.simps) (simp add: frame_length_def)
  with frame_decoder_refines_split [OF sample_decoder_new, of "[[0], [0, 0, 101]]"] show ?thesis
    by (simp add: sample_decoder_def)
qed

end
