(* ===== verification/Protocol_Codec.thy ===== *)
theory Protocol_Codec
  imports Cbor_Roundtrip Framing
begin

text \<open>
  \<^verbatim>\<open>packages/protocol/src/codec.ts\<close>: validation, encoding and incremental decoding of protocol
  messages. A message to encode is a value of the heap, a decoded one a tree. The schema check of
  TypeBox (\<^verbatim>\<open>Check\<close>) is a parameter: \<open>checkValue\<close> on the heap, \<open>checkTree\<close> on a decoded tree.
\<close>

section \<open>The code\<close>

datatype message_kind = ClientKind | ServerKind

datatype protocol_error =
    InvalidMessage message_kind
  | UnableToEncode message_kind "cbor_error + frame_error"
  | DecoderFailed message_kind
  | InvalidFrame message_kind "cbor_error + frame_error"
  | InvalidFraming message_kind frame_error

text \<open>
  The objects of the heap are those at addresses below \<open>objects\<close>: there are finitely many, so the
  recursion ends, because no object is its own ancestor. \<^verbatim>\<open>Array.prototype.every\<close> skips holes.
\<close>

lemma ancestors_decrease:
  "\<not> (a \<in> anc \<or> (n :: nat) \<le> a) \<Longrightarrow> card ({..<n} - insert a anc) < card ({..<n} - anc)"
proof -
  assume "\<not> (a \<in> anc \<or> n \<le> a)"
  then have "a \<in> {..<n} - anc" by simp
  then have "card ({..<n} - anc - {a}) < card ({..<n} - anc)" by (intro card_Diff1_less) simp_all
  moreover have "{..<n} - insert a anc = {..<n} - anc - {a}" by blast
  ultimately show ?thesis by (simp only:)
qed

function isProtocolValue :: "heap \<Rightarrow> nat \<Rightarrow> js_val \<Rightarrow> bool \<Rightarrow> addr set \<Rightarrow> bool" where
  "isProtocolValue h objects v optionalProperty ancestors =
     (case v of
        VUndefined \<Rightarrow> optionalProperty
      | VNull \<Rightarrow> True
      | VBool b \<Rightarrow> True
      | VNum n \<Rightarrow> True
      | VStr s \<Rightarrow> True
      | VOther t \<Rightarrow> False
      | VBytes bytes \<Rightarrow> False
      | VRef a \<Rightarrow>
          if a \<in> ancestors \<or> a \<ge> objects then False
          else if o_isArray (h a) then
            (\<forall>x \<in> set (o_elems (h a)).
               case x of None \<Rightarrow> True
               | Some slot \<Rightarrow> isProtocolValue h objects (slot_value slot) False (insert a ancestors))
          else if o_proto (h a) \<noteq> ObjectProto then False
          else (\<forall>x \<in> set (o_props (h a)).
                  isProtocolValue h objects (slot_value (snd x)) True (insert a ancestors)))"
  by pat_completeness auto
termination
  by (relation "measure (\<lambda>(h, objects, v, opt, anc). card ({..<objects} - anc))")
    (simp only: wf_measure, (simp only: in_measure case_prod_conv, rule ancestors_decrease, assumption)+)

declare isProtocolValue.simps [simp del]

definition parseMessage :: "message_kind \<Rightarrow> (heap \<Rightarrow> js_val \<Rightarrow> bool) \<Rightarrow> heap \<Rightarrow> nat \<Rightarrow> js_val
    \<Rightarrow> protocol_error + js_val" where
  "parseMessage kind checkValue h objects v =
     (if \<not> isProtocolValue h objects v False {} \<or> \<not> checkValue h v then Inl (InvalidMessage kind)
      else Inr v)"

text \<open>The same walk over a decoded value, a tree of fresh arrays and plain objects.\<close>

fun isProtocolTree :: "cbor \<Rightarrow> bool" where
  "isProtocolTree (CBytes bytes) = False"
| "isProtocolTree (CArray ts) = list_all isProtocolTree ts"
| "isProtocolTree (CMap es) = list_all (\<lambda>(k, t). isProtocolTree t) es"
| "isProtocolTree _ = True"

definition parseTree :: "message_kind \<Rightarrow> (cbor \<Rightarrow> bool) \<Rightarrow> cbor \<Rightarrow> protocol_error + cbor" where
  "parseTree kind checkTree t =
     (if \<not> isProtocolTree t \<or> \<not> checkTree t then Inl (InvalidMessage kind) else Inr t)"

definition map_error :: "('e \<Rightarrow> 'f) \<Rightarrow> 'e + 'a \<Rightarrow> 'f + 'a" where
  "map_error f m = map_sum f id m"

definition frame_options :: "js_num option \<Rightarrow> cbor_options" where
  "frame_options maxFrameLength =
     no_options\<lparr> opt_maxByteLength := Some (option_or maxFrameLength DEFAULT_MAX_FRAME_LENGTH) \<rparr>"

definition encodeProtocolMessage :: "message_kind \<Rightarrow> (heap \<Rightarrow> js_val \<Rightarrow> bool) \<Rightarrow> heap \<Rightarrow> nat \<Rightarrow> js_val
    \<Rightarrow> js_num option \<Rightarrow> protocol_error + byte list" where
  "encodeProtocolMessage kind checkValue h objects v maxFrameLength =
     rbind (parseMessage kind checkValue h objects v) (\<lambda>validated.
     map_error (UnableToEncode kind)
       (rbind (map_error Inl (encodeCbor h validated (frame_options maxFrameLength))) (\<lambda>payload.
        rbind (map_error Inr (encodeFrame payload)) (\<lambda>frame.
        rbind (map_error Inr (assertCompleteFrame frame
                 (Some (option_or maxFrameLength DEFAULT_MAX_FRAME_LENGTH)))) (\<lambda>_.
        Inr frame)))))"

record message_decoder =
  md_failed :: bool
  md_frames :: frame_decoder
  md_kind :: message_kind
  md_max :: js_num

definition new_message_decoder :: "message_kind \<Rightarrow> js_num option \<Rightarrow> frame_error + message_decoder" where
  "new_message_decoder kind maxFrameLength =
     rbind (new_frame_decoder maxFrameLength) (\<lambda>frames.
     Inr \<lparr> md_failed = False, md_frames = frames, md_kind = kind,
           md_max = option_or maxFrameLength DEFAULT_MAX_FRAME_LENGTH \<rparr>)"

text \<open>Decoding and validating one frame, and all frames of a push in order.\<close>

definition decodeMessage :: "(cbor \<Rightarrow> bool) \<Rightarrow> message_decoder \<Rightarrow> byte list \<Rightarrow> protocol_error + cbor" where
  "decodeMessage checkTree d frame =
     rbind (map_error (\<lambda>e. InvalidFrame (md_kind d) (Inl e))
              (decodeCbor frame (no_options\<lparr> opt_maxByteLength := Some (md_max d) \<rparr>)))
       (parseTree (md_kind d) checkTree)"

fun decodeMessages :: "(cbor \<Rightarrow> bool) \<Rightarrow> message_decoder \<Rightarrow> byte list list \<Rightarrow> protocol_error + cbor list" where
  "decodeMessages checkTree d [] = Inr []"
| "decodeMessages checkTree d (frame # frames) =
     rbind (decodeMessage checkTree d frame) (\<lambda>message.
     rbind (decodeMessages checkTree d frames) (\<lambda>messages. Inr (message # messages)))"

definition md_push :: "(cbor \<Rightarrow> bool) \<Rightarrow> message_decoder \<Rightarrow> byte list
    \<Rightarrow> (message_decoder \<times> (protocol_error + cbor list)) option" where
  "md_push checkTree d chunk =
     (if md_failed d then Some (d, Inl (DecoderFailed (md_kind d)))
      else map_option (\<lambda>(frames, r).
        let d1 = d\<lparr> md_frames := frames \<rparr>;
            result = rbind (map_error (\<lambda>e. InvalidFrame (md_kind d) (Inr e)) r) (decodeMessages checkTree d1)
        in (d1\<lparr> md_failed := (case result of Inl e \<Rightarrow> True | Inr ms \<Rightarrow> md_failed d1) \<rparr>, result))
        (fd_push (md_frames d) chunk))"

definition md_end :: "message_decoder \<Rightarrow> message_decoder \<times> (protocol_error + unit)" where
  "md_end d =
     (if md_failed d then (d, Inl (DecoderFailed (md_kind d)))
      else let (frames, r) = fd_end (md_frames d); d1 = d\<lparr> md_frames := frames \<rparr> in
           (case r of
              Inl e \<Rightarrow> (d1\<lparr> md_failed := True \<rparr>, Inl (InvalidFraming (md_kind d) e))
            | Inr u \<Rightarrow> (d1, Inr ())))"

definition PROTOCOL_VERSION :: int where "PROTOCOL_VERSION = 1"

definition isSupportedProtocolVersion :: "js_num \<Rightarrow> bool" where
  "isSupportedProtocolVersion version = (js_isInteger version \<and> js_int version = PROTOCOL_VERSION)"

section \<open>A message decoder is a stream decoder\<close>

definition split_messages :: "(cbor \<Rightarrow> bool) \<Rightarrow> message_decoder \<Rightarrow> byte list
    \<Rightarrow> protocol_error + cbor list \<times> byte list" where
  "split_messages checkTree d bs =
     rbind (map_error (\<lambda>e. InvalidFrame (md_kind d) (Inr e)) (split_frames (fd_max (md_frames d)) bs)) (\<lambda>(fs, rest).
     rbind (decodeMessages checkTree d fs) (\<lambda>ms. Inr (ms, rest)))"

definition md_ready :: "message_decoder \<Rightarrow> bool" where
  "md_ready d = (\<not> md_failed d \<and> fd_ready (md_frames d))"

lemma map_error_simps [simp]:
  "map_error f (Inl e) = Inl (f e)"
  "map_error f (Inr x) = Inr x"
  "map_error f m = Inr x \<longleftrightarrow> m = Inr x"
  "map_error f m = Inl e' \<longleftrightarrow> (\<exists>e. m = Inl e \<and> e' = f e)"
  by (cases m; auto simp: map_error_def)+

lemma decodeMessages_append:
  "decodeMessages ck d (xs @ ys) =
   rbind (decodeMessages ck d xs) (\<lambda>as. rbind (decodeMessages ck d ys) (\<lambda>bs. Inr (as @ bs)))"
  by (induction xs) (auto simp: rbind_def split: sum.splits)

lemma decodeMessages_cong:
  "md_kind d' = md_kind d \<Longrightarrow> md_max d' = md_max d \<Longrightarrow> decodeMessages ck d' = decodeMessages ck d"
proof
  fix fs
  assume "md_kind d' = md_kind d" "md_max d' = md_max d"
  then show "decodeMessages ck d' fs = decodeMessages ck d fs"
    by (induction fs) (simp_all add: decodeMessage_def)
qed

lemma md_push_ready:
  assumes "md_ready d"
  shows "case split_messages ck d (fd_pending (md_frames d) @ c) of
      Inl e \<Rightarrow> \<exists>d'. md_push ck d c = Some (d', Inl e) \<and> md_failed d'
    | Inr (ms, rest) \<Rightarrow> \<exists>d'. md_push ck d c = Some (d', Inr ms) \<and> md_ready d' \<and>
        fd_pending (md_frames d') = rest \<and> split_messages ck d' = split_messages ck d"
proof -
  let ?stream = "fd_pending (md_frames d) @ c"
  have r: "\<not> md_failed d" "fd_ready (md_frames d)" using assms by (simp_all add: md_ready_def)
  note push = fd_push_ok [OF r(2), of c, unfolded loop_ok_def]
  show ?thesis
  proof (cases "split_frames (fd_max (md_frames d)) ?stream")
    case (Inl e)
    with push obtain fd' where "fd_push (md_frames d) c = Some (fd', Inl e)" by auto
    with Inl r show ?thesis by (simp add: split_messages_def md_push_def)
  next
    case (Inr p)
    obtain fs rest where p: "p = (fs, rest)" by (cases p)
    from push Inr p obtain fd' where fd': "fd_push (md_frames d) c = Some (fd', Inr fs)" "fd_ready fd'"
      "fd_pending fd' = rest" "fd_max fd' = fd_max (md_frames d)" by auto
    define d' where "d' = d\<lparr> md_frames := fd' \<rparr>"
    have ms: "decodeMessages ck d' = decodeMessages ck d" by (rule decodeMessages_cong) (simp_all add: d'_def)
    have sm: "split_messages ck d' = split_messages ck d"
      by (rule ext) (simp add: split_messages_def ms, simp add: d'_def fd')
    show ?thesis
    proof (cases "decodeMessages ck d fs")
      case err: (Inl e)
      with Inr p fd' r ms show ?thesis by (simp add: split_messages_def md_push_def Let_def d'_def)
    next
      case ok: (Inr xs)
      have "d\<lparr> md_frames := fd', md_failed := md_failed d \<rparr> = d'" by (simp add: d'_def)
      with ok fd'(1) r(1) ms have "md_push ck d c = Some (d', Inr xs)" by (simp add: md_push_def Let_def d'_def)
      moreover have "md_ready d'" "fd_pending (md_frames d') = rest" using fd' r by (simp_all add: d'_def md_ready_def)
      ultimately show ?thesis using ok Inr p sm by (auto simp: split_messages_def [of ck d ?stream])
    qed
  qed
qed

interpretation messages: stream_decoder "md_push ck" "\<lambda>d. fd_pending (md_frames d)" md_ready "split_messages ck"
  for ck
proof
  fix d c ms rest
  assume "md_ready d" "split_messages ck d (fd_pending (md_frames d) @ c) = Inr (ms, rest)"
  with md_push_ready [of d ck c] show "\<exists>d'. md_push ck d c = Some (d', Inr ms) \<and> md_ready d' \<and>
      fd_pending (md_frames d') = rest \<and> split_messages ck d' = split_messages ck d" by simp
next
  fix d c e
  assume "md_ready d" "split_messages ck d (fd_pending (md_frames d) @ c) = Inl e"
  with md_push_ready [of d ck c] show "\<exists>d'. md_push ck d c = Some (d', Inl e)" by auto
next
  fix d
  assume "md_ready d"
  then show "split_messages ck d (fd_pending (md_frames d)) = Inr ([], fd_pending (md_frames d))"
    by (simp add: split_messages_def split_ready_pending md_ready_def)
next
  fix d xs ms rest ys
  assume "split_messages ck d xs = Inr (ms, rest)"
  then obtain fs where fs: "split_frames (fd_max (md_frames d)) xs = Inr (fs, rest)" "decodeMessages ck d fs = Inr ms"
    by (auto simp: split_messages_def rbind_Inr_iff)
  show "split_messages ck d (xs @ ys) = map_sum id (\<lambda>(gs, r). (ms @ gs, r)) (split_messages ck d (rest @ ys))"
    unfolding split_messages_def split_frames_append [OF fs(1)]
    by (cases "split_frames (fd_max (md_frames d)) (rest @ ys)")
      (auto simp: decodeMessages_append fs(2) rbind_def split: sum.splits)
next
  fix d xs e ys
  assume err: "split_messages ck d xs = Inl e"
  show "\<exists>e'. split_messages ck d (xs @ ys) = Inl e'"
  proof (cases "split_frames (fd_max (md_frames d)) xs")
    case (Inl e1)
    then show ?thesis using split_frames_error [OF Inl] by (simp add: split_messages_def)
  next
    case (Inr p)
    obtain fs rest where p: "p = (fs, rest)" by (cases p)
    with Inr err have "decodeMessages ck d fs = Inl e" by (auto simp: split_messages_def rbind_Inl_iff)
    with Inr p show ?thesis
      by (cases "split_frames (fd_max (md_frames d)) (rest @ ys)")
        (auto simp: split_messages_def split_frames_append decodeMessages_append)
  qed
qed

section \<open>From encoder to decoder\<close>

lemma isProtocolValue_tree:
  "denotes h v t \<Longrightarrow> isProtocolValue h objects v opt anc \<Longrightarrow> isProtocolTree t"
proof (induction arbitrary: opt anc rule: denotes.induct)
  case (denotes_array a ts)
  have "\<forall>x \<in> set (o_elems (h a)). case x of None \<Rightarrow> True
      | Some slot \<Rightarrow> isProtocolValue h objects (slot_value slot) False (insert a anc)"
    using denotes_array.prems denotes_array.hyps by (subst (asm) isProtocolValue.simps) (simp split: if_splits)
  then have "list_all2 (\<lambda>x t. x \<noteq> None \<and> isProtocolTree t) (o_elems (h a)) ts"
    using denotes_array.IH by (auto simp: list_all2_conv_all_nth) (metis nth_mem option.simps(5))
  then show ?case using list_all2_right by fastforce
next
  case (denotes_map a es)
  have "\<forall>x \<in> set (o_props (h a)). isProtocolValue h objects (slot_value (snd x)) True (insert a anc)"
    using denotes_map.prems denotes_map.hyps by (subst (asm) isProtocolValue.simps) (simp split: if_splits)
  then have "\<forall>x \<in> set (defined_entries (h a)). isProtocolValue h objects (snd x) True (insert a anc)"
    by (auto simp: defined_entries_def)
  then have "list_all2 (\<lambda>x e. fst x = fst e \<and> isProtocolTree (snd e)) (defined_entries (h a)) es"
    using denotes_map.IH by (auto simp: list_all2_conv_all_nth) (metis nth_mem)
  then show ?case using list_all2_right by (fastforce simp: list_all_iff)
qed (simp_all add: isProtocolValue.simps)

text \<open>What the decoder relies on: dropping the \<^verbatim>\<open>undefined\<close> properties of a valid message keeps it valid.\<close>

definition checks_agree :: "(heap \<Rightarrow> js_val \<Rightarrow> bool) \<Rightarrow> (cbor \<Rightarrow> bool) \<Rightarrow> heap \<Rightarrow> bool" where
  "checks_agree checkValue checkTree h = (\<forall>v t. checkValue h v \<longrightarrow> denotes h v t \<longrightarrow> checkTree t)"

lemma new_message_decoder_ready:
  assumes "new_message_decoder kind m = Inr d"
  shows "md_ready d" "fd_pending (md_frames d) = []" "md_kind d = kind"
    "md_max d = option_or m DEFAULT_MAX_FRAME_LENGTH"
    "resolveMaxFrameLength m = Inr (fd_max (md_frames d))"
proof -
  from assms obtain fd where fd: "new_frame_decoder m = Inr fd"
    and d: "d = \<lparr> md_failed = False, md_frames = fd, md_kind = kind, md_max = option_or m DEFAULT_MAX_FRAME_LENGTH \<rparr>"
    by (auto simp: new_message_decoder_def rbind_Inr_iff)
  note new_frame_decoder_ready [OF fd]
  then show "md_ready d" "fd_pending (md_frames d) = []" "md_kind d = kind"
    "md_max d = option_or m DEFAULT_MAX_FRAME_LENGTH" "resolveMaxFrameLength m = Inr (fd_max (md_frames d))"
    by (simp_all add: d md_ready_def)
qed

lemma encodeProtocolMessage_decodes:
  assumes "encodeProtocolMessage kind cv h objects v m = Inr frame" and "heap_ok h" and "checks_agree cv ct h"
    and "new_message_decoder kind m = Inr d"
  obtains t payload where "denotes h v t" "encodeFrame payload = Inr frame"
    "length payload \<le> fd_max (md_frames d)" "decodeMessage ct d payload = Inr t"
proof -
  from assms(1) obtain payload where p: "isProtocolValue h objects v False {}" "cv h v"
      "encodeCbor h v (frame_options m) = Inr payload" "encodeFrame payload = Inr frame"
    by (auto simp: encodeProtocolMessage_def parseMessage_def rbind_Inr_iff split: if_splits)
  from encodeCbor_Inr [OF p(3)] obtain opts t where
    t: "resolveOptions (frame_options m) = Inr opts" "denotes h v t" "within opts 0 t" "payload = enc t"
      "length payload \<le> maxByteLength opts" .
  note d = new_message_decoder_ready [OF assms(4)]
  have "maxByteLength opts = fd_max (md_frames d)"
    using t(1) d(5) by (auto simp: resolveOptions_def resolveLimit_def frame_options_def rbind_Inr_iff
        resolveMaxFrameLength_def no_options_def option_or_def Let_def split: if_splits)
  moreover have "decodeCbor payload (frame_options m) = Inr t"
    unfolding t(4) using t denotes_keys_ok [OF t(2) assms(2)] by (intro decodeCbor_enc) auto
  then have "decodeMessage ct d payload = Inr t"
    using isProtocolValue_tree [OF t(2) p(1)] p(2) t(2) assms(3) d(4)
    by (simp add: decodeMessage_def parseTree_def checks_agree_def frame_options_def)
  ultimately show ?thesis using that t p by metis
qed

lemma encoded_messages_split:
  assumes "list_all2 (\<lambda>v f. encodeProtocolMessage kind cv h objects v m = Inr f) vs fs"
    and "heap_ok h" and "checks_agree cv ct h" and "new_message_decoder kind m = Inr d"
  shows "\<exists>ts. list_all2 (denotes h) vs ts \<and> split_messages ct d (concat fs) = Inr (ts, [])"
proof -
  from assms(1) have "\<exists>ts ps. list_all2 (denotes h) vs ts \<and> list_all2 (\<lambda>p f. encodeFrame p = Inr f) ps fs \<and>
    list_all (\<lambda>p. length p \<le> fd_max (md_frames d)) ps \<and> decodeMessages ct d ps = Inr ts"
  proof (induction rule: list_all2_induct)
    case (Cons v vs f fs)
    from encodeProtocolMessage_decodes [OF Cons.hyps(1) assms(2-4)] obtain t p where
      "denotes h v t" "encodeFrame p = Inr f" "length p \<le> fd_max (md_frames d)" "decodeMessage ct d p = Inr t" .
    moreover from Cons.IH obtain ts ps where "list_all2 (denotes h) vs ts"
      "list_all2 (\<lambda>p f. encodeFrame p = Inr f) ps fs"
      "list_all (\<lambda>p. length p \<le> fd_max (md_frames d)) ps" "decodeMessages ct d ps = Inr ts" by blast
    ultimately show ?case by (intro exI [of _ "t # ts"] exI [of _ "p # ps"]) simp
  qed auto
  then obtain ts ps where ts: "list_all2 (denotes h) vs ts" "list_all2 (\<lambda>p f. encodeFrame p = Inr f) ps fs"
    "list_all (\<lambda>p. length p \<le> fd_max (md_frames d)) ps" "decodeMessages ct d ps = Inr ts" by blast
  with split_encoded [OF ts(2,3), of "[]"] show ?thesis by (auto simp: split_messages_def)
qed

lemma md_end_clean: "md_ready d \<Longrightarrow> fd_pending (md_frames d) = [] \<Longrightarrow> \<exists>d'. md_end d = (d', Inr ())"
  by (auto simp: md_end_def fd_end_def md_ready_def fd_ready_def fd_pending_def uint32_bytes_def split: option.splits)

section \<open>Messages end to end\<close>

text \<open>C23. Messages that one side encoded arrive at the other: however the transport cuts the bytes, the
decoder with the same limit yields the trees the messages stand for, in order, and may then end. The
schema checks of the two sides agree on what a message stands for.\<close>

theorem messages_round_trip:
  assumes "list_all2 (\<lambda>v f. encodeProtocolMessage kind cv h objects v m = Inr f) messages frames"
    and "heap_ok h" and "checks_agree cv ct h" and "new_message_decoder kind m = Inr d"
    and "concat chunks = concat frames"
  shows "\<exists>d' trees. list_all2 (denotes h) messages trees \<and> feed (md_push ct) d chunks = Some (d', Inr trees) \<and>
    (\<exists>d''. md_end d' = (d'', Inr ()))"
proof -
  note new = new_message_decoder_ready [OF assms(4)]
  obtain ts where ts: "list_all2 (denotes h) messages ts" "split_messages ct d (concat frames) = Inr (ts, [])"
    using encoded_messages_split [OF assms(1-4)] by blast
  obtain d' where d': "feed (md_push ct) d chunks = Some (d', Inr ts)" "md_ready d'" "fd_pending (md_frames d') = []"
    using messages.feed_split [OF new(1), of ct chunks ts "[]"] ts(2) assms(5) new(2) by auto
  with ts(1) md_end_clean [OF d'(2,3)] show ?thesis by blast
qed

definition sample_value :: js_val where
  "sample_value = VRef 0"

definition sample_check :: "heap \<Rightarrow> js_val \<Rightarrow> bool" where
  "sample_check h v = (v = VRef 0)"

definition sample_tree_check :: "cbor \<Rightarrow> bool" where
  "sample_tree_check t = (\<exists>es. t = CMap es)"

lemma sample_checks_agree: "checks_agree sample_check sample_tree_check sample_heap"
  by (auto simp: checks_agree_def sample_check_def sample_tree_check_def sample_heap_def elim: denotes_refE)

lemma sample_protocol_value: "isProtocolValue sample_heap 2 (VRef 0) False {}"
  by (simp add: isProtocolValue.simps sample_heap_def)

lemma sample_message_decoder: "\<exists>d. new_message_decoder ClientKind (Some (NInt 100)) = Inr d"
  by (simp add: new_message_decoder_def sample_decoder_new)

lemma sample_message_encoded:
  "\<exists>f. encodeProtocolMessage ClientKind sample_check sample_heap 2 (VRef 0) (Some (NInt 100)) = Inr f"
proof -
  have "resolveOptions (frame_options (Some (NInt 100)))
      = Inr \<lparr> maxByteLength = 100, maxContainerLength = 1000000, maxDepth = 64 \<rparr>"
    by (simp add: options_eval frame_options_def)
  from encodeCbor_complete [OF this sample_denotes sample_within]
  have "encodeCbor sample_heap (VRef 0) (frame_options (Some (NInt 100))) = Inr (enc sample_tree)"
    by (simp add: sample_tree_bytes)
  then show ?thesis
    by (simp add: encodeProtocolMessage_def parseMessage_def sample_protocol_value sample_check_def encodeFrame_def
        sample_tree_bytes MAX_UINT32_def assertCompleteFrame_def FRAME_HEADER_LENGTH_def resolveMaxFrameLength_def
        option_or_def js_isSafeInteger_def MAX_SAFE_INTEGER_def frame_length_uint32)
qed

theorem messages_round_trip_witness:
  "\<exists>f d d'. encodeProtocolMessage ClientKind sample_check sample_heap 2 (VRef 0) (Some (NInt 100)) = Inr f \<and>
     new_message_decoder ClientKind (Some (NInt 100)) = Inr d \<and>
     feed (md_push sample_tree_check) d (map (\<lambda>b. [b]) f) = Some (d', Inr [sample_tree])"
proof -
  obtain f where f: "encodeProtocolMessage ClientKind sample_check sample_heap 2 (VRef 0) (Some (NInt 100)) = Inr f"
    using sample_message_encoded by blast
  obtain d where d: "new_message_decoder ClientKind (Some (NInt 100)) = Inr d" using sample_message_decoder by blast
  have "concat (map (\<lambda>b. [b]) f) = concat [f]" by simp
  from messages_round_trip [OF _ sample_heap_ok sample_checks_agree d this, of 2 "[VRef 0]"] f
  obtain d' trees where "list_all2 (denotes sample_heap) [VRef 0] trees"
    "feed (md_push sample_tree_check) d (map (\<lambda>b. [b]) f) = Some (d', Inr trees)" by auto
  moreover from this(1) have "trees = [sample_tree]"
    using denotes_unique [OF sample_denotes] by (auto simp: list_all2_Cons1)
  ultimately show ?thesis using f d by blast
qed

text \<open>A message decoder that reported an error never delivers another message: every later push and the end
of the stream fail, and the decoder stays failed.\<close>

theorem failed_decoder_stays_failed:
  assumes "md_push ct d chunk = Some (d', Inl e)"
  shows "\<exists>e'. md_push ct d' later = Some (d', Inl e') \<and> md_end d' = (d', Inl e')"
proof -
  from assms have "md_failed d'"
    by (auto simp: md_push_def Let_def split: if_splits)
  then show ?thesis by (auto simp: md_push_def md_end_def)
qed

definition sample_messages :: message_decoder where
  "sample_messages = \<lparr> md_failed = False, md_frames = sample_decoder, md_kind = ServerKind, md_max = NInt 100 \<rparr>"

theorem failed_decoder_stays_failed_witness:
  "\<exists>d' e e'. md_push sample_tree_check sample_messages [0, 0, 0, 101] = Some (d', Inl e) \<and>
     md_push sample_tree_check d' [0, 0, 0, 0] = Some (d', Inl e')"
proof -
  have ready: "md_ready sample_messages" and pend: "fd_pending (md_frames sample_messages) = []"
    using new_frame_decoder_ready [OF sample_decoder_new] by (simp_all add: sample_messages_def md_ready_def)
  have "split_frames 100 [0, 0, 0, 101] = Inl (FrameTooLong 101)"
    by (subst split_frames.simps) (simp add: frame_length_def)
  then have "\<exists>d' e. md_push sample_tree_check sample_messages [0, 0, 0, 101] = Some (d', Inl e)"
    using md_push_ready [OF ready, of sample_tree_check "[0, 0, 0, 101]"] pend
    by (auto simp: split_messages_def sample_messages_def sample_decoder_def)
  then show ?thesis using failed_decoder_stays_failed by blast
qed

end
