(* ===== verification/Json_Text.thy ===== *)
theory Json_Text
  imports Js_Values "HOL-Library.Sublist"
begin

text \<open>
  \<^verbatim>\<open>JSON.stringify\<close> and \<^verbatim>\<open>JSON.parse\<close> on JSON values, as the file backend uses them. Texts are HOL
  strings, so a string holds the units below 256. Integers up to \<^verbatim>\<open>Number.MAX_SAFE_INTEGER\<close> are
  written in decimal; how other numbers are written and read is the argument \<open>number_format\<close>.
  The parser is a recursive descent with fuel; \<open>parse_fuel\<close> is shown to be enough.
\<close>

section \<open>Numbers\<close>

record number_format =
  nf_show :: "js_num \<Rightarrow> string"
  nf_read :: "string \<Rightarrow> js_num option"

definition digit_char :: "nat \<Rightarrow> char" where
  "digit_char d = char_of (48 + d)"

definition digit_value :: "char \<Rightarrow> nat" where
  "digit_value c = of_char c - 48"

definition is_digit :: "char \<Rightarrow> bool" where
  "is_digit c \<longleftrightarrow> 48 \<le> (of_char c :: nat) \<and> (of_char c :: nat) \<le> 57"

fun nat_text :: "nat \<Rightarrow> string" where
  "nat_text n = (if n < 10 then [digit_char n] else nat_text (n div 10) @ [digit_char (n mod 10)])"

declare nat_text.simps [simp del]

definition int_text :: "int \<Rightarrow> string" where
  "int_text i = (if i < 0 then ''-'' @ nat_text (nat (- i)) else nat_text (nat i))"

definition read_nat :: "string \<Rightarrow> nat option" where
  "read_nat s =
     (if s \<noteq> [] \<and> list_all is_digit s \<and> (hd s = CHR ''0'' \<longrightarrow> length s = 1)
      then Some (foldl (\<lambda>a c. 10 * a + digit_value c) 0 s) else None)"

definition read_int :: "string \<Rightarrow> int option" where
  "read_int s =
     (case s of
        [] \<Rightarrow> None
      | c # t \<Rightarrow>
          if c = CHR ''-''
          then (case read_nat t of None \<Rightarrow> None | Some n \<Rightarrow> if n = 0 then None else Some (- int n))
          else map_option int (read_nat s))"

definition number_text :: "number_format \<Rightarrow> js_num \<Rightarrow> string" where
  "number_text nf n =
     (if js_is_neg_zero n then ''0''
      else if \<not> js_isFinite n then ''null''
      else case n of
             NInt i \<Rightarrow> if \<bar>i\<bar> \<le> MAX_SAFE_INTEGER then int_text i else nf_show nf n
           | NFloat w \<Rightarrow> nf_show nf n)"

definition number_value :: "number_format \<Rightarrow> string \<Rightarrow> js_num option" where
  "number_value nf t =
     (case read_int t of
        Some i \<Rightarrow> if \<bar>i\<bar> \<le> MAX_SAFE_INTEGER then Some (NInt i) else nf_read nf t
      | None \<Rightarrow> nf_read nf t)"

definition number_char :: "char \<Rightarrow> bool" where
  "number_char c \<longleftrightarrow> is_digit c \<or> c \<in> set ''-+.eE''"

section \<open>Printing\<close>

definition hex_digit :: "nat \<Rightarrow> char" where
  "hex_digit d = (if d < 10 then char_of (48 + d) else char_of (87 + d))"

definition QUOTE :: char where "QUOTE = CHR 0x22"
definition BACKSLASH :: char where "BACKSLASH = CHR 0x5C"

definition escape_char :: "char \<Rightarrow> string" where
  "escape_char c =
     (if c = QUOTE \<or> c = BACKSLASH then [BACKSLASH, c]
      else if c = CHR 0x08 then [BACKSLASH, CHR ''b'']
      else if c = CHR 0x09 then [BACKSLASH, CHR ''t'']
      else if c = CHR 0x0A then [BACKSLASH, CHR ''n'']
      else if c = CHR 0x0C then [BACKSLASH, CHR ''f'']
      else if c = CHR 0x0D then [BACKSLASH, CHR ''r'']
      else if (of_char c :: nat) < 32
      then [BACKSLASH, CHR ''u'', CHR ''0'', CHR ''0'', hex_digit (of_char c div 16), hex_digit (of_char c mod 16)]
      else [c])"

definition string_text :: "string \<Rightarrow> string" where
  "string_text s = QUOTE # concat (map escape_char s) @ [QUOTE]"

fun commas :: "string list \<Rightarrow> string" where
  "commas [] = []"
| "commas [x] = x"
| "commas (x # y # xs) = x @ '','' @ commas (y # xs)"

fun json_stringify :: "number_format \<Rightarrow> json \<Rightarrow> string" where
  "json_stringify nf JsonNull = ''null''"
| "json_stringify nf (JsonBool b) = (if b then ''true'' else ''false'')"
| "json_stringify nf (JsonNumber n) = number_text nf n"
| "json_stringify nf (JsonString s) = string_text s"
| "json_stringify nf (JsonArray vs) = ''['' @ commas (map (json_stringify nf) vs) @ '']''"
| "json_stringify nf (JsonObject kvs) =
     ''{'' @ commas (map (\<lambda>kv. string_text (fst kv) @ '':'' @ json_stringify nf (snd kv)) kvs) @ ''}''"

section \<open>Parsing\<close>

definition json_space :: "char \<Rightarrow> bool" where
  "json_space c \<longleftrightarrow> c = CHR 0x20 \<or> c = CHR 0x09 \<or> c = CHR 0x0A \<or> c = CHR 0x0D"

abbreviation skip_space :: "string \<Rightarrow> string" where
  "skip_space s \<equiv> dropWhile json_space s"

definition hex_value :: "char \<Rightarrow> nat option" where
  "hex_value c =
     (let n = of_char c in
      if 48 \<le> n \<and> n \<le> 57 then Some (n - 48)
      else if 97 \<le> n \<and> n \<le> 102 then Some (n - 87)
      else if 65 \<le> n \<and> n \<le> 70 then Some (n - 55) else None)"

definition unescape :: "char \<Rightarrow> char option" where
  "unescape c =
     (if c = QUOTE \<or> c = BACKSLASH \<or> c = CHR ''/'' then Some c
      else if c = CHR ''b'' then Some (CHR 0x08)
      else if c = CHR ''t'' then Some (CHR 0x09)
      else if c = CHR ''n'' then Some (CHR 0x0A)
      else if c = CHR ''f'' then Some (CHR 0x0C)
      else if c = CHR ''r'' then Some (CHR 0x0D) else None)"

definition unicode_escape :: "char \<Rightarrow> char \<Rightarrow> char \<Rightarrow> char \<Rightarrow> char option" where
  "unicode_escape a b c d =
     (case (hex_value a, hex_value b, hex_value c, hex_value d) of
        (Some 0, Some 0, Some h, Some l) \<Rightarrow> Some (char_of (16 * h + l))
      | _ \<Rightarrow> None)"

text \<open>The rest of a string literal, after its opening quote.\<close>

fun parse_string :: "string \<Rightarrow> (string \<times> string) option" where
  "parse_string [] = None"
| "parse_string (c # r) =
     (if c = QUOTE then Some ([], r)
      else if c = BACKSLASH then
        (case r of
           [] \<Rightarrow> None
         | e # r1 \<Rightarrow>
             if e = CHR ''u'' then
               (case r1 of
                  h1 # h2 # h3 # h4 # r2 \<Rightarrow>
                    (case (unicode_escape h1 h2 h3 h4, parse_string r2) of
                       (Some x, Some (t, r3)) \<Rightarrow> Some (x # t, r3)
                     | _ \<Rightarrow> None)
                | _ \<Rightarrow> None)
             else (case (unescape e, parse_string r1) of
                     (Some x, Some (t, r3)) \<Rightarrow> Some (x # t, r3)
                   | _ \<Rightarrow> None))
      else if (of_char c :: nat) < 32 then None
      else map_option (\<lambda>(t, r3). (c # t, r3)) (parse_string r))"

definition parse_literal :: "string \<Rightarrow> (json \<times> string) option" where
  "parse_literal s =
     (if prefix ''null'' s then Some (JsonNull, drop 4 s)
      else if prefix ''true'' s then Some (JsonBool True, drop 4 s)
      else if prefix ''false'' s then Some (JsonBool False, drop 5 s)
      else None)"

text \<open>A repeated key keeps its place and takes the last value.\<close>

fun parse_value :: "number_format \<Rightarrow> nat \<Rightarrow> string \<Rightarrow> (json \<times> string) option"
and parse_elements :: "number_format \<Rightarrow> nat \<Rightarrow> json list \<Rightarrow> string \<Rightarrow> (json \<times> string) option"
and parse_members :: "number_format \<Rightarrow> nat \<Rightarrow> (string \<times> json) list \<Rightarrow> string \<Rightarrow> (json \<times> string) option" where
  "parse_value nf 0 s = None"
| "parse_value nf (Suc n) s =
     (case skip_space s of
        [] \<Rightarrow> None
      | c # r \<Rightarrow>
          if c = QUOTE then map_option (\<lambda>(t, r'). (JsonString t, r')) (parse_string r)
          else if c = CHR ''['' then
            (case skip_space r of
               [] \<Rightarrow> None
             | d # r' \<Rightarrow> if d = CHR '']'' then Some (JsonArray [], r') else parse_elements nf n [] r)
          else if c = CHR ''{'' then
            (case skip_space r of
               [] \<Rightarrow> None
             | d # r' \<Rightarrow> if d = CHR ''}'' then Some (JsonObject [], r') else parse_members nf n [] r)
          else if number_char c then
            map_option (\<lambda>v. (JsonNumber v, dropWhile number_char (c # r)))
              (number_value nf (takeWhile number_char (c # r)))
          else parse_literal (c # r))"
| "parse_elements nf 0 acc s = None"
| "parse_elements nf (Suc n) acc s =
     (case parse_value nf n s of
        None \<Rightarrow> None
      | Some (v, r) \<Rightarrow>
          (case skip_space r of
             [] \<Rightarrow> None
           | d # r' \<Rightarrow>
               if d = CHR '','' then parse_elements nf n (acc @ [v]) r'
               else if d = CHR '']'' then Some (JsonArray (acc @ [v]), r') else None))"
| "parse_members nf 0 acc s = None"
| "parse_members nf (Suc n) acc s =
     (case skip_space s of
        [] \<Rightarrow> None
      | q # r0 \<Rightarrow>
          if q \<noteq> QUOTE then None
          else (case parse_string r0 of
                  None \<Rightarrow> None
                | Some (k, r1) \<Rightarrow>
                    (case skip_space r1 of
                       [] \<Rightarrow> None
                     | e # r2 \<Rightarrow>
                         if e \<noteq> CHR '':'' then None
                         else (case parse_value nf n r2 of
                                 None \<Rightarrow> None
                               | Some (v, r) \<Rightarrow>
                                   (case skip_space r of
                                      [] \<Rightarrow> None
                                    | d # r' \<Rightarrow>
                                        if d = CHR '','' then parse_members nf n (map_set k v acc) r'
                                        else if d = CHR ''}'' then Some (JsonObject (map_set k v acc), r')
                                        else None)))))"

definition parse_fuel :: "string \<Rightarrow> nat" where
  "parse_fuel s = 2 * length s + 1"

definition json_parse :: "number_format \<Rightarrow> string \<Rightarrow> json option" where
  "json_parse nf s =
     (case parse_value nf (parse_fuel s) s of
        Some (v, r) \<Rightarrow> if skip_space r = [] then Some v else None
      | None \<Rightarrow> None)"

section \<open>Numbers are read back\<close>

lemma digit_char: "d < 10 \<Longrightarrow> is_digit (digit_char d) \<and> digit_value (digit_char d) = d \<and> (digit_char d = CHR ''0'' \<longleftrightarrow> d = 0)"
proof -
  assume d: "d < 10"
  then have "(of_char (digit_char d) :: nat) = 48 + d" by (simp add: digit_char_def)
  moreover have "digit_char d = CHR ''0'' \<longleftrightarrow> (of_char (digit_char d) :: nat) = of_char CHR ''0''"
    by (metis char_of_char)
  ultimately show ?thesis using d by (simp add: is_digit_def digit_value_def)
qed

lemma nat_text_digits: "list_all is_digit (nat_text n)"
  by (induction n rule: nat_text.induct) (subst nat_text.simps, auto simp: digit_char)

lemma nat_text_value: "foldl (\<lambda>a c. 10 * a + digit_value c) 0 (nat_text n) = n"
  by (induction n rule: nat_text.induct) (subst nat_text.simps, auto simp: digit_char)

lemma nat_text_nonempty: "nat_text n \<noteq> []"
  by (subst nat_text.simps) simp

lemma nat_text_head: "hd (nat_text n) = CHR ''0'' \<Longrightarrow> n = 0"
proof (induction n rule: nat_text.induct)
  case (1 n)
  show ?case
  proof (cases "n < 10")
    case True
    with 1 show ?thesis by (simp add: nat_text.simps [of n] digit_char)
  next
    case False
    with 1 have "n div 10 = 0" by (simp add: nat_text.simps [of n] nat_text_nonempty)
    with False show ?thesis by simp
  qed
qed

lemma read_nat_text: "read_nat (nat_text n) = Some n"
  using nat_text_digits nat_text_value nat_text_nonempty nat_text_head [of n]
  by (auto simp: read_nat_def nat_text.simps [of 0])

lemma nat_text_no_minus: "hd (nat_text n) \<noteq> CHR ''-''"
  using nat_text_digits [of n] nat_text_nonempty [of n] by (cases "nat_text n") (auto simp: is_digit_def)

lemma read_int_text: "read_int (int_text i) = Some i"
proof (cases "i < 0")
  case True
  then show ?thesis by (simp add: int_text_def read_int_def read_nat_text)
next
  case False
  then show ?thesis
    using nat_text_no_minus [of "nat i"] nat_text_nonempty [of "nat i"] read_nat_text [of "nat i"]
    by (cases "nat_text (nat i)") (auto simp: int_text_def read_int_def)
qed

lemma int_text_chars: "list_all number_char (int_text i)" "int_text i \<noteq> []"
  using nat_text_digits [of "nat i"] nat_text_digits [of "nat (- i)"] nat_text_nonempty
  by (auto simp: int_text_def number_char_def list_all_iff)

text \<open>
  What JSON requires of the format of the other numbers: a numeral that is read back. The numbers
  in question are finite, in canonical form and not \<open>-0\<close>, which JSON cannot express.
\<close>

definition json_number :: "js_num \<Rightarrow> bool" where
  "json_number n \<longleftrightarrow> js_isFinite n \<and> \<not> js_is_neg_zero n \<and> num_canon n = n"

definition format_ok :: "number_format \<Rightarrow> bool" where
  "format_ok nf \<longleftrightarrow> (\<forall>n. json_number n \<and> \<not> (js_isInteger n \<and> \<bar>js_int n\<bar> \<le> MAX_SAFE_INTEGER) \<longrightarrow>
     nf_show nf n \<noteq> [] \<and> list_all number_char (nf_show nf n) \<and> number_value nf (nf_show nf n) = Some n)"

lemma number_round_trip:
  assumes "format_ok nf" and "json_number n"
  shows "number_text nf n \<noteq> [] \<and> list_all number_char (number_text nf n) \<and> number_value nf (number_text nf n) = Some n"
proof (cases n)
  case (NInt i)
  show ?thesis
  proof (cases "\<bar>i\<bar> \<le> MAX_SAFE_INTEGER")
    case True
    with NInt show ?thesis
      by (simp add: number_text_def number_value_def js_is_neg_zero_def int_text_chars read_int_text)
  next
    case False
    with NInt assms have "nf_show nf n \<noteq> [] \<and> list_all number_char (nf_show nf n) \<and> number_value nf (nf_show nf n) = Some n"
      by (auto simp: format_ok_def)
    with NInt False show ?thesis by (simp add: number_text_def js_is_neg_zero_def)
  qed
next
  case (NFloat w)
  with assms(2) have "\<not> js_isInteger n"
    using num_canon_integral [of n] by (auto simp: json_number_def)
  with assms have "nf_show nf n \<noteq> [] \<and> list_all number_char (nf_show nf n) \<and> number_value nf (nf_show nf n) = Some n"
    by (auto simp: format_ok_def)
  with NFloat assms(2) show ?thesis by (simp add: number_text_def json_number_def)
qed

section \<open>Strings are read back\<close>

lemma hex_value_digit: "d < 16 \<Longrightarrow> hex_value (hex_digit d) = Some d"
  by (auto simp: hex_value_def hex_digit_def Let_def)

lemma unicode_escape_code:
  assumes "(of_char c :: nat) < 32"
  shows "unicode_escape (CHR ''0'') (CHR ''0'') (hex_digit (of_char c div 16)) (hex_digit (of_char c mod 16)) = Some c"
proof -
  have "hex_value (hex_digit (of_char c div 16)) = Some (of_char c div 16)" using assms by (intro hex_value_digit) simp
  moreover have "hex_value (hex_digit (of_char c mod 16)) = Some (of_char c mod 16)" by (intro hex_value_digit) simp
  moreover have "hex_value CHR ''0'' = Some 0" by (simp add: hex_value_def)
  ultimately show ?thesis by (simp add: unicode_escape_def)
qed

lemma parse_escaped:
  "parse_string (escape_char c @ t) = map_option (\<lambda>(u, r). (c # u, r)) (parse_string t)"
proof (cases "(of_char c :: nat) < 32 \<and> c \<notin> {CHR 0x08, CHR 0x09, CHR 0x0A, CHR 0x0C, CHR 0x0D, QUOTE, BACKSLASH}")
  case True
  then have "escape_char c = [BACKSLASH, CHR ''u'', CHR ''0'', CHR ''0'', hex_digit (of_char c div 16), hex_digit (of_char c mod 16)]"
    by (simp add: escape_char_def)
  with True show ?thesis
    by (simp add: unicode_escape_code QUOTE_def BACKSLASH_def split: option.splits)
next
  case False
  then show ?thesis
    by (auto simp: escape_char_def unescape_def QUOTE_def BACKSLASH_def split: option.splits)
qed

lemma parse_string_text: "parse_string (concat (map escape_char s) @ QUOTE # r) = Some (s, r)"
  by (induction s) (simp_all add: parse_escaped)


section \<open>Values are read back\<close>

text \<open>The values JSON can express: such numbers, and objects without a repeated key.\<close>

fun json_ok :: "json \<Rightarrow> bool" where
  "json_ok (JsonNumber n) = json_number n"
| "json_ok (JsonArray vs) = list_all json_ok vs"
| "json_ok (JsonObject kvs) = (distinct (map fst kvs) \<and> list_all (\<lambda>kv. json_ok (snd kv)) kvs)"
| "json_ok _ = True"

definition ends_number :: "string \<Rightarrow> bool" where
  "ends_number r \<longleftrightarrow> r = [] \<or> \<not> number_char (hd r)"

lemma takeWhile_all: "list_all P xs \<Longrightarrow> r = [] \<or> \<not> P (hd r) \<Longrightarrow> takeWhile P (xs @ r) = xs \<and> dropWhile P (xs @ r) = r"
  by (induction xs) (auto simp: takeWhile_eq_Nil_iff dropWhile_eq_self_iff)

lemma number_char_plain:
  "number_char c \<Longrightarrow> \<not> json_space c \<and> c \<noteq> QUOTE \<and> c \<noteq> BACKSLASH \<and> c \<notin> set ''[]{},:''"
  by (auto simp: number_char_def is_digit_def json_space_def QUOTE_def BACKSLASH_def)

lemma text_start:
  assumes "format_ok nf" and "json_ok v"
  shows "json_stringify nf v \<noteq> [] \<and> \<not> json_space (hd (json_stringify nf v)) \<and> hd (json_stringify nf v) \<noteq> CHR '']''"
proof (cases v)
  case (JsonNumber n)
  with number_round_trip [OF assms(1), of n] assms(2) obtain c t where "number_text nf n = c # t" "number_char c"
    by (cases "number_text nf n") auto
  with JsonNumber number_char_plain [of c] show ?thesis by auto
qed (auto simp: string_text_def json_space_def QUOTE_def)

lemma parse_literal_app: "parse_literal (''null'' @ r) = Some (JsonNull, r)"
  "parse_literal (''true'' @ r) = Some (JsonBool True, r)" "parse_literal (''false'' @ r) = Some (JsonBool False, r)"
  by (simp_all add: parse_literal_def)

lemma skip_none [simp]: "\<not> json_space c \<Longrightarrow> skip_space (c # r) = c # r"
  by simp

lemma parse_number_text:
  assumes "format_ok nf" and "json_number n" and "ends_number r"
  shows "parse_value nf (Suc m) (number_text nf n @ r) = Some (JsonNumber n, r)"
proof -
  note num = number_round_trip [OF assms(1,2)]
  then obtain c t where ct: "number_text nf n = c # t" "number_char c" by (cases "number_text nf n") auto
  from takeWhile_all [of number_char "number_text nf n" r] num assms(3)
  have "takeWhile number_char (c # t @ r) = c # t" "dropWhile number_char (c # t @ r) = r"
    by (auto simp: ends_number_def ct)
  with ct num number_char_plain [OF ct(2)] show ?thesis by simp
qed

lemma plain_chars:
  "\<not> json_space (CHR '','')" "\<not> json_space (CHR '']'')" "\<not> json_space (CHR ''}'')" "\<not> json_space (CHR '':'')"
  "\<not> json_space QUOTE" "\<not> json_space (CHR ''['')" "\<not> json_space (CHR ''{'')" "QUOTE \<noteq> CHR ''}''"
  "ends_number (CHR '','' # r)" "ends_number (CHR '']'' # r)" "ends_number (CHR ''}'' # r)"
  by (simp_all add: json_space_def QUOTE_def ends_number_def number_char_def is_digit_def)

lemma parse_elements_text:
  assumes "\<And>v r m. v \<in> set vs \<Longrightarrow> ends_number r \<Longrightarrow> 2 * length (json_stringify nf v) < m \<Longrightarrow>
      parse_value nf m (json_stringify nf v @ r) = Some (v, r)"
    and "vs \<noteq> []" and "2 * length (commas (map (json_stringify nf) vs)) + 2 \<le> m"
  shows "parse_elements nf m acc (commas (map (json_stringify nf) vs) @ CHR '']'' # r) = Some (JsonArray (acc @ vs), r)"
  using assms
proof (induction vs arbitrary: acc m)
  case (Cons v vs)
  then obtain k where m: "m = Suc k" by (cases m) auto
  show ?case
  proof (cases vs)
    case Nil
    with Cons.prems m have "parse_value nf k (json_stringify nf v @ CHR '']'' # r) = Some (v, CHR '']'' # r)"
      by (simp add: plain_chars)
    with Nil m show ?thesis by (simp add: plain_chars)
  next
    case (Cons w ws)
    let ?rest = "CHR '','' # commas (map (json_stringify nf) vs) @ CHR '']'' # r"
    have "parse_value nf k (json_stringify nf v @ ?rest) = Some (v, ?rest)"
      using Cons.prems Cons m by (intro Cons.prems(1)) (auto simp: plain_chars)
    moreover have "parse_elements nf k (acc @ [v]) (commas (map (json_stringify nf) vs) @ CHR '']'' # r)
        = Some (JsonArray ((acc @ [v]) @ vs), r)"
      using Cons.prems Cons m by (intro Cons.IH) auto
    ultimately show ?thesis using m Cons by (simp add: plain_chars)
  qed
qed simp

abbreviation member_text :: "number_format \<Rightarrow> string \<times> json \<Rightarrow> string" where
  "member_text nf \<equiv> \<lambda>kv. string_text (fst kv) @ '':'' @ json_stringify nf (snd kv)"

lemma parse_members_text:
  assumes "\<And>kv r m. kv \<in> set kvs \<Longrightarrow> ends_number r \<Longrightarrow> 2 * length (json_stringify nf (snd kv)) < m \<Longrightarrow>
      parse_value nf m (json_stringify nf (snd kv) @ r) = Some (snd kv, r)"
    and "kvs \<noteq> []" and "2 * length (commas (map (member_text nf) kvs)) + 2 \<le> m" and "distinct (map fst (acc @ kvs))"
  shows "parse_members nf m acc (commas (map (member_text nf) kvs) @ CHR ''}'' # r) = Some (JsonObject (acc @ kvs), r)"
  using assms
proof (induction kvs arbitrary: acc m)
  case (Cons kv kvs)
  obtain k v where kv: "kv = (k, v)" by fastforce
  from Cons obtain j where m: "m = Suc j" by (cases m) auto
  have new: "map_set k v acc = acc @ [(k, v)]"
    using Cons.prems(4) kv by (intro map_set_new) (force simp: map_of_eq_None_iff)
  have key: "parse_string (concat (map escape_char k) @ QUOTE # x) = Some (k, x)" for x by (rule parse_string_text)
  show ?case
  proof (cases kvs)
    case Nil
    with Cons.prems m kv have "parse_value nf j (json_stringify nf v @ CHR ''}'' # r) = Some (v, CHR ''}'' # r)"
      by (simp add: plain_chars)
    with Nil m kv key new show ?thesis by (simp add: plain_chars string_text_def)
  next
    case (Cons w ws)
    let ?rest = "CHR '','' # commas (map (member_text nf) kvs) @ CHR ''}'' # r"
    have "parse_value nf j (json_stringify nf v @ ?rest) = Some (v, ?rest)"
      using Cons.prems(1) [of kv ?rest j] Cons.prems(3) Cons m kv by (auto simp: plain_chars)
    moreover have "parse_members nf j (acc @ [(k, v)]) (commas (map (member_text nf) kvs) @ CHR ''}'' # r)
        = Some (JsonObject ((acc @ [(k, v)]) @ kvs), r)"
      using Cons.prems Cons m kv by (intro Cons.IH) auto
    ultimately show ?thesis using m kv Cons key new by (simp add: plain_chars string_text_def)
  qed
qed simp

lemma parse_value_text:
  assumes "format_ok nf" and "json_ok v" and "ends_number r" and "2 * length (json_stringify nf v) < m"
  shows "parse_value nf m (json_stringify nf v @ r) = Some (v, r)"
  using assms(2-4)
proof (induction v arbitrary: r m)
  case (JsonNumber n)
  then show ?case using parse_number_text [OF assms(1)] by (cases m) auto
next
  case JsonNull
  then show ?case using parse_literal_app(1) [of r]
    by (cases m) (auto simp: json_space_def number_char_def is_digit_def QUOTE_def)
next
  case (JsonBool b)
  then show ?case using parse_literal_app(2,3) [of r]
    by (cases m; cases b) (auto simp: json_space_def number_char_def is_digit_def QUOTE_def)
next
  case (JsonString s)
  then show ?case by (cases m) (auto simp: string_text_def plain_chars parse_string_text)
next
  case (JsonArray vs)
  then obtain k where m: "m = Suc k" by (cases m) auto
  show ?case
  proof (cases vs)
    case Nil
    with m show ?thesis by (simp add: plain_chars QUOTE_def)
  next
    case (Cons v ws)
    have "parse_elements nf k [] (commas (map (json_stringify nf) vs) @ CHR '']'' # r) = Some (JsonArray ([] @ vs), r)"
      using JsonArray Cons m by (intro parse_elements_text) (auto simp: list_all_iff)
    moreover obtain c t where "commas (map (json_stringify nf) vs) = c # t" "\<not> json_space c" "c \<noteq> CHR '']''"
      using text_start [OF assms(1), of v] JsonArray.prems(1) Cons
      by (cases ws; cases "json_stringify nf v") auto
    ultimately show ?thesis using m by (simp add: plain_chars QUOTE_def)
  qed
next
  case (JsonObject kvs)
  then obtain k where m: "m = Suc k" by (cases m) auto
  show ?case
  proof (cases kvs)
    case Nil
    with m show ?thesis by (simp add: plain_chars QUOTE_def)
  next
    case (Cons kv ws)
    have "parse_value nf m' (json_stringify nf (snd q) @ r') = Some (snd q, r')"
      if "q \<in> set kvs" "ends_number r'" "2 * length (json_stringify nf (snd q)) < m'" for q r' m'
      using JsonObject.IH [of q "snd q" r' m'] JsonObject.prems(1) that by (cases q) (auto simp: list_all_iff)
    then have "parse_members nf k [] (commas (map (member_text nf) kvs) @ CHR ''}'' # r) = Some (JsonObject ([] @ kvs), r)"
      using JsonObject.prems Cons m by (intro parse_members_text) auto
    moreover obtain t where "commas (map (member_text nf) kvs) = QUOTE # t"
      using Cons by (cases ws) (auto simp: string_text_def)
    ultimately show ?thesis using m by (simp add: json_space_def QUOTE_def)
  qed
qed

lemma json_round_trip:
  assumes "format_ok nf" and "json_ok v"
  shows "json_parse nf (json_stringify nf v) = Some v"
  using parse_value_text [OF assms, of "[]" "parse_fuel (json_stringify nf v)"]
  by (simp add: json_parse_def parse_fuel_def ends_number_def)


section \<open>A torn object is not JSON\<close>

text \<open>Brackets and quotes: the depth of nesting and whether a text ends inside a string literal.\<close>

datatype scan_mode = Outside | Inside | Escaped

fun scan_char :: "int \<times> scan_mode \<Rightarrow> char \<Rightarrow> int \<times> scan_mode" where
  "scan_char (d, Outside) c =
     (if c = QUOTE then (d, Inside)
      else if c = CHR ''['' \<or> c = CHR ''{'' then (d + 1, Outside)
      else if c = CHR '']'' \<or> c = CHR ''}'' then (d - 1, Outside) else (d, Outside))"
| "scan_char (d, Inside) c =
     (if c = QUOTE then (d, Outside) else if c = BACKSLASH then (d, Escaped) else (d, Inside))"
| "scan_char (d, Escaped) c = (d, Inside)"

abbreviation scan :: "int \<times> scan_mode \<Rightarrow> string \<Rightarrow> int \<times> scan_mode" where
  "scan \<equiv> foldl scan_char"

definition unbracketed :: "char \<Rightarrow> bool" where
  "unbracketed c \<longleftrightarrow> c \<noteq> QUOTE \<and> c \<notin> set ''[]{}''"

lemma scan_unbracketed: "list_all unbracketed p \<Longrightarrow> scan (d, Outside) p = (d, Outside)"
  by (induction p) (auto simp: unbracketed_def)

lemma hex_value_plain: "hex_value c = Some n \<Longrightarrow> c \<noteq> QUOTE \<and> c \<noteq> BACKSLASH"
  by (auto simp: hex_value_def QUOTE_def BACKSLASH_def)

lemma parse_string_scan:
  "parse_string s = Some (t, r) \<Longrightarrow> \<exists>p. s = p @ r \<and> (\<forall>d. scan (d, Inside) p = (d, Outside))"
proof (induction s arbitrary: t r rule: length_induct)
  case (1 s)
  have IH: "\<exists>p. x = p @ r \<and> (\<forall>d. scan (d, Inside) p = (d, Outside))"
    if "parse_string x = Some (u, r)" "length x < length s" for x u
    using 1(1) that by blast
  show ?case
  proof (cases s)
    case Nil
    with 1 show ?thesis by simp
  next
    case (Cons c s1)
    consider (close) "c = QUOTE"
      | (plain) "c \<noteq> QUOTE" "c \<noteq> BACKSLASH"
      | (simple) e s2 where "c = BACKSLASH" "s1 = e # s2" "e \<noteq> CHR ''u''"
      | (unicode) h1 h2 h3 h4 s2 where "c = BACKSLASH" "s1 = CHR ''u'' # h1 # h2 # h3 # h4 # s2"
      using 1(2) Cons by (force split: list.splits if_splits)
    then show ?thesis
    proof cases
      case close
      with 1(2) Cons show ?thesis by (intro exI [of _ "[QUOTE]"]) simp
    next
      case plain
      with 1(2) Cons obtain u where "parse_string s1 = Some (u, r)" by (auto split: if_splits)
      from IH [OF this] Cons obtain p where "s1 = p @ r" "\<forall>d. scan (d, Inside) p = (d, Outside)" by auto
      with plain Cons show ?thesis by (intro exI [of _ "c # p"]) simp
    next
      case simple
      with 1(2) Cons obtain u where "parse_string s2 = Some (u, r)" by (auto simp: QUOTE_def BACKSLASH_def split: option.splits)
      from IH [OF this] Cons simple obtain p where "s2 = p @ r" "\<forall>d. scan (d, Inside) p = (d, Outside)" by auto
      with simple Cons show ?thesis by (intro exI [of _ "c # e # p"]) (simp add: QUOTE_def BACKSLASH_def)
    next
      case unicode
      with 1(2) Cons obtain u x where u: "parse_string s2 = Some (u, r)" "unicode_escape h1 h2 h3 h4 = Some x"
        by (auto simp: QUOTE_def BACKSLASH_def split: option.splits)
      then have "\<forall>h \<in> {h1, h2, h3, h4}. h \<noteq> QUOTE \<and> h \<noteq> BACKSLASH"
        by (auto simp: unicode_escape_def dest: hex_value_plain split: option.splits nat.splits)
      moreover obtain p where "s2 = p @ r" "\<forall>d. scan (d, Inside) p = (d, Outside)"
        using IH [OF u(1)] Cons unicode by auto
      ultimately show ?thesis using unicode Cons
        by (intro exI [of _ "c # CHR ''u'' # h1 # h2 # h3 # h4 # p"]) (simp add: QUOTE_def BACKSLASH_def)
    qed
  qed
qed


text \<open>What a parser consumed leaves the nesting as it was; after an opening bracket it closes it.\<close>

definition consumes :: "int \<Rightarrow> string \<Rightarrow> string \<Rightarrow> bool" where
  "consumes k s r \<longleftrightarrow> (\<exists>p. s = p @ r \<and> (\<forall>d. scan (d, Outside) p = (d + k, Outside)))"

lemma consumesI: "s = p @ r \<Longrightarrow> (\<And>d. scan (d, Outside) p = (d + k, Outside)) \<Longrightarrow> consumes k s r"
  by (auto simp: consumes_def)

lemma consumes_trans: "consumes j s r \<Longrightarrow> consumes k r t \<Longrightarrow> consumes (j + k) s t"
  unfolding consumes_def by (metis (no_types, lifting) add.assoc append.assoc foldl_append)

lemma consumes_space: "skip_space s = t \<Longrightarrow> consumes k t r \<Longrightarrow> consumes k s r"
proof -
  assume "skip_space s = t" "consumes k t r"
  moreover have "list_all unbracketed (takeWhile json_space s)"
    by (induction s) (auto simp: unbracketed_def json_space_def QUOTE_def)
  ultimately have "consumes 0 s t" by (intro consumesI [of _ "takeWhile json_space s"]) (auto simp: scan_unbracketed)
  with \<open>consumes k t r\<close> show ?thesis using consumes_trans by fastforce
qed

lemma consumes_char:
  assumes "scan_char (0, Outside) c = (j, Outside)" and "consumes k s r"
  shows "consumes (j + k) (c # s) r"
proof -
  have "scan (d, Outside) [c] = (d + j, Outside)" for d using assms(1) by (auto split: if_splits)
  then have "consumes j (c # s) s" by (intro consumesI [of _ "[c]"]) auto
  with assms(2) show ?thesis by (rule consumes_trans [rotated])
qed

lemma consumes_none [simp]: "consumes 0 s s"
  by (intro consumesI [of _ "[]"]) auto

lemma consumes_close: "c = CHR '']'' \<or> c = CHR ''}'' \<Longrightarrow> consumes (-1) (c # r) r"
  using consumes_char [of c "-1" 0 r r] by (auto simp: QUOTE_def)

lemma consumes_string: "parse_string s = Some (t, r) \<Longrightarrow> consumes k r u \<Longrightarrow> consumes k (QUOTE # s) u"
proof -
  assume "parse_string s = Some (t, r)" and k: "consumes k r u"
  from parse_string_scan [OF this(1)] obtain p where "s = p @ r" "\<forall>d. scan (d, Inside) p = (d, Outside)" by blast
  then have "consumes 0 (QUOTE # s) r" by (intro consumesI [of _ "QUOTE # p"]) auto
  with k show ?thesis using consumes_trans by fastforce
qed

lemma consumes_literal: "parse_literal s = Some (v, r) \<Longrightarrow> consumes 0 s r"
proof -
  assume "parse_literal s = Some (v, r)"
  then obtain p where "p \<in> {''null'', ''true'', ''false''}" "s = p @ r"
    by (auto simp: parse_literal_def prefix_def split: if_splits)
  moreover from this have "list_all unbracketed p" by (auto simp: unbracketed_def QUOTE_def)
  ultimately show ?thesis by (intro consumesI [of _ p]) (auto simp: scan_unbracketed)
qed

lemma consumes_number: "consumes 0 s (dropWhile number_char s)"
proof -
  have "list_all unbracketed (takeWhile number_char s)"
    by (induction s) (auto simp: unbracketed_def dest: number_char_plain)
  then show ?thesis by (intro consumesI [of _ "takeWhile number_char s"]) (auto simp: scan_unbracketed)
qed

lemma parse_consumes:
  "parse_value nf n s = Some (v, r) \<Longrightarrow> consumes 0 s r"
  "parse_elements nf n acc s = Some (v, r) \<Longrightarrow> consumes (-1) s r"
  "parse_members nf n kvs s = Some (v, r) \<Longrightarrow> consumes (-1) s r"
proof (induction n arbitrary: s v r acc kvs)
  case (Suc n)
  {
    case 1
    then obtain c t where ct: "skip_space s = c # t" by (auto split: list.splits)
    show ?case
    proof (rule consumes_space [OF ct], cases "c = QUOTE")
      case True
      with 1 ct show "consumes 0 (c # t) r" by (auto intro: consumes_string)
    next
      case quote: False
      show "consumes 0 (c # t) r"
      proof (cases "c = CHR ''['' \<or> c = CHR ''{''")
        case True
        then have "consumes (-1) t r"
          using 1 ct quote Suc.IH(2) [of "[]" t v r] Suc.IH(3) [of "[]" t v r]
            consumes_close [of "CHR '']''" r] consumes_close [of "CHR ''}''" r]
          by (auto split: list.splits if_splits intro!: consumes_space [of t])
        with True quote show ?thesis using consumes_char [of c 1 "-1"] by auto
      next
        case False
        with 1 ct quote show ?thesis
          using consumes_number [of "c # t"] by (auto split: if_splits dest: consumes_literal)
      qed
    qed
  next
    case 2
    then obtain w t d u where w: "parse_value nf n s = Some (w, t)" "skip_space t = d # u"
      by (auto split: option.splits list.splits)
    have "consumes (-1) (d # u) r"
      using 2 w Suc.IH(2) [of "acc @ [w]" u v r] consumes_char [of d 0 "-1" u r] consumes_char [of d "-1" 0 u r]
      by (auto simp: QUOTE_def split: if_splits)
    then have "consumes (-1) t r" by (rule consumes_space [OF w(2)])
    with Suc.IH(1) [OF w(1)] show ?case using consumes_trans by fastforce
  next
    case 3
    then obtain r0 k r1 r2 w t d u where w: "skip_space s = QUOTE # r0" "parse_string r0 = Some (k, r1)"
      "skip_space r1 = CHR '':'' # r2" "parse_value nf n r2 = Some (w, t)" "skip_space t = d # u"
      by (auto split: option.splits list.splits if_splits)
    have "consumes (-1) (d # u) r"
      using 3 w Suc.IH(3) [of "map_set k w kvs" u v r] consumes_char [of d 0 "-1" u r] consumes_char [of d "-1" 0 u r]
      by (auto simp: QUOTE_def split: if_splits)
    then have "consumes (-1) t r" by (rule consumes_space [OF w(5)])
    with Suc.IH(1) [OF w(4)] have "consumes (-1) r2 r" using consumes_trans by fastforce
    then have "consumes (-1) (CHR '':'' # r2) r" using consumes_char [of "CHR '':''" 0 "-1"] by (auto simp: QUOTE_def)
    then show ?case by (intro consumes_space [OF w(1)] consumes_string [OF w(2)] consumes_space [OF w(3)])
  }
qed simp_all


text \<open>A text that leaves the nesting as it was and never goes below it.\<close>

definition nested :: "string \<Rightarrow> bool" where
  "nested p \<longleftrightarrow> (\<forall>d. scan (d, Outside) p = (d, Outside) \<and> (\<forall>q. prefix q p \<longrightarrow> d \<le> fst (scan (d, Outside) q)))"

lemma nested_append: "nested p \<Longrightarrow> nested q \<Longrightarrow> nested (p @ q)"
  by (auto simp: nested_def prefix_append)

lemma nested_unbracketed: "list_all unbracketed p \<Longrightarrow> nested p"
  by (auto simp: nested_def scan_unbracketed prefix_def list_all_append)

lemma nested_bracket:
  assumes "nested p" and "b = CHR ''['' \<and> c = CHR '']'' \<or> b = CHR ''{'' \<and> c = CHR ''}''"
  shows "nested (b # p @ [c])"
proof -
  have b: "scan_char (d, Outside) b = (d + 1, Outside)" "scan_char (d, Outside) c = (d - 1, Outside)" for d
    using assms(2) by (auto simp: QUOTE_def)
  have "d \<le> fst (scan (d, Outside) q)" if "prefix q (b # p @ [c])" for q d
  proof (cases q)
    case (Cons x t)
    with that have t: "x = b" "prefix t p \<or> t = p @ [c]" by auto
    from assms(1) have "d + 1 \<le> fst (scan (d + 1, Outside) t)" if "prefix t p"
      using that by (simp add: nested_def)
      moreover have "fst (scan (d + 1, Outside) (p @ [c])) = d" using assms(1) b by (simp add: nested_def)
    ultimately have "d \<le> fst (scan (d + 1, Outside) t)" using t(2) by force
    with t(1) Cons b show ?thesis by simp
  qed simp
  with assms(1) b show ?thesis by (simp add: nested_def)
qed

lemma torn_bracket:
  assumes "nested p" and "b = CHR ''['' \<or> b = CHR ''{''" and "strict_prefix (b # q) (b # p @ [c])"
  shows "0 < fst (scan (0, Outside) (b # q))"
proof -
  from assms(3) have "prefix q p" by (auto simp: strict_prefix_def)
  with assms(1) have "1 \<le> fst (scan (1, Outside) q)" by (simp add: nested_def)
  with assms(2) show ?thesis by (auto simp: QUOTE_def)
qed

lemma nested_commas: "list_all nested xs \<Longrightarrow> nested (commas xs)"
proof (induction xs rule: commas.induct)
  case (3 x y xs)
  moreover have "nested '',''" by (intro nested_unbracketed) (simp add: unbracketed_def QUOTE_def)
  ultimately have "nested (x @ '','' @ commas (y # xs))" by (intro nested_append) auto
  then show ?case by simp
qed (auto simp: nested_def)


text \<open>A text that stays inside a string literal.\<close>

fun stays_inside :: "scan_mode \<Rightarrow> string \<Rightarrow> bool" where
  "stays_inside m [] \<longleftrightarrow> True"
| "stays_inside m (c # p) \<longleftrightarrow> \<not> (m = Inside \<and> c = QUOTE) \<and>
     stays_inside (if m = Inside \<and> c = BACKSLASH then Escaped else Inside) p"

lemma stays_inside_prefix:
  "stays_inside m p \<Longrightarrow> m \<noteq> Outside \<Longrightarrow> prefix q p \<Longrightarrow> fst (scan (d, m) q) = d"
proof (induction m p arbitrary: q rule: stays_inside.induct)
  case (2 m c p)
  then show ?case by (cases m; cases q) (auto split: if_splits)
qed simp

lemma stays_inside_append:
  "stays_inside m p \<Longrightarrow> m \<noteq> Outside \<Longrightarrow> scan (d, m) p = (d, Inside) \<Longrightarrow> stays_inside Inside q \<Longrightarrow> stays_inside m (p @ q)"
proof (induction m p rule: stays_inside.induct)
  case (2 m c p)
  then show ?case by (cases m) (auto split: if_splits)
qed (auto split: if_splits)

lemma escape_inside: "stays_inside Inside (escape_char c)" "scan (d, Inside) (escape_char c) = (d, Inside)"
proof -
  have "hex_digit n \<noteq> QUOTE \<and> hex_digit n \<noteq> BACKSLASH" if "n < 16" for n
    using that hex_value_digit hex_value_plain by blast
  moreover have "(of_char c :: nat) mod 16 < 16" by simp
  moreover have "(of_char c :: nat) < 256" using of_char_mod_256 [of c] by (metis mod_less_divisor zero_less_numeral)
  then have "(of_char c :: nat) div 16 < 16" by (intro less_mult_imp_div_less) simp
  ultimately show "stays_inside Inside (escape_char c)" "scan (d, Inside) (escape_char c) = (d, Inside)"
    by (auto simp: escape_char_def QUOTE_def BACKSLASH_def)
qed

lemma escapes_inside:
  "stays_inside Inside (concat (map escape_char s))" "scan (d, Inside) (concat (map escape_char s)) = (d, Inside)"
proof -
  show end_inside: "scan (d, Inside) (concat (map escape_char s)) = (d, Inside)" for d
    by (induction s) (simp_all add: escape_inside)
  show "stays_inside Inside (concat (map escape_char s))"
    by (induction s) (auto intro: stays_inside_append [OF escape_inside(1) _ escape_inside(2)])
qed

lemma nested_string: "nested (string_text s)"
proof -
  let ?b = "concat (map escape_char s)"
  have "d \<le> fst (scan (d, Outside) q)" if q: "prefix q (string_text s)" for d q
  proof (cases q)
    case (Cons x t)
    with q have "x = QUOTE" "prefix t ?b \<or> t = ?b @ [QUOTE]" by (auto simp: string_text_def)
    with Cons escapes_inside(2) [of d s] stays_inside_prefix [OF escapes_inside(1), of t s d] show ?thesis by auto
  qed simp
  then show ?thesis using escapes_inside(2) by (simp add: nested_def string_text_def)
qed

lemma nested_members:
  assumes "\<forall>kv \<in> set kvs. nested (json_stringify nf (snd kv))"
  shows "nested (commas (map (member_text nf) kvs))"
proof -
  have "nested (member_text nf kv)" if "kv \<in> set kvs" for kv
  proof -
    have "nested '':''" by (intro nested_unbracketed) (simp add: unbracketed_def QUOTE_def)
    with that assms show ?thesis by (intro nested_append nested_string) auto
  qed
  then show ?thesis by (intro nested_commas) (auto simp: list_all_iff)
qed

lemma nested_text:
  assumes "format_ok nf"
  shows "json_ok v \<Longrightarrow> nested (json_stringify nf v)"
proof (induction v)
  case (JsonNumber n)
  with number_round_trip [OF assms] have "list_all number_char (number_text nf n)" by simp
  then have "list_all unbracketed (number_text nf n)"
    by (auto simp: list_all_iff unbracketed_def dest!: number_char_plain)
  then show ?case by (simp add: nested_unbracketed)
next
  case (JsonArray vs)
  then have "nested (commas (map (json_stringify nf) vs))" by (intro nested_commas) (auto simp: list_all_iff)
  then show ?case using nested_bracket by simp
next
  case (JsonObject kvs)
  then have "nested (commas (map (member_text nf) kvs))"
    by (intro nested_members) (auto simp: list_all_iff)
  then show ?case using nested_bracket by simp
qed (auto simp: nested_string intro!: nested_unbracketed, auto simp: unbracketed_def QUOTE_def)

text \<open>No proper beginning of the text of an object is JSON.\<close>

lemma torn_object_rejected:
  assumes "format_ok nf" and "json_ok (JsonObject kvs)" and "strict_prefix p (json_stringify nf (JsonObject kvs))"
  shows "json_parse nf p = None"
proof (rule ccontr)
  assume "json_parse nf p \<noteq> None"
  then obtain v r where v: "parse_value nf (parse_fuel p) p = Some (v, r)" "skip_space r = []"
    by (auto simp: json_parse_def split: option.splits if_splits)
  have "consumes 0 p []"
    using consumes_trans [OF parse_consumes(1) [OF v(1)]] consumes_space [OF v(2) consumes_none] by fastforce
  then have balanced: "scan (0, Outside) p = (0, Outside)" by (auto simp: consumes_def)
  have "p \<noteq> []" using v(1) by (auto simp: parse_fuel_def)
  moreover have "nested (commas (map (member_text nf) kvs))"
    using nested_text [OF assms(1)] assms(2) by (intro nested_members) (auto simp: list_all_iff)
  ultimately show False
    using torn_bracket [of "commas (map (member_text nf) kvs)" "CHR ''{''" "tl p" "CHR ''}''"] assms(3) balanced
    by (cases p) (auto simp: strict_prefix_def)
qed

lemma string_text_no_newline: "CHR 0x0A \<notin> set (string_text s)"
proof -
  have "hex_digit n \<noteq> CHR 0x0A" if "n < 16" for n
    using hex_value_digit [OF that] by (auto simp: hex_value_def)
  moreover have "(of_char c :: nat) div 16 < 16" if "(of_char c :: nat) < 32" for c
    using that by simp
  ultimately have "CHR 0x0A \<notin> set (escape_char c)" for c
    by (auto simp: escape_char_def QUOTE_def BACKSLASH_def) (metis mod_less_divisor zero_less_numeral)+
  then show ?thesis by (auto simp: string_text_def QUOTE_def)
qed

lemma commas_no_newline: "\<forall>x \<in> set xs. CHR 0x0A \<notin> set x \<Longrightarrow> CHR 0x0A \<notin> set (commas xs)"
  by (induction xs rule: commas.induct) auto

lemma text_no_newline:
  assumes "format_ok nf"
  shows "json_ok v \<Longrightarrow> CHR 0x0A \<notin> set (json_stringify nf v)"
proof (induction v)
  case (JsonNumber n)
  with number_round_trip [OF assms] have "list_all number_char (number_text nf n)" by simp
  then show ?case by (auto simp: list_all_iff number_char_def is_digit_def)
next
  case (JsonArray vs)
  then have "CHR 0x0A \<notin> set (commas (map (json_stringify nf) vs))" by (intro commas_no_newline) (auto simp: list_all_iff)
  then show ?case by simp
next
  case (JsonObject kvs)
  then have "\<forall>kv \<in> set kvs. CHR 0x0A \<notin> set (member_text nf kv)"
    by (auto simp: list_all_iff string_text_no_newline)
  then have "CHR 0x0A \<notin> set (commas (map (member_text nf) kvs))" by (intro commas_no_newline) simp
  then show ?case by simp
qed (auto simp: string_text_no_newline)


section \<open>The fuel is enough\<close>

lemma parse_shorter: "parse_value nf n s = Some (v, r) \<Longrightarrow> length r \<le> length s"
  by (auto dest!: parse_consumes(1) simp: consumes_def)

lemma skip_shorter: "skip_space s = c # t \<Longrightarrow> length t < length s"
  by (metis impossible_Cons length_dropWhile_le linorder_not_le order_trans)

lemma string_shorter: "parse_string s = Some (t, r) \<Longrightarrow> length r \<le> length s"
  by (auto dest!: parse_string_scan)

declare parse_value.simps [simp del] parse_elements.simps [simp del] parse_members.simps [simp del]

lemma fuel_enough:
  "2 * length s + 1 \<le> n \<Longrightarrow> parse_value nf (Suc n) s = parse_value nf n s"
  "2 * length s + 2 \<le> n \<Longrightarrow> parse_elements nf (Suc n) acc s = parse_elements nf n acc s"
  "2 * length s + 2 \<le> n \<Longrightarrow> parse_members nf (Suc n) kvs s = parse_members nf n kvs s"
proof (induction n arbitrary: s acc kvs)
  case (Suc n)
  {
    case 1
    show ?case
    proof (cases "skip_space s")
      case Nil
      then show ?thesis by (simp only: parse_value.simps(2) list.case)
    next
      case (Cons c t)
      have "parse_elements nf (Suc n) [] t = parse_elements nf n [] t" "parse_members nf (Suc n) [] t = parse_members nf n [] t"
        using 1 skip_shorter [OF Cons] by (intro Suc.IH(2,3); simp)+
      with Cons show ?thesis by (simp only: parse_value.simps(2) list.case)
    qed
  next
    case 2
    have v: "parse_value nf (Suc n) s = parse_value nf n s" using 2 Suc.IH(1) by simp
    show ?case
    proof (cases "parse_value nf n s")
      case None
      then show ?thesis by (simp add: parse_elements.simps(2) v)
    next
      case (Some wr)
      obtain w r where wr: "wr = (w, r)" by fastforce
      note unfold = parse_elements.simps(2) [of nf "Suc n" acc s] parse_elements.simps(2) [of nf n acc s] v Some wr
      show ?thesis
      proof (cases "skip_space r")
        case Nil
        then show ?thesis by (simp only: unfold option.case prod.case list.case)
      next
        case (Cons d u)
        have "parse_elements nf (Suc n) (acc @ [w]) u = parse_elements nf n (acc @ [w]) u"
          using 2 parse_shorter [of nf n s w r] skip_shorter [OF Cons] Some wr by (intro Suc.IH(2)) simp
        with Cons show ?thesis by (simp only: unfold option.case prod.case list.case)
      qed
    qed
  next
    case 3
    show ?case
    proof (cases "\<exists>q r0 k r1 e r2. skip_space s = q # r0 \<and> parse_string r0 = Some (k, r1) \<and> skip_space r1 = e # r2")
      case True
      then obtain q r0 k r1 e r2 where p: "skip_space s = q # r0" "parse_string r0 = Some (k, r1)" "skip_space r1 = e # r2"
        by blast
      have len: "length r2 < length s"
        using skip_shorter [OF p(1)] string_shorter [OF p(2)] skip_shorter [OF p(3)] by simp
      then have v: "parse_value nf (Suc n) r2 = parse_value nf n r2" using 3 Suc.IH(1) by simp
      note unfold = parse_members.simps(2) [of nf "Suc n" kvs s] parse_members.simps(2) [of nf n kvs s] p v
      show ?thesis
      proof (cases "parse_value nf n r2")
        case None
        then show ?thesis by (simp only: unfold option.case prod.case list.case)
      next
        case (Some wr)
        obtain w r where wr: "wr = (w, r)" by fastforce
        show ?thesis
        proof (cases "skip_space r")
          case Nil
          then show ?thesis by (simp only: unfold Some wr option.case prod.case list.case)
        next
          case (Cons d u)
          have "parse_members nf (Suc n) (map_set k w kvs) u = parse_members nf n (map_set k w kvs) u"
            using 3 len parse_shorter [of nf n r2 w r] skip_shorter [OF Cons] Some wr by (intro Suc.IH(3)) simp
          with Cons show ?thesis by (simp only: unfold Some wr option.case prod.case list.case)
        qed
      qed
    next
      case False
      have "parse_members nf (Suc m) kvs s = None" for m
      proof (cases "skip_space s")
        case Nil
        then show ?thesis by (simp only: parse_members.simps(2) list.case)
      next
        case (Cons q r0)
        show ?thesis
        proof (cases "parse_string r0")
          case None
          with Cons show ?thesis by (simp add: parse_members.simps(2))
        next
          case (Some kr)
          obtain k r1 where kr: "kr = (k, r1)" by fastforce
          with False Cons Some have "skip_space r1 = []" by (cases "skip_space r1") blast+
          with Cons Some kr show ?thesis by (simp only: parse_members.simps(2) list.case option.case prod.case if_cancel)
        qed
      qed
      then show ?thesis by simp
    qed
  }
qed simp_all

text \<open>More fuel never changes the result of a parse.\<close>

lemma parse_fuel_enough: "parse_fuel s \<le> n \<Longrightarrow> parse_value nf n s = parse_value nf (parse_fuel s) s"
proof (induction n)
  case (Suc n)
  show ?case
  proof (cases "parse_fuel s = Suc n")
    case False
    with Suc.prems have "parse_fuel s \<le> n" by simp
    then show ?thesis using Suc.IH fuel_enough(1) [of s n nf] by (simp add: parse_fuel_def)
  qed simp
qed (simp add: parse_fuel_def)

end
