(* ===== verification/Jsonl_Codec.thy ===== *)
theory Jsonl_Codec
  imports Session_State Json_Text
begin

text \<open>
  \<^verbatim>\<open>packages/agent/src/harness/session/jsonl/codec.ts\<close>: a session file is a header line and one line of JSON
  per mutation. The code casts the decoded object to an entry or a record; how the discriminated
  part of an entry or record looks as the properties of an object is the argument \<open>payload_view\<close>.
\<close>

section \<open>The typed view of an object\<close>

record payload_view =
  pv_entry_fields :: "entry_body \<Rightarrow> (string \<times> json) list"
  pv_entry :: "entry_type \<Rightarrow> (string \<times> json) list \<Rightarrow> entry_body"
  pv_record_fields :: "record_body \<Rightarrow> (string \<times> json) list"
  pv_record :: "record_type \<Rightarrow> (string \<times> json) list \<Rightarrow> record_body"

fun entry_type_name :: "entry_type \<Rightarrow> string" where
  "entry_type_name MessageT = ''message''"
| "entry_type_name ModelChangeT = ''model_change''"
| "entry_type_name ThinkingLevelT = ''thinking_level_change''"
| "entry_type_name ActiveToolsT = ''active_tools_change''"
| "entry_type_name CompactionT = ''compaction''"
| "entry_type_name BranchSummaryT = ''branch_summary''"
| "entry_type_name CustomT = ''custom''"

definition ENTRY_TYPES :: "(string \<times> entry_type) list" where
  "ENTRY_TYPES = map (\<lambda>t. (entry_type_name t, t))
     [MessageT, ModelChangeT, ThinkingLevelT, ActiveToolsT, CompactionT, BranchSummaryT, CustomT]"

fun record_type_name :: "record_type \<Rightarrow> string" where
  "record_type_name OperationStartedT = ''operation_started''"
| "record_type_name AbortRequestedT = ''abort_requested''"
| "record_type_name OperationFinishedT = ''operation_finished''"
| "record_type_name StepAttemptT = ''step_attempt''"
| "record_type_name ToolStartedT = ''tool_started''"
| "record_type_name QueueEnqueuedT = ''queue_enqueued''"
| "record_type_name QueueCancelledT = ''queue_cancelled''"
| "record_type_name WriteDeferredT = ''write_deferred''"
| "record_type_name UsageT = ''usage''"

definition RECORD_TYPES :: "(string \<times> record_type) list" where
  "RECORD_TYPES = map (\<lambda>t. (record_type_name t, t))
     [OperationStartedT, AbortRequestedT, OperationFinishedT, StepAttemptT, ToolStartedT,
      QueueEnqueuedT, QueueCancelledT, WriteDeferredT, UsageT]"

definition OPERATION_KINDS :: "string list" where
  "OPERATION_KINDS = [''run'', ''compaction'', ''navigation'']"

section \<open>Decoding\<close>

definition parseObject :: "number_format \<Rightarrow> string \<Rightarrow> jsonl_decode_error + (string \<times> json) list" where
  "parseObject nf line =
     (case json_parse nf line of
        None \<Rightarrow> Inl JsonlSyntax
      | Some (JsonObject kvs) \<Rightarrow> Inr kvs
      | Some _ \<Rightarrow> Inl NotAnObject)"

definition requireString :: "json option \<Rightarrow> string \<Rightarrow> jsonl_decode_error + string" where
  "requireString value field = (case value of Some (JsonString s) \<Rightarrow> Inr s | _ \<Rightarrow> Inl (InvalidField field))"

definition requireSequence :: "json option \<Rightarrow> jsonl_decode_error + int" where
  "requireSequence value =
     (case value of
        Some (JsonNumber n) \<Rightarrow> if \<not> js_isSafeInteger n \<or> js_int n \<le> 0 then Inl (InvalidField ''seq'') else Inr (js_int n)
      | _ \<Rightarrow> Inl (InvalidField ''seq''))"

definition requireTimestamp :: "json option \<Rightarrow> jsonl_decode_error + int" where
  "requireTimestamp value =
     (case value of
        Some (JsonNumber n) \<Rightarrow>
          if \<not> js_isSafeInteger n \<or> js_int n < 0 then Inl (InvalidField ''timestamp'') else Inr (js_int n)
      | _ \<Rightarrow> Inl (InvalidField ''timestamp''))"

definition requireNullableId :: "json option \<Rightarrow> string \<Rightarrow> jsonl_decode_error + string option" where
  "requireNullableId value field =
     (case value of
        Some JsonNull \<Rightarrow> Inr None
      | Some (JsonString s) \<Rightarrow> Inr (Some s)
      | _ \<Rightarrow> Inl (InvalidField field))"

text \<open>A field that may be undefined.\<close>

definition optional_string :: "json option \<Rightarrow> string \<Rightarrow> jsonl_decode_error + string option" where
  "optional_string value field =
     (case value of
        None \<Rightarrow> Inr None
      | Some (JsonString s) \<Rightarrow> Inr (Some s)
      | _ \<Rightarrow> Inl (InvalidField field))"

record jsonl_header =
  jh_id :: id
  jh_createdAt :: int
  jh_cwd :: string
  jh_parentSessionId :: "id option"
  jh_legacyParentSessionPath :: "string option"
  jh_metadata :: "(string \<times> json) list option"

definition decodeHeader :: "number_format \<Rightarrow> string \<Rightarrow> jsonl_decode_error + jsonl_header" where
  "decodeHeader nf line =
     rbind (parseObject nf line) (\<lambda>value.
     rbind (ensure (map_get value ''kind'' = Some (JsonString ''header'')) NotAHeader) (\<lambda>_.
     rbind (ensure (case map_get value ''version'' of Some (JsonNumber n) \<Rightarrow> num_canon n = NInt 4 | _ \<Rightarrow> False)
              UnsupportedVersion) (\<lambda>_.
     rbind (optional_string (map_get value ''parentSessionId'') ''parentSessionId'') (\<lambda>parentSessionId.
     rbind (optional_string (map_get value ''legacyParentSessionPath'') ''legacyParentSessionPath'') (\<lambda>legacyParentSessionPath.
     rbind (ensure (parentSessionId = None \<or> legacyParentSessionPath = None) BothParents) (\<lambda>_.
     rbind (case map_get value ''metadata'' of
              None \<Rightarrow> Inr None
            | Some (JsonObject kvs) \<Rightarrow> Inr (Some kvs)
            | _ \<Rightarrow> Inl (InvalidField ''metadata'')) (\<lambda>metadata.
     rbind (requireString (map_get value ''id'') ''id'') (\<lambda>i.
     rbind (requireTimestamp (map_get value ''createdAt'')) (\<lambda>createdAt.
     rbind (requireString (map_get value ''cwd'') ''cwd'') (\<lambda>cwd.
     Inr \<lparr> jh_id = i, jh_createdAt = createdAt, jh_cwd = cwd, jh_parentSessionId = parentSessionId,
           jh_legacyParentSessionPath = legacyParentSessionPath, jh_metadata = metadata \<rparr>))))))))))"

abbreviation parseHeader :: "number_format \<Rightarrow> string \<Rightarrow> jsonl_decode_error + jsonl_header" where
  "parseHeader \<equiv> decodeHeader"

definition without :: "string list \<Rightarrow> (string \<times> json) list \<Rightarrow> (string \<times> json) list" where
  "without ks kvs = filter (\<lambda>(k, v). k \<notin> set ks) kvs"

definition parseEntryMutation ::
  "payload_view \<Rightarrow> (string \<times> json) list \<Rightarrow> int \<Rightarrow> jsonl_decode_error + session_mutation" where
  "parseEntryMutation pv value seq =
     rbind (case map_get value ''lane'' of
              None \<Rightarrow> Inr None
            | Some v \<Rightarrow> rbind (requireString (Some v) ''lane'') (\<lambda>l. Inr (Some l))) (\<lambda>lane.
     rbind (requireString (map_get value ''id'') ''id'') (\<lambda>i.
     rbind (requireString (map_get value ''type'') ''entry type'') (\<lambda>type.
     case map_of ENTRY_TYPES type of
       None \<Rightarrow> Inl (UnknownEntryType type)
     | Some t \<Rightarrow>
         rbind (requireNullableId (map_get value ''parentId'') ''parentId'') (\<lambda>parentId.
         rbind (requireTimestamp (map_get value ''timestamp'')) (\<lambda>timestamp.
         rbind (if t = CustomT then rbind (requireString (map_get value ''customType'') ''customType'') (\<lambda>_. Inr ())
                else Inr ()) (\<lambda>_.
         let entryFields = without [''kind'', ''lane''] value
         in Inr (EntryMutation lane
              \<lparr> e_id = i, e_seq = seq, e_parentId = parentId, e_timestamp = timestamp,
                e_body = pv_entry pv t
                  (without [''id'', ''type'', ''parentId'', ''seq'', ''timestamp''] entryFields) \<rparr>)))))))"

definition check_intent :: "json option \<Rightarrow> jsonl_decode_error + unit" where
  "check_intent intent =
     (case intent of
        Some (JsonObject kvs) \<Rightarrow>
          rbind (requireString (map_get kvs ''kind'') ''operation kind'') (\<lambda>operationKind.
          ensure (operationKind \<in> set OPERATION_KINDS) (UnknownOperationKind operationKind))
      | _ \<Rightarrow> Inl (InvalidField ''intent''))"

definition parseRecordMutation ::
  "payload_view \<Rightarrow> (string \<times> json) list \<Rightarrow> int \<Rightarrow> jsonl_decode_error + session_mutation" where
  "parseRecordMutation pv value seq =
     rbind (requireString (map_get value ''id'') ''id'') (\<lambda>i.
     rbind (requireString (map_get value ''lane'') ''lane'') (\<lambda>lane.
     rbind (requireString (map_get value ''type'') ''record type'') (\<lambda>type.
     case map_of RECORD_TYPES type of
       None \<Rightarrow> Inl (UnknownRecordType type)
     | Some t \<Rightarrow>
         rbind (requireTimestamp (map_get value ''timestamp'')) (\<lambda>timestamp.
         rbind (if t = OperationStartedT then check_intent (map_get value ''intent'') else Inr ()) (\<lambda>_.
         rbind (if t = OperationFinishedT then rbind (requireString (map_get value ''runId'') ''runId'') (\<lambda>_. Inr ())
                else Inr ()) (\<lambda>_.
         let recordFields = without [''kind''] value
         in Inr (RecordMutation
              \<lparr> r_id = i, r_seq = seq, r_lane = lane, r_timestamp = timestamp,
                r_body = pv_record pv t
                  (without [''id'', ''lane'', ''type'', ''seq'', ''timestamp''] recordFields) \<rparr>)))))))"

definition parseLaneMutation :: "(string \<times> json) list \<Rightarrow> int \<Rightarrow> jsonl_decode_error + session_mutation" where
  "parseLaneMutation value seq =
     rbind (requireString (map_get value ''lane'') ''lane'') (\<lambda>lane.
     rbind (requireNullableId (map_get value ''leafId'') ''leafId'') (\<lambda>leafId.
     Inr (LaneMutation seq lane leafId)))"

definition parseFactMutation :: "(string \<times> json) list \<Rightarrow> int \<Rightarrow> jsonl_decode_error + session_mutation" where
  "parseFactMutation value seq =
     (if map_get value ''fact'' = Some (JsonString ''name'') then
        rbind (optional_string (map_get value ''name'') ''name'') (\<lambda>name. Inr (NameMutation seq name))
      else if map_get value ''fact'' = Some (JsonString ''label'') then
        rbind (optional_string (map_get value ''label'') ''label'') (\<lambda>label.
        rbind (requireString (map_get value ''targetId'') ''targetId'') (\<lambda>targetId.
        Inr (LabelMutation seq targetId label)))
      else Inl UnknownFactType)"

definition parseMutation :: "number_format \<Rightarrow> payload_view \<Rightarrow> string \<Rightarrow> jsonl_decode_error + session_mutation" where
  "parseMutation nf pv line =
     rbind (parseObject nf line) (\<lambda>value.
     rbind (requireSequence (map_get value ''seq'')) (\<lambda>seq.
     let kind = map_get value ''kind'' in
     if kind = Some (JsonString ''entry'') then parseEntryMutation pv value seq
     else if kind = Some (JsonString ''record'') then parseRecordMutation pv value seq
     else if kind = Some (JsonString ''lane'') then parseLaneMutation value seq
     else if kind = Some (JsonString ''fact'') then parseFactMutation value seq
     else Inl UnknownMutationKind))"

section \<open>Encoding\<close>

text \<open>A property whose value is undefined is left out of the text.\<close>

definition string_field :: "string \<Rightarrow> string option \<Rightarrow> (string \<times> json) list" where
  "string_field k v = (case v of None \<Rightarrow> [] | Some s \<Rightarrow> [(k, JsonString s)])"

definition id_json :: "id option \<Rightarrow> json" where
  "id_json i = (case i of None \<Rightarrow> JsonNull | Some s \<Rightarrow> JsonString s)"

abbreviation int_json :: "int \<Rightarrow> json" where
  "int_json i \<equiv> JsonNumber (NInt i)"

definition header_json :: "jsonl_header \<Rightarrow> (string \<times> json) list" where
  "header_json h =
     [(''kind'', JsonString ''header''), (''version'', int_json 4), (''id'', JsonString (jh_id h)),
      (''createdAt'', int_json (jh_createdAt h)), (''cwd'', JsonString (jh_cwd h))]
     @ string_field ''parentSessionId'' (jh_parentSessionId h)
     @ string_field ''legacyParentSessionPath'' (jh_legacyParentSessionPath h)
     @ (case jh_metadata h of None \<Rightarrow> [] | Some kvs \<Rightarrow> [(''metadata'', JsonObject kvs)])"

definition encodeHeader :: "number_format \<Rightarrow> jsonl_header \<Rightarrow> string" where
  "encodeHeader nf h = json_stringify nf (JsonObject (header_json h)) @ [CHR 0x0A]"

definition entry_json :: "payload_view \<Rightarrow> entry \<Rightarrow> (string \<times> json) list" where
  "entry_json pv e =
     [(''id'', JsonString (e_id e)), (''type'', JsonString (entry_type_name (e_type e)))]
     @ pv_entry_fields pv (e_body e)
     @ [(''parentId'', id_json (e_parentId e)), (''seq'', int_json (e_seq e)), (''timestamp'', int_json (e_timestamp e))]"

definition record_json :: "payload_view \<Rightarrow> lane_record \<Rightarrow> (string \<times> json) list" where
  "record_json pv r =
     [(''id'', JsonString (r_id r)), (''lane'', JsonString (r_lane r)),
      (''type'', JsonString (record_type_name (record_body_type (r_body r))))]
     @ pv_record_fields pv (r_body r)
     @ [(''seq'', int_json (r_seq r)), (''timestamp'', int_json (r_timestamp r))]"

fun mutation_json :: "payload_view \<Rightarrow> session_mutation \<Rightarrow> (string \<times> json) list" where
  "mutation_json pv (EntryMutation lane e) =
     (''kind'', JsonString ''entry'') # string_field ''lane'' lane @ entry_json pv e"
| "mutation_json pv (RecordMutation r) = (''kind'', JsonString ''record'') # record_json pv r"
| "mutation_json pv (LaneMutation seq lane leafId) =
     [(''kind'', JsonString ''lane''), (''seq'', int_json seq), (''lane'', JsonString lane), (''leafId'', id_json leafId)]"
| "mutation_json pv (NameMutation seq n) =
     [(''kind'', JsonString ''fact''), (''seq'', int_json seq), (''fact'', JsonString ''name'')] @ string_field ''name'' n"
| "mutation_json pv (LabelMutation seq targetId label) =
     [(''kind'', JsonString ''fact''), (''seq'', int_json seq), (''fact'', JsonString ''label''),
      (''targetId'', JsonString targetId)] @ string_field ''label'' label"

definition mutation_line :: "number_format \<Rightarrow> payload_view \<Rightarrow> session_mutation \<Rightarrow> string" where
  "mutation_line nf pv m = json_stringify nf (JsonObject (mutation_json pv m))"

definition encodeMutation :: "number_format \<Rightarrow> payload_view \<Rightarrow> session_mutation \<Rightarrow> string" where
  "encodeMutation nf pv m = mutation_line nf pv m @ [CHR 0x0A]"

section \<open>Mutations are read back\<close>

definition reserved_entry_keys :: "string list" where
  "reserved_entry_keys = [''kind'', ''lane'', ''id'', ''type'', ''parentId'', ''seq'', ''timestamp'']"

definition reserved_record_keys :: "string list" where
  "reserved_record_keys = [''kind'', ''id'', ''lane'', ''type'', ''seq'', ''timestamp'']"

definition plain_fields :: "string list \<Rightarrow> (string \<times> json) list \<Rightarrow> bool" where
  "plain_fields reserved kvs \<longleftrightarrow> distinct (map fst kvs) \<and> set (map fst kvs) \<inter> set reserved = {} \<and>
     list_all (\<lambda>kv. json_ok (snd kv)) kvs"

text \<open>
  The properties of a body determine it, clash with none of the common properties, are JSON, and
  contain those the decoder checks.
\<close>

definition entry_readable :: "payload_view \<Rightarrow> entry_body \<Rightarrow> bool" where
  "entry_readable pv b \<longleftrightarrow> pv_entry pv (body_type b) (pv_entry_fields pv b) = b \<and>
     plain_fields reserved_entry_keys (pv_entry_fields pv b) \<and>
     (case b of CustomEntry t d \<Rightarrow> map_of (pv_entry_fields pv b) ''customType'' = Some (JsonString t) | _ \<Rightarrow> True)"

definition record_readable :: "payload_view \<Rightarrow> record_body \<Rightarrow> bool" where
  "record_readable pv b \<longleftrightarrow> pv_record pv (record_body_type b) (pv_record_fields pv b) = b \<and>
     plain_fields reserved_record_keys (pv_record_fields pv b) \<and>
     (case b of
        OperationStarted l i \<Rightarrow> check_intent (map_of (pv_record_fields pv b) ''intent'') = Inr ()
      | OperationFinished runId ot er \<Rightarrow> map_of (pv_record_fields pv b) ''runId'' = Some (JsonString runId)
      | _ \<Rightarrow> True)"

definition safe_seq :: "int \<Rightarrow> bool" where
  "safe_seq s \<longleftrightarrow> 0 < s \<and> s \<le> MAX_SAFE_INTEGER"

definition safe_time :: "int \<Rightarrow> bool" where
  "safe_time t \<longleftrightarrow> 0 \<le> t \<and> t \<le> MAX_SAFE_INTEGER"

fun storable :: "payload_view \<Rightarrow> session_mutation \<Rightarrow> bool" where
  "storable pv (EntryMutation l e) \<longleftrightarrow> safe_seq (e_seq e) \<and> safe_time (e_timestamp e) \<and> entry_readable pv (e_body e)"
| "storable pv (RecordMutation r) \<longleftrightarrow> safe_seq (r_seq r) \<and> safe_time (r_timestamp r) \<and> record_readable pv (r_body r)"
| "storable pv (LaneMutation s l t) \<longleftrightarrow> safe_seq s"
| "storable pv (NameMutation s n) \<longleftrightarrow> safe_seq s"
| "storable pv (LabelMutation s t l) \<longleftrightarrow> safe_seq s"

lemma entry_type_known: "map_of ENTRY_TYPES (entry_type_name t) = Some t"
  by (cases t) (simp_all add: ENTRY_TYPES_def)

lemma record_type_known: "map_of RECORD_TYPES (record_type_name t) = Some t"
  by (cases t) (simp_all add: RECORD_TYPES_def)

lemma json_number_NInt [simp]: "json_number (NInt i)"
  by (simp add: json_number_def js_is_neg_zero_def num_canon_def)

lemma string_field_ok [simp]: "list_all (\<lambda>kv. json_ok (snd kv)) (string_field k v)"
  by (simp add: string_field_def split: option.splits)

lemma id_json_ok [simp]: "json_ok (id_json i)"
  by (simp add: id_json_def split: option.splits)

lemma string_field_keys [simp]: "map fst (string_field k v) = (if v = None then [] else [k])"
  by (simp add: string_field_def split: option.splits)

lemma string_field_get [simp]:
  "map_of (string_field k v) j = (if j = k then map_option JsonString v else None)"
  by (simp add: string_field_def split: option.splits)

lemma plain_fieldsD:
  assumes "plain_fields reserved kvs" and "k \<in> set reserved"
  shows "map_of kvs k = None" "k \<notin> fst ` set kvs"
  using assms by (auto simp: plain_fields_def map_of_eq_None_iff)

lemma without_plain: "plain_fields reserved kvs \<Longrightarrow> set ks \<subseteq> set reserved \<Longrightarrow> without ks kvs = kvs"
  by (force simp: without_def plain_fields_def filter_id_conv)

lemma mutation_json_ok: "storable pv m \<Longrightarrow> json_ok (JsonObject (mutation_json pv m))"
proof (cases m)
  case (EntryMutation l e)
  assume "storable pv m"
  with EntryMutation have f: "plain_fields reserved_entry_keys (pv_entry_fields pv (e_body e))"
    by (simp add: entry_readable_def)
  note keys = plain_fieldsD(2) [OF f]
  show ?thesis using f keys EntryMutation
    by (auto simp: entry_json_def plain_fields_def reserved_entry_keys_def)
next
  case (RecordMutation r)
  assume "storable pv m"
  with RecordMutation have f: "plain_fields reserved_record_keys (pv_record_fields pv (r_body r))"
    by (simp add: record_readable_def)
  note keys = plain_fieldsD(2) [OF f]
  show ?thesis using f keys RecordMutation
    by (auto simp: record_json_def plain_fields_def reserved_record_keys_def)
qed auto

lemma js_int_safe: "0 \<le> i \<Longrightarrow> i \<le> MAX_SAFE_INTEGER \<Longrightarrow> js_isSafeInteger (NInt i)"
  by (simp add: js_isSafeInteger_def)

lemma safe_reads:
  "safe_seq s \<Longrightarrow> requireSequence (Some (int_json s)) = Inr s"
  "safe_time t \<Longrightarrow> requireTimestamp (Some (int_json t)) = Inr t"
  by (simp_all add: requireSequence_def requireTimestamp_def safe_seq_def safe_time_def js_int_safe)

lemma simple_reads [simp]:
  "requireString (Some (JsonString s)) f = Inr s"
  "requireNullableId (Some (id_json i)) f = Inr i"
  "optional_string (map_option JsonString v) f = Inr v"
  by (simp_all add: requireString_def requireNullableId_def id_json_def optional_string_def split: option.splits)

lemma entry_read_back:
  assumes "storable pv (EntryMutation l e)"
  shows "parseEntryMutation pv (mutation_json pv (EntryMutation l e)) (e_seq e) = Inr (EntryMutation l e)"
proof -
  let ?fs = "pv_entry_fields pv (e_body e)"
  define obj where "obj = mutation_json pv (EntryMutation l e)"
  from assms have f: "plain_fields reserved_entry_keys ?fs" and body: "pv_entry pv (e_type e) ?fs = e_body e"
    and time: "safe_time (e_timestamp e)"
    and custom: "case e_body e of CustomEntry t d \<Rightarrow> map_of ?fs ''customType'' = Some (JsonString t) | _ \<Rightarrow> True"
    by (auto simp: entry_readable_def)
  have none: "map_of ?fs k = None" if "k \<in> set reserved_entry_keys" for k using plain_fieldsD(1) [OF f that] .
  have drop: "without ks ?fs = ?fs" if "set ks \<subseteq> set reserved_entry_keys" for ks using without_plain [OF f that] .
  have get: "map_of obj ''lane'' = map_option JsonString l"
    "map_of obj ''id'' = Some (JsonString (e_id e))"
    "map_of obj ''type'' = Some (JsonString (entry_type_name (e_type e)))"
    "map_of obj ''parentId'' = Some (id_json (e_parentId e))"
    "map_of obj ''timestamp'' = Some (int_json (e_timestamp e))"
    "e_type e = CustomT \<Longrightarrow> \<exists>t. map_of obj ''customType'' = Some (JsonString t)"
    using none [of "''lane''"] none [of "''parentId''"] none [of "''timestamp''"] custom
    by (auto simp: obj_def entry_json_def map_add_def reserved_entry_keys_def split: option.splits entry_body.splits)
  have "without [''id'', ''type'', ''parentId'', ''seq'', ''timestamp'']
      (without [''kind'', ''lane''] obj) = ?fs"
    using drop [of "[''kind'', ''lane'']"] drop [of "[''id'', ''type'', ''parentId'', ''seq'', ''timestamp'']"]
    by (simp add: obj_def entry_json_def string_field_def without_def reserved_entry_keys_def split: option.splits)
  then have "parseEntryMutation pv obj (e_seq e) = Inr (EntryMutation l e)"
    using get(6) body time
    by (auto simp: parseEntryMutation_def get(1-5) entry_type_known safe_reads Let_def split: option.splits)
  then show ?thesis by (simp add: obj_def)
qed

lemma record_read_back:
  assumes "storable pv (RecordMutation r)"
  shows "parseRecordMutation pv (mutation_json pv (RecordMutation r)) (r_seq r) = Inr (RecordMutation r)"
proof -
  let ?fs = "pv_record_fields pv (r_body r)" and ?t = "record_body_type (r_body r)"
  define obj where "obj = mutation_json pv (RecordMutation r)"
  from assms have f: "plain_fields reserved_record_keys ?fs" and body: "pv_record pv ?t ?fs = r_body r"
    and time: "safe_time (r_timestamp r)"
    and checked: "case r_body r of OperationStarted l i \<Rightarrow> check_intent (map_of ?fs ''intent'') = Inr ()
      | OperationFinished runId ot er \<Rightarrow> map_of ?fs ''runId'' = Some (JsonString runId) | _ \<Rightarrow> True"
    by (auto simp: record_readable_def)
  have none: "map_of ?fs k = None" if "k \<in> set reserved_record_keys" for k using plain_fieldsD(1) [OF f that] .
  have drop: "without ks ?fs = ?fs" if "set ks \<subseteq> set reserved_record_keys" for ks using without_plain [OF f that] .
  have get: "map_of obj ''id'' = Some (JsonString (r_id r))"
    "map_of obj ''lane'' = Some (JsonString (r_lane r))"
    "map_of obj ''type'' = Some (JsonString (record_type_name ?t))"
    "map_of obj ''timestamp'' = Some (int_json (r_timestamp r))"
    "?t = OperationStartedT \<Longrightarrow> check_intent (map_of obj ''intent'') = Inr ()"
    "?t = OperationFinishedT \<Longrightarrow> \<exists>i. map_of obj ''runId'' = Some (JsonString i)"
    using none [of "''timestamp''"] checked
    by (auto simp: obj_def record_json_def map_add_def reserved_record_keys_def check_intent_def
        split: option.splits record_body.splits)
  have "without [''id'', ''lane'', ''type'', ''seq'', ''timestamp'']
      (without [''kind''] obj) = ?fs"
    using drop [of "[''kind'']"] drop [of "[''id'', ''lane'', ''type'', ''seq'', ''timestamp'']"]
    by (simp add: obj_def record_json_def without_def reserved_record_keys_def)
  then have "parseRecordMutation pv obj (r_seq r) = Inr (RecordMutation r)"
    using get(5,6) body time
    by (auto simp: parseRecordMutation_def get(1-4) record_type_known safe_reads Let_def)
  then show ?thesis by (simp add: obj_def)
qed

lemma parse_mutation_json:
  assumes "storable pv m" and "parseObject nf line = Inr (mutation_json pv m)"
  shows "parseMutation nf pv line = Inr m"
proof (cases m)
  case (EntryMutation l e)
  with assms have f: "plain_fields reserved_entry_keys (pv_entry_fields pv (e_body e))" and "safe_seq (e_seq e)"
    by (simp_all add: entry_readable_def)
  with plain_fieldsD(1) [OF f, of "''seq''"] have "requireSequence (map_of (mutation_json pv m) ''seq'') = Inr (e_seq e)"
    using EntryMutation by (auto simp: entry_json_def map_add_def reserved_entry_keys_def safe_reads split: option.splits)
  with assms EntryMutation entry_read_back show ?thesis by (simp add: parseMutation_def)
next
  case (RecordMutation r)
  with assms have f: "plain_fields reserved_record_keys (pv_record_fields pv (r_body r))" and "safe_seq (r_seq r)"
    by (simp_all add: record_readable_def)
  with plain_fieldsD(1) [OF f, of "''seq''"] have "requireSequence (map_of (mutation_json pv m) ''seq'') = Inr (r_seq r)"
    using RecordMutation by (auto simp: record_json_def map_add_def reserved_record_keys_def safe_reads split: option.splits)
  with assms RecordMutation record_read_back show ?thesis by (simp add: parseMutation_def)
qed (use assms in \<open>auto simp: parseMutation_def parseLaneMutation_def parseFactMutation_def safe_reads map_add_def
    split: option.splits\<close>)

lemma mutation_line_read:
  assumes "format_ok nf" and "storable pv m"
  shows "parseMutation nf pv (mutation_line nf pv m) = Inr m"
  using parse_mutation_json [OF assms(2)] json_round_trip [OF assms(1) mutation_json_ok [OF assms(2)]]
  by (simp add: parseObject_def mutation_line_def)

lemma mutation_line_no_newline:
  assumes "format_ok nf" and "storable pv m"
  shows "CHR 0x0A \<notin> set (mutation_line nf pv m)"
  using text_no_newline [OF assms(1) mutation_json_ok [OF assms(2)]] by (simp add: mutation_line_def)

lemma torn_line_syntax:
  assumes "format_ok nf" and "storable pv m" and "strict_prefix p (mutation_line nf pv m)"
  shows "parseMutation nf pv p = Inl JsonlSyntax"
  using torn_object_rejected [OF assms(1) mutation_json_ok [OF assms(2)]] assms(3)
  by (simp add: mutation_line_def parseMutation_def parseObject_def)

text \<open>The header.\<close>

definition storable_header :: "jsonl_header \<Rightarrow> bool" where
  "storable_header h \<longleftrightarrow> safe_time (jh_createdAt h) \<and>
     (jh_parentSessionId h = None \<or> jh_legacyParentSessionPath h = None) \<and>
     (case jh_metadata h of None \<Rightarrow> True | Some kvs \<Rightarrow> json_ok (JsonObject kvs))"

lemma header_json_ok: "storable_header h \<Longrightarrow> json_ok (JsonObject (header_json h))"
  by (auto simp: header_json_def storable_header_def split: option.splits)

lemma header_read:
  assumes "format_ok nf" and "storable_header h"
  shows "parseHeader nf (json_stringify nf (JsonObject (header_json h))) = Inr h"
proof -
  have "parseObject nf (json_stringify nf (JsonObject (header_json h))) = Inr (header_json h)"
    using json_round_trip [OF assms(1) header_json_ok [OF assms(2)]] by (simp add: parseObject_def)
  with assms(2) show ?thesis
    by (auto simp: decodeHeader_def header_json_def storable_header_def safe_reads map_add_def num_canon_def
        optional_string_def split: option.splits)
qed

text \<open>The line of a storable mutation has no newline and is decoded to the mutation; every proper
  beginning of it is a syntax error, which is how a reader recognises an append that was cut off.\<close>

theorem mutation_line_round_trip:
  assumes "format_ok nf" and "storable pv m"
  shows "\<exists>line. encodeMutation nf pv m = line @ [CHR 0x0A] \<and> CHR 0x0A \<notin> set line \<and>
    parseMutation nf pv line = Inr m \<and>
    (\<forall>p. strict_prefix p line \<longrightarrow> parseMutation nf pv p = Inl JsonlSyntax)"
  using mutation_line_read [OF assms] mutation_line_no_newline [OF assms] torn_line_syntax [OF assms]
  by (auto simp: encodeMutation_def)

text \<open>A format and a view of some bodies.\<close>

definition sample_format :: number_format where
  "sample_format = \<lparr>
     nf_show = (\<lambda>n. case n of NInt i \<Rightarrow> int_text i @ ''e'' | NFloat w \<Rightarrow> ''.'' @ nat_text (unat w)),
     nf_read = (\<lambda>t. if t \<noteq> [] \<and> hd t = CHR ''.'' then map_option (\<lambda>k. NFloat (of_nat k)) (read_nat (tl t))
                   else map_option NInt (read_int (butlast t))) \<rparr>"

lemma read_nat_letter: "c \<in> set t \<Longrightarrow> \<not> is_digit c \<Longrightarrow> read_nat t = None"
  by (auto simp: read_nat_def list_all_iff)

lemma read_int_exponent: "read_int (t @ ''e'') = None"
proof -
  have e: "\<not> is_digit (CHR ''e'')" by (simp add: is_digit_def)
  show ?thesis
  proof (cases t)
    case Nil
    then show ?thesis using read_nat_letter [OF _ e] by (auto simp: read_int_def)
  next
    case (Cons c u)
    then show ?thesis using read_nat_letter [OF _ e] by (auto simp: read_int_def)
  qed
qed

lemma sample_format_ok: "format_ok sample_format"
  unfolding format_ok_def
proof (intro allI impI)
  fix n
  assume "json_number n \<and> \<not> (js_isInteger n \<and> \<bar>js_int n\<bar> \<le> MAX_SAFE_INTEGER)"
  show "nf_show sample_format n \<noteq> [] \<and> list_all number_char (nf_show sample_format n) \<and>
      number_value sample_format (nf_show sample_format n) = Some n"
  proof (cases n)
    case (NInt i)
    have "hd (int_text i) \<noteq> CHR ''.''"
      using nat_text_digits [of "nat i"] nat_text_nonempty [of "nat i"]
      by (cases "nat_text (nat i)") (auto simp: int_text_def is_digit_def)
    then have "number_value sample_format (int_text i @ ''e'') = Some (NInt i)"
      using read_int_exponent [of "int_text i"] read_int_text [of i] int_text_chars(2) [of i]
      by (simp add: number_value_def sample_format_def butlast_append)
    with NInt int_text_chars [of i] show ?thesis by (simp add: sample_format_def number_char_def)
  next
    case (NFloat w)
    have "read_int (''.'' @ nat_text (unat w)) = None"
      using read_nat_letter [of "CHR ''.''"] by (simp add: read_int_def is_digit_def)
    with NFloat nat_text_digits [of "unat w"] show ?thesis
      by (auto simp: sample_format_def number_value_def read_nat_text number_char_def list_all_iff)
  qed
qed

definition sample_view :: payload_view where
  "sample_view = \<lparr>
     pv_entry_fields = (\<lambda>b. case b of ThinkingLevelEntry l \<Rightarrow> [(''thinkingLevel'', JsonString l)] | _ \<Rightarrow> []),
     pv_entry = (\<lambda>t kvs. case map_of kvs ''thinkingLevel'' of
        Some (JsonString l) \<Rightarrow> ThinkingLevelEntry l | _ \<Rightarrow> ActiveToolsEntry []),
     pv_record_fields = (\<lambda>b. case b of AbortRequested i \<Rightarrow> [(''runId'', JsonString i)] | _ \<Rightarrow> []),
     pv_record = (\<lambda>t kvs. case map_of kvs ''runId'' of
        Some (JsonString i) \<Rightarrow> AbortRequested i | _ \<Rightarrow> AbortRequested []) \<rparr>"

definition sample_entry_mutation :: session_mutation where
  "sample_entry_mutation = EntryMutation (Some ''main'')
     \<lparr> e_id = ''a'', e_seq = 1, e_parentId = None, e_timestamp = 5, e_body = ThinkingLevelEntry ''high'' \<rparr>"

lemma sample_storable: "storable sample_view sample_entry_mutation"
  by (simp add: sample_entry_mutation_def safe_seq_def safe_time_def MAX_SAFE_INTEGER_def entry_readable_def
      sample_view_def plain_fields_def reserved_entry_keys_def)

theorem mutation_line_round_trip_witness:
  "\<exists>line. encodeMutation sample_format sample_view sample_entry_mutation = line @ [CHR 0x0A] \<and> CHR 0x0A \<notin> set line \<and>
    parseMutation sample_format sample_view line = Inr sample_entry_mutation \<and>
    (\<forall>p. strict_prefix p line \<longrightarrow> parseMutation sample_format sample_view p = Inl JsonlSyntax)"
  by (rule mutation_line_round_trip [OF sample_format_ok sample_storable])

end
