(* ===== verification/Jsonl_Storage.thy ===== *)
theory Jsonl_Storage
  imports Session_Memory Jsonl_Codec
begin

text \<open>
  \<^verbatim>\<open>packages/agent/src/harness/session/jsonl/storage.ts\<close>: the session storage in a file of JSON lines. The
  file system is an argument: its operations act on a world \<open>'w\<close> and may fail. \<^verbatim>\<open>enqueue\<close> runs the
  writes of a storage one after the other, so a write is a function of the storage and the world.
\<close>

section \<open>Effects\<close>

type_synonym ('w, 'a) io = "'w \<Rightarrow> (session_error + 'a) \<times> 'w"

definition io_return :: "'a \<Rightarrow> ('w, 'a) io" where
  "io_return x w = (Inr x, w)"

definition io_lift :: "session_error + 'a \<Rightarrow> ('w, 'a) io" where
  "io_lift r w = (r, w)"

definition io_bind :: "('w, 'a) io \<Rightarrow> ('a \<Rightarrow> ('w, 'b) io) \<Rightarrow> ('w, 'b) io" where
  "io_bind m f w = (case m w of (Inl e, w') \<Rightarrow> (Inl e, w') | (Inr x, w') \<Rightarrow> f x w')"

fun io_fold :: "('s \<Rightarrow> 'a \<Rightarrow> ('w, 's) io) \<Rightarrow> 's \<Rightarrow> 'a list \<Rightarrow> ('w, 's) io" where
  "io_fold f s [] = io_return s"
| "io_fold f s (x # xs) = io_bind (f s x) (\<lambda>s'. io_fold f s' xs)"

record 'w jsonl_fs =
  fs_readTextFile :: "string \<Rightarrow> 'w \<Rightarrow> (file_error + string) \<times> 'w"
  fs_writeFile :: "string \<Rightarrow> string \<Rightarrow> 'w \<Rightarrow> (file_error + unit) \<times> 'w"
  fs_appendFile :: "string \<Rightarrow> string \<Rightarrow> 'w \<Rightarrow> (file_error + unit) \<times> 'w"
  fs_renameFile :: "string \<Rightarrow> string \<Rightarrow> 'w \<Rightarrow> (file_error + unit) \<times> 'w"
  fs_remove :: "string \<Rightarrow> 'w \<Rightarrow> (file_error + unit) \<times> 'w"
  fs_mtimeMs :: "string \<Rightarrow> 'w \<Rightarrow> (file_error + int) \<times> 'w"  \<comment> \<open>of \<^verbatim>\<open>fileInfo\<close>\<close>

definition fileResult :: "string \<Rightarrow> string \<Rightarrow> ('w \<Rightarrow> (file_error + 'a) \<times> 'w) \<Rightarrow> ('w, 'a) io" where
  "fileResult what path f w =
     (case f w of
        (Inr x, w') \<Rightarrow> (Inr x, w')
      | (Inl err, w') \<Rightarrow>
          (Inl (SessionError (if err = FileNotFound then NotFound else StorageError) (FileFailed what path err)), w'))"

definition invalidFile :: "string \<Rightarrow> nat \<Rightarrow> jsonl_decode_error + error_detail \<Rightarrow> session_error" where
  "invalidFile path line cause = SessionError InvalidEntry (InvalidLine path line cause)"

definition publishFileAtomically ::
  "'w jsonl_fs \<Rightarrow> string \<Rightarrow> (string \<Rightarrow> ('w, unit) io) \<Rightarrow> ('w, unit) io" where
  "publishFileAtomically fs destinationPath populate w =
     (let tempPath = destinationPath @ ''.tmp'' in
      case io_bind (populate tempPath) (\<lambda>_. fileResult ''Failed to publish staged file'' destinationPath
             (fs_renameFile fs tempPath destinationPath)) w of
        (Inr _, w') \<Rightarrow> (Inr (), w')
      | (Inl err, w') \<Rightarrow> (Inl err, snd (fs_remove fs tempPath w')))"

section \<open>The storage\<close>

record jsonl_metadata =
  jm_id :: id
  jm_createdAt :: int
  jm_cwd :: string
  jm_path :: string
  jm_modifiedAt :: int
  jm_sourceFormat :: int
  jm_parentSessionId :: "id option"
  jm_legacyParentSessionPath :: "string option"
  jm_metadata :: "(string \<times> json) list option"

definition metadataFromHeader :: "jsonl_header \<Rightarrow> string \<Rightarrow> int \<Rightarrow> jsonl_metadata" where
  "metadataFromHeader h path modifiedAt =
     \<lparr> jm_id = jh_id h, jm_createdAt = jh_createdAt h, jm_cwd = jh_cwd h, jm_path = path,
       jm_modifiedAt = modifiedAt, jm_sourceFormat = 4, jm_parentSessionId = jh_parentSessionId h,
       jm_legacyParentSessionPath = jh_legacyParentSessionPath h, jm_metadata = jh_metadata h \<rparr>"

record jsonl_storage =
  jl_metadata :: jsonl_metadata
  jl_state :: session_state

definition jl_create :: "'w jsonl_fs \<Rightarrow> number_format \<Rightarrow> string \<Rightarrow> jsonl_header \<Rightarrow> ('w, jsonl_storage) io" where
  "jl_create fs nf path header =
     io_bind (fileResult ''Failed to initialize session'' path (fs_writeFile fs path (encodeHeader nf header))) (\<lambda>_.
     io_bind (fileResult ''Failed to read session metadata'' path (fs_mtimeMs fs path)) (\<lambda>mtimeMs.
     io_return \<lparr> jl_metadata = metadataFromHeader header path mtimeMs, jl_state = initial_state \<rparr>))"

text \<open>Reading the lines of a file.\<close>

abbreviation NEWLINE :: char where
  "NEWLINE \<equiv> CHR 0x0A"

fun split_lines :: "string \<Rightarrow> string list" where
  "split_lines [] = [[]]"
| "split_lines (c # s) =
     (if c = NEWLINE then [] # split_lines s
      else case split_lines s of [] \<Rightarrow> [[c]] | l # ls \<Rightarrow> (c # l) # ls)"

definition physical_lines :: "string \<Rightarrow> string list" where
  "physical_lines content =
     (let lines = split_lines content in if last lines = [] then butlast lines else lines)"

fun join_newline :: "string list \<Rightarrow> string" where
  "join_newline [] = []"
| "join_newline [l] = l"
| "join_newline (l # k # ls) = l @ NEWLINE # join_newline (k # ls)"

text \<open>The loop over the mutation lines: the storage, and the index of the line that is torn.\<close>

fun load_lines ::
  "number_format \<Rightarrow> payload_view \<Rightarrow> string \<Rightarrow> nat \<Rightarrow> jsonl_storage \<Rightarrow> string list
     \<Rightarrow> session_error + jsonl_storage \<times> nat option" where
  "load_lines nf pv path lineIndex st [] = Inr (st, None)"
| "load_lines nf pv path lineIndex st (line # rest) =
     (case parseMutation nf pv line of
        Inl err \<Rightarrow>
          if rest = [] \<and> err = JsonlSyntax then Inr (st, Some lineIndex)
          else Inl (invalidFile path (lineIndex + 1) (Inl err))
      | Inr m \<Rightarrow>
          (case applyMutation (jl_state st) m of
             Inl (SessionError code d) \<Rightarrow>
               Inl (if code = InvalidEntry then invalidFile path (lineIndex + 1) (Inr d) else SessionError code d)
           | Inr s \<Rightarrow> load_lines nf pv path (lineIndex + 1) (st\<lparr> jl_state := s \<rparr>) rest))"

definition load_content ::
  "'w jsonl_fs \<Rightarrow> number_format \<Rightarrow> payload_view \<Rightarrow> string \<Rightarrow> string \<Rightarrow> string list \<Rightarrow> jsonl_storage
     \<Rightarrow> ('w, jsonl_storage) io" where
  "load_content fs nf pv path content physicalLines st0 =
     io_bind (io_lift (load_lines nf pv path 1 st0 (tl physicalLines))) (\<lambda>(st, torn).
     case torn of
       Some lineIndex \<Rightarrow>
         (let validPrefix = join_newline (take lineIndex physicalLines) @ [NEWLINE] in
          io_bind (publishFileAtomically fs path (\<lambda>tempPath.
            fileResult ''Failed to stage torn-tail repair'' path (fs_writeFile fs tempPath validPrefix))) (\<lambda>_.
          io_return st))
     | None \<Rightarrow>
         if content \<noteq> [] \<and> last content = NEWLINE then io_return st
         else io_bind (fileResult ''Failed to repair unterminated session tail'' path
                (fs_appendFile fs path [NEWLINE])) (\<lambda>_. io_return st))"

definition jl_load ::
  "'w jsonl_fs \<Rightarrow> number_format \<Rightarrow> payload_view \<Rightarrow> string \<Rightarrow> ('w, jsonl_storage) io" where
  "jl_load fs nf pv path =
     io_bind (fileResult ''Failed to read session'' path (fs_readTextFile fs path)) (\<lambda>content.
     let physicalLines = physical_lines content in
     if physicalLines = [] \<or> hd physicalLines = [] then io_lift (Inl (invalidFile path 1 (Inl MissingHeader)))
     else case parseHeader nf (hd physicalLines) of
            Inl err \<Rightarrow> io_lift (Inl (invalidFile path 1 (Inl err)))
          | Inr header \<Rightarrow>
              io_bind (fileResult ''Failed to read session metadata'' path (fs_mtimeMs fs path)) (\<lambda>mtimeMs.
              load_content fs nf pv path content physicalLines
                \<lparr> jl_metadata = metadataFromHeader header path mtimeMs, jl_state = initial_state \<rparr>))"

text \<open>\<^verbatim>\<open>appendMutation\<close> and then \<^verbatim>\<open>applyMutation\<close>, as every write ends.\<close>

definition jl_commit ::
  "'w jsonl_fs \<Rightarrow> number_format \<Rightarrow> payload_view \<Rightarrow> jsonl_storage \<Rightarrow> session_mutation \<Rightarrow> ('w, jsonl_storage) io" where
  "jl_commit fs nf pv st m =
     io_bind (fileResult ''Failed to append session'' (jm_path (jl_metadata st))
       (fs_appendFile fs (jm_path (jl_metadata st)) (encodeMutation nf pv m))) (\<lambda>_.
     io_lift (rbind (applyMutation (jl_state st) m) (\<lambda>s. Inr (st\<lparr> jl_state := s \<rparr>))))"

definition jl_fork ::
  "'w jsonl_fs \<Rightarrow> number_format \<Rightarrow> payload_view \<Rightarrow> jsonl_storage \<Rightarrow> string \<Rightarrow> jsonl_header \<Rightarrow> fork_options
     \<Rightarrow> ('w, jsonl_storage) io" where
  "jl_fork fs nf pv st path header options =
     io_bind (io_lift (createForkMutations (jl_state st) options)) (\<lambda>mutations.
     io_bind (publishFileAtomically fs path (\<lambda>tempPath.
       io_bind (jl_create fs nf tempPath header) (\<lambda>target.
       io_bind (io_fold (jl_commit fs nf pv) target mutations) (\<lambda>_. io_return ())))) (\<lambda>_.
     jl_load fs nf pv path))"

definition jl_createLane ::
  "'w jsonl_fs \<Rightarrow> number_format \<Rightarrow> payload_view \<Rightarrow> jsonl_storage \<Rightarrow> lane \<Rightarrow> id option \<Rightarrow> ('w, jsonl_storage) io" where
  "jl_createLane fs nf pv st l target =
     io_bind (io_lift (validateNewLane (jl_state st) l)) (\<lambda>_.
     io_bind (io_lift (validateTarget (jl_state st) target)) (\<lambda>_.
     jl_commit fs nf pv st (LaneMutation (nextSequence (jl_state st)) l target)))"

definition jl_moveLane ::
  "'w jsonl_fs \<Rightarrow> number_format \<Rightarrow> payload_view \<Rightarrow> jsonl_storage \<Rightarrow> lane \<Rightarrow> id option \<Rightarrow> ('w, jsonl_storage) io" where
  "jl_moveLane fs nf pv st l to =
     io_bind (io_lift (requireLane (jl_state st) l)) (\<lambda>_.
     io_bind (io_lift (validateTarget (jl_state st) to)) (\<lambda>_.
     jl_commit fs nf pv st (LaneMutation (nextSequence (jl_state st)) l to)))"

definition jl_appendEntry ::
  "'w jsonl_fs \<Rightarrow> number_format \<Rightarrow> payload_view \<Rightarrow> int \<Rightarrow> jsonl_storage \<Rightarrow> provisioned_entry \<Rightarrow> lane
     \<Rightarrow> ('w, entry \<times> jsonl_storage) io" where
  "jl_appendEntry fs nf pv now st newEntry l =
     io_bind (io_lift (requireLane (jl_state st) l)) (\<lambda>parentId.
     io_bind (io_lift (validateUnusedId (jl_state st) (pe_id newEntry))) (\<lambda>_.
     let e = provision (nextSequence (jl_state st)) now newEntry parentId
     in io_bind (jl_commit fs nf pv st (EntryMutation (Some l) e)) (\<lambda>st'. io_return (e, st'))))"

definition jl_appendRecord ::
  "'w jsonl_fs \<Rightarrow> number_format \<Rightarrow> payload_view \<Rightarrow> int \<Rightarrow> jsonl_storage \<Rightarrow> new_record
     \<Rightarrow> ('w, lane_record \<times> jsonl_storage) io" where
  "jl_appendRecord fs nf pv now st newRecord =
     io_bind (io_lift (requireLane (jl_state st) (nr_lane newRecord))) (\<lambda>_.
     io_bind (io_lift (validateUnusedId (jl_state st) (nr_id newRecord))) (\<lambda>_.
     io_bind (io_lift (findOpenOperations (jl_state st) (nr_lane newRecord) (Some (NInt 1)))) (\<lambda>open_ops.
     io_bind (io_lift (case open_ops of
              [] \<Rightarrow> Inr ()
            | current # _ \<Rightarrow>
                ensure (record_body_type (nr_body newRecord) \<noteq> OperationStartedT)
                  (SessionError StorageError (OpenOperation (nr_lane newRecord) (r_id current))))) (\<lambda>_.
     let r = stamp_record (nextSequence (jl_state st)) now newRecord
     in io_bind (jl_commit fs nf pv st (RecordMutation r)) (\<lambda>st'. io_return (r, st'))))))"

definition jl_setName ::
  "'w jsonl_fs \<Rightarrow> number_format \<Rightarrow> payload_view \<Rightarrow> jsonl_storage \<Rightarrow> string option \<Rightarrow> ('w, jsonl_storage) io" where
  "jl_setName fs nf pv st n = jl_commit fs nf pv st (NameMutation (nextSequence (jl_state st)) n)"

definition jl_setLabel ::
  "'w jsonl_fs \<Rightarrow> number_format \<Rightarrow> payload_view \<Rightarrow> jsonl_storage \<Rightarrow> id \<Rightarrow> string option \<Rightarrow> ('w, jsonl_storage) io" where
  "jl_setLabel fs nf pv st i l =
     io_bind (io_lift (validateTarget (jl_state st) (Some i))) (\<lambda>_.
     jl_commit fs nf pv st (LabelMutation (nextSequence (jl_state st)) i l))"

section \<open>The text of a session\<close>

definition session_text :: "number_format \<Rightarrow> payload_view \<Rightarrow> jsonl_header \<Rightarrow> session_mutation list \<Rightarrow> string" where
  "session_text nf pv h ms = encodeHeader nf h @ concat (map (encodeMutation nf pv) ms)"

lemma session_text_snoc: "session_text nf pv h (ms @ [m]) = session_text nf pv h ms @ encodeMutation nf pv m"
  by (simp add: session_text_def)

lemma session_text_newline: "session_text nf pv h ms \<noteq> [] \<and> last (session_text nf pv h ms) = NEWLINE"
  by (induction ms rule: rev_induct) (simp_all add: session_text_def encodeHeader_def encodeMutation_def)

lemma split_lines_plain: "NEWLINE \<notin> set l \<Longrightarrow> split_lines l = [l]"
  by (induction l) auto

lemma split_lines_nonempty: "split_lines s \<noteq> []"
  by (induction s) (auto split: list.splits)

lemma split_lines_line: "NEWLINE \<notin> set l \<Longrightarrow> split_lines (l @ NEWLINE # s) = l # split_lines s"
  by (induction l) auto

lemma split_lines_lines:
  assumes "\<forall>l \<in> set ls. NEWLINE \<notin> set l" and "NEWLINE \<notin> set p"
  shows "split_lines (concat (map (\<lambda>l. l @ [NEWLINE]) ls) @ p) = ls @ [p]"
  using assms by (induction ls) (simp_all add: split_lines_line split_lines_plain)

lemma join_newline_lines: "ls \<noteq> [] \<Longrightarrow> join_newline ls @ [NEWLINE] = concat (map (\<lambda>l. l @ [NEWLINE]) ls)"
  by (induction ls rule: join_newline.induct) auto

abbreviation header_line :: "number_format \<Rightarrow> jsonl_header \<Rightarrow> string" where
  "header_line nf h \<equiv> json_stringify nf (JsonObject (header_json h))"

lemma session_text_lines:
  "session_text nf pv h ms = concat (map (\<lambda>l. l @ [NEWLINE]) (header_line nf h # map (mutation_line nf pv) ms))"
  by (simp add: session_text_def encodeHeader_def encodeMutation_def [abs_def] comp_def)

lemma physical_lines_text:
  assumes "format_ok nf" and "storable_header h" and "list_all (storable pv) ms" and "NEWLINE \<notin> set p"
  shows "physical_lines (session_text nf pv h ms @ p)
    = header_line nf h # map (mutation_line nf pv) ms @ (if p = [] then [] else [p])"
proof -
  have "NEWLINE \<notin> set (header_line nf h)" using text_no_newline [OF assms(1) header_json_ok [OF assms(2)]] .
  moreover have "\<forall>m \<in> set ms. NEWLINE \<notin> set (mutation_line nf pv m)"
    using mutation_line_no_newline [OF assms(1)] assms(3) by (auto simp: list_all_iff)
  ultimately have "split_lines (session_text nf pv h ms @ p) = (header_line nf h # map (mutation_line nf pv) ms) @ [p]"
    unfolding session_text_lines using assms(4) by (intro split_lines_lines) auto
  then show ?thesis by (simp add: physical_lines_def butlast_append)
qed

lemma load_lines_replay:
  assumes "format_ok nf" and "list_all (storable pv) ms" and "applyMutations (jl_state st) ms = Inr s"
  shows "load_lines nf pv path i st (map (mutation_line nf pv) ms @ rest)
    = load_lines nf pv path (i + length ms) (st\<lparr> jl_state := s \<rparr>) rest"
  using assms(2,3)
proof (induction ms arbitrary: st i)
  case (Cons m ms)
  then obtain t where t: "applyMutation (jl_state st) m = Inr t" "applyMutations t ms = Inr s"
    by (auto simp: rbind_Inr_iff)
  with Cons.IH [of "st\<lparr> jl_state := t \<rparr>" "i + 1"] Cons.prems mutation_line_read [OF assms(1)] show ?case
    by simp
next
  case Nil
  then have "st\<lparr> jl_state := s \<rparr> = st" by simp
  then show ?case by simp
qed

section \<open>File systems\<close>

text \<open>
  What the interface documents of its operations, over the texts the files hold: reading returns the
  text; writing creates or overwrites; appending adds to the end, and an append that fails may have
  written a beginning; renaming is atomic. A failed write may leave anything in its own file.
\<close>

definition text_of :: "string option \<Rightarrow> string" where
  "text_of t = (case t of None \<Rightarrow> [] | Some s \<Rightarrow> s)"

definition faithful_fs :: "'w jsonl_fs \<Rightarrow> ('w \<Rightarrow> string \<Rightarrow> string option) \<Rightarrow> bool" where
  "faithful_fs fs files \<longleftrightarrow>
     (\<forall>p w r w'. fs_readTextFile fs p w = (r, w') \<longrightarrow> files w' = files w \<and> (\<forall>s. r = Inr s \<longrightarrow> files w p = Some s)) \<and>
     (\<forall>p s w r w'. fs_writeFile fs p s w = (r, w') \<longrightarrow>
        (\<forall>q. q \<noteq> p \<longrightarrow> files w' q = files w q) \<and> (r = Inr () \<longrightarrow> files w' p = Some s)) \<and>
     (\<forall>p s w r w'. fs_appendFile fs p s w = (r, w') \<longrightarrow>
        (\<forall>q. q \<noteq> p \<longrightarrow> files w' q = files w q) \<and>
        (if r = Inr () then files w' p = Some (text_of (files w p) @ s)
         else files w' p = files w p \<or> (\<exists>t. prefix t s \<and> files w' p = Some (text_of (files w p) @ t)))) \<and>
     (\<forall>p q w r w'. fs_renameFile fs p q w = (r, w') \<longrightarrow>
        files w' = (if r = Inr () then (files w)(q := files w p, p := None) else files w)) \<and>
     (\<forall>p w r w'. fs_remove fs p w = (r, w') \<longrightarrow> (\<forall>q. q \<noteq> p \<longrightarrow> files w' q = files w q)) \<and>
     (\<forall>p w r w'. fs_mtimeMs fs p w = (r, w') \<longrightarrow> files w' = files w)"

lemma spec4: "\<forall>a b c d. P a b c d \<Longrightarrow> P a b c d"
  by blast

lemma faithfulD:
  assumes "faithful_fs fs files"
  shows "fs_readTextFile fs p w = (r1, w') \<Longrightarrow> files w' = files w \<and> (\<forall>s. r1 = Inr s \<longrightarrow> files w p = Some s)"
    and "fs_writeFile fs p s w = (r, w') \<Longrightarrow> (\<forall>q. q \<noteq> p \<longrightarrow> files w' q = files w q) \<and> (r = Inr () \<longrightarrow> files w' p = Some s)"
    and "fs_appendFile fs p s w = (r, w') \<Longrightarrow> (\<forall>q. q \<noteq> p \<longrightarrow> files w' q = files w q) \<and>
      (if r = Inr () then files w' p = Some (text_of (files w p) @ s)
       else files w' p = files w p \<or> (\<exists>t. prefix t s \<and> files w' p = Some (text_of (files w p) @ t)))"
    and "fs_renameFile fs p q w = (r, w') \<Longrightarrow>
      files w' = (if r = Inr () then (files w)(q := files w p, p := None) else files w)"
    and "fs_remove fs p w = (r, w') \<Longrightarrow> (\<forall>q. q \<noteq> p \<longrightarrow> files w' q = files w q)"
    and "fs_mtimeMs fs p w = (r2, w') \<Longrightarrow> files w' = files w"
  by (fact assms [unfolded faithful_fs_def, THEN conjunct1, THEN spec4, THEN mp]
      assms [unfolded faithful_fs_def, THEN conjunct2, THEN conjunct1, THEN spec, THEN spec4, THEN mp]
      assms [unfolded faithful_fs_def, THEN conjunct2, THEN conjunct2, THEN conjunct1, THEN spec, THEN spec4, THEN mp]
      assms [unfolded faithful_fs_def, THEN conjunct2, THEN conjunct2, THEN conjunct2, THEN conjunct1, THEN spec, THEN spec4, THEN mp]
      assms [unfolded faithful_fs_def, THEN conjunct2, THEN conjunct2, THEN conjunct2, THEN conjunct2, THEN conjunct1, THEN spec4, THEN mp]
      assms [unfolded faithful_fs_def, THEN conjunct2, THEN conjunct2, THEN conjunct2, THEN conjunct2, THEN conjunct2, THEN spec4, THEN mp])+

text \<open>A file system on which no operation fails.\<close>

definition reliable_fs :: "'w jsonl_fs \<Rightarrow> ('w \<Rightarrow> string \<Rightarrow> string option) \<Rightarrow> bool" where
  "reliable_fs fs files \<longleftrightarrow>
     (\<forall>p w. files w p \<noteq> None \<longrightarrow> \<not> isl (fst (fs_readTextFile fs p w)) \<and> \<not> isl (fst (fs_mtimeMs fs p w))) \<and>
     (\<forall>p s w. \<not> isl (fst (fs_writeFile fs p s w)) \<and> \<not> isl (fst (fs_appendFile fs p s w))) \<and>
     (\<forall>p q w. files w p \<noteq> None \<longrightarrow> \<not> isl (fst (fs_renameFile fs p q w)))"

lemma fileResult_Inr: "fileResult what p f w = (Inr x, w') \<longleftrightarrow> f w = (Inr x, w')"
  by (auto simp: fileResult_def split: prod.splits sum.splits)

lemma fileResult_Inl: "fileResult what p f w = (Inl e, w') \<Longrightarrow> \<exists>err. f w = (Inl err, w')"
  by (auto simp: fileResult_def split: prod.splits sum.splits)

lemma io_bind_Inr:
  "io_bind m f w = (Inr x, w') \<longleftrightarrow> (\<exists>y u. m w = (Inr y, u) \<and> f y u = (Inr x, w'))"
  by (auto simp: io_bind_def split: prod.splits sum.splits)

lemma io_lift_Inr [simp]: "io_lift r w = (Inr x, w') \<longleftrightarrow> r = Inr x \<and> w' = w"
  by (auto simp: io_lift_def)

lemma io_return_Inr [simp]: "io_return y w = (Inr x, w') \<longleftrightarrow> x = y \<and> w' = w"
  by (auto simp: io_return_def)

lemmas io_simps = io_bind_def io_return_def io_lift_def fileResult_def

lemma not_isl_fst: "\<not> isl (fst x) \<Longrightarrow> \<exists>a b. x = (Inr a, b)"
  by (cases x; cases "fst x") auto

lemma reliable_read:
  assumes "faithful_fs fs files" and "reliable_fs fs files" and "files w p = Some s"
  shows "\<exists>w'. fs_readTextFile fs p w = (Inr s, w') \<and> files w' = files w"
proof -
  obtain a w' where "fs_readTextFile fs p w = (Inr a, w')"
    using assms(2,3) not_isl_fst [of "fs_readTextFile fs p w"] by (auto simp: reliable_fs_def)
  moreover from faithfulD(1) [OF assms(1) this] have "files w' = files w \<and> files w p = Some a" by blast
  ultimately show ?thesis using assms(3) by simp
qed

lemma reliable_mtime:
  assumes "faithful_fs fs files" and "reliable_fs fs files" and "files w p \<noteq> None"
  shows "\<exists>t w'. fs_mtimeMs fs p w = (Inr t, w') \<and> files w' = files w"
proof -
  obtain t w' where "fs_mtimeMs fs p w = (Inr t, w')"
    using assms(2,3) not_isl_fst [of "fs_mtimeMs fs p w"] by (auto simp: reliable_fs_def)
  moreover from faithfulD(6) [OF assms(1) this] have "files w' = files w" .
  ultimately show ?thesis by blast
qed

lemma reliable_append:
  assumes "faithful_fs fs files" and "reliable_fs fs files"
  shows "\<exists>w'. fs_appendFile fs p s w = (Inr (), w') \<and> files w' = (files w)(p \<mapsto> text_of (files w p) @ s)"
proof -
  obtain w' where w': "fs_appendFile fs p s w = (Inr (), w')"
    using assms(2) not_isl_fst [of "fs_appendFile fs p s w"] by (auto simp: reliable_fs_def)
  from faithfulD(3) [OF assms(1) w']
  have "(\<forall>q. q \<noteq> p \<longrightarrow> files w' q = files w q) \<and> files w' p = Some (text_of (files w p) @ s)" by simp
  with w' show ?thesis by (intro exI [of _ w']) auto
qed

lemma reliable_write:
  assumes "faithful_fs fs files" and "reliable_fs fs files"
  shows "\<exists>w'. fs_writeFile fs p s w = (Inr (), w') \<and> files w' = (files w)(p \<mapsto> s)"
proof -
  obtain w' where w': "fs_writeFile fs p s w = (Inr (), w')"
    using assms(2) not_isl_fst [of "fs_writeFile fs p s w"] by (auto simp: reliable_fs_def)
  from faithfulD(2) [OF assms(1) w']
  have "(\<forall>q. q \<noteq> p \<longrightarrow> files w' q = files w q) \<and> files w' p = Some s" by simp
  with w' show ?thesis by (intro exI [of _ w']) auto
qed

lemma reliable_rename:
  assumes "faithful_fs fs files" and "reliable_fs fs files" and "files w p \<noteq> None"
  shows "\<exists>w'. fs_renameFile fs p q w = (Inr (), w') \<and> files w' = (files w)(q := files w p, p := None)"
proof -
  obtain w' where w': "fs_renameFile fs p q w = (Inr (), w')"
    using assms(2,3) not_isl_fst [of "fs_renameFile fs p q w"] by (auto simp: reliable_fs_def)
  from faithfulD(4) [OF assms(1) w'] have "files w' = (files w)(q := files w p, p := None)" by simp
  with w' show ?thesis by blast
qed

section \<open>Loading\<close>

lemma publish_text:
  assumes "faithful_fs fs files" and "reliable_fs fs files"
  shows "\<exists>w'. publishFileAtomically fs path (\<lambda>temp. fileResult what path (fs_writeFile fs temp s)) w = (Inr (), w') \<and>
    files w' path = Some s \<and> (\<forall>q. q \<noteq> path \<and> q \<noteq> path @ ''.tmp'' \<longrightarrow> files w' q = files w q)"
proof -
  obtain w1 where w1: "fs_writeFile fs (path @ ''.tmp'') s w = (Inr (), w1)" "files w1 = (files w)(path @ ''.tmp'' \<mapsto> s)"
    using reliable_write [OF assms] by blast
  moreover obtain w2 where w2: "fs_renameFile fs (path @ ''.tmp'') path w1 = (Inr (), w2)"
    "files w2 = (files w1)(path := files w1 (path @ ''.tmp''), path @ ''.tmp'' := None)"
    using reliable_rename [OF assms, of w1 "path @ ''.tmp''" path] w1 by auto
  ultimately show ?thesis by (intro exI [of _ w2]) (simp add: publishFileAtomically_def io_simps)
qed

lemma load_start:
  assumes "faithful_fs fs files" and "reliable_fs fs files" and "format_ok nf" and "storable_header h"
    and "list_all (storable pv) ms" and "NEWLINE \<notin> set p" and "files w path = Some (session_text nf pv h ms @ p)"
    and "applyMutations initial_state ms = Inr s"
  shows "\<exists>t w1. files w1 = files w \<and> jl_load fs nf pv path w
    = load_content fs nf pv path (session_text nf pv h ms @ p)
        (header_line nf h # map (mutation_line nf pv) ms @ (if p = [] then [] else [p]))
        \<lparr> jl_metadata = metadataFromHeader h path t, jl_state = initial_state \<rparr> w1"
proof -
  obtain w0 where w0: "fs_readTextFile fs path w = (Inr (session_text nf pv h ms @ p), w0)" "files w0 = files w"
    using reliable_read [OF assms(1,2,7)] by blast
  moreover obtain t w1 where w1: "fs_mtimeMs fs path w0 = (Inr t, w1)" "files w1 = files w0"
    using reliable_mtime [OF assms(1,2), of w0 path] w0 assms(7) by auto
  moreover have "header_line nf h \<noteq> []" by simp
  ultimately show ?thesis
    using header_read [OF assms(3,4)] physical_lines_text [OF assms(3-6)]
    by (intro exI [of _ t] exI [of _ w1]) (simp add: jl_load_def io_simps)
qed

lemma load_complete:
  assumes "faithful_fs fs files" and "reliable_fs fs files" and "format_ok nf" and "storable_header h"
    and "list_all (storable pv) ms" and "files w path = Some (session_text nf pv h ms)"
    and "applyMutations initial_state ms = Inr s"
  shows "\<exists>t w'. jl_load fs nf pv path w = (Inr \<lparr> jl_metadata = metadataFromHeader h path t, jl_state = s \<rparr>, w') \<and>
    files w' = files w"
proof -
  obtain t w1 where w1: "files w1 = files w" "jl_load fs nf pv path w
    = load_content fs nf pv path (session_text nf pv h ms) (header_line nf h # map (mutation_line nf pv) ms)
        \<lparr> jl_metadata = metadataFromHeader h path t, jl_state = initial_state \<rparr> w1"
    using load_start [OF assms(1-5), of "[]" w path s] assms(6,7) by auto
  have "load_lines nf pv path 1 \<lparr> jl_metadata = metadataFromHeader h path t, jl_state = initial_state \<rparr>
      (map (mutation_line nf pv) ms) = Inr (\<lparr> jl_metadata = metadataFromHeader h path t, jl_state = s \<rparr>, None)"
    using load_lines_replay [OF assms(3,5), of _ s path 1 "[]"] assms(7) by simp
  with w1 session_text_newline [of nf pv h ms] show ?thesis
    by (intro exI [of _ t] exI [of _ w1]) (simp add: load_content_def io_simps)
qed

lemma load_torn:
  assumes "faithful_fs fs files" and "reliable_fs fs files" and "format_ok nf" and "storable_header h"
    and "list_all (storable pv) ms" and "files w path = Some (session_text nf pv h ms @ p)"
    and "applyMutations initial_state ms = Inr s" and "storable pv m" and "strict_prefix p (mutation_line nf pv m)" and "p \<noteq> []"
  shows "\<exists>t w'. jl_load fs nf pv path w = (Inr \<lparr> jl_metadata = metadataFromHeader h path t, jl_state = s \<rparr>, w') \<and>
    files w' path = Some (session_text nf pv h ms) \<and> (\<forall>q. q \<noteq> path \<and> q \<noteq> path @ ''.tmp'' \<longrightarrow> files w' q = files w q)"
proof -
  have p: "NEWLINE \<notin> set p"
    using mutation_line_no_newline [OF assms(3,8)] assms(9) by (auto simp: strict_prefix_def prefix_def)
  let ?ls = "header_line nf h # map (mutation_line nf pv) ms @ [p]"
  obtain t w1 where w1: "files w1 = files w" "jl_load fs nf pv path w
    = load_content fs nf pv path (session_text nf pv h ms @ p) ?ls
        \<lparr> jl_metadata = metadataFromHeader h path t, jl_state = initial_state \<rparr> w1"
    using load_start [OF assms(1-5) p assms(6,7)] assms(10) by auto
  have "load_lines nf pv path 1 \<lparr> jl_metadata = metadataFromHeader h path t, jl_state = initial_state \<rparr> (tl ?ls)
      = Inr (\<lparr> jl_metadata = metadataFromHeader h path t, jl_state = s \<rparr>, Some (Suc (length ms)))"
    using load_lines_replay [OF assms(3,5), of _ s path 1 "[p]"] assms(7) torn_line_syntax [OF assms(3,8,9)] by simp
  moreover have "join_newline (take (Suc (length ms)) ?ls) @ [NEWLINE] = session_text nf pv h ms"
    using join_newline_lines [of "header_line nf h # map (mutation_line nf pv) ms"] by (simp add: session_text_lines)
  moreover obtain w2 where "publishFileAtomically fs path (\<lambda>temp. fileResult ''Failed to stage torn-tail repair'' path
      (fs_writeFile fs temp (session_text nf pv h ms))) w1 = (Inr (), w2)" "files w2 path = Some (session_text nf pv h ms)"
    "\<forall>q. q \<noteq> path \<and> q \<noteq> path @ ''.tmp'' \<longrightarrow> files w2 q = files w1 q"
    using publish_text [OF assms(1,2)] by blast
  ultimately show ?thesis using w1
    by (intro exI [of _ t] exI [of _ w2]) (simp add: load_content_def io_simps Let_def)
qed

lemma load_unterminated:
  assumes "faithful_fs fs files" and "reliable_fs fs files" and "format_ok nf" and "storable_header h"
    and "list_all (storable pv) ms" and "files w path = Some (session_text nf pv h ms @ mutation_line nf pv m)"
    and "applyMutations initial_state ms = Inr s" and "storable pv m" and "applyMutation s m = Inr s'"
  shows "\<exists>t w'. jl_load fs nf pv path w = (Inr \<lparr> jl_metadata = metadataFromHeader h path t, jl_state = s' \<rparr>, w') \<and>
    files w' = (files w)(path \<mapsto> session_text nf pv h (ms @ [m]))"
proof -
  let ?l = "mutation_line nf pv m"
  have l: "NEWLINE \<notin> set ?l" using mutation_line_no_newline [OF assms(3,8)] .
  have ne: "?l \<noteq> []" by (simp add: mutation_line_def)
  obtain t w1 where w1: "files w1 = files w" "jl_load fs nf pv path w
    = load_content fs nf pv path (session_text nf pv h ms @ ?l)
        (header_line nf h # map (mutation_line nf pv) ms @ [?l])
        \<lparr> jl_metadata = metadataFromHeader h path t, jl_state = initial_state \<rparr> w1"
    using load_start [OF assms(1-5) l assms(6,7)] ne by auto
  have "applyMutations initial_state (ms @ [m]) = Inr s'" using assms(7,9) by (simp add: rfold_append)
  then have "load_lines nf pv path 1 \<lparr> jl_metadata = metadataFromHeader h path t, jl_state = initial_state \<rparr>
      (map (mutation_line nf pv) ms @ [?l]) = Inr (\<lparr> jl_metadata = metadataFromHeader h path t, jl_state = s' \<rparr>, None)"
    using load_lines_replay [OF assms(3), of pv "ms @ [m]" _ s' path 1 "[]"] assms(5,8) by simp
  moreover have "last (session_text nf pv h ms @ ?l) \<noteq> NEWLINE" using l ne by (metis last_appendR last_in_set)
  moreover obtain w2 where "fs_appendFile fs path [NEWLINE] w1 = (Inr (), w2)"
    "files w2 = (files w1)(path \<mapsto> text_of (files w1 path) @ [NEWLINE])"
    using reliable_append [OF assms(1,2)] by blast
  ultimately show ?thesis using w1 assms(6)
    by (intro exI [of _ t] exI [of _ w2])
       (simp add: load_content_def io_simps text_of_def session_text_snoc encodeMutation_def)
qed

section \<open>The storage implements the contract\<close>

lemma commit_Inr:
  "jl_commit fs nf pv st m w = (Inr st', w') \<longleftrightarrow>
   (\<exists>s. fs_appendFile fs (jm_path (jl_metadata st)) (encodeMutation nf pv m) w = (Inr (), w') \<and>
        applyMutation (jl_state st) m = Inr s \<and> st' = st\<lparr> jl_state := s \<rparr>)"
  by (auto simp: jl_commit_def io_bind_Inr fileResult_Inr rbind_Inr_iff)

text \<open>A write of the storage, seen by a client that goes on only after a success.\<close>

definition client_write :: "('s \<Rightarrow> ('w, 's) io) \<Rightarrow> 's \<times> 'w \<Rightarrow> session_error + 's \<times> 'w" where
  "client_write f = (\<lambda>(st, w). case f st w of (Inl e, w') \<Rightarrow> Inl e | (Inr st', w') \<Rightarrow> Inr (st', w'))"

definition client_append :: "('s \<Rightarrow> ('w, 'a \<times> 's) io) \<Rightarrow> 's \<times> 'w \<Rightarrow> session_error + 'a \<times> ('s \<times> 'w)" where
  "client_append f = (\<lambda>(st, w). case f st w of (Inl e, w') \<Rightarrow> Inl e | (Inr (x, st'), w') \<Rightarrow> Inr (x, st', w'))"

lemma client_write_Inr: "client_write f sw = Inr sw' \<longleftrightarrow> f (fst sw) (snd sw) = (Inr (fst sw'), snd sw')"
  by (cases sw; cases sw') (auto simp: client_write_def split: prod.splits sum.splits)

lemma client_append_Inr:
  "client_append f sw = Inr (x, sw') \<longleftrightarrow> f (fst sw) (snd sw) = (Inr (x, fst sw'), snd sw')"
  by (cases sw; cases sw') (auto simp: client_append_def split: prod.splits sum.splits)

interpretation jsonl: session_storage "\<lambda>sw. jl_state (fst sw)"
    "\<lambda>sw l target. client_write (\<lambda>st. jl_createLane fs nf pv st l target) sw"
    "\<lambda>sw l to. client_write (\<lambda>st. jl_moveLane fs nf pv st l to) sw"
    "\<lambda>now sw p l. client_append (\<lambda>st. jl_appendEntry fs nf pv now st p l) sw"
    "\<lambda>now sw n. client_append (\<lambda>st. jl_appendRecord fs nf pv now st n) sw"
  for fs :: "'w jsonl_fs" and nf :: number_format and pv :: payload_view
proof (unfold_locales, goal_cases)
  case (1 st l target st')
  then show ?case
    by (auto simp: client_write_Inr jl_createLane_def io_bind_Inr commit_Inr validateNewLane_def map_has_def)
next
  case (2 st l to st')
  then show ?case
    by (auto simp: client_write_Inr jl_moveLane_def io_bind_Inr commit_Inr requireLane_def split: option.splits)
next
  case (3 now st p l e st')
  then show ?case
    by (auto simp: client_append_Inr jl_appendEntry_def io_bind_Inr commit_Inr requireLane_def provision_def Let_def
        split: option.splits)
next
  case (4 now st n r st')
  then show ?case
    by (auto simp: client_append_Inr jl_appendRecord_def io_bind_Inr commit_Inr Let_def findOpenOperations_def
        assertValidLimit_def take_limit_def limit_nat_def rbind_Inr_iff split: option.splits list.splits)
qed

section \<open>What the file holds\<close>

text \<open>The file of a storage is a header and the mutations that lead to its state.\<close>

definition durable ::
  "number_format \<Rightarrow> payload_view \<Rightarrow> ('w \<Rightarrow> string \<Rightarrow> string option) \<Rightarrow> jsonl_storage \<Rightarrow> 'w \<Rightarrow> bool" where
  "durable nf pv files st w \<longleftrightarrow>
     (\<exists>h ms t. storable_header h \<and> list_all (storable pv) ms \<and>
        jl_metadata st = metadataFromHeader h (jm_path (jl_metadata st)) t \<and>
        files w (jm_path (jl_metadata st)) = Some (session_text nf pv h ms) \<and>
        applyMutations initial_state ms = Inr (jl_state st))"

text \<open>
  The writes of a client, with what they need to be storable: sequence numbers and times are safe
  integers and the bodies can be read back.
\<close>

inductive jl_step ::
  "'w jsonl_fs \<Rightarrow> number_format \<Rightarrow> payload_view \<Rightarrow> jsonl_storage \<times> 'w \<Rightarrow> jsonl_storage \<times> 'w \<Rightarrow> bool"
  for fs :: "'w jsonl_fs" and nf pv where
  create_lane: "jl_createLane fs nf pv st l target w = (Inr st', w') \<Longrightarrow> safe_seq (nextSequence (jl_state st)) \<Longrightarrow>
    jl_step fs nf pv (st, w) (st', w')"
| move_lane: "jl_moveLane fs nf pv st l to w = (Inr st', w') \<Longrightarrow> safe_seq (nextSequence (jl_state st)) \<Longrightarrow>
    jl_step fs nf pv (st, w) (st', w')"
| append_entry: "jl_appendEntry fs nf pv now st p l w = (Inr (e, st'), w') \<Longrightarrow> safe_seq (nextSequence (jl_state st)) \<Longrightarrow>
    safe_time now \<Longrightarrow> entry_readable pv (pe_body p) \<Longrightarrow> jl_step fs nf pv (st, w) (st', w')"
| append_record: "jl_appendRecord fs nf pv now st n w = (Inr (r, st'), w') \<Longrightarrow> safe_seq (nextSequence (jl_state st)) \<Longrightarrow>
    safe_time now \<Longrightarrow> record_readable pv (nr_body n) \<Longrightarrow> jl_step fs nf pv (st, w) (st', w')"
| set_name: "jl_setName fs nf pv st n w = (Inr st', w') \<Longrightarrow> safe_seq (nextSequence (jl_state st)) \<Longrightarrow>
    jl_step fs nf pv (st, w) (st', w')"
| set_label: "jl_setLabel fs nf pv st i l w = (Inr st', w') \<Longrightarrow> safe_seq (nextSequence (jl_state st)) \<Longrightarrow>
    jl_step fs nf pv (st, w) (st', w')"

text \<open>Every write appends the line of one mutation and applies it.\<close>

lemma jl_step_commits:
  assumes "jl_step fs nf pv (st, w) (st', w')"
  shows "\<exists>m. storable pv m \<and> jl_commit fs nf pv st m w = (Inr st', w')"
  using assms
proof (cases rule: jl_step.cases)
  case (create_lane l target)
  then show ?thesis
    by (intro exI [of _ "LaneMutation (nextSequence (jl_state st)) l target"]) (auto simp: jl_createLane_def io_bind_Inr)
next
  case (move_lane l to)
  then show ?thesis
    by (intro exI [of _ "LaneMutation (nextSequence (jl_state st)) l to"]) (auto simp: jl_moveLane_def io_bind_Inr)
next
  case (append_entry now p l e)
  then obtain parentId where "jl_commit fs nf pv st (EntryMutation (Some l)
      (provision (nextSequence (jl_state st)) now p parentId)) w = (Inr st', w')"
    by (auto simp: jl_appendEntry_def io_bind_Inr Let_def)
  with append_entry show ?thesis
    by (intro exI [of _ "EntryMutation (Some l) (provision (nextSequence (jl_state st)) now p parentId)"])
       (simp add: provision_def)
next
  case (append_record now n r)
  then have "jl_commit fs nf pv st (RecordMutation (stamp_record (nextSequence (jl_state st)) now n)) w = (Inr st', w')"
    by (auto simp: jl_appendRecord_def io_bind_Inr Let_def)
  with append_record show ?thesis
    by (intro exI [of _ "RecordMutation (stamp_record (nextSequence (jl_state st)) now n)"]) (simp add: stamp_record_def)
next
  case (set_name n)
  then show ?thesis
    by (intro exI [of _ "NameMutation (nextSequence (jl_state st)) n"]) (auto simp: jl_setName_def)
next
  case (set_label i l)
  then show ?thesis
    by (intro exI [of _ "LabelMutation (nextSequence (jl_state st)) i l"]) (auto simp: jl_setLabel_def io_bind_Inr)
qed

lemma commit_durable:
  assumes "faithful_fs fs files" and "durable nf pv files st w" and "storable pv m"
    and "jl_commit fs nf pv st m w = (Inr st', w')"
  shows "durable nf pv files st' w'"
proof -
  from assms(2) obtain h ms t where d: "storable_header h" "list_all (storable pv) ms"
    "jl_metadata st = metadataFromHeader h (jm_path (jl_metadata st)) t"
    "files w (jm_path (jl_metadata st)) = Some (session_text nf pv h ms)"
    "applyMutations initial_state ms = Inr (jl_state st)" by (auto simp: durable_def)
  from assms(4) obtain s where s: "fs_appendFile fs (jm_path (jl_metadata st)) (encodeMutation nf pv m) w = (Inr (), w')"
    "applyMutation (jl_state st) m = Inr s" "st' = st\<lparr> jl_state := s \<rparr>" by (auto simp: commit_Inr)
  from faithfulD(3) [OF assms(1) s(1)] d(4)
  have "files w' (jm_path (jl_metadata st)) = Some (session_text nf pv h (ms @ [m]))"
    by (simp add: text_of_def session_text_snoc)
  moreover have "applyMutations initial_state (ms @ [m]) = Inr s" using d(5) s(2) by (simp add: rfold_append)
  ultimately show ?thesis using d s(3) assms(3) unfolding durable_def
    by (intro exI [of _ h] exI [of _ "ms @ [m]"] exI [of _ t]) simp
qed

lemma create_durable:
  assumes "faithful_fs fs files" and "storable_header h" and "jl_create fs nf path h w = (Inr st, w')"
  shows "durable nf pv files st w'"
proof -
  from assms(3) obtain t w1 where c: "fs_writeFile fs path (encodeHeader nf h) w = (Inr (), w1)"
    "fs_mtimeMs fs path w1 = (Inr t, w')" "st = \<lparr> jl_metadata = metadataFromHeader h path t, jl_state = initial_state \<rparr>"
    by (auto simp: jl_create_def io_bind_Inr fileResult_Inr)
  from faithfulD(2) [OF assms(1) c(1)] faithfulD(6) [OF assms(1) c(2)]
  have "files w' path = Some (session_text nf pv h [])" by (simp add: session_text_def)
  with c(3) assms(2) show ?thesis unfolding durable_def
    by (intro exI [of _ h] exI [of _ "[]"] exI [of _ t]) (simp add: metadataFromHeader_def)
qed

text \<open>The storages a client can have: created in a file, then written to.\<close>

inductive jl_reachable ::
  "'w jsonl_fs \<Rightarrow> number_format \<Rightarrow> payload_view \<Rightarrow> jsonl_storage \<Rightarrow> 'w \<Rightarrow> bool"
  for fs :: "'w jsonl_fs" and nf pv where
  created: "storable_header h \<Longrightarrow> jl_create fs nf path h w = (Inr st, w') \<Longrightarrow> jl_reachable fs nf pv st w'"
| written: "jl_reachable fs nf pv st w \<Longrightarrow> jl_step fs nf pv (st, w) (st', w') \<Longrightarrow> jl_reachable fs nf pv st' w'"

lemma reachable_durable:
  assumes "faithful_fs fs files" and "jl_reachable fs nf pv st w"
  shows "durable nf pv files st w"
  using assms(2)
proof (induction rule: jl_reachable.induct)
  case (created h path w st w')
  then show ?case using create_durable [OF assms(1)] by blast
next
  case (written st w st' w')
  then show ?case using jl_step_commits commit_durable [OF assms(1)] by metis
qed

text \<open>C10. On a file system whose operations all succeed (\<open>reliable_fs\<close>), and which keeps what was written to it
  (\<open>faithful_fs\<close>): whatever a client wrote to a file session, opening the file again gives the same state and
  leaves the file as it is. After a failed append an acknowledged write may be lost (lemma \<open>acknowledged_write_lost\<close>).\<close>

theorem reopened_session_same:
  assumes "faithful_fs fs files" and "reliable_fs fs files" and "format_ok nf"
    and "jl_reachable fs nf pv st w"
  shows "\<exists>st' w'. jl_load fs nf pv (jm_path (jl_metadata st)) w = (Inr st', w') \<and>
    jl_state st' = jl_state st \<and> jm_id (jl_metadata st') = jm_id (jl_metadata st) \<and> files w' = files w"
proof -
  from reachable_durable [OF assms(1,4)] obtain h ms t where d: "storable_header h" "list_all (storable pv) ms"
    "jl_metadata st = metadataFromHeader h (jm_path (jl_metadata st)) t"
    "files w (jm_path (jl_metadata st)) = Some (session_text nf pv h ms)"
    "applyMutations initial_state ms = Inr (jl_state st)" unfolding durable_def by blast
  have "jm_id (jl_metadata st) = jh_id h" using d(3) by (metis jsonl_metadata.select_convs(1) metadataFromHeader_def)
  with load_complete [OF assms(1-3) d(1,2,4,5)] show ?thesis by (fastforce simp: metadataFromHeader_def)
qed

text \<open>C4. A crash during a write leaves some beginning of the line in the file. Opening the file then
  succeeds and gives the state before the write or the state after it, and the file again holds
  exactly the mutations of that state; a line that was written completely is never lost.\<close>

theorem crash_recovery:
  assumes "faithful_fs fs files" and "reliable_fs fs files" and "format_ok nf" and "storable_header h"
    and "list_all (storable pv) (ms @ [m])" and "applyMutations initial_state ms = Inr s" and "applyMutation s m = Inr s'"
    and "prefix p (encodeMutation nf pv m)" and "files w path = Some (session_text nf pv h ms @ p)"
  shows "\<exists>st w' ms'. jl_load fs nf pv path w = (Inr st, w') \<and> files w' path = Some (session_text nf pv h ms') \<and>
    (ms' = ms \<and> jl_state st = s \<and> p \<noteq> encodeMutation nf pv m \<or> ms' = ms @ [m] \<and> jl_state st = s')"
proof -
  have ms: "list_all (storable pv) ms" "storable pv m" using assms(5) by auto
  consider (none) "p = []" | (torn) "p \<noteq> []" "strict_prefix p (mutation_line nf pv m)"
    | (line) "p = mutation_line nf pv m" | (complete) "p = encodeMutation nf pv m"
    using assms(8) by (auto simp: encodeMutation_def strict_prefix_def)
  then show ?thesis
  proof cases
    case none
    with load_complete [OF assms(1-4) ms(1) _ assms(6)] assms(9) show ?thesis
      by (fastforce simp: encodeMutation_def)
  next
    case torn
    then have "p \<noteq> encodeMutation nf pv m" by (auto simp: encodeMutation_def strict_prefix_def)
    with load_torn [OF assms(1-4) ms(1) assms(9,6) ms(2) torn(2,1)] show ?thesis by fastforce
  next
    case line
    with load_unterminated [OF assms(1-4) ms(1) _ assms(6) ms(2) assms(7)] assms(9) show ?thesis by fastforce
  next
    case complete
    have "applyMutations initial_state (ms @ [m]) = Inr s'" using assms(6,7) by (simp add: rfold_append)
    with load_complete [OF assms(1-5)] assms(9) complete show ?thesis by (fastforce simp: session_text_snoc)
  qed
qed

section \<open>Forks are published atomically\<close>

lemma io_bind_Inl:
  "io_bind m f w = (Inl e, w') \<longleftrightarrow> m w = (Inl e, w') \<or> (\<exists>y u. m w = (Inr y, u) \<and> f y u = (Inl e, w'))"
  by (auto simp: io_bind_def split: prod.splits sum.splits)

text \<open>Only the file \<open>p\<close> may change.\<close>

definition only_touches :: "string \<Rightarrow> (string \<Rightarrow> string option) \<Rightarrow> (string \<Rightarrow> string option) \<Rightarrow> bool" where
  "only_touches p f g \<longleftrightarrow> (\<forall>q. q \<noteq> p \<longrightarrow> g q = f q)"

lemma only_touches_refl [simp]: "only_touches p f f"
  by (simp add: only_touches_def)

lemma only_touches_trans: "only_touches p f g \<Longrightarrow> only_touches p g h \<Longrightarrow> only_touches p f h"
  by (simp add: only_touches_def)

lemma commit_touches:
  assumes "faithful_fs fs files" and "jl_commit fs nf pv st m w = (r, w')"
  shows "only_touches (jm_path (jl_metadata st)) (files w) (files w')"
proof -
  obtain r' where "fs_appendFile fs (jm_path (jl_metadata st)) (encodeMutation nf pv m) w = (r', w')"
    using assms(2) by (auto simp: jl_commit_def io_simps split: prod.splits sum.splits)
  from faithfulD(3) [OF assms(1) this] show ?thesis by (simp add: only_touches_def)
qed

lemma fold_touches:
  assumes "faithful_fs fs files" and "io_fold (jl_commit fs nf pv) st ms w = (r, w')"
  shows "only_touches (jm_path (jl_metadata st)) (files w) (files w')"
  using assms(2)
proof (induction ms arbitrary: st w)
  case Nil
  then show ?case by (simp add: io_return_def)
next
  case (Cons m ms)
  obtain r1 w1 where c: "jl_commit fs nf pv st m w = (r1, w1)" by fastforce
  show ?case
  proof (cases r1)
    case (Inl e)
    with Cons.prems c commit_touches [OF assms(1) c] show ?thesis by (simp add: io_bind_def)
  next
    case (Inr st1)
    with c have "jm_path (jl_metadata st1) = jm_path (jl_metadata st)" by (auto simp: commit_Inr)
    with Cons.prems Cons.IH [of st1 w1] c Inr commit_touches [OF assms(1) c] show ?thesis
      by (auto simp: io_bind_def intro: only_touches_trans)
  qed
qed

lemma fold_commits:
  assumes "faithful_fs fs files" and "io_fold (jl_commit fs nf pv) st ms w = (Inr st', w')"
    and "files w (jm_path (jl_metadata st)) = Some t"
  shows "files w' (jm_path (jl_metadata st)) = Some (t @ concat (map (encodeMutation nf pv) ms))"
  using assms(2,3)
proof (induction ms arbitrary: st w t)
  case (Cons m ms)
  then obtain st1 w1 where c: "jl_commit fs nf pv st m w = (Inr st1, w1)"
    "io_fold (jl_commit fs nf pv) st1 ms w1 = (Inr st', w')" by (auto simp: io_bind_Inr)
  then have path: "jm_path (jl_metadata st1) = jm_path (jl_metadata st)"
    and app: "fs_appendFile fs (jm_path (jl_metadata st)) (encodeMutation nf pv m) w = (Inr (), w1)"
    by (auto simp: commit_Inr)
  from faithfulD(3) [OF assms(1) app] Cons.prems(2)
  have "files w1 (jm_path (jl_metadata st1)) = Some (t @ encodeMutation nf pv m)" by (simp add: path text_of_def)
  from Cons.IH [OF c(2) this] show ?case by (simp add: path)
qed simp

lemma create_touches:
  assumes "faithful_fs fs files" and "jl_create fs nf path h w = (r, w')"
  shows "only_touches path (files w) (files w') \<and>
    (\<forall>st. r = Inr st \<longrightarrow> files w' path = Some (encodeHeader nf h) \<and> jm_path (jl_metadata st) = path)"
proof -
  obtain r1 w1 where a: "fs_writeFile fs path (encodeHeader nf h) w = (r1, w1)" by fastforce
  obtain r2 w2 where b: "fs_mtimeMs fs path w1 = (r2, w2)" by fastforce
  from faithfulD(2) [OF assms(1) a] faithfulD(6) [OF assms(1) b] a b assms(2) show ?thesis
    by (auto simp: jl_create_def io_simps only_touches_def metadataFromHeader_def split: sum.splits)
qed

definition populate_fork ::
  "'w jsonl_fs \<Rightarrow> number_format \<Rightarrow> payload_view \<Rightarrow> jsonl_header \<Rightarrow> session_mutation list \<Rightarrow> string \<Rightarrow> ('w, unit) io" where
  "populate_fork fs nf pv header mutations tempPath =
     io_bind (jl_create fs nf tempPath header) (\<lambda>target.
     io_bind (io_fold (jl_commit fs nf pv) target mutations) (\<lambda>_. io_return ()))"

lemma populate_touches:
  assumes "faithful_fs fs files" and "populate_fork fs nf pv h ms temp w = (r, w')"
  shows "only_touches temp (files w) (files w') \<and> (r = Inr () \<longrightarrow> files w' temp = Some (session_text nf pv h ms))"
proof -
  obtain r1 w1 where a: "jl_create fs nf temp h w = (r1, w1)" by fastforce
  note create = create_touches [OF assms(1) a]
  show ?thesis
  proof (cases r1)
    case (Inl e)
    with a assms(2) create show ?thesis by (auto simp: populate_fork_def io_bind_def)
  next
    case (Inr st)
    obtain r2 w2 where b: "io_fold (jl_commit fs nf pv) st ms w1 = (r2, w2)" by fastforce
    with a Inr assms(2) have "w' = w2" "r = Inr () \<longrightarrow> (\<exists>st'. r2 = Inr st')"
      by (auto simp: populate_fork_def io_simps split: sum.splits)
    with fold_touches [OF assms(1) b] fold_commits [OF assms(1), of nf pv st ms w1 _ w2] b create Inr show ?thesis
      by (auto simp: session_text_def intro: only_touches_trans)
  qed
qed

lemma publish_cases:
  assumes "faithful_fs fs files" and "publishFileAtomically fs path populate w = (r, w')"
    and populate: "\<And>v u. populate (path @ ''.tmp'') w = (v, u) \<Longrightarrow> only_touches (path @ ''.tmp'') (files w) (files u) \<and>
      (v = Inr () \<longrightarrow> files u (path @ ''.tmp'') = Some s)"
  shows "(\<forall>q. q \<noteq> path \<and> q \<noteq> path @ ''.tmp'' \<longrightarrow> files w' q = files w q) \<and>
    files w' path = (if r = Inr () then Some s else files w path)"
proof -
  let ?temp = "path @ ''.tmp''"
  obtain v u where p: "populate ?temp w = (v, u)" by fastforce
  note t = populate [OF p]
  show ?thesis
  proof (cases v)
    case (Inl e)
    obtain x y where "fs_remove fs ?temp u = (x, y)" by fastforce
    with Inl p assms(2) t faithfulD(5) [OF assms(1) this] show ?thesis
      by (auto simp: publishFileAtomically_def io_bind_def only_touches_def)
  next
    case (Inr x)
    obtain a b where q: "fs_renameFile fs ?temp path u = (a, b)" by fastforce
    note rename = faithfulD(4) [OF assms(1) q]
    show ?thesis
    proof (cases a)
      case (Inl e)
      obtain x y where "fs_remove fs ?temp b = (x, y)" by fastforce
      with Inl Inr p q assms(2) t rename faithfulD(5) [OF assms(1) this] show ?thesis
        by (auto simp: publishFileAtomically_def io_simps only_touches_def)
    next
      case (Inr _)
      with \<open>v = Inr x\<close> p q assms(2) t rename show ?thesis
        by (auto simp: publishFileAtomically_def io_simps only_touches_def)
    qed
  qed
qed

lemma load_complete_unchanged:
  assumes "faithful_fs fs files" and "format_ok nf" and "storable_header h" and "list_all (storable pv) ms"
    and "files w path = Some (session_text nf pv h ms)" and "applyMutations initial_state ms = Inr s"
    and "jl_load fs nf pv path w = (r, w')"
  shows "files w' = files w \<and> (\<forall>st. r = Inr st \<longrightarrow> jl_state st = s)"
proof -
  obtain r1 w1 where a: "fs_readTextFile fs path w = (r1, w1)" by fastforce
  note read = faithfulD(1) [OF assms(1) a]
  obtain r2 w2 where b: "fs_mtimeMs fs path w1 = (r2, w2)" by fastforce
  note mtime = faithfulD(6) [OF assms(1) b]
  have "load_lines nf pv path 1 \<lparr> jl_metadata = metadataFromHeader h path t, jl_state = initial_state \<rparr>
      (map (mutation_line nf pv) ms) = Inr (\<lparr> jl_metadata = metadataFromHeader h path t, jl_state = s \<rparr>, None)" for t
    using load_lines_replay [OF assms(2,4), of _ s path 1 "[]"] assms(6) by simp
  with a b read mtime assms(5,7) show ?thesis
    using header_read [OF assms(2,3)] physical_lines_text [OF assms(2,3,4), of "[]"] session_text_newline [of nf pv h ms]
    by (auto simp: jl_load_def io_simps load_content_def split: sum.splits)
qed



section \<open>A file system in memory\<close>

definition memory_fs :: "(string \<Rightarrow> string option) jsonl_fs" where
  "memory_fs = \<lparr>
     fs_readTextFile = (\<lambda>p w. (case w p of None \<Rightarrow> Inl FileNotFound | Some s \<Rightarrow> Inr s, w)),
     fs_writeFile = (\<lambda>p s w. (Inr (), w(p \<mapsto> s))),
     fs_appendFile = (\<lambda>p s w. (Inr (), w(p \<mapsto> text_of (w p) @ s))),
     fs_renameFile = (\<lambda>p q w. if w p = None then (Inl FileNotFound, w) else (Inr (), w(q := w p, p := None))),
     fs_remove = (\<lambda>p w. (Inr (), w(p := None))),
     fs_mtimeMs = (\<lambda>p w. (if w p = None then Inl FileNotFound else Inr 7, w)) \<rparr>"

lemma memory_fs_faithful: "faithful_fs memory_fs (\<lambda>w. w)"
  by (auto simp: faithful_fs_def memory_fs_def split: option.splits if_splits)

lemma memory_fs_reliable: "reliable_fs memory_fs (\<lambda>w. w)"
  by (auto simp: reliable_fs_def memory_fs_def)

definition sample_header :: jsonl_header where
  "sample_header = \<lparr> jh_id = ''s'', jh_createdAt = 1, jh_cwd = ''/'', jh_parentSessionId = None,
     jh_legacyParentSessionPath = None, jh_metadata = None \<rparr>"

lemma sample_header_storable: "storable_header sample_header"
  by (simp add: storable_header_def sample_header_def safe_time_def MAX_SAFE_INTEGER_def)

definition sample_name :: session_mutation where
  "sample_name = NameMutation 1 (Some ''n'')"

lemma sample_name_storable: "storable sample_view sample_name"
  by (simp add: sample_name_def safe_seq_def MAX_SAFE_INTEGER_def)

lemma sample_name_applied: "\<exists>s. applyMutation initial_state sample_name = Inr s \<and> name s = Some ''n''"
  by (simp add: applyMutation_def sample_name_def initial_state_def ensure_def)

theorem reopened_session_same_witness:
  "\<exists>(st :: jsonl_storage) w st' w'. jl_state st \<noteq> initial_state \<and>
     jl_load memory_fs sample_format sample_view (jm_path (jl_metadata st)) w = (Inr st', w') \<and>
     jl_state st' = jl_state st \<and> w' = w"
proof -
  obtain s where s: "applyMutation initial_state sample_name = Inr s" "name s = Some ''n''"
    using sample_name_applied by blast
  define st where "st = \<lparr> jl_metadata = metadataFromHeader sample_header ''f'' 7, jl_state = initial_state \<rparr>"
  obtain w where w: "jl_create memory_fs sample_format ''f'' sample_header (\<lambda>p. None) = (Inr st, w)"
    by (auto simp: jl_create_def io_simps memory_fs_def st_def)
  have seq1: "nextSequence initial_state = 1" by (simp add: nextSequence_def initial_state_def)
  obtain w' where w': "jl_setName memory_fs sample_format sample_view st (Some ''n'') w = (Inr (st\<lparr> jl_state := s \<rparr>), w')"
    using s(1) by (auto simp: jl_setName_def jl_commit_def io_simps memory_fs_def st_def seq1 sample_name_def)
  have "jl_reachable memory_fs sample_format sample_view (st\<lparr> jl_state := s \<rparr>) w'"
    by (rule jl_reachable.written [OF jl_reachable.created [OF sample_header_storable w] jl_step.set_name [OF w']])
       (simp add: st_def seq1 safe_seq_def MAX_SAFE_INTEGER_def)
  from reopened_session_same [OF memory_fs_faithful memory_fs_reliable sample_format_ok this]
  obtain st' w2 where "jl_load memory_fs sample_format sample_view (jm_path (jl_metadata (st\<lparr> jl_state := s \<rparr>))) w' = (Inr st', w2)"
    "jl_state st' = s" "w2 = w'" by auto
  moreover have "s \<noteq> initial_state" using s(2) by (auto simp: initial_state_def)
  ultimately show ?thesis by (intro exI [of _ "st\<lparr> jl_state := s \<rparr>"] exI [of _ w'] exI [of _ st'] exI [of _ w2]) simp
qed

theorem crash_recovery_witness:
  "\<exists>st w' ms'. jl_load memory_fs sample_format sample_view ''f''
      ((\<lambda>p. None)(''f'' \<mapsto> session_text sample_format sample_view sample_header [] @ ''{'')) = (Inr st, w') \<and>
    w' ''f'' = Some (session_text sample_format sample_view sample_header ms') \<and>
    (ms' = [] \<and> jl_state st = initial_state \<or> ms' = [sample_name])"
proof -
  obtain s where s: "applyMutation initial_state sample_name = Inr s" using sample_name_applied by blast
  have "prefix ''{'' (encodeMutation sample_format sample_view sample_name)"
    by (simp add: encodeMutation_def mutation_line_def)
  from crash_recovery [OF memory_fs_faithful memory_fs_reliable sample_format_ok sample_header_storable _ _ s this,
      of "[]" "(\<lambda>p. None)(''f'' \<mapsto> session_text sample_format sample_view sample_header [] @ ''{'')" "''f''"]
  show ?thesis using sample_name_storable by auto
qed



section \<open>A write after a failed append\<close>

text \<open>
  An append that fails may leave the beginning of a line. The storage goes on in memory, and the next
  line is appended to the torn one: together they are no JSON, so opening the file drops the write
  that was acknowledged.
\<close>

lemma torn_then_line_syntax: "parseMutation nf pv (''{'' @ mutation_line nf pv m) = Inl JsonlSyntax"
proof -
  have "parse_members nf (Suc n) [] (mutation_line nf pv m) = None" for n
    by (simp add: parse_members.simps mutation_line_def json_space_def QUOTE_def)
  moreover obtain n where "parse_fuel (''{'' @ mutation_line nf pv m) = Suc (Suc n)"
    by (simp add: parse_fuel_def numeral_2_eq_2)
  ultimately have "json_parse nf (''{'' @ mutation_line nf pv m) = None"
    by (simp add: json_parse_def parse_value.simps mutation_line_def json_space_def QUOTE_def)
  then show ?thesis by (simp add: parseMutation_def parseObject_def)
qed

lemma acknowledged_write_lost:
  assumes "storable sample_view m"
  shows "\<exists>st w'. jl_load memory_fs sample_format sample_view ''f''
      ((\<lambda>p. None)(''f'' \<mapsto> session_text sample_format sample_view sample_header [] @ ''{'' @ encodeMutation sample_format sample_view m))
    = (Inr st, w') \<and> jl_state st = initial_state \<and> w' ''f'' = Some (session_text sample_format sample_view sample_header [])"
proof -
  let ?h = "header_line sample_format sample_header" and ?l = "''{'' @ mutation_line sample_format sample_view m"
  have nl: "NEWLINE \<notin> set ?h" "NEWLINE \<notin> set ?l"
    using text_no_newline [OF sample_format_ok header_json_ok [OF sample_header_storable]]
      mutation_line_no_newline [OF sample_format_ok assms] by simp_all
  have "physical_lines (?h @ NEWLINE # ?l @ [NEWLINE]) = [?h, ?l]"
    unfolding physical_lines_def using split_lines_line [OF nl(1)] split_lines_line [OF nl(2)] by simp
  moreover have "load_lines sample_format sample_view ''f'' 1 st [?l] = Inr (st, Some 1)" for st
    by (simp add: torn_then_line_syntax del: append.simps)
  ultimately show ?thesis
    using header_read [OF sample_format_ok sample_header_storable]
    by (simp add: jl_load_def load_content_def io_simps memory_fs_def session_text_def encodeHeader_def
        encodeMutation_def publishFileAtomically_def Let_def)
qed

end
