(* ===== verification/Jsonl_Repo.thy ===== *)
theory Jsonl_Repo
  imports Jsonl_Storage
begin

text \<open>
  \<^verbatim>\<open>packages/agent/src/harness/session/jsonl/repo.ts\<close>: where session files live and how they are found. The
  repository keeps the destinations it is creating and the resolved root; they are threaded with the
  world of the file system. \<^verbatim>\<open>uuidv7()\<close>, \<^verbatim>\<open>Date.now()\<close> and \<^verbatim>\<open>toISOString\<close> are arguments.
\<close>

section \<open>Names\<close>

definition alphanumeric :: "char \<Rightarrow> bool" where
  "alphanumeric c \<longleftrightarrow> (let n = of_char c :: nat in (65 \<le> n \<and> n \<le> 90) \<or> (97 \<le> n \<and> n \<le> 122) \<or> (48 \<le> n \<and> n \<le> 57))"

text \<open>The regular expression: one alphanumeric character, or two around characters of the wider set.\<close>

definition session_id_pattern :: "string \<Rightarrow> bool" where
  "session_id_pattern i \<longleftrightarrow> i \<noteq> [] \<and> alphanumeric (hd i) \<and> alphanumeric (last i) \<and>
     list_all (\<lambda>c. alphanumeric c \<or> c \<in> set ''._-'') i"

definition validateSessionId :: "id \<Rightarrow> session_error + unit" where
  "validateSessionId i = ensure (session_id_pattern i) (SessionError InvalidPayload InvalidSessionId)"

definition path_separator :: "char \<Rightarrow> bool" where
  "path_separator c \<longleftrightarrow> c = CHR ''/'' \<or> c = CHR 0x5C"

definition jsonlSessionDirectoryName :: "string \<Rightarrow> string" where
  "jsonlSessionDirectoryName cwd =
     (let relative = (case cwd of c # rest \<Rightarrow> if path_separator c then rest else cwd | [] \<Rightarrow> [])
      in ''--'' @ map (\<lambda>c. if path_separator c \<or> c = CHR '':'' then CHR ''-'' else c) relative @ ''--'')"

definition sessionFileName :: "(int \<Rightarrow> string) \<Rightarrow> int \<Rightarrow> id \<Rightarrow> string" where
  "sessionFileName toISOString createdAt i =
     map (\<lambda>c. if c = CHR '':'' \<or> c = CHR ''.'' then CHR ''-'' else c) (toISOString createdAt) @ ''_'' @ i @ ''.jsonl''"

section \<open>The repository\<close>

datatype file_kind = FileKind | DirectoryKind | SymlinkKind

record file_info =
  fi_name :: string
  fi_path :: string
  fi_kind :: file_kind
  fi_mtimeMs :: int

record 'w repo_fs = "'w jsonl_fs" +
  fs_absolutePath :: "string \<Rightarrow> 'w \<Rightarrow> (file_error + string) \<times> 'w"
  fs_joinPath :: "string list \<Rightarrow> 'w \<Rightarrow> (file_error + string) \<times> 'w"
  fs_readTextLines :: "string \<Rightarrow> nat \<Rightarrow> 'w \<Rightarrow> (file_error + string list) \<times> 'w"
  fs_exists :: "string \<Rightarrow> 'w \<Rightarrow> (file_error + bool) \<times> 'w"
  fs_listDir :: "string \<Rightarrow> 'w \<Rightarrow> (file_error + file_info list) \<times> 'w"
  fs_createDir :: "string \<Rightarrow> 'w \<Rightarrow> (file_error + unit) \<times> 'w"

record repo_state =
  rs_sessionsRootInput :: string
  rs_activeCreateDestinations :: "string set"
  rs_rootPromise :: "(session_error + string) option"

type_synonym ('w, 'a) repo_io = "('w \<times> repo_state, 'a) io"

definition on_fs :: "('w, 'a) io \<Rightarrow> ('w, 'a) repo_io" where
  "on_fs f = (\<lambda>(w, rs). case f w of (r, w') \<Rightarrow> (r, (w', rs)))"

record jsonl_create_options =
  co_id :: "id option"
  co_cwd :: string
  co_parentSessionId :: "id option"
  co_metadata :: "(string \<times> json) list option"
  co_metadata_check :: "session_error + unit"  \<comment> \<open>outcome of \<^verbatim>\<open>assertJsonSerializable\<close> on it\<close>

text \<open>The first resolution of the root is kept, a failed one too.\<close>

definition repo_root :: "'w repo_fs \<Rightarrow> ('w, string) repo_io" where
  "repo_root fs = (\<lambda>(w, rs).
     case rs_rootPromise rs of
       Some r \<Rightarrow> (r, (w, rs))
     | None \<Rightarrow>
         (case fileResult ''Failed to resolve sessions root'' (rs_sessionsRootInput rs)
                 (fs_absolutePath fs (rs_sessionsRootInput rs)) w of
            (r, w') \<Rightarrow> (r, (w', rs\<lparr> rs_rootPromise := Some r \<rparr>))))"

definition repo_sessionDirectory :: "'w repo_fs \<Rightarrow> string \<Rightarrow> ('w, string) repo_io" where
  "repo_sessionDirectory fs cwd =
     io_bind (repo_root fs) (\<lambda>root.
     on_fs (fileResult ''Failed to resolve sessions directory'' cwd
       (fs_joinPath fs [root, jsonlSessionDirectoryName cwd])))"

definition ends_with :: "string \<Rightarrow> string \<Rightarrow> bool" where
  "ends_with s suf \<longleftrightarrow> suffix suf s"

definition sessionIdExists :: "'w repo_fs \<Rightarrow> id \<Rightarrow> string \<Rightarrow> ('w, bool) repo_io" where
  "sessionIdExists fs i cwd =
     io_bind (repo_sessionDirectory fs cwd) (\<lambda>directory.
     io_bind (on_fs (fileResult ''Failed to check sessions directory'' directory (fs_exists fs directory))) (\<lambda>present.
     if \<not> present then io_return False
     else io_bind (on_fs (fileResult ''Failed to list sessions directory'' directory (fs_listDir fs directory))) (\<lambda>files.
          io_return (list_ex (\<lambda>f. fi_kind f \<noteq> DirectoryKind \<and> ends_with (fi_name f) (''_'' @ i @ ''.jsonl'')) files))))"

definition resolveCreateDestination ::
  "'w repo_fs \<Rightarrow> id \<Rightarrow> jsonl_create_options \<Rightarrow> ('w, id \<times> string) repo_io" where
  "resolveCreateDestination fs uuid options =
     (let i = (case co_id options of Some x \<Rightarrow> x | None \<Rightarrow> uuid) in
      io_bind (io_lift (validateSessionId i)) (\<lambda>_.
      io_bind (on_fs (fileResult ''Failed to resolve session cwd'' (co_cwd options) (fs_absolutePath fs (co_cwd options)))) (\<lambda>cwd.
      io_return (i, cwd))))"

definition claimCreateDestination :: "id \<times> string \<Rightarrow> ('w, 'a) repo_io \<Rightarrow> ('w, 'a) repo_io" where
  "claimCreateDestination destination operation = (\<lambda>(w, rs).
     let key = snd destination @ [CHR 0x00] @ fst destination in
     if key \<in> rs_activeCreateDestinations rs
     then (Inl (SessionError AlreadyExists (SessionExists (fst destination))), (w, rs))
     else case operation (w, rs\<lparr> rs_activeCreateDestinations := insert key (rs_activeCreateDestinations rs) \<rparr>) of
            (r, (w', rs')) \<Rightarrow>
              (r, (w', rs'\<lparr> rs_activeCreateDestinations := rs_activeCreateDestinations rs' - {key} \<rparr>)))"

definition prepareCreate ::
  "'w repo_fs \<Rightarrow> (int \<Rightarrow> string) \<Rightarrow> int \<Rightarrow> id \<times> string \<Rightarrow> jsonl_create_options \<Rightarrow> ('w, jsonl_header \<times> string) repo_io" where
  "prepareCreate fs toISOString createdAt destination options =
     (case destination of (i, cwd) \<Rightarrow>
      io_bind (sessionIdExists fs i cwd) (\<lambda>taken.
      io_bind (io_lift (ensure (\<not> taken) (SessionError AlreadyExists (SessionExists i)))) (\<lambda>_.
      io_bind (repo_sessionDirectory fs cwd) (\<lambda>sessionDirectory.
      io_bind (on_fs (fileResult ''Failed to resolve path for session'' i
        (fs_joinPath fs [sessionDirectory, sessionFileName toISOString createdAt i]))) (\<lambda>path.
      io_bind (io_lift (if co_metadata options = None then Inr () else co_metadata_check options)) (\<lambda>_.
      let header = \<lparr> jh_id = i, jh_createdAt = createdAt, jh_cwd = cwd,
                     jh_parentSessionId = co_parentSessionId options, jh_legacyParentSessionPath = None,
                     jh_metadata = co_metadata options \<rparr> in
      io_bind (on_fs (fileResult ''Failed to create sessions directory'' [] (fs_createDir fs sessionDirectory))) (\<lambda>_.
      io_return (header, path))))))))"

definition jsonl_repo_create ::
  "'w repo_fs \<Rightarrow> number_format \<Rightarrow> (int \<Rightarrow> string) \<Rightarrow> id \<Rightarrow> int \<Rightarrow> jsonl_create_options \<Rightarrow> ('w, jsonl_storage) repo_io" where
  "jsonl_repo_create fs nf toISOString uuid now options =
     io_bind (resolveCreateDestination fs uuid options) (\<lambda>destination.
     claimCreateDestination destination
       (io_bind (prepareCreate fs toISOString now destination options) (\<lambda>(header, path).
        on_fs (jl_create (jsonl_fs.truncate fs) nf path header))))"

definition loadJsonlSessionStorage ::
  "'w repo_fs \<Rightarrow> number_format \<Rightarrow> payload_view \<Rightarrow> jsonl_metadata \<Rightarrow> ('w, jsonl_storage) io" where
  "loadJsonlSessionStorage fs nf pv metadata =
     io_bind (fileResult ''Failed to check session'' (jm_path metadata) (fs_exists fs (jm_path metadata))) (\<lambda>present.
     io_bind (io_lift (ensure present (SessionError NotFound (SessionNotFound (jm_id metadata))))) (\<lambda>_.
     io_bind (jl_load (jsonl_fs.truncate fs) nf pv (jm_path metadata)) (\<lambda>storage.
     io_bind (io_lift (ensure (jm_id (jl_metadata storage) = jm_id metadata)
       (SessionError InvalidEntry (HeaderMismatch (jm_id metadata))))) (\<lambda>_.
     io_return storage))))"

definition jsonl_repo_open ::
  "'w repo_fs \<Rightarrow> number_format \<Rightarrow> payload_view \<Rightarrow> jsonl_metadata \<Rightarrow> ('w, jsonl_storage) repo_io" where
  "jsonl_repo_open fs nf pv metadata = on_fs (loadJsonlSessionStorage fs nf pv metadata)"

definition jsonl_repo_delete :: "'w repo_fs \<Rightarrow> jsonl_metadata \<Rightarrow> ('w, unit) repo_io" where
  "jsonl_repo_delete fs metadata =
     on_fs (fileResult ''Failed to delete session'' (jm_path metadata) (fs_remove fs (jm_path metadata)))"

definition jsonl_repo_fork ::
  "'w repo_fs \<Rightarrow> number_format \<Rightarrow> payload_view \<Rightarrow> (int \<Rightarrow> string) \<Rightarrow> id \<Rightarrow> int \<Rightarrow> jsonl_metadata \<Rightarrow> fork_options
     \<Rightarrow> jsonl_create_options \<Rightarrow> ('w, jsonl_storage) repo_io" where
  "jsonl_repo_fork fs nf pv toISOString uuid now source forkOptions options =
     io_bind (on_fs (loadJsonlSessionStorage fs nf pv source)) (\<lambda>sourceStorage.
     let createOptions = options\<lparr> co_parentSessionId :=
           Some (case co_parentSessionId options of Some p \<Rightarrow> p | None \<Rightarrow> jm_id source) \<rparr> in
     io_bind (resolveCreateDestination fs uuid createOptions) (\<lambda>destination.
     claimCreateDestination destination
       (io_bind (prepareCreate fs toISOString now destination createOptions) (\<lambda>(header, path).
        on_fs (jl_fork (jsonl_fs.truncate fs) nf pv sourceStorage path header forkOptions)))))"

section \<open>Listing\<close>

definition jsonlSessionDirectories :: "'w repo_fs \<Rightarrow> string \<Rightarrow> string option \<Rightarrow> ('w, string list) io" where
  "jsonlSessionDirectories fs sessionsRootInput cwd =
     io_bind (fileResult ''Failed to resolve sessions root'' sessionsRootInput (fs_absolutePath fs sessionsRootInput)) (\<lambda>sessionsRoot.
     case cwd of
       Some d \<Rightarrow>
         io_bind (fileResult ''Failed to resolve session cwd'' d (fs_absolutePath fs d)) (\<lambda>resolvedCwd.
         io_bind (fileResult ''Failed to resolve sessions directory'' resolvedCwd
           (fs_joinPath fs [sessionsRoot, jsonlSessionDirectoryName resolvedCwd])) (\<lambda>directory.
         io_bind (fileResult ''Failed to check sessions directory'' directory (fs_exists fs directory)) (\<lambda>present.
         io_return (if present then [directory] else []))))
     | None \<Rightarrow>
         io_bind (fileResult ''Failed to check sessions directory'' sessionsRoot (fs_exists fs sessionsRoot)) (\<lambda>present.
         if \<not> present then io_return []
         else io_bind (fileResult ''Failed to list sessions directory'' sessionsRoot (fs_listDir fs sessionsRoot)) (\<lambda>entries.
              io_return (map fi_path (filter (\<lambda>e. fi_kind e = DirectoryKind \<or> fi_kind e = SymlinkKind) entries)))))"

definition list_file :: "'w repo_fs \<Rightarrow> number_format \<Rightarrow> jsonl_metadata list \<Rightarrow> file_info \<Rightarrow> ('w, jsonl_metadata list) io" where
  "list_file fs nf metadata file =
     io_bind (fileResult ''Failed to read session header'' (fi_path file) (fs_readTextLines fs (fi_path file) 1)) (\<lambda>lines.
     io_return (case lines of
       [] \<Rightarrow> metadata
     | firstLine # _ \<Rightarrow>
         if firstLine = [] then metadata
         else case parseHeader nf firstLine of
                Inl _ \<Rightarrow> metadata
              | Inr header \<Rightarrow> metadata @ [metadataFromHeader header (fi_path file) (fi_mtimeMs file)]))"

definition list_directory ::
  "'w repo_fs \<Rightarrow> number_format \<Rightarrow> jsonl_metadata list \<Rightarrow> string \<Rightarrow> ('w, jsonl_metadata list) io" where
  "list_directory fs nf metadata directory =
     io_bind (fileResult ''Failed to list sessions directory'' directory (fs_listDir fs directory)) (\<lambda>entries.
     io_fold (list_file fs nf) metadata
       (filter (\<lambda>e. fi_kind e \<noteq> DirectoryKind \<and> ends_with (fi_name e) ''.jsonl'') entries))"

definition listJsonlSessionMetadata ::
  "'w repo_fs \<Rightarrow> number_format \<Rightarrow> string \<Rightarrow> string option \<Rightarrow> ('w, jsonl_metadata list) io" where
  "listJsonlSessionMetadata fs nf sessionsRootInput cwd =
     io_bind (jsonlSessionDirectories fs sessionsRootInput cwd) (\<lambda>directories.
     io_bind (io_fold (list_directory fs nf) [] directories) (\<lambda>metadata.
     io_return (sort_key (\<lambda>m. - jm_modifiedAt m) metadata)))"

definition jsonl_repo_list :: "'w repo_fs \<Rightarrow> number_format \<Rightarrow> string option \<Rightarrow> ('w, jsonl_metadata list) repo_io" where
  "jsonl_repo_list fs nf cwd = (\<lambda>(w, rs). on_fs (listJsonlSessionMetadata fs nf (rs_sessionsRootInput rs) cwd) (w, rs))"

section \<open>Where sessions are put\<close>

lemma directory_name_flat: "list_all (\<lambda>c. \<not> path_separator c) (jsonlSessionDirectoryName cwd)"
  by (auto simp: jsonlSessionDirectoryName_def path_separator_def list_all_iff Let_def split: list.splits)

lemma file_name_flat:
  assumes "session_id_pattern i" and "list_all (\<lambda>c. \<not> path_separator c) (toISOString t)"
  shows "list_all (\<lambda>c. \<not> path_separator c) (sessionFileName toISOString t i)"
proof -
  have sep: "\<not> path_separator c" if "alphanumeric c \<or> c \<in> set ''._-''" for c
    using that by (auto simp: path_separator_def alphanumeric_def)
  have "list_all (\<lambda>c. \<not> path_separator c) i"
    using assms(1) sep by (simp add: session_id_pattern_def list_all_iff)
  moreover have "list_all (\<lambda>c. \<not> path_separator c) (map (\<lambda>c. if c = CHR '':'' \<or> c = CHR ''.'' then CHR ''-'' else c) (toISOString t))"
    using assms(2) sep [of "CHR ''-''"] by (auto simp: list_all_iff)
  moreover have "list_all (\<lambda>c. \<not> path_separator c) ''_''" "list_all (\<lambda>c. \<not> path_separator c) ''.jsonl''"
    by (simp_all add: path_separator_def)
  ultimately show ?thesis unfolding sessionFileName_def list_all_append by blast
qed

text \<open>A name is taken exactly if a file of the directory ends in it; so the id of another session that ends
  in an underscore and the new id counts as taken.\<close>

lemma id_taken_by_suffix: "ends_with (''2026_a_b.jsonl'') (''_'' @ ''b'' @ ''.jsonl'') \<and> session_id_pattern ''a_b'' \<and> session_id_pattern ''b''"
  by (simp add: ends_with_def suffix_def session_id_pattern_def alphanumeric_def)


lemma on_fs_Inr: "on_fs f u = (Inr x, u') \<longleftrightarrow> f (fst u) = (Inr x, fst u') \<and> snd u' = snd u"
  by (cases u; cases u') (auto simp: on_fs_def split: prod.splits)

lemma claim_Inr:
  "claimCreateDestination d operation u = (Inr x, u') \<Longrightarrow> \<exists>v v'. operation v = (Inr x, v')"
  by (cases u) (auto simp: claimCreateDestination_def Let_def split: if_splits prod.splits)

text \<open>A created session has a valid id, and its file lies directly in the directory of its working
  directory, which lies directly in the root: neither name contains a path separator, whatever the
  caller gave as id and working directory.\<close>

theorem created_session_confined:
  assumes "list_all (\<lambda>c. \<not> path_separator c) (toISOString now)"
    and "jsonl_repo_create fs nf toISOString uuid now options u = (Inr st, u')"
  shows "\<exists>root cwd directory fileName w1 w2 w3 w4. session_id_pattern (jm_id (jl_metadata st)) \<and>
    fs_joinPath fs [root, jsonlSessionDirectoryName cwd] w1 = (Inr directory, w2) \<and>
    fs_joinPath fs [directory, fileName] w3 = (Inr (jm_path (jl_metadata st)), w4) \<and>
    fileName = sessionFileName toISOString now (jm_id (jl_metadata st)) \<and>
    list_all (\<lambda>c. \<not> path_separator c) (jsonlSessionDirectoryName cwd) \<and>
    list_all (\<lambda>c. \<not> path_separator c) fileName"
proof -
  from assms(2) obtain i cwd u1 where i: "session_id_pattern i"
    and c: "claimCreateDestination (i, cwd) (io_bind (prepareCreate fs toISOString now (i, cwd) options)
      (\<lambda>(header, path). on_fs (jl_create (jsonl_fs.truncate fs) nf path header))) u1 = (Inr st, u')"
    by (auto simp: jsonl_repo_create_def resolveCreateDestination_def validateSessionId_def ensure_def
        io_bind_Inr Let_def split: if_splits)
  from claim_Inr [OF c] obtain header path v v1 v' where p:
    "prepareCreate fs toISOString now (i, cwd) options v = (Inr (header, path), v1)"
    "jl_create (jsonl_fs.truncate fs) nf path header (fst v1) = (Inr st, v')"
    by (auto simp: io_bind_Inr on_fs_Inr)
  from p(1) obtain directory root w1 w2 w3 w4 where j:
    "fs_joinPath fs [root, jsonlSessionDirectoryName cwd] w1 = (Inr directory, w2)"
    "fs_joinPath fs [directory, sessionFileName toISOString now i] w3 = (Inr path, w4)" "jh_id header = i"
    unfolding prepareCreate_def prod.case io_bind_Inr repo_sessionDirectory_def
    by (auto simp: on_fs_Inr fileResult_Inr Let_def io_bind_Inr)
  have "jm_path (jl_metadata st) = path" "jm_id (jl_metadata st) = i"
    using p(2) j(3) by (auto simp: jl_create_def io_bind_Inr metadataFromHeader_def)
  then show ?thesis
    using i j directory_name_flat [of cwd] file_name_flat [of i toISOString now, OF i assms(1)] by blast
qed


definition memory_repo_fs :: "(string \<Rightarrow> string option) repo_fs" where
  "memory_repo_fs = jsonl_fs.extend memory_fs \<lparr>
     fs_absolutePath = (\<lambda>p w. (Inr p, w)),
     fs_joinPath = (\<lambda>ps w. (Inr (concat (map (\<lambda>p. p @ ''/'') (butlast ps)) @ last ps), w)),
     fs_readTextLines = (\<lambda>p n w. (case w p of None \<Rightarrow> Inl FileNotFound | Some s \<Rightarrow> Inr (take n (split_lines s)), w)),
     fs_exists = (\<lambda>p w. (Inr (w p \<noteq> None), w)),
     fs_listDir = (\<lambda>p w. (Inr [], w)),
     fs_createDir = (\<lambda>p w. (Inr (), w)) \<rparr>"

lemma memory_repo_fs_base: "jsonl_fs.truncate memory_repo_fs = memory_fs"
  by (simp add: memory_repo_fs_def memory_fs_def jsonl_fs.defs)

definition sample_create_options :: jsonl_create_options where
  "sample_create_options = \<lparr> co_id = Some ''a_b'', co_cwd = ''/w'', co_parentSessionId = None, co_metadata = None,
     co_metadata_check = Inr () \<rparr>"

definition sample_repo :: repo_state where
  "sample_repo = \<lparr> rs_sessionsRootInput = ''r'', rs_activeCreateDestinations = {}, rs_rootPromise = None \<rparr>"

lemma sample_create:
  "\<exists>st u'. jsonl_repo_create memory_repo_fs sample_format (\<lambda>_. ''2026'') ''u'' 1 sample_create_options ((\<lambda>p. None), sample_repo)
     = (Inr st, u')"
  by (simp add: jsonl_repo_create_def resolveCreateDestination_def sample_create_options_def validateSessionId_def
        session_id_pattern_def alphanumeric_def ensure_def io_simps on_fs_def memory_repo_fs_def jsonl_fs.defs
        claimCreateDestination_def prepareCreate_def sessionIdExists_def repo_sessionDirectory_def repo_root_def
        sample_repo_def jl_create_def memory_fs_def Let_def)

theorem created_session_confined_witness:
  "\<exists>st. session_id_pattern (jm_id (jl_metadata st)) \<and>
     list_all (\<lambda>c. \<not> path_separator c) (sessionFileName (\<lambda>_. ''2026'') 1 (jm_id (jl_metadata (st :: jsonl_storage))))"
proof -
  obtain st u' where "jsonl_repo_create memory_repo_fs sample_format (\<lambda>_. ''2026'') ''u'' 1 sample_create_options
      ((\<lambda>p. None), sample_repo) = (Inr st, u')" using sample_create by blast
  from created_session_confined [OF _ this] show ?thesis by (force simp: path_separator_def)
qed

end
