(* ===== verification/Truncate.thy ===== *)
theory Truncate
  imports Utf8 "HOL-Library.Sublist"
begin

text \<open>
  \<^verbatim>\<open>packages/agent/src/harness/utils/truncate.ts\<close>: truncation of tool output to a number of lines
  and a number of UTF-8 bytes. Limits are natural numbers. Lines are separated by line feeds; a
  final line feed does not start a line.
\<close>

section \<open>The code\<close>

definition DEFAULT_MAX_LINES :: nat where "DEFAULT_MAX_LINES = 2000"
definition DEFAULT_MAX_BYTES :: nat where "DEFAULT_MAX_BYTES = 50 * 1024"
definition GREP_MAX_LINE_LENGTH :: nat where "GREP_MAX_LINE_LENGTH = 500"

datatype limit_kind = ByLines | ByBytes

record truncation_result =
  tn_content :: js_string
  tn_truncated :: bool
  tn_truncatedBy :: "limit_kind option"
  tn_totalLines :: nat
  tn_totalBytes :: nat
  tn_outputLines :: nat
  tn_outputBytes :: nat
  tn_lastLinePartial :: bool
  tn_firstLineExceedsLimit :: bool
  tn_maxLines :: nat
  tn_maxBytes :: nat

text \<open>The loop of \<^verbatim>\<open>utf8ByteLength\<close> for a platform without \<^verbatim>\<open>Buffer\<close>.\<close>

fun utf8_scan :: "js_string \<Rightarrow> nat" where
  "utf8_scan [] = 0"
| "utf8_scan [u] = (if unat u \<le> 0x7F then 1 else if unat u \<le> 0x7FF then 2 else 3)"
| "utf8_scan (u # v # us) =
     (if unat u \<le> 0x7F then 1 + utf8_scan (v # us)
      else if unat u \<le> 0x7FF then 2 + utf8_scan (v # us)
      else if is_high (unat u) then
        (if is_low (unat v) then 4 + utf8_scan us else 3 + utf8_scan (v # us))
      else 3 + utf8_scan (v # us))"

definition utf8ByteLength :: "bool \<Rightarrow> js_string \<Rightarrow> nat" where
  "utf8ByteLength hasBuffer content =
     (if hasBuffer then length (text_encode content)
      else let ascii = (\<lambda>u. unat u \<le> 0x7F) in
           if list_all ascii content then length content
           else length (takeWhile ascii content) + utf8_scan (dropWhile ascii content))"

text \<open>\<^verbatim>\<open>content.split("\n")\<close>.\<close>

fun split_newlines :: "js_string \<Rightarrow> js_string list" where
  "split_newlines [] = [[]]"
| "split_newlines (u # us) =
     (if u = 10 then [] # split_newlines us
      else case split_newlines us of [] \<Rightarrow> [[u]] | l # ls \<Rightarrow> (u # l) # ls)"

definition splitLinesForCounting :: "js_string \<Rightarrow> js_string list" where
  "splitLinesForCounting content =
     (if content = [] then []
      else if last content = 10 then butlast (split_newlines content) else split_newlines content)"

text \<open>\<^verbatim>\<open>lines.join("\n")\<close>.\<close>

fun join_lines :: "js_string list \<Rightarrow> js_string" where
  "join_lines [] = []"
| "join_lines [l] = l"
| "join_lines (l # m # ls) = l @ 10 # join_lines (m # ls)"

fun replaceUnpairedSurrogates :: "js_string \<Rightarrow> js_string" where
  "replaceUnpairedSurrogates [] = []"
| "replaceUnpairedSurrogates [u] = (if is_high (unat u) \<or> is_low (unat u) then [0xFFFD] else [u])"
| "replaceUnpairedSurrogates (u # v # us) =
     (if is_high (unat u) then
        (if is_low (unat v) then u # v # replaceUnpairedSurrogates us
         else 0xFFFD # replaceUnpairedSurrogates (v # us))
      else if is_low (unat u) then 0xFFFD # replaceUnpairedSurrogates (v # us)
      else u # replaceUnpairedSurrogates (v # us))"

text \<open>
  The backward scan of \<^verbatim>\<open>truncateStringToBytesFromEnd\<close>: \<open>rev_prefix\<close> holds the units before
  \<^verbatim>\<open>i\<close>, the last one first, and \<open>output\<close> the units from \<^verbatim>\<open>start\<close> on.
\<close>

fun scan_back :: "nat \<Rightarrow> js_string \<Rightarrow> nat \<Rightarrow> js_string \<Rightarrow> bool \<Rightarrow> js_string \<times> bool" where
  "scan_back maxBytes [] outputBytes output needsReplacement = (output, needsReplacement)"
| "scan_back maxBytes (u # rest) outputBytes output needsReplacement =
     (if is_low (unat u) \<and> rest \<noteq> [] then
        (if is_high (unat (hd rest)) then
           (if outputBytes + 4 > maxBytes then (output, needsReplacement)
            else scan_back maxBytes (tl rest) (outputBytes + 4) (hd rest # u # output) needsReplacement)
         else if outputBytes + 3 > maxBytes then (output, needsReplacement)
         else scan_back maxBytes rest (outputBytes + 3) (u # output) True)
      else if is_high (unat u) \<or> is_low (unat u) then
        (if outputBytes + 3 > maxBytes then (output, needsReplacement)
         else scan_back maxBytes rest (outputBytes + 3) (u # output) True)
      else let characterBytes = (if unat u \<le> 0x7F then 1 else if unat u \<le> 0x7FF then 2 else 3) in
        if outputBytes + characterBytes > maxBytes then (output, needsReplacement)
        else scan_back maxBytes rest (outputBytes + characterBytes) (u # output) needsReplacement)"

definition truncateStringToBytesFromEnd :: "js_string \<Rightarrow> nat \<Rightarrow> js_string" where
  "truncateStringToBytesFromEnd str maxBytes =
     (if maxBytes = 0 then []
      else case scan_back maxBytes (rev str) 0 [] False of
        (output, needsReplacement) \<Rightarrow>
          if needsReplacement then replaceUnpairedSurrogates output else output)"

text \<open>The loops of \<^verbatim>\<open>truncateHead\<close> and \<^verbatim>\<open>truncateTail\<close>; the latter walks the lines backwards.\<close>

fun head_loop :: "bool \<Rightarrow> nat \<Rightarrow> nat \<Rightarrow> nat \<Rightarrow> js_string list \<Rightarrow> js_string list \<Rightarrow> nat
    \<Rightarrow> js_string list \<times> nat \<times> limit_kind" where
  "head_loop hb maxLines maxBytes i [] out count = (out, count, ByLines)"
| "head_loop hb maxLines maxBytes i (line # rest) out count =
     (if i < maxLines then
        (let lineBytes = utf8ByteLength hb line + (if i > 0 then 1 else 0) in
         if count + lineBytes > maxBytes then (out, count, ByBytes)
         else head_loop hb maxLines maxBytes (i + 1) rest (out @ [line]) (count + lineBytes))
      else (out, count, ByLines))"

fun tail_loop :: "bool \<Rightarrow> nat \<Rightarrow> nat \<Rightarrow> js_string list \<Rightarrow> js_string list \<Rightarrow> nat
    \<Rightarrow> js_string list \<times> nat \<times> limit_kind \<times> bool" where
  "tail_loop hb maxLines maxBytes [] out count = (out, count, ByLines, False)"
| "tail_loop hb maxLines maxBytes (line # rest) out count =
     (if length out < maxLines then
        (let lineBytes = utf8ByteLength hb line + (if length out > 0 then 1 else 0) in
         if count + lineBytes > maxBytes then
           (if length out = 0 then
              (let truncatedLine = truncateStringToBytesFromEnd line maxBytes
               in (truncatedLine # out, utf8ByteLength hb truncatedLine, ByBytes, True))
            else (out, count, ByBytes, False))
         else tail_loop hb maxLines maxBytes rest (line # out) (count + lineBytes))
      else (out, count, ByLines, False))"

definition not_truncated :: "js_string \<Rightarrow> nat \<Rightarrow> nat \<Rightarrow> nat \<Rightarrow> nat \<Rightarrow> truncation_result" where
  "not_truncated content totalLines totalBytes maxLines maxBytes =
     \<lparr> tn_content = content, tn_truncated = False, tn_truncatedBy = None, tn_totalLines = totalLines,
       tn_totalBytes = totalBytes, tn_outputLines = totalLines, tn_outputBytes = totalBytes,
       tn_lastLinePartial = False, tn_firstLineExceedsLimit = False, tn_maxLines = maxLines,
       tn_maxBytes = maxBytes \<rparr>"

definition default_to :: "nat \<Rightarrow> nat option \<Rightarrow> nat" where
  "default_to d x = (case x of None \<Rightarrow> d | Some n \<Rightarrow> n)"

text \<open>With natural limits, content to be truncated has a first line.\<close>

definition truncateHead :: "bool \<Rightarrow> js_string \<Rightarrow> nat option \<Rightarrow> nat option \<Rightarrow> truncation_result" where
  "truncateHead hb content optMaxLines optMaxBytes =
     (let maxLines = default_to DEFAULT_MAX_LINES optMaxLines;
          maxBytes = default_to DEFAULT_MAX_BYTES optMaxBytes;
          totalBytes = utf8ByteLength hb content;
          lines = splitLinesForCounting content;
          totalLines = length lines in
      if totalLines \<le> maxLines \<and> totalBytes \<le> maxBytes
      then not_truncated content totalLines totalBytes maxLines maxBytes
      else if utf8ByteLength hb (hd lines) > maxBytes then
        \<lparr> tn_content = [], tn_truncated = True, tn_truncatedBy = Some ByBytes, tn_totalLines = totalLines,
          tn_totalBytes = totalBytes, tn_outputLines = 0, tn_outputBytes = 0, tn_lastLinePartial = False,
          tn_firstLineExceedsLimit = True, tn_maxLines = maxLines, tn_maxBytes = maxBytes \<rparr>
      else (case head_loop hb maxLines maxBytes 0 lines [] 0 of (out, count, by0) \<Rightarrow>
        (let by1 = (if length out \<ge> maxLines \<and> count \<le> maxBytes then ByLines else by0);
             outputContent = join_lines out in
         \<lparr> tn_content = outputContent, tn_truncated = True, tn_truncatedBy = Some by1,
           tn_totalLines = totalLines, tn_totalBytes = totalBytes, tn_outputLines = length out,
           tn_outputBytes = utf8ByteLength hb outputContent, tn_lastLinePartial = False,
           tn_firstLineExceedsLimit = False, tn_maxLines = maxLines, tn_maxBytes = maxBytes \<rparr>)))"

definition truncateTail :: "bool \<Rightarrow> js_string \<Rightarrow> nat option \<Rightarrow> nat option \<Rightarrow> truncation_result" where
  "truncateTail hb content optMaxLines optMaxBytes =
     (let maxLines = default_to DEFAULT_MAX_LINES optMaxLines;
          maxBytes = default_to DEFAULT_MAX_BYTES optMaxBytes;
          totalBytes = utf8ByteLength hb content;
          lines = splitLinesForCounting content;
          totalLines = length lines in
      if totalLines \<le> maxLines \<and> totalBytes \<le> maxBytes
      then not_truncated content totalLines totalBytes maxLines maxBytes
      else (case tail_loop hb maxLines maxBytes (rev lines) [] 0 of (out, count, by0, partial) \<Rightarrow>
        (let by1 = (if length out \<ge> maxLines \<and> count \<le> maxBytes then ByLines else by0);
             outputContent = join_lines out in
         \<lparr> tn_content = outputContent, tn_truncated = True, tn_truncatedBy = Some by1,
           tn_totalLines = totalLines, tn_totalBytes = totalBytes, tn_outputLines = length out,
           tn_outputBytes = utf8ByteLength hb outputContent, tn_lastLinePartial = partial,
           tn_firstLineExceedsLimit = False, tn_maxLines = maxLines, tn_maxBytes = maxBytes \<rparr>)))"

definition truncateLine :: "js_string \<Rightarrow> nat option \<Rightarrow> js_string \<times> bool" where
  "truncateLine line optMaxChars =
     (let maxChars = default_to GREP_MAX_LINE_LENGTH optMaxChars in
      if length line \<le> maxChars then (line, False)
      else (take maxChars line @ js_ascii ''... [truncated]'', True))"

section \<open>Byte lengths\<close>

abbreviation bytes :: "js_string \<Rightarrow> nat" where
  "bytes s \<equiv> length (text_encode s)"

lemma bytes_points: "bytes s = (\<Sum>p \<leftarrow> utf16_points s. length (utf8_point p))"
  by (simp add: text_encode_def length_concat comp_def)

lemma utf8_scan_bytes: "utf8_scan s = bytes s"
proof (induction s rule: utf16_points.induct)
  case (2 u)
  then show ?case using unat_u16 [of u]
    by (auto simp: bytes_points utf8_point_def is_high_def is_low_def)
next
  case (3 u v us)
  have s: "length (utf8_point (surrogate_point (unat u) (unat v))) = 4" if "is_high (unat u)" "is_low (unat v)"
    using that by (auto simp: utf8_point_def surrogate_point_def is_high_def is_low_def)
  show ?case using 3 unat_u16 [of u] s
    by (auto simp: bytes_points) (auto simp: utf8_point_def is_high_def is_low_def)
qed (simp add: bytes_points)

lemma ascii_bytes: "list_all (\<lambda>u. unat u \<le> 0x7F) xs \<Longrightarrow> bytes (xs @ ys) = length xs + bytes ys"
proof (induction xs)
  case (Cons u xs)
  then have "utf8_scan (u # xs @ ys) = 1 + utf8_scan (xs @ ys)"
    by (cases "xs @ ys") auto
  with Cons show ?case by (simp add: utf8_scan_bytes)
qed simp

lemma utf8ByteLength_bytes: "utf8ByteLength hb s = bytes s"
proof -
  let ?ascii = "\<lambda>u :: 16 word. unat u \<le> 0x7F"
  have "bytes s = length (takeWhile ?ascii s) + bytes (dropWhile ?ascii s)"
    using ascii_bytes [of "takeWhile ?ascii s" "dropWhile ?ascii s"]
    by (simp add: list_all_iff) (metis set_takeWhileD)
  moreover have "list_all ?ascii s \<Longrightarrow> bytes s = length s"
    using ascii_bytes [of s "[]"] by (simp add: bytes_points)
  ultimately show ?thesis by (simp add: utf8ByteLength_def Let_def utf8_scan_bytes)
qed

lemma bytes_newline: "bytes (as @ 10 # bs) = bytes as + 1 + bytes bs"
proof -
  have "utf8_scan (as @ 10 # bs) = utf8_scan as + 1 + utf8_scan bs"
  proof (induction as rule: utf8_scan.induct)
    case 1
    then show ?case by (cases bs) simp_all
  next
    case (2 u)
    then show ?case by (cases bs) (simp_all add: is_low_def)
  qed simp
  then show ?thesis by (simp add: utf8_scan_bytes)
qed

lemma bytes_nil [simp]: "bytes [] = 0"
  by (simp add: bytes_points)

section \<open>Lines\<close>

lemma join_lines_snoc: "join_lines (ls @ [l]) = (if ls = [] then l else join_lines ls @ 10 # l)"
  by (induction ls rule: join_lines.induct) auto

lemma join_lines_Cons: "join_lines (l # ls) = (if ls = [] then l else l @ 10 # join_lines ls)"
  by (cases ls) auto

lemma bytes_join_snoc:
  "bytes (join_lines (ls @ [l])) = bytes (join_lines ls) + (if ls = [] then 0 else 1) + bytes l"
  by (simp add: join_lines_snoc bytes_newline)

lemma bytes_join_Cons:
  "bytes (join_lines (l # ls)) = bytes (join_lines ls) + (if ls = [] then 0 else 1) + bytes l"
  by (simp add: join_lines_Cons bytes_newline)

lemma join_lines_append:
  "ls \<noteq> [] \<Longrightarrow> ms \<noteq> [] \<Longrightarrow> join_lines (ls @ ms) = join_lines ls @ 10 # join_lines ms"
  by (induction ls) (auto simp: join_lines_Cons)

lemma join_lines_take_prefix: "prefix (join_lines (take k ls)) (join_lines ls)"
proof (cases "take k ls = [] \<or> drop k ls = []")
  case False
  then show ?thesis using join_lines_append [of "take k ls" "drop k ls"] by (auto simp: prefix_def)
qed (auto simp: prefix_def)

lemma join_lines_drop_suffix: "suffix (join_lines (drop k ls)) (join_lines ls)"
proof (cases "take k ls = [] \<or> drop k ls = []")
  case False
  then show ?thesis using join_lines_append [of "take k ls" "drop k ls"]
    by (auto simp: suffix_def)
next
  case True
  then show ?thesis by (auto simp: suffix_def)
qed

lemma split_newlines_nonempty [simp]: "split_newlines s \<noteq> []"
  by (cases s) (auto split: list.splits)

lemma join_split: "join_lines (split_newlines s) = s"
  by (induction s) (auto simp: join_lines_Cons split: list.splits if_splits)

lemma last_split: "s \<noteq> [] \<Longrightarrow> last s = 10 \<Longrightarrow> last (split_newlines s) = [] \<and> butlast (split_newlines s) \<noteq> []"
  by (induction s) (auto split: list.splits if_splits)

lemma content_lines:
  assumes "content \<noteq> []"
  shows "splitLinesForCounting content \<noteq> []"
    and "content = join_lines (splitLinesForCounting content) @ (if last content = 10 then [10] else [])"
proof -
  show "splitLinesForCounting content \<noteq> []"
    using last_split [OF assms] assms by (simp add: splitLinesForCounting_def)
  show "content = join_lines (splitLinesForCounting content) @ (if last content = 10 then [10] else [])"
  proof (cases "last content = 10")
    case True
    with last_split [OF assms] have "split_newlines content = splitLinesForCounting content @ [[]]"
      "splitLinesForCounting content \<noteq> []"
      using assms append_butlast_last_id [OF split_newlines_nonempty, of content]
      by (simp_all add: splitLinesForCounting_def)
    then have "content = join_lines (splitLinesForCounting content) @ [10]"
      using join_split [of content] join_lines_snoc [of "splitLinesForCounting content" "[]"] by simp
    with True show ?thesis by simp
  next
    case False
    with assms show ?thesis by (simp add: splitLinesForCounting_def join_split)
  qed
qed

section \<open>Head\<close>

definition fits :: "nat \<Rightarrow> nat \<Rightarrow> js_string list \<Rightarrow> bool" where
  "fits maxLines maxBytes ls = (length ls \<le> maxLines \<and> bytes (join_lines ls) \<le> maxBytes)"

lemma head_loop_spec:
  assumes "head_loop hb ml mb (length out) rest out (bytes (join_lines out)) = (res, count, by)"
    and "fits ml mb out"
  shows "\<exists>k \<le> length rest. res = out @ take k rest \<and> count = bytes (join_lines res) \<and> fits ml mb res \<and>
    (k < length rest \<longrightarrow> \<not> fits ml mb (out @ take (Suc k) rest)) \<and>
    (by = ByBytes \<longleftrightarrow> k < length rest \<and> length res < ml)"
  using assms
proof (induction rest arbitrary: out)
  case (Cons line rest)
  let ?n = "bytes (join_lines out) + (bytes line + (if length out > 0 then 1 else 0))"
  have n: "?n = bytes (join_lines (out @ [line]))" by (simp add: bytes_join_snoc)
  show ?case
  proof (cases "length out < ml \<and> ?n \<le> mb")
    case False
    with Cons.prems n show ?thesis
      by (intro exI [of _ 0]) (auto simp: Let_def utf8ByteLength_bytes fits_def split: if_splits)
  next
    case True
    then have f: "fits ml mb (out @ [line])" using n by (simp add: fits_def)
    have "head_loop hb ml mb (length (out @ [line])) rest (out @ [line]) (bytes (join_lines (out @ [line]))) = (res, count, by)"
      using Cons.prems(1) True n by (simp add: Let_def utf8ByteLength_bytes)
    from Cons.IH [OF this f] obtain k where "k \<le> length rest" "res = (out @ [line]) @ take k rest"
      "count = bytes (join_lines res)" "fits ml mb res"
      "k < length rest \<longrightarrow> \<not> fits ml mb ((out @ [line]) @ take (Suc k) rest)"
      "by = ByBytes \<longleftrightarrow> k < length rest \<and> length res < ml" by blast
    then show ?thesis by (intro exI [of _ "Suc k"]) simp
  qed
qed simp

section \<open>Tail\<close>

lemma tail_loop_spec:
  assumes "tail_loop hb ml mb rest out (bytes (join_lines out)) = (res, count, by, partial)"
    and "fits ml mb out" and "\<not> partial"
  shows "\<exists>k \<le> length rest. res = rev (take k rest) @ out \<and> count = bytes (join_lines res) \<and> fits ml mb res \<and>
    (k < length rest \<longrightarrow> \<not> fits ml mb (rev (take (Suc k) rest) @ out)) \<and>
    (by = ByBytes \<longleftrightarrow> k < length rest \<and> length res < ml)"
  using assms
proof (induction rest arbitrary: out)
  case (Cons line rest)
  let ?n = "bytes (join_lines out) + (bytes line + (if length out > 0 then 1 else 0))"
  have n: "?n = bytes (join_lines (line # out))" by (simp add: bytes_join_Cons)
  show ?case
  proof (cases "length out < ml \<and> ?n \<le> mb")
    case False
    with Cons.prems n show ?thesis
      by (intro exI [of _ 0]) (auto simp: Let_def utf8ByteLength_bytes fits_def split: if_splits)
  next
    case True
    then have f: "fits ml mb (line # out)" using n by (simp add: fits_def)
    have "tail_loop hb ml mb rest (line # out) (bytes (join_lines (line # out))) = (res, count, by, partial)"
      using Cons.prems(1) True n by (simp add: Let_def utf8ByteLength_bytes)
    from Cons.IH [OF this f Cons.prems(3)] obtain k where "k \<le> length rest" "res = rev (take k rest) @ line # out"
      "count = bytes (join_lines res)" "fits ml mb res"
      "k < length rest \<longrightarrow> \<not> fits ml mb (rev (take (Suc k) rest) @ line # out)"
      "by = ByBytes \<longleftrightarrow> k < length rest \<and> length res < ml" by blast
    then show ?thesis by (intro exI [of _ "Suc k"]) simp
  qed
qed simp

lemma tail_loop_partial_later: "out \<noteq> [] \<Longrightarrow> tail_loop hb ml mb rest out n = (res, count, by, p) \<Longrightarrow> \<not> p"
proof (induction rest arbitrary: out n)
  case (Cons line rest)
  then show ?case by (auto simp: Let_def split: if_splits)
qed simp

text \<open>The partial line.\<close>

lemma replace_points: "replaceUnpairedSurrogates s = concat (map point_units (utf16_points s))"
proof (induction s rule: replaceUnpairedSurrogates.induct)
  case (2 u)
  then show ?case by (simp add: replacement_units point_units_bmp)
next
  case (3 u v us)
  then show ?case by (simp add: replacement_units point_units_bmp point_units_surrogate)
qed simp

lemma replace_ok: "well_formed (replaceUnpairedSurrogates s) \<and> bytes (replaceUnpairedSurrogates s) = bytes s"
  using units_points [OF utf16_points_scalar, of s] by (simp add: replace_points bytes_points)

text \<open>The scan stands at a boundary between characters.\<close>

definition boundary :: "js_string \<Rightarrow> js_string \<Rightarrow> bool" where
  "boundary rev_prefix acc =
     (acc \<noteq> [] \<and> is_low (unat (hd acc)) \<longrightarrow> rev_prefix = [] \<or> \<not> is_high (unat (hd rev_prefix)))"

lemma high_not_low: "is_high n \<Longrightarrow> \<not> is_low n"
  by (simp add: is_high_def is_low_def)

lemma boundary_step:
  assumes "boundary (u # rest) acc" and "\<not> (is_low (unat u) \<and> rest \<noteq> [] \<and> is_high (unat (hd rest)))"
  shows "bytes (u # acc) = bytes acc + (if unat u \<le> 0x7F then 1 else if unat u \<le> 0x7FF then 2 else 3)"
    and "boundary rest (u # acc)"
    and "\<not> is_high (unat u) \<Longrightarrow> \<not> is_low (unat u) \<Longrightarrow> well_formed (u # acc) = well_formed acc"
  using assms
  by (cases acc; auto simp: boundary_def is_high_def utf8_scan_bytes [symmetric])+

lemma boundary_pair:
  assumes "is_low (unat u)" and "is_high (unat v)"
  shows "bytes (v # u # acc) = bytes acc + 4" and "boundary rest (v # u # acc)"
    and "well_formed (v # u # acc) = well_formed acc"
  using assms by (auto simp: boundary_def is_high_def is_low_def utf8_scan_bytes [symmetric])

lemma scan_back_spec:
  assumes "scan_back mb rp n acc needs = (res, nr)"
    and "n = bytes acc" and "n \<le> mb" and "boundary rp acc" and "\<not> needs \<longrightarrow> well_formed acc"
  shows "suffix res (rev rp @ acc) \<and> bytes res \<le> mb \<and> (\<not> nr \<longrightarrow> well_formed res) \<and>
    (res = rev rp @ acc \<or> (\<exists>c. c \<noteq> [] \<and> length c \<le> 2 \<and> suffix (c @ res) (rev rp @ acc) \<and> mb < bytes (c @ res)))"
  using assms
proof (induction mb rp n acc needs rule: scan_back.induct)
  case (2 mb u rest n acc needs)
  let ?w = "if unat u \<le> 0x7F then 1 else if unat u \<le> 0x7FF then 2 else 3 :: nat"
  show ?case
  proof (cases "is_low (unat u) \<and> rest \<noteq> [] \<and> is_high (unat (hd rest))")
    case True
    then obtain v rest' where r: "rest = v # rest'" "is_high (unat v)" by (cases rest) auto
    have low: "is_low (unat u)" using True by simp
    note pair = boundary_pair(1) [OF low r(2), of acc] boundary_pair(2) [OF low r(2), of rest' acc]
      boundary_pair(3) [OF low r(2), of acc]
    show ?thesis
    proof (cases "n + 4 > mb")
      case over: True
      with "2.prems" True r have "res = acc" "nr = needs" by auto
      moreover have "suffix acc (rev (u # rest) @ acc)" "suffix ([v, u] @ acc) (rev (u # rest) @ acc)"
        using r by (simp_all add: suffix_def)
      moreover have "mb < bytes ([v, u] @ acc)" using pair(1) over "2.prems"(2) by simp
      ultimately show ?thesis using "2.prems"(2,3,5)
        by (intro conjI disjI2 exI [of _ "[v, u]"]) auto
    next
      case False
      have "scan_back mb rest' (n + 4) (v # u # acc) needs = (res, nr)" using "2.prems"(1) True r False by simp
      with "2.IH"(1) True r False "2.prems"(2,3,5) pair show ?thesis by simp
    qed
  next
    case single: False
    note step = boundary_step [OF "2.prems"(4) single]
    show ?thesis
    proof (cases "n + ?w > mb")
      case over: True
      with "2.prems"(1) single have "res = acc" "nr = needs"
        by (auto simp: is_high_def is_low_def Let_def split: if_splits)
      moreover have "suffix acc (rev (u # rest) @ acc)" "suffix ([u] @ acc) (rev (u # rest) @ acc)"
        by (simp_all add: suffix_def)
      moreover have "mb < bytes ([u] @ acc)" using step(1) over "2.prems"(2) by simp
      ultimately show ?thesis using "2.prems"(2,3,5)
        by (intro conjI disjI2 exI [of _ "[u]"]) auto
    next
      case fit: False
      have b: "n + ?w = bytes (u # acc)" "n + ?w \<le> mb" using fit "2.prems"(2) step(1) by auto
      show ?thesis
      proof (cases "is_high (unat u) \<or> is_low (unat u)")
        case True
        then have w: "?w = 3" by (auto simp: is_high_def is_low_def)
        have "scan_back mb rest (n + 3) (u # acc) True = (res, nr)"
          using "2.prems"(1) True single fit w by (auto split: if_splits)
        with "2.IH"(2,3) True single fit w b step(2) show ?thesis by auto
      next
        case False
        have "scan_back mb rest (n + ?w) (u # acc) needs = (res, nr)"
          using "2.prems"(1) False fit by (auto simp: Let_def split: if_splits)
        with "2.IH"(4) [OF _ _ refl] False fit b step(2,3) "2.prems"(5) show ?thesis by auto
      qed
    qed
  qed
qed simp

lemma truncate_from_end:
  "bytes (truncateStringToBytesFromEnd s m) \<le> m \<and>
   (\<exists>rest. suffix rest s \<and>
      (truncateStringToBytesFromEnd s m = replaceUnpairedSurrogates rest) \<and>
      (rest = s \<or> (\<exists>c. c \<noteq> [] \<and> length c \<le> 2 \<and> suffix (c @ rest) s \<and> m < bytes (c @ rest))))"
proof (cases "m = 0")
  case True
  show ?thesis
  proof (cases "s = []")
    case False
    then have "suffix ([last s] @ []) s" by (metis append_butlast_last_id append_Nil2 suffixI)
    moreover have "0 < bytes ([last s] @ [])" by (simp add: utf8_scan_bytes [symmetric])
    ultimately have "\<exists>c. c \<noteq> [] \<and> length c \<le> 2 \<and> suffix (c @ []) s \<and> m < bytes (c @ [])"
      using True by (intro exI [of _ "[last s]"]) simp
    moreover have "truncateStringToBytesFromEnd s m = []" "suffix [] s"
      using True by (simp_all add: truncateStringToBytesFromEnd_def)
    ultimately show ?thesis by (intro conjI exI [of _ "[]"]) simp_all
  qed (simp add: truncateStringToBytesFromEnd_def True)
next
  case False
  obtain res nr where r: "scan_back m (rev s) 0 [] False = (res, nr)" by fastforce
  from scan_back_spec [OF r] have spec: "suffix res s" "bytes res \<le> m" "\<not> nr \<longrightarrow> well_formed res"
    "res = s \<or> (\<exists>c. c \<noteq> [] \<and> length c \<le> 2 \<and> suffix (c @ res) s \<and> m < bytes (c @ res))"
    by (simp_all add: boundary_def)
  have "well_formed res \<Longrightarrow> replaceUnpairedSurrogates res = res" by (simp add: replace_points points_units)
  then have "truncateStringToBytesFromEnd s m = replaceUnpairedSurrogates res"
    using r False spec(3) by (simp add: truncateStringToBytesFromEnd_def)
  with spec replace_ok [of res] show ?thesis by auto
qed

section \<open>What truncation promises\<close>

text \<open>The byte length computed without \<^verbatim>\<open>Buffer\<close> is the length of the UTF-8 encoding, for every
string, unpaired surrogates included.\<close>

theorem byte_length_fallback:
  "utf8ByteLength False s = length (text_encode s) \<and> utf8ByteLength True s = length (text_encode s)"
  by (simp add: utf8ByteLength_bytes)

text \<open>The lines that a truncation from the head keeps: a longest prefix of the lines that fits.\<close>

definition keeps_head :: "nat \<Rightarrow> nat \<Rightarrow> js_string list \<Rightarrow> nat \<Rightarrow> bool" where
  "keeps_head maxLines maxBytes ls k =
     (k \<le> length ls \<and> fits maxLines maxBytes (take k ls) \<and>
      (k < length ls \<longrightarrow> \<not> fits maxLines maxBytes (take (Suc k) ls)))"

definition keeps_tail :: "nat \<Rightarrow> nat \<Rightarrow> js_string list \<Rightarrow> nat \<Rightarrow> bool" where
  "keeps_tail maxLines maxBytes ls k =
     (k \<le> length ls \<and> fits maxLines maxBytes (drop (length ls - k) ls) \<and>
      (k < length ls \<longrightarrow> \<not> fits maxLines maxBytes (drop (length ls - Suc k) ls)))"

lemma truncateHead_cut:
  assumes over: "\<not> (length (splitLinesForCounting content) \<le> default_to DEFAULT_MAX_LINES ml \<and>
      bytes content \<le> default_to DEFAULT_MAX_BYTES mb)"
    and r: "r = truncateHead hb content ml mb"
  shows "\<exists>k. keeps_head (default_to DEFAULT_MAX_LINES ml) (default_to DEFAULT_MAX_BYTES mb)
      (splitLinesForCounting content) k \<and> tn_content r = join_lines (take k (splitLinesForCounting content)) \<and>
      tn_outputLines r = k \<and> tn_outputBytes r = bytes (tn_content r) \<and> tn_truncated r"
proof -
  let ?ml = "default_to DEFAULT_MAX_LINES ml" and ?mb = "default_to DEFAULT_MAX_BYTES mb"
  let ?ls = "splitLinesForCounting content"
  have "content \<noteq> []" using over by (auto simp: splitLinesForCounting_def)
  then have ls: "?ls \<noteq> []" by (rule content_lines(1))
  show ?thesis
  proof (cases "bytes (hd ?ls) > ?mb")
    case True
    have "take (Suc 0) ?ls = [hd ?ls]" using ls by (cases ?ls) auto
    with True have "keeps_head ?ml ?mb ?ls 0" by (simp add: keeps_head_def fits_def)
    with True over show ?thesis
      by (intro exI [of _ 0]) (auto simp: r truncateHead_def Let_def utf8ByteLength_bytes)
  next
    case False
    obtain out count by0 where loop: "head_loop hb ?ml ?mb 0 ?ls [] 0 = (out, count, by0)"
      by (cases "head_loop hb ?ml ?mb 0 ?ls [] 0") auto
    have "fits ?ml ?mb []" by (simp add: fits_def)
    have start: "head_loop hb ?ml ?mb (length []) ?ls [] (bytes (join_lines [])) = (out, count, by0)"
      using loop by simp
    from head_loop_spec [OF start \<open>fits ?ml ?mb []\<close>] have
      "\<exists>k \<le> length ?ls. out = take k ?ls \<and> fits ?ml ?mb (take k ?ls) \<and>
        (k < length ?ls \<longrightarrow> \<not> fits ?ml ?mb (take (Suc k) ?ls))"
      by (simp only: append_Nil) blast
    then obtain k where k: "k \<le> length ?ls" "out = take k ?ls" "keeps_head ?ml ?mb ?ls k"
      unfolding keeps_head_def by blast
    have "tn_content r = join_lines out \<and> tn_outputLines r = length out \<and> tn_truncated r \<and>
        tn_outputBytes r = bytes (tn_content r)"
      using False over loop by (auto simp: r truncateHead_def Let_def utf8ByteLength_bytes)
    with k show ?thesis by (intro exI [of _ k]) simp
  qed
qed

text \<open>Truncation from the head returns content within both limits unchanged. Otherwise it keeps whole lines
from the start, as many as fit both limits and no fewer: the output is a prefix of the content, stays
within the limits, and one more line would not fit. The reported counts are those of the output.\<close>

theorem truncateHead_correct:
  "let r = truncateHead hb content ml mb; ls = splitLinesForCounting content;
       maxLines = default_to DEFAULT_MAX_LINES ml; maxBytes = default_to DEFAULT_MAX_BYTES mb
   in if length ls \<le> maxLines \<and> length (text_encode content) \<le> maxBytes
      then tn_content r = content \<and> \<not> tn_truncated r
      else tn_truncated r \<and> prefix (tn_content r) content \<and>
        tn_outputBytes r = length (text_encode (tn_content r)) \<and>
        keeps_head maxLines maxBytes ls (tn_outputLines r) \<and>
        tn_content r = join_lines (take (tn_outputLines r) ls)"
proof (cases "length (splitLinesForCounting content) \<le> default_to DEFAULT_MAX_LINES ml \<and>
    bytes content \<le> default_to DEFAULT_MAX_BYTES mb")
  case True
  then show ?thesis by (simp add: truncateHead_def Let_def utf8ByteLength_bytes not_truncated_def)
next
  case False
  then have "content \<noteq> []" by (auto simp: splitLinesForCounting_def)
  then have "prefix (join_lines (take k (splitLinesForCounting content))) content" for k
    using content_lines(2) join_lines_take_prefix prefix_def prefix_order.trans by metis
  with truncateHead_cut [OF False refl, of hb] False show ?thesis unfolding Let_def by force
qed

lemma truncateTail_cut:
  assumes over: "\<not> (length (splitLinesForCounting content) \<le> default_to DEFAULT_MAX_LINES ml \<and>
      bytes content \<le> default_to DEFAULT_MAX_BYTES mb)"
    and r: "r = truncateTail hb content ml mb"
  shows "tn_truncated r \<and> tn_outputBytes r = bytes (tn_content r) \<and>
    (if tn_lastLinePartial r
     then tn_content r = truncateStringToBytesFromEnd (last (splitLinesForCounting content)) (default_to DEFAULT_MAX_BYTES mb) \<and>
       default_to DEFAULT_MAX_BYTES mb < bytes (last (splitLinesForCounting content)) \<and>
       tn_outputLines r = 1 \<and> 1 \<le> default_to DEFAULT_MAX_LINES ml
     else keeps_tail (default_to DEFAULT_MAX_LINES ml) (default_to DEFAULT_MAX_BYTES mb)
         (splitLinesForCounting content) (tn_outputLines r) \<and>
       tn_content r = join_lines (drop (length (splitLinesForCounting content) - tn_outputLines r)
         (splitLinesForCounting content)))"
proof -
  let ?ml = "default_to DEFAULT_MAX_LINES ml" and ?mb = "default_to DEFAULT_MAX_BYTES mb"
  let ?ls = "splitLinesForCounting content"
  have "content \<noteq> []" using over by (auto simp: splitLinesForCounting_def)
  then obtain front l where ls: "?ls = front @ [l]" by (metis content_lines(1) rev_exhaust)
  obtain out count by0 partial where loop: "tail_loop hb ?ml ?mb (rev ?ls) [] 0 = (out, count, by0, partial)"
    by (metis prod_cases4)
  have fields: "tn_truncated r" "tn_outputBytes r = bytes (tn_content r)" "tn_lastLinePartial r = partial"
    "tn_content r = join_lines out" "tn_outputLines r = length out"
    using over loop by (auto simp: r truncateTail_def Let_def utf8ByteLength_bytes)
  show ?thesis
  proof (cases partial)
    case True
    then have "out = [truncateStringToBytesFromEnd l ?mb] \<and> ?mb < bytes l \<and> 1 \<le> ?ml"
      using loop ls tail_loop_partial_later [of "[l]" hb ?ml ?mb "rev front" "bytes l" out count by0 True]
      by (auto simp: Let_def utf8ByteLength_bytes split: if_splits)
    with fields True ls show ?thesis by simp
  next
    case False
    have start: "tail_loop hb ?ml ?mb (rev ?ls) [] (bytes (join_lines [])) = (out, count, by0, partial)"
      using loop by simp
    have "fits ?ml ?mb []" by (simp add: fits_def)
    from tail_loop_spec [OF start this False]
    have "\<exists>k \<le> length ?ls. out = rev (take k (rev ?ls)) \<and> fits ?ml ?mb out \<and>
        (k < length ?ls \<longrightarrow> \<not> fits ?ml ?mb (rev (take (Suc k) (rev ?ls))))"
      by (simp only: append_Nil2 length_rev) blast
    then obtain k where
      k: "k \<le> length ?ls" "out = rev (take k (rev ?ls))" "fits ?ml ?mb out"
        "k < length ?ls \<longrightarrow> \<not> fits ?ml ?mb (rev (take (Suc k) (rev ?ls)))"
      by blast
    have "rev (take j (rev ?ls)) = drop (length ?ls - j) ?ls" for j by (simp add: take_rev)
    with k fields False show ?thesis by (auto simp: keeps_tail_def)
  qed
qed

text \<open>C38. Truncation from the tail returns content within both limits unchanged. Otherwise it keeps whole lines
from the end, as many as fit both limits and no fewer; only when the last line alone is over the byte
limit does it cut inside a line, and then the output is at most the byte limit long.\<close>

theorem truncateTail_correct:
  "let r = truncateTail hb content ml mb; ls = splitLinesForCounting content;
       maxLines = default_to DEFAULT_MAX_LINES ml; maxBytes = default_to DEFAULT_MAX_BYTES mb
   in if length ls \<le> maxLines \<and> length (text_encode content) \<le> maxBytes
      then tn_content r = content \<and> \<not> tn_truncated r
      else tn_truncated r \<and> tn_outputBytes r = length (text_encode (tn_content r)) \<and>
        length (text_encode (tn_content r)) \<le> maxBytes \<and> tn_outputLines r \<le> maxLines \<and>
        (if tn_lastLinePartial r
         then maxBytes < length (text_encode (last ls)) \<and> tn_outputLines r = 1 \<and>
           tn_content r = truncateStringToBytesFromEnd (last ls) maxBytes
         else keeps_tail maxLines maxBytes ls (tn_outputLines r) \<and>
           tn_content r = join_lines (drop (length ls - tn_outputLines r) ls))"
proof (cases "length (splitLinesForCounting content) \<le> default_to DEFAULT_MAX_LINES ml \<and>
    bytes content \<le> default_to DEFAULT_MAX_BYTES mb")
  case True
  then show ?thesis by (simp add: truncateTail_def Let_def utf8ByteLength_bytes not_truncated_def)
next
  case False
  from truncateTail_cut [OF False refl, of hb] False truncate_from_end show ?thesis
    by (auto simp: Let_def keeps_tail_def fits_def split: if_splits)
qed

text \<open>The tail of a line that the byte limit allows is at most that long, is well formed (an unpaired
surrogate is replaced), stands for an end of the line, and one more character would exceed the limit.\<close>

theorem partial_line_correct:
  "length (text_encode (truncateStringToBytesFromEnd s maxBytes)) \<le> maxBytes \<and>
   well_formed (truncateStringToBytesFromEnd s maxBytes) \<and>
   (\<exists>rest. suffix rest s \<and> truncateStringToBytesFromEnd s maxBytes = replaceUnpairedSurrogates rest \<and>
      (rest = s \<or> (\<exists>c. c \<noteq> [] \<and> length c \<le> 2 \<and> suffix (c @ rest) s \<and> maxBytes < length (text_encode (c @ rest)))))"
  using truncate_from_end [of s maxBytes] replace_ok by metis

end
