(* ===== verification/Edit_Diff.thy ===== *)
theory Edit_Diff
  imports Truncate "HOL-Library.Sublist"
begin

text \<open>
  The text side of the edit tool (\<^verbatim>\<open>harness/tools/edit-diff.ts\<close> and the transformation of the file
  content in \<^verbatim>\<open>harness/tools/edit.ts\<close>): line endings, exact and fuzzy matching of the old texts,
  applying the replacements, and the display diff. Texts are lists of UTF-16 units.
  \<^verbatim>\<open>String.normalize("NFKC")\<close> is the argument \<open>nfkc\<close>, the third-party \<^verbatim>\<open>Diff.diffLines\<close> the argument
  \<open>diffLines\<close>. The error texts are left to the data of their constructors.
\<close>

section \<open>String functions of the language\<close>

fun index_of :: "js_string \<Rightarrow> js_string \<Rightarrow> nat option" where
  "index_of pat [] = (if pat = [] then Some 0 else None)"
| "index_of pat (u # us) = (if prefix pat (u # us) then Some 0 else map_option Suc (index_of pat us))"

lemma index_of_bound: "index_of pat text = Some i \<Longrightarrow> i + length pat \<le> length text"
  by (induction pat "text" arbitrary: i rule: index_of.induct) (auto split: if_splits dest: prefix_length_le)

function split_at_each :: "js_string \<Rightarrow> js_string \<Rightarrow> js_string list" where
  "split_at_each sep text =
     (if sep = [] then [text]
      else case index_of sep text of
             None \<Rightarrow> [text]
           | Some i \<Rightarrow> take i text # split_at_each sep (drop (i + length sep) text))"
  by pat_completeness auto
termination
proof (relation "measure (\<lambda>(sep, text). length text)")
  fix sep s i
  assume "sep \<noteq> []" "index_of sep s = Some i"
  then show "((sep, drop (i + length sep) s), sep, s) \<in> measure (\<lambda>(sep, text). length text)"
    using index_of_bound [of sep s i] by (cases sep) auto
qed simp

declare split_at_each.simps [simp del]

definition js_split :: "js_string \<Rightarrow> js_string \<Rightarrow> js_string list" where
  "js_split sep text = (if sep = [] then map (\<lambda>u. [u]) text else split_at_each sep text)"

text \<open>White space and line terminators, as \<^verbatim>\<open>trimEnd\<close> strips them.\<close>

definition js_whitespace :: "16 word \<Rightarrow> bool" where
  "js_whitespace u \<longleftrightarrow> (9 \<le> u \<and> u \<le> 13) \<or> u = 32 \<or> u = 0xA0 \<or> u = 0x1680 \<or> (0x2000 \<le> u \<and> u \<le> 0x200A) \<or>
     u = 0x2028 \<or> u = 0x2029 \<or> u = 0x202F \<or> u = 0x205F \<or> u = 0x3000 \<or> u = 0xFEFF"

definition trimEnd :: "js_string \<Rightarrow> js_string" where
  "trimEnd text = rev (dropWhile js_whitespace (rev text))"

definition js_slice :: "nat \<Rightarrow> nat \<Rightarrow> 'a list \<Rightarrow> 'a list" where
  "js_slice a b xs = take (b - a) (drop a xs)"

section \<open>Line endings\<close>

datatype line_ending = CRLF | LF

definition detectLineEnding :: "js_string \<Rightarrow> line_ending" where
  "detectLineEnding content =
     (case (index_of [10] content, index_of [13, 10] content) of
        (None, _) \<Rightarrow> LF
      | (_, None) \<Rightarrow> LF
      | (Some lf, Some crlf) \<Rightarrow> if crlf < lf then CRLF else LF)"

fun replace_crlf :: "js_string \<Rightarrow> js_string" where
  "replace_crlf [] = []"
| "replace_crlf [u] = [u]"
| "replace_crlf (u # v # us) = (if u = 13 \<and> v = 10 then 10 # replace_crlf us else u # replace_crlf (v # us))"

definition normalizeToLF :: "js_string \<Rightarrow> js_string" where
  "normalizeToLF text = map (\<lambda>u. if u = 13 then 10 else u) (replace_crlf text)"

definition restoreLineEndings :: "js_string \<Rightarrow> line_ending \<Rightarrow> js_string" where
  "restoreLineEndings text ending =
     (if ending = CRLF then concat (map (\<lambda>u. if u = 10 then [13, 10] else [u]) text) else text)"

definition stripBom :: "js_string \<Rightarrow> js_string \<times> js_string" where
  "stripBom content = (case content of u # us \<Rightarrow> if u = 0xFEFF then ([0xFEFF], us) else ([], content) | [] \<Rightarrow> ([], content))"

section \<open>Fuzzy matching\<close>

definition fuzzy_unit :: "16 word \<Rightarrow> 16 word" where
  "fuzzy_unit u =
     (if 0x2018 \<le> u \<and> u \<le> 0x201B then 39
      else if 0x201C \<le> u \<and> u \<le> 0x201F then 34
      else if (0x2010 \<le> u \<and> u \<le> 0x2015) \<or> u = 0x2212 then 45
      else if u = 0xA0 \<or> (0x2002 \<le> u \<and> u \<le> 0x200A) \<or> u = 0x202F \<or> u = 0x205F \<or> u = 0x3000 then 32
      else u)"

definition normalizeForFuzzyMatch :: "(js_string \<Rightarrow> js_string) \<Rightarrow> js_string \<Rightarrow> js_string" where
  "normalizeForFuzzyMatch nfkc text = map fuzzy_unit (join_lines (map trimEnd (split_newlines (nfkc text))))"

record fuzzy_match =
  fm_index :: "nat option"  \<comment> \<open>\<open>None\<close>: \<^verbatim>\<open>found: false, index: -1\<close>\<close>
  fm_matchLength :: nat
  fm_usedFuzzyMatch :: bool
  fm_contentForReplacement :: js_string

definition fuzzyFindText :: "(js_string \<Rightarrow> js_string) \<Rightarrow> js_string \<Rightarrow> js_string \<Rightarrow> fuzzy_match" where
  "fuzzyFindText nfkc content oldText =
     (case index_of oldText content of
        Some i \<Rightarrow> \<lparr> fm_index = Some i, fm_matchLength = length oldText, fm_usedFuzzyMatch = False,
                    fm_contentForReplacement = content \<rparr>
      | None \<Rightarrow>
          (let fuzzyContent = normalizeForFuzzyMatch nfkc content;
               fuzzyOldText = normalizeForFuzzyMatch nfkc oldText
           in case index_of fuzzyOldText fuzzyContent of
                None \<Rightarrow> \<lparr> fm_index = None, fm_matchLength = 0, fm_usedFuzzyMatch = False,
                          fm_contentForReplacement = content \<rparr>
              | Some i \<Rightarrow> \<lparr> fm_index = Some i, fm_matchLength = length fuzzyOldText, fm_usedFuzzyMatch = True,
                            fm_contentForReplacement = fuzzyContent \<rparr>))"

definition countOccurrences :: "(js_string \<Rightarrow> js_string) \<Rightarrow> js_string \<Rightarrow> js_string \<Rightarrow> int" where
  "countOccurrences nfkc content oldText =
     int (length (js_split (normalizeForFuzzyMatch nfkc oldText) (normalizeForFuzzyMatch nfkc content))) - 1"

section \<open>Applying replacements\<close>

datatype edit_error =
    OutsideBaseContent
  | DifferentLineCount
  | EmptyOldText nat nat  \<comment> \<open>index of the edit, number of edits\<close>
  | TextNotFound nat nat
  | DuplicateText nat nat int
  | OverlappingEdits nat nat
  | NoChange nat

record matched_edit =
  me_editIndex :: nat
  me_matchIndex :: nat
  me_matchLength :: nat
  me_newText :: js_string

fun splitLinesWithEndings :: "js_string \<Rightarrow> js_string list" where
  "splitLinesWithEndings [] = []"
| "splitLinesWithEndings (u # us) =
     (if u = 10 then [u] # splitLinesWithEndings us
      else case splitLinesWithEndings us of [] \<Rightarrow> [[u]] | l # ls \<Rightarrow> (u # l) # ls)"

fun line_spans :: "nat \<Rightarrow> js_string list \<Rightarrow> (nat \<times> nat) list" where
  "line_spans offset [] = []"
| "line_spans offset (line # lines) = (offset, offset + length line) # line_spans (offset + length line) lines"

definition getLineSpans :: "js_string \<Rightarrow> (nat \<times> nat) list" where
  "getLineSpans content = line_spans 0 (splitLinesWithEndings content)"

fun find_start_line :: "nat \<Rightarrow> nat \<Rightarrow> (nat \<times> nat) list \<Rightarrow> nat option" where
  "find_start_line pos i [] = None"
| "find_start_line pos i ((a, b) # spans) = (if a \<le> pos \<and> pos < b then Some i else find_start_line pos (Suc i) spans)"

fun find_end_line :: "nat \<Rightarrow> nat \<Rightarrow> (nat \<times> nat) list \<Rightarrow> nat option" where
  "find_end_line pos i [] = None"
| "find_end_line pos i ((a, b) # spans) = (if b < pos then find_end_line pos (Suc i) spans else Some i)"

definition getReplacementLineRange :: "(nat \<times> nat) list \<Rightarrow> matched_edit \<Rightarrow> edit_error + (nat \<times> nat)" where
  "getReplacementLineRange lines r =
     (case find_start_line (me_matchIndex r) 0 lines of
        None \<Rightarrow> Inl OutsideBaseContent
      | Some startLine \<Rightarrow>
          (case find_end_line (me_matchIndex r + me_matchLength r) startLine (drop startLine lines) of
             None \<Rightarrow> Inl OutsideBaseContent
           | Some endLine \<Rightarrow> Inr (startLine, Suc endLine)))"

definition apply_one :: "nat \<Rightarrow> matched_edit \<Rightarrow> js_string \<Rightarrow> js_string" where
  "apply_one offset r text =
     (let matchIndex = me_matchIndex r - offset
      in take matchIndex text @ me_newText r @ drop (matchIndex + me_matchLength r) text)"

definition applyReplacements :: "js_string \<Rightarrow> matched_edit list \<Rightarrow> nat \<Rightarrow> js_string" where
  "applyReplacements content replacements offset = foldr (apply_one offset) replacements content"

record line_group =
  lg_startLine :: nat
  lg_endLine :: nat
  lg_replacements :: "matched_edit list"

definition add_to_groups :: "line_group list \<Rightarrow> nat \<times> nat \<Rightarrow> matched_edit \<Rightarrow> line_group list" where
  "add_to_groups groups lines r =
     (case lines of (startLine, endLine) \<Rightarrow>
        if groups \<noteq> [] \<and> startLine < lg_endLine (last groups)
        then butlast groups @ [(last groups)\<lparr> lg_endLine := max (lg_endLine (last groups)) endLine,
               lg_replacements := lg_replacements (last groups) @ [r] \<rparr>]
        else groups @ [\<lparr> lg_startLine = startLine, lg_endLine = endLine, lg_replacements = [r] \<rparr>])"

definition group_replacements :: "(nat \<times> nat) list \<Rightarrow> matched_edit list \<Rightarrow> edit_error + line_group list" where
  "group_replacements spans replacements =
     rfold (\<lambda>groups r. rbind (getReplacementLineRange spans r) (\<lambda>lines. Inr (add_to_groups groups lines r)))
       [] (sort_key me_matchIndex replacements)"

definition emit_group ::
  "js_string list \<Rightarrow> (nat \<times> nat) list \<Rightarrow> js_string \<Rightarrow> nat \<times> js_string \<Rightarrow> line_group \<Rightarrow> nat \<times> js_string" where
  "emit_group originalLines spans baseContent = (\<lambda>(lineIndex, result) g.
     let startOffset = fst (spans ! lg_startLine g); endOffset = snd (spans ! (lg_endLine g - 1))
     in (lg_endLine g,
         result @ concat (js_slice lineIndex (lg_startLine g) originalLines)
           @ applyReplacements (js_slice startOffset endOffset baseContent) (lg_replacements g) startOffset))"

definition applyReplacementsPreservingUnchangedLines ::
  "js_string \<Rightarrow> js_string \<Rightarrow> matched_edit list \<Rightarrow> edit_error + js_string" where
  "applyReplacementsPreservingUnchangedLines originalContent baseContent replacements =
     (let originalLines = splitLinesWithEndings originalContent; spans = getLineSpans baseContent
      in if length originalLines \<noteq> length spans then Inl DifferentLineCount
         else rbind (group_replacements spans replacements) (\<lambda>groups.
           case foldl (emit_group originalLines spans baseContent) (0, []) groups of
             (lineIndex, result) \<Rightarrow> Inr (result @ concat (drop lineIndex originalLines))))"

section \<open>Edits\<close>

record edit =
  ed_oldText :: js_string
  ed_newText :: js_string

definition normalize_edit :: "edit \<Rightarrow> edit" where
  "normalize_edit e = \<lparr> ed_oldText = normalizeToLF (ed_oldText e), ed_newText = normalizeToLF (ed_newText e) \<rparr>"

definition match_edit ::
  "(js_string \<Rightarrow> js_string) \<Rightarrow> js_string \<Rightarrow> nat \<Rightarrow> nat \<times> edit \<Rightarrow> edit_error + matched_edit" where
  "match_edit nfkc base totalEdits = (\<lambda>(i, e).
     let m = fuzzyFindText nfkc base (ed_oldText e)
     in case fm_index m of
          None \<Rightarrow> Inl (TextNotFound i totalEdits)
        | Some index \<Rightarrow>
            (let occurrences = countOccurrences nfkc base (ed_oldText e)
             in if occurrences > 1 then Inl (DuplicateText i totalEdits occurrences)
                else Inr \<lparr> me_editIndex = i, me_matchIndex = index, me_matchLength = fm_matchLength m,
                            me_newText = ed_newText e \<rparr>))"

fun first_overlap :: "matched_edit list \<Rightarrow> edit_error option" where
  "first_overlap (p # c # rest) =
     (if me_matchIndex p + me_matchLength p > me_matchIndex c
      then Some (OverlappingEdits (me_editIndex p) (me_editIndex c)) else first_overlap (c # rest))"
| "first_overlap _ = None"

definition applyEditsToNormalizedContent ::
  "(js_string \<Rightarrow> js_string) \<Rightarrow> js_string \<Rightarrow> edit list \<Rightarrow> edit_error + (js_string \<times> js_string)" where
  "applyEditsToNormalizedContent nfkc content edits =
     (let normalizedEdits = map normalize_edit edits; totalEdits = length edits in
      case find (\<lambda>(i, e). ed_oldText e = []) (enumerate 0 normalizedEdits) of
        Some (i, e) \<Rightarrow> Inl (EmptyOldText i totalEdits)
      | None \<Rightarrow>
          (let usedFuzzyMatch = list_ex (\<lambda>e. fm_usedFuzzyMatch (fuzzyFindText nfkc content (ed_oldText e))) normalizedEdits;
               base = (if usedFuzzyMatch then normalizeForFuzzyMatch nfkc content else content)
           in rbind (rfold (\<lambda>ms e. rbind (match_edit nfkc base totalEdits e) (\<lambda>m. Inr (ms @ [m]))) []
                (enumerate 0 normalizedEdits)) (\<lambda>matched.
              let sortedEdits = sort_key me_matchIndex matched in
              case first_overlap sortedEdits of
                Some e \<Rightarrow> Inl e
              | None \<Rightarrow>
                  rbind (if usedFuzzyMatch then applyReplacementsPreservingUnchangedLines content base sortedEdits
                         else Inr (applyReplacements base sortedEdits 0)) (\<lambda>newContent.
                  if content = newContent then Inl (NoChange totalEdits) else Inr (content, newContent)))))"

text \<open>What the edit tool writes back: byte order mark and line endings are restored.\<close>

definition edit_content :: "(js_string \<Rightarrow> js_string) \<Rightarrow> js_string \<Rightarrow> edit list \<Rightarrow> edit_error + js_string" where
  "edit_content nfkc file edits =
     (case stripBom file of (bom, content) \<Rightarrow>
        rbind (applyEditsToNormalizedContent nfkc (normalizeToLF content) edits) (\<lambda>(base, newContent).
          Inr (bom @ restoreLineEndings newContent (detectLineEnding content))))"

end
