(* ===== verification/Edit_Correct.thy ===== *)
theory Edit_Correct
  imports Edit_Diff "HOL-Library.Multiset"
begin

text \<open>
  What the edit tool guarantees: the replacements are the edits, each in its own place; unchanged
  lines survive a fuzzy match; line endings and the byte order mark are kept.
\<close>

section \<open>Splicing\<close>

text \<open>
  The reference for applying replacements: one pass from left to right. \<open>pos\<close> is the offset of
  the text in the content the replacements refer to.
\<close>

fun spliced :: "nat \<Rightarrow> matched_edit list \<Rightarrow> js_string \<Rightarrow> js_string" where
  "spliced pos [] s = s"
| "spliced pos (r # rs) s =
     take (me_matchIndex r - pos) s @ me_newText r
       @ spliced (me_matchIndex r + me_matchLength r) rs (drop (me_matchIndex r + me_matchLength r - pos) s)"

abbreviation match_end :: "matched_edit \<Rightarrow> nat" where
  "match_end r \<equiv> me_matchIndex r + me_matchLength r"

text \<open>The replacements lie between \<open>pos\<close> and \<open>stop\<close>, in order and apart.\<close>

fun ordered_within :: "nat \<Rightarrow> matched_edit list \<Rightarrow> nat \<Rightarrow> bool" where
  "ordered_within pos [] stop \<longleftrightarrow> pos \<le> stop"
| "ordered_within pos (r # rs) stop \<longleftrightarrow> pos \<le> me_matchIndex r \<and> ordered_within (match_end r) rs stop"

lemma ordered_within_le: "ordered_within pos rs stop \<Longrightarrow> pos \<le> stop"
  by (induction pos rs stop rule: ordered_within.induct) auto

lemma ordered_within_mono: "ordered_within pos rs stop \<Longrightarrow> pos' \<le> pos \<Longrightarrow> stop \<le> stop' \<Longrightarrow> ordered_within pos' rs stop'"
  by (induction pos rs stop arbitrary: pos' rule: ordered_within.induct) auto

lemma ordered_within_append:
  "ordered_within pos (rs @ qs) stop \<longleftrightarrow> (\<exists>mid. ordered_within pos rs mid \<and> ordered_within mid qs stop)"
proof (induction rs arbitrary: pos)
  case Nil
  have "ordered_within pos qs stop \<longleftrightarrow> (\<exists>mid \<ge> pos. ordered_within mid qs stop)"
    by (meson order_refl ordered_within_mono)
  then show ?case by simp
qed simp

lemma spliced_skip:
  assumes "ordered_within mid rs stop" and "pos \<le> mid" and "length x = mid - pos"
  shows "spliced pos rs (x @ y) = x @ spliced mid rs y"
  using assms by (cases rs) auto

lemma spliced_append:
  assumes "ordered_within pos rs mid" and "ordered_within mid qs stop" and "length x = mid - pos"
  shows "spliced pos (rs @ qs) (x @ y) = spliced pos rs x @ spliced mid qs y"
  using assms
proof (induction rs arbitrary: pos x)
  case Nil
  then show ?case by (simp add: spliced_skip)
next
  case (Cons r rs)
  then have le: "match_end r \<le> mid" using ordered_within_le by auto
  with Cons.prems have "drop (match_end r - pos) (x @ y) = drop (match_end r - pos) x @ y" by simp
  moreover have "spliced (match_end r) (rs @ qs) (drop (match_end r - pos) x @ y)
      = spliced (match_end r) rs (drop (match_end r - pos) x) @ spliced mid qs y"
    using Cons.prems le by (intro Cons.IH) auto
  ultimately show ?case using Cons.prems le by (simp add: add.commute)
qed

lemma applyReplacements_spliced:
  assumes "ordered_within pos rs (pos + length s)"
  shows "applyReplacements s rs pos = spliced pos rs s"
  using assms
proof (induction rs)
  case (Cons r rs)
  let ?m = "match_end r - pos"
  from Cons.prems have o: "pos \<le> me_matchIndex r" "ordered_within (match_end r) rs (pos + length s)" by auto
  then have m: "?m \<le> length s" using ordered_within_le by fastforce
  from o have "ordered_within pos rs (pos + length s)" by (auto intro: ordered_within_mono)
  then have "applyReplacements s rs pos = spliced pos rs (take ?m s @ drop ?m s)" by (simp add: Cons.IH)
  also have "\<dots> = take ?m s @ spliced (match_end r) rs (drop ?m s)"
    using o m by (intro spliced_skip [OF o(2)]) auto
  finally have rest: "applyReplacements s rs pos = take ?m s @ spliced (match_end r) rs (drop ?m s)" .
  have i: "me_matchIndex r - pos + me_matchLength r = ?m" "me_matchIndex r - pos \<le> ?m" using o(1) by auto
  have "applyReplacements s (r # rs) pos = apply_one pos r (applyReplacements s rs pos)"
    by (simp add: applyReplacements_def)
  with m show ?case unfolding rest apply_one_def Let_def i(1) using i(2) by (simp add: min_absorb1)
qed (simp add: applyReplacements_def)

section \<open>Exact edits\<close>

fun weave :: "'a list list \<Rightarrow> 'a list list \<Rightarrow> 'a list" where
  "weave (g # gs) (x # xs) = g @ x @ weave gs xs"
| "weave gs xs = concat gs"

lemma splice_weave:
  assumes "ordered_within pos rs (pos + length s)"
    and "\<forall>r \<in> set rs. take (me_matchLength r) (drop (me_matchIndex r - pos) s) = old r"
  shows "\<exists>gaps. length gaps = Suc (length rs) \<and> s = weave gaps (map old rs) \<and>
    spliced pos rs s = weave gaps (map me_newText rs)"
  using assms
proof (induction rs arbitrary: pos s)
  case Nil
  show ?case by (intro exI [of _ "[s]"]) simp
next
  case (Cons r rs)
  let ?i = "me_matchIndex r - pos" and ?m = "match_end r - pos"
  from Cons.prems(1) have o: "pos \<le> me_matchIndex r" "ordered_within (match_end r) rs (pos + length s)" by auto
  then have m: "?m \<le> length s" using ordered_within_le by fastforce
  have "take (me_matchLength q) (drop (me_matchIndex q - match_end r) (drop ?m s)) = old q" if "q \<in> set rs" for q
  proof -
    have "match_end r \<le> me_matchIndex q" using o(2) that
      by (induction "match_end r" rs "pos + length s" arbitrary: r rule: ordered_within.induct) fastforce+
    with o(1) have "me_matchIndex q - match_end r + ?m = me_matchIndex q - pos" by simp
    with Cons.prems(2) that show ?thesis by (simp add: add.commute)
  qed
  moreover have "match_end r + length (drop ?m s) = pos + length s" using o m by simp
  ultimately obtain gaps where gaps: "length gaps = Suc (length rs)"
    "drop ?m s = weave gaps (map old rs)" "spliced (match_end r) rs (drop ?m s) = weave gaps (map me_newText rs)"
    using Cons.IH [of "match_end r" "drop ?m s"] o(2) by metis
  have "s = take ?i s @ take (me_matchLength r) (drop ?i s) @ drop ?m s"
    using o(1) by (metis Nat.add_diff_assoc2 append_take_drop_id drop_drop add.commute)
  with Cons.prems(2) gaps have "s = weave (take ?i s # gaps) (map old (r # rs))"
    by (cases gaps) auto
  moreover have "spliced pos (r # rs) s = weave (take ?i s # gaps) (map me_newText (r # rs))"
    using gaps by simp
  ultimately show ?case using gaps(1) by (intro exI [of _ "take ?i s # gaps"]) simp
qed

lemma index_of_match: "index_of pat s = Some i \<Longrightarrow> take (length pat) (drop i s) = pat"
  by (induction pat s arbitrary: i rule: index_of.induct) (auto split: if_splits simp: prefix_def)

lemma rfold_collect:
  assumes "rfold (\<lambda>ms e. rbind (f e) (\<lambda>m. Inr (ms @ [m]))) acc xs = Inr ys"
  shows "\<exists>zs. ys = acc @ zs \<and> list_all2 (\<lambda>x z. f x = Inr z) xs zs"
  using assms
proof (induction xs arbitrary: acc)
  case (Cons x xs)
  then obtain m where m: "f x = Inr m" "rfold (\<lambda>ms e. rbind (f e) (\<lambda>m. Inr (ms @ [m]))) (acc @ [m]) xs = Inr ys"
    by (auto simp: rbind_Inr_iff)
  from Cons.IH [OF m(2)] m(1) show ?case by auto
qed simp

lemma no_overlap_ordered:
  assumes "first_overlap rs = None" and "sorted (map me_matchIndex rs)" and "\<forall>r \<in> set rs. match_end r \<le> stop"
    and "rs \<noteq> [] \<longrightarrow> pos \<le> me_matchIndex (hd rs)" "pos \<le> stop"
  shows "ordered_within pos rs stop"
  using assms
proof (induction rs arbitrary: pos rule: first_overlap.induct)
  case (1 p c rest)
  then show ?case by (auto split: if_splits)
qed auto

lemma exact_match:
  assumes "match_edit nfkc content n (i, e) = Inr m" and "index_of (ed_oldText e) content \<noteq> None"
  shows "me_editIndex m = i" "me_newText m = ed_newText e" "index_of (ed_oldText e) content = Some (me_matchIndex m)"
    "me_matchLength m = length (ed_oldText e)"
  using assms by (auto simp: match_edit_def fuzzyFindText_def Let_def split: option.splits if_splits)

lemma list_all2_enumerate_nth:
  assumes "list_all2 P (enumerate 0 xs) ys" and "i < length ys"
  shows "P (i, xs ! i) (ys ! i)" "i < length xs"
  using assms by (auto simp: list_all2_conv_all_nth nth_enumerate_eq)

lemma exact_edits:
  assumes "applyEditsToNormalizedContent nfkc content edits = Inr (base, new)"
    and exact: "list_all (\<lambda>e. index_of (ed_oldText (normalize_edit e)) content \<noteq> None) edits"
  obtains rs where "base = content" "new = applyReplacements content rs 0" "ordered_within 0 rs (length content)"
    "mset rs = mset (map (\<lambda>(i, e). \<lparr> me_editIndex = i, me_matchIndex = the (index_of (ed_oldText e) content),
       me_matchLength = length (ed_oldText e), me_newText = ed_newText e \<rparr>) (enumerate 0 (map normalize_edit edits)))"
    "list_all (\<lambda>e. ed_oldText (normalize_edit e) \<noteq> []) edits"
proof -
  let ?es = "map normalize_edit edits" and ?n = "length edits"
  let ?m = "\<lambda>(i, e). \<lparr> me_editIndex = i, me_matchIndex = the (index_of (ed_oldText e) content),
       me_matchLength = length (ed_oldText e), me_newText = ed_newText e \<rparr>"
  have no_fuzzy: "\<not> list_ex (\<lambda>e. fm_usedFuzzyMatch (fuzzyFindText nfkc content (ed_oldText e))) ?es"
    using exact by (auto simp: list_ex_iff list_all_iff fuzzyFindText_def split: option.splits)
  from assms(1) have nonempty: "find (\<lambda>(i, e). ed_oldText e = []) (enumerate 0 ?es) = None"
    by (auto simp: applyEditsToNormalizedContent_def Let_def split: option.splits)
  with assms(1) no_fuzzy obtain matched where matched:
    "rfold (\<lambda>ms e. rbind (match_edit nfkc content ?n e) (\<lambda>m. Inr (ms @ [m]))) [] (enumerate 0 ?es) = Inr matched"
    "first_overlap (sort_key me_matchIndex matched) = None"
    "base = content" "new = applyReplacements content (sort_key me_matchIndex matched) 0"
    unfolding applyEditsToNormalizedContent_def Let_def
    by (auto simp: rbind_Inr_iff split: option.splits if_splits)
  from rfold_collect [OF matched(1)] have all: "list_all2 (\<lambda>x z. match_edit nfkc content ?n x = Inr z) (enumerate 0 ?es) matched"
    by simp
  have "matched ! i = ?m (i, ?es ! i)" if "i < length matched" for i
  proof -
    from list_all2_enumerate_nth [OF all that] have "match_edit nfkc content ?n (i, ?es ! i) = Inr (matched ! i)" "i < length edits"
      by simp_all
    with exact show ?thesis
      using exact_match [of nfkc content ?n i "?es ! i" "matched ! i"] by (auto simp: list_all_length)
  qed
  moreover have "length matched = length ?es" using all by (auto dest: list_all2_lengthD)
  ultimately have eq: "matched = map ?m (enumerate 0 ?es)"
    by (intro nth_equalityI) (simp_all add: nth_enumerate_eq)
  have "match_end r \<le> length content" if "r \<in> set matched" for r
  proof -
    from that eq obtain i e where e: "(i, e) \<in> set (enumerate 0 ?es)" "r = ?m (i, e)" by auto
    then have "e \<in> set ?es" by (auto simp: in_set_enumerate_eq)
    with exact obtain j where j: "index_of (ed_oldText e) content = Some j" by (auto simp: list_all_iff)
    from index_of_bound [OF j] e(2) j show ?thesis by simp
  qed
  then have "ordered_within 0 (sort_key me_matchIndex matched) (length content)"
    using matched(2) by (intro no_overlap_ordered) simp_all
  moreover have "list_all (\<lambda>e. ed_oldText (normalize_edit e) \<noteq> []) edits"
    using nonempty by (auto simp: find_None_iff list_all_length in_set_enumerate_eq)
  ultimately show thesis using matched(3,4) eq by (intro that [of "sort_key me_matchIndex matched"]) simp_all
qed

lemma exact_edits_woven:
  assumes "applyEditsToNormalizedContent nfkc content edits = Inr (base, new)"
    and "list_all (\<lambda>e. index_of (ed_oldText (normalize_edit e)) content \<noteq> None) edits"
  shows "\<exists>gaps es. mset es = mset (map normalize_edit edits) \<and> length gaps = Suc (length es) \<and>
    content = weave gaps (map ed_oldText es) \<and> new = weave gaps (map ed_newText es)"
proof -
  let ?es = "map normalize_edit edits"
  obtain rs where rs: "new = applyReplacements content rs 0" "ordered_within 0 rs (length content)"
    "mset rs = mset (map (\<lambda>(i, e). \<lparr> me_editIndex = i, me_matchIndex = the (index_of (ed_oldText e) content),
       me_matchLength = length (ed_oldText e), me_newText = ed_newText e \<rparr>) (enumerate 0 ?es))"
    by (rule exact_edits [OF assms])
  define g where "g r = ?es ! me_editIndex r" for r :: matched_edit
  have mem: "\<exists>e \<in> set edits. g r = normalize_edit e \<and> me_newText r = ed_newText (g r) \<and>
      me_matchLength r = length (ed_oldText (g r)) \<and> me_matchIndex r = the (index_of (ed_oldText (g r)) content)"
    if "r \<in> set rs" for r
  proof -
    from that mset_eq_setD [OF rs(3)] obtain i e where "(i, e) \<in> set (enumerate 0 ?es)"
      "r = \<lparr> me_editIndex = i, me_matchIndex = the (index_of (ed_oldText e) content),
        me_matchLength = length (ed_oldText e), me_newText = ed_newText e \<rparr>" by auto
    then show ?thesis by (auto simp: g_def in_set_enumerate_eq)
  qed
  have "mset (map g rs) = image_mset g (mset rs)" by simp
  also have "\<dots> = mset (map snd (enumerate 0 ?es))"
    unfolding rs(3) mset_map [symmetric] by (intro arg_cong [where f = mset] nth_equalityI) (simp_all add: g_def nth_enumerate_eq)
  finally have perm: "mset (map g rs) = mset ?es" by simp
  have "take (me_matchLength r) (drop (me_matchIndex r - 0) content) = ed_oldText (g r)" if "r \<in> set rs" for r
  proof -
    from mem [OF that] assms(2) obtain j where "index_of (ed_oldText (g r)) content = Some j"
      by (auto simp: list_all_iff)
    with mem [OF that] show ?thesis using index_of_match [of "ed_oldText (g r)" content j] by auto
  qed
  with splice_weave [of 0 rs content "\<lambda>r. ed_oldText (g r)"] rs(2) obtain gaps where
    "length gaps = Suc (length rs)" "content = weave gaps (map (\<lambda>r. ed_oldText (g r)) rs)"
    "spliced 0 rs content = weave gaps (map me_newText rs)" by auto
  moreover have "map me_newText rs = map ed_newText (map g rs)" using mem by auto
  ultimately show ?thesis
    using perm rs(1) applyReplacements_spliced [of 0 rs content] rs(2)
    by (intro exI [of _ gaps] exI [of _ "map g rs"]) (simp add: comp_def)
qed

text \<open>C30. When every old text occurs in the content, a successful edit splits the content into gaps and
  the old texts and puts the new texts in their place: every edit is applied exactly once, at an
  occurrence of its old text, and everything between is unchanged.\<close>

theorem exact_edits_applied:
  assumes "applyEditsToNormalizedContent nfkc content edits = Inr (base, new)"
    and "list_all (\<lambda>e. index_of (ed_oldText (normalize_edit e)) content \<noteq> None) edits"
  shows "\<exists>gaps es. mset es = mset (map normalize_edit edits) \<and> length gaps = Suc (length es) \<and>
    content = weave gaps (map ed_oldText es) \<and> new = weave gaps (map ed_newText es)"
  using exact_edits_woven [OF assms] .

section \<open>Replacements that keep the other lines\<close>

lemma concat_lines: "concat (splitLinesWithEndings s) = s"
  by (induction s rule: splitLinesWithEndings.induct) (auto split: list.splits)

lemma lines_nonempty: "l \<in> set (splitLinesWithEndings s) \<Longrightarrow> l \<noteq> []"
  by (induction s rule: splitLinesWithEndings.induct) (auto split: list.splits if_splits)

text \<open>The offset at which line \<open>i\<close> begins.\<close>

definition line_offset :: "js_string list \<Rightarrow> nat \<Rightarrow> nat" where
  "line_offset ls i = length (concat (take i ls))"

lemma length_line_spans [simp]: "length (line_spans pos ls) = length ls"
  by (induction pos ls rule: line_spans.induct) auto

lemma line_spans_nth: "i < length ls \<Longrightarrow> line_spans pos ls ! i = (pos + line_offset ls i, pos + line_offset ls (Suc i))"
proof (induction pos ls arbitrary: i rule: line_spans.induct)
  case (2 pos l ls)
  then show ?case by (cases i) (auto simp: line_offset_def)
qed simp

lemma line_offset_mono: "i \<le> j \<Longrightarrow> line_offset ls i \<le> line_offset ls j"
proof -
  assume "i \<le> j"
  then have "take j ls = take i ls @ take (j - i) (drop i ls)" by (metis le_add_diff_inverse take_add)
  then show ?thesis by (simp add: line_offset_def)
qed

lemma line_offset_end [simp]: "line_offset ls (length ls) = length (concat ls)"
  by (simp add: line_offset_def)

lemma find_start_line_Some:
  assumes "find_start_line pos k spans = Some i"
  shows "k \<le> i \<and> i - k < length spans \<and> fst (spans ! (i - k)) \<le> pos \<and> pos < snd (spans ! (i - k))"
  using assms
proof (induction pos k spans rule: find_start_line.induct)
  case (2 pos k a b spans)
  then show ?case by (cases "i - k") (auto split: if_splits, (metis Suc_diff_Suc Suc_le_lessD diff_Suc_Suc nth_Cons_Suc)+)
qed simp

lemma find_end_line_Some:
  assumes "find_end_line pos k spans = Some i"
  shows "k \<le> i \<and> i - k < length spans \<and> pos \<le> snd (spans ! (i - k)) \<and> (\<forall>j < i - k. snd (spans ! j) < pos)"
  using assms
proof (induction pos k spans rule: find_end_line.induct)
  case (2 pos k a b spans)
  show ?case
  proof (cases "b < pos")
    case True
    with 2 have IH: "Suc k \<le> i" "i - Suc k < length spans" "pos \<le> snd (spans ! (i - Suc k))"
      "\<forall>j < i - Suc k. snd (spans ! j) < pos" by auto
    then have "i - k = Suc (i - Suc k)" by simp
    with IH True show ?thesis by (auto simp: less_Suc_eq_0_disj)
  next
    case False
    with 2 show ?thesis by auto
  qed
qed simp

lemma find_start_line_exists:
  "pos < snd (last spans) \<Longrightarrow> spans = line_spans a ls \<Longrightarrow> a \<le> pos \<Longrightarrow> ls \<noteq> [] \<Longrightarrow> find_start_line pos k spans \<noteq> None"
proof (induction ls arbitrary: a k spans)
  case (Cons l ls)
  then show ?case by (cases ls) (auto simp: not_less)
qed simp

text \<open>A replacement touches a line if its range and the line have a unit in common.\<close>

definition touches :: "js_string list \<Rightarrow> matched_edit \<Rightarrow> nat \<Rightarrow> bool" where
  "touches ls r i \<longleftrightarrow> me_matchIndex r < line_offset ls (Suc i) \<and> line_offset ls i < match_end r"

lemma line_range:
  assumes "getReplacementLineRange (line_spans 0 ls) r = Inr (s, e)" and "0 < me_matchLength r"
  shows "s < e" "e \<le> length ls" "line_offset ls s \<le> me_matchIndex r" "match_end r \<le> line_offset ls e"
    "\<forall>i \<in> {s..<e}. touches ls r i"
proof -
  from assms(1) obtain k where k: "find_start_line (me_matchIndex r) 0 (line_spans 0 ls) = Some s"
    "find_end_line (match_end r) s (drop s (line_spans 0 ls)) = Some k" "e = Suc k"
    by (auto simp: getReplacementLineRange_def split: option.splits)
  from find_start_line_Some [OF k(1)] have s: "s < length ls" "line_offset ls s \<le> me_matchIndex r"
    "me_matchIndex r < line_offset ls (Suc s)" by (auto simp: line_spans_nth)
  from find_end_line_Some [OF k(2)] s have e: "s \<le> k" "k < length ls" "match_end r \<le> line_offset ls (Suc k)"
    "\<forall>j < k - s. snd (line_spans 0 ls ! (s + j)) < match_end r"
    by (auto simp: line_spans_nth)
  show "s < e" "e \<le> length ls" "line_offset ls s \<le> me_matchIndex r" "match_end r \<le> line_offset ls e"
    using s e k(3) by auto
  have "touches ls r i" if "i \<in> {s..<e}" for i
  proof -
    have "me_matchIndex r < line_offset ls (Suc i)"
      using s(3) that line_offset_mono [of "Suc s" "Suc i" ls] by auto
    moreover have "line_offset ls i < match_end r"
    proof (cases "i = s")
      case True
      with s(2) assms(2) show ?thesis by simp
    next
      case False
      with that k(3) have "i - 1 - s < k - s" "s + (i - 1 - s) = i - 1" "Suc (i - 1) = i" by auto
      with e(4) e(2) show ?thesis by (force simp: line_spans_nth)
    qed
    ultimately show ?thesis by (simp add: touches_def)
  qed
  then show "\<forall>i \<in> {s..<e}. touches ls r i" by blast
qed

text \<open>
  Groups of replacements: disjoint ranges of lines in order, each holding its replacements in
  order, and made of lines that some replacement of the group touches.
\<close>

definition group_ok :: "js_string list \<Rightarrow> line_group \<Rightarrow> bool" where
  "group_ok ls g \<longleftrightarrow> lg_startLine g < lg_endLine g \<and> lg_endLine g \<le> length ls \<and> lg_replacements g \<noteq> [] \<and>
     ordered_within (line_offset ls (lg_startLine g)) (lg_replacements g) (line_offset ls (lg_endLine g)) \<and>
     (\<forall>i \<in> {lg_startLine g..<lg_endLine g}. \<exists>r \<in> set (lg_replacements g). touches ls r i)"

fun groups_ok :: "js_string list \<Rightarrow> nat \<Rightarrow> line_group list \<Rightarrow> bool" where
  "groups_ok ls a [] \<longleftrightarrow> True"
| "groups_ok ls a (g # gs) \<longleftrightarrow> a \<le> lg_startLine g \<and> group_ok ls g \<and> groups_ok ls (lg_endLine g) gs"

lemma groups_ok_snoc:
  "groups_ok ls a (gs @ [g]) \<longleftrightarrow>
   groups_ok ls a gs \<and> group_ok ls g \<and> (if gs = [] then a else lg_endLine (last gs)) \<le> lg_startLine g"
  by (induction gs arbitrary: a) auto

lemma ordered_within_tight:
  assumes "ordered_within pos rs stop" and "rs \<noteq> []" and "match_end (last rs) \<le> stop'"
  shows "ordered_within pos rs stop'"
  using assms by (induction pos rs stop rule: ordered_within.induct) (auto split: if_splits)

lemma ordered_within_last:
  "ordered_within pos (rs @ [r]) stop \<Longrightarrow> rs \<noteq> [] \<Longrightarrow> match_end (last rs) \<le> me_matchIndex r"
  by (induction rs arbitrary: pos) auto

lemma ordered_within_first:
  "ordered_within pos rs stop \<Longrightarrow> r \<in> set rs \<Longrightarrow> pos \<le> me_matchIndex r"
  by (induction pos rs stop rule: ordered_within.induct) fastforce+

lemma group_extend:
  assumes "group_ok ls g" and "getReplacementLineRange (line_spans 0 ls) r = Inr (s, e)" and "0 < me_matchLength r"
    and "match_end (last (lg_replacements g)) \<le> me_matchIndex r" and "s < lg_endLine g"
  shows "group_ok ls (g\<lparr> lg_endLine := max (lg_endLine g) e, lg_replacements := lg_replacements g @ [r] \<rparr>)"
proof -
  note r = line_range [OF assms(2,3)]
  from assms(1) have g: "lg_startLine g < lg_endLine g" "lg_endLine g \<le> length ls" "lg_replacements g \<noteq> []"
    "ordered_within (line_offset ls (lg_startLine g)) (lg_replacements g) (line_offset ls (lg_endLine g))"
    "\<forall>i \<in> {lg_startLine g..<lg_endLine g}. \<exists>r \<in> set (lg_replacements g). touches ls r i"
    by (auto simp: group_ok_def)
  have "line_offset ls e \<le> line_offset ls (max (lg_endLine g) e)" by (simp add: line_offset_mono)
  with r(4) have "ordered_within (me_matchIndex r) [r] (line_offset ls (max (lg_endLine g) e))" by simp
  moreover have "ordered_within (line_offset ls (lg_startLine g)) (lg_replacements g) (me_matchIndex r)"
    using ordered_within_tight [OF g(4,3) assms(4)] .
  ultimately have "ordered_within (line_offset ls (lg_startLine g)) (lg_replacements g @ [r])
      (line_offset ls (max (lg_endLine g) e))"
    unfolding ordered_within_append by blast
  moreover have "\<exists>q \<in> set (lg_replacements g @ [r]). touches ls q i"
    if "i \<in> {lg_startLine g..<max (lg_endLine g) e}" for i
    using that g(5) r(5) assms(5) by (cases "i < lg_endLine g") auto
  ultimately show ?thesis using g r by (auto simp: group_ok_def)
qed

lemma groups_extend:
  assumes "groups_ok ls 0 gs" and "getReplacementLineRange (line_spans 0 ls) r = Inr (s, e)" and "0 < me_matchLength r"
    and "ordered_within 0 (concat (map lg_replacements gs) @ [r]) stop"
  shows "groups_ok ls 0 (add_to_groups gs (s, e) r) \<and>
    concat (map lg_replacements (add_to_groups gs (s, e) r)) = concat (map lg_replacements gs) @ [r]"
proof (cases gs rule: rev_cases)
  case Nil
  with line_range [OF assms(2,3)] show ?thesis by (auto simp: add_to_groups_def group_ok_def)
next
  case (snoc hs g)
  with assms(1) have g: "group_ok ls g" by (simp add: groups_ok_snoc)
  then have ne: "lg_replacements g \<noteq> []" by (simp add: group_ok_def)
  with assms(4) snoc have last: "match_end (last (lg_replacements g)) \<le> me_matchIndex r"
    using ordered_within_last [OF assms(4)] by simp
  show ?thesis
  proof (cases "s < lg_endLine g")
    case True
    with group_extend [OF g assms(2,3) last] assms(1) snoc show ?thesis
      by (simp add: add_to_groups_def groups_ok_snoc)
  next
    case False
    let ?g = "\<lparr> lg_startLine = s, lg_endLine = e, lg_replacements = [r] \<rparr>"
    have "group_ok ls ?g" using line_range [OF assms(2,3)] by (simp add: group_ok_def)
    moreover have "gs \<noteq> []" "lg_endLine (last gs) \<le> s" using False snoc by simp_all
    ultimately have "groups_ok ls 0 (gs @ [?g])"
      unfolding groups_ok_snoc using assms(1) by simp
    moreover have "add_to_groups gs (s, e) r = gs @ [?g]" using False snoc by (simp add: add_to_groups_def)
    ultimately show ?thesis by simp
  qed
qed

lemma ordered_within_sorted: "ordered_within pos rs stop \<Longrightarrow> sorted (map me_matchIndex rs)"
proof (induction rs arbitrary: pos)
  case (Cons r rs)
  then have "\<forall>q \<in> set rs. me_matchIndex r \<le> me_matchIndex q"
    using ordered_within_first by fastforce
  with Cons show ?case by auto
qed simp

lemma ordered_within_bound: "ordered_within pos rs stop \<Longrightarrow> r \<in> set rs \<Longrightarrow> match_end r \<le> stop"
proof (induction rs arbitrary: pos)
  case (Cons q rs)
  then show ?case using ordered_within_le by auto
qed simp

lemma line_range_exists:
  assumes "match_end r \<le> length (concat ls)" and "0 < me_matchLength r"
  shows "\<exists>se. getReplacementLineRange (line_spans 0 ls) r = Inr se"
proof -
  from assms have ne: "ls \<noteq> []" by auto
  then have last: "last (line_spans 0 ls) = (line_offset ls (length ls - 1), length (concat ls))"
  proof -
    have "line_spans 0 ls \<noteq> []" using ne by (cases ls) auto
    then have "last (line_spans 0 ls) = line_spans 0 ls ! (length ls - 1)" by (simp add: last_conv_nth)
    with ne show ?thesis by (simp add: line_spans_nth)
  qed
  have "find_start_line (me_matchIndex r) 0 (line_spans 0 ls) \<noteq> None"
    using assms ne last by (intro find_start_line_exists [where a = 0 and ls = ls]) auto
  then obtain s where s: "find_start_line (me_matchIndex r) 0 (line_spans 0 ls) = Some s" by blast
  have "find_end_line pos k spans \<noteq> None" if "spans \<noteq> []" "pos \<le> snd (last spans)" for pos k and spans :: "(nat \<times> nat) list"
    using that by (induction pos k spans rule: find_end_line.induct) (auto split: if_splits)
  moreover have "s < length ls" using find_start_line_Some [OF s] by simp
  ultimately obtain e where "find_end_line (match_end r) s (drop s (line_spans 0 ls)) = Some e"
    using assms(1) last by (metis drop_eq_Nil2 last_drop length_line_spans not_le option.exhaust snd_conv)
  with s show ?thesis by (simp add: getReplacementLineRange_def)
qed

lemma group_loop:
  assumes "groups_ok ls 0 gs" and "ordered_within 0 (concat (map lg_replacements gs) @ rs) (length (concat ls))"
    and "\<forall>r \<in> set rs. 0 < me_matchLength r"
  shows "\<exists>groups. rfold (\<lambda>groups r. rbind (getReplacementLineRange (line_spans 0 ls) r)
        (\<lambda>lines. Inr (add_to_groups groups lines r))) gs rs = Inr groups \<and>
    groups_ok ls 0 groups \<and> concat (map lg_replacements groups) = concat (map lg_replacements gs) @ rs"
  using assms
proof (induction rs arbitrary: gs)
  case (Cons r rs)
  have r: "0 < me_matchLength r" "match_end r \<le> length (concat ls)"
    using Cons.prems ordered_within_bound by auto
  then obtain s e where range: "getReplacementLineRange (line_spans 0 ls) r = Inr (s, e)"
    using line_range_exists by fastforce
  from Cons.prems(2) obtain mid where "ordered_within 0 (concat (map lg_replacements gs) @ [r]) mid"
    using ordered_within_append [of 0 "concat (map lg_replacements gs) @ [r]" rs] by auto
  from groups_extend [OF Cons.prems(1) range r(1) this] have g: "groups_ok ls 0 (add_to_groups gs (s, e) r)"
    "concat (map lg_replacements (add_to_groups gs (s, e) r)) = concat (map lg_replacements gs) @ [r]" by auto
  with Cons.prems Cons.IH [of "add_to_groups gs (s, e) r"] range show ?case by simp
qed simp

lemma group_replacements_ok:
  assumes "ordered_within 0 rs (length (concat ls))" and "\<forall>r \<in> set rs. 0 < me_matchLength r"
  obtains groups where "group_replacements (line_spans 0 ls) rs = Inr groups" "groups_ok ls 0 groups"
    "concat (map lg_replacements groups) = rs"
  using group_loop [of ls "[]" rs] assms sort_key_id_if_sorted [OF ordered_within_sorted [OF assms(1)]]
  by (auto simp: group_replacements_def)

text \<open>
  The original with the groups laid over it: between the groups its own lines, in a group the
  lines of the base with the replacements of the group.
\<close>

fun overlay :: "js_string list \<Rightarrow> js_string list \<Rightarrow> nat \<Rightarrow> line_group list \<Rightarrow> js_string" where
  "overlay original ls a [] = concat (drop a original)"
| "overlay original ls a (g # gs) =
     concat (js_slice a (lg_startLine g) original)
     @ spliced (line_offset ls (lg_startLine g)) (lg_replacements g)
         (concat (js_slice (lg_startLine g) (lg_endLine g) ls))
     @ overlay original ls (lg_endLine g) gs"

lemma concat_slice:
  assumes "a \<le> b"
  shows "concat (js_slice a b ls) = js_slice (line_offset ls a) (line_offset ls b) (concat ls)"
proof -
  have "take b ls = take a ls @ js_slice a b ls"
    unfolding js_slice_def using assms by (metis le_add_diff_inverse take_add)
  then have "concat (take b ls) = concat (take a ls) @ concat (js_slice a b ls)" by simp
  moreover have "concat ls = concat (take b ls) @ concat (drop b ls)" by (metis append_take_drop_id concat_append)
  ultimately show ?thesis by (simp add: js_slice_def line_offset_def)
qed

lemma emit_groups_overlay:
  assumes "groups_ok ls a gs"
  shows "case foldl (emit_group original (line_spans 0 ls) (concat ls)) (a, result) gs of
    (k, out) \<Rightarrow> out @ concat (drop k original) = result @ overlay original ls a gs"
  using assms
proof (induction gs arbitrary: a result)
  case (Cons g gs)
  let ?s = "lg_startLine g" and ?e = "lg_endLine g"
  from Cons.prems have g: "?s < ?e" "?e \<le> length ls"
    "ordered_within (line_offset ls ?s) (lg_replacements g) (line_offset ls ?e)" "groups_ok ls ?e gs"
    by (auto simp: group_ok_def)
  then have spans: "fst (line_spans 0 ls ! ?s) = line_offset ls ?s" "snd (line_spans 0 ls ! (?e - 1)) = line_offset ls ?e"
    by (auto simp: line_spans_nth)
  have slice: "concat (js_slice ?s ?e ls) = js_slice (line_offset ls ?s) (line_offset ls ?e) (concat ls)"
    using g(1) by (intro concat_slice) simp
  have le: "line_offset ls ?s \<le> line_offset ls ?e" "line_offset ls ?e \<le> length (concat ls)"
    using g line_offset_mono [of ?e "length ls" ls] by (auto intro: line_offset_mono)
  have "length (concat (js_slice ?s ?e ls)) = line_offset ls ?e - line_offset ls ?s"
    unfolding slice using le by (simp add: js_slice_def)
  with le have "applyReplacements (concat (js_slice ?s ?e ls)) (lg_replacements g) (line_offset ls ?s)
      = spliced (line_offset ls ?s) (lg_replacements g) (concat (js_slice ?s ?e ls))"
    using g(3) by (intro applyReplacements_spliced) simp
  then have "emit_group original (line_spans 0 ls) (concat ls) (a, result) g
      = (?e, result @ concat (js_slice a ?s original)
          @ spliced (line_offset ls ?s) (lg_replacements g) (concat (js_slice ?s ?e ls)))"
    using spans by (simp add: emit_group_def Let_def slice)
  with Cons.IH [OF g(4), of "result @ concat (js_slice a ?s original)
      @ spliced (line_offset ls ?s) (lg_replacements g) (concat (js_slice ?s ?e ls))"] show ?case by simp
qed simp

lemma preserving_overlay:
  assumes "length (splitLinesWithEndings original) = length (splitLinesWithEndings base)"
    and "ordered_within 0 rs (length base)" and "\<forall>r \<in> set rs. 0 < me_matchLength r"
  obtains groups where "applyReplacementsPreservingUnchangedLines original base rs
      = Inr (overlay (splitLinesWithEndings original) (splitLinesWithEndings base) 0 groups)"
    "groups_ok (splitLinesWithEndings base) 0 groups" "concat (map lg_replacements groups) = rs"
proof -
  let ?ls = "splitLinesWithEndings base"
  obtain groups where g: "group_replacements (line_spans 0 ?ls) rs = Inr groups" "groups_ok ?ls 0 groups"
    "concat (map lg_replacements groups) = rs"
    using group_replacements_ok [of rs ?ls] assms(2,3) by (auto simp: concat_lines)
  from emit_groups_overlay [OF g(2), of "splitLinesWithEndings original" "[]"]
  have "applyReplacementsPreservingUnchangedLines original base rs
      = Inr (overlay (splitLinesWithEndings original) ?ls 0 groups)"
    using assms(1) g(1)
    by (auto simp: applyReplacementsPreservingUnchangedLines_def getLineSpans_def concat_lines Let_def split: prod.splits)
  with g show thesis by (intro that)
qed

lemma overlay_same:
  assumes "groups_ok ls a gs" and "a \<le> length ls"
  shows "overlay ls ls a gs = spliced (line_offset ls a) (concat (map lg_replacements gs)) (concat (drop a ls))
    \<and> ordered_within (line_offset ls a) (concat (map lg_replacements gs)) (length (concat ls))"
  using assms
proof (induction gs arbitrary: a)
  case Nil
  then show ?case using line_offset_mono [of a "length ls" ls] by simp
next
  case (Cons g gs)
  let ?s = "lg_startLine g" and ?e = "lg_endLine g" and ?rs = "concat (map lg_replacements gs)"
  from Cons.prems have g: "a \<le> ?s" "?s < ?e" "?e \<le> length ls"
    "ordered_within (line_offset ls ?s) (lg_replacements g) (line_offset ls ?e)" "groups_ok ls ?e gs"
    by (auto simp: group_ok_def)
  have IH: "overlay ls ls ?e gs = spliced (line_offset ls ?e) ?rs (concat (drop ?e ls))"
    "ordered_within (line_offset ls ?e) ?rs (length (concat ls))" using Cons.IH [OF g(5,3)] by auto
  have split: "drop a ls = js_slice a ?s ls @ js_slice ?s ?e ls @ drop ?e ls"
    using g(1,2) unfolding js_slice_def
    by (metis append_take_drop_id drop_drop le_add_diff_inverse2 less_imp_le)
  have len: "length (concat (js_slice i j ls)) = line_offset ls j - line_offset ls i" if "i \<le> j" "j \<le> length ls" for i j
    unfolding concat_slice [OF that(1)] using that line_offset_mono [of j "length ls" ls] by (simp add: js_slice_def)
  have ord: "ordered_within (line_offset ls ?s) (lg_replacements g @ ?rs) (length (concat ls))"
    using g(4) IH(2) unfolding ordered_within_append by blast
  have "spliced (line_offset ls a) (lg_replacements g @ ?rs) (concat (drop a ls))
      = concat (js_slice a ?s ls) @ spliced (line_offset ls ?s) (lg_replacements g @ ?rs) (concat (js_slice ?s ?e ls @ drop ?e ls))"
    unfolding split concat_append
    using g len [of a ?s] by (intro spliced_skip [OF ord]) (auto intro: line_offset_mono)
  also have "spliced (line_offset ls ?s) (lg_replacements g @ ?rs) (concat (js_slice ?s ?e ls @ drop ?e ls))
      = spliced (line_offset ls ?s) (lg_replacements g) (concat (js_slice ?s ?e ls)) @ overlay ls ls ?e gs"
    unfolding IH(1) concat_append
    using g len [of ?s ?e] by (intro spliced_append [OF g(4) IH(2)]) auto
  finally show ?case
    using ordered_within_mono [OF ord line_offset_mono [OF g(1)] order_refl] by simp
qed

text \<open>Applied to a base that is the original itself, the line-preserving algorithm of the fuzzy path
  gives exactly what the plain algorithm gives.\<close>

theorem preserving_is_plain:
  assumes "ordered_within 0 rs (length content)" and "\<forall>r \<in> set rs. 0 < me_matchLength r"
  shows "applyReplacementsPreservingUnchangedLines content content rs = Inr (applyReplacements content rs 0)"
proof -
  obtain groups where "applyReplacementsPreservingUnchangedLines content content rs
      = Inr (overlay (splitLinesWithEndings content) (splitLinesWithEndings content) 0 groups)"
    "groups_ok (splitLinesWithEndings content) 0 groups" "concat (map lg_replacements groups) = rs"
    using preserving_overlay [OF refl assms] by blast
  with overlay_same [of "splitLinesWithEndings content" 0 groups] show ?thesis
    using applyReplacements_spliced [of 0 rs content] assms(1) by (simp add: concat_lines line_offset_def)
qed

text \<open>C31. In the fuzzy path the result is the original file with blocks of lines exchanged: outside the
  blocks every line is the original line, byte for byte; every line of a block is touched by a
  replacement, and the blocks hold all replacements in order.\<close>

theorem untouched_lines_preserved:
  assumes "length (splitLinesWithEndings original) = length (splitLinesWithEndings base)"
    and "ordered_within 0 rs (length base)" and "\<forall>r \<in> set rs. 0 < me_matchLength r"
  shows "\<exists>groups. applyReplacementsPreservingUnchangedLines original base rs
      = Inr (overlay (splitLinesWithEndings original) (splitLinesWithEndings base) 0 groups) \<and>
    groups_ok (splitLinesWithEndings base) 0 groups \<and> concat (map lg_replacements groups) = rs"
  using preserving_overlay [OF assms] by blast

section \<open>Line endings\<close>

lemma no_cr_normalized: "13 \<notin> set (normalizeToLF s)"
  by (auto simp: normalizeToLF_def)

lemma replace_crlf_id: "13 \<notin> set s \<Longrightarrow> replace_crlf s = s"
  by (induction s rule: replace_crlf.induct) auto

lemma normalizeToLF_id: "13 \<notin> set s \<Longrightarrow> normalizeToLF s = s"
  unfolding normalizeToLF_def by (auto simp: replace_crlf_id intro!: map_idI)

lemma replace_crlf_expand:
  "13 \<notin> set s \<Longrightarrow> replace_crlf (concat (map (\<lambda>u. if u = 10 then [13, 10] else [u]) s)) = s"
proof (induction s)
  case (Cons u s)
  then show ?case by (cases "concat (map (\<lambda>u. if u = 10 then [13, 10] else [u]) s)") auto
qed simp

lemma endings_roundtrip:
  assumes "13 \<notin> set s"
  shows "normalizeToLF (restoreLineEndings s ending) = s"
  using assms normalizeToLF_id [OF assms]
  by (simp add: restoreLineEndings_def normalizeToLF_def replace_crlf_expand replace_crlf_id)

lemma index_of_single: "index_of [c] s = None \<longleftrightarrow> c \<notin> set s"
  by (induction s) auto

lemma detect_expanded:
  assumes "13 \<notin> set s" and "10 \<in> set s"
  shows "\<exists>i. index_of [13, 10] (restoreLineEndings s CRLF) = Some i \<and> index_of [10] (restoreLineEndings s CRLF) = Some (Suc i)"
  using assms by (induction s) (auto simp: restoreLineEndings_def)

lemma detectLineEnding_restored:
  assumes "13 \<notin> set s" and "10 \<in> set s"
  shows "detectLineEnding (restoreLineEndings s ending) = ending"
proof (cases ending)
  case CRLF
  with detect_expanded [OF assms] show ?thesis by (auto simp: detectLineEnding_def)
next
  case LF
  have "index_of [13, 10] s = None"
  proof (rule ccontr)
    assume "index_of [13, 10] s \<noteq> None"
    then obtain i where "index_of [13, 10] s = Some i" by blast
    from index_of_match [OF this] have "13 \<in> set (take (length [13, 10 :: 16 word]) (drop i s))" by simp
    with assms(1) show False by (meson in_set_dropD in_set_takeD)
  qed
  with LF show ?thesis by (auto simp: detectLineEnding_def restoreLineEndings_def split: option.splits)
qed

lemma set_weave: "set (weave gaps xs) \<subseteq> \<Union> (set ` set gaps) \<union> \<Union> (set ` set xs)"
  by (induction gaps xs rule: weave.induct) auto

lemma gaps_subset: "length gaps = Suc (length xs) \<Longrightarrow> \<Union> (set ` set gaps) \<subseteq> set (weave gaps xs)"
proof (induction gaps xs rule: weave.induct)
  case (1 g gs x xs)
  then show ?case by auto
qed auto

lemma no_cr_edited:
  assumes "length gaps = Suc (length es)" and "13 \<notin> set (weave gaps (map ed_oldText es))"
    and "set es \<subseteq> normalize_edit ` E"
  shows "13 \<notin> set (weave gaps (map ed_newText es))"
proof -
  have "13 \<notin> set (ed_newText e)" if "e \<in> set es" for e
    using that assms(3) no_cr_normalized by (auto simp: normalize_edit_def)
  moreover have "13 \<notin> set g" if "g \<in> set gaps" for g
    using gaps_subset [of gaps "map ed_oldText es"] assms(1,2) that by auto
  ultimately show ?thesis using set_weave [of gaps "map ed_newText es"] by auto
qed

lemma exact_no_cr:
  assumes "applyEditsToNormalizedContent nfkc content edits = Inr (base, new)" and "13 \<notin> set content"
    and "list_all (\<lambda>e. index_of (ed_oldText (normalize_edit e)) content \<noteq> None) edits"
  shows "13 \<notin> set new"
proof -
  obtain gaps es where "mset es = mset (map normalize_edit edits)" "length gaps = Suc (length es)"
    "content = weave gaps (map ed_oldText es)" "new = weave gaps (map ed_newText es)"
    using exact_edits_woven [OF assms(1,3)] by blast
  with no_cr_edited [of gaps es "set edits"] assms(2) show ?thesis
    using mset_eq_setD [of es "map normalize_edit edits"] by auto
qed

text \<open>The file written back begins with the byte order mark the file had, its text read with
  normalised line endings is exactly the edited text, and it has the line endings the file had.\<close>

theorem edit_keeps_endings:
  assumes "stripBom file = (bom, content)" and "edit_content nfkc file edits = Inr written"
    and "list_all (\<lambda>e. index_of (ed_oldText (normalize_edit e)) (normalizeToLF content) \<noteq> None) edits"
  shows "\<exists>new body. applyEditsToNormalizedContent nfkc (normalizeToLF content) edits = Inr (normalizeToLF content, new) \<and>
    written = bom @ body \<and> normalizeToLF body = new \<and>
    (10 \<in> set new \<longrightarrow> detectLineEnding body = detectLineEnding content)"
proof -
  from assms(1,2) obtain base new where new:
    "applyEditsToNormalizedContent nfkc (normalizeToLF content) edits = Inr (base, new)"
    "written = bom @ restoreLineEndings new (detectLineEnding content)"
    by (auto simp: edit_content_def rbind_Inr_iff)
  have "13 \<notin> set new" using exact_no_cr [OF new(1) no_cr_normalized assms(3)] .
  moreover have "base = normalizeToLF content" using exact_edits [OF new(1) assms(3)] by blast
  ultimately show ?thesis using new
    by (intro exI [of _ new] exI [of _ "restoreLineEndings new (detectLineEnding content)"])
       (simp add: endings_roundtrip detectLineEnding_restored)
qed


lemmas edit_eval = applyEditsToNormalizedContent_def normalize_edit_def normalizeToLF_def fuzzyFindText_def
  match_edit_def countOccurrences_def normalizeForFuzzyMatch_def js_split_def split_at_each.simps Let_def
  trimEnd_def js_whitespace_def fuzzy_unit_def applyReplacements_def apply_one_def

definition sample_edits :: "edit list" where
  "sample_edits = [\<lparr> ed_oldText = [99], ed_newText = [120, 121] \<rparr>, \<lparr> ed_oldText = [97], ed_newText = [122] \<rparr>]"

lemma sample_edits_result:
  "applyEditsToNormalizedContent id [97, 98, 10, 99] sample_edits = Inr ([97, 98, 10, 99], [122, 98, 10, 120, 121])"
  by (simp add: sample_edits_def edit_eval)


theorem exact_edits_applied_witness:
  "\<exists>gaps es. mset es = mset (map normalize_edit sample_edits) \<and> length gaps = Suc (length es) \<and>
    [97, 98, 10, 99] = weave gaps (map ed_oldText es) \<and> [122, 98, 10, 120, 121] = weave gaps (map ed_newText es)"
  using exact_edits_applied [OF sample_edits_result]
  by (simp add: sample_edits_def normalize_edit_def normalizeToLF_def)

definition sample_match :: matched_edit where
  "sample_match = \<lparr> me_editIndex = 0, me_matchIndex = 1, me_matchLength = 1, me_newText = [120] \<rparr>"

theorem preserving_is_plain_witness:
  "applyReplacementsPreservingUnchangedLines [97, 98, 10, 99] [97, 98, 10, 99] [sample_match]
    = Inr (applyReplacements [97, 98, 10, 99] [sample_match] 0)"
  using preserving_is_plain [of "[sample_match]" "[97, 98, 10, 99]"] by (simp add: sample_match_def)

theorem untouched_lines_preserved_witness:
  "\<exists>groups. applyReplacementsPreservingUnchangedLines [97, 98, 10, 32, 99] [97, 98, 10, 99] [sample_match]
      = Inr (overlay (splitLinesWithEndings [97, 98, 10, 32, 99]) (splitLinesWithEndings [97, 98, 10, 99]) 0 groups) \<and>
    groups_ok (splitLinesWithEndings [97, 98, 10, 99]) 0 groups \<and> concat (map lg_replacements groups) = [sample_match]"
  using untouched_lines_preserved [of "[97, 98, 10, 32, 99]" "[97, 98, 10, 99]" "[sample_match]"]
  by (simp add: sample_match_def)

theorem edit_keeps_endings_witness:
  "\<exists>new body. applyEditsToNormalizedContent id (normalizeToLF [97, 98, 13, 10, 99]) sample_edits
      = Inr (normalizeToLF [97, 98, 13, 10, 99], new) \<and>
    [0xFEFF, 122, 98, 13, 10, 120, 121] = [0xFEFF] @ body \<and> normalizeToLF body = new \<and>
    (10 \<in> set new \<longrightarrow> detectLineEnding body = detectLineEnding [97, 98, 13, 10, 99])"
proof (rule edit_keeps_endings)
  have lf: "normalizeToLF [97, 98, 13, 10, 99] = [97, 98, 10, 99]" by (simp add: normalizeToLF_def)
  show "stripBom [0xFEFF, 97, 98, 13, 10, 99] = ([0xFEFF], [97, 98, 13, 10, 99])" by (simp add: stripBom_def)
  then show "edit_content id [0xFEFF, 97, 98, 13, 10, 99] sample_edits = Inr [0xFEFF, 122, 98, 13, 10, 120, 121]"
    by (simp add: edit_content_def lf sample_edits_result detectLineEnding_def restoreLineEndings_def)
  show "list_all (\<lambda>e. index_of (ed_oldText (normalize_edit e)) (normalizeToLF [97, 98, 13, 10, 99]) \<noteq> None) sample_edits"
    by (simp add: lf sample_edits_def normalize_edit_def normalizeToLF_def)
qed

section \<open>Two corner cases of the fuzzy match\<close>

text \<open>An old text of white space only normalises to the empty text, which is found at the start of a
  short file: the new text is inserted there although the old text does not occur.\<close>

lemma blank_old_text_inserted:
  "index_of [32] [97, 98] = None \<and>
   applyEditsToNormalizedContent id [97, 98] [\<lparr> ed_oldText = [32], ed_newText = [88] \<rparr>] = Inr ([97, 98], [88, 97, 98])"
  by (simp add: edit_eval applyReplacementsPreservingUnchangedLines_def group_replacements_def getLineSpans_def
      getReplacementLineRange_def add_to_groups_def emit_group_def js_slice_def)

text \<open>A last line of white space without newline is a line of the file but not of its normalised form,
  so every fuzzy edit of such a file fails.\<close>

lemma blank_last_line_refused:
  "applyEditsToNormalizedContent id [97, 0x2019, 10, 32] [\<lparr> ed_oldText = [97, 39], ed_newText = [88] \<rparr>] = Inl DifferentLineCount"
  by (simp add: edit_eval applyReplacementsPreservingUnchangedLines_def group_replacements_def getLineSpans_def)

end
