(* ===== verification/File_Queue.thy ===== *)
theory File_Queue
  imports Edit_Correct Session_Types
begin

text \<open>
  \<^verbatim>\<open>packages/agent/src/harness/tools/file-mutation-queue.ts\<close> with the edit and write tools that run under it
  (\<^verbatim>\<open>edit.ts\<close>, \<^verbatim>\<open>write.ts\<close>). Calls are interleaved: each step of a call is a step of the system, in any order
  the promises allow. A call resolves its key and registers in the order of the calls, waits for the queue it
  found, runs, and releases its successor. A tool that runs reads the file at its path, computes, and writes
  at its path. The queue key and the place the path leads to are kept apart: two paths may lead to one file.
\<close>

section \<open>The queue\<close>

text \<open>
  The file system of the execution environment. \<open>fe_location p\<close> is the place an absolute path leads to when
  its links are followed; the links do not change while the calls run. A file is at a place when it has a
  content there.
\<close>

type_synonym files = "string \<Rightarrow> js_string option"

record file_env =
  fe_absolutePath :: "string \<Rightarrow> file_error + string"
  fe_location :: "string \<Rightarrow> string"

text \<open>\<^verbatim>\<open>canonicalPath\<close> of an environment with links: the place of a file that exists, \<open>not_found\<close> otherwise.\<close>

definition env_canonicalPath :: "file_env \<Rightarrow> files \<Rightarrow> string \<Rightarrow> file_error + string" where
  "env_canonicalPath env files p =
     (case files (fe_location env p) of None \<Rightarrow> Inl FileNotFound | Some _ \<Rightarrow> Inr (fe_location env p))"

datatype call_status = Registering | Waiting | Running | Released | Rejected

datatype tool_work =
    EditWork "edit list"
  | WriteWork js_string

text \<open>A call of a tool: the absolute path it acts on (\<^verbatim>\<open>resolveToolPath\<close>) and its work.\<close>

record queued_call =
  qc_path :: string
  qc_work :: tool_work

text \<open>
  \<open>fq_current c\<close> is the call whose chained queue \<open>c\<close> found under its key (\<open>None\<close> for a resolved
  promise); \<open>fq_queues\<close> maps a key to the call that put its chained queue there. A chained queue
  resolves when its call is released, since the call runs only after the queue before it.
  \<open>fq_resolved c\<close> is the key that \<open>c\<close> computed and has not used yet. The last two fields record the order
  of registration and of the writes.
\<close>

record file_queue =
  fq_registration :: "nat list"
  fq_status :: "nat \<Rightarrow> call_status option"
  fq_resolved :: "nat \<Rightarrow> (file_error + string) option"
  fq_key :: "nat \<Rightarrow> string"
  fq_current :: "nat \<Rightarrow> nat option"
  fq_queues :: "string \<Rightarrow> nat option"
  fq_content :: files
  fq_snapshot :: "nat \<Rightarrow> js_string option"
  fq_registered :: "nat list"
  fq_commits :: "nat list"

definition initial_queue :: "files \<Rightarrow> file_queue" where
  "initial_queue files = \<lparr> fq_registration = [], fq_status = (\<lambda>_. None), fq_resolved = (\<lambda>_. None), fq_key = (\<lambda>_. []), fq_current = (\<lambda>_. None),
     fq_queues = (\<lambda>_. None), fq_content = files, fq_snapshot = (\<lambda>_. None), fq_registered = [], fq_commits = [] \<rparr>"

definition withFileMutationQueue :: "nat \<Rightarrow> file_queue \<Rightarrow> file_queue" where
  "withFileMutationQueue c s =
     s\<lparr> fq_registration := fq_registration s @ [c], fq_status := (fq_status s)(c \<mapsto> Registering) \<rparr>"

text \<open>\<^verbatim>\<open>getMutationQueueKey\<close>: the canonical path, or the absolute path of a file that does not exist yet.\<close>

definition getMutationQueueKey ::
  "(string \<Rightarrow> file_error + string) \<Rightarrow> (string \<Rightarrow> file_error + string) \<Rightarrow> string \<Rightarrow> file_error + string" where
  "getMutationQueueKey absolutePath canonicalPath path =
     rbind (absolutePath path) (\<lambda>absolute.
     case canonicalPath absolute of
       Inr canonical \<Rightarrow> Inr canonical
     | Inl err \<Rightarrow> if err = FileNotFound \<or> err = FileNotSupported then Inr absolute else Inl err)"

definition resolve_key :: "nat \<Rightarrow> file_error + string \<Rightarrow> file_queue \<Rightarrow> file_queue" where
  "resolve_key c key s = s\<lparr> fq_resolved := (fq_resolved s)(c \<mapsto> key) \<rparr>"

definition register_call :: "nat \<Rightarrow> file_error + string \<Rightarrow> file_queue \<Rightarrow> file_queue" where
  "register_call c key s =
     (case key of
        Inl err \<Rightarrow> s\<lparr> fq_registration := tl (fq_registration s), fq_status := (fq_status s)(c \<mapsto> Rejected) \<rparr>
      | Inr k \<Rightarrow>
          s\<lparr> fq_registration := tl (fq_registration s), fq_status := (fq_status s)(c \<mapsto> Waiting),
             fq_key := (fq_key s)(c := k), fq_current := (fq_current s)(c := fq_queues s k),
             fq_queues := (fq_queues s)(k \<mapsto> c), fq_registered := fq_registered s @ [c] \<rparr>)"

definition released :: "file_queue \<Rightarrow> nat \<Rightarrow> bool" where
  "released s c \<longleftrightarrow> fq_status s c = Some Released"

definition current_resolved :: "file_queue \<Rightarrow> nat \<Rightarrow> bool" where
  "current_resolved s c = (case fq_current s c of None \<Rightarrow> True | Some p \<Rightarrow> released s p)"

definition start_call :: "nat \<Rightarrow> file_queue \<Rightarrow> file_queue" where
  "start_call c s = s\<lparr> fq_status := (fq_status s)(c \<mapsto> Running) \<rparr>"

definition finish_call :: "nat \<Rightarrow> file_queue \<Rightarrow> file_queue" where
  "finish_call c s =
     s\<lparr> fq_status := (fq_status s)(c \<mapsto> Released),
        fq_queues := (if fq_queues s (fq_key s c) = Some c then (fq_queues s)(fq_key s c := None) else fq_queues s) \<rparr>"

section \<open>The tools\<close>

text \<open>The edit tool fails on a file that does not exist (\<^verbatim>\<open>editAccessError\<close>); the write tool creates it.\<close>

datatype tool_failure = NoAccess | EditFailed edit_error

definition tool_result ::
  "(js_string \<Rightarrow> js_string) \<Rightarrow> tool_work \<Rightarrow> js_string option \<Rightarrow> tool_failure + js_string" where
  "tool_result nfkc work content =
     (case work of
        EditWork edits \<Rightarrow>
          (case content of
             None \<Rightarrow> Inl NoAccess
           | Some text \<Rightarrow> (case edit_content nfkc text edits of Inl e \<Rightarrow> Inl (EditFailed e) | Inr t \<Rightarrow> Inr t))
      | WriteWork s \<Rightarrow> Inr s)"

definition read_file :: "string \<Rightarrow> nat \<Rightarrow> file_queue \<Rightarrow> file_queue" where
  "read_file l c s = s\<lparr> fq_snapshot := (fq_snapshot s)(c := fq_content s l) \<rparr>"

definition write_file :: "string \<Rightarrow> nat \<Rightarrow> js_string \<Rightarrow> file_queue \<Rightarrow> file_queue" where
  "write_file l c t s = s\<lparr> fq_content := (fq_content s)(l \<mapsto> t), fq_commits := fq_commits s @ [c] \<rparr>"

text \<open>Where the path of a call leads.\<close>

definition place :: "file_env \<Rightarrow> (nat \<Rightarrow> queued_call) \<Rightarrow> nat \<Rightarrow> string" where
  "place env calls c = fe_location env (qc_path (calls c))"

text \<open>
  The steps. The key of the call whose turn it is is computed on the files of that moment, and the call
  registers under it later; \<^verbatim>\<open>canonicalPath\<close> may also fail. A tool reads and writes at the place its path leads
  to. A running call may also finish without having read or written: the tool was aborted or the file could
  not be accessed. The write tool does not read.
\<close>

inductive queue_step ::
  "(js_string \<Rightarrow> js_string) \<Rightarrow> file_env \<Rightarrow> (nat \<Rightarrow> queued_call) \<Rightarrow> file_queue \<Rightarrow> file_queue \<Rightarrow> bool"
  for nfkc :: "js_string \<Rightarrow> js_string" and env :: file_env and calls :: "nat \<Rightarrow> queued_call" where
  call: "fq_status s c = None \<Longrightarrow> queue_step nfkc env calls s (withFileMutationQueue c s)"
| resolve: "fq_registration s = c # rest \<Longrightarrow> fq_resolved s c = None \<Longrightarrow> queue_step nfkc env calls s
    (resolve_key c (getMutationQueueKey (fe_absolutePath env) (env_canonicalPath env (fq_content s)) (qc_path (calls c))) s)"
| resolve_failed: "fq_registration s = c # rest \<Longrightarrow> fq_resolved s c = None \<Longrightarrow> err \<notin> {FileNotFound, FileNotSupported} \<Longrightarrow>
    queue_step nfkc env calls s
      (resolve_key c (getMutationQueueKey (fe_absolutePath env) (\<lambda>_. Inl err) (qc_path (calls c))) s)"
| register: "fq_registration s = c # rest \<Longrightarrow> fq_resolved s c = Some key \<Longrightarrow>
    queue_step nfkc env calls s (register_call c key s)"
| start: "fq_status s c = Some Waiting \<Longrightarrow> current_resolved s c \<Longrightarrow> queue_step nfkc env calls s (start_call c s)"
| read: "fq_status s c = Some Running \<Longrightarrow> c \<notin> set (fq_commits s) \<Longrightarrow>
    queue_step nfkc env calls s (read_file (place env calls c) c s)"
| commit: "fq_status s c = Some Running \<Longrightarrow> c \<notin> set (fq_commits s) \<Longrightarrow> fq_snapshot s c = Some content \<Longrightarrow>
    tool_result nfkc (qc_work (calls c)) (Some content) = Inr t \<Longrightarrow>
    queue_step nfkc env calls s (write_file (place env calls c) c t s)"
| commit_unread: "fq_status s c = Some Running \<Longrightarrow> c \<notin> set (fq_commits s) \<Longrightarrow> qc_work (calls c) = WriteWork t \<Longrightarrow>
    queue_step nfkc env calls s (write_file (place env calls c) c t s)"
| finish: "fq_status s c = Some Running \<Longrightarrow> queue_step nfkc env calls s (finish_call c s)"

inductive queue_reachable ::
  "(js_string \<Rightarrow> js_string) \<Rightarrow> file_env \<Rightarrow> (nat \<Rightarrow> queued_call) \<Rightarrow> files \<Rightarrow> file_queue \<Rightarrow> bool"
  for nfkc :: "js_string \<Rightarrow> js_string" and env :: file_env and calls :: "nat \<Rightarrow> queued_call" and files :: files where
  init: "queue_reachable nfkc env calls files (initial_queue files)"
| step: "queue_reachable nfkc env calls files s \<Longrightarrow> queue_step nfkc env calls s s' \<Longrightarrow> queue_reachable nfkc env calls files s'"

section \<open>The invariant of the queue\<close>

definition key_calls :: "file_queue \<Rightarrow> string \<Rightarrow> nat list" where
  "key_calls s k = filter (\<lambda>c. fq_key s c = k) (fq_registered s)"

definition started :: "file_queue \<Rightarrow> nat \<Rightarrow> bool" where
  "started s c \<longleftrightarrow> fq_status s c = Some Running \<or> fq_status s c = Some Released"

definition enrolled :: "file_queue \<Rightarrow> nat \<Rightarrow> bool" where
  "enrolled s c \<longleftrightarrow> fq_status s c = Some Waiting \<or> started s c"

text \<open>A call and the call before it under its key.\<close>

definition link_ok :: "file_queue \<Rightarrow> nat option \<Rightarrow> nat \<Rightarrow> bool" where
  "link_ok s p c \<longleftrightarrow> (fq_current s c = p \<or> (fq_current s c = None \<and> (\<exists>a. p = Some a \<and> released s a))) \<and>
     (started s c \<longrightarrow> (\<forall>a. p = Some a \<longrightarrow> released s a))"

fun links_ok :: "file_queue \<Rightarrow> nat option \<Rightarrow> nat list \<Rightarrow> bool" where
  "links_ok s p [] \<longleftrightarrow> True"
| "links_ok s p (c # cs) \<longleftrightarrow> link_ok s p c \<and> links_ok s (Some c) cs"

definition open_end :: "file_queue \<Rightarrow> nat list \<Rightarrow> nat option" where
  "open_end s cs = (if cs = [] \<or> released s (last cs) then None else Some (last cs))"

definition queue_inv :: "file_queue \<Rightarrow> bool" where
  "queue_inv s \<longleftrightarrow>
     (\<forall>c. c \<in> set (fq_registration s) \<longleftrightarrow> fq_status s c = Some Registering) \<and> distinct (fq_registration s) \<and>
     (\<forall>c. c \<in> set (fq_registered s) \<longleftrightarrow> enrolled s c) \<and> distinct (fq_registered s) \<and>
     (\<forall>k. links_ok s None (key_calls s k)) \<and> (\<forall>k. fq_queues s k = open_end s (key_calls s k))"

lemma links_ok_append:
  "links_ok s p (as @ cs) \<longleftrightarrow> links_ok s p as \<and> links_ok s (if as = [] then p else Some (last as)) cs"
  by (induction as arbitrary: p) auto

text \<open>A change of the state that keeps the links: no call of the list is started by it.\<close>

lemma links_mono:
  assumes "links_ok s p cs" and "\<And>c. c \<in> set cs \<Longrightarrow> fq_current t c = fq_current s c"
    and "\<And>c. released s c \<Longrightarrow> released t c" and "\<And>c. c \<in> set cs \<Longrightarrow> started t c \<Longrightarrow> started s c \<or> current_resolved s c"
  shows "links_ok t p cs"
  using assms(1,2,4)
proof (induction cs arbitrary: p)
  case (Cons c cs)
  then have l: "link_ok s p c" by simp
  have "link_ok t p c"
    using l Cons.prems(2) [of c] Cons.prems(3) [of c] assms(3)
    by (auto simp: link_ok_def current_resolved_def split: option.splits)
  with Cons show ?case by simp
qed simp

lemma link_released: "link_ok s (Some a) c \<Longrightarrow> started s c \<Longrightarrow> released s a"
  by (auto simp: link_ok_def)

lemma before_started_released:
  assumes "links_ok s p (as @ c # cs)" and "started s c" and "a \<in> set as"
  shows "released s a"
  using assms
proof (induction as arbitrary: p c cs rule: rev_induct)
  case (snoc b bs)
  then have "link_ok s (Some b) c" by (simp add: links_ok_append)
  then have b: "released s b" using snoc.prems(2) link_released by blast
  then have "started s b" by (simp add: started_def released_def)
  with snoc.IH [of p b "c # cs"] snoc.prems b show ?case by auto
qed simp


section \<open>Every step keeps the invariant\<close>

lemma queue_invD:
  assumes "queue_inv s"
  shows "c \<in> set (fq_registration s) \<longleftrightarrow> fq_status s c = Some Registering" "distinct (fq_registration s)"
    "c \<in> set (fq_registered s) \<longleftrightarrow> enrolled s c" "distinct (fq_registered s)"
    "links_ok s None (key_calls s k)" "fq_queues s k = open_end s (key_calls s k)"
  using assms unfolding queue_inv_def by blast+

lemma queue_invI:
  assumes "\<And>c. c \<in> set (fq_registration s) \<longleftrightarrow> fq_status s c = Some Registering" "distinct (fq_registration s)"
    "\<And>c. c \<in> set (fq_registered s) \<longleftrightarrow> enrolled s c" "distinct (fq_registered s)"
    "\<And>k. links_ok s None (key_calls s k)" "\<And>k. fq_queues s k = open_end s (key_calls s k)"
  shows "queue_inv s"
  using assms unfolding queue_inv_def by blast

text \<open>A step that neither registers nor releases a call, and starts one only when it may start.\<close>

lemma queue_inv_change:
  assumes inv: "queue_inv s" and same: "fq_registered t = fq_registered s" "fq_key t = fq_key s"
      "fq_current t = fq_current s" "fq_queues t = fq_queues s" "\<And>x. released t x = released s x"
    and started: "\<And>x. started t x \<Longrightarrow> started s x \<or> current_resolved s x" "\<And>x. enrolled t x = enrolled s x"
    and registration: "\<And>x. x \<in> set (fq_registration t) \<longleftrightarrow> fq_status t x = Some Registering" "distinct (fq_registration t)"
  shows "queue_inv t"
proof (rule queue_invI)
  have calls: "key_calls t k = key_calls s k" for k by (simp add: key_calls_def same)
  show "links_ok t None (key_calls t k)" for k
    unfolding calls by (rule links_mono [OF queue_invD(5) [OF inv]]) (use same started(1) in simp_all)
  show "fq_queues t k = open_end t (key_calls t k)" for k
    using queue_invD(6) [OF inv, of k] by (simp add: open_end_def calls same)
  show "c \<in> set (fq_registered t) \<longleftrightarrow> enrolled t c" for c
    using queue_invD(3) [OF inv, of c] by (simp add: same started(2))
  show "distinct (fq_registered t)" using queue_invD(4) [OF inv] by (simp add: same)
qed (fact registration)+

lemma inv_call:
  assumes "queue_inv s" and "fq_status s c = None"
  shows "queue_inv (withFileMutationQueue c s)"
proof (rule queue_inv_change [OF assms(1)])
  note def = withFileMutationQueue_def released_def started_def enrolled_def
  show "released (withFileMutationQueue c s) x = released s x" "enrolled (withFileMutationQueue c s) x = enrolled s x" for x
    using assms(2) by (auto simp: def)
  show "started (withFileMutationQueue c s) x \<Longrightarrow> started s x \<or> current_resolved s x" for x
    by (auto simp: def split: if_splits)
  show "x \<in> set (fq_registration (withFileMutationQueue c s)) \<longleftrightarrow> fq_status (withFileMutationQueue c s) x = Some Registering" for x
    using queue_invD(1) [OF assms(1), of x] by (auto simp: def)
  show "distinct (fq_registration (withFileMutationQueue c s))"
    using queue_invD(1) [OF assms(1), of c] queue_invD(2) [OF assms(1)] assms(2) by (simp add: def)
qed (simp_all add: withFileMutationQueue_def)

lemma registering:
  assumes "queue_inv s" and "fq_registration s = c # rest"
  shows "fq_status s c = Some Registering" "c \<notin> set (fq_registered s)" "distinct rest"
    "x \<in> set rest \<longleftrightarrow> fq_status s x = Some Registering \<and> x \<noteq> c"
proof -
  show c: "fq_status s c = Some Registering" using queue_invD(1) [OF assms(1), of c] assms(2) by simp
  then show "c \<notin> set (fq_registered s)" using queue_invD(3) [OF assms(1), of c] by (simp add: enrolled_def started_def)
  have "c \<notin> set rest" "distinct rest" using queue_invD(2) [OF assms(1)] assms(2) by simp_all
  then show "distinct rest" "x \<in> set rest \<longleftrightarrow> fq_status s x = Some Registering \<and> x \<noteq> c"
    using queue_invD(1) [OF assms(1), of x] assms(2) by auto
qed

lemma inv_register_failed:
  assumes "queue_inv s" and "fq_registration s = c # rest"
  shows "queue_inv (register_call c (Inl e) s)"
proof (rule queue_inv_change [OF assms(1)])
  note def = register_call_def released_def started_def enrolled_def
  show "released (register_call c (Inl e) s) x = released s x" "enrolled (register_call c (Inl e) s) x = enrolled s x" for x
    using registering(1) [OF assms] by (auto simp: def)
  show "started (register_call c (Inl e) s) x \<Longrightarrow> started s x \<or> current_resolved s x" for x
    by (auto simp: def split: if_splits)
  show "x \<in> set (fq_registration (register_call c (Inl e) s)) \<longleftrightarrow> fq_status (register_call c (Inl e) s) x = Some Registering" for x
    using registering(4) [OF assms, of x] assms(2) by (auto simp: def)
  show "distinct (fq_registration (register_call c (Inl e) s))"
    using registering(3) [OF assms] assms(2) by (simp add: def)
qed (simp_all add: register_call_def)

lemma key_calls_register:
  assumes "c \<notin> set (fq_registered s)"
  shows "key_calls (register_call c (Inr k) s) j = key_calls s j @ (if j = k then [c] else [])"
  using assms by (auto simp: key_calls_def register_call_def intro: filter_cong)

lemma inv_register:
  assumes "queue_inv s" and "fq_registration s = c # rest"
  shows "queue_inv (register_call c (Inr k) s)"
proof -
  let ?t = "register_call c (Inr k) s"
  note c = registering [OF assms]
  have st: "released ?t x = released s x" "started ?t x = started s x" for x
    using c(1) by (auto simp: register_call_def released_def started_def)
  have cur: "fq_current ?t x = (if x = c then fq_queues s k else fq_current s x)" for x by (simp add: register_call_def)
  have old: "links_ok ?t None (key_calls s j)" for j
    by (rule links_mono [OF queue_invD(5) [OF assms(1)]]) (use st c(2) cur in \<open>auto simp: key_calls_def\<close>)
  have "link_ok ?t (if key_calls s k = [] then None else Some (last (key_calls s k))) c"
    using queue_invD(6) [OF assms(1), of k] cur st c(1) by (auto simp: open_end_def link_ok_def started_def)
  with old have links: "links_ok ?t None (key_calls ?t j)" for j
    by (auto simp: key_calls_register [OF c(2)] links_ok_append)
  have "\<not> released ?t c" using c(1) st by (simp add: released_def)
  then have queues: "fq_queues ?t j = open_end ?t (key_calls ?t j)" for j
    using queue_invD(6) [OF assms(1), of j] st
    by (simp add: key_calls_register [OF c(2)] open_end_def) (simp add: register_call_def)
  show ?thesis
  proof (rule queue_invI [OF _ _ _ _ links queues])
    show "x \<in> set (fq_registered ?t) \<longleftrightarrow> enrolled ?t x" for x
      using queue_invD(3) [OF assms(1), of x] st(2) [of x] by (auto simp: register_call_def enrolled_def)
    show "x \<in> set (fq_registration ?t) \<longleftrightarrow> fq_status ?t x = Some Registering" for x
      using c(4) [of x] assms(2) by (auto simp: register_call_def)
    show "distinct (fq_registration ?t)" "distinct (fq_registered ?t)"
      using c(2,3) assms(2) queue_invD(4) [OF assms(1)] by (simp_all add: register_call_def)
  qed
qed

lemma inv_start:
  assumes "queue_inv s" and "fq_status s c = Some Waiting" and "current_resolved s c"
  shows "queue_inv (start_call c s)"
proof (rule queue_inv_change [OF assms(1)])
  note def = start_call_def released_def started_def enrolled_def
  show "released (start_call c s) x = released s x" "enrolled (start_call c s) x = enrolled s x" for x
    using assms(2) by (auto simp: def)
  show "started (start_call c s) x \<Longrightarrow> started s x \<or> current_resolved s x" for x
    using assms(3) by (auto simp: def split: if_splits)
  show "x \<in> set (fq_registration (start_call c s)) \<longleftrightarrow> fq_status (start_call c s) x = Some Registering" for x
    using queue_invD(1) [OF assms(1), of x] assms(2) by (auto simp: def)
qed (use queue_invD(2) [OF assms(1)] in \<open>simp_all add: start_call_def\<close>)

lemma inv_finish:
  assumes "queue_inv s" and "fq_status s c = Some Running"
  shows "queue_inv (finish_call c s)"
proof -
  let ?t = "finish_call c s"
  have st: "released ?t x \<longleftrightarrow> x = c \<or> released s x" "started ?t x = started s x" for x
    using assms(2) by (auto simp: finish_call_def released_def started_def)
  have calls: "key_calls ?t k = key_calls s k" for k by (simp add: key_calls_def finish_call_def)
  have links: "links_ok ?t None (key_calls ?t k)" for k
    unfolding calls by (rule links_mono [OF queue_invD(5) [OF assms(1)]]) (use st in \<open>auto simp: finish_call_def\<close>)
  have queues: "fq_queues ?t k = open_end ?t (key_calls ?t k)" for k
  proof -
    have "k = fq_key s c" if "key_calls s k \<noteq> []" "last (key_calls s k) = c"
      using last_in_set [OF that(1)] that(2) by (auto simp: key_calls_def)
    moreover have "\<not> released s c" using assms(2) by (simp add: released_def)
    moreover have "fq_queues ?t k = (if k = fq_key s c \<and> fq_queues s k = Some c then None else fq_queues s k)"
      by (auto simp: finish_call_def)
    ultimately show ?thesis unfolding calls open_end_def st(1) queue_invD(6) [OF assms(1), of k]
      by (cases "key_calls s k = []"; cases "last (key_calls s k) = c") auto
  qed
  show ?thesis
  proof (rule queue_invI [OF _ _ _ _ links queues])
    show "x \<in> set (fq_registered ?t) \<longleftrightarrow> enrolled ?t x" for x
      using queue_invD(3) [OF assms(1), of x] assms(2) by (auto simp: finish_call_def enrolled_def started_def)
    show "x \<in> set (fq_registration ?t) \<longleftrightarrow> fq_status ?t x = Some Registering" for x
      using queue_invD(1) [OF assms(1), of x] assms(2) by (auto simp: finish_call_def)
    show "distinct (fq_registration ?t)" "distinct (fq_registered ?t)"
      using queue_invD(2,4) [OF assms(1)] by (simp_all add: finish_call_def)
  qed
qed

lemma inv_data:
  assumes "queue_inv s"
  shows "queue_inv (read_file l c s)" "queue_inv (write_file l c t s)" "queue_inv (resolve_key c key s)"
proof -
  show "queue_inv (resolve_key c key s)"
    by (rule queue_inv_change [OF assms])
       (use queue_invD(1,2) [OF assms] in \<open>simp_all add: resolve_key_def released_def started_def enrolled_def current_resolved_def\<close>)
  show "queue_inv (read_file l c s)"
    by (rule queue_inv_change [OF assms])
       (use queue_invD(1,2) [OF assms] in \<open>simp_all add: read_file_def released_def started_def enrolled_def\<close>)
  show "queue_inv (write_file l c t s)"
    by (rule queue_inv_change [OF assms])
       (use queue_invD(1,2) [OF assms] in \<open>simp_all add: write_file_def released_def started_def enrolled_def\<close>)
qed

lemma inv_step:
  assumes "queue_step nfkc env calls s t" and "queue_inv s"
  shows "queue_inv t"
  using assms(1)
proof cases
  case (register c rest key)
  then show ?thesis using assms(2) by (cases key) (auto intro: inv_register inv_register_failed)
qed (use assms(2) in \<open>auto intro: inv_call inv_start inv_finish inv_data\<close>)

lemma reachable_inv: "queue_reachable nfkc env calls files s \<Longrightarrow> queue_inv s"
proof (induction rule: queue_reachable.induct)
  case init
  show ?case by (rule queue_invI) (auto simp: initial_queue_def key_calls_def open_end_def started_def enrolled_def)
qed (blast intro: inv_step)


section \<open>Mutual exclusion and order\<close>

lemma key_calls_split:
  assumes "queue_inv s" and "enrolled s a" and "enrolled s b" and "fq_key s a = fq_key s b" and "a \<noteq> b"
  shows "\<exists>xs ys. key_calls s (fq_key s a) = xs @ b # ys \<and> a \<in> set xs \<or> key_calls s (fq_key s a) = xs @ a # ys \<and> b \<in> set xs"
proof -
  have "a \<in> set (key_calls s (fq_key s a))" "b \<in> set (key_calls s (fq_key s a))"
    using queue_invD(3) [OF assms(1)] assms(2-4) by (auto simp: key_calls_def)
  then obtain xs ys where ab: "key_calls s (fq_key s a) = xs @ b # ys" by (meson split_list)
  show ?thesis
  proof (cases "a \<in> set xs")
    case False
    with ab \<open>a \<in> set _\<close> assms(5) have "a \<in> set ys" by auto
    then obtain us vs where "ys = us @ a # vs" by (meson split_list)
    with ab have "key_calls s (fq_key s a) = (xs @ b # us) @ a # vs" by simp
    then show ?thesis by (meson in_set_conv_decomp)
  qed (use ab in blast)
qed

lemma exclusive:
  assumes "queue_inv s" and "fq_status s a = Some Running" and "fq_status s b = Some Running" and "fq_key s a = fq_key s b"
  shows "a = b"
proof (rule ccontr)
  assume "a \<noteq> b"
  moreover have en: "enrolled s a" "enrolled s b" "started s a" "started s b"
    using assms(2,3) by (auto simp: enrolled_def started_def)
  ultimately have "released s a \<or> released s b"
    using key_calls_split [OF assms(1) en(1,2) assms(4)] before_started_released [of s None]
      queue_invD(5) [OF assms(1), of "fq_key s a"] by metis
  with assms(2,3) show False by (simp add: released_def)
qed

text \<open>Two calls never run at the same time on the same file, and a call runs only after every call that
  registered before it for that file was released, in whatever order the steps of the calls interleave.\<close>

theorem file_calls_exclusive:
  assumes "queue_reachable nfkc env calls files s"
  shows "(\<forall>a b. fq_status s a = Some Running \<and> fq_status s b = Some Running \<and> fq_key s a = fq_key s b \<longrightarrow> a = b) \<and>
    (\<forall>k xs c ys a. key_calls s k = xs @ c # ys \<and> started s c \<and> a \<in> set xs \<longrightarrow> fq_status s a = Some Released)"
proof (intro conjI allI impI)
  fix a b
  assume "fq_status s a = Some Running \<and> fq_status s b = Some Running \<and> fq_key s a = fq_key s b"
  then show "a = b" using exclusive [OF reachable_inv [OF assms]] by blast
next
  fix k xs c ys a
  assume a: "key_calls s k = xs @ c # ys \<and> started s c \<and> a \<in> set xs"
  with queue_invD(5) [OF reachable_inv [OF assms], of k] have "links_ok s None (xs @ c # ys)" by simp
  with a have "released s a" using before_started_released by blast
  then show "fq_status s a = Some Released" by (simp add: released_def)
qed

text \<open>No call waits for ever: while a call waits for a file, some call of that file runs or may start.\<close>

lemma first_unreleased_ready:
  assumes "links_ok s p cs" and "\<forall>a. p = Some a \<longrightarrow> released s a" and "c \<in> set cs" and "\<not> released s c"
  shows "\<exists>d \<in> set cs. \<not> released s d \<and> current_resolved s d"
  using assms
proof (induction cs arbitrary: p)
  case (Cons x cs)
  show ?case
  proof (cases "released s x")
    case True
    with Cons.prems Cons.IH [of "Some x"] show ?thesis by auto
  next
    case False
    with Cons.prems have "current_resolved s x"
      by (auto simp: link_ok_def current_resolved_def split: option.splits)
    with False show ?thesis by auto
  qed
qed simp

lemma waiting_call_progress:
  assumes "queue_reachable nfkc env calls files s" and "fq_status s c = Some Waiting"
  shows "\<exists>d. fq_key s d = fq_key s c \<and> (fq_status s d = Some Running \<or> fq_status s d = Some Waiting \<and> current_resolved s d)"
proof -
  note inv = reachable_inv [OF assms(1)]
  have "c \<in> set (key_calls s (fq_key s c))" "\<not> released s c"
    using queue_invD(3) [OF inv, of c] assms(2) by (auto simp: key_calls_def enrolled_def released_def)
  with first_unreleased_ready [OF queue_invD(5) [OF inv]] obtain d where
    "d \<in> set (key_calls s (fq_key s c))" "\<not> released s d" "current_resolved s d" by (metis option.distinct(1))
  then show ?thesis using queue_invD(3) [OF inv, of d]
    by (auto simp: key_calls_def enrolled_def started_def released_def)
qed


section \<open>No update is lost\<close>

text \<open>
  The paths of the calls are settled when each is canonical already or leads to a file that exists from the
  start: then the key of a call is the place its path leads to, whenever it is computed.
\<close>

definition settled_paths :: "file_env \<Rightarrow> (nat \<Rightarrow> queued_call) \<Rightarrow> files \<Rightarrow> bool" where
  "settled_paths env calls files \<longleftrightarrow>
     (\<forall>c. fe_absolutePath env (qc_path (calls c)) = Inr (qc_path (calls c)) \<and>
          (place env calls c = qc_path (calls c) \<or> files (place env calls c) \<noteq> None))"

definition key_inv :: "file_env \<Rightarrow> (nat \<Rightarrow> queued_call) \<Rightarrow> files \<Rightarrow> file_queue \<Rightarrow> bool" where
  "key_inv env calls files s \<longleftrightarrow>
     (\<forall>c k. fq_resolved s c = Some (Inr k) \<longrightarrow> k = place env calls c) \<and>
     (\<forall>c \<in> set (fq_registered s). fq_key s c = place env calls c) \<and>
     (\<forall>l. files l \<noteq> None \<longrightarrow> fq_content s l \<noteq> None)"

lemma settled_key:
  assumes "settled_paths env calls files" and "\<And>l. files l \<noteq> None \<Longrightarrow> now l \<noteq> None"
    and "getMutationQueueKey (fe_absolutePath env) (env_canonicalPath env now) (qc_path (calls c)) = Inr k"
  shows "k = place env calls c"
proof -
  have abs: "fe_absolutePath env (qc_path (calls c)) = Inr (qc_path (calls c))"
    and here: "place env calls c = qc_path (calls c) \<or> files (place env calls c) \<noteq> None"
    using assms(1) by (simp_all add: settled_paths_def)
  then show ?thesis using assms(2) [of "place env calls c"] assms(3)
    by (cases "now (place env calls c)") (auto simp: getMutationQueueKey_def env_canonicalPath_def place_def)
qed

lemma key_failed:
  "err \<notin> {FileNotFound, FileNotSupported} \<Longrightarrow> getMutationQueueKey a (\<lambda>_. Inl err) p \<noteq> Inr k"
  by (auto simp: getMutationQueueKey_def rbind_Inr_iff)

lemma key_inv_step:
  assumes "queue_step nfkc env calls s t" and "settled_paths env calls files" and "key_inv env calls files s"
    and "queue_inv s"
  shows "key_inv env calls files t"
  using assms(1)
proof cases
  case (resolve c rest)
  have "k = place env calls c"
    if "getMutationQueueKey (fe_absolutePath env) (env_canonicalPath env (fq_content s)) (qc_path (calls c)) = Inr k" for k
    using settled_key [OF assms(2) _ that] assms(3) by (auto simp: key_inv_def)
  then show ?thesis using resolve assms(3) by (auto simp: key_inv_def resolve_key_def)
next
  case (resolve_failed c rest err)
  then show ?thesis using key_failed [OF resolve_failed(4)] assms(3) by (auto simp: key_inv_def resolve_key_def)
next
  case (register c rest key)
  then show ?thesis using assms(3) registering(2) [OF assms(4) register(2)]
    by (cases key) (auto simp: key_inv_def register_call_def)
qed (use assms(3) in \<open>auto simp: key_inv_def withFileMutationQueue_def start_call_def finish_call_def read_file_def write_file_def\<close>)

text \<open>The calls on a place and the calls that wrote there, whatever the keys they queued under.\<close>

definition place_calls :: "file_env \<Rightarrow> (nat \<Rightarrow> queued_call) \<Rightarrow> file_queue \<Rightarrow> string \<Rightarrow> nat list" where
  "place_calls env calls s l = filter (\<lambda>c. place env calls c = l) (fq_registered s)"

definition place_commits :: "file_env \<Rightarrow> (nat \<Rightarrow> queued_call) \<Rightarrow> file_queue \<Rightarrow> string \<Rightarrow> nat list" where
  "place_commits env calls s l = filter (\<lambda>c. place env calls c = l) (fq_commits s)"

lemma place_calls_key: "key_inv env calls files s \<Longrightarrow> place_calls env calls s l = key_calls s l"
  by (auto simp: place_calls_def key_calls_def key_inv_def intro: filter_cong)

text \<open>The calls of a file one after the other, each on what the call before left.\<close>

definition replay_calls ::
  "(js_string \<Rightarrow> js_string) \<Rightarrow> (nat \<Rightarrow> queued_call) \<Rightarrow> js_string option \<Rightarrow> nat list
     \<Rightarrow> tool_failure + js_string option" where
  "replay_calls nfkc calls = rfold (\<lambda>t c. rbind (tool_result nfkc (qc_work (calls c)) t) (\<lambda>u. Inr (Some u)))"

definition data_inv ::
  "(js_string \<Rightarrow> js_string) \<Rightarrow> file_env \<Rightarrow> (nat \<Rightarrow> queued_call) \<Rightarrow> files \<Rightarrow> file_queue \<Rightarrow> bool" where
  "data_inv nfkc env calls files s \<longleftrightarrow>
     (\<forall>c \<in> set (fq_commits s). started s c) \<and>
     (\<forall>c. fq_snapshot s c \<noteq> None \<longrightarrow> started s c) \<and>
     (\<forall>c t. fq_status s c = Some Running \<and> fq_snapshot s c = Some t \<and> c \<notin> set (fq_commits s) \<longrightarrow>
        fq_content s (place env calls c) = Some t) \<and>
     (\<forall>l. replay_calls nfkc calls (files l) (place_commits env calls s l) = Inr (fq_content s l) \<and>
        subseq (place_commits env calls s l) (place_calls env calls s l))"

lemma data_invD:
  assumes "data_inv nfkc env calls files s"
  shows "c \<in> set (fq_commits s) \<Longrightarrow> started s c" "fq_snapshot s c \<noteq> None \<Longrightarrow> started s c"
    "fq_status s c = Some Running \<Longrightarrow> fq_snapshot s c = Some t \<Longrightarrow> c \<notin> set (fq_commits s) \<Longrightarrow>
       fq_content s (place env calls c) = Some t"
    "replay_calls nfkc calls (files l) (place_commits env calls s l) = Inr (fq_content s l)"
    "subseq (place_commits env calls s l) (place_calls env calls s l)"
  using assms unfolding data_inv_def by blast+

lemma data_invI:
  assumes "\<And>c. c \<in> set (fq_commits s) \<Longrightarrow> started s c" "\<And>c. fq_snapshot s c \<noteq> None \<Longrightarrow> started s c"
    "\<And>c t. fq_status s c = Some Running \<Longrightarrow> fq_snapshot s c = Some t \<Longrightarrow> c \<notin> set (fq_commits s) \<Longrightarrow>
       fq_content s (place env calls c) = Some t"
    "\<And>l. replay_calls nfkc calls (files l) (place_commits env calls s l) = Inr (fq_content s l)"
    "\<And>l. subseq (place_commits env calls s l) (place_calls env calls s l)"
  shows "data_inv nfkc env calls files s"
  using assms unfolding data_inv_def by blast

text \<open>A step that touches no file: started calls stay started, and what runs has run or has not read yet.\<close>

lemma data_inv_change:
  assumes inv: "data_inv nfkc env calls files s" and same: "fq_commits t = fq_commits s" "fq_snapshot t = fq_snapshot s"
      "fq_content t = fq_content s" "\<And>c. started s c \<Longrightarrow> started t c"
    and registered: "\<exists>cs. fq_registered t = fq_registered s @ cs"
    and running: "\<And>c. fq_status t c = Some Running \<Longrightarrow> started s c \<Longrightarrow> fq_status s c = Some Running"
  shows "data_inv nfkc env calls files t"
proof (rule data_invI)
  show "started t c" if "c \<in> set (fq_commits t)" for c using data_invD(1) [OF inv] same that by simp
  show "started t c" if "fq_snapshot t c \<noteq> None" for c using data_invD(2) [OF inv] same that by simp
  show "fq_content t (place env calls c) = Some u"
    if "fq_status t c = Some Running" "fq_snapshot t c = Some u" "c \<notin> set (fq_commits t)" for c u
  proof -
    have "started s c" using data_invD(2) [OF inv, of c] that(2) same(2) by simp
    then show ?thesis using data_invD(3) [OF inv, of c u] running that same by simp
  qed
  show "replay_calls nfkc calls (files l) (place_commits env calls t l) = Inr (fq_content t l)" for l
    using data_invD(4) [OF inv] by (simp add: place_commits_def same)
  obtain cs where "fq_registered t = fq_registered s @ cs" using registered by blast
  then show "subseq (place_commits env calls t l) (place_calls env calls t l)" for l
    using data_invD(5) [OF inv, of l] by (auto simp: place_commits_def place_calls_def same)
qed

lemma data_read:
  assumes "data_inv nfkc env calls files s" and "fq_status s c = Some Running"
  shows "data_inv nfkc env calls files (read_file (place env calls c) c s)" (is "data_inv _ _ _ _ ?t")
proof (rule data_invI)
  note def = read_file_def started_def
  show "started ?t x" if "x \<in> set (fq_commits ?t)" for x
    using data_invD(1) [OF assms(1), of x] that by (simp add: def)
  show "started ?t x" if "fq_snapshot ?t x \<noteq> None" for x
    using data_invD(2) [OF assms(1), of x] that assms(2) by (auto simp: def split: if_splits)
  show "fq_content ?t (place env calls x) = Some t"
    if "fq_status ?t x = Some Running" "fq_snapshot ?t x = Some t" "x \<notin> set (fq_commits ?t)" for x t
    using data_invD(3) [OF assms(1), of x t] that by (auto simp: def split: if_splits)
qed (use data_invD(4,5) [OF assms(1)] in \<open>simp_all add: read_file_def place_commits_def place_calls_def\<close>)

text \<open>Under settled paths two calls on the same place have the same key, so only one of them runs.\<close>

lemma place_exclusive:
  assumes "queue_inv s" and "key_inv env calls files s" and "fq_status s a = Some Running"
    and "fq_status s b = Some Running" and "place env calls a = place env calls b"
  shows "a = b"
proof (rule exclusive [OF assms(1,3,4)])
  have "a \<in> set (fq_registered s)" "b \<in> set (fq_registered s)"
    using queue_invD(3) [OF assms(1)] assms(3,4) by (simp_all add: enrolled_def started_def)
  then show "fq_key s a = fq_key s b" using assms(2,5) by (simp add: key_inv_def)
qed

lemma commit_position:
  assumes "queue_inv s" and "key_inv env calls files s" and "data_inv nfkc env calls files s"
    and "fq_status s c = Some Running" and "c \<notin> set (fq_commits s)"
  shows "subseq (place_commits env calls s (place env calls c) @ [c]) (place_calls env calls s (place env calls c))"
proof -
  let ?l = "place env calls c"
  let ?done = "place_commits env calls s ?l" and ?all = "place_calls env calls s ?l"
  have "c \<in> set ?all" using queue_invD(3) [OF assms(1), of c] assms(4)
    by (simp add: place_calls_def enrolled_def started_def)
  then obtain xs ys where split: "?all = xs @ c # ys" by (meson split_list)
  have dist: "distinct ?all" using queue_invD(4) [OF assms(1)] by (simp add: place_calls_def)
  have before: "d \<in> set xs" if d: "d \<in> set ?done" for d
  proof (rule ccontr)
    assume "d \<notin> set xs"
    moreover have "d \<in> set ?all" using list_emb_set [OF data_invD(5) [OF assms(3)] d] by auto
    moreover have "d \<noteq> c" using d assms(5) by (auto simp: place_commits_def)
    ultimately have "d \<in> set ys" using split by simp
    then obtain us vs where "ys = us @ d # vs" by (meson split_list)
    with split have "key_calls s ?l = (xs @ c # us) @ d # vs" using place_calls_key [OF assms(2), of ?l] by simp
    moreover have "started s d" using d data_invD(1) [OF assms(3)] by (simp add: place_commits_def)
    ultimately have "released s c"
      using before_started_released [of s None "xs @ c # us" d vs c] queue_invD(5) [OF assms(1), of ?l] by simp
    with assms(4) show False by (simp add: released_def)
  qed
  have "subseq (filter (\<lambda>d. d \<in> set xs) ?done) (filter (\<lambda>d. d \<in> set xs) ?all)"
    using data_invD(5) [OF assms(3)] by (rule subseq_filter)
  moreover have "filter (\<lambda>d. d \<in> set xs) ?done = ?done" using before by (simp add: filter_id_conv)
  moreover have "filter (\<lambda>d. d \<in> set xs) ?all = xs" using dist split by (auto simp: filter_empty_conv)
  ultimately have "subseq ?done xs" by simp
  then show ?thesis unfolding split by (intro list_emb_append_mono) simp_all
qed

lemma data_commit:
  assumes "queue_inv s" and "key_inv env calls files s" and "data_inv nfkc env calls files s"
    and "fq_status s c = Some Running" and "c \<notin> set (fq_commits s)"
    and "tool_result nfkc (qc_work (calls c)) (fq_content s (place env calls c)) = Inr t"
  shows "data_inv nfkc env calls files (write_file (place env calls c) c t s)"
proof -
  let ?l = "place env calls c"
  let ?t = "write_file ?l c t s"
  have commits: "place_commits env calls ?t l = (if l = ?l then place_commits env calls s l @ [c] else place_commits env calls s l)" for l
    by (simp add: place_commits_def write_file_def)
  have same: "place_calls env calls ?t l = place_calls env calls s l" for l by (simp add: place_calls_def write_file_def)
  show ?thesis
  proof (rule data_invI)
    show "started ?t x" if "x \<in> set (fq_commits ?t)" for x
      using data_invD(1) [OF assms(3), of x] that assms(4) by (auto simp: write_file_def started_def)
    show "started ?t x" if "fq_snapshot ?t x \<noteq> None" for x
      using data_invD(2) [OF assms(3), of x] that by (simp add: write_file_def started_def)
    show "fq_content ?t (place env calls x) = Some u"
      if x: "fq_status ?t x = Some Running" "fq_snapshot ?t x = Some u" "x \<notin> set (fq_commits ?t)" for x u
    proof -
      have "x \<noteq> c" "fq_status s x = Some Running" using x by (auto simp: write_file_def)
      then have "place env calls x \<noteq> ?l" using place_exclusive [OF assms(1,2) _ assms(4)] by blast
      then show ?thesis using data_invD(3) [OF assms(3), of x u] x by (simp add: write_file_def)
    qed
    show "replay_calls nfkc calls (files l) (place_commits env calls ?t l) = Inr (fq_content ?t l)" for l
      using data_invD(4) [OF assms(3), of l] assms(6)
      by (simp add: commits) (auto simp: write_file_def replay_calls_def rfold_append)
    show "subseq (place_commits env calls ?t l) (place_calls env calls ?t l)" for l
      using commit_position [OF assms(1-5)] data_invD(5) [OF assms(3), of l] by (simp add: commits same)
  qed
qed

lemma data_step:
  assumes "queue_step nfkc env calls s t" and "queue_inv s" and "key_inv env calls files s" and "data_inv nfkc env calls files s"
  shows "data_inv nfkc env calls files t"
  using assms(1)
proof cases
  case (call c)
  have "started t x \<longleftrightarrow> started s x" for x using call by (auto simp: withFileMutationQueue_def started_def)
  then show ?thesis using call
    by (intro data_inv_change [OF assms(4)]) (auto simp: withFileMutationQueue_def split: if_splits)
next
  case (resolve c rest)
  then show ?thesis by (intro data_inv_change [OF assms(4)]) (auto simp: resolve_key_def started_def)
next
  case (resolve_failed c rest err)
  then show ?thesis by (intro data_inv_change [OF assms(4)]) (auto simp: resolve_key_def started_def)
next
  case (register c rest key)
  have "started t x \<longleftrightarrow> started s x" "fq_status t x = Some Running \<Longrightarrow> fq_status s x = Some Running" for x
    using register registering(1) [OF assms(2) register(2)]
    by (auto simp: register_call_def started_def split: sum.splits if_splits)
  then show ?thesis using register
    by (intro data_inv_change [OF assms(4)]) (auto simp: register_call_def split: sum.splits)
next
  case (start c)
  have "started t x" "fq_status t x = Some Running \<Longrightarrow> fq_status s x = Some Running" if "started s x" for x
    using start that by (auto simp: start_call_def started_def split: if_splits)
  then show ?thesis using start by (intro data_inv_change [OF assms(4)]) (auto simp: start_call_def)
next
  case (read c)
  then show ?thesis using data_read [OF assms(4)] by simp
next
  case (commit c content u)
  then show ?thesis using data_commit [OF assms(2-4), of c u] data_invD(3) [OF assms(4), of c content] by simp
next
  case (commit_unread c u)
  then show ?thesis using data_commit [OF assms(2-4), of c u] by (simp add: tool_result_def)
next
  case (finish c)
  have "started t x" "fq_status t x = Some Running \<Longrightarrow> fq_status s x = Some Running" if "started s x" for x
    using finish that by (auto simp: finish_call_def started_def split: if_splits)
  then show ?thesis using finish by (intro data_inv_change [OF assms(4)]) (auto simp: finish_call_def)
qed

lemma reachable_data:
  assumes "queue_reachable nfkc env calls files s" and "settled_paths env calls files"
  shows "key_inv env calls files s \<and> data_inv nfkc env calls files s"
  using assms(1)
proof (induction rule: queue_reachable.induct)
  case init
  have "data_inv nfkc env calls files (initial_queue files)"
    by (rule data_invI) (auto simp: initial_queue_def place_commits_def place_calls_def replay_calls_def started_def)
  then show ?case by (auto simp: key_inv_def initial_queue_def)
next
  case (step s s')
  then show ?case using data_step key_inv_step [OF step(2) assms(2)] reachable_inv by blast
qed

text \<open>C29. Let the path of every call be canonical already or lead to a file that exists from the start. However
  the calls of the edit and write tools interleave, and whatever paths lead to a file, its content is that of
  the calls that wrote it run one after the other in the order they registered, each on what the one before
  it left: no update is lost. Reading and writing a file are atomic, and only the tools write.\<close>

theorem concurrent_edits_serialize:
  assumes "queue_reachable nfkc env calls files s" and "settled_paths env calls files"
  shows "replay_calls nfkc calls (files l) (place_commits env calls s l) = Inr (fq_content s l) \<and>
    subseq (place_commits env calls s l) (place_calls env calls s l)"
  using data_invD(4,5) [OF reachable_data [OF assms, THEN conjunct2]] by blast


section \<open>Runs\<close>

text \<open>
  Directory \<open>d\<close> is a link to \<open>r\<close>: the paths \<open>d/f\<close> and \<open>r/f\<close> lead to one file. Call 0 edits it through the
  link, call 1 overwrites it.
\<close>

definition link_env :: file_env where
  "link_env = \<lparr> fe_absolutePath = Inr, fe_location = (\<lambda>p. if p = ''d/f'' then ''r/f'' else p) \<rparr>"

definition sample_calls :: "nat \<Rightarrow> queued_call" where
  "sample_calls c =
     (if c = 0 then \<lparr> qc_path = ''d/f'', qc_work = EditWork [\<lparr> ed_oldText = [97], ed_newText = [98] \<rparr>] \<rparr>
      else \<lparr> qc_path = ''r/f'', qc_work = WriteWork [99] \<rparr>)"

definition sample_files :: files where
  "sample_files = (\<lambda>_. None)(''r/f'' \<mapsto> [97])"

definition sample_queue :: file_queue where
  "sample_queue = start_call 0 (register_call 1 (Inr ''r/f'') (resolve_key 1 (Inr ''r/f'')
     (register_call 0 (Inr ''r/f'') (resolve_key 0 (Inr ''r/f'')
       (withFileMutationQueue 1 (withFileMutationQueue 0 (initial_queue sample_files)))))))"

lemmas queue_eval = start_call_def register_call_def resolve_key_def withFileMutationQueue_def initial_queue_def
  read_file_def write_file_def finish_call_def current_resolved_def released_def getMutationQueueKey_def
  env_canonicalPath_def place_def

lemma resolve_to:
  assumes "fq_registration s = c # rest" and "fq_resolved s c = None"
    and "getMutationQueueKey (fe_absolutePath env) (env_canonicalPath env (fq_content s)) (qc_path (calls c)) = key"
  shows "queue_step nfkc env calls s (resolve_key c key s)"
  using queue_step.resolve [OF assms(1,2), of nfkc env calls] unfolding assms(3) .

lemma sample_queue_reachable: "queue_reachable id link_env sample_calls sample_files sample_queue"
  unfolding sample_queue_def
  by (intro queue_reachable.step [OF _ queue_step.start] queue_reachable.step [OF _ queue_step.register]
      queue_reachable.step [OF _ resolve_to] queue_reachable.step [OF _ queue_step.call] queue_reachable.init)
    (simp_all add: queue_eval sample_files_def link_env_def sample_calls_def)

theorem file_calls_exclusive_witness:
  "\<exists>s. fq_status s 1 = Some Running \<and> key_calls s ''r/f'' = [0] @ 1 # [] \<and> fq_status s 0 = Some Released"
proof (intro exI conjI)
  let ?s = "start_call 1 (finish_call 0 sample_queue)"
  have "queue_step id link_env sample_calls sample_queue (finish_call 0 sample_queue)"
    by (rule queue_step.finish) (simp add: queue_eval sample_queue_def)
  moreover have "queue_step id link_env sample_calls (finish_call 0 sample_queue) ?s"
    by (rule queue_step.start) (simp_all add: queue_eval sample_queue_def)
  ultimately have "queue_reachable id link_env sample_calls sample_files ?s"
    using sample_queue_reachable queue_reachable.step by metis
  note exclusive = file_calls_exclusive [OF this, THEN conjunct2, rule_format]
  show "fq_status ?s 1 = Some Running" "key_calls ?s ''r/f'' = [0] @ 1 # []"
    by (simp_all add: queue_eval key_calls_def sample_queue_def)
  then show "fq_status ?s 0 = Some Released"
    by (intro exclusive [of "''r/f''" "[0]" 1 "[]" 0]) (simp add: started_def)
qed

lemma sample_edit: "edit_content id [97] [\<lparr> ed_oldText = [97], ed_newText = [98] \<rparr>] = Inr [98]"
  by (simp add: edit_content_def stripBom_def detectLineEnding_def restoreLineEndings_def edit_eval)

theorem concurrent_edits_serialize_witness:
  "\<exists>s. fq_content s ''r/f'' = Some [98] \<and> place_commits link_env sample_calls s ''r/f'' = [0] \<and>
     place_calls link_env sample_calls s ''r/f'' = [0, 1] \<and>
     replay_calls id sample_calls (sample_files ''r/f'') [0] = Inr (fq_content s ''r/f'')"
proof -
  let ?r = "read_file ''r/f'' 0 sample_queue"
  let ?s = "write_file ''r/f'' 0 [98] ?r"
  have place: "place link_env sample_calls c = ''r/f''" for c
    by (simp add: place_def link_env_def sample_calls_def)
  have read: "queue_step id link_env sample_calls sample_queue ?r"
    using queue_step.read [of sample_queue 0 id link_env sample_calls]
    unfolding place by (simp add: queue_eval sample_queue_def)
  have commit: "queue_step id link_env sample_calls ?r ?s"
    using queue_step.commit [of ?r 0 "[97]" id sample_calls "[98]" link_env]
    unfolding place by (simp add: tool_result_def sample_calls_def sample_edit queue_eval sample_queue_def sample_files_def)
  have "queue_reachable id link_env sample_calls sample_files ?s"
    by (rule queue_reachable.step [OF queue_reachable.step [OF sample_queue_reachable read] commit])
  moreover have "settled_paths link_env sample_calls sample_files"
    by (simp add: settled_paths_def place) (simp add: link_env_def sample_files_def)
  ultimately have "replay_calls id sample_calls (sample_files ''r/f'') (place_commits link_env sample_calls ?s ''r/f'')
      = Inr (fq_content ?s ''r/f'')"
    by (rule concurrent_edits_serialize [THEN conjunct1])
  then show ?thesis
    by (intro exI [of _ ?s]) (simp add: place place_commits_def place_calls_def, simp add: queue_eval sample_queue_def)
qed

text \<open>
  The hypothesis on the paths is needed. The file \<open>d/f\<close> does not exist at first: calls 0 and 1 queue under
  \<open>d/f\<close>. Call 0 creates it, so call 2 queues under its canonical path \<open>r/f\<close> and does not wait for call 1. Both run
  on one file; call 2 edits what it read before call 1 wrote, and the write of call 1 is lost.
\<close>

definition link_calls :: "nat \<Rightarrow> queued_call" where
  "link_calls c = \<lparr> qc_path = ''d/f'', qc_work =
     (if c = 0 then WriteWork [97] else if c = 1 then WriteWork [99]
      else EditWork [\<lparr> ed_oldText = [97], ed_newText = [98] \<rparr>]) \<rparr>"

definition link_created :: file_queue where
  "link_created = finish_call 0 (write_file ''r/f'' 0 [97] (start_call 0
     (register_call 1 (Inr ''d/f'') (resolve_key 1 (Inr ''d/f'')
     (register_call 0 (Inr ''d/f'') (resolve_key 0 (Inr ''d/f'')
     (withFileMutationQueue 1 (withFileMutationQueue 0 (initial_queue (\<lambda>_. None))))))))))"

definition link_both :: file_queue where
  "link_both = start_call 2 (register_call 2 (Inr ''r/f'') (resolve_key 2 (Inr ''r/f'')
     (withFileMutationQueue 2 (start_call 1 link_created))))"

definition link_lost :: file_queue where
  "link_lost = write_file ''r/f'' 2 [98] (write_file ''r/f'' 1 [99] (read_file ''r/f'' 2 link_both))"

lemma link_place: "place link_env link_calls c = ''r/f''"
  by (simp add: place_def link_env_def link_calls_def)

lemmas link_steps = queue_step.read [where env = link_env and calls = link_calls, unfolded link_place]
  queue_step.commit [where env = link_env and calls = link_calls, unfolded link_place]
  queue_step.commit_unread [where env = link_env and calls = link_calls, unfolded link_place]

lemma link_created_reachable: "queue_reachable id link_env link_calls (\<lambda>_. None) link_created"
  unfolding link_created_def
  by (intro queue_reachable.step [OF _ queue_step.finish] queue_reachable.step [OF _ link_steps(3)]
      queue_reachable.step [OF _ queue_step.start] queue_reachable.step [OF _ queue_step.register]
      queue_reachable.step [OF _ resolve_to] queue_reachable.step [OF _ queue_step.call] queue_reachable.init)
    (simp_all add: queue_eval link_env_def link_calls_def)

lemma link_both_reachable: "queue_reachable id link_env link_calls (\<lambda>_. None) link_both"
  unfolding link_both_def
  by (intro queue_reachable.step [OF _ queue_step.start] queue_reachable.step [OF _ queue_step.register]
      queue_reachable.step [OF _ resolve_to] queue_reachable.step [OF _ queue_step.call] link_created_reachable)
    (simp_all add: queue_eval link_env_def link_calls_def link_created_def)

lemma update_lost_behind_link:
  "queue_reachable id link_env link_calls (\<lambda>_. None) link_lost \<and>
   place_commits link_env link_calls link_lost ''r/f'' = [0, 1, 2] \<and>
   fq_content link_lost ''r/f'' = Some [98] \<and>
   replay_calls id link_calls None [0, 1] = Inr (Some [99]) \<and>
   replay_calls id link_calls None [0, 1, 2] \<noteq> Inr (fq_content link_lost ''r/f'')"
proof (intro conjI)
  show "queue_reachable id link_env link_calls (\<lambda>_. None) link_lost"
    unfolding link_lost_def
    by (intro queue_reachable.step [OF _ link_steps(2) [where content = "[97]"]] queue_reachable.step [OF _ link_steps(3)]
        queue_reachable.step [OF _ link_steps(1)] link_both_reachable)
      (simp_all add: link_calls_def tool_result_def sample_edit, simp_all add: queue_eval link_both_def link_created_def)
  show "place_commits link_env link_calls link_lost ''r/f'' = [0, 1, 2]"
    by (simp add: place_commits_def link_place) (simp add: link_lost_def link_both_def link_created_def queue_eval)
  show content: "fq_content link_lost ''r/f'' = Some [98]" by (simp add: link_lost_def queue_eval)
  show "replay_calls id link_calls None [0, 1] = Inr (Some [99])"
    by (simp add: replay_calls_def tool_result_def link_calls_def)
  show "replay_calls id link_calls None [0, 1, 2] \<noteq> Inr (fq_content link_lost ''r/f'')"
    unfolding content
    by (simp add: replay_calls_def tool_result_def link_calls_def edit_content_def stripBom_def detectLineEnding_def
        restoreLineEndings_def edit_eval)
qed

end
