(* ===== verification/Server_Protocol.thy ===== *)
theory Server_Protocol
  imports Json_Payload Session_Types Json_Text
begin

text \<open>
  \<^verbatim>\<open>packages/server/src/protocol.ts\<close>: the conversion of messages, tool calls and models of the execution side into
  the items that clients see, with the schemas of \<^verbatim>\<open>packages/protocol/src/schemas.ts\<close> they have to meet as
  predicates. Numbers are JavaScript numbers, so that NaN, infinities and fractions reach the code. Arguments
  and details of tools are values in a heap, where they may be cyclic.
\<close>

section \<open>Loops that may throw\<close>

fun rmap :: "('a \<Rightarrow> 'e + 'b) \<Rightarrow> 'a list \<Rightarrow> 'e + 'b list" where
  "rmap f [] = Inr []"
| "rmap f (x # xs) = rbind (f x) (\<lambda>y. rbind (rmap f xs) (\<lambda>ys. Inr (y # ys)))"

lemma rmap_cong [fundef_cong]: "xs = ys \<Longrightarrow> (\<And>x. x \<in> set ys \<Longrightarrow> f x = g x) \<Longrightarrow> rmap f xs = rmap g ys"
  by (induction ys arbitrary: xs) auto

lemma rmap_Inr_iff: "rmap f xs = Inr ys \<longleftrightarrow> list_all2 (\<lambda>x y. f x = Inr y) xs ys"
  by (induction xs arbitrary: ys) (auto simp: rbind_Inr_iff list_all2_Cons1)

lemma rmap_succeeds: "(\<exists>ys. rmap f xs = Inr ys) \<longleftrightarrow> (\<forall>x \<in> set xs. \<exists>y. f x = Inr y)"
  by (induction xs) (auto simp: rbind_Inr_iff)

lemma rmap_pure: "rmap (\<lambda>x. Inr (g x)) xs = Inr (map g xs)"
  by (induction xs) auto

lemma rmap_all:
  assumes "rmap f xs = Inr ys" and "\<And>x y. x \<in> set xs \<Longrightarrow> f x = Inr y \<Longrightarrow> P y"
  shows "\<forall>y \<in> set ys. P y"
  using assms
proof (induction xs arbitrary: ys)
  case (Cons x xs)
  then obtain y zs where "f x = Inr y" "rmap f xs = Inr zs" "ys = y # zs" by (auto simp: rbind_Inr_iff)
  moreover from this have "P y" using Cons.prems(2) [of x y] by simp
  moreover have "\<forall>z \<in> set zs. P z" by (rule Cons.IH) (use Cons.prems(2) calculation(2) in auto)
  ultimately show ?case by simp
qed simp

section \<open>Numbers and identifiers\<close>

datatype protocol_error =
    NotAnIdentifier string | BadTimestamp | NonFiniteJson | UnsupportedJson string | CircularJson | NotPlainObject
  | DanglingReference | DeferredUnsupported | EmptyErrorMessage | CallIdMismatch | CallNameMismatch | InvalidDate

definition js_floor :: "js_num \<Rightarrow> int" where
  "js_floor n = (case n of NInt i \<Rightarrow> i
     | NFloat w \<Rightarrow> if f64_negative w \<and> \<not> f64_is_integer w then f64_int w - 1 else f64_int w)"

definition nonNegativeInteger :: "js_num option \<Rightarrow> int option" where
  "nonNegativeInteger value' =
     (case value' of None \<Rightarrow> None | Some n \<Rightarrow> if \<not> js_isFinite n then None else Some (max 0 (js_floor n)))"

text \<open>\<^verbatim>\<open>Math.max(0, value)\<close> is 0 for negative values and for \<open>-0\<close>.\<close>

definition nonNegativeNumber :: "js_num \<Rightarrow> js_num" where
  "nonNegativeNumber n =
     (if js_isFinite n then (case n of NInt i \<Rightarrow> NInt (max 0 i) | NFloat w \<Rightarrow> if f64_negative w then NInt 0 else NFloat w)
      else NInt 0)"

definition protocol_identifier :: "js_string \<Rightarrow> string \<Rightarrow> protocol_error + js_string" where
  "protocol_identifier value' label = (if length value' = 0 then Inl (NotAnIdentifier label) else Inr value')"

definition protocol_timestamp :: "js_num \<Rightarrow> protocol_error + js_num" where
  "protocol_timestamp n = (if \<not> js_isSafeInteger n \<or> js_int n < 0 then Inl BadTimestamp else Inr n)"

section \<open>Protocol JSON\<close>

text \<open>
  The JSON value that is built. An object keeps its prototype: writing the property \<^verbatim>\<open>__proto__\<close> of a plain object
  sets its prototype when the value is an object or null, and does nothing otherwise.
\<close>

datatype protocol_json =
    PNull
  | PBool bool
  | PNum js_num
  | PStr js_string
  | PArray "protocol_json list"
  | PObject proto "(js_string \<times> protocol_json) list"

definition proto_key :: js_string where
  "proto_key = js_ascii ''__proto__''"

fun assign_property ::
  "proto \<times> (js_string, protocol_json) js_map \<Rightarrow> js_string \<times> protocol_json \<Rightarrow> proto \<times> (js_string, protocol_json) js_map" where
  "assign_property (p, es) (k, t) =
     (if k = proto_key then
        (case t of PNull \<Rightarrow> (NullProto, es) | PArray ts \<Rightarrow> (OtherProto, es) | PObject q fs \<Rightarrow> (OtherProto, es) | _ \<Rightarrow> (p, es))
      else (p, map_set k t es))"

definition build_object :: "(js_string \<times> protocol_json) list \<Rightarrow> protocol_json" where
  "build_object es = (let (p, fs) = foldl assign_property (ObjectProto, []) es in PObject p fs)"

text \<open>\<^verbatim>\<open>Array.from\<close> reads a hole as undefined.\<close>

definition element_value :: "slot option \<Rightarrow> js_val" where
  "element_value x = (case x of None \<Rightarrow> VUndefined | Some s \<Rightarrow> slot_value s)"

lemma unseen_shrinks: "\<not> n \<le> a \<Longrightarrow> a \<notin> seen \<Longrightarrow> card ({..<n} - insert a seen) < card ({..<n} - (seen :: nat set))"
  by (rule psubset_card_mono) (simp, blast intro: not_le_imp_less)

text \<open>The heap has \<open>n\<close> objects. \<open>seen\<close> holds the objects on the path to the value.\<close>

function toProtocolJsonValue :: "heap \<Rightarrow> nat \<Rightarrow> addr set \<Rightarrow> js_val \<Rightarrow> protocol_error + protocol_json" where
  "toProtocolJsonValue h n seen v =
     (case v of
        VNull \<Rightarrow> Inr PNull
      | VStr s \<Rightarrow> Inr (PStr s)
      | VBool b \<Rightarrow> Inr (PBool b)
      | VNum m \<Rightarrow> if \<not> js_isFinite m then Inl NonFiniteJson else Inr (PNum m)
      | VUndefined \<Rightarrow> Inl (UnsupportedJson ''undefined'')
      | VOther t \<Rightarrow> Inl (UnsupportedJson t)
      | VBytes bytes \<Rightarrow> Inl NotPlainObject
      | VRef a \<Rightarrow>
          if n \<le> a then Inl DanglingReference
          else if a \<in> seen then Inl CircularJson
          else if \<not> o_isArray (h a) \<and> \<not> isPlainObject (h a) then Inl NotPlainObject
          else if o_isArray (h a) then
            rbind (rmap (\<lambda>x. toProtocolJsonValue h n (insert a seen) (element_value x)) (o_elems (h a))) (\<lambda>ts.
            Inr (PArray ts))
          else
            rbind (rmap (\<lambda>(k, s). rbind (toProtocolJsonValue h n (insert a seen) (slot_value s)) (\<lambda>t. Inr (k, t)))
              (o_props (h a))) (\<lambda>es.
            Inr (build_object es)))"
  by pat_completeness auto
termination
  by (relation "measure (\<lambda>(h, n, seen, v). card ({..<n} - seen))")
    (auto simp del: card_Diff_insert intro!: unseen_shrinks)

declare toProtocolJsonValue.simps [simp del]

section \<open>Sanitizing of details\<close>

text \<open>
  What \<^verbatim>\<open>String\<close> gives for a number that is not finite, the text of a bigint, and the dates of the heap: an
  object that is a \<^verbatim>\<open>Date\<close> has an ISO text, or none when it is not a valid date (\<^verbatim>\<open>toISOString\<close> throws).
\<close>

definition nonfinite_text :: "js_num \<Rightarrow> js_string" where
  "nonfinite_text n =
     (case n of NInt i \<Rightarrow> js_ascii (int_text i)
      | NFloat w \<Rightarrow> if f64_fraction w \<noteq> 0 then js_ascii ''NaN''
                    else if f64_negative w then js_ascii ''-Infinity'' else js_ascii ''Infinity'')"

record date_texts =
  date_iso :: "addr \<Rightarrow> js_string option option"
  bigint_text :: js_string

text \<open>The entries of a byte array: its indices with the bytes.\<close>

definition byte_entries :: "8 word list \<Rightarrow> (js_string \<times> protocol_json) list" where
  "byte_entries bytes = map (\<lambda>(i, b). (js_ascii (nat_text i), PNum (NInt (uint b)))) (enumerate 0 bytes)"

definition defined_pairs :: "(js_string \<times> protocol_json option) list \<Rightarrow> (js_string \<times> protocol_json) list" where
  "defined_pairs es = List.map_filter (\<lambda>(k, t). map_option (Pair k) t) es"

function sanitizeProtocolDetails ::
  "date_texts \<Rightarrow> heap \<Rightarrow> nat \<Rightarrow> addr set \<Rightarrow> js_val \<Rightarrow> protocol_error + protocol_json option" where
  "sanitizeProtocolDetails d h n seen v =
     (case v of
        VNull \<Rightarrow> Inr (Some PNull)
      | VStr s \<Rightarrow> Inr (Some (PStr s))
      | VBool b \<Rightarrow> Inr (Some (PBool b))
      | VNum m \<Rightarrow> Inr (Some (if js_isFinite m then PNum m else PStr (nonfinite_text m)))
      | VUndefined \<Rightarrow> Inr None
      | VOther t \<Rightarrow> Inr (if t = ''bigint'' then Some (PStr (bigint_text d)) else None)
      | VBytes bytes \<Rightarrow> Inr (Some (build_object (byte_entries bytes)))
      | VRef a \<Rightarrow>
          if n \<le> a then Inl DanglingReference
          else case date_iso d a of
            Some None \<Rightarrow> Inl InvalidDate
          | Some (Some s) \<Rightarrow> Inr (Some (PStr s))
          | None \<Rightarrow>
              if a \<in> seen then Inr (Some (PStr (js_ascii ''[Circular]'')))
              else if o_isArray (h a) then
                rbind (rmap (\<lambda>x. sanitizeProtocolDetails d h n (insert a seen) (element_value x)) (o_elems (h a))) (\<lambda>ts.
                Inr (Some (PArray (map (\<lambda>t. case t of None \<Rightarrow> PNull | Some u \<Rightarrow> u) ts))))
              else
                rbind (rmap (\<lambda>(k, s). rbind (sanitizeProtocolDetails d h n (insert a seen) (slot_value s)) (\<lambda>t. Inr (k, t)))
                  (o_props (h a))) (\<lambda>es.
                Inr (Some (build_object (defined_pairs es)))))"
  by pat_completeness auto
termination
  by (relation "measure (\<lambda>(d, h, n, seen, v). card ({..<n} - seen))")
    (auto simp del: card_Diff_insert intro!: unseen_shrinks)

declare sanitizeProtocolDetails.simps [simp del]

section \<open>Usage and models\<close>

record ai_cost =
  ac_input :: js_num
  ac_output :: js_num
  ac_cacheRead :: js_num
  ac_cacheWrite :: js_num
  ac_total :: js_num

record ai_usage =
  au_input :: js_num
  au_output :: js_num
  au_cacheRead :: js_num
  au_cacheWrite :: js_num
  au_reasoning :: "js_num option"
  au_totalTokens :: js_num
  au_cost :: ai_cost

record protocol_usage =
  pu_input :: int
  pu_output :: int
  pu_cacheRead :: int
  pu_cacheWrite :: int
  pu_reasoning :: "int option"
  pu_totalTokens :: int
  pu_cost :: ai_cost

definition integer_or_zero :: "js_num \<Rightarrow> int" where
  "integer_or_zero n = (case nonNegativeInteger (Some n) of None \<Rightarrow> 0 | Some i \<Rightarrow> i)"

definition toProtocolUsage :: "ai_usage option \<Rightarrow> protocol_usage option" where
  "toProtocolUsage usage =
     (case usage of None \<Rightarrow> None
      | Some u \<Rightarrow>
          Some \<lparr> pu_input = integer_or_zero (au_input u), pu_output = integer_or_zero (au_output u),
            pu_cacheRead = integer_or_zero (au_cacheRead u), pu_cacheWrite = integer_or_zero (au_cacheWrite u),
            pu_reasoning = nonNegativeInteger (au_reasoning u), pu_totalTokens = integer_or_zero (au_totalTokens u),
            pu_cost = \<lparr> ac_input = nonNegativeNumber (ac_input (au_cost u)), ac_output = nonNegativeNumber (ac_output (au_cost u)),
              ac_cacheRead = nonNegativeNumber (ac_cacheRead (au_cost u)),
              ac_cacheWrite = nonNegativeNumber (ac_cacheWrite (au_cost u)), ac_total = nonNegativeNumber (ac_total (au_cost u)) \<rparr> \<rparr>)"

datatype thinking_level = LevelOff | Minimal | Low | Medium | High | Xhigh | Max

definition EXTENDED_THINKING_LEVELS :: "thinking_level list" where
  "EXTENDED_THINKING_LEVELS = [LevelOff, Minimal, Low, Medium, High, Xhigh, Max]"

text \<open>The entry of a level in \<^verbatim>\<open>thinkingLevelMap\<close>: absent, null or a provider's name for the level.\<close>

datatype level_mapping = LevelAbsent | LevelNull | LevelName js_string

record ai_model =
  mo_provider :: js_string
  mo_id :: js_string
  mo_name :: js_string
  mo_api :: js_string
  mo_reasoning :: bool
  mo_thinkingLevelMap :: "thinking_level \<Rightarrow> level_mapping"
  mo_input :: "string list"
  mo_contextWindow :: js_num
  mo_maxTokens :: js_num
  mo_cost_input :: js_num
  mo_cost_output :: js_num
  mo_cost_cacheRead :: js_num
  mo_cost_cacheWrite :: js_num

definition getSupportedThinkingLevels :: "ai_model \<Rightarrow> thinking_level list" where
  "getSupportedThinkingLevels model =
     (if \<not> mo_reasoning model then [LevelOff]
      else filter (\<lambda>level.
        let mapped = mo_thinkingLevelMap model level in
        if mapped = LevelNull then False
        else if level = Xhigh \<or> level = Max then mapped \<noteq> LevelAbsent
        else True) EXTENDED_THINKING_LEVELS)"

text \<open>The first level of \<open>levels\<close> that is available.\<close>

definition first_available :: "thinking_level list \<Rightarrow> thinking_level list \<Rightarrow> thinking_level option" where
  "first_available available levels = List.find (\<lambda>level. level \<in> set available) levels"

definition level_index :: "thinking_level \<Rightarrow> nat" where
  "level_index level = (case level of LevelOff \<Rightarrow> 0 | Minimal \<Rightarrow> 1 | Low \<Rightarrow> 2 | Medium \<Rightarrow> 3 | High \<Rightarrow> 4 | Xhigh \<Rightarrow> 5 | Max \<Rightarrow> 6)"

definition clampThinkingLevel :: "ai_model \<Rightarrow> thinking_level \<Rightarrow> thinking_level" where
  "clampThinkingLevel model level =
     (let available = getSupportedThinkingLevels model; requested = level_index level in
      if level \<in> set available then level
      else case first_available available (drop requested EXTENDED_THINKING_LEVELS) of
        Some candidate \<Rightarrow> candidate
      | None \<Rightarrow>
          (case first_available available (rev (take requested EXTENDED_THINKING_LEVELS)) of
             Some candidate \<Rightarrow> candidate
           | None \<Rightarrow> (case available of [] \<Rightarrow> LevelOff | first # rest \<Rightarrow> first)))"

record model_metadata =
  mm_provider :: js_string
  mm_id :: js_string
  mm_name :: js_string
  mm_api :: js_string
  mm_reasoning :: bool
  mm_input :: "string list"
  mm_contextWindow :: js_num
  mm_maxTokens :: js_num
  mm_cost_input :: js_num
  mm_cost_output :: js_num
  mm_cost_cacheRead :: js_num
  mm_cost_cacheWrite :: js_num
  mm_supportedThinkingLevels :: "thinking_level list"
  mm_authenticated :: bool

text \<open>\<^verbatim>\<open>Math.max(1, Math.floor(value))\<close>: NaN and positive infinity stay what they are.\<close>

definition at_least_one :: "js_num \<Rightarrow> js_num" where
  "at_least_one n =
     (if js_isFinite n then NInt (max 1 (js_floor n))
      else case n of NInt i \<Rightarrow> NInt (max 1 i)
        | NFloat w \<Rightarrow> if f64_fraction w = 0 \<and> f64_negative w then NInt 1 else NFloat w)"

definition toProtocolModelMetadata :: "ai_model \<Rightarrow> bool \<Rightarrow> protocol_error + model_metadata" where
  "toProtocolModelMetadata model authenticated =
     rbind (protocol_identifier (mo_provider model) ''Model provider'') (\<lambda>provider.
     rbind (protocol_identifier (mo_id model) ''Model id'') (\<lambda>ident.
     rbind (protocol_identifier (mo_name model) ''Model name'') (\<lambda>name.
     rbind (protocol_identifier (mo_api model) ''Model API'') (\<lambda>api.
     Inr \<lparr> mm_provider = provider, mm_id = ident, mm_name = name, mm_api = api, mm_reasoning = mo_reasoning model,
       mm_input = mo_input model, mm_contextWindow = at_least_one (mo_contextWindow model),
       mm_maxTokens = at_least_one (mo_maxTokens model),
       mm_cost_input = nonNegativeNumber (mo_cost_input model), mm_cost_output = nonNegativeNumber (mo_cost_output model),
       mm_cost_cacheRead = nonNegativeNumber (mo_cost_cacheRead model),
       mm_cost_cacheWrite = nonNegativeNumber (mo_cost_cacheWrite model),
       mm_supportedThinkingLevels = getSupportedThinkingLevels model, mm_authenticated = authenticated \<rparr>))))"

section \<open>Messages\<close>

record ai_tool_call =
  at_id :: js_string
  at_name :: js_string
  at_arguments :: js_val

datatype ai_media = AiText js_string | AiImage js_string js_string

datatype ai_user_content = AiString js_string | AiParts "ai_media list"

datatype ai_assistant_part = AiAssistantText js_string | AiThinking js_string "bool option" | AiToolCall ai_tool_call

record ai_assistant_message =
  aa_content :: "ai_assistant_part list"
  aa_provider :: js_string
  aa_model :: js_string
  aa_responseModel :: "js_string option"
  aa_usage :: "ai_usage option"
  aa_stopReason :: stop_reason
  aa_errorMessage :: "js_string option"
  aa_timestamp :: js_num

record ai_tool_result =
  ar_toolCallId :: js_string
  ar_toolName :: js_string
  ar_content :: "ai_media list"
  ar_details :: js_val
  ar_usage :: "ai_usage option"
  ar_isError :: bool
  ar_timestamp :: js_num

datatype media_item = TextItem js_string | ImageItem js_string js_string

datatype assistant_content =
    AssistantText js_string
  | AssistantThinking js_string "bool option"
  | AssistantToolCall js_string js_string protocol_json  \<comment> \<open>toolCallId, toolName, input\<close>

datatype complete_reason = ReasonStop | ReasonLength | ReasonToolUse

datatype item_status =
    Streaming
  | Complete complete_reason
  | ErrorStatus "js_string option"
  | AbortedStatus "js_string option"

record user_item =
  ui_id :: js_string
  ui_content :: "media_item list"
  ui_timestamp :: js_num

record assistant_item =
  ai_id :: js_string
  ai_content :: "assistant_content list"
  ai_model_provider :: js_string
  ai_model_id :: js_string
  ai_responseModel :: "js_string option"
  ai_usage_of :: "protocol_usage option"
  ai_timestamp :: js_num
  ai_status :: item_status

datatype tool_status = ToolRunning | ToolComplete | ToolError

record tool_item =
  ti_id :: js_string
  ti_toolCallId :: js_string
  ti_toolName :: js_string
  ti_input :: protocol_json
  ti_content :: "media_item list"
  ti_details :: "protocol_json option"
  ti_usage :: "protocol_usage option"
  ti_timestamp :: js_num
  ti_status :: tool_status
  ti_isError :: bool

fun media_item_of :: "ai_media \<Rightarrow> media_item" where
  "media_item_of (AiText t) = TextItem t"
| "media_item_of (AiImage d mime) = ImageItem d mime"

definition toProtocolUserContent :: "ai_user_content \<Rightarrow> media_item list" where
  "toProtocolUserContent content = (case content of AiString t \<Rightarrow> [TextItem t] | AiParts parts \<Rightarrow> map media_item_of parts)"

definition toProtocolUserMessage :: "ai_user_content \<Rightarrow> js_num \<Rightarrow> js_string \<Rightarrow> protocol_error + user_item" where
  "toProtocolUserMessage content time ident =
     rbind (protocol_identifier ident ''Transcript item id'') (\<lambda>i.
     rbind (protocol_timestamp time) (\<lambda>t.
     Inr \<lparr> ui_id = i, ui_content = toProtocolUserContent content, ui_timestamp = t \<rparr>))"

definition assistant_part :: "heap \<Rightarrow> nat \<Rightarrow> ai_assistant_part \<Rightarrow> protocol_error + assistant_content" where
  "assistant_part h n part =
     (case part of
        AiAssistantText t \<Rightarrow> Inr (AssistantText t)
      | AiThinking t redacted \<Rightarrow> Inr (AssistantThinking t redacted)
      | AiToolCall call \<Rightarrow>
          rbind (protocol_identifier (at_id call) ''Tool call id'') (\<lambda>i.
          rbind (protocol_identifier (at_name call) ''Tool call name'') (\<lambda>name.
          rbind (toProtocolJsonValue h n {} (at_arguments call)) (\<lambda>input. Inr (AssistantToolCall i name input)))))"

definition toProtocolAssistantContent :: "heap \<Rightarrow> nat \<Rightarrow> ai_assistant_part list \<Rightarrow> protocol_error + assistant_content list" where
  "toProtocolAssistantContent h n = rmap (assistant_part h n)"

definition optional_identifier :: "js_string option \<Rightarrow> string \<Rightarrow> protocol_error + js_string option" where
  "optional_identifier value' label =
     (case value' of None \<Rightarrow> Inr None | Some s \<Rightarrow> rbind (protocol_identifier s label) (\<lambda>t. Inr (Some t)))"

definition assistant_status :: "stop_reason \<Rightarrow> js_string option \<Rightarrow> protocol_error + item_status" where
  "assistant_status reason errorMessage =
     (case reason of
        Pending \<Rightarrow> Inr Streaming
      | Stop \<Rightarrow> Inr (Complete ReasonStop)
      | Length \<Rightarrow> Inr (Complete ReasonLength)
      | ToolUse \<Rightarrow> Inr (Complete ReasonToolUse)
      | Deferred \<Rightarrow> Inl DeferredUnsupported
      | Error \<Rightarrow> if errorMessage = Some [] then Inl EmptyErrorMessage else Inr (ErrorStatus errorMessage)
      | Aborted \<Rightarrow> Inr (AbortedStatus errorMessage))"

definition toProtocolAssistantMessage ::
  "heap \<Rightarrow> nat \<Rightarrow> ai_assistant_message \<Rightarrow> js_string \<Rightarrow> protocol_error + assistant_item" where
  "toProtocolAssistantMessage h n m ident =
     rbind (protocol_identifier ident ''Transcript item id'') (\<lambda>i.
     rbind (toProtocolAssistantContent h n (aa_content m)) (\<lambda>content.
     rbind (protocol_identifier (aa_provider m) ''Assistant provider'') (\<lambda>provider.
     rbind (protocol_identifier (aa_model m) ''Assistant model'') (\<lambda>model.
     rbind (optional_identifier (aa_responseModel m) ''Assistant response model'') (\<lambda>responseModel.
     rbind (protocol_timestamp (aa_timestamp m)) (\<lambda>t.
     rbind (assistant_status (aa_stopReason m) (aa_errorMessage m)) (\<lambda>status.
     Inr \<lparr> ai_id = i, ai_content = content, ai_model_provider = provider, ai_model_id = model,
       ai_responseModel = responseModel, ai_usage_of = toProtocolUsage (aa_usage m), ai_timestamp = t,
       ai_status = status \<rparr>)))))))"

definition toProtocolToolResultMessage ::
  "date_texts \<Rightarrow> heap \<Rightarrow> nat \<Rightarrow> ai_tool_result \<Rightarrow> ai_tool_call \<Rightarrow> js_string \<Rightarrow> protocol_error + tool_item" where
  "toProtocolToolResultMessage d h n m call ident =
     rbind (protocol_identifier (at_id call) ''Tool call id'') (\<lambda>callId.
     rbind (protocol_identifier (at_name call) ''Tool call name'') (\<lambda>callName.
     rbind (protocol_identifier (ar_toolCallId m) ''Tool result call id'') (\<lambda>resultId.
     rbind (ensure (resultId = callId) CallIdMismatch) (\<lambda>_.
     rbind (protocol_identifier (ar_toolName m) ''Tool result name'') (\<lambda>resultName.
     rbind (ensure (resultName = callName) CallNameMismatch) (\<lambda>_.
     rbind (sanitizeProtocolDetails d h n {} (ar_details m)) (\<lambda>details.
     rbind (protocol_identifier ident ''Transcript item id'') (\<lambda>i.
     rbind (toProtocolJsonValue h n {} (at_arguments call)) (\<lambda>input.
     rbind (protocol_timestamp (ar_timestamp m)) (\<lambda>t.
     Inr \<lparr> ti_id = i, ti_toolCallId = callId, ti_toolName = callName, ti_input = input,
       ti_content = map media_item_of (ar_content m), ti_details = details, ti_usage = toProtocolUsage (ar_usage m),
       ti_timestamp = t, ti_status = (if ar_isError m then ToolError else ToolComplete),
       ti_isError = ar_isError m \<rparr>))))))))))"

section \<open>Schemas\<close>

definition IdSchema :: "js_string \<Rightarrow> bool" where
  "IdSchema s \<longleftrightarrow> s \<noteq> []"

definition TimestampSchema :: "js_num \<Rightarrow> bool" where
  "TimestampSchema n \<longleftrightarrow> js_isInteger n \<and> 0 \<le> js_int n"

text \<open>\<^verbatim>\<open>Type.Number({ minimum: 0 })\<close>.\<close>

definition CostSchema :: "js_num \<Rightarrow> bool" where
  "CostSchema n \<longleftrightarrow> (case n of NInt i \<Rightarrow> 0 \<le> i | NFloat w \<Rightarrow> f64_finite w \<and> (\<not> f64_negative w \<or> w = f64_neg_zero))"

fun JsonValueSchema :: "protocol_json \<Rightarrow> bool" where
  "JsonValueSchema (PNum m) \<longleftrightarrow> js_isFinite m"
| "JsonValueSchema (PArray ts) \<longleftrightarrow> (\<forall>t \<in> set ts. JsonValueSchema t)"
| "JsonValueSchema (PObject p es) \<longleftrightarrow> (\<forall>e \<in> set es. JsonValueSchema (snd e))"
| "JsonValueSchema _ \<longleftrightarrow> True"

definition UsageSchema :: "protocol_usage \<Rightarrow> bool" where
  "UsageSchema u \<longleftrightarrow> 0 \<le> pu_input u \<and> 0 \<le> pu_output u \<and> 0 \<le> pu_cacheRead u \<and> 0 \<le> pu_cacheWrite u \<and>
     pred_option (\<lambda>r. 0 \<le> r) (pu_reasoning u) \<and> 0 \<le> pu_totalTokens u \<and> CostSchema (ac_input (pu_cost u)) \<and>
     CostSchema (ac_output (pu_cost u)) \<and> CostSchema (ac_cacheRead (pu_cost u)) \<and>
     CostSchema (ac_cacheWrite (pu_cost u)) \<and> CostSchema (ac_total (pu_cost u))"

fun MediaSchema :: "media_item \<Rightarrow> bool" where
  "MediaSchema (TextItem t) \<longleftrightarrow> True"
| "MediaSchema (ImageItem d mime) \<longleftrightarrow> mime \<noteq> []"

fun AssistantContentSchema :: "assistant_content \<Rightarrow> bool" where
  "AssistantContentSchema (AssistantText t) \<longleftrightarrow> True"
| "AssistantContentSchema (AssistantThinking t r) \<longleftrightarrow> True"
| "AssistantContentSchema (AssistantToolCall i name input) \<longleftrightarrow> IdSchema i \<and> IdSchema name \<and> JsonValueSchema input"

definition UserTranscriptItemSchema :: "user_item \<Rightarrow> bool" where
  "UserTranscriptItemSchema x \<longleftrightarrow>
     IdSchema (ui_id x) \<and> list_all MediaSchema (ui_content x) \<and> TimestampSchema (ui_timestamp x)"

definition AssistantTranscriptItemSchema :: "assistant_item \<Rightarrow> bool" where
  "AssistantTranscriptItemSchema x \<longleftrightarrow>
     IdSchema (ai_id x) \<and> list_all AssistantContentSchema (ai_content x) \<and> IdSchema (ai_model_provider x) \<and>
     IdSchema (ai_model_id x) \<and> pred_option IdSchema (ai_responseModel x) \<and> pred_option UsageSchema (ai_usage_of x) \<and>
     TimestampSchema (ai_timestamp x) \<and> ai_status x \<noteq> ErrorStatus (Some [])"

definition ToolTranscriptItemSchema :: "tool_item \<Rightarrow> bool" where
  "ToolTranscriptItemSchema x \<longleftrightarrow>
     IdSchema (ti_id x) \<and> IdSchema (ti_toolCallId x) \<and> IdSchema (ti_toolName x) \<and> JsonValueSchema (ti_input x) \<and>
     list_all MediaSchema (ti_content x) \<and> pred_option JsonValueSchema (ti_details x) \<and>
     pred_option UsageSchema (ti_usage x) \<and> TimestampSchema (ti_timestamp x) \<and>
     ((ti_status x = ToolRunning \<or> ti_status x = ToolComplete) \<and> \<not> ti_isError x \<or> ti_status x = ToolError \<and> ti_isError x)"

definition ModelMetadataSchema :: "model_metadata \<Rightarrow> bool" where
  "ModelMetadataSchema x \<longleftrightarrow>
     IdSchema (mm_provider x) \<and> IdSchema (mm_id x) \<and> mm_name x \<noteq> [] \<and> IdSchema (mm_api x) \<and>
     (js_isInteger (mm_contextWindow x) \<and> 1 \<le> js_int (mm_contextWindow x)) \<and>
     (js_isInteger (mm_maxTokens x) \<and> 1 \<le> js_int (mm_maxTokens x)) \<and>
     CostSchema (mm_cost_input x) \<and> CostSchema (mm_cost_output x) \<and> CostSchema (mm_cost_cacheRead x) \<and>
     CostSchema (mm_cost_cacheWrite x) \<and> mm_supportedThinkingLevels x \<noteq> []"

section \<open>Which values are JSON\<close>

text \<open>The values that unfold to a finite tree of JSON data. Inductive, so that no value on a cycle is one.\<close>

inductive json_tree :: "heap \<Rightarrow> nat \<Rightarrow> js_val \<Rightarrow> bool" for h n where
  leaf: "plain_leaf v \<Longrightarrow> json_tree h n v"
| node: "a < n \<Longrightarrow> o_isArray (h a) \<or> isPlainObject (h a) \<Longrightarrow> (\<And>v. v \<in> set (children (h a)) \<Longrightarrow> json_tree h n v) \<Longrightarrow>
    json_tree h n (VRef a)"

inductive_simps json_tree_ref: "json_tree h n (VRef a)"
inductive_cases json_treeE: "json_tree h n v"

lemma acc_not_below_itself: "x \<in> Wellfounded.acc r \<Longrightarrow> (x, x) \<notin> r\<^sup>+"
proof (induction rule: acc.induct)
  case (accI x)
  show ?case
  proof
    assume "(x, x) \<in> r\<^sup>+"
    then obtain y where y: "(x, y) \<in> r\<^sup>*" "(y, x) \<in> r" by (metis tranclD2)
    then have "(y, y) \<in> r\<^sup>+" by simp
    with accI.IH [OF y(2)] show False by simp
  qed
qed

lemma json_tree_acc: "json_tree h n v \<Longrightarrow> v \<in> Wellfounded.acc ((child h)\<inverse>)"
proof (induction rule: json_tree.induct)
  case (leaf v)
  show ?case by (rule accI) (use leaf in \<open>auto simp: child_def\<close>)
next
  case (node a)
  show ?case by (rule accI) (use node.IH in \<open>auto simp: child_def\<close>)
qed

lemma json_tree_acyclic: "json_tree h n v \<Longrightarrow> (v, v) \<notin> (child h)\<^sup>+"
  using acc_not_below_itself [OF json_tree_acc] by (simp add: trancl_converse)

lemma children_elements: "o_isArray obj \<Longrightarrow> children obj = map element_value (o_elems obj)"
  by (auto simp: children_def element_value_def split: option.splits)

lemma children_properties: "\<not> o_isArray obj \<Longrightarrow> children obj = map (\<lambda>x. slot_value (snd x)) (o_props obj)"
  by (simp add: children_def)

lemma convert_ref:
  assumes "a < n" and "a \<notin> seen" and "o_isArray (h a) \<or> isPlainObject (h a)"
  shows "(\<exists>t. toProtocolJsonValue h n seen (VRef a) = Inr t) \<longleftrightarrow>
    (\<forall>v \<in> set (children (h a)). \<exists>t. toProtocolJsonValue h n (insert a seen) v = Inr t)"
proof (cases "o_isArray (h a)")
  case True
  show ?thesis
    using assms True by (subst toProtocolJsonValue.simps) (simp add: children_elements rbind_Inr_iff rmap_succeeds)
next
  case False
  show ?thesis
    using assms False
    by (subst toProtocolJsonValue.simps) (auto simp: children_properties rbind_Inr_iff rmap_succeeds split_beta)
qed

lemma json_tree_converts:
  assumes "json_tree h n v" and "\<And>a. a \<in> seen \<Longrightarrow> (v, VRef a) \<notin> (child h)\<^sup>*"
  shows "\<exists>t. toProtocolJsonValue h n seen v = Inr t"
  using assms
proof (induction arbitrary: seen rule: json_tree.induct)
  case (leaf v)
  then show ?case by (cases v) (simp_all add: toProtocolJsonValue.simps)
next
  case (node a)
  then have tree: "json_tree h n (VRef a)" by (blast intro: json_tree.node)
  have "a \<notin> seen" using node.prems by blast
  moreover have "\<exists>t. toProtocolJsonValue h n (insert a seen) v = Inr t" if v: "v \<in> set (children (h a))" for v
  proof (rule node.IH [OF v])
    fix b assume "b \<in> insert a seen"
    moreover have "(VRef a, v) \<in> child h" using v by simp
    ultimately show "(v, VRef b) \<notin> (child h)\<^sup>*"
      using json_tree_acyclic [OF tree] node.prems by (metis insertE converse_rtrancl_into_rtrancl rtrancl_into_trancl2)
  qed
  ultimately show ?case using convert_ref [of a n seen h] node.hyps by simp
qed

lemma converts_json_tree: "toProtocolJsonValue h n seen v = Inr t \<Longrightarrow> json_tree h n v"
proof (induction "card ({..<n} - seen)" arbitrary: seen v t rule: less_induct)
  case less
  show ?case
  proof (cases v)
    case (VRef a)
    from less.prems VRef have a: "a < n" "a \<notin> seen" "o_isArray (h a) \<or> isPlainObject (h a)"
      by (auto simp: toProtocolJsonValue.simps split: if_splits)
    then have "card ({..<n} - insert a seen) < card ({..<n} - seen)" by (intro unseen_shrinks) simp_all
    with less.hyps less.prems VRef convert_ref [of a n seen h] a show ?thesis by (metis json_tree.node)
  qed (use less.prems in \<open>auto simp: toProtocolJsonValue.simps intro: json_tree.leaf split: if_splits\<close>)
qed

text \<open>The conversion of a value of the execution side to protocol JSON succeeds exactly on the values that
  unfold to a finite tree of null, booleans, strings, finite numbers, arrays and plain objects; it returns on every heap,
  also on a cyclic one.\<close>

lemma converts_iff: "(\<exists>t. toProtocolJsonValue h n {} v = Inr t) \<longleftrightarrow> json_tree h n v"
  using json_tree_converts [of h n v "{}"] converts_json_tree by blast

section \<open>What the results satisfy\<close>

definition values_ok :: "(js_string \<times> protocol_json) list \<Rightarrow> bool" where
  "values_ok es \<longleftrightarrow> (\<forall>t \<in> snd ` set es. JsonValueSchema t)"

lemma values_of_set: "snd ` set (map_set k t es) \<subseteq> insert t (snd ` set es)"
  by (induction es) auto

lemma assign_values:
  assumes "values_ok (snd s)" and "JsonValueSchema (snd x)"
  shows "values_ok (snd (assign_property s x))"
proof -
  obtain p es k t where x: "s = (p, es)" "x = (k, t)" by fastforce
  have "snd (assign_property s x) = es \<or> snd (assign_property s x) = map_set k t es"
    unfolding x by (cases t) simp_all
  moreover have "values_ok (map_set k t es)"
    using values_of_set [of k t es] assms unfolding values_ok_def x snd_conv by blast
  ultimately show ?thesis using assms(1) unfolding x snd_conv by presburger
qed

lemma build_object_schema:
  assumes "values_ok es"
  shows "JsonValueSchema (build_object es)"
proof -
  have "values_ok (snd (foldl assign_property s es))" if "values_ok (snd s)" for s
    using assms that
  proof (induction es arbitrary: s)
    case (Cons e es)
    then have "values_ok es" "JsonValueSchema (snd e)" by (simp_all add: values_ok_def)
    with Cons.IH assign_values [OF Cons.prems(2)] show ?case by simp
  qed simp
  from this [of "(ObjectProto, [])"] have "values_ok (snd (foldl assign_property (ObjectProto, []) es))"
    by (simp add: values_ok_def)
  then show ?thesis by (auto simp: build_object_def values_ok_def split_beta)
qed

lemma convert_schema: "toProtocolJsonValue h n seen v = Inr t \<Longrightarrow> JsonValueSchema t"
proof (induction "card ({..<n} - seen)" arbitrary: seen v t rule: less_induct)
  case less
  show ?case
  proof (cases v)
    case (VRef a)
    with less.prems have a: "a < n" "a \<notin> seen" by (auto simp: toProtocolJsonValue.simps split: if_splits)
    then have "card ({..<n} - insert a seen) < card ({..<n} - seen)" by (intro unseen_shrinks) simp_all
    note IH = less.hyps [OF this]
    show ?thesis
    proof (cases "o_isArray (h a)")
      case True
      with less.prems VRef obtain ts where ts: "rmap (\<lambda>x. toProtocolJsonValue h n (insert a seen) (element_value x)) (o_elems (h a)) = Inr ts"
        "t = PArray ts"
        by (auto simp: toProtocolJsonValue.simps [of h n seen] rbind_Inr_iff split: if_splits)
      from rmap_all [OF ts(1), of JsonValueSchema] IH ts(2) show ?thesis by simp
    next
      case False
      with less.prems VRef obtain es where es: "rmap (\<lambda>(k, s). rbind (toProtocolJsonValue h n (insert a seen) (slot_value s)) (\<lambda>t. Inr (k, t)))
          (o_props (h a)) = Inr es" "t = build_object es"
        by (auto simp: toProtocolJsonValue.simps [of h n seen] rbind_Inr_iff split: if_splits)
      have "\<forall>e \<in> set es. JsonValueSchema (snd e)"
        by (rule rmap_all [OF es(1)]) (auto simp: rbind_Inr_iff intro: IH)
      then show ?thesis unfolding es(2) by (intro build_object_schema) (auto simp: values_ok_def)
    qed
  qed (use less.prems in \<open>auto simp: toProtocolJsonValue.simps split: if_splits\<close>)
qed

lemma IdSchema_identifier [simp]: "protocol_identifier s label = Inr t \<longleftrightarrow> IdSchema s \<and> t = s"
  by (auto simp: protocol_identifier_def IdSchema_def)

lemma timestamp_Inr [simp]: "protocol_timestamp n = Inr t \<longleftrightarrow> js_isSafeInteger n \<and> 0 \<le> js_int n \<and> t = n"
  by (auto simp: protocol_timestamp_def)

lemma timestamp_schema: "js_isSafeInteger n \<Longrightarrow> 0 \<le> js_int n \<Longrightarrow> TimestampSchema n"
  by (simp add: TimestampSchema_def js_isSafeInteger_def)

lemma CostSchema_nonNegative [simp]: "CostSchema (nonNegativeNumber n)"
  by (cases n) (auto simp: CostSchema_def nonNegativeNumber_def)

lemma nonNegativeInteger_bound: "pred_option (\<lambda>r. 0 \<le> r) (nonNegativeInteger n)"
  by (cases n) (auto simp: nonNegativeInteger_def)

lemma integer_or_zero_bound [simp]: "0 \<le> integer_or_zero n"
  by (simp add: integer_or_zero_def nonNegativeInteger_def)

lemma usage_schema: "pred_option UsageSchema (toProtocolUsage u)"
  by (cases u) (simp_all add: toProtocolUsage_def UsageSchema_def nonNegativeInteger_bound)

lemma assistant_part_schema: "assistant_part h n part = Inr c \<Longrightarrow> AssistantContentSchema c"
  by (auto simp: assistant_part_def rbind_Inr_iff convert_schema split: ai_assistant_part.splits)

lemma optional_identifier_Inr [simp]: "optional_identifier s label = Inr t \<longleftrightarrow> pred_option IdSchema s \<and> t = s"
  by (auto simp: optional_identifier_def rbind_Inr_iff split: option.splits)

lemma assistant_status_Inr:
  "assistant_status reason message = Inr status \<Longrightarrow> status \<noteq> ErrorStatus (Some [])"
  by (auto simp: assistant_status_def split: stop_reason.splits if_splits)

text \<open>Media with a type that is named.\<close>

fun media_named :: "ai_media \<Rightarrow> bool" where
  "media_named (AiText t) \<longleftrightarrow> True"
| "media_named (AiImage d mime) \<longleftrightarrow> mime \<noteq> []"

lemma media_schema [simp]: "MediaSchema (media_item_of part) \<longleftrightarrow> media_named part"
  by (cases part) simp_all

text \<open>C34. An assistant message that is converted at all meets the schema of the protocol: identifiers are not empty, the
  timestamp is a natural number, token counts and costs are not negative whatever the provider reported, the
  arguments of tool calls are JSON, and an error has no empty text.\<close>

theorem assistant_item_valid:
  assumes "toProtocolAssistantMessage h n m ident = Inr item"
  shows "AssistantTranscriptItemSchema item"
proof -
  from assms obtain content status where item: "IdSchema ident" "rmap (assistant_part h n) (aa_content m) = Inr content"
      "IdSchema (aa_provider m)" "IdSchema (aa_model m)" "pred_option IdSchema (aa_responseModel m)"
      "js_isSafeInteger (aa_timestamp m)" "0 \<le> js_int (aa_timestamp m)"
      "assistant_status (aa_stopReason m) (aa_errorMessage m) = Inr status"
      "item = \<lparr> ai_id = ident, ai_content = content, ai_model_provider = aa_provider m, ai_model_id = aa_model m,
       ai_responseModel = aa_responseModel m, ai_usage_of = toProtocolUsage (aa_usage m), ai_timestamp = aa_timestamp m,
       ai_status = status \<rparr>"
    by (auto simp: toProtocolAssistantMessage_def toProtocolAssistantContent_def rbind_Inr_iff)
  have "\<forall>c \<in> set content. AssistantContentSchema c"
    by (rule rmap_all [OF item(2)]) (rule assistant_part_schema)
  with item show ?thesis
    by (simp add: AssistantTranscriptItemSchema_def list_all_iff usage_schema timestamp_schema assistant_status_Inr)
qed

section \<open>Details of tools\<close>

text \<open>Dates are neither arrays nor plain objects.\<close>

definition dates_ok :: "date_texts \<Rightarrow> heap \<Rightarrow> bool" where
  "dates_ok d h \<longleftrightarrow> (\<forall>a. date_iso d a \<noteq> None \<longrightarrow> \<not> o_isArray (h a) \<and> \<not> isPlainObject (h a))"

lemma rmap_imp: "rmap f xs = Inr ys \<Longrightarrow> (\<And>x y. x \<in> set xs \<Longrightarrow> f x = Inr y \<Longrightarrow> g x = Inr (e y)) \<Longrightarrow> rmap g xs = Inr (map e ys)"
proof (induction xs arbitrary: ys)
  case (Cons x xs)
  from Cons.prems(1) obtain y zs where y: "f x = Inr y" "rmap f xs = Inr zs" "ys = y # zs" by (auto simp: rbind_Inr_iff)
  have "rmap g xs = Inr (map e zs)" by (rule Cons.IH [OF y(2)]) (simp add: Cons.prems(2))
  with Cons.prems(2) [of x y] y show ?case by simp
qed simp

lemma defined_pairs_some: "defined_pairs (map (\<lambda>(k, t). (k, Some t)) es) = es"
  by (induction es) (auto simp: defined_pairs_def map_filter_simps)

lemma sanitize_ref:
  assumes "a < n" and "date_iso d a = None" and "a \<notin> seen"
  shows "sanitizeProtocolDetails d h n seen (VRef a) =
    (if o_isArray (h a) then
       rbind (rmap (\<lambda>x. sanitizeProtocolDetails d h n (insert a seen) (element_value x)) (o_elems (h a))) (\<lambda>ts.
       Inr (Some (PArray (map (\<lambda>t. case t of None \<Rightarrow> PNull | Some u \<Rightarrow> u) ts))))
     else
       rbind (rmap (\<lambda>(k, s). rbind (sanitizeProtocolDetails d h n (insert a seen) (slot_value s)) (\<lambda>t. Inr (k, t)))
         (o_props (h a))) (\<lambda>es.
       Inr (Some (build_object (defined_pairs es)))))"
  using assms by (simp add: sanitizeProtocolDetails.simps [of d h n seen])

lemma sanitize_keeps_json:
  assumes "dates_ok d h" and "toProtocolJsonValue h n seen v = Inr t"
  shows "sanitizeProtocolDetails d h n seen v = Inr (Some t)"
  using assms(2)
proof (induction "card ({..<n} - seen)" arbitrary: seen v t rule: less_induct)
  case less
  show ?case
  proof (cases v)
    case (VRef a)
    with less.prems have a: "a < n" "a \<notin> seen" "o_isArray (h a) \<or> isPlainObject (h a)"
      by (auto simp: toProtocolJsonValue.simps split: if_splits)
    then have "card ({..<n} - insert a seen) < card ({..<n} - seen)" by (intro unseen_shrinks) simp_all
    note IH = less.hyps [OF this]
    from a assms(1) have date: "date_iso d a = None" by (auto simp: dates_ok_def)
    show ?thesis
    proof (cases "o_isArray (h a)")
      case True
      with less.prems VRef obtain ts where ts: "rmap (\<lambda>x. toProtocolJsonValue h n (insert a seen) (element_value x)) (o_elems (h a)) = Inr ts"
        "t = PArray ts"
        by (auto simp: toProtocolJsonValue.simps [of h n seen] rbind_Inr_iff split: if_splits)
      have "rmap (\<lambda>x. sanitizeProtocolDetails d h n (insert a seen) (element_value x)) (o_elems (h a)) = Inr (map Some ts)"
        by (rule rmap_imp [OF ts(1)]) (rule IH)
      with True ts(2) VRef a date show ?thesis by (simp add: sanitize_ref comp_def)
    next
      case False
      with less.prems VRef obtain es where es: "rmap (\<lambda>(k, s). rbind (toProtocolJsonValue h n (insert a seen) (slot_value s)) (\<lambda>t. Inr (k, t)))
          (o_props (h a)) = Inr es" "t = build_object es"
        by (auto simp: toProtocolJsonValue.simps [of h n seen] rbind_Inr_iff split: if_splits)
      have "rmap (\<lambda>(k, s). rbind (sanitizeProtocolDetails d h n (insert a seen) (slot_value s)) (\<lambda>t. Inr (k, t)))
          (o_props (h a)) = Inr (map (\<lambda>(k, t). (k, Some t)) es)"
        by (rule rmap_imp [OF es(1)]) (auto simp: rbind_Inr_iff dest: IH)
      with False es(2) VRef a date show ?thesis by (simp add: sanitize_ref defined_pairs_some)
    qed
  qed (use less.prems in \<open>auto simp: toProtocolJsonValue.simps sanitizeProtocolDetails.simps split: if_splits\<close>)
qed

lemma byte_entries_ok: "values_ok (byte_entries bytes)"
  by (auto simp: values_ok_def byte_entries_def)

lemma defined_pairs_ok: "(\<And>k t. (k, Some t) \<in> set es \<Longrightarrow> JsonValueSchema t) \<Longrightarrow> values_ok (defined_pairs es)"
  by (induction es) (auto simp: values_ok_def defined_pairs_def map_filter_simps split: option.splits)

lemma children_bounded:
  assumes "heap_bounded h n" and "a < n" and "v \<in> set (children (h a))"
  shows "bounded n v"
  using assms by (simp add: heap_bounded_def)

lemma sanitize_total:
  assumes "heap_bounded h n" and "\<And>a. date_iso d a \<noteq> Some None" and "bounded n v"
  shows "\<exists>r. sanitizeProtocolDetails d h n seen v = Inr r"
  using assms(3)
proof (induction "card ({..<n} - seen)" arbitrary: seen v rule: less_induct)
  case less
  show ?case
  proof (cases v)
    case (VRef a)
    with less.prems have a: "a < n" by (simp add: bounded_def)
    show ?thesis
    proof (cases "date_iso d a = None \<and> a \<notin> seen")
      case True
      with a have "card ({..<n} - insert a seen) < card ({..<n} - seen)" by (intro unseen_shrinks) simp_all
      note IH = less.hyps [OF this children_bounded [OF assms(1) a]]
      have "\<forall>x \<in> set (o_elems (h a)). \<exists>r. sanitizeProtocolDetails d h n (insert a seen) (element_value x) = Inr r"
        if "o_isArray (h a)" using IH that by (simp add: children_elements)
      moreover have "\<forall>x \<in> set (o_props (h a)). \<exists>r. sanitizeProtocolDetails d h n (insert a seen) (slot_value (snd x)) = Inr r"
        if "\<not> o_isArray (h a)" using IH that by (simp add: children_properties)
      ultimately show ?thesis
        using True a VRef by (simp add: sanitize_ref rbind_Inr_iff rmap_succeeds split_beta)
    next
      case False
      with a VRef assms(2) [of a] show ?thesis
        by (auto simp: sanitizeProtocolDetails.simps split: option.splits)
    qed
  qed (simp_all add: sanitizeProtocolDetails.simps)
qed

lemma sanitize_schema: "sanitizeProtocolDetails d h n seen v = Inr r \<Longrightarrow> pred_option JsonValueSchema r"
proof (induction "card ({..<n} - seen)" arbitrary: seen v r rule: less_induct)
  case less
  show ?case
  proof (cases v)
    case (VRef a)
    show ?thesis
    proof (cases "a < n \<and> date_iso d a = None \<and> a \<notin> seen")
      case True
      then have "card ({..<n} - insert a seen) < card ({..<n} - seen)" by (intro unseen_shrinks) simp_all
      note IH = less.hyps [OF this]
      show ?thesis
      proof (cases "o_isArray (h a)")
        case arr: True
        with less.prems True VRef obtain ts where
          ts: "rmap (\<lambda>x. sanitizeProtocolDetails d h n (insert a seen) (element_value x)) (o_elems (h a)) = Inr ts"
            "r = Some (PArray (map (\<lambda>t. case t of None \<Rightarrow> PNull | Some u \<Rightarrow> u) ts))"
          by (auto simp: sanitize_ref rbind_Inr_iff)
        have "\<forall>r \<in> set ts. pred_option JsonValueSchema r" by (rule rmap_all [OF ts(1)]) (rule IH)
        with ts(2) show ?thesis by (auto split: option.splits)
      next
        case obj: False
        with less.prems True VRef obtain es where
          es: "rmap (\<lambda>(k, s). rbind (sanitizeProtocolDetails d h n (insert a seen) (slot_value s)) (\<lambda>t. Inr (k, t)))
            (o_props (h a)) = Inr es" "r = Some (build_object (defined_pairs es))"
          by (auto simp: sanitize_ref rbind_Inr_iff)
        have "\<forall>r \<in> set es. pred_option JsonValueSchema (snd r)"
          by (rule rmap_all [OF es(1)]) (auto simp: rbind_Inr_iff intro: IH)
        then have "values_ok (defined_pairs es)" by (intro defined_pairs_ok) (metis option.pred_inject(2) snd_conv)
        with es(2) show ?thesis by (simp add: build_object_schema)
      qed
    next
      case False
      with VRef less.prems show ?thesis
        by (auto simp: sanitizeProtocolDetails.simps split: option.splits if_splits)
    qed
  qed (use less.prems in \<open>auto simp: sanitizeProtocolDetails.simps build_object_schema byte_entries_ok split: if_splits\<close>)
qed

section \<open>JSON is kept\<close>

text \<open>
  What a copy of JSON data is, said without the code: equal leaves, an array with the copies of its elements,
  a plain object with the same properties in the same order, each with the copy of its value. No property is
  named \<^verbatim>\<open>__proto__\<close>; the names of the properties of an object are distinct. The relation is inductive, so a value
  on a cycle has no copy.
\<close>

inductive json_copy :: "heap \<Rightarrow> nat \<Rightarrow> js_val \<Rightarrow> protocol_json \<Rightarrow> bool" for h n where
  null: "json_copy h n VNull PNull"
| bool: "json_copy h n (VBool b) (PBool b)"
| string: "json_copy h n (VStr s) (PStr s)"
| number: "js_isFinite m \<Longrightarrow> json_copy h n (VNum m) (PNum m)"
| array: "a < n \<Longrightarrow> o_isArray (h a) \<Longrightarrow> list_all2 (\<lambda>x t. json_copy h n (element_value x) t) (o_elems (h a)) ts \<Longrightarrow>
    json_copy h n (VRef a) (PArray ts)"
| object: "a < n \<Longrightarrow> \<not> o_isArray (h a) \<Longrightarrow> isPlainObject (h a) \<Longrightarrow> distinct (map fst (o_props (h a))) \<Longrightarrow>
    proto_key \<notin> fst ` set (o_props (h a)) \<Longrightarrow>
    list_all2 (\<lambda>x e. fst x = fst e \<and> json_copy h n (slot_value (snd x)) (snd e)) (o_props (h a)) es \<Longrightarrow>
    json_copy h n (VRef a) (PObject ObjectProto es)"

lemma list_all2_left: "list_all2 P xs ys \<Longrightarrow> x \<in> set xs \<Longrightarrow> \<exists>y. P x y"
  by (induction rule: list_all2_induct) auto

lemma assign_fresh:
  assumes "distinct (map fst (acc @ es))" and "proto_key \<notin> fst ` set es"
  shows "foldl assign_property (p, acc) es = (p, acc @ es)"
  using assms
proof (induction es arbitrary: acc)
  case (Cons e es)
  obtain k t where e: "e = (k, t)" by fastforce
  with Cons.prems have "assign_property (p, acc) e = (p, acc @ [(k, t)])"
    by (auto simp: map_set_new map_of_eq_None_iff)
  with Cons.IH [of "acc @ [(k, t)]"] Cons.prems e show ?case by simp
qed simp

lemma build_object_fresh:
  "distinct (map fst es) \<Longrightarrow> proto_key \<notin> fst ` set es \<Longrightarrow> build_object es = PObject ObjectProto es"
  using assign_fresh [of "[]" es ObjectProto] by (simp add: build_object_def)

lemma json_copy_tree: "json_copy h n v t \<Longrightarrow> json_tree h n v"
proof (induction rule: json_copy.induct)
  case (array a ts)
  then have "\<forall>x \<in> set (o_elems (h a)). json_tree h n (element_value x)" by (auto dest: list_all2_left)
  with array.hyps show ?case by (intro json_tree.node) (auto simp: children_elements)
next
  case (object a es)
  then have "\<forall>x \<in> set (o_props (h a)). json_tree h n (slot_value (snd x))" by (auto dest: list_all2_left)
  with object.hyps show ?case by (intro json_tree.node) (auto simp: children_properties)
qed (auto intro: json_tree.leaf)

text \<open>A child of a value that is not on a cycle reaches neither the value nor what the value does not reach.\<close>

lemma child_apart:
  assumes "json_tree h n (VRef a)" and "\<And>b. b \<in> seen \<Longrightarrow> (VRef a, VRef b) \<notin> (child h)\<^sup>*"
    and "v \<in> set (children (h a))" and "b \<in> insert a seen"
  shows "(v, VRef b) \<notin> (child h)\<^sup>*"
proof -
  have "(VRef a, v) \<in> child h" using assms(3) by simp
  then show ?thesis using json_tree_acyclic [OF assms(1)] assms(2,4)
    by (metis insertE converse_rtrancl_into_rtrancl rtrancl_into_trancl2)
qed

lemma json_copy_converts:
  assumes "json_copy h n v t" and "\<And>a. a \<in> seen \<Longrightarrow> (v, VRef a) \<notin> (child h)\<^sup>*"
  shows "toProtocolJsonValue h n seen v = Inr t"
  using assms
proof (induction arbitrary: seen rule: json_copy.induct)
  case (array a ts)
  have copy: "json_copy h n (VRef a) (PArray ts)"
    by (rule json_copy.array, fact, fact, rule list_all2_mono [OF array.IH]) blast
  have "toProtocolJsonValue h n (insert a seen) (element_value x) = Inr t"
    if "json_copy h n (element_value x) t \<and> (\<forall>seen. (\<forall>a. a \<in> seen \<longrightarrow> (element_value x, VRef a) \<notin> (child h)\<^sup>*) \<longrightarrow>
      toProtocolJsonValue h n seen (element_value x) = Inr t)" "x \<in> set (o_elems (h a))" for x t
    using that child_apart [OF json_copy_tree [OF copy] array.prems, where v = "element_value x"] array.hyps
    by (simp add: children_elements)
  then have "rmap (\<lambda>x. toProtocolJsonValue h n (insert a seen) (element_value x)) (o_elems (h a)) = Inr ts"
    unfolding rmap_Inr_iff by (intro list.rel_mono_strong [OF array.IH]) blast
  moreover have "a \<notin> seen" using array.prems by blast
  ultimately show ?case using array.hyps by (simp add: toProtocolJsonValue.simps [of h n seen])
next
  case (object a es)
  have copy: "json_copy h n (VRef a) (PObject ObjectProto es)"
    by (rule json_copy.object, fact, fact, fact, fact, fact, rule list_all2_mono [OF object.IH]) blast
  have "rbind (toProtocolJsonValue h n (insert a seen) (slot_value (snd x))) (\<lambda>t. Inr (fst x, t)) = Inr e"
    if "fst x = fst e \<and> json_copy h n (slot_value (snd x)) (snd e) \<and>
      (\<forall>seen. (\<forall>a. a \<in> seen \<longrightarrow> (slot_value (snd x), VRef a) \<notin> (child h)\<^sup>*) \<longrightarrow>
        toProtocolJsonValue h n seen (slot_value (snd x)) = Inr (snd e))" "x \<in> set (o_props (h a))" for x e
    using that child_apart [OF json_copy_tree [OF copy] object.prems, where v = "slot_value (snd x)"] object.hyps
    by (simp add: children_properties)
  then have "rmap (\<lambda>(k, s). rbind (toProtocolJsonValue h n (insert a seen) (slot_value s)) (\<lambda>t. Inr (k, t)))
      (o_props (h a)) = Inr es"
    unfolding rmap_Inr_iff split_beta by (intro list.rel_mono_strong [OF object.IH]) blast
  moreover have "map fst (o_props (h a)) = map fst es"
    using object.IH by (auto simp: list_all2_conv_all_nth intro: nth_equalityI)
  then have "build_object es = PObject ObjectProto es"
    using object.hyps by (intro build_object_fresh) (simp_all flip: set_map)
  moreover have "a \<notin> seen" using object.prems by blast
  ultimately show ?case using object.hyps by (simp add: toProtocolJsonValue.simps [of h n seen])
qed (simp_all add: toProtocolJsonValue.simps)

text \<open>C36. Tool details never break the conversion of a result, cyclic or not, as long as no date in them is invalid:
  the sanitized details are JSON or left out. Details that are JSON data, with no property named \<^verbatim>\<open>__proto__\<close>, are
  copied unchanged: the same leaves, the same elements and the same properties in the same order.\<close>

theorem details_sanitized:
  assumes "heap_bounded h n" and "bounded n v" and "dates_ok d h" and "\<And>a. date_iso d a \<noteq> Some None"
  shows "\<exists>r. sanitizeProtocolDetails d h n {} v = Inr r \<and> pred_option JsonValueSchema r \<and>
    (\<forall>t. json_copy h n v t \<longrightarrow> r = Some t)"
proof -
  obtain r where r: "sanitizeProtocolDetails d h n {} v = Inr r" using sanitize_total assms(1,2,4) by blast
  moreover have "\<forall>t. json_copy h n v t \<longrightarrow> r = Some t"
    using r sanitize_keeps_json [OF assms(3) json_copy_converts [of h n v _ "{}"]] by simp
  ultimately show ?thesis using sanitize_schema by blast
qed

text \<open>The user and tool items meet their schemas when the images in them name a type. A tool item carries the
  identity of its call.\<close>

theorem user_item_valid:
  assumes "toProtocolUserMessage content time ident = Inr item"
  shows "UserTranscriptItemSchema item \<longleftrightarrow> (case content of AiString t \<Rightarrow> True | AiParts parts \<Rightarrow> list_all media_named parts)"
  using assms
  by (auto simp: toProtocolUserMessage_def rbind_Inr_iff UserTranscriptItemSchema_def toProtocolUserContent_def timestamp_schema
      list_all_iff split: ai_user_content.splits)

theorem tool_item_valid:
  assumes "toProtocolToolResultMessage d h n m call ident = Inr item"
  shows "(ToolTranscriptItemSchema item \<longleftrightarrow> list_all media_named (ar_content m)) \<and>
    ti_toolCallId item = at_id call \<and> ti_toolCallId item = ar_toolCallId m \<and> ti_toolName item = ar_toolName m"
proof -
  from assms obtain details input where r: "sanitizeProtocolDetails d h n {} (ar_details m) = Inr details"
      "toProtocolJsonValue h n {} (at_arguments call) = Inr input" "IdSchema ident" "IdSchema (at_id call)" "IdSchema (at_name call)"
      "ar_toolCallId m = at_id call" "ar_toolName m = at_name call" "js_isSafeInteger (ar_timestamp m)" "0 \<le> js_int (ar_timestamp m)"
      "item = \<lparr> ti_id = ident, ti_toolCallId = at_id call, ti_toolName = at_name call, ti_input = input,
       ti_content = map media_item_of (ar_content m), ti_details = details, ti_usage = toProtocolUsage (ar_usage m),
       ti_timestamp = ar_timestamp m, ti_status = (if ar_isError m then ToolError else ToolComplete), ti_isError = ar_isError m \<rparr>"
    by (auto simp: toProtocolToolResultMessage_def rbind_Inr_iff)
  then show ?thesis
    by (simp add: ToolTranscriptItemSchema_def convert_schema usage_schema timestamp_schema sanitize_schema list_all_iff)
qed

section \<open>When a message is refused\<close>

fun part_convertible :: "heap \<Rightarrow> nat \<Rightarrow> ai_assistant_part \<Rightarrow> bool" where
  "part_convertible h n (AiToolCall call) \<longleftrightarrow> at_id call \<noteq> [] \<and> at_name call \<noteq> [] \<and> json_tree h n (at_arguments call)"
| "part_convertible h n _ \<longleftrightarrow> True"

lemma assistant_part_iff: "(\<exists>c. assistant_part h n part = Inr c) \<longleftrightarrow> part_convertible h n part"
  by (cases part) (simp_all add: assistant_part_def rbind_Inr_iff IdSchema_def flip: converts_iff)

text \<open>C35. An assistant message is refused exactly when an identifier in it is empty, its timestamp is not a non-negative safe integer,
  the arguments of a tool call are not JSON, its response was deferred, or it is an error with an empty text.\<close>

theorem assistant_message_refused_iff:
  "(\<exists>item. toProtocolAssistantMessage h n m ident = Inr item) \<longleftrightarrow>
   ident \<noteq> [] \<and> aa_provider m \<noteq> [] \<and> aa_model m \<noteq> [] \<and> aa_responseModel m \<noteq> Some [] \<and>
   js_isSafeInteger (aa_timestamp m) \<and> 0 \<le> js_int (aa_timestamp m) \<and> list_all (part_convertible h n) (aa_content m) \<and>
   aa_stopReason m \<noteq> Deferred \<and> \<not> (aa_stopReason m = Error \<and> aa_errorMessage m = Some [])"
proof -
  have "(\<exists>content. rmap (assistant_part h n) (aa_content m) = Inr content) \<longleftrightarrow> list_all (part_convertible h n) (aa_content m)"
    by (simp add: rmap_succeeds assistant_part_iff list_all_iff)
  moreover have "(\<exists>status. assistant_status (aa_stopReason m) (aa_errorMessage m) = Inr status) \<longleftrightarrow>
      aa_stopReason m \<noteq> Deferred \<and> \<not> (aa_stopReason m = Error \<and> aa_errorMessage m = Some [])"
    by (cases "aa_stopReason m") (simp_all add: assistant_status_def)
  moreover have "pred_option IdSchema (aa_responseModel m) \<longleftrightarrow> aa_responseModel m \<noteq> Some []"
    by (cases "aa_responseModel m") (simp_all add: IdSchema_def)
  ultimately show ?thesis
    by (simp add: toProtocolAssistantMessage_def toProtocolAssistantContent_def rbind_Inr_iff IdSchema_def) blast
qed

section \<open>Models\<close>

lemma at_least_one_schema:
  "js_isInteger (at_least_one n) \<and> 1 \<le> js_int (at_least_one n) \<longleftrightarrow>
   js_isFinite n \<or> (\<exists>w. n = NFloat w \<and> f64_fraction w = 0 \<and> f64_negative w)"
  by (cases n) (auto simp: at_least_one_def f64_is_integer_def)

text \<open>The metadata of a model meet their schema exactly when the limits of the model are finite and it supports some level.\<close>

theorem model_metadata_valid:
  assumes "toProtocolModelMetadata model authenticated = Inr x"
    and "js_isFinite (mo_contextWindow model)" and "js_isFinite (mo_maxTokens model)"
  shows "ModelMetadataSchema x \<longleftrightarrow> getSupportedThinkingLevels model \<noteq> []"
  using assms at_least_one_schema [of "mo_contextWindow model"] at_least_one_schema [of "mo_maxTokens model"]
  by (auto simp: toProtocolModelMetadata_def rbind_Inr_iff ModelMetadataSchema_def IdSchema_def)

text \<open>A level is clamped to a supported one: itself, else the nearest above it, else the nearest below.\<close>

lemma find_sorted:
  assumes "List.find P xs = Some c" and "sorted_wrt R xs"
  shows "P c \<and> c \<in> set xs \<and> (\<forall>x \<in> set xs. P x \<longrightarrow> x = c \<or> R c x)"
  using assms by (induction xs) (auto split: if_splits)

lemma levels_above: "s \<in> set (drop (level_index level) EXTENDED_THINKING_LEVELS) \<longleftrightarrow> level_index level \<le> level_index s"
  by (cases level; cases s) (simp_all add: EXTENDED_THINKING_LEVELS_def level_index_def)

lemma levels_below: "s \<in> set (rev (take (level_index level) EXTENDED_THINKING_LEVELS)) \<longleftrightarrow> level_index s < level_index level"
  by (cases level; cases s) (simp_all add: EXTENDED_THINKING_LEVELS_def level_index_def)

lemma levels_sorted: "sorted_wrt (\<lambda>x y. level_index x < level_index y) EXTENDED_THINKING_LEVELS"
  by (simp add: EXTENDED_THINKING_LEVELS_def level_index_def)

lemma first_above:
  assumes "first_available available (drop (level_index level) EXTENDED_THINKING_LEVELS) = Some c"
  shows "c \<in> set available \<and> level_index level \<le> level_index c \<and>
    (\<forall>s \<in> set available. level_index level \<le> level_index s \<longrightarrow> level_index c \<le> level_index s)"
  using find_sorted [OF assms [unfolded first_available_def] sorted_wrt_drop [OF levels_sorted]]
  unfolding Ball_def levels_above by (metis less_imp_le order_refl)

lemma first_below:
  assumes "first_available available (rev (take (level_index level) EXTENDED_THINKING_LEVELS)) = Some c"
  shows "c \<in> set available \<and> level_index c < level_index level \<and>
    (\<forall>s \<in> set available. level_index s < level_index level \<longrightarrow> level_index s \<le> level_index c)"
proof -
  have "sorted_wrt (\<lambda>x y. level_index y < level_index x) (rev (take (level_index level) EXTENDED_THINKING_LEVELS))"
    using sorted_wrt_take [OF levels_sorted] by (simp add: sorted_wrt_rev)
  from find_sorted [OF assms [unfolded first_available_def] this] show ?thesis unfolding Ball_def levels_below by (metis less_imp_le order_refl)
qed

lemma none_available: "first_available available levels = None \<Longrightarrow> s \<in> set available \<Longrightarrow> s \<notin> set levels"
  by (auto simp: first_available_def find_None_iff)

theorem clamped_level_nearest:
  assumes "getSupportedThinkingLevels model \<noteq> []"
  shows "clampThinkingLevel model level \<in> set (getSupportedThinkingLevels model) \<and>
    (\<forall>s \<in> set (getSupportedThinkingLevels model).
      (level_index level \<le> level_index s \<longrightarrow>
        level_index level \<le> level_index (clampThinkingLevel model level) \<and>
        level_index (clampThinkingLevel model level) \<le> level_index s) \<and>
      ((\<forall>r \<in> set (getSupportedThinkingLevels model). level_index r < level_index level) \<longrightarrow>
        level_index s \<le> level_index (clampThinkingLevel model level)))"
proof -
  let ?available = "getSupportedThinkingLevels model"
  let ?above = "first_available ?available (drop (level_index level) EXTENDED_THINKING_LEVELS)"
  let ?below = "first_available ?available (rev (take (level_index level) EXTENDED_THINKING_LEVELS))"
  consider "level \<in> set ?available" | c where "level \<notin> set ?available" "?above = Some c"
    | c where "level \<notin> set ?available" "?above = None" "?below = Some c" | "?above = None" "?below = None" by fastforce
  then show ?thesis
  proof cases
    case 1
    then show ?thesis by (auto simp: clampThinkingLevel_def)
  next
    case 2
    with first_above [OF 2(2)] show ?thesis by (fastforce simp: clampThinkingLevel_def)
  next
    case 3
    have "\<forall>s \<in> set ?available. \<not> level_index level \<le> level_index s"
      using none_available [OF 3(2)] levels_above by blast
    with first_below [OF 3(3)] 3 show ?thesis by (auto simp: clampThinkingLevel_def)
  next
    case 4
    from assms obtain s where "s \<in> set ?available" by fastforce
    with none_available [OF 4(1) this] none_available [OF 4(2) this] show ?thesis
      unfolding levels_above levels_below by simp
  qed
qed

section \<open>Values the code loses or refuses\<close>

text \<open>A property named \<^verbatim>\<open>__proto__\<close> is not copied: it becomes the prototype of the copy, which then is not a plain
  object any more, so that the CBOR encoder refuses the whole message.\<close>

lemma proto_property_lost: "build_object [(proto_key, PObject ObjectProto [])] = PObject OtherProto []"
  by (simp add: build_object_def)

text \<open>Details with an invalid date make the conversion of the whole result fail.\<close>

lemma invalid_date_refused:
  "a < n \<Longrightarrow> date_iso d a = Some None \<Longrightarrow> sanitizeProtocolDetails d h n {} (VRef a) = Inl InvalidDate"
  by (simp add: sanitizeProtocolDetails.simps)

text \<open>A model without any supported level, one whose level map is null everywhere, has metadata that do not meet
  the schema.\<close>

lemma no_level_supported:
  "mo_reasoning model \<Longrightarrow> mo_thinkingLevelMap model = (\<lambda>_. LevelNull) \<Longrightarrow> getSupportedThinkingLevels model = []"
  by (simp add: getSupportedThinkingLevels_def EXTENDED_THINKING_LEVELS_def)

section \<open>A sample\<close>

text \<open>A heap of two objects: one with a number, one that holds itself.\<close>

definition sample_heap :: heap where
  "sample_heap a = \<lparr> o_isArray = False, o_proto = ObjectProto, o_elems = [],
     o_props = (if a = 0 then [(js_ascii ''x'', DataSlot (VNum (NInt 1)))] else [(js_ascii ''self'', DataSlot (VRef 1))]),
     o_hidden = 0, o_symbols = [] \<rparr>"

definition no_dates :: date_texts where
  "no_dates = \<lparr> date_iso = (\<lambda>_. None), bigint_text = [] \<rparr>"

definition sample_assistant :: ai_assistant_message where
  "sample_assistant = \<lparr> aa_content = [AiToolCall \<lparr> at_id = [1], at_name = [2], at_arguments = VRef 0 \<rparr>], aa_provider = [3],
     aa_model = [4], aa_responseModel = None, aa_usage = None, aa_stopReason = ToolUse, aa_errorMessage = None,
     aa_timestamp = NInt 5 \<rparr>"

lemma sample_json: "toProtocolJsonValue sample_heap 2 {} (VRef 0) = Inr (PObject ObjectProto [(js_ascii ''x'', PNum (NInt 1))])"
  by (simp add: toProtocolJsonValue.simps sample_heap_def isPlainObject_def build_object_def proto_key_def)

lemma sample_cycle: "toProtocolJsonValue sample_heap 2 {} (VRef 1) = Inl CircularJson"
  by (simp add: toProtocolJsonValue.simps sample_heap_def isPlainObject_def)

lemma sample_item:
  "toProtocolAssistantMessage sample_heap 2 sample_assistant [9] =
   Inr \<lparr> ai_id = [9], ai_content = [AssistantToolCall [1] [2] (PObject ObjectProto [(js_ascii ''x'', PNum (NInt 1))])],
     ai_model_provider = [3], ai_model_id = [4], ai_responseModel = None, ai_usage_of = None, ai_timestamp = NInt 5,
     ai_status = Complete ReasonToolUse \<rparr>"
  by (simp add: toProtocolAssistantMessage_def toProtocolAssistantContent_def assistant_part_def sample_assistant_def sample_json
      protocol_identifier_def protocol_timestamp_def optional_identifier_def assistant_status_def js_isSafeInteger_def
      MAX_SAFE_INTEGER_def toProtocolUsage_def)

theorem assistant_item_valid_witness:
  "\<exists>item. toProtocolAssistantMessage sample_heap 2 sample_assistant [9] = Inr item \<and> AssistantTranscriptItemSchema item"
  using assistant_item_valid [OF sample_item] sample_item by blast

lemma sample_bounded: "heap_bounded sample_heap 2" "bounded 2 (VRef 1)" "dates_ok no_dates sample_heap" "date_iso no_dates a \<noteq> Some None"
  by (auto simp: heap_bounded_def bounded_def children_def sample_heap_def dates_ok_def no_dates_def less_2_cases_iff)

lemma sample_copy: "json_copy sample_heap 2 (VRef 0) (PObject ObjectProto [(js_ascii ''x'', PNum (NInt 1))])"
  by (rule json_copy.object) (simp_all add: sample_heap_def isPlainObject_def proto_key_def json_copy.number)

theorem details_sanitized_witness:
  "sanitizeProtocolDetails no_dates sample_heap 2 {} (VRef 0) = Inr (Some (PObject ObjectProto [(js_ascii ''x'', PNum (NInt 1))])) \<and>
   (\<exists>r. sanitizeProtocolDetails no_dates sample_heap 2 {} (VRef 1) = Inr r \<and> pred_option JsonValueSchema r)"
proof -
  have "bounded 2 (VRef 0)" by (simp add: bounded_def)
  then show ?thesis
    using details_sanitized [OF sample_bounded(1) _ sample_bounded(3,4)] sample_copy sample_bounded(2) by (metis (no_types))
qed

end
