(* ===== verification/Live_Sessions.thy ===== *)
theory Live_Sessions
  imports Motto_Prelude
begin

text \<open>
  \<^verbatim>\<open>packages/server/src/sessions.ts\<close> and the connections of \<^verbatim>\<open>packages/server/src/server.ts\<close>: sessions that are live in
  the server, the runtimes acquired for them, and the connections attached to them. Every stretch of code between two
  awaits is a step; the steps of all commands interleave. A command that waits is a task. The service that provides
  runtimes may answer at any time, in any order, or fail; a runtime may become busy or idle at any time.
\<close>

section \<open>State\<close>

datatype stage = AwaitingHello | Handshaking | Ready | Closing | Closed

record connection =
  cn_stage :: stage
  cn_disconnected :: bool
  cn_handshakeComplete :: bool
  cn_closed :: bool
  cn_sessionIds :: "string list"

datatype dispose_phase = NotDisposing | Disposing | DisposeSettled

record live_session =
  lv_id :: string
  lv_runtime :: nat
  lv_connections :: "nat set"
  lv_operationCount :: nat
  lv_ready :: bool
  lv_terminal :: bool
  lv_disposing :: dispose_phase

text \<open>
  A task is a command between two awaits: in \<^verbatim>\<open>acquire\<close> (waiting for a disposal, for the opening of another command, or
  itself acquiring the runtime, taking its first snapshot, or disposing of it after a failure), after
  \<^verbatim>\<open>acquire\<close>, in an operation of the runtime, or in \<^verbatim>\<open>terminate\<close>.
\<close>

datatype task =
    WaitDisposing nat string nat
  | WaitOpening nat string nat
  | Acquiring nat string
  | Snapshotting nat string nat
  | CreateDisposing nat string nat
  | Created nat string "nat option"
  | Acquired nat nat
  | Operating nat nat
  | Terminating nat "nat list"
  | Terminated nat
  | Finished

text \<open>
  Objects are numbered: connections, live sessions, runtimes, tasks. \<open>sv_liveSessions\<close> and \<open>sv_openingSessions\<close> are the
  maps of the code, where an opening is named by the task that runs it, and \<open>sv_settled\<close> says how it ended.
  \<open>sv_runtimes\<close> records for which session a runtime was acquired and whether it is still undisposed.
\<close>

record server =
  sv_connections :: "nat \<Rightarrow> connection option"
  sv_liveSessions :: "string \<Rightarrow> nat option"
  sv_openingSessions :: "string \<Rightarrow> nat option"
  sv_lives :: "nat \<Rightarrow> live_session option"
  sv_tasks :: "nat \<Rightarrow> task option"
  sv_settled :: "nat \<Rightarrow> nat option option"
  sv_runtimes :: "nat \<Rightarrow> (string \<times> bool) option"
  sv_idle :: "nat \<Rightarrow> bool"
  sv_closing :: bool
  sv_awaited :: "nat set"
  sv_cleared :: bool

definition initial_server :: server where
  "initial_server = \<lparr> sv_connections = (\<lambda>_. None), sv_liveSessions = (\<lambda>_. None), sv_openingSessions = (\<lambda>_. None),
     sv_lives = (\<lambda>_. None), sv_tasks = (\<lambda>_. None), sv_settled = (\<lambda>_. None), sv_runtimes = (\<lambda>_. None), sv_idle = (\<lambda>_. True),
     sv_closing = False, sv_awaited = {}, sv_cleared = False \<rparr>"

definition set_task :: "nat \<Rightarrow> task \<Rightarrow> server \<Rightarrow> server" where
  "set_task t k s = s\<lparr> sv_tasks := (sv_tasks s)(t \<mapsto> k) \<rparr>"

definition change_live :: "nat \<Rightarrow> (live_session \<Rightarrow> live_session) \<Rightarrow> server \<Rightarrow> server" where
  "change_live l f s = s\<lparr> sv_lives := (sv_lives s)(l := map_option f (sv_lives s l)) \<rparr>"

definition change_connection :: "nat \<Rightarrow> (connection \<Rightarrow> connection) \<Rightarrow> server \<Rightarrow> server" where
  "change_connection c f s = s\<lparr> sv_connections := (sv_connections s)(c := map_option f (sv_connections s c)) \<rparr>"

section \<open>Connections\<close>

definition accept :: "nat \<Rightarrow> server \<Rightarrow> server" where
  "accept c s =
     (if sv_closing s then s
      else s\<lparr> sv_connections := (sv_connections s)(c \<mapsto> \<lparr> cn_stage = AwaitingHello, cn_disconnected = False,
        cn_handshakeComplete = False, cn_closed = False, cn_sessionIds = [] \<rparr>) \<rparr>)"

definition isTerminalConnection :: "connection \<Rightarrow> bool" where
  "isTerminalConnection x \<longleftrightarrow> cn_disconnected x \<or> cn_stage x = Closing \<or> cn_stage x = Closed"

text \<open>A first message, or a protocol failure (\<^verbatim>\<open>failProtocol\<close>).\<close>

datatype client_message = Hello bool | Request  \<comment> \<open>is the version of the hello supported\<close>

definition failProtocol :: "connection \<Rightarrow> connection" where
  "failProtocol x = (if isTerminalConnection x then x else x\<lparr> cn_stage := Closing \<rparr>)"

definition dispatchMessage :: "client_message \<Rightarrow> connection \<Rightarrow> connection" where
  "dispatchMessage m x =
     (if isTerminalConnection x then x
      else if cn_stage x = AwaitingHello then
        (case m of Request \<Rightarrow> failProtocol x | Hello supported \<Rightarrow>
           (let y = x\<lparr> cn_stage := Handshaking \<rparr> in if supported then y else failProtocol y))
      else case m of Hello supported \<Rightarrow> failProtocol x | Request \<Rightarrow> x)"

text \<open>The end of \<^verbatim>\<open>finishHandshake\<close>, when the hello was sent.\<close>

definition finishHandshake :: "connection \<Rightarrow> connection" where
  "finishHandshake x =
     (if \<not> cn_disconnected x \<and> cn_stage x = Handshaking then x\<lparr> cn_handshakeComplete := True, cn_stage := Ready \<rparr> else x)"

section \<open>Disposal\<close>

definition maybeDispose :: "nat \<Rightarrow> server \<Rightarrow> server" where
  "maybeDispose l s =
     (case sv_lives s l of
        None \<Rightarrow> s
      | Some v \<Rightarrow>
          if sv_closing s \<or> \<not> lv_ready v \<or> lv_disposing v \<noteq> NotDisposing \<or> lv_connections v \<noteq> {} \<or> lv_operationCount v > 0 \<or>
             (\<not> lv_terminal v \<and> \<not> sv_idle s (lv_runtime v))
          then s
          else change_live l (\<lambda>v. v\<lparr> lv_disposing := Disposing \<rparr>) s)"

text \<open>The runtime was disposed of, or its disposal failed.\<close>

definition dispose_settles :: "nat \<Rightarrow> live_session \<Rightarrow> server \<Rightarrow> server" where
  "dispose_settles l v s =
     (let s1 = change_live l (\<lambda>v. v\<lparr> lv_disposing := DisposeSettled \<rparr>) s in
      s1\<lparr> sv_runtimes := (sv_runtimes s)(lv_runtime v \<mapsto> (lv_id v, False)),
          sv_liveSessions := (if sv_liveSessions s (lv_id v) = Some l then (sv_liveSessions s)(lv_id v := None) else sv_liveSessions s) \<rparr>)"

section \<open>Acquiring a session\<close>

definition acquire :: "nat \<Rightarrow> string \<Rightarrow> nat \<Rightarrow> server \<Rightarrow> server" where
  "acquire c i t s =
     (case sv_liveSessions s i of
        Some l \<Rightarrow>
          (case sv_lives s l of
             None \<Rightarrow> s
           | Some v \<Rightarrow>
               if lv_terminal v then set_task t Finished s
               else if lv_disposing v \<noteq> NotDisposing then set_task t (WaitDisposing c i l) s
               else set_task t (Acquired c l) s)
      | None \<Rightarrow>
          (case sv_openingSessions s i of
             Some opening \<Rightarrow> set_task t (WaitOpening c i opening) s
           | None \<Rightarrow> set_task t (Acquiring c i) (s\<lparr> sv_openingSessions := (sv_openingSessions s)(i \<mapsto> t) \<rparr>)))"

text \<open>\<^verbatim>\<open>create\<close>: the service has answered with a runtime.\<close>

definition runtime_acquired :: "nat \<Rightarrow> string \<Rightarrow> nat \<Rightarrow> nat \<Rightarrow> server \<Rightarrow> server" where
  "runtime_acquired c i t r s =
     (let s1 = s\<lparr> sv_runtimes := (sv_runtimes s)(r \<mapsto> (i, True)) \<rparr> in
      if sv_closing s then set_task t (CreateDisposing c i r) s1 else set_task t (Snapshotting c i r) s1)"

text \<open>\<^verbatim>\<open>create\<close>: the first snapshot is there, and the session becomes live when it has the right identifier.\<close>

definition snapshot_taken :: "nat \<Rightarrow> string \<Rightarrow> nat \<Rightarrow> nat \<Rightarrow> nat \<Rightarrow> bool \<Rightarrow> server \<Rightarrow> server" where
  "snapshot_taken c i t r l same s =
     (if \<not> same then set_task t (CreateDisposing c i r) s
      else set_task t (Created c i (Some l)) (s\<lparr>
        sv_lives := (sv_lives s)(l \<mapsto> \<lparr> lv_id = i, lv_runtime = r, lv_connections = {}, lv_operationCount = 0, lv_ready = True,
          lv_terminal = False, lv_disposing = NotDisposing \<rparr>),
        sv_liveSessions := (sv_liveSessions s)(i \<mapsto> l), sv_settled := (sv_settled s)(t \<mapsto> Some l) \<rparr>))"

definition create_failed :: "nat \<Rightarrow> string \<Rightarrow> nat \<Rightarrow> server \<Rightarrow> server" where
  "create_failed c i t s = set_task t (Created c i None) (s\<lparr> sv_settled := (sv_settled s)(t \<mapsto> None) \<rparr>)"

definition runtime_dropped :: "nat \<Rightarrow> string \<Rightarrow> nat \<Rightarrow> nat \<Rightarrow> server \<Rightarrow> server" where
  "runtime_dropped c i t r s = create_failed c i t (s\<lparr> sv_runtimes := (sv_runtimes s)(r \<mapsto> (i, False)) \<rparr>)"

text \<open>The end of \<^verbatim>\<open>acquire\<close> in the task that opened the session, and in one that waited for it.\<close>

definition continue_with :: "nat \<Rightarrow> nat \<Rightarrow> nat option \<Rightarrow> server \<Rightarrow> server" where
  "continue_with c t result s = (case result of None \<Rightarrow> set_task t Finished s | Some l \<Rightarrow> set_task t (Acquired c l) s)"

definition opening_finished :: "nat \<Rightarrow> string \<Rightarrow> nat \<Rightarrow> nat option \<Rightarrow> server \<Rightarrow> server" where
  "opening_finished c i t result s =
     continue_with c t result (s\<lparr> sv_openingSessions :=
       (if sv_openingSessions s i = Some t then (sv_openingSessions s)(i := None) else sv_openingSessions s) \<rparr>)"

definition attach :: "nat \<Rightarrow> nat \<Rightarrow> nat \<Rightarrow> server \<Rightarrow> server" where
  "attach c l t s =
     (case (sv_connections s c, sv_lives s l) of
        (Some x, Some v) \<Rightarrow>
          if cn_disconnected x \<or> cn_stage x \<noteq> Ready \<or> cn_closed x then set_task t Finished (maybeDispose l s)
          else set_task t Finished (change_live l (\<lambda>v. v\<lparr> lv_connections := insert c (lv_connections v) \<rparr>)
            (change_connection c (\<lambda>x. x\<lparr> cn_sessionIds := List.insert (lv_id v) (cn_sessionIds x) \<rparr>) s))
      | _ \<Rightarrow> s)"

section \<open>Commands on live sessions\<close>

definition detach :: "nat \<Rightarrow> string \<Rightarrow> server \<Rightarrow> server" where
  "detach c i s =
     (case sv_connections s c of
        None \<Rightarrow> s
      | Some x \<Rightarrow>
          if i \<in> set (cn_sessionIds x) then
            let s1 = change_connection c (\<lambda>x. x\<lparr> cn_sessionIds := removeAll i (cn_sessionIds x) \<rparr>) s in
            (case sv_liveSessions s i of
               None \<Rightarrow> s1
             | Some l \<Rightarrow> maybeDispose l (change_live l (\<lambda>v. v\<lparr> lv_connections := lv_connections v - {c} \<rparr>) s1))
          else s)"

definition requireAttached :: "nat \<Rightarrow> string \<Rightarrow> server \<Rightarrow> nat option" where
  "requireAttached c i s =
     (case sv_connections s c of
        None \<Rightarrow> None
      | Some x \<Rightarrow>
          if i \<notin> set (cn_sessionIds x) then None
          else case sv_liveSessions s i of
            None \<Rightarrow> None
          | Some l \<Rightarrow>
              (case sv_lives s l of
                 None \<Rightarrow> None
               | Some v \<Rightarrow> if lv_terminal v \<or> lv_disposing v \<noteq> NotDisposing then None else Some l))"

definition runOperation :: "nat \<Rightarrow> nat \<Rightarrow> nat \<Rightarrow> server \<Rightarrow> server" where
  "runOperation c l t s =
     set_task t (Operating c l) (change_live l (\<lambda>v. v\<lparr> lv_operationCount := lv_operationCount v + 1 \<rparr>) s)"

definition operation_ended :: "nat \<Rightarrow> nat \<Rightarrow> server \<Rightarrow> server" where
  "operation_ended l t s =
     maybeDispose l (set_task t Finished (change_live l (\<lambda>v. v\<lparr> lv_operationCount := lv_operationCount v - 1 \<rparr>) s))"

definition disconnect_sessions :: "nat \<Rightarrow> nat list \<Rightarrow> server \<Rightarrow> server" where
  "disconnect_sessions c ls s =
     fold maybeDispose ls (fold (\<lambda>l. change_live l (\<lambda>v. v\<lparr> lv_connections := lv_connections v - {c} \<rparr>)) ls s)"

definition disconnect :: "nat \<Rightarrow> server \<Rightarrow> server" where
  "disconnect c s =
     (case sv_connections s c of
        None \<Rightarrow> s
      | Some x \<Rightarrow>
          if cn_disconnected x then s
          else disconnect_sessions c (List.map_filter (sv_liveSessions s) (cn_sessionIds x))
            (change_connection c (\<lambda>x. x\<lparr> cn_disconnected := True, cn_stage := Closed, cn_sessionIds := [] \<rparr>) s))"

text \<open>\<^verbatim>\<open>terminate\<close>, up to its first await; then the connections are disconnected.\<close>

definition terminate :: "nat \<Rightarrow> nat list \<Rightarrow> nat \<Rightarrow> server \<Rightarrow> server" where
  "terminate l cs t s = set_task t (Terminating l cs) (change_live l (\<lambda>v. v\<lparr> lv_terminal := True \<rparr>) s)"

section \<open>Closing\<close>

definition close_begins :: "server \<Rightarrow> server" where
  "close_begins s = s\<lparr> sv_closing := True, sv_awaited := {t. \<exists>i. sv_openingSessions s i = Some t} \<rparr>"

definition close_sessions :: "server \<Rightarrow> server" where
  "close_sessions s =
     s\<lparr> sv_liveSessions := (\<lambda>_. None), sv_cleared := True,
        sv_lives := (\<lambda>l. map_option (\<lambda>v. if sv_liveSessions s (lv_id v) = Some l \<and> lv_disposing v = NotDisposing
          then v\<lparr> lv_disposing := Disposing \<rparr> else v) (sv_lives s l)) \<rparr>"

section \<open>Steps\<close>

text \<open>
  The commands of a connection that is ready and not disconnected; what the service, the runtimes and the transports do;
  the continuations of the tasks. A runtime, a live session and a task that appear are new.
\<close>

definition may_request :: "nat \<Rightarrow> server \<Rightarrow> bool" where
  "may_request c s \<longleftrightarrow> (\<exists>x. sv_connections s c = Some x \<and> cn_stage x = Ready \<and> \<not> cn_disconnected x)"

inductive server_step :: "server \<Rightarrow> server \<Rightarrow> bool" where
  accept: "sv_connections s c = None \<Longrightarrow> server_step s (accept c s)"
| message: "server_step s (change_connection c (dispatchMessage m) s)"
| handshake: "server_step s (change_connection c finishHandshake s)"
| transport: "server_step s (change_connection c (\<lambda>x. x\<lparr> cn_closed := True \<rparr>) s)"
| failed: "server_step s (change_connection c failProtocol s)"
| command_acquire: "may_request c s \<Longrightarrow> sv_tasks s t = None \<Longrightarrow> server_step s (acquire c i t s)"
| command_detach: "may_request c s \<Longrightarrow> server_step s (detach c i s)"
| command_operation: "may_request c s \<Longrightarrow> sv_tasks s t = None \<Longrightarrow> requireAttached c i s = Some l \<Longrightarrow>
    server_step s (runOperation c l t s)"
| disposal_awaited: "sv_tasks s t = Some (WaitDisposing c i l) \<Longrightarrow> sv_lives s l = Some v \<Longrightarrow> lv_disposing v = DisposeSettled \<Longrightarrow>
    server_step s (if ok then acquire c i t s else set_task t Finished s)"
| opening_awaited: "sv_tasks s t = Some (WaitOpening c i p) \<Longrightarrow> sv_settled s p = Some result \<Longrightarrow>
    server_step s (continue_with c t result s)"
| service_answers: "sv_tasks s t = Some (Acquiring c i) \<Longrightarrow> sv_runtimes s r = None \<Longrightarrow> server_step s (runtime_acquired c i t r s)"
| service_fails: "sv_tasks s t = Some (Acquiring c i) \<Longrightarrow> server_step s (create_failed c i t s)"
| snapshot: "sv_tasks s t = Some (Snapshotting c i r) \<Longrightarrow> sv_lives s l = None \<Longrightarrow> server_step s (snapshot_taken c i t r l same s)"
| dropped: "sv_tasks s t = Some (CreateDisposing c i r) \<Longrightarrow> server_step s (runtime_dropped c i t r s)"
| opened: "sv_tasks s t = Some (Created c i result) \<Longrightarrow> server_step s (opening_finished c i t result s)"
| attach: "sv_tasks s t = Some (Acquired c l) \<Longrightarrow> server_step s (attach c l t s)"
| operation_ends: "sv_tasks s t = Some (Operating c l) \<Longrightarrow> server_step s (operation_ended l t s)"
| runtime_phase: "server_step s (s\<lparr> sv_idle := (sv_idle s)(r := idle) \<rparr>)"
| runtime_event: "server_step s (maybeDispose l s)"
| runtime_error: "sv_lives s l = Some v \<Longrightarrow> \<not> lv_terminal v \<Longrightarrow> sv_tasks s t = None \<Longrightarrow> set cs = lv_connections v \<Longrightarrow>
    server_step s (terminate l cs t s)"
| terminating: "sv_tasks s t = Some (Terminating l cs) \<Longrightarrow> server_step s (set_task t (Terminated l) (fold disconnect cs s))"
| terminated: "sv_tasks s t = Some (Terminated l) \<Longrightarrow> server_step s (set_task t Finished (maybeDispose l s))"
| disconnected: "server_step s (disconnect c s)"
| disposal: "sv_lives s l = Some v \<Longrightarrow> lv_disposing v = Disposing \<Longrightarrow> server_step s (dispose_settles l v s)"
| close: "\<not> sv_closing s \<Longrightarrow> server_step s (close_begins s)"
| close_live: "sv_closing s \<Longrightarrow> \<not> sv_cleared s \<Longrightarrow> (\<And>t. t \<in> sv_awaited s \<Longrightarrow> sv_settled s t \<noteq> None) \<Longrightarrow>
    server_step s (close_sessions s)"

inductive server_reachable :: "server \<Rightarrow> bool" where
  init: "server_reachable initial_server"
| step: "server_reachable s \<Longrightarrow> server_step s s' \<Longrightarrow> server_reachable s'"

section \<open>What the invariant is about\<close>

text \<open>A task that opens a session: it calls the service, or it holds a runtime that is not live yet (and still
  takes the first snapshot, or disposes of it).\<close>

datatype creator = Calling string | Holding string nat bool

fun creator_id :: "creator \<Rightarrow> string" where
  "creator_id (Calling i) = i"
| "creator_id (Holding i r b) = i"

fun task_creator :: "task \<Rightarrow> creator option" where
  "task_creator (Acquiring c i) = Some (Calling i)"
| "task_creator (Snapshotting c i r) = Some (Holding i r True)"
| "task_creator (CreateDisposing c i r) = Some (Holding i r False)"
| "task_creator _ = None"

fun task_operates :: "task \<Rightarrow> nat option" where
  "task_operates (Operating c l) = Some l"
| "task_operates _ = None"

record live_core =
  lc_id :: string
  lc_runtime :: nat
  lc_ops :: nat
  lc_phase :: dispose_phase

definition live_core_of :: "live_session \<Rightarrow> live_core" where
  "live_core_of v = \<lparr> lc_id = lv_id v, lc_runtime = lv_runtime v, lc_ops = lv_operationCount v, lc_phase = lv_disposing v \<rparr>"

record core =
  k_creator :: "nat \<Rightarrow> creator option"
  k_operates :: "nat \<Rightarrow> nat option"
  k_live :: "nat \<Rightarrow> live_core option"
  k_map :: "string \<Rightarrow> nat option"
  k_opening :: "string \<Rightarrow> nat option"
  k_runtime :: "nat \<Rightarrow> (string \<times> bool) option"
  k_settled :: "nat set"
  k_closing :: bool
  k_awaited :: "nat set"
  k_cleared :: bool

definition core_of :: "server \<Rightarrow> core" where
  "core_of s = \<lparr> k_creator = (\<lambda>t. Option.bind (sv_tasks s t) task_creator),
     k_operates = (\<lambda>t. Option.bind (sv_tasks s t) task_operates), k_live = (\<lambda>l. map_option live_core_of (sv_lives s l)),
     k_map = sv_liveSessions s, k_opening = sv_openingSessions s, k_runtime = sv_runtimes s, k_settled = dom (sv_settled s),
     k_closing = sv_closing s, k_awaited = sv_awaited s, k_cleared = sv_cleared s \<rparr>"

definition held :: "core \<Rightarrow> nat \<Rightarrow> string \<Rightarrow> bool" where
  "held k r i \<longleftrightarrow> (\<exists>t b. k_creator k t = Some (Holding i r b)) \<or>
     (\<exists>l v. k_live k l = Some v \<and> lc_runtime v = r \<and> lc_id v = i \<and> lc_phase v \<noteq> DisposeSettled)"

text \<open>
  A task that opens a session is the one registered for it, and the session is not live then. A live session whose
  disposal has not settled is the one registered for its identifier, with an undisposed runtime; once the server has cleared its
  sessions it is being disposed of. An undisposed runtime is held by one or the other. The operation count of a live session
  is the number of its running operations, and a session with a running operation is not being disposed of.
\<close>

definition core_ok :: "core \<Rightarrow> bool" where
  "core_ok k \<longleftrightarrow>
     (\<forall>t x. k_creator k t = Some x \<longrightarrow> k_opening k (creator_id x) = Some t \<and> k_map k (creator_id x) = None \<and> t \<notin> k_settled k) \<and>
     (\<forall>t i r b. k_creator k t = Some (Holding i r b) \<longrightarrow> (b \<longrightarrow> k_closing k \<longrightarrow> t \<in> k_awaited k) \<and> (b \<longrightarrow> \<not> k_cleared k) \<and>
       (\<not> k_cleared k \<longrightarrow> k_runtime k r = Some (i, True))) \<and>
     (\<forall>l v. k_live k l = Some v \<longrightarrow> lc_phase v \<noteq> DisposeSettled \<longrightarrow>
       (\<not> k_cleared k \<longrightarrow> k_map k (lc_id v) = Some l \<and> k_runtime k (lc_runtime v) = Some (lc_id v, True)) \<and>
       (k_cleared k \<longrightarrow> lc_phase v = Disposing)) \<and>
     (\<forall>i l. k_map k i = Some l \<longrightarrow> (\<exists>v. k_live k l = Some v \<and> lc_id v = i \<and> lc_phase v \<noteq> DisposeSettled)) \<and>
     (k_cleared k \<longrightarrow> k_closing k \<and> k_map k = (\<lambda>_. None)) \<and>
     (\<forall>r i. k_runtime k r = Some (i, True) \<longrightarrow> held k r i) \<and>
     (\<forall>l. finite {t. k_operates k t = Some l}) \<and>
     (\<forall>l v. k_live k l = Some v \<longrightarrow> lc_ops v = card {t. k_operates k t = Some l}) \<and>
     (\<forall>t l. k_operates k t = Some l \<longrightarrow> (\<exists>v. k_live k l = Some v \<and> (\<not> k_cleared k \<longrightarrow> lc_phase v = NotDisposing)))"

lemma core_okD:
  assumes "core_ok k"
  shows "k_creator k t = Some x \<Longrightarrow> k_opening k (creator_id x) = Some t \<and> k_map k (creator_id x) = None \<and> t \<notin> k_settled k"
    "k_creator k t = Some (Holding i r b) \<Longrightarrow> (b \<longrightarrow> k_closing k \<longrightarrow> t \<in> k_awaited k) \<and> (b \<longrightarrow> \<not> k_cleared k) \<and>
      (\<not> k_cleared k \<longrightarrow> k_runtime k r = Some (i, True))"
    "k_live k l = Some v \<Longrightarrow> lc_phase v \<noteq> DisposeSettled \<Longrightarrow>
      (\<not> k_cleared k \<longrightarrow> k_map k (lc_id v) = Some l \<and> k_runtime k (lc_runtime v) = Some (lc_id v, True)) \<and>
      (k_cleared k \<longrightarrow> lc_phase v = Disposing)"
    "k_map k i = Some l \<Longrightarrow> \<exists>v. k_live k l = Some v \<and> lc_id v = i \<and> lc_phase v \<noteq> DisposeSettled"
    "k_cleared k \<Longrightarrow> k_closing k \<and> k_map k = (\<lambda>_. None)"
    "k_runtime k r = Some (i, True) \<Longrightarrow> held k r i"
    "finite {t. k_operates k t = Some l}" "k_live k l = Some v \<Longrightarrow> lc_ops v = card {t. k_operates k t = Some l}"
    "k_operates k t = Some l \<Longrightarrow> \<exists>v. k_live k l = Some v \<and> (\<not> k_cleared k \<longrightarrow> lc_phase v = NotDisposing)"
  using assms unfolding core_ok_def by blast+

lemma core_okI:
  assumes "\<And>t x. k_creator k t = Some x \<Longrightarrow> k_opening k (creator_id x) = Some t \<and> k_map k (creator_id x) = None \<and> t \<notin> k_settled k"
    "\<And>t i r b. k_creator k t = Some (Holding i r b) \<Longrightarrow> (b \<longrightarrow> k_closing k \<longrightarrow> t \<in> k_awaited k) \<and> (b \<longrightarrow> \<not> k_cleared k) \<and>
      (\<not> k_cleared k \<longrightarrow> k_runtime k r = Some (i, True))"
    "\<And>l v. k_live k l = Some v \<Longrightarrow> lc_phase v \<noteq> DisposeSettled \<Longrightarrow>
      (\<not> k_cleared k \<longrightarrow> k_map k (lc_id v) = Some l \<and> k_runtime k (lc_runtime v) = Some (lc_id v, True)) \<and>
      (k_cleared k \<longrightarrow> lc_phase v = Disposing)"
    "\<And>i l. k_map k i = Some l \<Longrightarrow> \<exists>v. k_live k l = Some v \<and> lc_id v = i \<and> lc_phase v \<noteq> DisposeSettled"
    "k_cleared k \<Longrightarrow> k_closing k \<and> k_map k = (\<lambda>_. None)"
    "\<And>r i. k_runtime k r = Some (i, True) \<Longrightarrow> held k r i"
    "\<And>l. finite {t. k_operates k t = Some l}" "\<And>l v. k_live k l = Some v \<Longrightarrow> lc_ops v = card {t. k_operates k t = Some l}"
    "\<And>t l. k_operates k t = Some l \<Longrightarrow> \<exists>v. k_live k l = Some v \<and> (\<not> k_cleared k \<longrightarrow> lc_phase v = NotDisposing)"
  shows "core_ok k"
  unfolding core_ok_def using assms by (intro conjI allI impI) auto

lemma held_creator: "k_creator k t = Some (Holding i r b) \<Longrightarrow> held k r i"
  by (auto simp: held_def)

lemma held_live: "k_live k l = Some v \<Longrightarrow> lc_runtime v = r \<Longrightarrow> lc_id v = i \<Longrightarrow> lc_phase v \<noteq> DisposeSettled \<Longrightarrow> held k r i"
  by (auto simp: held_def)

lemma heldE:
  assumes "held k r i"
  obtains t b where "k_creator k t = Some (Holding i r b)"
    | l v where "k_live k l = Some v" "lc_runtime v = r" "lc_id v = i" "lc_phase v \<noteq> DisposeSettled"
  using assms unfolding held_def by blast

section \<open>Every change of the core keeps the invariant\<close>

lemma held_change:
  assumes "held k r i" and "\<And>t b. k_creator k t = Some (Holding i r b) \<Longrightarrow> k_creator k' t = Some (Holding i r b)"
    and "\<And>l v. k_live k l = Some v \<Longrightarrow> lc_runtime v = r \<Longrightarrow> lc_phase v \<noteq> DisposeSettled \<Longrightarrow>
      \<exists>v'. k_live k' l = Some v' \<and> lc_runtime v' = r \<and> lc_id v' = lc_id v \<and> lc_phase v' \<noteq> DisposeSettled"
  shows "held k' r i"
  using assms(1)
proof (cases rule: heldE)
  case (1 t b)
  from assms(2) [OF 1] show ?thesis by (rule held_creator)
next
  case (2 l v)
  with assms(3) [of l v] show ?thesis by (auto intro: held_live)
qed

lemma core_call:
  assumes k: "core_ok k" and i: "k_map k i = None" "k_opening k i = None" and t: "k_creator k t = None" "t \<notin> k_settled k"
  shows "core_ok (k\<lparr> k_opening := (k_opening k)(i \<mapsto> t), k_creator := (k_creator k)(t \<mapsto> Calling i) \<rparr>)" (is "core_ok ?k")
proof (rule core_okI)
  fix t' x assume a: "k_creator ?k t' = Some x"
  show "k_opening ?k (creator_id x) = Some t' \<and> k_map ?k (creator_id x) = None \<and> t' \<notin> k_settled ?k"
  proof (cases "t' = t")
    case False
    with a core_okD(1) [OF k, of t' x] i show ?thesis by auto
  qed (use a i t in auto)
next
  fix r i' assume "k_runtime ?k r = Some (i', True)"
  then have "held k r i'" using core_okD(6) [OF k] by simp
  then show "held ?k r i'" by (rule held_change) (use t in auto)
qed (use core_okD [OF k] in \<open>simp_all split: if_splits\<close>)

lemma core_runtime:
  assumes k: "core_ok k" and t: "k_creator k t = Some (Calling i)" and r: "k_runtime k r = None"
  shows "core_ok (k\<lparr> k_runtime := (k_runtime k)(r \<mapsto> (i, True)), k_creator := (k_creator k)(t \<mapsto> Holding i r (\<not> k_closing k)) \<rparr>)"
    (is "core_ok ?k")
proof (rule core_okI)
  fix t' x assume a: "k_creator ?k t' = Some x"
  show "k_opening ?k (creator_id x) = Some t' \<and> k_map ?k (creator_id x) = None \<and> t' \<notin> k_settled ?k"
    using a core_okD(1) [OF k, of t' x] core_okD(1) [OF k t] by (cases "t' = t") auto
next
  fix t' i' r' b assume a: "k_creator ?k t' = Some (Holding i' r' b)"
  show "(b \<longrightarrow> k_closing ?k \<longrightarrow> t' \<in> k_awaited ?k) \<and> (b \<longrightarrow> \<not> k_cleared ?k) \<and> (\<not> k_cleared ?k \<longrightarrow> k_runtime ?k r' = Some (i', True))"
  proof (cases "t' = t")
    case False
    with a core_okD(2) [OF k, of t' i' r' b] r show ?thesis by auto
  qed (use a core_okD(5) [OF k] in auto)
next
  fix l v assume "k_live ?k l = Some v" "lc_phase v \<noteq> DisposeSettled"
  with core_okD(3) [OF k, of l v] r
  show "(\<not> k_cleared ?k \<longrightarrow> k_map ?k (lc_id v) = Some l \<and> k_runtime ?k (lc_runtime v) = Some (lc_id v, True)) \<and>
      (k_cleared ?k \<longrightarrow> lc_phase v = Disposing)" by auto
next
  fix r' i' assume a: "k_runtime ?k r' = Some (i', True)"
  show "held ?k r' i'"
  proof (cases "r' = r")
    case True
    with a show ?thesis by (intro held_creator [of _ t]) auto
  next
    case False
    with a have "held k r' i'" using core_okD(6) [OF k] by simp
    then show ?thesis by (rule held_change) (use t in auto)
  qed
qed (use core_okD [OF k] in \<open>simp_all split: if_splits\<close>)

lemma core_give_up:
  assumes k: "core_ok k" and t: "k_creator k t = Some (Holding i r True)"
  shows "core_ok (k\<lparr> k_creator := (k_creator k)(t \<mapsto> Holding i r False) \<rparr>)" (is "core_ok ?k")
proof (rule core_okI)
  fix t' x assume a: "k_creator ?k t' = Some x"
  show "k_opening ?k (creator_id x) = Some t' \<and> k_map ?k (creator_id x) = None \<and> t' \<notin> k_settled ?k"
    using a core_okD(1) [OF k, of t' x] core_okD(1) [OF k t] by (cases "t' = t") auto
next
  fix t' i' r' b assume a: "k_creator ?k t' = Some (Holding i' r' b)"
  show "(b \<longrightarrow> k_closing ?k \<longrightarrow> t' \<in> k_awaited ?k) \<and> (b \<longrightarrow> \<not> k_cleared ?k) \<and> (\<not> k_cleared ?k \<longrightarrow> k_runtime ?k r' = Some (i', True))"
    using a core_okD(2) [OF k, of t' i' r' b] core_okD(2) [OF k t] by (cases "t' = t") auto
next
  fix r' i' assume "k_runtime ?k r' = Some (i', True)"
  then have "held k r' i'" using core_okD(6) [OF k] by simp
  then show "held ?k r' i'"
  proof (cases rule: heldE)
    case (1 t' b)
    with t show ?thesis by (cases "t' = t") (auto intro: held_creator [of _ t'])
  qed (auto intro: held_live)
qed (use core_okD [OF k] in \<open>simp_all split: if_splits\<close>)

lemma core_fail:
  assumes k: "core_ok k" and t: "k_creator k t = Some (Calling i)"
  shows "core_ok (k\<lparr> k_creator := (k_creator k)(t := None), k_settled := insert t (k_settled k) \<rparr>)" (is "core_ok ?k")
proof (rule core_okI)
  fix r i' assume "k_runtime ?k r = Some (i', True)"
  then have "held k r i'" using core_okD(6) [OF k] by simp
  then show "held ?k r i'" by (rule held_change) (use t in auto)
qed (use core_okD [OF k] in \<open>simp_all split: if_splits\<close>)

lemma core_drop:
  assumes k: "core_ok k" and t: "k_creator k t = Some (Holding i r b)"
  shows "core_ok (k\<lparr> k_creator := (k_creator k)(t := None), k_settled := insert t (k_settled k),
    k_runtime := (k_runtime k)(r \<mapsto> (i, False)) \<rparr>)" (is "core_ok ?k")
proof (rule core_okI)
  note at = core_okD(1) [OF k t, simplified] core_okD(2) [OF k t]
  fix t' i' r' b' assume "k_creator ?k t' = Some (Holding i' r' b')"
  then have t': "t' \<noteq> t" "k_creator k t' = Some (Holding i' r' b')" by (auto split: if_splits)
  have "\<not> k_cleared k \<Longrightarrow> r' \<noteq> r" using core_okD(1) [OF k t'(2)] core_okD(2) [OF k t'(2)] at t'(1) by auto
  with core_okD(2) [OF k t'(2)] show "(b' \<longrightarrow> k_closing ?k \<longrightarrow> t' \<in> k_awaited ?k) \<and> (b' \<longrightarrow> \<not> k_cleared ?k) \<and>
      (\<not> k_cleared ?k \<longrightarrow> k_runtime ?k r' = Some (i', True))" by auto
next
  fix l v assume "k_live ?k l = Some v" "lc_phase v \<noteq> DisposeSettled"
  then have l: "k_live k l = Some v" "lc_phase v \<noteq> DisposeSettled" by auto
  have "\<not> k_cleared k \<Longrightarrow> lc_runtime v \<noteq> r"
    using core_okD(3) [OF k l] core_okD(1) [OF k t] core_okD(2) [OF k t] by auto
  with core_okD(3) [OF k l] show "(\<not> k_cleared ?k \<longrightarrow> k_map ?k (lc_id v) = Some l \<and> k_runtime ?k (lc_runtime v) = Some (lc_id v, True)) \<and>
      (k_cleared ?k \<longrightarrow> lc_phase v = Disposing)" by auto
next
  fix r' i' assume "k_runtime ?k r' = Some (i', True)"
  then have r': "r' \<noteq> r" "held k r' i'" using core_okD(6) [OF k] by (auto split: if_splits)
  from r'(2) show "held ?k r' i'" by (rule held_change) (use t r'(1) in auto)
qed (use core_okD [OF k] in \<open>simp_all split: if_splits\<close>)

lemma core_opened:
  assumes k: "core_ok k" and t: "k_creator k t = Some (Holding i r True)" and l: "k_live k l = None"
  shows "core_ok (k\<lparr> k_creator := (k_creator k)(t := None), k_settled := insert t (k_settled k), k_map := (k_map k)(i \<mapsto> l),
    k_live := (k_live k)(l \<mapsto> \<lparr> lc_id = i, lc_runtime = r, lc_ops = 0, lc_phase = NotDisposing \<rparr>) \<rparr>)" (is "core_ok ?k")
proof -
  note at = core_okD(1) [OF k t, simplified]
  have open_: "\<not> k_cleared k" "k_runtime k r = Some (i, True)" using core_okD(2) [OF k t] by auto
  have none: "k_operates k t' \<noteq> Some l" for t' using core_okD(9) [OF k, of t' l] l by auto
  show ?thesis
  proof (rule core_okI)
    fix t' x assume "k_creator ?k t' = Some x"
    then have t': "t' \<noteq> t" "k_creator k t' = Some x" by (auto split: if_splits)
    then have "creator_id x \<noteq> i" using core_okD(1) [OF k t'(2)] at by auto
    with t' core_okD(1) [OF k t'(2)]
    show "k_opening ?k (creator_id x) = Some t' \<and> k_map ?k (creator_id x) = None \<and> t' \<notin> k_settled ?k" by auto
  next
    fix l' v assume a: "k_live ?k l' = Some v" "lc_phase v \<noteq> DisposeSettled"
    show "(\<not> k_cleared ?k \<longrightarrow> k_map ?k (lc_id v) = Some l' \<and> k_runtime ?k (lc_runtime v) = Some (lc_id v, True)) \<and>
        (k_cleared ?k \<longrightarrow> lc_phase v = Disposing)"
    proof (cases "l' = l")
      case False
      with a core_okD(3) [OF k, of l' v] open_ at show ?thesis by auto
    qed (use a open_ in auto)
  next
    fix i' l' assume a: "k_map ?k i' = Some l'"
    show "\<exists>v. k_live ?k l' = Some v \<and> lc_id v = i' \<and> lc_phase v \<noteq> DisposeSettled"
    proof (cases "i' = i")
      case False
      with a core_okD(4) [OF k, of i' l'] l show ?thesis by auto
    qed (use a in auto)
  next
    fix r' i' assume a: "k_runtime ?k r' = Some (i', True)"
    show "held ?k r' i'"
    proof (cases "r' = r")
      case True
      with a open_ show ?thesis by (intro held_live [of _ l]) auto
    next
      case False
      from a have "held k r' i'" using core_okD(6) [OF k] by simp
      then show ?thesis by (rule held_change) (use t l False in auto)
    qed
  next
    fix l' v assume "k_live ?k l' = Some v"
    then show "lc_ops v = card {t'. k_operates ?k t' = Some l'}"
      using core_okD(8) [OF k, of l' v] none by (cases "l' = l") auto
  qed (use core_okD [OF k] none open_ in \<open>simp_all split: if_splits\<close>)
qed

lemma core_forget_opening:
  assumes k: "core_ok k" and "k_creator k t = None"
  shows "core_ok (k\<lparr> k_opening := (if k_opening k i = Some t then (k_opening k)(i := None) else k_opening k) \<rparr>)" (is "core_ok ?k")
proof (rule core_okI)
  fix t' x assume "k_creator ?k t' = Some x"
  then have "t' \<noteq> t" "k_creator k t' = Some x" using assms(2) by auto
  with core_okD(1) [OF k, of t' x]
  show "k_opening ?k (creator_id x) = Some t' \<and> k_map ?k (creator_id x) = None \<and> t' \<notin> k_settled ?k" by auto
next
  fix r i' assume "k_runtime ?k r = Some (i', True)"
  then have "held k r i'" using core_okD(6) [OF k] by simp
  then show "held ?k r i'" by (rule held_change) auto
qed (use core_okD [OF k] in \<open>simp_all split: if_splits\<close>)

lemma core_dispose:
  assumes k: "core_ok k" and l: "k_live k l = Some v" "lc_phase v = NotDisposing" "lc_ops v = 0"
  shows "core_ok (k\<lparr> k_live := (k_live k)(l \<mapsto> v\<lparr> lc_phase := Disposing \<rparr>) \<rparr>)" (is "core_ok ?k")
proof -
  have none: "k_operates k t \<noteq> Some l" for t
    using core_okD(8) [OF k l(1)] core_okD(7) [OF k, of l] l(3) by auto
  show ?thesis
  proof (rule core_okI)
    fix l' w assume "k_live ?k l' = Some w" "lc_phase w \<noteq> DisposeSettled"
    then show "(\<not> k_cleared ?k \<longrightarrow> k_map ?k (lc_id w) = Some l' \<and> k_runtime ?k (lc_runtime w) = Some (lc_id w, True)) \<and>
        (k_cleared ?k \<longrightarrow> lc_phase w = Disposing)"
      using core_okD(3) [OF k, of l' w] core_okD(3) [OF k l(1)] l(2) by (cases "l' = l") auto
  next
    fix i l' assume "k_map ?k i = Some l'"
    then show "\<exists>v. k_live ?k l' = Some v \<and> lc_id v = i \<and> lc_phase v \<noteq> DisposeSettled"
      using core_okD(4) [OF k, of i l'] l by auto
  next
    fix r i' assume "k_runtime ?k r = Some (i', True)"
    then have "held k r i'" using core_okD(6) [OF k] by simp
    then show "held ?k r i'" by (rule held_change) (use l in auto)
  next
    fix l' w assume "k_live ?k l' = Some w"
    then show "lc_ops w = card {t'. k_operates ?k t' = Some l'}"
      using core_okD(8) [OF k, of l' w] core_okD(8) [OF k l(1)] by (cases "l' = l") auto
  next
    fix t l' assume "k_operates ?k t = Some l'"
    then show "\<exists>v. k_live ?k l' = Some v \<and> (\<not> k_cleared ?k \<longrightarrow> lc_phase v = NotDisposing)"
      using core_okD(9) [OF k, of t l'] none by auto
  qed (use core_okD [OF k] in \<open>simp_all split: if_splits\<close>)
qed

lemma core_settle:
  assumes k: "core_ok k" and l: "k_live k l = Some v" "lc_phase v = Disposing"
  shows "core_ok (k\<lparr> k_live := (k_live k)(l \<mapsto> v\<lparr> lc_phase := DisposeSettled \<rparr>), k_runtime := (k_runtime k)(lc_runtime v \<mapsto> (lc_id v, False)),
    k_map := (if k_map k (lc_id v) = Some l then (k_map k)(lc_id v := None) else k_map k) \<rparr>)" (is "core_ok ?k")
proof -
  note at = core_okD(3) [OF k l(1)]
  show ?thesis
  proof (rule core_okI)
    fix t x assume "k_creator ?k t = Some x"
    then show "k_opening ?k (creator_id x) = Some t \<and> k_map ?k (creator_id x) = None \<and> t \<notin> k_settled ?k"
      using core_okD(1) [OF k, of t x] by auto
  next
    fix t i r b assume "k_creator ?k t = Some (Holding i r b)"
    then have t: "k_creator k t = Some (Holding i r b)" by simp
    then have "\<not> k_cleared k \<Longrightarrow> r \<noteq> lc_runtime v" using core_okD(1) [OF k t] core_okD(2) [OF k t] at l(2) by auto
    with core_okD(2) [OF k t] show "(b \<longrightarrow> k_closing ?k \<longrightarrow> t \<in> k_awaited ?k) \<and> (b \<longrightarrow> \<not> k_cleared ?k) \<and>
        (\<not> k_cleared ?k \<longrightarrow> k_runtime ?k r = Some (i, True))" by auto
  next
    fix l' w assume "k_live ?k l' = Some w" "lc_phase w \<noteq> DisposeSettled"
    then have l': "l' \<noteq> l" "k_live k l' = Some w" "lc_phase w \<noteq> DisposeSettled" by (auto split: if_splits)
    then have "\<not> k_cleared k \<Longrightarrow> lc_id w \<noteq> lc_id v" using core_okD(3) [OF k l'(2,3)] at l(2) by auto
    moreover from this have "\<not> k_cleared k \<Longrightarrow> lc_runtime w \<noteq> lc_runtime v" using core_okD(3) [OF k l'(2,3)] at l(2) by auto
    ultimately show "(\<not> k_cleared ?k \<longrightarrow> k_map ?k (lc_id w) = Some l' \<and> k_runtime ?k (lc_runtime w) = Some (lc_id w, True)) \<and>
        (k_cleared ?k \<longrightarrow> lc_phase w = Disposing)"
      using core_okD(3) [OF k l'(2,3)] by auto
  next
    fix i l' assume "k_map ?k i = Some l'"
    then have m: "k_map k i = Some l'" "\<not> (i = lc_id v \<and> l' = l)" by (auto split: if_splits)
    then show "\<exists>v. k_live ?k l' = Some v \<and> lc_id v = i \<and> lc_phase v \<noteq> DisposeSettled"
      using core_okD(4) [OF k m(1)] l by auto
  next
    fix r i' assume "k_runtime ?k r = Some (i', True)"
    then have r: "r \<noteq> lc_runtime v" "held k r i'" using core_okD(6) [OF k] by (auto split: if_splits)
    from r(2) show "held ?k r i'" by (rule held_change) (use l r(1) in auto)
  next
    fix l' w assume "k_live ?k l' = Some w"
    then show "lc_ops w = card {t'. k_operates ?k t' = Some l'}"
      using core_okD(8) [OF k, of l' w] core_okD(8) [OF k l(1)] by (cases "l' = l") auto
  next
    fix t l' assume "k_operates ?k t = Some l'"
    then show "\<exists>v. k_live ?k l' = Some v \<and> (\<not> k_cleared ?k \<longrightarrow> lc_phase v = NotDisposing)"
      using core_okD(9) [OF k, of t l'] l by auto
  next
    assume "k_cleared ?k"
    then show "k_closing ?k \<and> k_map ?k = (\<lambda>_. None)" using core_okD(5) [OF k] by auto
  qed (use core_okD [OF k] in \<open>simp_all split: if_splits\<close>)
qed

lemma core_operate:
  assumes k: "core_ok k" and l: "k_live k l = Some v" "lc_phase v = NotDisposing" and t: "k_operates k t = None"
  shows "core_ok (k\<lparr> k_live := (k_live k)(l \<mapsto> v\<lparr> lc_ops := lc_ops v + 1 \<rparr>), k_operates := (k_operates k)(t \<mapsto> l) \<rparr>)" (is "core_ok ?k")
proof (rule core_okI)
  have set_: "{t'. k_operates ?k t' = Some l'} = (if l' = l then insert t {t'. k_operates k t' = Some l} else {t'. k_operates k t' = Some l'})" for l'
    using t by auto
  fix l'
  show "finite {t'. k_operates ?k t' = Some l'}"
    unfolding set_ using core_okD(7) [OF k] by simp
  fix w assume "k_live ?k l' = Some w"
  then show "lc_ops w = card {t'. k_operates ?k t' = Some l'}"
    unfolding set_ using core_okD(8) [OF k, of l' w] core_okD(8) [OF k l(1)] core_okD(7) [OF k, of l] t by (cases "l' = l") auto
next
  fix l' w assume "k_live ?k l' = Some w" "lc_phase w \<noteq> DisposeSettled"
  then show "(\<not> k_cleared ?k \<longrightarrow> k_map ?k (lc_id w) = Some l' \<and> k_runtime ?k (lc_runtime w) = Some (lc_id w, True)) \<and>
      (k_cleared ?k \<longrightarrow> lc_phase w = Disposing)"
    using core_okD(3) [OF k, of l' w] core_okD(3) [OF k l(1)] l(2) by (cases "l' = l") auto
next
  fix i l' assume "k_map ?k i = Some l'"
  then show "\<exists>v. k_live ?k l' = Some v \<and> lc_id v = i \<and> lc_phase v \<noteq> DisposeSettled"
    using core_okD(4) [OF k, of i l'] l by auto
next
  fix r i' assume "k_runtime ?k r = Some (i', True)"
  then have "held k r i'" using core_okD(6) [OF k] by simp
  then show "held ?k r i'" by (rule held_change) (use l in auto)
next
  fix t' l' assume "k_operates ?k t' = Some l'"
  then show "\<exists>v. k_live ?k l' = Some v \<and> (\<not> k_cleared ?k \<longrightarrow> lc_phase v = NotDisposing)"
    using core_okD(9) [OF k, of t' l'] l by (cases "t' = t") auto
qed (use core_okD [OF k] in \<open>simp_all split: if_splits\<close>)

lemma core_operated:
  assumes k: "core_ok k" and l: "k_live k l = Some v" and t: "k_operates k t = Some l"
  shows "core_ok (k\<lparr> k_live := (k_live k)(l \<mapsto> v\<lparr> lc_ops := lc_ops v - 1 \<rparr>), k_operates := (k_operates k)(t := None) \<rparr>)" (is "core_ok ?k")
proof (rule core_okI)
  have set_: "{t'. k_operates ?k t' = Some l'} = {t'. k_operates k t' = Some l'} - {t}" for l' by auto
  fix l'
  show "finite {t'. k_operates ?k t' = Some l'}"
    unfolding set_ using core_okD(7) [OF k] by simp
  fix w assume "k_live ?k l' = Some w"
  then show "lc_ops w = card {t'. k_operates ?k t' = Some l'}"
    unfolding set_ using core_okD(8) [OF k, of l' w] core_okD(8) [OF k l(1)] core_okD(7) [OF k, of l] t
    by (cases "l' = l") (auto simp: card_Diff_singleton)
next
  fix l' w assume "k_live ?k l' = Some w" "lc_phase w \<noteq> DisposeSettled"
  then show "(\<not> k_cleared ?k \<longrightarrow> k_map ?k (lc_id w) = Some l' \<and> k_runtime ?k (lc_runtime w) = Some (lc_id w, True)) \<and>
      (k_cleared ?k \<longrightarrow> lc_phase w = Disposing)"
    using core_okD(3) [OF k, of l' w] core_okD(3) [OF k l(1)] by (cases "l' = l") auto
next
  fix i l' assume "k_map ?k i = Some l'"
  then show "\<exists>v. k_live ?k l' = Some v \<and> lc_id v = i \<and> lc_phase v \<noteq> DisposeSettled"
    using core_okD(4) [OF k, of i l'] l by auto
next
  fix r i' assume "k_runtime ?k r = Some (i', True)"
  then have "held k r i'" using core_okD(6) [OF k] by simp
  then show "held ?k r i'" by (rule held_change) (use l in auto)
next
  fix t' l' assume "k_operates ?k t' = Some l'"
  then show "\<exists>v. k_live ?k l' = Some v \<and> (\<not> k_cleared ?k \<longrightarrow> lc_phase v = NotDisposing)"
    using core_okD(9) [OF k, of t' l'] l by (cases "t' = t") auto
qed (use core_okD [OF k] in \<open>simp_all split: if_splits\<close>)

lemma core_close:
  assumes k: "core_ok k" and "\<not> k_closing k"
  shows "core_ok (k\<lparr> k_closing := True, k_awaited := {t. \<exists>i. k_opening k i = Some t} \<rparr>)" (is "core_ok ?k")
proof (rule core_okI)
  fix t i r b assume t: "k_creator ?k t = Some (Holding i r b)"
  then show "(b \<longrightarrow> k_closing ?k \<longrightarrow> t \<in> k_awaited ?k) \<and> (b \<longrightarrow> \<not> k_cleared ?k) \<and> (\<not> k_cleared ?k \<longrightarrow> k_runtime ?k r = Some (i, True))"
    using core_okD(1) [OF k, of t "Holding i r b"] core_okD(2) [OF k, of t i r b] by auto
next
  fix r i' assume "k_runtime ?k r = Some (i', True)"
  then have "held k r i'" using core_okD(6) [OF k] by simp
  then show "held ?k r i'" by (rule held_change) auto
qed (use core_okD [OF k] in \<open>simp_all split: if_splits\<close>)

definition swept :: "core \<Rightarrow> nat \<Rightarrow> live_core \<Rightarrow> live_core" where
  "swept k l v = (if k_map k (lc_id v) = Some l \<and> lc_phase v = NotDisposing then v\<lparr> lc_phase := Disposing \<rparr> else v)"

lemma core_clear:
  assumes k: "core_ok k" and "k_closing k" and "\<not> k_cleared k" and awaited: "\<And>t. t \<in> k_awaited k \<Longrightarrow> t \<in> k_settled k"
  shows "core_ok (k\<lparr> k_map := (\<lambda>_. None), k_cleared := True, k_live := (\<lambda>l. map_option (swept k l) (k_live k l)) \<rparr>)" (is "core_ok ?k")
proof (rule core_okI)
  fix t i r b assume t: "k_creator ?k t = Some (Holding i r b)"
  then show "(b \<longrightarrow> k_closing ?k \<longrightarrow> t \<in> k_awaited ?k) \<and> (b \<longrightarrow> \<not> k_cleared ?k) \<and> (\<not> k_cleared ?k \<longrightarrow> k_runtime ?k r = Some (i, True))"
    using core_okD(1) [OF k, of t "Holding i r b"] core_okD(2) [OF k, of t i r b] assms(2) awaited by auto
next
  fix l w assume "k_live ?k l = Some w" "lc_phase w \<noteq> DisposeSettled"
  then obtain v where v: "k_live k l = Some v" "w = swept k l v" by auto
  with \<open>lc_phase w \<noteq> DisposeSettled\<close> have "lc_phase v \<noteq> DisposeSettled" by (auto simp: swept_def)
  note v = v this
  with core_okD(3) [OF k v(1,3)] assms(3) have "lc_phase w = Disposing"
    by (cases "lc_phase v") (auto simp: swept_def)
  then show "(\<not> k_cleared ?k \<longrightarrow> k_map ?k (lc_id w) = Some l \<and> k_runtime ?k (lc_runtime w) = Some (lc_id w, True)) \<and>
      (k_cleared ?k \<longrightarrow> lc_phase w = Disposing)" by simp
next
  fix r i' assume "k_runtime ?k r = Some (i', True)"
  then have "held k r i'" using core_okD(6) [OF k] by simp
  then show "held ?k r i'" by (rule held_change) (auto simp: swept_def)
next
  fix l w assume "k_live ?k l = Some w"
  then show "lc_ops w = card {t. k_operates ?k t = Some l}" using core_okD(8) [OF k, of l] by (auto simp: swept_def)
next
  fix t l assume "k_operates ?k t = Some l"
  then show "\<exists>v. k_live ?k l = Some v \<and> (\<not> k_cleared ?k \<longrightarrow> lc_phase v = NotDisposing)"
    using core_okD(9) [OF k, of t l] by auto
qed (use core_okD [OF k] assms(2) in \<open>simp_all split: if_splits\<close>)
section \<open>Every step keeps the invariant\<close>

lemma core_set_task [simp]:
  "core_of (set_task t x s) = (core_of s)\<lparr> k_creator := (k_creator (core_of s))(t := task_creator x),
     k_operates := (k_operates (core_of s))(t := task_operates x) \<rparr>"
  by (simp add: core_of_def set_task_def fun_eq_iff)

lemma core_change_connection [simp]: "core_of (change_connection c f s) = core_of s"
  by (simp add: core_of_def change_connection_def)

lemma core_change_live:
  "core_of (change_live l f s) = (core_of s)\<lparr> k_live := (k_live (core_of s))(l := map_option (\<lambda>v. live_core_of (f v)) (sv_lives s l)) \<rparr>"
  by (auto simp: core_of_def change_live_def fun_eq_iff option.map_comp comp_def)

lemma core_same_live:
  assumes "\<And>v. live_core_of (f v) = live_core_of v"
  shows "core_of (change_live l f s) = core_of s"
  by (simp add: core_change_live assms) (simp add: core_of_def fun_upd_idem)

lemma core_select [simp]:
  "k_creator (core_of s) t = Option.bind (sv_tasks s t) task_creator" "k_operates (core_of s) t = Option.bind (sv_tasks s t) task_operates"
  "k_live (core_of s) l = map_option live_core_of (sv_lives s l)" "k_map (core_of s) = sv_liveSessions s"
  "k_opening (core_of s) = sv_openingSessions s" "k_runtime (core_of s) = sv_runtimes s" "k_settled (core_of s) = dom (sv_settled s)"
  "k_closing (core_of s) = sv_closing s" "k_awaited (core_of s) = sv_awaited s" "k_cleared (core_of s) = sv_cleared s"
  by (simp_all add: core_of_def)

lemma live_core_select [simp]:
  "lc_id (live_core_of v) = lv_id v" "lc_runtime (live_core_of v) = lv_runtime v" "lc_ops (live_core_of v) = lv_operationCount v"
  "lc_phase (live_core_of v) = lv_disposing v"
  by (simp_all add: live_core_of_def)

text \<open>A task that neither opens a session nor runs an operation, before and after.\<close>

definition quiet :: "server \<Rightarrow> nat \<Rightarrow> bool" where
  "quiet s t \<longleftrightarrow> Option.bind (sv_tasks s t) task_creator = None \<and> Option.bind (sv_tasks s t) task_operates = None"

lemma core_quiet_task:
  assumes "quiet s t" and "task_creator x = None" and "task_operates x = None"
  shows "core_of (set_task t x s) = core_of s"
proof -
  have "(k_creator (core_of s))(t := None) = k_creator (core_of s)" "(k_operates (core_of s))(t := None) = k_operates (core_of s)"
    using assms(1) by (simp_all add: quiet_def fun_eq_iff)
  with assms(2,3) show ?thesis by simp
qed

lemma maybeDispose_ok: "core_ok (core_of s) \<Longrightarrow> core_ok (core_of (maybeDispose l s))"
proof -
  assume k: "core_ok (core_of s)"
  show ?thesis
  proof (cases "maybeDispose l s = s")
    case False
    then obtain v where v: "sv_lives s l = Some v" "lv_disposing v = NotDisposing" "lv_operationCount v = 0"
      "maybeDispose l s = change_live l (\<lambda>v. v\<lparr> lv_disposing := Disposing \<rparr>) s"
      by (auto simp: maybeDispose_def split: option.splits if_splits)
    have "core_of (maybeDispose l s) = (core_of s)\<lparr> k_live := (k_live (core_of s))(l \<mapsto> (live_core_of v)\<lparr> lc_phase := Disposing \<rparr>) \<rparr>"
      using v by (simp add: core_change_live live_core_of_def)
    with core_dispose [OF k, of l "live_core_of v"] v show ?thesis by simp
  qed (use k in simp)
qed

lemma maybeDispose_frame [simp]:
  "sv_tasks (maybeDispose l s) = sv_tasks s" "sv_settled (maybeDispose l s) = sv_settled s"
  "sv_connections (maybeDispose l s) = sv_connections s" "sv_liveSessions (maybeDispose l s) = sv_liveSessions s"
  by (auto simp: maybeDispose_def change_live_def split: option.splits)

lemma drop_connection_core: "core_of (change_live l (\<lambda>v. v\<lparr> lv_connections := g v \<rparr>) s) = core_of s"
  by (rule core_same_live) (simp add: live_core_of_def)

lemma disconnect_sessions_ok: "core_ok (core_of s) \<Longrightarrow> core_ok (core_of (disconnect_sessions c ls s))"
proof -
  assume k: "core_ok (core_of s)"
  have "core_of (fold (\<lambda>l. change_live l (\<lambda>v. v\<lparr> lv_connections := lv_connections v - {c} \<rparr>)) ls s) = core_of s" for s
    by (induction ls arbitrary: s) (simp_all add: drop_connection_core)
  moreover have "core_ok (core_of s) \<Longrightarrow> core_ok (core_of (fold maybeDispose ls s))" for s
    by (induction ls arbitrary: s) (simp_all add: maybeDispose_ok)
  ultimately show ?thesis using k by (simp add: disconnect_sessions_def)
qed

lemma change_frame [simp]:
  "sv_tasks (change_live l f s) = sv_tasks s" "sv_settled (change_live l f s) = sv_settled s"
  "sv_tasks (change_connection c h s) = sv_tasks s" "sv_settled (change_connection c h s) = sv_settled s"
  "sv_settled (set_task t x s) = sv_settled s" "sv_tasks (set_task t x s) = (sv_tasks s)(t \<mapsto> x)"
  "sv_lives (set_task t x s) = sv_lives s" "sv_lives (change_connection c h s) = sv_lives s"
  "sv_liveSessions (change_connection c h s) = sv_liveSessions s" "sv_liveSessions (change_live l f s) = sv_liveSessions s"
  "sv_lives (change_live l f s) = (sv_lives s)(l := map_option f (sv_lives s l))"
  by (simp_all add: change_live_def change_connection_def set_task_def)

lemma disconnect_sessions_frame [simp]:
  "sv_tasks (disconnect_sessions c ls s) = sv_tasks s" "sv_settled (disconnect_sessions c ls s) = sv_settled s"
proof -
  let ?f = "\<lambda>l. change_live l (\<lambda>v. v\<lparr> lv_connections := lv_connections v - {c} \<rparr>)"
  have "sv_tasks (fold ?f ls s) = sv_tasks s \<and> sv_settled (fold ?f ls s) = sv_settled s" for s
    by (induction ls arbitrary: s) simp_all
  moreover have "sv_tasks (fold maybeDispose ls s) = sv_tasks s \<and> sv_settled (fold maybeDispose ls s) = sv_settled s" for s
    by (induction ls arbitrary: s) simp_all
  ultimately show "sv_tasks (disconnect_sessions c ls s) = sv_tasks s" "sv_settled (disconnect_sessions c ls s) = sv_settled s"
    by (simp_all add: disconnect_sessions_def)
qed

lemma disconnect_ok: "core_ok (core_of s) \<Longrightarrow> core_ok (core_of (disconnect c s))"
  by (auto simp: disconnect_def split: option.splits intro: disconnect_sessions_ok)

lemma disconnect_frame [simp]: "sv_tasks (disconnect c s) = sv_tasks s" "sv_settled (disconnect c s) = sv_settled s"
  by (auto simp: disconnect_def split: option.splits)

lemma disconnects_ok: "core_ok (core_of s) \<Longrightarrow> core_ok (core_of (fold disconnect cs s))"
  by (induction cs arbitrary: s) (simp_all add: disconnect_ok)

lemma disconnects_frame [simp]: "sv_tasks (fold disconnect cs s) = sv_tasks s" "sv_settled (fold disconnect cs s) = sv_settled s"
  by (induction cs arbitrary: s) simp_all
text \<open>A task whose opening has settled is over with it.\<close>

fun settled_task :: "task \<Rightarrow> bool" where
  "settled_task (Created c i r) \<longleftrightarrow> True"
| "settled_task (Acquired c l) \<longleftrightarrow> True"
| "settled_task Finished \<longleftrightarrow> True"
| "settled_task _ \<longleftrightarrow> False"

definition settled_ok :: "server \<Rightarrow> bool" where
  "settled_ok s \<longleftrightarrow> (\<forall>t. sv_settled s t \<noteq> None \<longrightarrow> (\<exists>x. sv_tasks s t = Some x \<and> settled_task x))"

definition server_ok :: "server \<Rightarrow> bool" where
  "server_ok s \<longleftrightarrow> core_ok (core_of s) \<and> settled_ok s"

lemma server_okD: "server_ok s \<Longrightarrow> core_ok (core_of s)" "server_ok s \<Longrightarrow> sv_settled s t \<noteq> None \<Longrightarrow> \<exists>x. sv_tasks s t = Some x \<and> settled_task x"
  by (auto simp: server_ok_def settled_ok_def)

lemma settled_frame:
  assumes "server_ok s" and "sv_settled s' = sv_settled s" and "\<And>t. sv_settled s t \<noteq> None \<Longrightarrow> sv_tasks s' t = sv_tasks s t"
  shows "settled_ok s'"
  using assms server_okD(2) [OF assms(1)] unfolding settled_ok_def by metis

lemma settled_set_task:
  assumes "settled_ok s" and "sv_settled s t = None \<or> settled_task x"
  shows "settled_ok (set_task t x s)"
  using assms unfolding settled_ok_def by auto

lemma acquire_ok:
  assumes s: "server_ok s" and q: "quiet s t" "sv_settled s t = None"
  shows "server_ok (acquire c i t s)"
proof -
  note k = server_okD(1) [OF s]
  have so: "settled_ok s" using s by (simp add: server_ok_def)
  have quiet_ok: "server_ok (set_task t x s)" if "task_creator x = None" "task_operates x = None" for x
    unfolding server_ok_def core_quiet_task [OF q(1) that] using k so q(2) settled_set_task by blast
  show ?thesis
  proof (cases "sv_liveSessions s i = None \<and> sv_openingSessions s i = None")
    case True
    let ?s1 = "s\<lparr> sv_openingSessions := (sv_openingSessions s)(i \<mapsto> t) \<rparr>"
    have core: "core_of (acquire c i t s) = (core_of s)\<lparr> k_opening := (k_opening (core_of s))(i \<mapsto> t),
        k_creator := (k_creator (core_of s))(t \<mapsto> Calling i) \<rparr>"
      using True q(1) by (auto simp: acquire_def core_of_def set_task_def quiet_def fun_eq_iff)
    have "core_ok (core_of (acquire c i t s))"
      unfolding core by (rule core_call [OF k]) (use True q in \<open>auto simp: quiet_def\<close>)
    moreover have "settled_ok (acquire c i t s)"
      using True so q(2) by (auto simp: acquire_def settled_ok_def set_task_def)
    ultimately show ?thesis by (simp add: server_ok_def)
  next
    case False
    then show ?thesis
      using s by (auto simp: acquire_def quiet_ok split: option.splits)
  qed
qed

lemma attach_ok:
  assumes s: "server_ok s" and t: "sv_tasks s t = Some (Acquired c l)"
  shows "server_ok (attach c l t s)"
proof -
  note k = server_okD(1) [OF s]
  have so: "settled_ok s" using s by (simp add: server_ok_def)
  have fin: "server_ok (set_task t Finished s')" if "core_ok (core_of s')" "sv_tasks s' = sv_tasks s" "sv_settled s' = sv_settled s" for s'
  proof -
    have "quiet s' t" using that(2) t by (simp add: quiet_def)
    then have "core_of (set_task t Finished s') = core_of s'" by (intro core_quiet_task) simp_all
    moreover have "settled_ok s'" using so that(2,3) by (simp add: settled_ok_def)
    ultimately show ?thesis using that(1) settled_set_task [of s' t Finished] by (simp add: server_ok_def)
  qed
  have "core_ok (core_of (maybeDispose l s))" using maybeDispose_ok [OF k] .
  then show ?thesis
    using s k by (auto simp: attach_def drop_connection_core split: option.splits intro!: fin)
qed

lemma runtime_acquired_ok:
  assumes s: "server_ok s" and t: "sv_tasks s t = Some (Acquiring c i)" and r: "sv_runtimes s r = None"
  shows "server_ok (runtime_acquired c i t r s)"
proof -
  have core: "core_of (runtime_acquired c i t r s) = (core_of s)\<lparr> k_runtime := (k_runtime (core_of s))(r \<mapsto> (i, True)),
      k_creator := (k_creator (core_of s))(t \<mapsto> Holding i r (\<not> k_closing (core_of s))) \<rparr>"
    using t by (auto simp: runtime_acquired_def Let_def core_of_def set_task_def fun_eq_iff)
  have "core_ok (core_of (runtime_acquired c i t r s))"
    unfolding core by (rule core_runtime [OF server_okD(1) [OF s]]) (use t r in auto)
  moreover have "settled_ok (runtime_acquired c i t r s)"
    by (rule settled_frame [OF s]) (use server_okD(2) [OF s, of t] t in \<open>auto simp: runtime_acquired_def Let_def set_task_def\<close>)
  ultimately show ?thesis by (simp add: server_ok_def)
qed

lemma create_failed_ok:
  assumes s: "server_ok s" and t: "sv_tasks s t = Some (Acquiring c i)"
  shows "server_ok (create_failed c i t s)"
proof -
  have core: "core_of (create_failed c i t s) = (core_of s)\<lparr> k_creator := (k_creator (core_of s))(t := None),
      k_settled := insert t (k_settled (core_of s)) \<rparr>"
    using t by (auto simp: create_failed_def core_of_def set_task_def fun_eq_iff)
  have "core_ok (core_of (create_failed c i t s))"
    unfolding core by (rule core_fail [OF server_okD(1) [OF s]]) (use t in auto)
  then show ?thesis
    using s by (auto simp: server_ok_def settled_ok_def create_failed_def set_task_def)
qed

lemma runtime_dropped_ok:
  assumes s: "server_ok s" and t: "sv_tasks s t = Some (CreateDisposing c i r)"
  shows "server_ok (runtime_dropped c i t r s)"
proof -
  have core: "core_of (runtime_dropped c i t r s) = (core_of s)\<lparr> k_creator := (k_creator (core_of s))(t := None),
      k_settled := insert t (k_settled (core_of s)), k_runtime := (k_runtime (core_of s))(r \<mapsto> (i, False)) \<rparr>"
    using t by (auto simp: runtime_dropped_def create_failed_def core_of_def set_task_def fun_eq_iff)
  have "core_ok (core_of (runtime_dropped c i t r s))"
    unfolding core by (rule core_drop [OF server_okD(1) [OF s]]) (use t in auto)
  then show ?thesis
    using s by (auto simp: server_ok_def settled_ok_def runtime_dropped_def create_failed_def set_task_def)
qed

lemma snapshot_taken_ok:
  assumes s: "server_ok s" and t: "sv_tasks s t = Some (Snapshotting c i r)" and l: "sv_lives s l = None"
  shows "server_ok (snapshot_taken c i t r l same s)"
proof (cases same)
  case True
  have core: "core_of (snapshot_taken c i t r l same s) = (core_of s)\<lparr> k_creator := (k_creator (core_of s))(t := None),
      k_settled := insert t (k_settled (core_of s)), k_map := (k_map (core_of s))(i \<mapsto> l),
      k_live := (k_live (core_of s))(l \<mapsto> \<lparr> lc_id = i, lc_runtime = r, lc_ops = 0, lc_phase = NotDisposing \<rparr>) \<rparr>"
    using t True by (auto simp: snapshot_taken_def core_of_def set_task_def fun_eq_iff live_core_of_def)
  have "core_ok (core_of (snapshot_taken c i t r l same s))"
    unfolding core by (rule core_opened [OF server_okD(1) [OF s]]) (use t l in auto)
  then show ?thesis
    using s True by (auto simp: server_ok_def settled_ok_def snapshot_taken_def set_task_def)
next
  case False
  have core: "core_of (snapshot_taken c i t r l same s) = (core_of s)\<lparr> k_creator := (k_creator (core_of s))(t \<mapsto> Holding i r False) \<rparr>"
    using t False by (auto simp: snapshot_taken_def core_of_def set_task_def fun_eq_iff)
  have "core_ok (core_of (snapshot_taken c i t r l same s))"
    unfolding core by (rule core_give_up [OF server_okD(1) [OF s]]) (use t in auto)
  moreover have "settled_ok (snapshot_taken c i t r l same s)"
    by (rule settled_frame [OF s]) (use server_okD(2) [OF s, of t] t False in \<open>auto simp: snapshot_taken_def set_task_def\<close>)
  ultimately show ?thesis by (simp add: server_ok_def)
qed

lemma continue_with_ok:
  assumes s: "server_ok s" and q: "quiet s t"
  shows "server_ok (continue_with c t result s)"
proof -
  have "core_of (continue_with c t result s) = core_of s"
    by (cases result) (simp_all add: continue_with_def core_quiet_task [OF q] del: core_set_task)
  moreover have "settled_ok (continue_with c t result s)"
    using s by (auto simp: continue_with_def server_ok_def settled_set_task split: option.splits)
  ultimately show ?thesis using s by (simp add: server_ok_def)
qed

lemma opening_finished_ok:
  assumes s: "server_ok s" and t: "sv_tasks s t = Some (Created c i result)"
  shows "server_ok (opening_finished c i t result s)"
proof -
  let ?s = "s\<lparr> sv_openingSessions :=
    (if sv_openingSessions s i = Some t then (sv_openingSessions s)(i := None) else sv_openingSessions s) \<rparr>"
  have core: "core_of ?s = (core_of s)\<lparr> k_opening :=
    (if k_opening (core_of s) i = Some t then (k_opening (core_of s))(i := None) else k_opening (core_of s)) \<rparr>"
    by (simp add: core_of_def)
  have "core_ok (core_of ?s)"
    unfolding core by (rule core_forget_opening [OF server_okD(1) [OF s]]) (use t in simp)
  then have "server_ok ?s" using s by (simp add: server_ok_def settled_ok_def)
  then show ?thesis unfolding opening_finished_def by (rule continue_with_ok) (simp add: quiet_def t)
qed

lemma quiet_set_task_ok:
  assumes "server_ok s" and "quiet s t" and "task_creator x = None" "task_operates x = None" and "sv_settled s t = None \<or> settled_task x"
  shows "server_ok (set_task t x s)"
  using assms core_quiet_task [OF assms(2-4)] settled_set_task by (simp add: server_ok_def)

lemma maybeDispose_server: "server_ok s \<Longrightarrow> server_ok (maybeDispose l s)"
  using maybeDispose_ok by (simp add: server_ok_def settled_ok_def)

lemma same_live_server: "server_ok s \<Longrightarrow> (\<And>v. live_core_of (f v) = live_core_of v) \<Longrightarrow> server_ok (change_live l f s)"
  by (simp add: server_ok_def settled_ok_def core_same_live)

lemma connection_server: "server_ok s \<Longrightarrow> server_ok (change_connection c f s)"
  by (simp add: server_ok_def settled_ok_def)

lemma disconnects_server: "server_ok s \<Longrightarrow> server_ok (fold disconnect cs s)"
  using disconnects_ok by (simp add: server_ok_def settled_ok_def)

lemma detach_ok: "server_ok s \<Longrightarrow> server_ok (detach c i s)"
  by (auto simp: detach_def Let_def live_core_of_def split: option.splits intro!: maybeDispose_server same_live_server connection_server)

lemma runOperation_ok:
  assumes s: "server_ok s" and t: "sv_tasks s t = None" and l: "requireAttached c i s = Some l"
  shows "server_ok (runOperation c l t s)"
proof -
  from l obtain v where v: "sv_lives s l = Some v" "lv_disposing v = NotDisposing"
    by (auto simp: requireAttached_def split: option.splits if_splits)
  have core: "core_of (runOperation c l t s) = (core_of s)\<lparr>
      k_live := (k_live (core_of s))(l \<mapsto> (live_core_of v)\<lparr> lc_ops := lc_ops (live_core_of v) + 1 \<rparr>),
      k_operates := (k_operates (core_of s))(t \<mapsto> l) \<rparr>"
    using v t by (auto simp: runOperation_def core_of_def set_task_def change_live_def fun_eq_iff live_core_of_def)
  have "core_ok (core_of (runOperation c l t s))"
    unfolding core by (rule core_operate [OF server_okD(1) [OF s]]) (use v t in auto)
  moreover have "settled_ok (runOperation c l t s)"
    by (rule settled_frame [OF s]) (use server_okD(2) [OF s, of t] t in \<open>auto simp: runOperation_def\<close>)
  ultimately show ?thesis by (simp add: server_ok_def)
qed

lemma operation_ended_ok:
  assumes s: "server_ok s" and t: "sv_tasks s t = Some (Operating c l)"
  shows "server_ok (operation_ended l t s)"
proof -
  let ?s = "set_task t Finished (change_live l (\<lambda>v. v\<lparr> lv_operationCount := lv_operationCount v - 1 \<rparr>) s)"
  from core_okD(9) [OF server_okD(1) [OF s], of t l] t obtain v where v: "sv_lives s l = Some v" by auto
  have core: "core_of ?s = (core_of s)\<lparr>
      k_live := (k_live (core_of s))(l \<mapsto> (live_core_of v)\<lparr> lc_ops := lc_ops (live_core_of v) - 1 \<rparr>),
      k_operates := (k_operates (core_of s))(t := None) \<rparr>"
    using v t by (auto simp: core_of_def set_task_def change_live_def fun_eq_iff live_core_of_def)
  have "core_ok (core_of ?s)"
    unfolding core by (rule core_operated [OF server_okD(1) [OF s]]) (use v t in auto)
  moreover have "settled_ok ?s"
    by (rule settled_frame [OF s]) (use server_okD(2) [OF s, of t] t in auto)
  ultimately have "server_ok ?s" by (simp add: server_ok_def)
  then show ?thesis unfolding operation_ended_def by (rule maybeDispose_server)
qed

lemma dispose_settles_ok:
  assumes s: "server_ok s" and l: "sv_lives s l = Some v" "lv_disposing v = Disposing"
  shows "server_ok (dispose_settles l v s)"
proof -
  have core: "core_of (dispose_settles l v s) = (core_of s)\<lparr>
      k_live := (k_live (core_of s))(l \<mapsto> (live_core_of v)\<lparr> lc_phase := DisposeSettled \<rparr>),
      k_runtime := (k_runtime (core_of s))(lc_runtime (live_core_of v) \<mapsto> (lc_id (live_core_of v), False)),
      k_map := (if k_map (core_of s) (lc_id (live_core_of v)) = Some l then (k_map (core_of s))(lc_id (live_core_of v) := None)
        else k_map (core_of s)) \<rparr>"
    using l by (auto simp: dispose_settles_def Let_def core_of_def change_live_def fun_eq_iff live_core_of_def)
  have "core_ok (core_of (dispose_settles l v s))"
    unfolding core by (rule core_settle [OF server_okD(1) [OF s]]) (use l in auto)
  then show ?thesis using s by (simp add: server_ok_def settled_ok_def dispose_settles_def Let_def)
qed

lemma close_begins_ok:
  assumes s: "server_ok s" and "\<not> sv_closing s"
  shows "server_ok (close_begins s)"
proof -
  have core: "core_of (close_begins s) = (core_of s)\<lparr> k_closing := True, k_awaited := {t. \<exists>i. k_opening (core_of s) i = Some t} \<rparr>"
    by (simp add: close_begins_def core_of_def)
  show ?thesis
    unfolding server_ok_def core using core_close [OF server_okD(1) [OF s]] assms by (simp add: server_ok_def settled_ok_def close_begins_def)
qed

lemma close_sessions_ok:
  assumes s: "server_ok s" and "sv_closing s" "\<not> sv_cleared s" and "\<And>t. t \<in> sv_awaited s \<Longrightarrow> sv_settled s t \<noteq> None"
  shows "server_ok (close_sessions s)"
proof -
  have core: "core_of (close_sessions s) = (core_of s)\<lparr> k_map := (\<lambda>_. None), k_cleared := True,
      k_live := (\<lambda>l. map_option (swept (core_of s) l) (k_live (core_of s) l)) \<rparr>"
    by (auto simp: close_sessions_def core_of_def swept_def live_core_of_def fun_eq_iff option.map_comp comp_def intro: option.map_cong)
  have "core_ok (core_of (close_sessions s))"
    unfolding core by (rule core_clear [OF server_okD(1) [OF s]]) (use assms in \<open>auto simp: dom_def\<close>)
  then show ?thesis using s by (simp add: server_ok_def settled_ok_def close_sessions_def)
qed

lemma unsettled_task: "server_ok s \<Longrightarrow> sv_tasks s t = Some x \<Longrightarrow> \<not> settled_task x \<Longrightarrow> sv_settled s t = None"
  using server_okD(2) by fastforce

lemma new_task: "server_ok s \<Longrightarrow> sv_tasks s t = None \<Longrightarrow> sv_settled s t = None"
  using server_okD(2) by fastforce

lemma server_step_ok:
  assumes "server_step s s'" and "server_ok s"
  shows "server_ok s'"
  using assms
proof (cases rule: server_step.cases)
  case (accept c)
  have "core_of (accept c s) = core_of s" "settled_ok (accept c s) = settled_ok s"
    by (simp_all add: accept_def core_of_def settled_ok_def)
  with accept assms(2) show ?thesis by (simp add: server_ok_def)
next
  case (command_acquire c t i)
  then show ?thesis using assms(2) new_task by (auto intro!: acquire_ok simp: quiet_def)
next
  case (disposal_awaited t c i l v ok)
  then show ?thesis using assms(2) unsettled_task
    by (auto intro!: acquire_ok quiet_set_task_ok simp: quiet_def)
next
  case (opening_awaited t c i p result)
  then show ?thesis using assms(2) by (auto intro!: continue_with_ok simp: quiet_def)
next
  case (runtime_phase r idle)
  then show ?thesis using assms(2) by (simp add: server_ok_def settled_ok_def core_of_def)
next
  case (runtime_error l v t cs)
  then show ?thesis using assms(2) new_task
    unfolding terminate_def
    by (auto intro!: quiet_set_task_ok same_live_server simp: quiet_def live_core_of_def)
next
  case (terminating t l cs)
  then show ?thesis using assms(2) unsettled_task disconnects_server
    by (auto intro!: quiet_set_task_ok simp: quiet_def)
next
  case (terminated t l)
  then show ?thesis using assms(2) unsettled_task
    by (auto intro!: quiet_set_task_ok maybeDispose_server simp: quiet_def)
next
  case (disconnected c)
  then show ?thesis using disconnects_server [OF assms(2), of "[c]"] by simp
qed (use assms(2) in \<open>simp_all add: connection_server detach_ok runOperation_ok runtime_acquired_ok create_failed_ok snapshot_taken_ok
    runtime_dropped_ok opening_finished_ok attach_ok operation_ended_ok maybeDispose_server dispose_settles_ok close_begins_ok
    close_sessions_ok\<close>)

lemma reachable_server_ok: "server_reachable s \<Longrightarrow> server_ok s"
proof (induction rule: server_reachable.induct)
  case init
  have "core_ok (core_of initial_server)" by (rule core_okI) (simp_all add: initial_server_def)
  then show ?case by (simp add: server_ok_def settled_ok_def initial_server_def)
qed (rule server_step_ok)

section \<open>Runtimes are exclusive\<close>

text \<open>C11. While the server runs, at most one undisposed runtime exists for a session, and the service is never asked for a
  runtime of a session while one is undisposed, in whatever order commands, answers of the service, disconnects
  and disposals interleave.\<close>

theorem runtime_exclusive:
  assumes "server_reachable s" and "\<not> sv_cleared s"
  shows "(\<forall>i r r'. sv_runtimes s r = Some (i, True) \<and> sv_runtimes s r' = Some (i, True) \<longrightarrow> r = r') \<and>
    (\<forall>i t c r. sv_tasks s t = Some (Acquiring c i) \<longrightarrow> sv_runtimes s r \<noteq> Some (i, True))"
proof (intro conjI allI impI)
  note k = server_okD(1) [OF reachable_server_ok [OF assms(1)]]
  have creating: "sv_openingSessions s i = Some t \<and> sv_liveSessions s i = None"
    if "k_creator (core_of s) t = Some x" "creator_id x = i" for t x i using core_okD(1) [OF k that(1)] that(2) by simp
  have live: "sv_liveSessions s i = Some l"
    if "k_live (core_of s) l = Some v" "lc_id v = i" "lc_phase v \<noteq> DisposeSettled" for l v i
    using core_okD(3) [OF k that(1,3)] that(2) assms(2) by simp
  show "r = r'" if "sv_runtimes s r = Some (i, True) \<and> sv_runtimes s r' = Some (i, True)" for i r r'
  proof -
    have "held (core_of s) r i" "held (core_of s) r' i" using that core_okD(6) [OF k] by simp_all
    then show ?thesis
    proof (elim heldE)
      fix t b t' b' assume a: "k_creator (core_of s) t = Some (Holding i r b)" "k_creator (core_of s) t' = Some (Holding i r' b')"
      with creating [OF a(1)] creating [OF a(2)] have "t = t'" by simp
      with a show ?thesis by simp
    next
      fix l v l' v' assume a: "k_live (core_of s) l = Some v" "lc_runtime v = r" "lc_id v = i" "lc_phase v \<noteq> DisposeSettled"
        "k_live (core_of s) l' = Some v'" "lc_runtime v' = r'" "lc_id v' = i" "lc_phase v' \<noteq> DisposeSettled"
      with live [OF a(1,3,4)] live [OF a(5,7,8)] have "l = l'" by simp
      with a show ?thesis by auto
    next
      fix t b l v assume a: "k_creator (core_of s) t = Some (Holding i r b)" "k_live (core_of s) l = Some v" "lc_id v = i"
        "lc_phase v \<noteq> DisposeSettled"
      with creating [OF a(1)] live [OF a(2,3,4)] show ?thesis by simp
    next
      fix l v t b assume a: "k_live (core_of s) l = Some v" "lc_id v = i" "lc_phase v \<noteq> DisposeSettled"
        "k_creator (core_of s) t = Some (Holding i r' b)"
      with creating [OF a(4)] live [OF a(1,2,3)] show ?thesis by simp
    qed
  qed
  show "sv_runtimes s r \<noteq> Some (i, True)" if t: "sv_tasks s t = Some (Acquiring c i)" for i t c r
  proof
    assume "sv_runtimes s r = Some (i, True)"
    then have "held (core_of s) r i" using core_okD(6) [OF k] by simp
    moreover have c: "k_creator (core_of s) t = Some (Calling i)" using t by simp
    ultimately show False
    proof (elim heldE)
      fix t' b assume a: "k_creator (core_of s) t' = Some (Holding i r b)"
      with creating [OF a] creating [OF c] c show False by simp
    next
      fix l v assume a: "k_live (core_of s) l = Some v" "lc_runtime v = r" "lc_id v = i" "lc_phase v \<noteq> DisposeSettled"
      with live [OF a(1,3,4)] creating [OF c] show False by simp
    qed
  qed
qed

text \<open>C32. An operation that a client runs on a session keeps its runtime: as long as it runs and the server does not close,
  the session stays registered and its runtime is not being disposed of.\<close>

theorem operation_keeps_runtime:
  assumes "server_reachable s" and "\<not> sv_cleared s" and "sv_tasks s t = Some (Operating c l)"
  shows "\<exists>v. sv_lives s l = Some v \<and> lv_disposing v = NotDisposing \<and> sv_liveSessions s (lv_id v) = Some l \<and>
    sv_runtimes s (lv_runtime v) = Some (lv_id v, True)"
proof -
  note k = server_okD(1) [OF reachable_server_ok [OF assms(1)]]
  from core_okD(9) [OF k, of t l] assms(2,3) obtain v where v: "sv_lives s l = Some v" "lv_disposing v = NotDisposing" by auto
  with core_okD(3) [OF k, of l "live_core_of v"] assms(2) show ?thesis by simp
qed

text \<open>C33. When the server has closed its sessions, every runtime that was ever acquired is disposed of or is being disposed of.\<close>

theorem close_leaves_no_runtime:
  assumes "server_reachable s" and "sv_cleared s" and "sv_runtimes s r = Some (i, True)"
  shows "(\<exists>t c. sv_tasks s t = Some (CreateDisposing c i r)) \<or>
    (\<exists>l v. sv_lives s l = Some v \<and> lv_runtime v = r \<and> lv_disposing v = Disposing)"
proof -
  note k = server_okD(1) [OF reachable_server_ok [OF assms(1)]]
  have "held (core_of s) r i" using assms(3) core_okD(6) [OF k] by simp
  then show ?thesis
  proof (cases rule: heldE)
    case (1 t b)
    with core_okD(2) [OF k 1] assms(2) have "k_creator (core_of s) t = Some (Holding i r False)" by auto
    then obtain x where "sv_tasks s t = Some x" "task_creator x = Some (Holding i r False)"
      by (auto simp: Option.bind_eq_Some_conv)
    then show ?thesis by (cases x) auto
  next
    case (2 l v)
    with core_okD(3) [OF k 2(1) 2(4)] assms(2) show ?thesis by auto
  qed
qed

section \<open>A run\<close>

text \<open>
  Two connections attach to the same session at once; the first is closed while the service opens the session. The
  first then disposes of the runtime it acquired, and the second is attached to it all the same.
\<close>

definition ready_server :: server where
  "ready_server = initial_server\<lparr> sv_connections := (\<lambda>c. if c < 2 then Some \<lparr> cn_stage = Ready, cn_disconnected = False,
     cn_handshakeComplete = True, cn_closed = False, cn_sessionIds = [] \<rparr> else None) \<rparr>"

lemma handshake_reachable:
  assumes "server_reachable s" and "sv_connections s c = None" and "\<not> sv_closing s"
  shows "server_reachable (s\<lparr> sv_connections := (sv_connections s)(c \<mapsto> \<lparr> cn_stage = Ready, cn_disconnected = False,
     cn_handshakeComplete = True, cn_closed = False, cn_sessionIds = [] \<rparr>) \<rparr>)" (is "server_reachable ?s")
proof -
  let ?a = "accept c s"
  have a: "server_reachable ?a" using assms(1) server_step.accept [OF assms(2)] server_reachable.step by blast
  have m: "server_reachable (change_connection c (dispatchMessage (Hello True)) ?a)"
    using a server_step.message server_reachable.step by blast
  have "server_reachable (change_connection c finishHandshake (change_connection c (dispatchMessage (Hello True)) ?a))"
    using m server_step.handshake server_reachable.step by blast
  moreover have "change_connection c finishHandshake (change_connection c (dispatchMessage (Hello True)) ?a) = ?s"
    using assms(3) by (simp add: change_connection_def accept_def dispatchMessage_def isTerminalConnection_def finishHandshake_def Let_def)
  ultimately show ?thesis by simp
qed

lemma ready_reachable: "server_reachable ready_server"
proof -
  let ?x = "\<lparr> cn_stage = Ready, cn_disconnected = False, cn_handshakeComplete = True, cn_closed = False, cn_sessionIds = [] \<rparr>"
  have "server_reachable (initial_server\<lparr> sv_connections := (sv_connections initial_server)(0 \<mapsto> ?x) \<rparr>)"
    by (rule handshake_reachable [OF server_reachable.init]) (simp_all add: initial_server_def)
  from handshake_reachable [OF this, of 1]
  have "server_reachable (initial_server\<lparr> sv_connections := (sv_connections initial_server)(0 \<mapsto> ?x, 1 \<mapsto> ?x) \<rparr>)"
    by (simp add: initial_server_def)
  moreover have "(sv_connections initial_server)(0 \<mapsto> ?x, 1 \<mapsto> ?x) = (\<lambda>c. if c < 2 then Some ?x else None)"
    by (auto simp: initial_server_def fun_eq_iff)
  ultimately show ?thesis by (simp add: ready_server_def)
qed

definition both_acquired :: server where
  "both_acquired = continue_with 1 1 (Some 0) (opening_finished 0 ''a'' 0 (Some 0) (snapshot_taken 0 ''a'' 0 0 0 True
     (runtime_acquired 0 ''a'' 0 0 (disconnect 0 (acquire 1 ''a'' 1 (acquire 0 ''a'' 0 ready_server))))))"

definition attached_to_disposed :: server where
  "attached_to_disposed = attach 1 0 1 (attach 0 0 0 both_acquired)"

lemmas server_eval = ready_server_def initial_server_def acquire_def disconnect_def disconnect_sessions_def runtime_acquired_def
  snapshot_taken_def opening_finished_def continue_with_def attach_def maybeDispose_def change_live_def change_connection_def
  set_task_def may_request_def requireAttached_def runOperation_def map_filter_simps

lemma server_stepI: "server_reachable s \<Longrightarrow> server_step s s' \<Longrightarrow> server_reachable s'"
  by (rule server_reachable.step)

lemma both_acquired_reachable: "server_reachable both_acquired"
proof -
  let ?s1 = "acquire 0 ''a'' 0 ready_server"
  let ?s2 = "acquire 1 ''a'' 1 ?s1"
  let ?s3 = "disconnect 0 ?s2"
  let ?s4 = "runtime_acquired 0 ''a'' 0 0 ?s3"
  let ?s5 = "snapshot_taken 0 ''a'' 0 0 0 True ?s4"
  let ?s6 = "opening_finished 0 ''a'' 0 (Some 0) ?s5"
  have "server_reachable ?s1"
    by (rule server_stepI [OF ready_reachable server_step.command_acquire]) (simp_all add: server_eval)
  then have "server_reachable ?s2"
    by (rule server_stepI [OF _ server_step.command_acquire]) (simp_all add: server_eval)
  then have "server_reachable ?s3" by (rule server_stepI [OF _ server_step.disconnected])
  then have "server_reachable ?s4"
    by (rule server_stepI [OF _ server_step.service_answers]) (simp_all add: server_eval)
  then have "server_reachable ?s5"
    by (rule server_stepI [OF _ server_step.snapshot]) (simp_all add: server_eval)
  then have "server_reachable ?s6"
    by (rule server_stepI [OF _ server_step.opened]) (simp add: server_eval)
  then show ?thesis
    unfolding both_acquired_def
    by (rule server_stepI [OF _ server_step.opening_awaited [where i = "''a''" and p = 0]]) (simp_all add: server_eval)
qed

lemma attached_reachable: "server_reachable attached_to_disposed"
proof -
  have "server_reachable (attach 0 0 0 both_acquired)"
    by (rule server_stepI [OF both_acquired_reachable server_step.attach]) (simp add: both_acquired_def server_eval)
  then show ?thesis
    unfolding attached_to_disposed_def
    by (rule server_stepI [OF _ server_step.attach]) (simp add: both_acquired_def server_eval)
qed

text \<open>A connection can be attached to a session that is being disposed of: every operation it asks for is refused.\<close>

lemma attached_to_disposed_session:
  "\<exists>s. server_reachable s \<and> map_option cn_sessionIds (sv_connections s 1) = Some [''a''] \<and> sv_liveSessions s ''a'' = Some 0 \<and>
     map_option lv_connections (sv_lives s 0) = Some {1} \<and> map_option lv_disposing (sv_lives s 0) = Some Disposing \<and>
     requireAttached 1 ''a'' s = None"
  by (rule exI [of _ attached_to_disposed], intro conjI, rule attached_reachable)
    (simp_all add: attached_to_disposed_def both_acquired_def server_eval)

definition operating_server :: server where
  "operating_server = runOperation 1 0 2 (attach 1 0 1 both_acquired)"

lemma operating_reachable: "server_reachable operating_server"
proof -
  have "server_reachable (attach 1 0 1 both_acquired)"
    by (rule server_stepI [OF both_acquired_reachable server_step.attach]) (simp add: both_acquired_def server_eval)
  then show ?thesis
    unfolding operating_server_def
    by (rule server_stepI [OF _ server_step.command_operation [where i = "''a''"]])
      (simp_all add: both_acquired_def server_eval)
qed

theorem runtime_exclusive_witness:
  "sv_runtimes operating_server 0 = Some (''a'', True) \<and> sv_runtimes operating_server 1 \<noteq> Some (''a'', True)"
proof -
  have r: "sv_runtimes operating_server 0 = Some (''a'', True)" "\<not> sv_cleared operating_server"
    by (simp_all add: operating_server_def both_acquired_def server_eval)
  from runtime_exclusive [OF operating_reachable r(2)]
  have "sv_runtimes operating_server 1 = Some (''a'', True) \<longrightarrow> 0 = (1 :: nat)" using r(1) by blast
  with r(1) show ?thesis by simp
qed

theorem operation_keeps_runtime_witness:
  "sv_tasks operating_server 2 = Some (Operating 1 0) \<and> (\<exists>v. sv_lives operating_server 0 = Some v \<and> lv_disposing v = NotDisposing)"
proof -
  have r: "sv_tasks operating_server 2 = Some (Operating 1 0)" "\<not> sv_cleared operating_server"
    by (simp_all add: operating_server_def both_acquired_def server_eval)
  from operation_keeps_runtime [OF operating_reachable r(2,1)] r(1) show ?thesis by blast
qed

definition closed_server :: server where
  "closed_server = close_sessions (close_begins operating_server)"

theorem close_leaves_no_runtime_witness:
  "\<exists>l v. sv_lives closed_server l = Some v \<and> lv_runtime v = 0 \<and> lv_disposing v = Disposing"
proof -
  have "server_reachable (close_begins operating_server)"
    by (rule server_stepI [OF operating_reachable server_step.close]) (simp add: operating_server_def both_acquired_def server_eval)
  then have "server_reachable closed_server"
    unfolding closed_server_def
    by (rule server_stepI [OF _ server_step.close_live])
      (simp_all add: operating_server_def both_acquired_def server_eval close_begins_def)
  moreover have "sv_cleared closed_server" "sv_runtimes closed_server 0 = Some (''a'', True)"
    "sv_tasks closed_server t \<noteq> Some (CreateDisposing c ''a'' 0)" for t c
    by (simp_all add: closed_server_def close_sessions_def close_begins_def operating_server_def both_acquired_def server_eval)
  ultimately show ?thesis using close_leaves_no_runtime by blast
qed

end
