(* ===== verification/Agent_Tools.thy ===== *)
theory Agent_Tools
  imports Session_Context "HOL-Library.State_Monad" "HOL-Library.Multiset"
begin

text \<open>
  The agent loop of \<^verbatim>\<open>packages/agent/src/agent-loop.ts\<close>: it streams an assistant response, runs
  the tool calls of the response, injects steering and follow-up messages and repeats. The code
  talks to its surroundings through callbacks (\<^verbatim>\<open>AgentLoopConfig\<close> of
  \<^verbatim>\<open>packages/agent/src/types.ts\<close>), the stream function, the tools and the event sink. All of
  these act on a world \<open>'w\<close> the model leaves open; the events emitted are recorded in a trace.

  The callbacks keep the contracts that \<^verbatim>\<open>types.ts\<close> documents: the ones that must not throw do
  not, while argument preparation, argument validation, tool execution and the two tool-call
  hooks may fail. A tool execution is a value of \<open>tool_run\<close>: it works on the world, reports
  updates and settles. Concurrent executions advance one step at a time, in an order chosen by
  an arbitrary scheduler, so every interleaving of the tools is an instance of the model.
\<close>

section \<open>Data\<close>

record model =
  md_id :: string
  md_api :: string
  md_provider :: string

datatype tool_execution_mode = SequentialMode | ParallelMode

record agent_tool_result =
  ar_content :: "content_block list option"  \<comment> \<open>untyped tools may leave it out\<close>
  ar_details :: "json option"
  ar_usage :: "usage option"
  ar_addedToolNames :: "string list option"
  ar_terminate :: "bool option"

text \<open>
  The execution of a tool as its promise unfolds: updates, progress that changes the world, and the result or the
  error it settles with. The datatype is inductive: a tool that never settles is not a value of it, so all that is
  proved of runs is proved for tools that settle.
\<close>

datatype 'w tool_run =
    Settled "string + agent_tool_result"
  | Update agent_tool_result "'w tool_run"
  | Progress "'w \<Rightarrow> 'w" "'w \<Rightarrow> 'w tool_run"

record 'w agent_tool =
  at_name :: string
  at_executionMode :: "tool_execution_mode option"
  at_prepareArguments :: "(json \<Rightarrow> string + json) option"
  at_execute :: "id \<Rightarrow> json \<Rightarrow> 'w tool_run"

record 'w agent_context =
  cx_systemPrompt :: string
  cx_messages :: "agent_message list"
  cx_tools :: "'w agent_tool list option"

record before_result =
  br_block :: bool
  br_reason :: "string option"
  br_terminate :: "bool option"

record after_result =
  af_content :: "content_block list option"
  af_details :: "json option"
  af_isError :: "bool option"
  af_usage :: "usage option"
  af_terminate :: "bool option"

record 'w turn_context =
  tx_message :: assistant_message
  tx_toolResults :: "tool_result_message list"
  tx_context :: "'w agent_context"
  tx_newMessages :: "agent_message list"

record 'w turn_update =
  tu_context :: "'w agent_context option"
  tu_model :: "model option"
  tu_thinkingLevel :: "string option"

text \<open>The events of a provider stream, and the stream itself: the world moves on between events.\<close>

datatype update_kind =
    TextStart | TextDelta string | TextEnd string
  | ThinkingStart | ThinkingDelta string | ThinkingEnd string
  | ToolcallStart | ToolcallDelta string | ToolcallEnd tool_call

datatype assistant_event =
    EvStart assistant_message
  | EvPartial nat update_kind assistant_message  \<comment> \<open>contentIndex, kind, partial\<close>

text \<open>The stream of a response. Again inductive: a stream that never ends is not a value of it.\<close>

datatype 'w response =
    StreamEvent assistant_event "'w \<Rightarrow> 'w" "'w \<Rightarrow> 'w response"
  | StreamDone assistant_message  \<comment> \<open>a \<^verbatim>\<open>done\<close> or \<^verbatim>\<open>error\<close> event; the value of \<^verbatim>\<open>result()\<close>\<close>
  | StreamClosed assistant_message  \<comment> \<open>the stream ends without one\<close>

record 'w llm_request =
  rq_model :: model
  rq_systemPrompt :: string
  rq_messages :: "agent_message list"
  rq_tools :: "'w agent_tool list option"
  rq_reasoning :: "string option"
  rq_apiKey :: "string option"

record 'w loop_config =
  lc_model :: model
  lc_reasoning :: "string option"
  lc_apiKey :: "string option"
  lc_toolExecution :: "tool_execution_mode option"
  lc_convertToLlm :: "agent_message list \<Rightarrow> 'w \<Rightarrow> agent_message list \<times> 'w"
  lc_transformContext :: "(agent_message list \<Rightarrow> 'w \<Rightarrow> agent_message list \<times> 'w) option"
  lc_getApiKey :: "(string \<Rightarrow> 'w \<Rightarrow> string option \<times> 'w) option"
  lc_shouldStopAfterTurn :: "('w turn_context \<Rightarrow> 'w \<Rightarrow> bool \<times> 'w) option"
  lc_prepareNextTurn :: "('w turn_context \<Rightarrow> 'w \<Rightarrow> 'w turn_update option \<times> 'w) option"
  lc_getSteeringMessages :: "('w \<Rightarrow> agent_message list \<times> 'w) option"
  lc_getFollowUpMessages :: "('w \<Rightarrow> agent_message list \<times> 'w) option"
  lc_beforeToolCall :: "(assistant_message \<Rightarrow> tool_call \<Rightarrow> json \<Rightarrow> 'w agent_context \<Rightarrow> 'w
    \<Rightarrow> (string + before_result option) \<times> 'w) option"
  lc_afterToolCall :: "(assistant_message \<Rightarrow> tool_call \<Rightarrow> json \<Rightarrow> agent_tool_result \<Rightarrow> bool
    \<Rightarrow> 'w agent_context \<Rightarrow> 'w \<Rightarrow> (string + after_result option) \<times> 'w) option"

datatype agent_event =
    AgentStart
  | AgentEnd "agent_message list"
  | TurnStart
  | TurnEnd agent_message "tool_result_message list"
  | MessageStart agent_message
  | MessageUpdate agent_message assistant_event
  | MessageEnd agent_message
  | ToolExecutionStart id string json
  | ToolExecutionUpdate id string json agent_tool_result
  | ToolExecutionEnd id string agent_tool_result bool

text \<open>
  The surroundings that are not part of the configuration: the sink of the events, the abort
  signal, the stream function, the clock, the schema validation of tool arguments
  (\<^verbatim>\<open>validateToolArguments\<close>) and the scheduler of concurrent executions.
\<close>

record 'w loop_env =
  ev_emit :: "agent_event \<Rightarrow> 'w \<Rightarrow> 'w"
  ev_aborted :: "'w \<Rightarrow> bool"
  ev_streamFn :: "'w llm_request \<Rightarrow> 'w \<Rightarrow> 'w response \<times> 'w"
  ev_now :: "'w \<Rightarrow> int"
  ev_validate :: "'w agent_tool \<Rightarrow> tool_call \<Rightarrow> string + json"
  ev_pick :: "'w \<Rightarrow> nat \<Rightarrow> nat"

section \<open>The loop monad\<close>

record 'w loop_st =
  st_world :: 'w
  st_trace :: "agent_event list"

type_synonym ('w, 'a) loop = "('w loop_st, 'a) state"

definition emit :: "'w loop_env \<Rightarrow> agent_event \<Rightarrow> ('w, unit) loop" where
  "emit env event = State (\<lambda>s. ((), s\<lparr> st_world := ev_emit env event (st_world s),
     st_trace := st_trace s @ [event] \<rparr>))"

definition call_world :: "('w \<Rightarrow> 'a \<times> 'w) \<Rightarrow> ('w, 'a) loop" where
  "call_world f = State (\<lambda>s. case f (st_world s) of (x, w) \<Rightarrow> (x, s\<lparr> st_world := w \<rparr>))"

definition with_world :: "('w \<Rightarrow> ('w, 'a) loop) \<Rightarrow> ('w, 'a) loop" where
  "with_world f = State (\<lambda>s. run_state (f (st_world s)) s)"

definition ask_world :: "('w \<Rightarrow> 'a) \<Rightarrow> ('w, 'a) loop" where
  "ask_world f = with_world (\<lambda>w. State_Monad.return (f w))"

text \<open>A poll of an optional queue callback.\<close>

definition poll :: "('w \<Rightarrow> agent_message list \<times> 'w) option \<Rightarrow> ('w, agent_message list) loop" where
  "poll callback = (case callback of None \<Rightarrow> State_Monad.return [] | Some f \<Rightarrow> call_world f)"

section \<open>Streaming a response\<close>

definition set_last :: "'a list \<Rightarrow> 'a \<Rightarrow> 'a list" where
  "set_last xs x = xs[length xs - 1 := x]"

text \<open>One event of the stream: the messages of the context, \<open>partialMessage\<close>, \<open>addedPartial\<close>.\<close>

definition on_stream_event ::
  "'w loop_env \<Rightarrow> assistant_event \<Rightarrow> agent_message list \<Rightarrow> assistant_message option \<Rightarrow> bool
     \<Rightarrow> ('w, agent_message list \<times> assistant_message option \<times> bool) loop" where
  "on_stream_event env event messages partial added =
     (case event of
        EvStart p \<Rightarrow> do {
          emit env (MessageStart (AssistantMessage p));
          State_Monad.return (messages @ [AssistantMessage p], Some p, True)
        }
      | EvPartial _ _ p \<Rightarrow>
          (if partial = None then State_Monad.return (messages, partial, added)
           else do {
             emit env (MessageUpdate (AssistantMessage p) event);
             State_Monad.return (set_last messages (AssistantMessage p), Some p, added)
           }))"

definition finish_response ::
  "'w loop_env \<Rightarrow> assistant_message \<Rightarrow> agent_message list \<Rightarrow> bool
     \<Rightarrow> ('w, assistant_message \<times> agent_message list) loop" where
  "finish_response env final messages added =
     (if added then do {
        emit env (MessageEnd (AssistantMessage final));
        State_Monad.return (final, set_last messages (AssistantMessage final))
      } else do {
        emit env (MessageStart (AssistantMessage final));
        emit env (MessageEnd (AssistantMessage final));
        State_Monad.return (final, messages @ [AssistantMessage final])
      })"

primrec consume_response ::
  "'w response \<Rightarrow> 'w loop_env \<Rightarrow> agent_message list \<Rightarrow> assistant_message option \<Rightarrow> bool
     \<Rightarrow> ('w, assistant_message \<times> agent_message list) loop" where
  "consume_response (StreamEvent event elapse next) env messages partial added = do {
     (messages', partial', added') \<leftarrow> on_stream_event env event messages partial added;
     call_world (\<lambda>w. ((), elapse w));
     with_world (\<lambda>w. consume_response (next w) env messages' partial' added')
   }"
| "consume_response (StreamDone final) env messages partial added = finish_response env final messages added"
| "consume_response (StreamClosed final) env messages partial added = finish_response env final messages added"

definition or_else :: "string option \<Rightarrow> string option \<Rightarrow> string option" where
  "or_else a b = (case a of Some s \<Rightarrow> if s = [] then b else a | None \<Rightarrow> b)"

definition streamAssistantResponse ::
  "'w loop_env \<Rightarrow> 'w agent_context \<Rightarrow> 'w loop_config \<Rightarrow> ('w, assistant_message \<times> 'w agent_context) loop" where
  "streamAssistantResponse env context config = do {
     messages \<leftarrow> (case lc_transformContext config of
        None \<Rightarrow> State_Monad.return (cx_messages context)
      | Some transform \<Rightarrow> call_world (transform (cx_messages context)));
     llmMessages \<leftarrow> call_world (lc_convertToLlm config messages);
     key \<leftarrow> (case lc_getApiKey config of
        None \<Rightarrow> State_Monad.return None
      | Some getApiKey \<Rightarrow> call_world (getApiKey (md_provider (lc_model config))));
     response \<leftarrow> call_world (ev_streamFn env
        \<lparr> rq_model = lc_model config, rq_systemPrompt = cx_systemPrompt context, rq_messages = llmMessages,
          rq_tools = cx_tools context, rq_reasoning = lc_reasoning config,
          rq_apiKey = or_else key (lc_apiKey config) \<rparr>);
     (final, messages') \<leftarrow> consume_response response env (cx_messages context) None False;
     State_Monad.return (final, context\<lparr> cx_messages := messages' \<rparr>)
   }"

section \<open>Tool calls\<close>

record 'w prepared_tool_call =
  pt_toolCall :: tool_call
  pt_tool :: "'w agent_tool"
  pt_args :: json

record finalized_tool_call =
  fz_toolCall :: tool_call
  fz_result :: agent_tool_result
  fz_isError :: bool

datatype 'w preparation = Prepared "'w prepared_tool_call" | Immediate agent_tool_result bool

definition createErrorToolResult :: "string \<Rightarrow> agent_tool_result" where
  "createErrorToolResult message =
     \<lparr> ar_content = Some [TextContent message None], ar_details = Some (JsonObject []), ar_usage = None,
       ar_addedToolNames = None, ar_terminate = None \<rparr>"

definition emitToolExecutionEnd :: "'w loop_env \<Rightarrow> finalized_tool_call \<Rightarrow> ('w, unit) loop" where
  "emitToolExecutionEnd env finalized =
     emit env (ToolExecutionEnd (tc_id (fz_toolCall finalized)) (tc_name (fz_toolCall finalized))
       (fz_result finalized) (fz_isError finalized))"

definition createToolResultMessage :: "finalized_tool_call \<Rightarrow> int \<Rightarrow> tool_result_message" where
  "createToolResultMessage finalized now =
     \<lparr> tr_toolCallId = tc_id (fz_toolCall finalized),
       tr_toolName = tc_name (fz_toolCall finalized),
       tr_content = (case ar_content (fz_result finalized) of None \<Rightarrow> [] | Some c \<Rightarrow> c),
       tr_details = ar_details (fz_result finalized),
       tr_usage = ar_usage (fz_result finalized),
       tr_addedToolNames = (case ar_addedToolNames (fz_result finalized) of
          Some (n # ns) \<Rightarrow> Some (n # ns) | _ \<Rightarrow> None),
       tr_isError = fz_isError finalized,
       tr_timestamp = now \<rparr>"

definition emitToolResultMessage :: "'w loop_env \<Rightarrow> tool_result_message \<Rightarrow> ('w, unit) loop" where
  "emitToolResultMessage env message = do {
     emit env (MessageStart (ToolResultMessage message));
     emit env (MessageEnd (ToolResultMessage message))
   }"

definition emit_start :: "'w loop_env \<Rightarrow> tool_call \<Rightarrow> ('w, unit) loop" where
  "emit_start env toolCall = emit env (ToolExecutionStart (tc_id toolCall) (tc_name toolCall) (tc_arguments toolCall))"

definition shouldTerminateToolBatch :: "finalized_tool_call list \<Rightarrow> bool" where
  "shouldTerminateToolBatch finalizedCalls =
     (finalizedCalls \<noteq> [] \<and> list_all (\<lambda>f. ar_terminate (fz_result f) = Some True) finalizedCalls)"

definition truncated_message :: "string \<Rightarrow> string" where
  "truncated_message name =
     ''Tool call '' @ [CHR 0x22] @ name @ [CHR 0x22] @ '' was not executed: the response hit the output token limit, so its arguments may be truncated. Re-issue the tool call with complete arguments.''"

fun failToolCallsFromTruncatedMessage ::
  "'w loop_env \<Rightarrow> tool_call list \<Rightarrow> ('w, tool_result_message list \<times> bool) loop" where
  "failToolCallsFromTruncatedMessage env [] = State_Monad.return ([], False)"
| "failToolCallsFromTruncatedMessage env (toolCall # toolCalls) = do {
     emit_start env toolCall;
     let finalized = \<lparr> fz_toolCall = toolCall,
       fz_result = createErrorToolResult (truncated_message (tc_name toolCall)), fz_isError = True \<rparr>;
     emitToolExecutionEnd env finalized;
     now \<leftarrow> ask_world (ev_now env);
     let message = createToolResultMessage finalized now;
     emitToolResultMessage env message;
     (messages, terminate) \<leftarrow> failToolCallsFromTruncatedMessage env toolCalls;
     State_Monad.return (message # messages, False)
   }"

definition prepareToolCallArguments :: "'w agent_tool \<Rightarrow> tool_call \<Rightarrow> string + tool_call" where
  "prepareToolCallArguments tool toolCall =
     (case at_prepareArguments tool of
        None \<Rightarrow> Inr toolCall
      | Some prepare \<Rightarrow> rbind (prepare (tc_arguments toolCall))
          (\<lambda>args. Inr (toolCall\<lparr> tc_arguments := args \<rparr>)))"

definition find_tool :: "'w agent_context \<Rightarrow> string \<Rightarrow> 'w agent_tool option" where
  "find_tool context name =
     (case cx_tools context of None \<Rightarrow> None | Some tools \<Rightarrow> find (\<lambda>t. at_name t = name) tools)"

definition prepare_or_abort :: "'w loop_env \<Rightarrow> 'w prepared_tool_call \<Rightarrow> ('w, 'w preparation) loop" where
  "prepare_or_abort env prepared = do {
     aborted \<leftarrow> ask_world (ev_aborted env);
     State_Monad.return (if aborted then Immediate (createErrorToolResult ''Operation aborted'') True
                         else Prepared prepared)
   }"

definition prepareToolCall ::
  "'w loop_env \<Rightarrow> 'w agent_context \<Rightarrow> assistant_message \<Rightarrow> tool_call \<Rightarrow> 'w loop_config
     \<Rightarrow> ('w, 'w preparation) loop" where
  "prepareToolCall env context assistantMessage toolCall config =
     (case find_tool context (tc_name toolCall) of
        None \<Rightarrow> State_Monad.return
          (Immediate (createErrorToolResult (''Tool '' @ tc_name toolCall @ '' not found'')) True)
      | Some tool \<Rightarrow>
          (case rbind (prepareToolCallArguments tool toolCall) (ev_validate env tool) of
             Inl message \<Rightarrow> State_Monad.return (Immediate (createErrorToolResult message) True)
           | Inr args \<Rightarrow>
               let prepared = \<lparr> pt_toolCall = toolCall, pt_tool = tool, pt_args = args \<rparr> in
               (case lc_beforeToolCall config of
                  None \<Rightarrow> prepare_or_abort env prepared
                | Some beforeToolCall \<Rightarrow> do {
                    beforeResult \<leftarrow> call_world (beforeToolCall assistantMessage toolCall args context);
                    aborted \<leftarrow> ask_world (ev_aborted env);
                    (case beforeResult of
                       Inl message \<Rightarrow> State_Monad.return (Immediate (createErrorToolResult message) True)
                     | Inr result \<Rightarrow>
                         if aborted then
                           State_Monad.return (Immediate (createErrorToolResult ''Operation aborted'') True)
                         else (case result of
                             Some decision \<Rightarrow>
                               if br_block decision then
                                 (let blocked = createErrorToolResult (the (or_else (br_reason decision)
                                    (Some ''Tool execution was blocked'')))
                                  in State_Monad.return (Immediate
                                    (if br_terminate decision = Some True
                                     then blocked\<lparr> ar_terminate := Some True \<rparr> else blocked) True))
                               else prepare_or_abort env prepared
                           | None \<Rightarrow> prepare_or_abort env prepared))
                  })))"

definition emit_update :: "'w loop_env \<Rightarrow> 'w prepared_tool_call \<Rightarrow> agent_tool_result \<Rightarrow> ('w, unit) loop" where
  "emit_update env prepared partial =
     emit env (ToolExecutionUpdate (tc_id (pt_toolCall prepared)) (tc_name (pt_toolCall prepared))
       (tc_arguments (pt_toolCall prepared)) partial)"

definition start_execution :: "'w prepared_tool_call \<Rightarrow> 'w tool_run" where
  "start_execution prepared =
     at_execute (pt_tool prepared) (tc_id (pt_toolCall prepared)) (pt_args prepared)"

fun settle :: "string + agent_tool_result \<Rightarrow> agent_tool_result \<times> bool" where
  "settle (Inr result) = (result, False)"
| "settle (Inl message) = (createErrorToolResult message, True)"

primrec run_tool ::
  "'w tool_run \<Rightarrow> 'w loop_env \<Rightarrow> 'w prepared_tool_call \<Rightarrow> ('w, agent_tool_result \<times> bool) loop" where
  "run_tool (Settled r) env prepared = State_Monad.return (settle r)"
| "run_tool (Update partial rest) env prepared = do {
     emit_update env prepared partial;
     run_tool rest env prepared
   }"
| "run_tool (Progress work next) env prepared = do {
     call_world (\<lambda>w. ((), work w));
     with_world (\<lambda>w. run_tool (next w) env prepared)
   }"

definition executePreparedToolCall ::
  "'w loop_env \<Rightarrow> 'w prepared_tool_call \<Rightarrow> ('w, agent_tool_result \<times> bool) loop" where
  "executePreparedToolCall env prepared = run_tool (start_execution prepared) env prepared"

definition nullish :: "'a option \<Rightarrow> 'a option \<Rightarrow> 'a option" where
  "nullish a b = (case a of None \<Rightarrow> b | Some x \<Rightarrow> Some x)"

definition nullish_json :: "json option \<Rightarrow> json option \<Rightarrow> json option" where
  "nullish_json a b = (if a = None \<or> a = Some JsonNull then b else a)"

definition merge_after :: "after_result \<Rightarrow> agent_tool_result \<Rightarrow> agent_tool_result" where
  "merge_after after result =
     result\<lparr> ar_content := nullish (af_content after) (ar_content result),
             ar_details := nullish_json (af_details after) (ar_details result),
             ar_usage := nullish (af_usage after) (ar_usage result),
             ar_terminate := nullish (af_terminate after) (ar_terminate result) \<rparr>"

definition finalizeExecutedToolCall ::
  "'w agent_context \<Rightarrow> assistant_message \<Rightarrow> 'w prepared_tool_call \<Rightarrow> agent_tool_result \<times> bool \<Rightarrow> 'w loop_config
     \<Rightarrow> ('w, finalized_tool_call) loop" where
  "finalizeExecutedToolCall context assistantMessage prepared executed config =
     (case executed of (result, isError) \<Rightarrow>
       (case lc_afterToolCall config of
          None \<Rightarrow> State_Monad.return
            \<lparr> fz_toolCall = pt_toolCall prepared, fz_result = result, fz_isError = isError \<rparr>
        | Some afterToolCall \<Rightarrow> do {
            afterResult \<leftarrow> call_world (afterToolCall assistantMessage (pt_toolCall prepared) (pt_args prepared)
              result isError context);
            State_Monad.return (case afterResult of
               Inl message \<Rightarrow> \<lparr> fz_toolCall = pt_toolCall prepared,
                 fz_result = createErrorToolResult message, fz_isError = True \<rparr>
             | Inr None \<Rightarrow> \<lparr> fz_toolCall = pt_toolCall prepared, fz_result = result, fz_isError = isError \<rparr>
             | Inr (Some after) \<Rightarrow> \<lparr> fz_toolCall = pt_toolCall prepared, fz_result = merge_after after result,
                 fz_isError = (case af_isError after of None \<Rightarrow> isError | Some b \<Rightarrow> b) \<rparr>)
          }))"

definition run_call ::
  "'w loop_env \<Rightarrow> 'w agent_context \<Rightarrow> assistant_message \<Rightarrow> tool_call \<Rightarrow> 'w loop_config
     \<Rightarrow> ('w, finalized_tool_call) loop" where
  "run_call env context assistantMessage toolCall config = do {
     preparation \<leftarrow> prepareToolCall env context assistantMessage toolCall config;
     (case preparation of
        Immediate result isError \<Rightarrow> State_Monad.return
          \<lparr> fz_toolCall = toolCall, fz_result = result, fz_isError = isError \<rparr>
      | Prepared prepared \<Rightarrow> do {
          executed \<leftarrow> executePreparedToolCall env prepared;
          finalizeExecutedToolCall context assistantMessage prepared executed config
        })
   }"

fun sequential_calls ::
  "'w loop_env \<Rightarrow> 'w agent_context \<Rightarrow> assistant_message \<Rightarrow> 'w loop_config \<Rightarrow> tool_call list
     \<Rightarrow> ('w, finalized_tool_call list \<times> tool_result_message list) loop" where
  "sequential_calls env context assistantMessage config [] = State_Monad.return ([], [])"
| "sequential_calls env context assistantMessage config (toolCall # toolCalls) = do {
     emit_start env toolCall;
     finalized \<leftarrow> run_call env context assistantMessage toolCall config;
     emitToolExecutionEnd env finalized;
     now \<leftarrow> ask_world (ev_now env);
     let message = createToolResultMessage finalized now;
     emitToolResultMessage env message;
     aborted \<leftarrow> ask_world (ev_aborted env);
     (finalizedCalls, messages) \<leftarrow>
       (if aborted then State_Monad.return ([], [])
        else sequential_calls env context assistantMessage config toolCalls);
     State_Monad.return (finalized # finalizedCalls, message # messages)
   }"

definition executeToolCallsSequential ::
  "'w loop_env \<Rightarrow> 'w agent_context \<Rightarrow> assistant_message \<Rightarrow> 'w loop_config \<Rightarrow> tool_call list
     \<Rightarrow> ('w, tool_result_message list \<times> bool) loop" where
  "executeToolCallsSequential env context assistantMessage config toolCalls = do {
     (finalizedCalls, messages) \<leftarrow> sequential_calls env context assistantMessage config toolCalls;
     State_Monad.return (messages, shouldTerminateToolBatch finalizedCalls)
   }"

subsection \<open>Concurrent executions\<close>

text \<open>
  An entry of \<^verbatim>\<open>finalizedCalls\<close>: a prepared call on its way through
  \<^verbatim>\<open>executePreparedToolCall\<close>, \<^verbatim>\<open>finalizeExecutedToolCall\<close> and \<^verbatim>\<open>emitToolExecutionEnd\<close>, or a
  finalized one.
\<close>

datatype 'w job =
    JobRunning "'w prepared_tool_call" "'w tool_run"
  | JobExecuted "'w prepared_tool_call" "agent_tool_result \<times> bool"
  | JobFinal finalized_tool_call
  | JobDone finalized_tool_call

fun job_done :: "'w job \<Rightarrow> bool" where
  "job_done (JobDone f) = True"
| "job_done _ = False"

fun job_call :: "'w job \<Rightarrow> tool_call" where
  "job_call (JobRunning p r) = pt_toolCall p"
| "job_call (JobExecuted p x) = pt_toolCall p"
| "job_call (JobFinal f) = fz_toolCall f"
| "job_call (JobDone f) = fz_toolCall f"

fun parallel_prepare ::
  "'w loop_env \<Rightarrow> 'w agent_context \<Rightarrow> assistant_message \<Rightarrow> 'w loop_config \<Rightarrow> tool_call list
     \<Rightarrow> ('w, 'w job list) loop" where
  "parallel_prepare env context assistantMessage config [] = State_Monad.return []"
| "parallel_prepare env context assistantMessage config (toolCall # toolCalls) = do {
     emit_start env toolCall;
     preparation \<leftarrow> prepareToolCall env context assistantMessage toolCall config;
     job \<leftarrow> (case preparation of
        Immediate result isError \<Rightarrow> do {
          let finalized = \<lparr> fz_toolCall = toolCall, fz_result = result, fz_isError = isError \<rparr>;
          emitToolExecutionEnd env finalized;
          State_Monad.return (JobDone finalized)
        }
      | Prepared prepared \<Rightarrow> State_Monad.return (JobRunning prepared (start_execution prepared)));
     aborted \<leftarrow> ask_world (ev_aborted env);
     jobs \<leftarrow> (if aborted then State_Monad.return []
              else parallel_prepare env context assistantMessage config toolCalls);
     State_Monad.return (job # jobs)
   }"

definition job_step ::
  "'w loop_env \<Rightarrow> 'w agent_context \<Rightarrow> assistant_message \<Rightarrow> 'w loop_config \<Rightarrow> 'w job \<Rightarrow> ('w, 'w job) loop" where
  "job_step env context assistantMessage config job =
     (case job of
        JobRunning prepared run \<Rightarrow>
          (case run of
             Settled r \<Rightarrow> State_Monad.return (JobExecuted prepared (settle r))
           | Update partial rest \<Rightarrow> do {
               emit_update env prepared partial;
               State_Monad.return (JobRunning prepared rest)
             }
           | Progress work next \<Rightarrow> do {
               call_world (\<lambda>w. ((), work w));
               with_world (\<lambda>w. State_Monad.return (JobRunning prepared (next w)))
             })
      | JobExecuted prepared executed \<Rightarrow> do {
          finalized \<leftarrow> finalizeExecutedToolCall context assistantMessage prepared executed config;
          State_Monad.return (JobFinal finalized)
        }
      | JobFinal finalized \<Rightarrow> do {
          emitToolExecutionEnd env finalized;
          State_Monad.return (JobDone finalized)
        }
      | JobDone finalized \<Rightarrow> State_Monad.return (JobDone finalized))"

definition unfinished :: "'w job list \<Rightarrow> nat list" where
  "unfinished jobs = filter (\<lambda>i. \<not> job_done (jobs ! i)) [0..<length jobs]"

definition next_job :: "'w loop_env \<Rightarrow> 'w job list \<Rightarrow> 'w \<Rightarrow> nat" where
  "next_job env jobs w =
     (let ready = unfinished jobs in ready ! (ev_pick env w (length ready) mod length ready))"

text \<open>
  Every step of a job makes it smaller, so \<^verbatim>\<open>Promise.all\<close> settles: the order on executions is
  the one of their sub-executions.
\<close>

inductive run_before :: "'w tool_run \<Rightarrow> 'w tool_run \<Rightarrow> bool" where
  "run_before rest (Update partial rest)"
| "run_before (next w) (Progress work next)"

inductive_cases run_before_SettledE [elim!]: "run_before r (Settled x)"
inductive_cases run_before_UpdateE [elim!]: "run_before r (Update p rest)"
inductive_cases run_before_ProgressE [elim!]: "run_before r (Progress work next)"

lemma run_before_wf: "wfP run_before"
proof (rule wfpUNIVI)
  fix P :: "'w tool_run \<Rightarrow> bool" and r
  assume step: "\<forall>x. (\<forall>y. run_before y x \<longrightarrow> P y) \<longrightarrow> P x"
  show "P r"
    by (induction r) (rule step [rule_format], force)+
qed

fun job_stage :: "'w job \<Rightarrow> nat" where
  "job_stage (JobRunning p r) = 3"
| "job_stage (JobExecuted p x) = 2"
| "job_stage (JobFinal f) = 1"
| "job_stage (JobDone f) = 0"

fun job_run :: "'w job \<Rightarrow> 'w tool_run" where
  "job_run (JobRunning p r) = r"
| "job_run _ = Settled (Inl [])"

definition job_order :: "('w job \<times> 'w job) set" where
  "job_order = inv_image (less_than <*lex*> {(r, r'). run_before r r'}) (\<lambda>j. (job_stage j, job_run j))"

lemma wf_job_order: "wf job_order"
  using run_before_wf unfolding job_order_def wfp_def
  by (intro wf_inv_image wf_lex_prod) auto

lemma run_emit [simp]:
  "run_state (emit env event) s =
     ((), s\<lparr> st_world := ev_emit env event (st_world s), st_trace := st_trace s @ [event] \<rparr>)"
  by (simp add: emit_def)

lemma run_call_world [simp]:
  "run_state (call_world f) s = (fst (f (st_world s)), s\<lparr> st_world := snd (f (st_world s)) \<rparr>)"
  by (simp add: call_world_def split: prod.split)

lemma run_with_world [simp]: "run_state (with_world f) s = run_state (f (st_world s)) s"
  by (simp add: with_world_def)

lemma run_ask_world [simp]: "run_state (ask_world f) s = (f (st_world s), s)"
  by (simp add: ask_world_def)

lemma finalize_call:
  "fz_toolCall (fst (run_state (finalizeExecutedToolCall context am prepared executed config) s))
    = pt_toolCall prepared"
  by (auto simp: finalizeExecutedToolCall_def split: prod.splits option.splits sum.splits)

lemma job_step_before:
  assumes "\<not> job_done job" and "run_state (job_step env context am config job) s = (job', s')"
  shows "(job', job) \<in> job_order"
proof (cases job)
  case (JobRunning prepared run)
  with assms show ?thesis
    by (cases run) (auto simp: job_step_def job_order_def emit_update_def intro: run_before.intros)
next
  case (JobExecuted prepared executed)
  with assms show ?thesis by (auto simp: job_step_def job_order_def split: prod.splits)
next
  case (JobFinal finalized)
  with assms show ?thesis by (auto simp: job_step_def job_order_def emitToolExecutionEnd_def)
qed (use assms in simp)

lemma next_job_unfinished:
  assumes "unfinished jobs \<noteq> []"
  shows "next_job env jobs w < length jobs" and "\<not> job_done (jobs ! next_job env jobs w)"
proof -
  have "next_job env jobs w \<in> set (unfinished jobs)"
    using assms by (simp add: next_job_def Let_def)
  then show "next_job env jobs w < length jobs" and "\<not> job_done (jobs ! next_job env jobs w)"
    by (simp_all add: unfinished_def)
qed

lemma listrel1_update: "i < length xs \<Longrightarrow> (x, xs ! i) \<in> r \<Longrightarrow> (xs[i := x], xs) \<in> listrel1 r"
  unfolding listrel1_def
  by (simp, intro exI [of _ "take i xs"] exI [of _ x] exI [of _ "xs ! i"] conjI exI [of _ "drop (Suc i) xs"])
    (auto simp: upd_conv_take_nth_drop id_take_nth_drop)

function run_jobs ::
  "'w loop_env \<Rightarrow> 'w agent_context \<Rightarrow> assistant_message \<Rightarrow> 'w loop_config \<Rightarrow> 'w job list \<Rightarrow> 'w loop_st
     \<Rightarrow> 'w job list \<times> 'w loop_st" where
  "run_jobs env context am config jobs s =
     (if unfinished jobs = [] then (jobs, s)
      else let i = next_job env jobs (st_world s);
               r = run_state (job_step env context am config (jobs ! i)) s
           in run_jobs env context am config (jobs[i := fst r]) (snd r))"
  by pat_completeness auto
termination
proof (relation "inv_image (listrel1 job_order) (\<lambda>(env, context, am, config, jobs, s). jobs)")
  show "wf (inv_image (listrel1 job_order) (\<lambda>(env, context, am, config, jobs, s). jobs))"
    by (simp add: wf_inv_image wf_listrel1_iff wf_job_order)
next
  fix env :: "'w loop_env" and cx am config jobs s i r
  assume "unfinished jobs \<noteq> []" "i = next_job env jobs (st_world s)"
    "r = run_state (job_step env cx am config (jobs ! i)) s"
  then show "((env, cx, am, config, jobs[i := fst r], snd r), env, cx, am, config, jobs, s)
      \<in> inv_image (listrel1 job_order) (\<lambda>(env, context, am, config, jobs, s). jobs)"
    using next_job_unfinished [of jobs env "st_world s"]
    by (auto intro!: listrel1_update job_step_before [where s' = "snd r"])
qed

declare run_jobs.simps [simp del]

fun job_finalized :: "'w job \<Rightarrow> finalized_tool_call" where
  "job_finalized (JobDone f) = f"
| "job_finalized job = \<lparr> fz_toolCall = job_call job, fz_result = createErrorToolResult [], fz_isError = True \<rparr>"

fun emit_results ::
  "'w loop_env \<Rightarrow> finalized_tool_call list \<Rightarrow> ('w, tool_result_message list) loop" where
  "emit_results env [] = State_Monad.return []"
| "emit_results env (finalized # finalizedCalls) = do {
     now \<leftarrow> ask_world (ev_now env);
     let message = createToolResultMessage finalized now;
     emitToolResultMessage env message;
     messages \<leftarrow> emit_results env finalizedCalls;
     State_Monad.return (message # messages)
   }"

definition executeToolCallsParallel ::
  "'w loop_env \<Rightarrow> 'w agent_context \<Rightarrow> assistant_message \<Rightarrow> 'w loop_config \<Rightarrow> tool_call list
     \<Rightarrow> ('w, tool_result_message list \<times> bool) loop" where
  "executeToolCallsParallel env context assistantMessage config toolCalls = do {
     entries \<leftarrow> parallel_prepare env context assistantMessage config toolCalls;
     jobs \<leftarrow> State (run_jobs env context assistantMessage config entries);
     let finalizedCalls = map job_finalized jobs;
     messages \<leftarrow> emit_results env finalizedCalls;
     State_Monad.return (messages, shouldTerminateToolBatch finalizedCalls)
   }"

definition message_tool_calls :: "assistant_message \<Rightarrow> tool_call list" where
  "message_tool_calls message = List.map_filter (\<lambda>c. case c of ToolCallContent t \<Rightarrow> Some t | _ \<Rightarrow> None) (am_content message)"

definition executeToolCalls ::
  "'w loop_env \<Rightarrow> 'w agent_context \<Rightarrow> assistant_message \<Rightarrow> 'w loop_config
     \<Rightarrow> ('w, tool_result_message list \<times> bool) loop" where
  "executeToolCalls env context assistantMessage config =
     (let toolCalls = message_tool_calls assistantMessage;
          hasSequentialToolCall = list_ex (\<lambda>tc. case find_tool context (tc_name tc) of
             None \<Rightarrow> False | Some tool \<Rightarrow> at_executionMode tool = Some SequentialMode) toolCalls
      in if lc_toolExecution config = Some SequentialMode \<or> hasSequentialToolCall
         then executeToolCallsSequential env context assistantMessage config toolCalls
         else executeToolCallsParallel env context assistantMessage config toolCalls)"

section \<open>Reasoning about the events of a computation\<close>

text \<open>
  \<open>traces m Q\<close>: every run of \<open>m\<close> only appends to the trace, and the result \<open>x\<close> and the events
  \<open>es\<close> it appends satisfy \<open>Q x es\<close>.
\<close>

definition traces :: "('w, 'a) loop \<Rightarrow> ('a \<Rightarrow> agent_event list \<Rightarrow> bool) \<Rightarrow> bool" where
  "traces m Q = (\<forall>s x s'. run_state m s = (x, s') \<longrightarrow> (\<exists>es. st_trace s' = st_trace s @ es \<and> Q x es))"

named_theorems traces_rules \<open>what the operations of the loop emit\<close>

lemma tracesD:
  assumes "traces m Q" and "run_state m s = (x, s')"
  obtains es where "st_trace s' = st_trace s @ es" "Q x es"
  using assms unfolding traces_def by blast

lemma traces_conseq: "traces m P \<Longrightarrow> (\<And>x es. P x es \<Longrightarrow> Q x es) \<Longrightarrow> traces m Q"
  unfolding traces_def by blast

lemma traces_return: "Q x [] \<Longrightarrow> traces (State_Monad.return x) Q"
  by (simp add: traces_def)

lemma traces_emit: "Q () [event] \<Longrightarrow> traces (emit env event) Q"
  by (simp add: traces_def)

lemma traces_call_world: "(\<And>w. Q (fst (f w)) []) \<Longrightarrow> traces (call_world f) Q"
  by (simp add: traces_def)

lemma traces_with_world: "(\<And>w. traces (f w) Q) \<Longrightarrow> traces (with_world f) Q"
  by (simp add: traces_def)

lemma traces_ask_world: "(\<And>w. Q (f w) []) \<Longrightarrow> traces (ask_world f) Q"
  by (simp add: traces_def)

lemma traces_bind:
  assumes "traces m (\<lambda>x es. traces (f x) (\<lambda>y fs. Q y (es @ fs)))"
  shows "traces (State_Monad.bind m f) Q"
  unfolding traces_def
proof (intro allI impI)
  fix s y t
  assume run: "run_state (State_Monad.bind m f) s = (y, t)"
  obtain x s' where m: "run_state m s = (x, s')" by (metis surj_pair)
  obtain es where es: "st_trace s' = st_trace s @ es" "traces (f x) (\<lambda>y fs. Q y (es @ fs))"
    by (rule tracesD [OF assms m])
  from run m have "run_state (f x) s' = (y, t)" by simp
  then obtain fs where "st_trace t = st_trace s' @ fs" "Q y (es @ fs)"
    by (rule tracesD [OF es(2)])
  with es show "\<exists>es. st_trace t = st_trace s @ es \<and> Q y es" by simp
qed

lemmas traces_intros =
  traces_bind traces_return traces_emit traces_call_world traces_with_world traces_ask_world

text \<open>The events seen in three ways: finished messages, started and ended tool executions.\<close>

fun ended_message :: "agent_event \<Rightarrow> agent_message option" where
  "ended_message (MessageEnd m) = Some m"
| "ended_message _ = None"

fun started_tool :: "agent_event \<Rightarrow> (id \<times> string) option" where
  "started_tool (ToolExecutionStart i n a) = Some (i, n)"
| "started_tool _ = None"

fun ended_tool :: "agent_event \<Rightarrow> (id \<times> string) option" where
  "ended_tool (ToolExecutionEnd i n r e) = Some (i, n)"
| "ended_tool _ = None"

fun lifecycle_event :: "agent_event \<Rightarrow> bool" where
  "lifecycle_event AgentStart = True"
| "lifecycle_event (AgentEnd ms) = True"
| "lifecycle_event TurnStart = True"
| "lifecycle_event (TurnEnd m results) = True"
| "lifecycle_event _ = False"

definition ended_messages :: "agent_event list \<Rightarrow> agent_message list" where
  "ended_messages = List.map_filter ended_message"

definition started_tools :: "agent_event list \<Rightarrow> (id \<times> string) list" where
  "started_tools = List.map_filter started_tool"

definition ended_tools :: "agent_event list \<Rightarrow> (id \<times> string) list" where
  "ended_tools = List.map_filter ended_tool"

definition within_turn :: "agent_event list \<Rightarrow> bool" where
  "within_turn es = list_all (\<lambda>e. \<not> lifecycle_event e) es"

abbreviation call_key :: "tool_call \<Rightarrow> id \<times> string" where
  "call_key tc \<equiv> (tc_id tc, tc_name tc)"

lemma event_views [simp]:
  "ended_messages [] = []" "started_tools [] = []" "ended_tools [] = []" "within_turn []"
  "ended_messages (es @ fs) = ended_messages es @ ended_messages fs"
  "started_tools (es @ fs) = started_tools es @ started_tools fs"
  "ended_tools (es @ fs) = ended_tools es @ ended_tools fs"
  "within_turn (es @ fs) \<longleftrightarrow> within_turn es \<and> within_turn fs"
  by (simp_all add: ended_messages_def started_tools_def ended_tools_def within_turn_def map_filter_def)

lemma event_views_Cons [simp]:
  "ended_messages (e # es) = (case ended_message e of None \<Rightarrow> [] | Some m \<Rightarrow> [m]) @ ended_messages es"
  "started_tools (e # es) = (case started_tool e of None \<Rightarrow> [] | Some t \<Rightarrow> [t]) @ started_tools es"
  "ended_tools (e # es) = (case ended_tool e of None \<Rightarrow> [] | Some t \<Rightarrow> [t]) @ ended_tools es"
  "within_turn (e # es) \<longleftrightarrow> \<not> lifecycle_event e \<and> within_turn es"
  by (simp_all add: ended_messages_def started_tools_def ended_tools_def within_turn_def map_filter_def split: option.split)

text \<open>Events that finish no message and neither start nor end a tool execution.\<close>

definition silent :: "agent_event list \<Rightarrow> bool" where
  "silent es \<longleftrightarrow> ended_messages es = [] \<and> started_tools es = [] \<and> ended_tools es = [] \<and> within_turn es"

lemma silent_simps [simp]:
  "silent []" "silent (es @ fs) \<longleftrightarrow> silent es \<and> silent fs"
  by (auto simp: silent_def)

lemma traces_on_stream_event:
  "traces (on_stream_event env event messages partial added) (\<lambda>r es. silent es)"
  by (auto simp: on_stream_event_def silent_def split: assistant_event.split intro!: traces_intros)

definition response_events :: "assistant_message \<Rightarrow> agent_event list \<Rightarrow> bool" where
  "response_events final es \<longleftrightarrow> ended_messages es = [AssistantMessage final] \<and> started_tools es = [] \<and>
     ended_tools es = [] \<and> within_turn es"

lemma response_events_silent [simp]:
  "silent es \<Longrightarrow> response_events final (es @ fs) \<longleftrightarrow> response_events final fs"
  by (auto simp: silent_def response_events_def)

lemma traces_finish_response:
  "traces (finish_response env final messages added) (\<lambda>r es. fst r = final \<and> response_events (fst r) es)"
  by (auto simp: finish_response_def response_events_def intro!: traces_intros)

lemma traces_consume_response:
  "traces (consume_response response env messages partial added) (\<lambda>r es. response_events (fst r) es)"
proof (induction response arbitrary: messages partial added)
  case (StreamEvent event elapse rest)
  show ?case
    by (auto intro!: traces_intros traces_conseq [OF traces_on_stream_event] traces_conseq [OF StreamEvent]
        split: prod.split)
qed (auto intro: traces_conseq [OF traces_finish_response])

lemma traces_streamAssistantResponse:
  "traces (streamAssistantResponse env cx config) (\<lambda>r es. response_events (fst r) es)"
  unfolding streamAssistantResponse_def
  by (auto intro!: traces_intros traces_conseq [OF traces_consume_response] split: option.split prod.split)

section \<open>The events of a tool batch\<close>

text \<open>
  The calls of a batch are started in order, every started call ends exactly once, and the
  batch finishes one tool-result message per call, in the order of the calls.
\<close>

definition batch_events :: "tool_call list \<Rightarrow> tool_result_message list \<Rightarrow> agent_event list \<Rightarrow> bool" where
  "batch_events calls messages es \<longleftrightarrow>
     map (\<lambda>m. (tr_toolCallId m, tr_toolName m)) messages = map call_key calls \<and>
     ended_messages es = map ToolResultMessage messages \<and>
     started_tools es = map call_key calls \<and>
     mset (ended_tools es) = mset (map call_key calls) \<and> within_turn es"

lemma batch_events_Nil [simp]: "batch_events [] [] []"
  by (simp add: batch_events_def)

lemma result_message_key [simp]:
  "tr_toolCallId (createToolResultMessage f t) = tc_id (fz_toolCall f)"
  "tr_toolName (createToolResultMessage f t) = tc_name (fz_toolCall f)"
  by (simp_all add: createToolResultMessage_def)

lemma traces_emitToolExecutionEnd:
  "Q () [ToolExecutionEnd (tc_id (fz_toolCall f)) (tc_name (fz_toolCall f)) (fz_result f) (fz_isError f)] \<Longrightarrow>
   traces (emitToolExecutionEnd env f) Q"
  by (simp add: emitToolExecutionEnd_def traces_emit)

lemma traces_emitToolResultMessage:
  "Q () [MessageStart (ToolResultMessage m), MessageEnd (ToolResultMessage m)] \<Longrightarrow>
   traces (emitToolResultMessage env m) Q"
  by (auto simp: emitToolResultMessage_def intro!: traces_intros)

lemma traces_emit_start:
  "Q () [ToolExecutionStart (tc_id c) (tc_name c) (tc_arguments c)] \<Longrightarrow> traces (emit_start env c) Q"
  by (simp add: emit_start_def traces_emit)

lemmas tool_intros =
  traces_intros traces_emitToolExecutionEnd traces_emitToolResultMessage traces_emit_start

lemma traces_failToolCalls:
  "traces (failToolCallsFromTruncatedMessage env toolCalls) (\<lambda>r es. \<not> snd r \<and> batch_events toolCalls (fst r) es \<and>
     list_all (\<lambda>m. tr_isError m) (fst r))"
proof (induction toolCalls)
  case (Cons toolCall toolCalls)
  show ?case
    by (auto simp: Let_def batch_events_def createToolResultMessage_def
        intro!: tool_intros traces_conseq [OF Cons] split: prod.split)
qed (simp add: traces_return)

lemma traces_prepare_or_abort:
  "traces (prepare_or_abort env prepared) (\<lambda>p es. es = [] \<and> (\<forall>q. p = Prepared q \<longrightarrow> q = prepared))"
  unfolding prepare_or_abort_def by (intro traces_intros) auto

lemma traces_prepareToolCall:
  "traces (prepareToolCall env cx am toolCall config)
     (\<lambda>p es. es = [] \<and> (\<forall>q. p = Prepared q \<longrightarrow> pt_toolCall q = toolCall))"
  by (auto simp: prepareToolCall_def Let_def
      split: option.split sum.split intro!: traces_intros traces_conseq [OF traces_prepare_or_abort])

lemma traces_run_tool: "traces (run_tool run env prepared) (\<lambda>r es. silent es)"
proof (induction run)
  case (Update partial rest)
  show ?case
    by (auto simp: emit_update_def intro!: traces_intros traces_conseq [OF Update])
      (simp add: silent_def)
next
  case (Progress work rest)
  show ?case by (auto intro!: traces_intros traces_conseq [OF Progress])
qed (simp add: traces_return)

lemma traces_finalize:
  "traces (finalizeExecutedToolCall cx am prepared executed config)
     (\<lambda>f es. es = [] \<and> fz_toolCall f = pt_toolCall prepared)"
  by (auto simp: finalizeExecutedToolCall_def split: prod.split option.split sum.split intro!: traces_intros)

lemma traces_run_call:
  "traces (run_call env cx am toolCall config) (\<lambda>f es. silent es \<and> fz_toolCall f = toolCall)"
  unfolding run_call_def executePreparedToolCall_def
  by (auto intro!: traces_intros traces_conseq [OF traces_prepareToolCall] traces_conseq [OF traces_run_tool]
      traces_conseq [OF traces_finalize] split: preparation.split)

text \<open>A batch handles a prefix of the calls: all of them unless the run is aborted.\<close>

definition batch_prefix ::
  "'w loop_env \<Rightarrow> tool_call list \<Rightarrow> tool_result_message list \<Rightarrow> agent_event list \<Rightarrow> bool" where
  "batch_prefix env calls messages es \<longleftrightarrow>
     (\<exists>n. batch_events (take n calls) messages es \<and> (calls \<noteq> [] \<longrightarrow> 0 < n) \<and>
       ((\<forall>w. \<not> ev_aborted env w) \<longrightarrow> length calls \<le> n))"

lemma batch_prefix_Nil [simp]: "batch_prefix env [] [] []"
  by (auto simp: batch_prefix_def)

lemma batch_prefix_stop:
  "batch_events [c] messages es \<Longrightarrow> ev_aborted env w \<Longrightarrow> batch_prefix env (c # cs) messages es"
  unfolding batch_prefix_def by (rule exI [of _ 1]) auto

lemma batch_prefix_Cons:
  assumes "batch_prefix env cs messages fs" and "batch_events [c] [m] es"
  shows "batch_prefix env (c # cs) (m # messages) (es @ fs)"
proof -
  from assms(1) obtain n where n: "batch_events (take n cs) messages fs"
    "(\<forall>w. \<not> ev_aborted env w) \<longrightarrow> length cs \<le> n" by (auto simp: batch_prefix_def)
  with assms(2) show ?thesis
    unfolding batch_prefix_def by (intro exI [of _ "Suc n"]) (auto simp: batch_events_def)
qed

abbreviation end_event :: "finalized_tool_call \<Rightarrow> agent_event" where
  "end_event f \<equiv> ToolExecutionEnd (tc_id (fz_toolCall f)) (tc_name (fz_toolCall f)) (fz_result f) (fz_isError f)"

abbreviation result_events :: "tool_result_message \<Rightarrow> agent_event list" where
  "result_events m \<equiv> [MessageStart (ToolResultMessage m), MessageEnd (ToolResultMessage m)]"

lemma batch_one:
  assumes "silent es" and "fz_toolCall f = c"
  shows "batch_events [c] [createToolResultMessage f t]
    (ToolExecutionStart (tc_id c) (tc_name c) a # es @ end_event f # result_events (createToolResultMessage f t))"
  using assms by (auto simp: batch_events_def silent_def)

lemma traces_sequential_calls:
  "traces (sequential_calls env cx am config toolCalls) (\<lambda>r es. batch_prefix env toolCalls (snd r) es)"
proof (induction toolCalls)
  case (Cons toolCall toolCalls)
  have one: "batch_events [toolCall] [createToolResultMessage f t]
      ([ToolExecutionStart (tc_id toolCall) (tc_name toolCall) a] @ es @ [end_event f] @ [] @
       result_events (createToolResultMessage f t) @ [])"
    if "silent es \<and> fz_toolCall f = toolCall" for f es a t
    using batch_one [of es f toolCall t a] that by simp
  have "traces (if ev_aborted env w then State_Monad.return ([], [])
      else sequential_calls env cx am config toolCalls)
      (\<lambda>r es'. batch_prefix env (toolCall # toolCalls) (m # snd r) (es @ es'))"
    if "batch_events [toolCall] [m] es" for m es w
    using that batch_prefix_stop [of toolCall "[m]" es env w toolCalls]
    by (auto intro!: traces_return traces_conseq [OF Cons] intro: batch_prefix_Cons)
  note rest = this [OF one]
  show ?case
    unfolding sequential_calls.simps Let_def
    by (intro tool_intros traces_conseq [OF traces_run_call] traces_conseq [OF rest])
      (auto split: prod.split intro!: traces_return)
qed (simp add: traces_return)

subsection \<open>Concurrent batches\<close>

fun pending_key :: "'w job \<Rightarrow> (id \<times> string) multiset" where
  "pending_key (JobDone f) = {#}"
| "pending_key job = {# call_key (job_call job) #}"

definition pending_keys :: "'w job list \<Rightarrow> (id \<times> string) multiset" where
  "pending_keys jobs = sum_list (map pending_key jobs)"

lemma sum_list_replace:
  fixes f :: "'a \<Rightarrow> 'b::comm_monoid_add"
  assumes "i < length xs" and "f y + d = f (xs ! i)"
  shows "sum_list (map f (xs[i := y])) + d = sum_list (map f xs)"
  using assms
proof (induction xs arbitrary: i)
  case (Cons x xs)
  show ?case
  proof (cases i)
    case (Suc j)
    with Cons have "sum_list (map f (xs[j := y])) + d = sum_list (map f xs)" by simp
    with Suc show ?thesis by (simp add: add.assoc)
  next
    case 0
    with Cons.prems(2) have "f x = f y + d" by simp
    with 0 show ?thesis by (simp add: ac_simps)
  qed
qed simp

lemma traces_job_step:
  "traces (job_step env cx am config job) (\<lambda>job' es. job_call job' = job_call job \<and>
     ended_messages es = [] \<and> started_tools es = [] \<and> within_turn es \<and>
     pending_key job' + mset (ended_tools es) = pending_key job)"
proof (cases job)
  case (JobRunning prepared run)
  then show ?thesis
    by (auto simp: job_step_def emit_update_def split: tool_run.split intro!: traces_intros)
next
  case (JobExecuted prepared executed)
  then show ?thesis
    by (auto simp: job_step_def intro!: traces_intros traces_conseq [OF traces_finalize])
qed (auto simp: job_step_def intro!: tool_intros)

lemma all_done_pending: "unfinished jobs = [] \<Longrightarrow> pending_keys jobs = {#}"
proof -
  assume "unfinished jobs = []"
  then have "list_all job_done jobs"
    by (auto simp: unfinished_def filter_empty_conv list_all_length)
  then show ?thesis
    unfolding pending_keys_def by (induction jobs) (auto elim: job_done.elims)
qed

lemma run_jobs_events:
  assumes "run_jobs env cx am config jobs s = (jobs', s')"
  shows "\<exists>es. st_trace s' = st_trace s @ es \<and> unfinished jobs' = [] \<and> map job_call jobs' = map job_call jobs \<and>
    ended_messages es = [] \<and> started_tools es = [] \<and> within_turn es \<and> mset (ended_tools es) = pending_keys jobs"
  using assms
proof (induction env cx am config jobs s rule: run_jobs.induct)
  case (1 env cx am config jobs s)
  show ?case
  proof (cases "unfinished jobs = []")
    case True
    with 1 show ?thesis by (simp add: run_jobs.simps all_done_pending)
  next
    case False
    let ?i = "next_job env jobs (st_world s)"
    obtain job t where step: "run_state (job_step env cx am config (jobs ! ?i)) s = (job, t)"
      by (metis surj_pair)
    from 1(2) False step have "run_jobs env cx am config (jobs[?i := job]) t = (jobs', s')"
      by (simp add: run_jobs.simps [of _ _ _ _ jobs] Let_def)
    with 1(1) [OF False refl refl, unfolded step fst_conv snd_conv] obtain fs where fs: "st_trace s' = st_trace t @ fs" "unfinished jobs' = []"
      "map job_call jobs' = map job_call (jobs[?i := job])" "ended_messages fs = []" "started_tools fs = []"
      "within_turn fs" "mset (ended_tools fs) = pending_keys (jobs[?i := job])"
      by blast
    from traces_job_step step obtain es where es: "st_trace t = st_trace s @ es"
      "job_call job = job_call (jobs ! ?i)" "ended_messages es = []" "started_tools es = []" "within_turn es"
      "pending_key job + mset (ended_tools es) = pending_key (jobs ! ?i)"
      by (rule tracesD) auto
    have "pending_keys (jobs[?i := job]) + mset (ended_tools es) = pending_keys jobs"
      unfolding pending_keys_def using es(6) next_job_unfinished(1) [OF False] by (rule sum_list_replace [rotated])
    moreover have "map job_call (jobs[?i := job]) = map job_call jobs"
      using es(2) by (simp add: map_update list_update_id)
        (metis list_update_id next_job_unfinished(1) [OF False] nth_map)
    ultimately show ?thesis
      using fs es by (intro exI [of _ "es @ fs"]) (auto simp: add.commute)
  qed
qed

lemma traces_run_jobs:
  "traces (State (run_jobs env cx am config jobs)) (\<lambda>jobs' es. unfinished jobs' = [] \<and>
     map job_call jobs' = map job_call jobs \<and> ended_messages es = [] \<and> started_tools es = [] \<and> within_turn es \<and>
     mset (ended_tools es) = pending_keys jobs)"
  unfolding traces_def using run_jobs_events by (metis state.sel)

lemma traces_emit_results:
  "traces (emit_results env finalizedCalls) (\<lambda>messages es.
     map (\<lambda>m. (tr_toolCallId m, tr_toolName m)) messages = map (call_key \<circ> fz_toolCall) finalizedCalls \<and>
     ended_messages es = map ToolResultMessage messages \<and> started_tools es = [] \<and> ended_tools es = [] \<and> within_turn es)"
proof (induction finalizedCalls)
  case (Cons finalized finalizedCalls)
  show ?case
    unfolding emit_results.simps Let_def
    by (intro tool_intros traces_conseq [OF Cons]) auto
qed (simp add: traces_return)

definition prepared_prefix ::
  "'w loop_env \<Rightarrow> tool_call list \<Rightarrow> 'w job list \<Rightarrow> agent_event list \<Rightarrow> bool" where
  "prepared_prefix env calls jobs es \<longleftrightarrow>
     (\<exists>n. map job_call jobs = take n calls \<and> started_tools es = map call_key (take n calls) \<and>
       pending_keys jobs + mset (ended_tools es) = mset (map call_key (take n calls)) \<and>
       ended_messages es = [] \<and> within_turn es \<and> (calls \<noteq> [] \<longrightarrow> 0 < n) \<and>
       ((\<forall>w. \<not> ev_aborted env w) \<longrightarrow> length calls \<le> n))"

lemma prepared_prefix_Nil [simp]: "prepared_prefix env [] [] []"
  by (auto simp: prepared_prefix_def pending_keys_def)

definition prepared_one :: "tool_call \<Rightarrow> 'w job \<Rightarrow> agent_event list \<Rightarrow> bool" where
  "prepared_one c job es \<longleftrightarrow> job_call job = c \<and> started_tools es = [call_key c] \<and>
     pending_key job + mset (ended_tools es) = {# call_key c #} \<and> ended_messages es = [] \<and> within_turn es"

lemma prepared_prefix_stop:
  "prepared_one c job es \<Longrightarrow> ev_aborted env w \<Longrightarrow> prepared_prefix env (c # cs) [job] es"
  unfolding prepared_prefix_def prepared_one_def
  by (intro exI [of _ 1]) (auto simp: pending_keys_def)

lemma prepared_prefix_Cons:
  assumes "prepared_prefix env cs jobs fs" and "prepared_one c job es"
  shows "prepared_prefix env (c # cs) (job # jobs) (es @ fs)"
proof -
  from assms(1) obtain n where n: "map job_call jobs = take n cs" "started_tools fs = map call_key (take n cs)"
    "pending_keys jobs + mset (ended_tools fs) = mset (map call_key (take n cs))"
    "ended_messages fs = []" "within_turn fs" "(\<forall>w. \<not> ev_aborted env w) \<longrightarrow> length cs \<le> n"
    unfolding prepared_prefix_def by blast
  have "pending_keys (job # jobs) + mset (ended_tools (es @ fs))
      = (pending_key job + mset (ended_tools es)) + (pending_keys jobs + mset (ended_tools fs))"
    by (simp add: pending_keys_def ac_simps)
  with n assms(2) show ?thesis
    unfolding prepared_prefix_def prepared_one_def by (intro exI [of _ "Suc n"]) auto
qed

lemma traces_parallel_prepare:
  "traces (parallel_prepare env cx am config toolCalls) (\<lambda>jobs es. prepared_prefix env toolCalls jobs es)"
proof (induction toolCalls)
  case (Cons toolCall toolCalls)
  have rest: "traces (if ev_aborted env w then State_Monad.return []
      else parallel_prepare env cx am config toolCalls)
      (\<lambda>jobs es'. prepared_prefix env (toolCall # toolCalls) (job # jobs) (es @ es'))"
    if "prepared_one toolCall job es" for job es w
    using that prepared_prefix_stop [of toolCall job es env w toolCalls]
    by (auto intro!: traces_return traces_conseq [OF Cons] intro: prepared_prefix_Cons)
  have job: "traces (case p of
        Immediate result isError \<Rightarrow> do {
          let finalized = \<lparr> fz_toolCall = toolCall, fz_result = result, fz_isError = isError \<rparr>;
          emitToolExecutionEnd env finalized;
          State_Monad.return (JobDone finalized)
        }
      | Prepared prepared \<Rightarrow> State_Monad.return (JobRunning prepared (start_execution prepared)))
      (\<lambda>job es. prepared_one toolCall job
         (ToolExecutionStart (tc_id toolCall) (tc_name toolCall) (tc_arguments toolCall) # es))"
    if "\<forall>q. p = Prepared q \<longrightarrow> pt_toolCall q = toolCall" for p
    using that by (auto simp: prepared_one_def Let_def split: preparation.split intro!: tool_intros)
  show ?case
    unfolding parallel_prepare.simps
    by (intro tool_intros traces_conseq [OF traces_prepareToolCall] traces_conseq [OF job] traces_conseq [OF rest]) auto
qed (simp add: traces_return)

lemma done_call: "unfinished jobs = [] \<Longrightarrow> map (fz_toolCall \<circ> job_finalized) jobs = map job_call jobs"
proof -
  have "job_done j \<Longrightarrow> fz_toolCall (job_finalized j) = job_call j" for j :: "'a job"
    by (cases j) auto
  moreover assume "unfinished jobs = []"
  then have "\<forall>j \<in> set jobs. job_done j"
    by (auto simp: unfinished_def filter_empty_conv in_set_conv_nth)
  ultimately show ?thesis by auto
qed

lemma parallel_batch:
  assumes "prepared_prefix env calls jobs es" and "unfinished jobs' = []" and "map job_call jobs' = map job_call jobs"
    and "ended_messages fs = []" "started_tools fs = []" "within_turn fs" "mset (ended_tools fs) = pending_keys jobs"
    and "map (\<lambda>m. (tr_toolCallId m, tr_toolName m)) messages = map (call_key \<circ> fz_toolCall) (map job_finalized jobs')"
    and "ended_messages gs = map ToolResultMessage messages" "started_tools gs = []" "ended_tools gs = []" "within_turn gs"
  shows "batch_prefix env calls messages (es @ fs @ gs)"
proof -
  from assms(1) obtain n where n: "map job_call jobs = take n calls" "started_tools es = map call_key (take n calls)"
    "pending_keys jobs + mset (ended_tools es) = mset (map call_key (take n calls))"
    "ended_messages es = []" "within_turn es" "calls \<noteq> [] \<longrightarrow> 0 < n" "(\<forall>w. \<not> ev_aborted env w) \<longrightarrow> length calls \<le> n"
    unfolding prepared_prefix_def by blast
  have "map (call_key \<circ> fz_toolCall) (map job_finalized jobs') = map call_key (map (fz_toolCall \<circ> job_finalized) jobs')"
    by simp
  also have "\<dots> = map call_key (take n calls)" using done_call [OF assms(2)] assms(3) n(1) by simp
  finally have "batch_events (take n calls) messages (es @ fs @ gs)"
    using assms n unfolding batch_events_def by (simp add: add.commute)
  with n show ?thesis unfolding batch_prefix_def by blast
qed

lemma traces_executeToolCallsParallel:
  "traces (executeToolCallsParallel env cx am config calls) (\<lambda>r es. batch_prefix env calls (fst r) es)"
  unfolding executeToolCallsParallel_def Let_def
  by (intro traces_intros traces_conseq [OF traces_parallel_prepare] traces_conseq [OF traces_run_jobs]
      traces_conseq [OF traces_emit_results]) (auto intro!: parallel_batch)

lemma traces_executeToolCallsSequential:
  "traces (executeToolCallsSequential env cx am config calls) (\<lambda>r es. batch_prefix env calls (fst r) es)"
  unfolding executeToolCallsSequential_def
  by (intro traces_intros traces_conseq [OF traces_sequential_calls]) (auto intro!: traces_return)

lemma traces_executeToolCalls:
  "traces (executeToolCalls env cx am config) (\<lambda>r es. batch_prefix env (message_tool_calls am) (fst r) es)"
  by (simp add: executeToolCalls_def Let_def traces_executeToolCallsParallel traces_executeToolCallsSequential)

section \<open>A sample run\<close>

text \<open>
  The world counts the requests. The first response calls the tool \<open>echo\<close> twice, every other one
  stops. The scheduler always advances the last unfinished call.
\<close>

definition sample_usage :: usage where
  "sample_usage = \<lparr> u_input = 0, u_output = 0, u_cacheRead = 0, u_cacheWrite = 0, u_cacheWrite1h = None,
     u_reasoning = None, u_totalTokens = 0, u_cost = \<lparr> cost_input = 0, cost_output = 0, cost_cacheRead = 0,
     cost_cacheWrite = 0, cost_total = 0 \<rparr> \<rparr>"

definition sample_assistant :: "content_block list \<Rightarrow> stop_reason \<Rightarrow> assistant_message" where
  "sample_assistant content reason = \<lparr> am_content = content, am_api = ''a'', am_provider = ''p'', am_model = ''m'',
     am_responseModel = None, am_responseId = None, am_diagnostics = None, am_usage = sample_usage,
     am_stopReason = reason, am_deferred = None, am_errorMessage = None, am_rawStopReason = None,
     am_endTurn = None, am_timestamp = 0 \<rparr>"

definition sample_call :: "string \<Rightarrow> tool_call" where
  "sample_call i = \<lparr> tc_id = i, tc_name = ''echo'', tc_arguments = JsonObject [], tc_thoughtSignature = None,
     tc_namespace = None \<rparr>"

definition sample_calling :: assistant_message where
  "sample_calling = sample_assistant [ToolCallContent (sample_call ''1''), ToolCallContent (sample_call ''2'')] ToolUse"

definition sample_result :: agent_tool_result where
  "sample_result = \<lparr> ar_content = Some [TextContent ''ok'' None], ar_details = None, ar_usage = None,
     ar_addedToolNames = None, ar_terminate = None \<rparr>"

definition sample_tool :: "nat agent_tool" where
  "sample_tool = \<lparr> at_name = ''echo'', at_executionMode = None, at_prepareArguments = None,
     at_execute = (\<lambda>_ _. Update sample_result (Progress id (\<lambda>_. Settled (Inr sample_result)))) \<rparr>"

definition sample_context :: "nat agent_context" where
  "sample_context = \<lparr> cx_systemPrompt = [], cx_messages = [], cx_tools = Some [sample_tool] \<rparr>"

definition sample_env :: "nat loop_env" where
  "sample_env = \<lparr> ev_emit = (\<lambda>_ w. w), ev_aborted = (\<lambda>_. False),
     ev_streamFn = (\<lambda>_ w. (if w = 0 then StreamEvent (EvStart sample_calling) id (\<lambda>_. StreamDone sample_calling)
       else StreamDone (sample_assistant [] Stop), Suc w)),
     ev_now = (\<lambda>_. 0), ev_validate = (\<lambda>_ c. Inr (tc_arguments c)), ev_pick = (\<lambda>_ n. n - 1) \<rparr>"

definition sample_limit :: nat where
  "sample_limit = Suc (Suc (Suc (Suc (Suc (Suc 0)))))"

definition sample_config :: "nat loop_config" where
  "sample_config = \<lparr> lc_model = \<lparr> md_id = ''m'', md_api = ''a'', md_provider = ''p'' \<rparr>, lc_reasoning = None,
     lc_apiKey = None, lc_toolExecution = None, lc_convertToLlm = Pair, lc_transformContext = None,
     lc_getApiKey = None, lc_shouldStopAfterTurn = Some (\<lambda>c w. (sample_limit \<le> length (tx_newMessages c), w)),
     lc_prepareNextTurn = None, lc_getSteeringMessages = None, lc_getFollowUpMessages = None,
     lc_beforeToolCall = None, lc_afterToolCall = None \<rparr>"

definition sample_loop_start :: "nat loop_st" where
  "sample_loop_start = \<lparr> st_world = 0, st_trace = [] \<rparr>"

text \<open>C9. Whatever order the tools of a batch run in, each call of a handled prefix of the
  message's tool calls (the whole list unless the run is aborted) is started in the order of the
  message, ends exactly once, and yields one tool-result message; the messages are finished and
  returned in the order of the calls.\<close>

theorem tool_batch_complete:
  assumes "run_state (executeToolCalls env cx am config) s = ((messages, terminate), s')"
  shows "\<exists>es n. st_trace s' = st_trace s @ es \<and> batch_events (take n (message_tool_calls am)) messages es \<and>
    (message_tool_calls am \<noteq> [] \<longrightarrow> 0 < n) \<and>
    ((\<forall>w. \<not> ev_aborted env w) \<longrightarrow> length (message_tool_calls am) \<le> n)"
proof -
  from traces_executeToolCalls assms obtain es where
    "st_trace s' = st_trace s @ es" "batch_prefix env (message_tool_calls am) messages es"
    by (rule tracesD) simp
  then show ?thesis unfolding batch_prefix_def by blast
qed

theorem tool_batch_complete_witness:
  "\<exists>es n. 2 \<le> n \<and> st_trace (snd (run_state (executeToolCalls sample_env sample_context sample_calling sample_config)
       sample_loop_start)) = es \<and>
     batch_events (take n [sample_call ''1'', sample_call ''2''])
       (fst (fst (run_state (executeToolCalls sample_env sample_context sample_calling sample_config) sample_loop_start))) es"
proof -
  have calls: "message_tool_calls sample_calling = [sample_call ''1'', sample_call ''2'']" by code_simp
  have "\<forall>w. \<not> ev_aborted sample_env w" by (simp add: sample_env_def)
  moreover have "st_trace sample_loop_start = []" by (simp add: sample_loop_start_def)
  moreover obtain messages terminate s' where run:
    "run_state (executeToolCalls sample_env sample_context sample_calling sample_config) sample_loop_start
       = ((messages, terminate), s')" by (metis surj_pair)
  ultimately show ?thesis using tool_batch_complete [OF run] unfolding calls run by fastforce
qed

text \<open>A tool call is handed to its tool exactly when the tool is known, its arguments are
  prepared and valid, the hook before the call neither fails nor blocks it and the run is not
  aborted by then; in every other case the call gets an error result at once.\<close>

theorem tool_prepared_iff:
  "fst (run_state (prepareToolCall env cx am call config) s) = Prepared p \<longleftrightarrow>
   (\<exists>tool args. find_tool cx (tc_name call) = Some tool \<and>
      rbind (prepareToolCallArguments tool call) (ev_validate env tool) = Inr args \<and>
      p = \<lparr> pt_toolCall = call, pt_tool = tool, pt_args = args \<rparr> \<and>
      (case lc_beforeToolCall config of
         None \<Rightarrow> \<not> ev_aborted env (st_world s)
       | Some hook \<Rightarrow> (case hook am call args cx (st_world s) of (r, w) \<Rightarrow>
           \<not> ev_aborted env w \<and>
           (r = Inr None \<or> (\<exists>decision. r = Inr (Some decision) \<and> \<not> br_block decision)))))"
  by (auto simp: prepareToolCall_def prepare_or_abort_def Let_def
      split: option.splits sum.splits prod.splits if_splits)

end
