(* ===== verification/Agent_Loop.thy ===== *)
theory Agent_Loop
  imports Agent_Tools
begin

text \<open>
  The turns of a run: \<^verbatim>\<open>runLoop\<close>, \<^verbatim>\<open>runAgentLoop\<close> and \<^verbatim>\<open>runAgentLoopContinue\<close> of
  \<^verbatim>\<open>packages/agent/src/agent-loop.ts\<close>. A run need not end (the model may call tools for ever),
  so the loop is a partial function into \<open>option\<close>; \<open>loop_step\<close> is one pass through the head of
  the inner loop, either a turn or the poll for follow-up messages.
\<close>

section \<open>One pass of the loop\<close>

record 'w loop_vars =
  lv_context :: "'w agent_context"
  lv_config :: "'w loop_config"
  lv_newMessages :: "agent_message list"
  lv_firstTurn :: bool
  lv_pending :: "agent_message list"
  lv_hasMore :: bool

datatype 'w pass = Continue "'w loop_vars" | Finish "agent_message list"

fun emit_messages :: "'w loop_env \<Rightarrow> agent_message list \<Rightarrow> ('w, unit) loop" where
  "emit_messages env [] = State_Monad.return ()"
| "emit_messages env (message # messages) = do {
     emit env (MessageStart message);
     emit env (MessageEnd message);
     emit_messages env messages
   }"

definition run_tools ::
  "'w loop_env \<Rightarrow> 'w agent_context \<Rightarrow> assistant_message \<Rightarrow> 'w loop_config
     \<Rightarrow> ('w, tool_result_message list \<times> bool) loop" where
  "run_tools env context message config =
     (if message_tool_calls message = [] then State_Monad.return ([], False)
      else do {
        (toolResults, terminate) \<leftarrow>
          (if am_stopReason message = Length
           then failToolCallsFromTruncatedMessage env (message_tool_calls message)
           else executeToolCalls env context message config);
        State_Monad.return (toolResults, \<not> terminate)
      })"

definition apply_turn_update ::
  "'w turn_update option \<Rightarrow> 'w agent_context \<Rightarrow> 'w loop_config \<Rightarrow> 'w agent_context \<times> 'w loop_config" where
  "apply_turn_update snapshot context config =
     (case snapshot of
        None \<Rightarrow> (context, config)
      | Some u \<Rightarrow>
          (case tu_context u of None \<Rightarrow> context | Some c \<Rightarrow> c,
           config\<lparr> lc_model := (case tu_model u of None \<Rightarrow> lc_model config | Some m \<Rightarrow> m),
                   lc_reasoning := (case tu_thinkingLevel u of
                      None \<Rightarrow> lc_reasoning config
                    | Some level \<Rightarrow> if level = ''off'' then None else Some level) \<rparr>))"

definition end_run :: "'w loop_env \<Rightarrow> agent_message list \<Rightarrow> ('w, 'w pass) loop" where
  "end_run env newMessages = do {
     emit env (AgentEnd newMessages);
     State_Monad.return (Finish newMessages)
   }"

text \<open>After the turn: \<^verbatim>\<open>prepareNextTurn\<close>, \<^verbatim>\<open>shouldStopAfterTurn\<close> and the steering poll.\<close>

definition after_turn ::
  "'w loop_env \<Rightarrow> assistant_message \<Rightarrow> tool_result_message list \<Rightarrow> 'w agent_context \<Rightarrow> 'w loop_config
     \<Rightarrow> agent_message list \<Rightarrow> bool \<Rightarrow> ('w, 'w pass) loop" where
  "after_turn env message toolResults context config newMessages hasMore = do {
     snapshot \<leftarrow> (case lc_prepareNextTurn config of
        None \<Rightarrow> State_Monad.return None
      | Some prepareNextTurn \<Rightarrow> call_world (prepareNextTurn
          \<lparr> tx_message = message, tx_toolResults = toolResults, tx_context = context,
            tx_newMessages = newMessages \<rparr>));
     let (context', config') = apply_turn_update snapshot context config;
     stop \<leftarrow> (case lc_shouldStopAfterTurn config' of
        None \<Rightarrow> State_Monad.return False
      | Some shouldStopAfterTurn \<Rightarrow> call_world (shouldStopAfterTurn
          \<lparr> tx_message = message, tx_toolResults = toolResults, tx_context = context',
            tx_newMessages = newMessages \<rparr>));
     if stop then end_run env newMessages
     else do {
       pending \<leftarrow> poll (lc_getSteeringMessages config');
       State_Monad.return (Continue \<lparr> lv_context = context', lv_config = config', lv_newMessages = newMessages,
         lv_firstTurn = False, lv_pending = pending, lv_hasMore = hasMore \<rparr>)
     }
   }"

text \<open>The turn from its assistant message on: failure, tool calls, the end of the turn.\<close>

definition complete_turn ::
  "'w loop_env \<Rightarrow> assistant_message \<Rightarrow> 'w agent_context \<Rightarrow> 'w loop_config \<Rightarrow> agent_message list
     \<Rightarrow> ('w, 'w pass) loop" where
  "complete_turn env message context config newMessages =
     (if am_stopReason message = Error \<or> am_stopReason message = Aborted then do {
        emit env (TurnEnd (AssistantMessage message) []);
        end_run env newMessages
      } else do {
        (toolResults, hasMore) \<leftarrow> run_tools env context message config;
        emit env (TurnEnd (AssistantMessage message) toolResults);
        after_turn env message toolResults
          (context\<lparr> cx_messages := cx_messages context @ map ToolResultMessage toolResults \<rparr>) config
          (newMessages @ map ToolResultMessage toolResults) hasMore
      })"

definition turn :: "'w loop_env \<Rightarrow> 'w loop_vars \<Rightarrow> ('w, 'w pass) loop" where
  "turn env v = do {
     (if lv_firstTurn v then State_Monad.return () else emit env TurnStart);
     emit_messages env (lv_pending v);
     (message, context) \<leftarrow> streamAssistantResponse env
       ((lv_context v)\<lparr> cx_messages := cx_messages (lv_context v) @ lv_pending v \<rparr>) (lv_config v);
     complete_turn env message context (lv_config v)
       (lv_newMessages v @ lv_pending v @ [AssistantMessage message])
   }"

definition loop_step :: "'w loop_env \<Rightarrow> 'w loop_vars \<Rightarrow> ('w, 'w pass) loop" where
  "loop_step env v =
     (if lv_hasMore v \<or> lv_pending v \<noteq> [] then turn env v
      else do {
        followUps \<leftarrow> poll (lc_getFollowUpMessages (lv_config v));
        if followUps \<noteq> [] then State_Monad.return (Continue (v\<lparr> lv_pending := followUps, lv_hasMore := True \<rparr>))
        else end_run env (lv_newMessages v)
      })"

partial_function (option) run_passes ::
  "'w loop_env \<Rightarrow> 'w loop_vars \<Rightarrow> 'w loop_st \<Rightarrow> (agent_message list \<times> 'w loop_st) option" where
  "run_passes env v s =
     (case run_state (loop_step env v) s of
        (Finish newMessages, s') \<Rightarrow> Some (newMessages, s')
      | (Continue v', s') \<Rightarrow> run_passes env v' s')"

declare run_passes.simps [code]

definition runLoop ::
  "'w loop_env \<Rightarrow> 'w agent_context \<Rightarrow> agent_message list \<Rightarrow> 'w loop_config \<Rightarrow> 'w loop_st
     \<Rightarrow> (agent_message list \<times> 'w loop_st) option" where
  "runLoop env context newMessages config s =
     (case run_state (poll (lc_getSteeringMessages config)) s of (pending, s') \<Rightarrow>
        run_passes env \<lparr> lv_context = context, lv_config = config, lv_newMessages = newMessages,
          lv_firstTurn = True, lv_pending = pending, lv_hasMore = True \<rparr> s')"

definition runAgentLoop ::
  "'w loop_env \<Rightarrow> agent_message list \<Rightarrow> 'w agent_context \<Rightarrow> 'w loop_config \<Rightarrow> 'w loop_st
     \<Rightarrow> (agent_message list \<times> 'w loop_st) option" where
  "runAgentLoop env prompts context config s =
     (case run_state (do { emit env AgentStart; emit env TurnStart; emit_messages env prompts }) s of
        (_, s') \<Rightarrow> runLoop env (context\<lparr> cx_messages := cx_messages context @ prompts \<rparr>) prompts config s')"

datatype continue_error = NoMessagesInContext | LastMessageAssistant

definition check_continue :: "agent_message list \<Rightarrow> continue_error + unit" where
  "check_continue messages =
     (if messages = [] then Inl NoMessagesInContext
      else if message_role (last messages) = RoleAssistant then Inl LastMessageAssistant
      else Inr ())"

definition runAgentLoopContinue ::
  "'w loop_env \<Rightarrow> 'w agent_context \<Rightarrow> 'w loop_config \<Rightarrow> 'w loop_st
     \<Rightarrow> continue_error + (agent_message list \<times> 'w loop_st) option" where
  "runAgentLoopContinue env context config s =
     rbind (check_continue (cx_messages context)) (\<lambda>_.
       case run_state (do { emit env AgentStart; emit env TurnStart }) s of
         (_, s') \<Rightarrow> Inr (runLoop env context [] config s'))"

section \<open>The events of a run\<close>

fun run_boundary :: "agent_event \<Rightarrow> bool" where
  "run_boundary AgentStart = True"
| "run_boundary (AgentEnd ms) = True"
| "run_boundary _ = False"

text \<open>
  A finished turn answers its tool calls: none after an error or an abort, otherwise those of a
  prefix, in order, and all of them when the run is never aborted. The calls of a response that
  was cut off all fail.
\<close>

definition answers :: "'w loop_env \<Rightarrow> assistant_message \<Rightarrow> tool_result_message list \<Rightarrow> bool" where
  "answers env m results \<longleftrightarrow>
     (if am_stopReason m = Error \<or> am_stopReason m = Aborted then results = []
      else \<exists>n. map (\<lambda>r. (tr_toolCallId r, tr_toolName r)) results = map call_key (take n (message_tool_calls m)) \<and>
        (message_tool_calls m \<noteq> [] \<longrightarrow> 0 < n) \<and>
        ((\<forall>w. \<not> ev_aborted env w) \<or> am_stopReason m = Length \<longrightarrow> length (message_tool_calls m) \<le> n) \<and>
        (am_stopReason m = Length \<longrightarrow> list_all tr_isError results))"

fun turn_answered :: "'w loop_env \<Rightarrow> agent_event \<Rightarrow> bool" where
  "turn_answered env (TurnEnd (AssistantMessage m) results) = answers env m results"
| "turn_answered env (TurnEnd _ results) = False"
| "turn_answered env _ = True"

definition run_events :: "'w loop_env \<Rightarrow> agent_event list \<Rightarrow> bool" where
  "run_events env es \<longleftrightarrow> list_all (\<lambda>e. \<not> run_boundary e) es \<and>
     mset (started_tools es) = mset (ended_tools es) \<and> list_all (turn_answered env) es"

lemma run_events_simps [simp]:
  "run_events env []"
  "run_events env es \<Longrightarrow> run_events env fs \<Longrightarrow> run_events env (es @ fs)"
  by (simp_all add: run_events_def)

lemma within_turn_run_events:
  assumes "within_turn es" and "mset (started_tools es) = mset (ended_tools es)"
  shows "run_events env es"
proof -
  have "\<not> lifecycle_event e \<Longrightarrow> \<not> run_boundary e \<and> turn_answered env e" for e
    by (cases e) auto
  with assms show ?thesis by (auto simp: run_events_def within_turn_def list_all_iff)
qed

lemma traces_emit_messages:
  "traces (emit_messages env messages) (\<lambda>_ es. ended_messages es = messages \<and> run_events env es)"
proof (induction messages)
  case (Cons message messages)
  show ?case
    by (auto simp: run_events_def intro!: traces_intros traces_conseq [OF Cons])
qed (simp add: traces_return)

lemma response_run_events: "response_events m es \<Longrightarrow> run_events env es \<and> ended_messages es = [AssistantMessage m]"
  by (auto simp: response_events_def intro: within_turn_run_events)

lemma traces_run_tools:
  assumes "am_stopReason m \<noteq> Error" "am_stopReason m \<noteq> Aborted"
  shows "traces (run_tools env cx m config) (\<lambda>r es. answers env m (fst r) \<and> run_events env es \<and>
    ended_messages es = map ToolResultMessage (fst r))"
proof -
  have batch: "answers env m results \<and> run_events env es \<and> ended_messages es = map ToolResultMessage results"
    if "batch_events (take n (message_tool_calls m)) results es"
      "message_tool_calls m \<noteq> [] \<longrightarrow> 0 < n"
      "(\<forall>w. \<not> ev_aborted env w) \<or> am_stopReason m = Length \<longrightarrow> length (message_tool_calls m) \<le> n"
      "am_stopReason m = Length \<longrightarrow> list_all tr_isError results" for results es n
    using that assms by (auto simp: batch_events_def answers_def intro: within_turn_run_events)
  have whole: "answers env m results \<and> run_events env es \<and> ended_messages es = map ToolResultMessage results"
    if "batch_events (message_tool_calls m) results es" "list_all tr_isError results" for results es
    using batch [of "length (message_tool_calls m)" results es] that by simp
  have prefix: "answers env m results \<and> run_events env es \<and> ended_messages es = map ToolResultMessage results"
    if "batch_prefix env (message_tool_calls m) results es" "am_stopReason m \<noteq> Length" for results es
    using that batch unfolding batch_prefix_def by blast
  have run: "traces (if am_stopReason m = Length then failToolCallsFromTruncatedMessage env (message_tool_calls m)
      else executeToolCalls env cx m config)
    (\<lambda>r es. answers env m (fst r) \<and> run_events env es \<and> ended_messages es = map ToolResultMessage (fst r))"
    by (cases "am_stopReason m = Length")
      (auto intro: traces_conseq [OF traces_failToolCalls] traces_conseq [OF traces_executeToolCalls] dest: whole prefix)
  show ?thesis
  proof (cases "message_tool_calls m = []")
    case True
    with whole [of "[]" "[]"] show ?thesis by (simp add: run_tools_def traces_return)
  next
    case False
    show ?thesis
      unfolding run_tools_def if_not_P [OF False] by (intro traces_bind traces_conseq [OF run]) (auto intro!: traces_return)
  qed
qed

text \<open>What one pass adds to the messages of the run and to the trace.\<close>

definition pass_events :: "'w loop_env \<Rightarrow> agent_message list \<Rightarrow> 'w pass \<Rightarrow> agent_event list \<Rightarrow> bool" where
  "pass_events env messages p es \<longleftrightarrow>
     (case p of
        Continue v \<Rightarrow> run_events env es \<and> lv_newMessages v = messages @ ended_messages es
      | Finish result \<Rightarrow> (\<exists>fs. es = fs @ [AgentEnd result] \<and> run_events env fs \<and>
          result = messages @ ended_messages fs))"

lemma pass_events_prefix:
  "run_events env es \<Longrightarrow> pass_events env (messages @ ended_messages es) p fs \<Longrightarrow> pass_events env messages p (es @ fs)"
  by (cases p) (auto simp: pass_events_def)

lemma pass_events_Continue [simp]: "pass_events env messages (Continue v) [] \<longleftrightarrow> lv_newMessages v = messages"
  by (simp add: pass_events_def)

lemma traces_end_run: "traces (end_run env messages) (\<lambda>p es. pass_events env messages p es)"
  by (auto simp: end_run_def pass_events_def intro!: traces_intros)

lemma traces_poll: "(\<And>x. Q x []) \<Longrightarrow> traces (poll callback) Q"
  by (auto simp: poll_def split: option.split intro!: traces_intros)

lemma traces_option_call:
  "(\<And>x. Q x []) \<Longrightarrow> traces (case callback of None \<Rightarrow> State_Monad.return d | Some f \<Rightarrow> call_world (f c)) Q"
  by (auto split: option.split intro!: traces_intros)

lemma traces_after_turn:
  "traces (after_turn env m results cx config messages hasMore) (\<lambda>p es. pass_events env messages p es)"
  unfolding after_turn_def Let_def
  by (auto intro!: traces_bind traces_option_call traces_conseq [OF traces_end_run] traces_poll traces_return
      split: prod.split)

lemma traces_complete_turn:
  "traces (complete_turn env m cx config messages) (\<lambda>p es. pass_events env messages p es)"
proof (cases "am_stopReason m = Error \<or> am_stopReason m = Aborted")
  case True
  then have "run_events env [TurnEnd (AssistantMessage m) []]" by (simp add: run_events_def answers_def)
  then have "pass_events env messages p (TurnEnd (AssistantMessage m) [] # fs)"
    if "pass_events env messages p fs" for p fs
    using that pass_events_prefix [of env "[TurnEnd (AssistantMessage m) []]" messages p fs] by simp
  with True show ?thesis
    unfolding complete_turn_def by (auto intro!: traces_intros traces_conseq [OF traces_end_run])
next
  case False
  have step: "pass_events env messages p (es @ TurnEnd (AssistantMessage m) results # fs)"
    if "answers env m results" "run_events env es" "ended_messages es = map ToolResultMessage results"
      "pass_events env (messages @ map ToolResultMessage results) p fs" for results es p fs
    using that pass_events_prefix [of env "es @ [TurnEnd (AssistantMessage m) results]" messages p fs]
    by (simp add: run_events_def)
  from False show ?thesis
    unfolding complete_turn_def
    by (simp, intro traces_bind traces_conseq [OF traces_run_tools])
      (auto intro!: traces_intros traces_conseq [OF traces_after_turn] step)
qed

lemma traces_turn:
  "traces (turn env v) (\<lambda>p es. pass_events env (lv_newMessages v) p es)"
proof -
  let ?start = "if lv_firstTurn v then State_Monad.return () else emit env TurnStart"
  have start: "traces ?start (\<lambda>_ es. ended_messages es = [] \<and> run_events env es)"
    by (auto simp: run_events_def intro!: traces_intros)
  have prefix: "pass_events env messages p (es @ fs @ gs @ hs)"
    if "ended_messages es = [] \<and> run_events env es" "ended_messages fs = pending \<and> run_events env fs"
      "response_events m gs" "pass_events env (messages @ pending @ [AssistantMessage m]) p hs"
    for es fs gs hs messages pending m p
    using that response_run_events [OF that(3), of env] pass_events_prefix [of env "es @ fs @ gs" messages p hs] by simp
  show ?thesis
    unfolding turn_def
    by (intro traces_bind traces_conseq [OF start] traces_conseq [OF traces_emit_messages]
        traces_conseq [OF traces_streamAssistantResponse])
      (auto split: prod.split intro!: traces_conseq [OF traces_complete_turn] intro: prefix)
qed

lemma traces_loop_step: "traces (loop_step env v) (\<lambda>p es. pass_events env (lv_newMessages v) p es)"
  by (auto simp: loop_step_def intro!: traces_turn traces_bind traces_poll traces_return traces_conseq [OF traces_end_run])

definition run_trace ::
  "'w loop_env \<Rightarrow> agent_message list \<Rightarrow> 'w loop_st \<Rightarrow> agent_message list \<times> 'w loop_st \<Rightarrow> bool" where
  "run_trace env earlier s r \<longleftrightarrow> (\<exists>es. st_trace (snd r) = st_trace s @ es @ [AgentEnd (fst r)] \<and>
     run_events env es \<and> fst r = earlier @ ended_messages es)"

lemma run_passes_trace:
  assumes "run_passes env v s = Some r"
  shows "run_trace env (lv_newMessages v) s r"
proof (rule run_passes.raw_induct [where P = "\<lambda>env v s r. run_trace env (lv_newMessages v) s r", OF _ assms])
  fix loop and env :: "'a loop_env" and v s r
  assume IH: "\<And>env v s r. loop env v s = Some r \<Longrightarrow> run_trace env (lv_newMessages v) s r"
    and body: "(case run_state (loop_step env v) s of (Continue v', s') \<Rightarrow> loop env v' s'
      | (Finish newMessages, s') \<Rightarrow> Some (newMessages, s')) = Some r"
  obtain p t where p: "run_state (loop_step env v) s = (p, t)" by (metis surj_pair)
  from traces_loop_step p obtain es where es: "st_trace t = st_trace s @ es" "pass_events env (lv_newMessages v) p es"
    by (rule tracesD)
  show "run_trace env (lv_newMessages v) s r"
  proof (cases p)
    case (Continue v')
    with body p have "run_trace env (lv_newMessages v') t r" by (intro IH) simp
    then obtain fs where "st_trace (snd r) = st_trace t @ fs @ [AgentEnd (fst r)]" "run_events env fs"
      "fst r = lv_newMessages v' @ ended_messages fs" by (auto simp: run_trace_def)
    with es Continue show ?thesis
      unfolding run_trace_def by (auto simp: pass_events_def intro!: exI [of _ "es @ fs"])
  next
    case (Finish ms)
    with body p es show ?thesis by (auto simp: run_trace_def pass_events_def)
  qed
qed

lemma runLoop_trace:
  assumes "runLoop env cx newMessages config s = Some r"
  shows "run_trace env newMessages s r"
proof -
  obtain pending t where poll: "run_state (poll (lc_getSteeringMessages config)) s = (pending, t)" by (metis surj_pair)
  have "traces (poll (lc_getSteeringMessages config)) (\<lambda>x es. es = [])" by (rule traces_poll) simp
  then have "st_trace t = st_trace s" using poll by (rule tracesD) simp
  moreover from assms poll have "run_trace env newMessages t r"
    by (auto simp: runLoop_def dest: run_passes_trace)
  ultimately show ?thesis by (simp add: run_trace_def)
qed

lemma runAgentLoop_trace:
  assumes "runAgentLoop env prompts cx config s = Some (messages, s')"
  shows "\<exists>es. st_trace s' = st_trace s @ AgentStart # TurnStart # es @ [AgentEnd messages] \<and> run_events env es \<and>
    ended_messages es = messages \<and> take (length prompts) messages = prompts"
proof -
  let ?start = "do { emit env AgentStart; emit env TurnStart; emit_messages env prompts }"
  obtain u t where start: "run_state ?start s = (u, t)" by (metis surj_pair)
  have "traces ?start (\<lambda>_ es. \<exists>fs. es = AgentStart # TurnStart # fs \<and> ended_messages fs = prompts \<and> run_events env fs)"
    by (auto intro!: traces_intros traces_conseq [OF traces_emit_messages])
  from tracesD [OF this start] obtain fs where fs: "st_trace t = st_trace s @ AgentStart # TurnStart # fs"
    "ended_messages fs = prompts" "run_events env fs" by blast
  from assms start have "runLoop env (cx\<lparr> cx_messages := cx_messages cx @ prompts \<rparr>) prompts config t = Some (messages, s')"
    by (simp add: runAgentLoop_def)
  from runLoop_trace [OF this] obtain es where "st_trace s' = st_trace t @ es @ [AgentEnd messages]"
    "run_events env es" "messages = prompts @ ended_messages es" by (auto simp: run_trace_def)
  with fs show ?thesis by (intro exI [of _ "fs @ es"]) auto
qed

section \<open>The context of the next request\<close>

text \<open>The contract of a provider stream: it has at most one \<^verbatim>\<open>start\<close> event.\<close>

inductive starts_once :: "bool \<Rightarrow> 'w response \<Rightarrow> bool" where
  "starts_once started (StreamDone final)"
| "starts_once started (StreamClosed final)"
| "(\<And>w. starts_once True (rest w)) \<Longrightarrow> starts_once False (StreamEvent (EvStart p) elapse rest)"
| "(\<And>w. starts_once started (rest w)) \<Longrightarrow> starts_once started (StreamEvent (EvPartial i k p) elapse rest)"

lemma set_last_snoc [simp]: "set_last (xs @ [x]) y = xs @ [y]"
  by (simp add: set_last_def)

lemma consume_context:
  assumes "starts_once added response"
    and "if added then \<exists>x. messages = base @ [x] else messages = base \<and> partial = None"
  shows "traces (consume_response response env messages partial added)
    (\<lambda>r es. snd r = base @ [AssistantMessage (fst r)])"
  using assms
proof (induction arbitrary: messages partial rule: starts_once.induct)
  case (3 rest p elapse)
  from 3(3) show ?case
    by (auto simp: on_stream_event_def intro!: traces_intros 3(2))
next
  case (4 started rest i k p elapse)
  from 4(2,3) show ?case
    by (cases started) (auto simp: on_stream_event_def intro!: traces_intros)
qed (auto simp: finish_response_def intro!: traces_intros split: if_splits)

definition stream_contract :: "'w loop_env \<Rightarrow> bool" where
  "stream_contract env \<longleftrightarrow> (\<forall>request w. starts_once False (fst (ev_streamFn env request w)))"

lemma stream_context:
  "traces (streamAssistantResponse env cx config) (\<lambda>r es. stream_contract env \<longrightarrow>
     snd r = cx\<lparr> cx_messages := cx_messages cx @ [AssistantMessage (fst r)] \<rparr>)"
proof (cases "stream_contract env")
  case True
  then have contract: "starts_once False (fst (ev_streamFn env request w))" for request w
    by (simp add: stream_contract_def)
  show ?thesis
    unfolding streamAssistantResponse_def
    by (auto intro!: traces_bind traces_option_call traces_call_world traces_return
        traces_conseq [OF consume_context [OF contract]] split: option.split)
next
  case False
  then show ?thesis by (auto intro: traces_conseq [OF traces_streamAssistantResponse])
qed

text \<open>What a pass keeps of the variables of the loop.\<close>

definition extends_vars :: "'w loop_vars \<Rightarrow> agent_message list \<Rightarrow> bool \<Rightarrow> 'w loop_vars \<Rightarrow> bool" where
  "extends_vars v added exact v' \<longleftrightarrow>
     lv_newMessages v' = lv_newMessages v @ added \<and>
     lc_prepareNextTurn (lv_config v') = lc_prepareNextTurn (lv_config v) \<and>
     lc_shouldStopAfterTurn (lv_config v') = lc_shouldStopAfterTurn (lv_config v) \<and>
     (exact \<and> lc_prepareNextTurn (lv_config v) = None \<longrightarrow>
        lv_context v' = (lv_context v)\<lparr> cx_messages := cx_messages (lv_context v) @ added \<rparr>)"

lemma extends_vars_mono: "extends_vars v added exact v' \<Longrightarrow> (exact' \<Longrightarrow> exact) \<Longrightarrow> extends_vars v added exact' v'"
  unfolding extends_vars_def by blast

lemma after_turn_vars:
  "traces (after_turn env m results cx (lv_config v) (lv_newMessages v @ added) hasMore) (\<lambda>p es. \<forall>v'. p = Continue v' \<longrightarrow>
     extends_vars v added (cx = (lv_context v)\<lparr> cx_messages := cx_messages (lv_context v) @ added \<rparr>) v')"
  unfolding after_turn_def end_run_def Let_def
  by (cases "lc_prepareNextTurn (lv_config v)")
    (auto simp: apply_turn_update_def extends_vars_def intro!: traces_bind traces_option_call traces_emit traces_poll
      traces_return traces_call_world split: option.split prod.split)

lemma run_tools_free: "(\<And>r es. Q r es) \<Longrightarrow> traces (run_tools env cx m config) Q"
  by (auto simp: run_tools_def intro!: traces_intros traces_conseq [OF traces_failToolCalls]
      traces_conseq [OF traces_executeToolCalls])

abbreviation grown :: "'w agent_context \<Rightarrow> agent_message list \<Rightarrow> 'w agent_context" where
  "grown cx added \<equiv> cx\<lparr> cx_messages := cx_messages cx @ added \<rparr>"

lemma complete_turn_vars:
  "traces (complete_turn env m cx (lv_config v) (lv_newMessages v @ added)) (\<lambda>p es. \<forall>v'. p = Continue v' \<longrightarrow>
     (\<exists>more. extends_vars v (added @ more) (cx = grown (lv_context v) added) v'))"
proof -
  have grown: "grown cx rs = grown (lv_context v) (added @ rs)" if "cx = grown (lv_context v) added" for rs
    by (subst (1 2) that) simp
  have step: "traces (after_turn env m results (grown cx rs) (lv_config v) ((lv_newMessages v @ added) @ rs) hasMore)
      (\<lambda>p es. \<forall>v'. p = Continue v' \<longrightarrow> (\<exists>more. extends_vars v (added @ more) (cx = grown (lv_context v) added) v'))"
    for results rs hasMore
  proof (rule traces_conseq)
    show "traces (after_turn env m results (grown cx rs) (lv_config v) ((lv_newMessages v @ added) @ rs) hasMore)
      (\<lambda>p es. \<forall>v'. p = Continue v' \<longrightarrow> extends_vars v (added @ rs) (grown cx rs = grown (lv_context v) (added @ rs)) v')"
      unfolding append_assoc by (rule after_turn_vars)
  qed (use extends_vars_mono [OF _ grown] in blast)
  show ?thesis
    unfolding complete_turn_def end_run_def
    by (auto intro!: traces_intros run_tools_free step [unfolded append_assoc] split: prod.split)
qed

lemma traces_turn_start: "(\<And>es. Q () es) \<Longrightarrow> traces (if first then State_Monad.return () else emit env e) Q"
  by (auto intro!: traces_intros)

lemma turn_vars:
  "traces (turn env v) (\<lambda>p es. \<forall>v'. p = Continue v' \<longrightarrow>
     (\<exists>added. added \<noteq> [] \<and> extends_vars v added (stream_contract env) v'))"
proof -
  have step: "traces (complete_turn env m cx (lv_config v) (lv_newMessages v @ lv_pending v @ [AssistantMessage m]))
      (\<lambda>p es. \<forall>v'. p = Continue v' \<longrightarrow> (\<exists>added. added \<noteq> [] \<and> extends_vars v added (stream_contract env) v'))"
    if "stream_contract env \<Longrightarrow> cx = grown (lv_context v) (lv_pending v @ [AssistantMessage m])" for m cx
  proof (rule traces_conseq [OF complete_turn_vars], intro allI impI)
    fix p es v'
    assume "\<forall>v'. p = Continue v' \<longrightarrow> (\<exists>more. extends_vars v ((lv_pending v @ [AssistantMessage m]) @ more)
        (cx = grown (lv_context v) (lv_pending v @ [AssistantMessage m])) v')" "p = Continue v'"
    then obtain more where "extends_vars v ((lv_pending v @ [AssistantMessage m]) @ more)
        (cx = grown (lv_context v) (lv_pending v @ [AssistantMessage m])) v'" by blast
    then have "extends_vars v ((lv_pending v @ [AssistantMessage m]) @ more) (stream_contract env) v'"
      by (rule extends_vars_mono) (rule that)
    then show "\<exists>added. added \<noteq> [] \<and> extends_vars v added (stream_contract env) v'"
      by (intro exI conjI [rotated]) auto
  qed
  have tail: "traces (case r of (m, cx) \<Rightarrow> complete_turn env m cx (lv_config v)
        (lv_newMessages v @ lv_pending v @ [AssistantMessage m]))
      (\<lambda>p es. \<forall>v'. p = Continue v' \<longrightarrow> (\<exists>added. added \<noteq> [] \<and> extends_vars v added (stream_contract env) v'))"
    if "stream_contract env \<longrightarrow> snd r = grown (grown (lv_context v) (lv_pending v)) [AssistantMessage (fst r)]" for r
    unfolding prod.case_eq_if by (rule step) (use that in simp)
  show ?thesis
    unfolding turn_def
    by (intro traces_bind traces_turn_start traces_conseq [OF stream_context] traces_conseq [OF traces_emit_messages] tail)
qed

text \<open>The passes of a run as a step relation on the variables and the state.\<close>

inductive pass_reachable ::
  "'w loop_env \<Rightarrow> 'w loop_vars \<Rightarrow> 'w loop_st \<Rightarrow> 'w loop_vars \<Rightarrow> 'w loop_st \<Rightarrow> bool"
  for env :: "'w loop_env" and v0 s0 where
  pass_start: "pass_reachable env v0 s0 v0 s0"
| pass_step: "pass_reachable env v0 s0 v s \<Longrightarrow> run_state (loop_step env v) s = (Continue v', s') \<Longrightarrow>
    pass_reachable env v0 s0 v' s'"

lemma loop_step_vars:
  assumes "run_state (loop_step env v) s = (Continue v', s')"
  shows "(\<exists>added. (lv_hasMore v \<or> lv_pending v \<noteq> [] \<longrightarrow> added \<noteq> []) \<and>
      extends_vars v added (stream_contract env) v') \<and>
    (\<not> (lv_hasMore v \<or> lv_pending v \<noteq> []) \<longrightarrow> lv_hasMore v' \<and> lv_newMessages v' = lv_newMessages v)"
proof (cases "lv_hasMore v \<or> lv_pending v \<noteq> []")
  case True
  with assms have "run_state (turn env v) s = (Continue v', s')" by (simp add: loop_step_def)
  with turn_vars obtain added where "added \<noteq> []" "extends_vars v added (stream_contract env) v'"
    by (rule tracesD) blast
  with True show ?thesis by blast
next
  case False
  with assms have "v' = v\<lparr> lv_pending := lv_pending v', lv_hasMore := True \<rparr>"
    by (auto simp: loop_step_def end_run_def split: prod.splits if_splits)
  then have "extends_vars v [] (stream_contract env) v'" "lv_hasMore v'" "lv_newMessages v' = lv_newMessages v"
    by (auto simp: extends_vars_def dest: arg_cong [where f = lv_hasMore] arg_cong [where f = lv_newMessages]
      arg_cong [where f = lv_config] arg_cong [where f = lv_context])
  with False show ?thesis by blast
qed

lemma reachable_context:
  assumes "pass_reachable env v0 s0 v s" and "stream_contract env"
    and "lc_prepareNextTurn (lv_config v0) = None"
  shows "\<exists>added. lv_newMessages v = lv_newMessages v0 @ added \<and> lv_context v = grown (lv_context v0) added \<and>
    lc_prepareNextTurn (lv_config v) = None"
  using assms
proof induction
  case pass_start
  then show ?case by (intro exI [of _ "[]"]) simp
next
  case (pass_step v s v' s')
  then obtain added where added: "lv_newMessages v = lv_newMessages v0 @ added"
    "lv_context v = grown (lv_context v0) added" "lc_prepareNextTurn (lv_config v) = None" by blast
  from loop_step_vars [OF pass_step(2)] obtain more where "extends_vars v more (stream_contract env) v'" by blast
  with added pass_step.prems show ?case
    by (intro exI [of _ "added @ more"]) (simp add: extends_vars_def)
qed

section \<open>Runs that end\<close>

text \<open>
  When \<^verbatim>\<open>shouldStopAfterTurn\<close> stops a run that has produced a given number of messages, the run
  ends: every turn adds at least one message, and a poll for follow-ups is followed by a turn.
\<close>

lemma budget_after_turn:
  assumes "lc_shouldStopAfterTurn config = Some f" and "\<And>c w. N \<le> length (tx_newMessages c) \<Longrightarrow> fst (f c w)"
  shows "traces (after_turn env m results cx config messages hasMore)
    (\<lambda>p es. \<forall>v. p = Continue v \<longrightarrow> length (lv_newMessages v) < N)"
proof -
  have config: "lc_shouldStopAfterTurn (snd (apply_turn_update u cx config)) = Some f" for u
    using assms(1) by (simp add: apply_turn_update_def split: option.split)
  have stop: "\<not> fst (f c w) \<Longrightarrow> length (tx_newMessages c) < N" for c w
    using assms(2) [of c w] by (meson not_le)
  show ?thesis
    unfolding after_turn_def end_run_def Let_def
    by (auto simp: config prod.case_eq_if intro!: traces_bind traces_option_call traces_call_world traces_emit traces_poll
        traces_return dest!: stop)
qed

lemma budget_turn:
  assumes "lc_shouldStopAfterTurn (lv_config v) = Some f"
    and "\<And>c w. N \<le> length (tx_newMessages c) \<Longrightarrow> fst (f c w)"
  shows "traces (turn env v) (\<lambda>p es. \<forall>v'. p = Continue v' \<longrightarrow> length (lv_newMessages v') < N)"
proof -
  note after = traces_conseq [OF budget_after_turn [where f = f and N = N]]
  have "traces (complete_turn env m cx (lv_config v) messages)
      (\<lambda>p es. \<forall>v'. p = Continue v' \<longrightarrow> length (lv_newMessages v') < N)" for m cx messages
    unfolding complete_turn_def end_run_def using assms
    by (auto intro!: traces_intros run_tools_free after split: prod.split)
  then show ?thesis
    unfolding turn_def
    by (intro traces_bind traces_turn_start traces_conseq [OF traces_streamAssistantResponse]
        traces_conseq [OF traces_emit_messages]) (auto split: prod.split)
qed

lemma run_passes_budget:
  assumes "lc_shouldStopAfterTurn (lv_config v) = Some f"
    and "\<And>c w. N \<le> length (tx_newMessages c) \<Longrightarrow> fst (f c w)"
  shows "\<exists>r. run_passes env v s = Some r"
proof -
  let ?m = "\<lambda>v. 2 * (N - length (lv_newMessages v)) + (if lv_hasMore v \<or> lv_pending v \<noteq> [] then 0 else 1)"
  have "\<exists>r. run_passes env v s = Some r" if "lc_shouldStopAfterTurn (lv_config v) = Some f" for v s
    using that
  proof (induction "?m v" arbitrary: v s rule: less_induct)
    case less
    obtain p t where p: "run_state (loop_step env v) s = (p, t)" by (metis surj_pair)
    show ?case
    proof (cases p)
      case (Finish ms)
      with p show ?thesis by (subst run_passes.simps) simp
    next
      case (Continue v')
      with p have step: "run_state (loop_step env v) s = (Continue v', t)" by simp
      from loop_step_vars [OF step] obtain added where ext: "extends_vars v added (stream_contract env) v'"
        "lv_hasMore v \<or> lv_pending v \<noteq> [] \<longrightarrow> added \<noteq> []"
        "\<not> (lv_hasMore v \<or> lv_pending v \<noteq> []) \<longrightarrow> lv_hasMore v' \<and> lv_newMessages v' = lv_newMessages v" by blast
      have "?m v' < ?m v"
      proof (cases "lv_hasMore v \<or> lv_pending v \<noteq> []")
        case True
        with step have "run_state (turn env v) s = (Continue v', t)" by (simp add: loop_step_def)
        with budget_turn [OF less.prems assms(2)] have "length (lv_newMessages v') < N" by (rule tracesD) auto
        moreover have "length (lv_newMessages v) < length (lv_newMessages v')"
          using ext(1,2) True by (simp add: extends_vars_def)
        ultimately show ?thesis by auto
      next
        case False
        with ext(3) show ?thesis by auto
      qed
      moreover have "lc_shouldStopAfterTurn (lv_config v') = Some f"
        using ext(1) less.prems by (simp add: extends_vars_def)
      ultimately have "\<exists>r. run_passes env v' t = Some r" by (rule less.hyps)
      with step show ?thesis by (subst run_passes.simps) simp
    qed
  qed
  with assms(1) show ?thesis by blast
qed

section \<open>Correctness of a run\<close>

lemma runAgentLoop_budget:
  assumes "lc_shouldStopAfterTurn config = Some f"
    and "\<And>c w. N \<le> length (tx_newMessages c) \<Longrightarrow> fst (f c w)"
  shows "\<exists>messages s'. runAgentLoop env prompts cx config s = Some (messages, s')"
proof -
  have "\<exists>r. runLoop env cx' prompts config t = Some r" for cx' t
    unfolding runLoop_def prod.case_eq_if
    by (rule run_passes_budget [where f = f and N = N]) (use assms in simp_all)
  then show ?thesis by (auto simp: runAgentLoop_def split: prod.split)
qed

definition sample_prompt :: agent_message where
  "sample_prompt = user_text ''hi'' 0"

definition sample_vars :: "nat loop_vars" where
  "sample_vars = \<lparr> lv_context = sample_context\<lparr> cx_messages := [sample_prompt] \<rparr>, lv_config = sample_config,
     lv_newMessages = [sample_prompt], lv_firstTurn = True, lv_pending = [], lv_hasMore = True \<rparr>"

lemma sample_run_returns:
  "\<exists>messages s'. runAgentLoop sample_env prompts sample_context sample_config sample_loop_start = Some (messages, s')"
  by (rule runAgentLoop_budget [where N = sample_limit]) (simp add: sample_config_def, simp)

lemma sample_contract: "stream_contract sample_env"
  by (auto simp: stream_contract_def sample_env_def intro!: starts_once.intros)

text \<open>C3. A run that returns has emitted \<^verbatim>\<open>agent_start\<close> first and \<^verbatim>\<open>agent_end\<close> last, each once; the
  messages it returns, and reports with \<^verbatim>\<open>agent_end\<close>, are exactly the messages finished on the
  way, in that order, and begin with the prompts; every tool execution started has ended; and
  every turn answers its tool calls.\<close>

theorem agent_run_trace:
  assumes "runAgentLoop env prompts cx config s = Some (messages, s')"
  shows "\<exists>es. st_trace s' = st_trace s @ AgentStart # es @ [AgentEnd messages] \<and>
    list_all (\<lambda>e. \<not> run_boundary e) es \<and> ended_messages es = messages \<and>
    take (length prompts) messages = prompts \<and>
    mset (started_tools es) = mset (ended_tools es) \<and> list_all (turn_answered env) es"
proof -
  from runAgentLoop_trace [OF assms] obtain es where
    "st_trace s' = st_trace s @ AgentStart # TurnStart # es @ [AgentEnd messages]" "run_events env es"
    "ended_messages es = messages" "take (length prompts) messages = prompts" by blast
  then show ?thesis by (intro exI [of _ "TurnStart # es"]) (auto simp: run_events_def)
qed

theorem agent_run_trace_witness:
  "\<exists>messages s' es. runAgentLoop sample_env [sample_prompt] sample_context sample_config sample_loop_start
       = Some (messages, s') \<and>
     st_trace s' = AgentStart # es @ [AgentEnd messages] \<and> ended_messages es = messages \<and>
     take 1 messages = [sample_prompt] \<and> list_all (turn_answered sample_env) es"
proof -
  obtain messages s' where run: "runAgentLoop sample_env [sample_prompt] sample_context sample_config sample_loop_start
      = Some (messages, s')" using sample_run_returns by blast
  have "st_trace sample_loop_start = []" by (simp add: sample_loop_start_def)
  with agent_run_trace [OF run] run show ?thesis by auto
qed

text \<open>C25. Let every tool call settle and every response stream end (both are inductive datatypes) and let the
  hooks return. Then a run whose \<^verbatim>\<open>shouldStopAfterTurn\<close> hook stops it once it has produced a given number of
  messages returns: no answers of the model, results of tools or queued messages keep its two loops going for ever.\<close>

theorem agent_run_returns:
  assumes "lc_shouldStopAfterTurn config = Some f"
    and "\<And>c w. N \<le> length (tx_newMessages c) \<Longrightarrow> fst (f c w)"
  shows "\<exists>messages s'. runAgentLoop env prompts cx config s = Some (messages, s')"
  by (rule runAgentLoop_budget [OF assms])

theorem agent_run_returns_witness:
  "\<exists>messages s'. runAgentLoop sample_env [] sample_context sample_config sample_loop_start = Some (messages, s')"
  by (rule agent_run_returns [where N = sample_limit]) (simp add: sample_config_def, simp)

text \<open>C24. At every pass of a run whose stream function sends at most one \<^verbatim>\<open>start\<close> event per response
  and that has no \<^verbatim>\<open>prepareNextTurn\<close> hook, the context of the next request is the initial context
  followed by exactly the messages the run has added; prompt and tools are unchanged.\<close>

theorem context_follows_messages:
  assumes "pass_reachable env v0 s0 v s" and "stream_contract env"
    and "lc_prepareNextTurn (lv_config v0) = None"
  shows "\<exists>added. lv_newMessages v = lv_newMessages v0 @ added \<and>
    lv_context v = (lv_context v0)\<lparr> cx_messages := cx_messages (lv_context v0) @ added \<rparr>"
  using reachable_context [OF assms] by blast

theorem context_follows_messages_witness:
  "\<exists>v s added. pass_reachable sample_env sample_vars \<lparr> st_world = 1, st_trace = [] \<rparr> v s \<and>
     lv_newMessages v = sample_prompt # added \<and> length added = 1 \<and>
     lv_context v = sample_context\<lparr> cx_messages := sample_prompt # added \<rparr>"
proof -
  let ?s = "\<lparr> st_world = 1, st_trace = [] \<rparr>"
  let ?r = "run_state (loop_step sample_env sample_vars) ?s"
  have "\<exists>v s. ?r = (Continue v, s) \<and> length (lv_newMessages v) = 2"
    by (simp add: loop_step_def turn_def complete_turn_def after_turn_def streamAssistantResponse_def run_tools_def
        finish_response_def poll_def apply_turn_update_def sample_vars_def sample_env_def sample_config_def
        sample_limit_def sample_assistant_def message_tool_calls_def map_filter_def Let_def)
  then obtain v s where step: "?r = (Continue v, s)" and two: "length (lv_newMessages v) = 2" by blast
  from step have reach: "pass_reachable sample_env sample_vars ?s v s"
    by (rule pass_step [OF pass_start])
  have "lc_prepareNextTurn (lv_config sample_vars) = None" by (simp add: sample_vars_def sample_config_def)
  from context_follows_messages [OF reach sample_contract this] obtain added where
    "lv_newMessages v = sample_prompt # added" "lv_context v = sample_context\<lparr> cx_messages := sample_prompt # added \<rparr>"
    by (auto simp: sample_vars_def)
  with reach two show ?thesis by (intro exI conjI) auto
qed

end
