(* ===== verification/Loop_Invariants.thy ===== *)
theory Loop_Invariants
  imports Agent_Loop
begin

text \<open>
  Invariants of a run that relate the world and the events emitted so far. The callbacks, the
  tools, the provider stream and the sink are required to keep the invariant; the loop then keeps
  it, because it touches the world through them only.
\<close>

section \<open>Surroundings that keep an invariant\<close>

definition world_keeps :: "('w loop_st \<Rightarrow> bool) \<Rightarrow> ('w \<Rightarrow> 'w) \<Rightarrow> bool" where
  "world_keeps I g \<longleftrightarrow> (\<forall>s. I s \<longrightarrow> I (s\<lparr> st_world := g (st_world s) \<rparr>))"

abbreviation call_keeps :: "('w loop_st \<Rightarrow> bool) \<Rightarrow> ('w \<Rightarrow> 'a \<times> 'w) \<Rightarrow> bool" where
  "call_keeps I f \<equiv> world_keeps I (\<lambda>w. snd (f w))"

inductive run_keeps :: "('w loop_st \<Rightarrow> bool) \<Rightarrow> 'w tool_run \<Rightarrow> bool" for I :: "'w loop_st \<Rightarrow> bool" where
  "run_keeps I (Settled r)"
| "run_keeps I rest \<Longrightarrow> run_keeps I (Update p rest)"
| "world_keeps I work \<Longrightarrow> (\<And>w. run_keeps I (rest w)) \<Longrightarrow> run_keeps I (Progress work rest)"

inductive_simps run_keeps_simps [simp]:
  "run_keeps I (Settled r)" "run_keeps I (Update p rest)" "run_keeps I (Progress work rest)"

inductive response_keeps :: "('w loop_st \<Rightarrow> bool) \<Rightarrow> 'w response \<Rightarrow> bool" for I :: "'w loop_st \<Rightarrow> bool" where
  "response_keeps I (StreamDone m)"
| "response_keeps I (StreamClosed m)"
| "world_keeps I elapse \<Longrightarrow> (\<And>w. response_keeps I (rest w)) \<Longrightarrow> response_keeps I (StreamEvent e elapse rest)"

inductive_simps response_keeps_simps [simp]:
  "response_keeps I (StreamEvent e elapse rest)"

definition tool_keeps :: "('w loop_st \<Rightarrow> bool) \<Rightarrow> 'w agent_tool \<Rightarrow> bool" where
  "tool_keeps I tool \<longleftrightarrow> (\<forall>i args. run_keeps I (at_execute tool i args))"

definition context_keeps :: "('w loop_st \<Rightarrow> bool) \<Rightarrow> 'w agent_context \<Rightarrow> bool" where
  "context_keeps I cx \<longleftrightarrow> (\<forall>tools. cx_tools cx = Some tools \<longrightarrow> list_all (tool_keeps I) tools)"

definition env_keeps :: "('w loop_st \<Rightarrow> bool) \<Rightarrow> 'w loop_env \<Rightarrow> bool" where
  "env_keeps I env \<longleftrightarrow>
     (\<forall>s event. I s \<longrightarrow> I (s\<lparr> st_world := ev_emit env event (st_world s), st_trace := st_trace s @ [event] \<rparr>)) \<and>
     (\<forall>request. call_keeps I (ev_streamFn env request)) \<and>
     (\<forall>request w. response_keeps I (fst (ev_streamFn env request w)))"

definition config_keeps :: "('w loop_st \<Rightarrow> bool) \<Rightarrow> 'w loop_config \<Rightarrow> bool" where
  "config_keeps I config \<longleftrightarrow>
     (\<forall>ms. call_keeps I (lc_convertToLlm config ms)) \<and>
     (\<forall>f ms. lc_transformContext config = Some f \<longrightarrow> call_keeps I (f ms)) \<and>
     (\<forall>f p. lc_getApiKey config = Some f \<longrightarrow> call_keeps I (f p)) \<and>
     (\<forall>f c. lc_shouldStopAfterTurn config = Some f \<longrightarrow> call_keeps I (f c)) \<and>
     (\<forall>f c. lc_prepareNextTurn config = Some f \<longrightarrow> call_keeps I (f c) \<and>
        (\<forall>w u cx. fst (f c w) = Some u \<longrightarrow> tu_context u = Some cx \<longrightarrow> context_keeps I cx)) \<and>
     (\<forall>f. lc_getSteeringMessages config = Some f \<longrightarrow> call_keeps I f) \<and>
     (\<forall>f. lc_getFollowUpMessages config = Some f \<longrightarrow> call_keeps I f) \<and>
     (\<forall>f am tc args cx. lc_beforeToolCall config = Some f \<longrightarrow> call_keeps I (f am tc args cx)) \<and>
     (\<forall>f am tc args r b cx. lc_afterToolCall config = Some f \<longrightarrow> call_keeps I (f am tc args r b cx))"

section \<open>Computations that keep it\<close>

definition maintains :: "('w loop_st \<Rightarrow> bool) \<Rightarrow> ('w, 'a) loop \<Rightarrow> ('a \<Rightarrow> bool) \<Rightarrow> bool" where
  "maintains I m Q \<longleftrightarrow> (\<forall>s x s'. run_state m s = (x, s') \<longrightarrow> I s \<longrightarrow> I s' \<and> Q x)"

lemma maintainsD: "maintains I m Q \<Longrightarrow> run_state m s = (x, s') \<Longrightarrow> I s \<Longrightarrow> I s' \<and> Q x"
  by (simp add: maintains_def)

lemma maintains_conseq: "maintains I m P \<Longrightarrow> (\<And>x. P x \<Longrightarrow> Q x) \<Longrightarrow> maintains I m Q"
  unfolding maintains_def by blast

lemma maintains_return: "Q x \<Longrightarrow> maintains I (State_Monad.return x) Q"
  by (simp add: maintains_def)

lemma maintains_bind: "maintains I m (\<lambda>x. maintains I (f x) Q) \<Longrightarrow> maintains I (State_Monad.bind m f) Q"
  unfolding maintains_def by (auto split: prod.splits)

lemma maintains_call_world: "call_keeps I f \<Longrightarrow> (\<And>w. Q (fst (f w))) \<Longrightarrow> maintains I (call_world f) Q"
  by (auto simp: maintains_def world_keeps_def)

lemma maintains_with_world: "(\<And>w. maintains I (f w) Q) \<Longrightarrow> maintains I (with_world f) Q"
  by (auto simp: maintains_def)

lemma maintains_ask_world: "(\<And>w. Q (f w)) \<Longrightarrow> maintains I (ask_world f) Q"
  by (simp add: maintains_def)

lemma maintains_emit: "env_keeps I env \<Longrightarrow> Q () \<Longrightarrow> maintains I (emit env event) Q"
  by (simp add: maintains_def env_keeps_def)

lemma maintains_option_call:
  "(\<And>f. callback = Some f \<Longrightarrow> call_keeps I (f c)) \<Longrightarrow> (\<And>x. Q x) \<Longrightarrow>
   maintains I (case callback of None \<Rightarrow> State_Monad.return d | Some f \<Rightarrow> call_world (f c)) Q"
  by (auto split: option.split intro!: maintains_return maintains_call_world)

lemma maintains_poll:
  "(\<And>f. callback = Some f \<Longrightarrow> call_keeps I f) \<Longrightarrow> (\<And>x. Q x) \<Longrightarrow> maintains I (poll callback) Q"
  by (auto simp: poll_def split: option.split intro!: maintains_return maintains_call_world)

lemmas maintains_intros = maintains_bind maintains_return maintains_with_world maintains_ask_world maintains_emit

section \<open>The tools\<close>

lemma maintains_consume:
  assumes "env_keeps I env" and "response_keeps I response"
  shows "maintains I (consume_response response env messages partial added) (\<lambda>_. True)"
  using assms(2)
proof (induction arbitrary: messages partial added rule: response_keeps.induct)
  case (3 elapse rest e)
  have "maintains I (call_world (\<lambda>w. ((), elapse w))) (\<lambda>_. True)"
    using 3(1) by (intro maintains_call_world) simp_all
  then show ?case
    using assms(1)
    by (auto simp: on_stream_event_def split: assistant_event.split prod.split
        intro!: maintains_intros 3(3) intro: maintains_conseq)
qed (use assms(1) in \<open>auto simp: finish_response_def intro!: maintains_intros\<close>)

lemma maintains_work:
  "world_keeps I work \<Longrightarrow> Q () \<Longrightarrow> maintains I (call_world (\<lambda>w. ((), work w))) Q"
  by (intro maintains_call_world) simp_all

lemma maintains_run_tool:
  assumes "env_keeps I env" and "run_keeps I run"
  shows "maintains I (run_tool run env prepared) (\<lambda>_. True)"
  using assms(2)
  by (induction rule: run_keeps.induct)
    (auto simp: emit_update_def intro!: maintains_intros maintains_work assms(1))

lemma maintains_stream:
  assumes "env_keeps I env" and "config_keeps I config"
  shows "maintains I (streamAssistantResponse env cx config) (\<lambda>r. cx_tools (snd r) = cx_tools cx)"
proof -
  have "maintains I (call_world (ev_streamFn env request)) (\<lambda>response. response_keeps I response)" for request
    using assms(1) by (intro maintains_call_world) (simp_all add: env_keeps_def)
  note response = maintains_conseq [OF this]
  show ?thesis
    unfolding streamAssistantResponse_def
    by (intro maintains_bind maintains_option_call maintains_call_world response
        maintains_conseq [OF maintains_consume [OF assms(1)]])
      (use assms(2) in \<open>auto simp: config_keeps_def intro!: maintains_return split: option.split\<close>)
qed

lemma find_tool_keeps: "context_keeps I cx \<Longrightarrow> find_tool cx name = Some tool \<Longrightarrow> tool_keeps I tool"
  by (auto simp: context_keeps_def find_tool_def list_all_iff find_Some_iff split: option.splits)

lemma maintains_prepareToolCall:
  assumes "config_keeps I config" and "context_keeps I cx"
  shows "maintains I (prepareToolCall env cx am call config)
    (\<lambda>p. \<forall>q. p = Prepared q \<longrightarrow> run_keeps I (start_execution q))"
proof -
  have hook: "\<And>f args. lc_beforeToolCall config = Some f \<Longrightarrow> call_keeps I (f am call args cx)"
    using assms(1) by (simp add: config_keeps_def)
  have abort: "maintains I (prepare_or_abort env \<lparr> pt_toolCall = call, pt_tool = tool, pt_args = args \<rparr>)
      (\<lambda>p. \<forall>q. p = Prepared q \<longrightarrow> run_keeps I (start_execution q))"
    if "find_tool cx (tc_name call) = Some tool" for tool args
    using find_tool_keeps [OF assms(2) that]
    by (auto simp: prepare_or_abort_def tool_keeps_def start_execution_def intro!: maintains_intros split: if_splits)
  show ?thesis
    unfolding prepareToolCall_def Let_def
    by (auto split: option.split sum.split intro!: maintains_intros maintains_call_world abort dest: hook)
qed

lemma maintains_finalize:
  assumes "config_keeps I config"
  shows "maintains I (finalizeExecutedToolCall cx am prepared executed config) (\<lambda>_. True)"
  using assms unfolding finalizeExecutedToolCall_def
  by (auto simp: config_keeps_def split: option.split prod.split intro!: maintains_intros maintains_call_world)

lemma maintains_run_call:
  assumes "env_keeps I env" "config_keeps I config" "context_keeps I cx"
  shows "maintains I (run_call env cx am call config) (\<lambda>_. True)"
  unfolding run_call_def executePreparedToolCall_def
  by (intro maintains_bind maintains_conseq [OF maintains_prepareToolCall [OF assms(2,3)]])
    (auto split: preparation.split intro!: maintains_intros maintains_conseq [OF maintains_run_tool [OF assms(1)]]
      maintains_finalize assms)

lemma maintains_reports:
  assumes "env_keeps I env"
  shows "Q () \<Longrightarrow> maintains I (emitToolExecutionEnd env f) Q"
    and "Q () \<Longrightarrow> maintains I (emitToolResultMessage env m) Q"
    and "Q () \<Longrightarrow> maintains I (emit_start env c) Q"
  using assms
  by (auto simp: emitToolExecutionEnd_def emitToolResultMessage_def emit_start_def intro!: maintains_intros)

lemma maintains_sequential:
  assumes "env_keeps I env" "config_keeps I config" "context_keeps I cx"
  shows "maintains I (sequential_calls env cx am config calls) (\<lambda>_. True)"
proof (induction calls)
  case (Cons call calls)
  show ?case
    unfolding sequential_calls.simps Let_def
    by (intro maintains_bind maintains_reports [OF assms(1)] maintains_conseq [OF maintains_run_call [OF assms]]
        maintains_ask_world) (auto intro!: maintains_return maintains_conseq [OF Cons] split: prod.split)
qed (simp add: maintains_return)

lemma maintains_failToolCalls:
  assumes "env_keeps I env"
  shows "maintains I (failToolCallsFromTruncatedMessage env calls) (\<lambda>_. True)"
proof (induction calls)
  case (Cons call calls)
  show ?case
    unfolding failToolCallsFromTruncatedMessage.simps Let_def
    by (intro maintains_bind maintains_reports [OF assms] maintains_ask_world maintains_conseq [OF Cons])
      (auto intro!: maintains_return)
qed (simp add: maintains_return)

fun job_keeps :: "('w loop_st \<Rightarrow> bool) \<Rightarrow> 'w job \<Rightarrow> bool" where
  "job_keeps I (JobRunning p r) = run_keeps I r"
| "job_keeps I _ = True"

lemma maintains_job_step:
  assumes "env_keeps I env" "config_keeps I config" "job_keeps I job"
  shows "maintains I (job_step env cx am config job) (\<lambda>job'. job_keeps I job')"
proof (cases job)
  case (JobRunning p r)
  with assms show ?thesis
    by (cases r) (auto simp: job_step_def emit_update_def intro!: maintains_intros maintains_work)
next
  case (JobExecuted p x)
  with assms show ?thesis
    by (auto simp: job_step_def intro!: maintains_bind maintains_return maintains_conseq [OF maintains_finalize])
next
  case (JobFinal f)
  with assms show ?thesis by (auto simp: job_step_def intro!: maintains_bind maintains_return maintains_reports)
qed (simp add: job_step_def maintains_return)

lemma run_jobs_keeps:
  assumes "env_keeps I env" "config_keeps I config"
  shows "list_all (job_keeps I) jobs \<Longrightarrow> I s \<Longrightarrow> I (snd (run_jobs env cx am config jobs s))"
  using assms
proof (induction env cx am config jobs s rule: run_jobs.induct)
  case (1 env cx am config jobs s)
  show ?case
  proof (cases "unfinished jobs = []")
    case True
    with 1 show ?thesis by (simp add: run_jobs.simps)
  next
    case False
    let ?i = "next_job env jobs (st_world s)"
    let ?r = "run_state (job_step env cx am config (jobs ! ?i)) s"
    have i: "?i < length jobs" by (rule next_job_unfinished [OF False])
    with 1(2) have "job_keeps I (jobs ! ?i)" by (simp add: list_all_length)
    from maintains_job_step [OF 1(4,5) this] have r: "I (snd ?r)" "job_keeps I (fst ?r)"
      using 1(3) unfolding maintains_def by (metis prod.collapse)+
    with 1(2) i have "list_all (job_keeps I) (jobs[?i := fst ?r])"
      by (auto simp: list_all_iff dest!: subsetD [OF set_update_subset_insert])
    with 1(1) [OF False refl refl] 1(4,5) r False show ?thesis
      by (simp add: run_jobs.simps [of _ _ _ _ jobs] Let_def)
  qed
qed

lemma maintains_parallel_prepare:
  assumes "env_keeps I env" "config_keeps I config" "context_keeps I cx"
  shows "maintains I (parallel_prepare env cx am config calls) (\<lambda>jobs. list_all (job_keeps I) jobs)"
proof (induction calls)
  case (Cons call calls)
  have job: "maintains I (case p of
        Immediate result isError \<Rightarrow> do {
          let finalized = \<lparr> fz_toolCall = call, fz_result = result, fz_isError = isError \<rparr>;
          emitToolExecutionEnd env finalized;
          State_Monad.return (JobDone finalized)
        }
      | Prepared prepared \<Rightarrow> State_Monad.return (JobRunning prepared (start_execution prepared)))
      (\<lambda>job. job_keeps I job)"
    if "\<forall>q. p = Prepared q \<longrightarrow> run_keeps I (start_execution q)" for p
    using that by (auto simp: Let_def split: preparation.split intro!: maintains_bind maintains_return maintains_reports [OF assms(1)])
  show ?case
    unfolding parallel_prepare.simps
    by (intro maintains_bind maintains_reports [OF assms(1)] maintains_conseq [OF maintains_prepareToolCall [OF assms(2,3)]]
        maintains_conseq [OF job] maintains_ask_world)
      (auto intro!: maintains_return maintains_conseq [OF Cons])
qed (simp add: maintains_return)

lemma maintains_executeToolCalls:
  assumes "env_keeps I env" "config_keeps I config" "context_keeps I cx"
  shows "maintains I (executeToolCalls env cx am config) (\<lambda>_. True)"
proof -
  have jobs: "maintains I (State (run_jobs env cx am config jobs)) (\<lambda>_. True)" if "list_all (job_keeps I) jobs" for jobs
    using run_jobs_keeps [OF assms(1,2) that] by (auto simp: maintains_def) (metis snd_conv)
  have results: "maintains I (emit_results env fs) (\<lambda>_. True)" for fs
  proof (induction fs)
    case (Cons f fs)
    show ?case
      unfolding emit_results.simps Let_def
      by (intro maintains_bind maintains_ask_world maintains_reports [OF assms(1)] maintains_conseq [OF Cons])
        (simp add: maintains_return)
  qed (simp add: maintains_return)
  have "maintains I (executeToolCallsParallel env cx am config calls) (\<lambda>_. True)" for calls
    unfolding executeToolCallsParallel_def Let_def
    by (intro maintains_bind maintains_conseq [OF maintains_parallel_prepare [OF assms]] maintains_conseq [OF jobs]
        maintains_conseq [OF results]) (auto intro: maintains_return)
  moreover have "maintains I (executeToolCallsSequential env cx am config calls) (\<lambda>_. True)" for calls
    unfolding executeToolCallsSequential_def
    by (intro maintains_bind maintains_conseq [OF maintains_sequential [OF assms]]) (auto intro: maintains_return)
  ultimately show ?thesis by (simp add: executeToolCalls_def Let_def)
qed

section \<open>The loop\<close>

lemma maintains_run_tools:
  assumes "env_keeps I env" "config_keeps I config" "context_keeps I cx"
  shows "maintains I (run_tools env cx m config) (\<lambda>_. True)"
proof -
  have "maintains I (if am_stopReason m = Length then failToolCallsFromTruncatedMessage env (message_tool_calls m)
      else executeToolCalls env cx m config) (\<lambda>_. True)"
    by (simp add: maintains_failToolCalls [OF assms(1)] maintains_executeToolCalls [OF assms])
  note run = maintains_conseq [OF this]
  show ?thesis
    unfolding run_tools_def
    by (cases "message_tool_calls m = []")
      (simp add: maintains_return, simp only: if_False, intro maintains_bind run, auto intro: maintains_return)
qed

lemma maintains_emit_messages: "env_keeps I env \<Longrightarrow> maintains I (emit_messages env messages) (\<lambda>_. True)"
  by (induction messages) (auto intro!: maintains_intros)

definition vars_keep :: "('w loop_st \<Rightarrow> bool) \<Rightarrow> 'w loop_vars \<Rightarrow> bool" where
  "vars_keep I v \<longleftrightarrow> context_keeps I (lv_context v) \<and> config_keeps I (lv_config v)"

abbreviation pass_keeps :: "('w loop_st \<Rightarrow> bool) \<Rightarrow> 'w pass \<Rightarrow> bool" where
  "pass_keeps I p \<equiv> (\<forall>v. p = Continue v \<longrightarrow> vars_keep I v)"

lemma maintains_end_run: "env_keeps I env \<Longrightarrow> maintains I (end_run env messages) (pass_keeps I)"
  by (auto simp: end_run_def intro!: maintains_intros)

lemma update_keeps:
  assumes "config_keeps I config" "context_keeps I cx"
    and "\<And>c. u = Some c \<Longrightarrow> (\<forall>cx. tu_context c = Some cx \<longrightarrow> context_keeps I cx)"
  shows "config_keeps I (snd (apply_turn_update u cx config))" "context_keeps I (fst (apply_turn_update u cx config))"
  using assms by (auto simp: apply_turn_update_def config_keeps_def split: option.split)

lemma maintains_after_turn:
  assumes "env_keeps I env" "config_keeps I config" "context_keeps I cx"
  shows "maintains I (after_turn env m results cx config messages hasMore) (pass_keeps I)"
proof -
  have prepare: "maintains I (case lc_prepareNextTurn config of None \<Rightarrow> State_Monad.return None | Some f \<Rightarrow> call_world (f c))
      (\<lambda>u. config_keeps I (snd (apply_turn_update u cx config)) \<and> context_keeps I (fst (apply_turn_update u cx config)))" for c
  proof (cases "lc_prepareNextTurn config")
    case None
    with assms show ?thesis by (simp add: maintains_return apply_turn_update_def)
  next
    case (Some f)
    with assms(2) have "call_keeps I (f c)"
      "\<And>w u cx. fst (f c w) = Some u \<Longrightarrow> tu_context u = Some cx \<Longrightarrow> context_keeps I cx"
      unfolding config_keeps_def by blast+
    with Some show ?thesis
      by (auto intro!: maintains_call_world update_keeps [OF assms(2,3)])
  qed
  have stop: "maintains I (case lc_shouldStopAfterTurn config' of None \<Rightarrow> State_Monad.return False | Some f \<Rightarrow> call_world (f c))
      (\<lambda>_. True)" if "config_keeps I config'" for config' c
    using that by (intro maintains_option_call) (simp_all add: config_keeps_def)
  have steer: "maintains I (poll (lc_getSteeringMessages config')) (\<lambda>_. True)" if "config_keeps I config'" for config'
    using that by (intro maintains_poll) (simp_all add: config_keeps_def)
  show ?thesis
    unfolding after_turn_def Let_def prod.case_eq_if
    by (intro maintains_bind maintains_conseq [OF prepare] maintains_conseq [OF stop])
      (auto intro!: maintains_conseq [OF maintains_end_run [OF assms(1)]] maintains_bind maintains_return
        maintains_conseq [OF steer] simp: vars_keep_def)
qed

lemma maintains_turn:
  assumes "env_keeps I env" "vars_keep I v"
  shows "maintains I (turn env v) (pass_keeps I)"
proof -
  note config = assms(2) [unfolded vars_keep_def, THEN conjunct2] and cx = assms(2) [unfolded vars_keep_def, THEN conjunct1]
  have grown: "context_keeps I (c\<lparr> cx_messages := ms \<rparr>) \<longleftrightarrow> context_keeps I c" for c :: "'a agent_context" and ms
    by (simp add: context_keeps_def)
  have complete: "maintains I (complete_turn env m c (lv_config v) messages) (pass_keeps I)"
    if "context_keeps I c" for m c messages
    unfolding complete_turn_def
    by (auto intro!: maintains_bind maintains_emit [OF assms(1)] maintains_end_run [OF assms(1)]
        maintains_conseq [OF maintains_run_tools [OF assms(1) config that]]
        maintains_after_turn [OF assms(1) config] simp: grown that split: prod.split)
  have tools: "context_keeps I c" if "cx_tools c = cx_tools (lv_context v)" for c
    using that cx by (simp add: context_keeps_def)
  have start: "maintains I (if lv_firstTurn v then State_Monad.return () else emit env TurnStart) (\<lambda>_. True)"
    using assms(1) by (auto intro!: maintains_intros)
  show ?thesis
    unfolding turn_def
    by (intro maintains_bind maintains_conseq [OF start] maintains_conseq [OF maintains_emit_messages [OF assms(1)]]
        maintains_conseq [OF maintains_stream [OF assms(1) config]])
      (auto split: prod.split intro!: complete tools)
qed

lemma maintains_loop_step:
  assumes "env_keeps I env" "vars_keep I v"
  shows "maintains I (loop_step env v) (pass_keeps I)"
proof (cases "lv_hasMore v \<or> lv_pending v \<noteq> []")
  case True
  then show ?thesis by (simp add: loop_step_def maintains_turn [OF assms])
next
  case False
  have "maintains I (poll (lc_getFollowUpMessages (lv_config v))) (\<lambda>_. True)"
    using assms(2) by (intro maintains_poll) (simp_all add: vars_keep_def config_keeps_def)
  note follow = maintains_conseq [OF this]
  have "loop_step env v = do {
      followUps \<leftarrow> poll (lc_getFollowUpMessages (lv_config v));
      if followUps \<noteq> [] then State_Monad.return (Continue (v\<lparr> lv_pending := followUps, lv_hasMore := True \<rparr>))
      else end_run env (lv_newMessages v) }"
    using False by (simp add: loop_step_def)
  moreover have "maintains I \<dots> (pass_keeps I)"
  proof (intro maintains_bind follow)
    fix followUps
    have "vars_keep I (v\<lparr> lv_pending := followUps, lv_hasMore := True \<rparr>)" using assms(2) by (simp add: vars_keep_def)
    then show "maintains I (if followUps \<noteq> []
        then State_Monad.return (Continue (v\<lparr> lv_pending := followUps, lv_hasMore := True \<rparr>))
        else end_run env (lv_newMessages v)) (pass_keeps I)"
      by (auto intro!: maintains_return maintains_end_run assms(1))
  qed
  ultimately show ?thesis by simp
qed

lemma run_passes_keeps:
  assumes "run_passes env v s = Some r" "env_keeps I env" "vars_keep I v" "I s"
  shows "I (snd r)"
proof -
  have "env_keeps I env \<longrightarrow> vars_keep I v \<longrightarrow> I s \<longrightarrow> I (snd r)"
  proof (rule run_passes.raw_induct [where P = "\<lambda>env v s r. env_keeps I env \<longrightarrow> vars_keep I v \<longrightarrow> I s \<longrightarrow> I (snd r)",
        OF _ assms(1)], intro impI)
    fix loop and env :: "'a loop_env" and v s r
    assume IH: "\<And>env v s r. loop env v s = Some r \<Longrightarrow> env_keeps I env \<longrightarrow> vars_keep I v \<longrightarrow> I s \<longrightarrow> I (snd r)"
      and body: "(case run_state (loop_step env v) s of (Continue v', s') \<Rightarrow> loop env v' s'
        | (Finish newMessages, s') \<Rightarrow> Some (newMessages, s')) = Some r"
      and keeps: "env_keeps I env" "vars_keep I v" "I s"
    obtain p t where p: "run_state (loop_step env v) s = (p, t)" by (metis surj_pair)
    from maintainsD [OF maintains_loop_step [OF keeps(1,2)] p keeps(3)] have t: "I t" "pass_keeps I p" by auto
    show "I (snd r)"
      using body p t keeps IH by (cases p) auto
  qed
  with assms show ?thesis by blast
qed

lemma runAgentLoop_keeps:
  assumes "runAgentLoop env prompts cx config s = Some r" "env_keeps I env" "context_keeps I cx" "config_keeps I config" "I s"
  shows "I (snd r)"
proof -
  let ?start = "do { emit env AgentStart; emit env TurnStart; emit_messages env prompts }"
  have "maintains I ?start (\<lambda>_. True)"
    by (intro maintains_intros maintains_emit_messages assms(2))
  then have "I (snd (run_state ?start s))"
    using assms(5) by (metis maintainsD prod.collapse)
  moreover have "maintains I (poll (lc_getSteeringMessages config)) (\<lambda>_. True)"
    using assms(4) by (intro maintains_poll) (simp_all add: config_keeps_def)
  ultimately have "I (snd (run_state (poll (lc_getSteeringMessages config)) (snd (run_state ?start s))))"
    by (metis maintainsD prod.collapse)
  with run_passes_keeps [OF assms(1) [unfolded runAgentLoop_def runLoop_def prod.case_eq_if] assms(2)] show ?thesis
    using assms(3,4) by (simp add: vars_keep_def context_keeps_def)
qed

end
