(* ===== verification/Agent.thy ===== *)
theory Agent
  imports Loop_Invariants
begin

text \<open>
  \<^verbatim>\<open>packages/agent/src/agent.ts\<close>: the stateful wrapper around the loop. It owns the transcript and
  two queues of messages, starts runs, reduces their events into its state and hands them to its
  listeners. The part of the object that a run changes is the record \<open>agent\<close>, with a component
  \<open>'x\<close> for everything outside; the hooks, tools and listeners, which may change it, are the
  record \<open>agent_setup\<close>. \<open>activeRun\<close> is the abort flag of the run in progress, if there is one.
\<close>

section \<open>Queues\<close>

datatype queue_mode = DrainAll | OneAtATime

record message_queue =
  pq_messages :: "agent_message list"
  pq_mode :: queue_mode

definition new_queue :: "queue_mode \<Rightarrow> message_queue" where
  "new_queue mode = \<lparr> pq_messages = [], pq_mode = mode \<rparr>"

definition enqueue :: "agent_message \<Rightarrow> message_queue \<Rightarrow> message_queue" where
  "enqueue message q = q\<lparr> pq_messages := pq_messages q @ [message] \<rparr>"

definition hasItems :: "message_queue \<Rightarrow> bool" where
  "hasItems q \<longleftrightarrow> pq_messages q \<noteq> []"

definition drain :: "message_queue \<Rightarrow> agent_message list \<times> message_queue" where
  "drain q =
     (if pq_mode q = DrainAll then (pq_messages q, q\<lparr> pq_messages := [] \<rparr>)
      else case pq_messages q of
             [] \<Rightarrow> ([], q)
           | first # rest \<Rightarrow> ([first], q\<lparr> pq_messages := rest \<rparr>))"

definition clear_queue :: "message_queue \<Rightarrow> message_queue" where
  "clear_queue q = q\<lparr> pq_messages := [] \<rparr>"

section \<open>State\<close>

record 'x agent =
  ag_messages :: "agent_message list"
  ag_isStreaming :: bool
  ag_streamingMessage :: "agent_message option"
  ag_pendingToolCalls :: "id list"
  ag_errorMessage :: "string option"
  ag_steeringQueue :: message_queue
  ag_followUpQueue :: message_queue
  ag_activeRun :: "bool option"
  ag_skipSteering :: bool  \<comment> \<open>\<^verbatim>\<open>skipInitialSteeringPoll\<close> of the current run\<close>
  ag_outside :: 'x

record 'x agent_setup =
  as_systemPrompt :: string
  as_model :: model
  as_thinkingLevel :: string
  as_tools :: "'x agent agent_tool list"
  as_listeners :: "(agent_event \<Rightarrow> 'x agent \<Rightarrow> 'x agent) list"
  as_toolExecution :: tool_execution_mode
  as_convertToLlm :: "agent_message list \<Rightarrow> 'x agent \<Rightarrow> agent_message list \<times> 'x agent"
  as_transformContext :: "(agent_message list \<Rightarrow> 'x agent \<Rightarrow> agent_message list \<times> 'x agent) option"
  as_getApiKey :: "(string \<Rightarrow> 'x agent \<Rightarrow> string option \<times> 'x agent) option"
  as_shouldStopAfterTurn :: "('x agent turn_context \<Rightarrow> 'x agent \<Rightarrow> bool \<times> 'x agent) option"
  as_prepareNextTurn :: "('x agent \<Rightarrow> 'x agent turn_update option \<times> 'x agent) option"
  as_prepareNextTurnWithContext ::
    "('x agent turn_context \<Rightarrow> 'x agent \<Rightarrow> 'x agent turn_update option \<times> 'x agent) option"
  as_beforeToolCall :: "(assistant_message \<Rightarrow> tool_call \<Rightarrow> json \<Rightarrow> 'x agent agent_context \<Rightarrow> 'x agent
    \<Rightarrow> (string + before_result option) \<times> 'x agent) option"
  as_afterToolCall :: "(assistant_message \<Rightarrow> tool_call \<Rightarrow> json \<Rightarrow> agent_tool_result \<Rightarrow> bool
    \<Rightarrow> 'x agent agent_context \<Rightarrow> 'x agent \<Rightarrow> (string + after_result option) \<times> 'x agent) option"
  as_streamFn :: "'x agent llm_request \<Rightarrow> 'x agent \<Rightarrow> 'x agent response \<times> 'x agent"
  as_now :: "'x agent \<Rightarrow> int"
  as_validate :: "'x agent agent_tool \<Rightarrow> tool_call \<Rightarrow> string + json"
  as_pick :: "'x agent \<Rightarrow> nat \<Rightarrow> nat"

datatype agent_error =
    AlreadyProcessing | NoMessagesToContinue | CannotContinueFromAssistant | OutsideActiveRun

definition createMutableAgentState ::
  "agent_message list \<Rightarrow> queue_mode option \<Rightarrow> queue_mode option \<Rightarrow> 'x \<Rightarrow> 'x agent" where
  "createMutableAgentState messages steeringMode followUpMode outside =
     \<lparr> ag_messages = messages, ag_isStreaming = False, ag_streamingMessage = None, ag_pendingToolCalls = [],
       ag_errorMessage = None,
       ag_steeringQueue = new_queue (case steeringMode of None \<Rightarrow> OneAtATime | Some m \<Rightarrow> m),
       ag_followUpQueue = new_queue (case followUpMode of None \<Rightarrow> OneAtATime | Some m \<Rightarrow> m),
       ag_activeRun = None, ag_skipSteering = False, ag_outside = outside \<rparr>"

definition steer :: "agent_message \<Rightarrow> 'x agent \<Rightarrow> 'x agent" where
  "steer message a = a\<lparr> ag_steeringQueue := enqueue message (ag_steeringQueue a) \<rparr>"

definition followUp :: "agent_message \<Rightarrow> 'x agent \<Rightarrow> 'x agent" where
  "followUp message a = a\<lparr> ag_followUpQueue := enqueue message (ag_followUpQueue a) \<rparr>"

definition clearSteeringQueue :: "'x agent \<Rightarrow> 'x agent" where
  "clearSteeringQueue a = a\<lparr> ag_steeringQueue := clear_queue (ag_steeringQueue a) \<rparr>"

definition clearFollowUpQueue :: "'x agent \<Rightarrow> 'x agent" where
  "clearFollowUpQueue a = a\<lparr> ag_followUpQueue := clear_queue (ag_followUpQueue a) \<rparr>"

definition clearAllQueues :: "'x agent \<Rightarrow> 'x agent" where
  "clearAllQueues a = clearFollowUpQueue (clearSteeringQueue a)"

definition hasQueuedMessages :: "'x agent \<Rightarrow> bool" where
  "hasQueuedMessages a \<longleftrightarrow> hasItems (ag_steeringQueue a) \<or> hasItems (ag_followUpQueue a)"

definition set_steeringMode :: "queue_mode \<Rightarrow> 'x agent \<Rightarrow> 'x agent" where
  "set_steeringMode mode a = a\<lparr> ag_steeringQueue := (ag_steeringQueue a)\<lparr> pq_mode := mode \<rparr> \<rparr>"

definition set_followUpMode :: "queue_mode \<Rightarrow> 'x agent \<Rightarrow> 'x agent" where
  "set_followUpMode mode a = a\<lparr> ag_followUpQueue := (ag_followUpQueue a)\<lparr> pq_mode := mode \<rparr> \<rparr>"

definition defaultConvertToLlm :: "agent_message list \<Rightarrow> agent_message list" where
  "defaultConvertToLlm messages =
     filter (\<lambda>m. message_role m \<in> {RoleUser, RoleAssistant, RoleToolResult}) messages"

definition abort :: "'x agent \<Rightarrow> 'x agent" where
  "abort a = a\<lparr> ag_activeRun := map_option (\<lambda>_. True) (ag_activeRun a) \<rparr>"

definition reset :: "'x agent \<Rightarrow> agent_error + 'x agent" where
  "reset a =
     (if ag_activeRun a \<noteq> None then Inl AlreadyProcessing
      else Inr (clearSteeringQueue (clearFollowUpQueue
        (a\<lparr> ag_messages := [], ag_isStreaming := False, ag_streamingMessage := None, ag_pendingToolCalls := [],
            ag_errorMessage := None \<rparr>))))"

section \<open>Events\<close>

definition insert_id :: "id \<Rightarrow> id list \<Rightarrow> id list" where
  "insert_id i ids = (if i \<in> set ids then ids else ids @ [i])"

definition reduce_event :: "agent_event \<Rightarrow> 'x agent \<Rightarrow> 'x agent" where
  "reduce_event event a =
     (case event of
        MessageStart m \<Rightarrow> a\<lparr> ag_streamingMessage := Some m \<rparr>
      | MessageUpdate m _ \<Rightarrow> a\<lparr> ag_streamingMessage := Some m \<rparr>
      | MessageEnd m \<Rightarrow> a\<lparr> ag_streamingMessage := None, ag_messages := ag_messages a @ [m] \<rparr>
      | ToolExecutionStart i _ _ \<Rightarrow> a\<lparr> ag_pendingToolCalls := insert_id i (ag_pendingToolCalls a) \<rparr>
      | ToolExecutionEnd i _ _ _ \<Rightarrow> a\<lparr> ag_pendingToolCalls := filter (\<lambda>j. j \<noteq> i) (ag_pendingToolCalls a) \<rparr>
      | TurnEnd (AssistantMessage m) _ \<Rightarrow>
          (case am_errorMessage m of
             None \<Rightarrow> a
           | Some e \<Rightarrow> if e = [] then a else a\<lparr> ag_errorMessage := Some e \<rparr>)
      | AgentEnd _ \<Rightarrow> a\<lparr> ag_streamingMessage := None \<rparr>
      | _ \<Rightarrow> a)"

definition processEvents :: "'x agent_setup \<Rightarrow> agent_event \<Rightarrow> 'x agent \<Rightarrow> agent_error + 'x agent" where
  "processEvents setup event a =
     (let a' = reduce_event event a
      in if ag_activeRun a' = None then Inl OutsideActiveRun
         else Inr (foldl (\<lambda>b listener. listener event b) a' (as_listeners setup)))"

text \<open>The sink of a run. The run is active all along, so the error case does not arise.\<close>

definition agent_sink :: "'x agent_setup \<Rightarrow> agent_event \<Rightarrow> 'x agent \<Rightarrow> 'x agent" where
  "agent_sink setup event a = (case processEvents setup event a of Inl _ \<Rightarrow> a | Inr b \<Rightarrow> b)"

section \<open>Runs\<close>

definition createContextSnapshot :: "'x agent_setup \<Rightarrow> 'x agent \<Rightarrow> 'x agent agent_context" where
  "createContextSnapshot setup a =
     \<lparr> cx_systemPrompt = as_systemPrompt setup, cx_messages = ag_messages a, cx_tools = Some (as_tools setup) \<rparr>"

definition poll_steering :: "'x agent \<Rightarrow> agent_message list \<times> 'x agent" where
  "poll_steering a =
     (if ag_skipSteering a then ([], a\<lparr> ag_skipSteering := False \<rparr>)
      else case drain (ag_steeringQueue a) of (ms, q) \<Rightarrow> (ms, a\<lparr> ag_steeringQueue := q \<rparr>))"

definition poll_followUps :: "'x agent \<Rightarrow> agent_message list \<times> 'x agent" where
  "poll_followUps a = (case drain (ag_followUpQueue a) of (ms, q) \<Rightarrow> (ms, a\<lparr> ag_followUpQueue := q \<rparr>))"

definition createLoopConfig :: "'x agent_setup \<Rightarrow> 'x agent loop_config" where
  "createLoopConfig setup =
     \<lparr> lc_model = as_model setup,
       lc_reasoning = (if as_thinkingLevel setup = ''off'' then None else Some (as_thinkingLevel setup)),
       lc_apiKey = None, lc_toolExecution = Some (as_toolExecution setup),
       lc_convertToLlm = as_convertToLlm setup, lc_transformContext = as_transformContext setup,
       lc_getApiKey = as_getApiKey setup, lc_shouldStopAfterTurn = as_shouldStopAfterTurn setup,
       lc_prepareNextTurn = (case as_prepareNextTurnWithContext setup of
          Some f \<Rightarrow> Some f
        | None \<Rightarrow> map_option (\<lambda>f _. f) (as_prepareNextTurn setup)),
       lc_getSteeringMessages = Some poll_steering, lc_getFollowUpMessages = Some poll_followUps,
       lc_beforeToolCall = as_beforeToolCall setup, lc_afterToolCall = as_afterToolCall setup \<rparr>"

definition agent_env :: "'x agent_setup \<Rightarrow> 'x agent loop_env" where
  "agent_env setup =
     \<lparr> ev_emit = agent_sink setup, ev_aborted = (\<lambda>a. ag_activeRun a = Some True), ev_streamFn = as_streamFn setup,
       ev_now = as_now setup, ev_validate = as_validate setup, ev_pick = as_pick setup \<rparr>"

definition EMPTY_USAGE :: usage where
  "EMPTY_USAGE = \<lparr> u_input = 0, u_output = 0, u_cacheRead = 0, u_cacheWrite = 0, u_cacheWrite1h = None,
     u_reasoning = None, u_totalTokens = 0,
     u_cost = \<lparr> cost_input = 0, cost_output = 0, cost_cacheRead = 0, cost_cacheWrite = 0, cost_total = 0 \<rparr> \<rparr>"

definition failure_message :: "'x agent_setup \<Rightarrow> string \<Rightarrow> bool \<Rightarrow> 'x agent \<Rightarrow> assistant_message" where
  "failure_message setup error aborted a =
     \<lparr> am_content = [TextContent [] None], am_api = md_api (as_model setup), am_provider = md_provider (as_model setup),
       am_model = md_id (as_model setup), am_responseModel = None, am_responseId = None, am_diagnostics = None,
       am_usage = EMPTY_USAGE, am_stopReason = (if aborted then Aborted else Error), am_deferred = None,
       am_errorMessage = Some error, am_rawStopReason = None, am_endTurn = None, am_timestamp = as_now setup a \<rparr>"

definition handleRunFailure :: "'x agent_setup \<Rightarrow> string \<Rightarrow> bool \<Rightarrow> 'x agent \<Rightarrow> agent_error + 'x agent" where
  "handleRunFailure setup error aborted a =
     (let m = AssistantMessage (failure_message setup error aborted a)
      in rbind (processEvents setup (MessageStart m) a) (\<lambda>a.
         rbind (processEvents setup (MessageEnd m) a) (\<lambda>a.
         rbind (processEvents setup (TurnEnd m []) a) (\<lambda>a.
         processEvents setup (AgentEnd [m]) a))))"

definition finishRun :: "'x agent \<Rightarrow> 'x agent" where
  "finishRun a = a\<lparr> ag_isStreaming := False, ag_streamingMessage := None, ag_pendingToolCalls := [],
     ag_activeRun := None \<rparr>"

text \<open>
  The executor of a run returns, throws an error (\<open>Inl\<close>), or never settles (\<open>None\<close>); the
  agent it leaves behind is the second component. The last result of \<open>runWithLifecycle\<close> says
  whether its promise is fulfilled.
\<close>

definition begin_run :: "'x agent \<Rightarrow> 'x agent" where
  "begin_run a = a\<lparr> ag_activeRun := Some False, ag_isStreaming := True, ag_streamingMessage := None,
     ag_errorMessage := None \<rparr>"

definition runWithLifecycle ::
  "'x agent_setup \<Rightarrow> ('x agent \<Rightarrow> ((string + unit) \<times> 'x agent) option) \<Rightarrow> 'x agent
     \<Rightarrow> agent_error + ((agent_error + unit) \<times> 'x agent) option" where
  "runWithLifecycle setup executor a =
     (if ag_activeRun a \<noteq> None then Inl AlreadyProcessing
      else Inr (case executor (begin_run a) of
          None \<Rightarrow> None
        | Some (Inr _, b) \<Rightarrow> Some (Inr (), finishRun b)
        | Some (Inl error, b) \<Rightarrow>
            (case handleRunFailure setup error (ag_activeRun b = Some True) b of
               Inl e \<Rightarrow> Some (Inl e, finishRun b)
             | Inr c \<Rightarrow> Some (Inr (), finishRun c))))"

text \<open>
  The executor of a prompt runs the loop on a snapshot of the transcript. The hooks and listeners of a setup
  are functions that return, so its loop does not throw and \<open>handleRunFailure\<close> is only reached from
  \<open>runContinuation\<close>; what it does with an error is proved for every executor (\<open>run_failure_recorded\<close>).
\<close>

definition prompt_loop ::
  "'x agent_setup \<Rightarrow> agent_message list \<Rightarrow> bool \<Rightarrow> 'x agent
     \<Rightarrow> (agent_message list \<times> 'x agent loop_st) option" where
  "prompt_loop setup messages skipInitialSteeringPoll b =
     runAgentLoop (agent_env setup) messages (createContextSnapshot setup b) (createLoopConfig setup)
       \<lparr> st_world = b\<lparr> ag_skipSteering := skipInitialSteeringPoll \<rparr>, st_trace = [] \<rparr>"

definition runPromptMessages ::
  "'x agent_setup \<Rightarrow> agent_message list \<Rightarrow> bool \<Rightarrow> 'x agent
     \<Rightarrow> agent_error + ((agent_error + unit) \<times> 'x agent) option" where
  "runPromptMessages setup messages skipInitialSteeringPoll a =
     runWithLifecycle setup (\<lambda>b.
       map_option (\<lambda>(_, s). (Inr (), st_world s)) (prompt_loop setup messages skipInitialSteeringPoll b)) a"

fun continue_error_text :: "continue_error \<Rightarrow> string" where
  "continue_error_text NoMessagesInContext = ''Cannot continue: no messages in context''"
| "continue_error_text LastMessageAssistant = ''Cannot continue from message role: assistant''"

definition runContinuation ::
  "'x agent_setup \<Rightarrow> 'x agent \<Rightarrow> agent_error + ((agent_error + unit) \<times> 'x agent) option" where
  "runContinuation setup a =
     runWithLifecycle setup (\<lambda>b.
       case runAgentLoopContinue (agent_env setup) (createContextSnapshot setup b) (createLoopConfig setup)
            \<lparr> st_world = b\<lparr> ag_skipSteering := False \<rparr>, st_trace = [] \<rparr> of
         Inl e \<Rightarrow> Some (Inl (continue_error_text e), b)
       | Inr r \<Rightarrow> map_option (\<lambda>(_, s). (Inr (), st_world s)) r) a"

datatype prompt_input = PromptText string "content_block list" | PromptMessages "agent_message list"

definition normalizePromptInput :: "'x agent_setup \<Rightarrow> prompt_input \<Rightarrow> 'x agent \<Rightarrow> agent_message list" where
  "normalizePromptInput setup input a =
     (case input of
        PromptMessages ms \<Rightarrow> ms
      | PromptText text images \<Rightarrow>
          [UserMessage \<lparr> um_content = BlockContent (TextContent text None # images), um_timestamp = as_now setup a \<rparr>])"

definition prompt ::
  "'x agent_setup \<Rightarrow> prompt_input \<Rightarrow> 'x agent \<Rightarrow> agent_error + ((agent_error + unit) \<times> 'x agent) option" where
  "prompt setup input a =
     (if ag_activeRun a \<noteq> None then Inl AlreadyProcessing
      else runPromptMessages setup (normalizePromptInput setup input a) False a)"

definition continue_agent ::
  "'x agent_setup \<Rightarrow> 'x agent \<Rightarrow> 'x agent \<times> (agent_error + ((agent_error + unit) \<times> 'x agent) option)" where
  "continue_agent setup a =
     (if ag_activeRun a \<noteq> None then (a, Inl AlreadyProcessing)
      else if ag_messages a = [] then (a, Inl NoMessagesToContinue)
      else if message_role (last (ag_messages a)) = RoleAssistant then
        (case drain (ag_steeringQueue a) of (steering, q) \<Rightarrow>
           let b = a\<lparr> ag_steeringQueue := q \<rparr>
           in if steering \<noteq> [] then (b, runPromptMessages setup steering True b)
              else case drain (ag_followUpQueue b) of (followUps, q') \<Rightarrow>
                let c = b\<lparr> ag_followUpQueue := q' \<rparr>
                in if followUps \<noteq> [] then (c, runPromptMessages setup followUps False c)
                   else (c, Inl CannotContinueFromAssistant))
      else (a, runContinuation setup a))"

section \<open>The transcript of a run\<close>

text \<open>
  A run keeps the transcript equal to the one at its start followed by the messages finished so
  far, as long as the hooks, tools, listeners and the stream function leave the transcript and
  the active run alone (they may queue messages and abort the run).
\<close>

definition transcript_inv :: "agent_message list \<Rightarrow> 'x agent loop_st \<Rightarrow> bool" where
  "transcript_inv start s \<longleftrightarrow> ag_messages (st_world s) = start @ ended_messages (st_trace s) \<and>
     ag_activeRun (st_world s) \<noteq> None"

definition leaves_transcript :: "('x agent \<Rightarrow> 'x agent) \<Rightarrow> bool" where
  "leaves_transcript g \<longleftrightarrow>
     (\<forall>a. ag_messages (g a) = ag_messages a \<and> (ag_activeRun a \<noteq> None \<longrightarrow> ag_activeRun (g a) \<noteq> None))"

definition setup_safe :: "'x agent_setup \<Rightarrow> bool" where
  "setup_safe setup \<longleftrightarrow>
     list_all (\<lambda>listener. \<forall>event. leaves_transcript (listener event)) (as_listeners setup) \<and>
     (\<forall>request. leaves_transcript (\<lambda>a. snd (as_streamFn setup request a))) \<and>
     (\<forall>start. config_keeps (transcript_inv start) (createLoopConfig setup) \<and>
        list_all (tool_keeps (transcript_inv start)) (as_tools setup) \<and>
        (\<forall>request a. response_keeps (transcript_inv start) (fst (as_streamFn setup request a))))"

lemma leaves_transcript_keeps: "leaves_transcript g \<Longrightarrow> world_keeps (transcript_inv start) g"
  by (auto simp: leaves_transcript_def world_keeps_def transcript_inv_def)

lemma reduce_event_transcript [simp]:
  "ag_messages (reduce_event event a) = ag_messages a @ ended_messages [event]"
  "ag_activeRun (reduce_event event a) = ag_activeRun a"
  by (auto simp: reduce_event_def split: agent_event.split agent_message.split option.split)

lemma listeners_transcript:
  assumes "list_all (\<lambda>listener. \<forall>event. leaves_transcript (listener event)) ls" and "ag_activeRun a \<noteq> None"
  shows "ag_messages (foldl (\<lambda>b l. l event b) a ls) = ag_messages a \<and>
    ag_activeRun (foldl (\<lambda>b l. l event b) a ls) \<noteq> None"
  using assms by (induction ls arbitrary: a) (auto simp: leaves_transcript_def)

lemma processEvents_transcript:
  assumes "list_all (\<lambda>listener. \<forall>event. leaves_transcript (listener event)) (as_listeners setup)"
    and "ag_activeRun a \<noteq> None"
  obtains b where "processEvents setup event a = Inr b" "ag_messages b = ag_messages a @ ended_messages [event]"
    "ag_activeRun b \<noteq> None"
  using assms listeners_transcript [OF assms(1), of "reduce_event event a" event]
  by (auto simp: processEvents_def Let_def)

lemma agent_env_keeps:
  assumes "setup_safe setup"
  shows "env_keeps (transcript_inv start) (agent_env setup)"
proof -
  have "transcript_inv start (s\<lparr> st_world := agent_sink setup event (st_world s), st_trace := st_trace s @ [event] \<rparr>)"
    if inv: "transcript_inv start s" for s event
  proof -
    from assms inv obtain b where "processEvents setup event (st_world s) = Inr b"
      "ag_messages b = ag_messages (st_world s) @ ended_messages [event]" "ag_activeRun b \<noteq> None"
      using processEvents_transcript [of "setup" "st_world s" event] unfolding setup_safe_def transcript_inv_def by blast
    with inv show ?thesis by (simp add: agent_sink_def transcript_inv_def)
  qed
  moreover have "call_keeps (transcript_inv start) (as_streamFn setup request)"
    "response_keeps (transcript_inv start) (fst (as_streamFn setup request w))" for request w
    using assms by (auto simp: setup_safe_def intro: leaves_transcript_keeps)
  ultimately show ?thesis by (simp add: env_keeps_def agent_env_def)
qed

definition idle :: "'x agent \<Rightarrow> bool" where
  "idle a \<longleftrightarrow> \<not> ag_isStreaming a \<and> ag_streamingMessage a = None \<and> ag_pendingToolCalls a = [] \<and> ag_activeRun a = None"

lemma finishRun_idle [simp]: "idle (finishRun a)" "ag_messages (finishRun a) = ag_messages a"
  by (simp_all add: idle_def finishRun_def)

lemma runPromptMessages_transcript:
  assumes "runPromptMessages setup messages skip a = Inr (Some (r, b))" and "setup_safe setup"
  obtains result s where "prompt_loop setup messages skip (begin_run a) = Some (result, s)" "r = Inr ()" "idle b"
    "ag_messages b = ag_messages a @ result" "take (length messages) result = messages"
    "result = ended_messages (st_trace s)"
proof -
  let ?b = "begin_run a"
  let ?cx = "createContextSnapshot setup ?b" and ?config = "createLoopConfig setup"
  let ?s = "\<lparr> st_world = ?b\<lparr> ag_skipSteering := skip \<rparr>, st_trace = [] \<rparr>"
  from assms(1) obtain result s where loop: "prompt_loop setup messages skip ?b = Some (result, s)"
    and b: "r = Inr ()" "b = finishRun (st_world s)"
    by (auto simp: runPromptMessages_def runWithLifecycle_def split: if_splits option.splits sum.splits prod.splits)
  then have run: "runAgentLoop (agent_env setup) messages ?cx ?config ?s = Some (result, s)" by (simp add: prompt_loop_def)
  have start: "transcript_inv (ag_messages a) ?s" by (simp add: transcript_inv_def begin_run_def)
  have "context_keeps (transcript_inv (ag_messages a)) ?cx"
    "config_keeps (transcript_inv (ag_messages a)) ?config"
    using assms(2) by (simp_all add: setup_safe_def context_keeps_def createContextSnapshot_def)
  from runAgentLoop_keeps [OF run agent_env_keeps [OF assms(2)] this start]
  have "ag_messages (st_world s) = ag_messages a @ ended_messages (st_trace s)" by (simp add: transcript_inv_def)
  moreover from runAgentLoop_trace [OF run]
  have "ended_messages (st_trace s) = result" "take (length messages) result = messages" by auto
  ultimately show ?thesis using that loop b by simp
qed

lemma runPromptMessages_appends:
  assumes "runPromptMessages setup messages skip a = Inr (Some (r, b))" and "setup_safe setup"
  shows "r = Inr () \<and> idle b \<and> (\<exists>new. ag_messages b = ag_messages a @ messages @ new)"
proof -
  from assms obtain result where "r = Inr ()" "idle b" "ag_messages b = ag_messages a @ result"
    "take (length messages) result = messages" by (rule runPromptMessages_transcript)
  then show ?thesis by (metis append_take_drop_id)
qed

section \<open>A sample agent\<close>

definition sample_setup :: "unit agent_setup" where
  "sample_setup =
     \<lparr> as_systemPrompt = [], as_model = \<lparr> md_id = ''m'', md_api = ''a'', md_provider = ''p'' \<rparr>,
       as_thinkingLevel = ''off'', as_tools = [], as_listeners = [\<lambda>event. steer (user_text ''more'' 0)],
       as_toolExecution = ParallelMode, as_convertToLlm = (\<lambda>ms a. (defaultConvertToLlm ms, a)), as_transformContext = None, as_getApiKey = None,
       as_shouldStopAfterTurn = Some (\<lambda>c a. (True, a)), as_prepareNextTurn = None,
       as_prepareNextTurnWithContext = None, as_beforeToolCall = None, as_afterToolCall = None,
       as_streamFn = (\<lambda>_ a. (StreamDone (sample_assistant [] Stop), a)), as_now = (\<lambda>_. 0),
       as_validate = (\<lambda>_ c. Inr (tc_arguments c)), as_pick = (\<lambda>_ _. 0) \<rparr>"

definition sample_agent :: "unit agent" where
  "sample_agent = createMutableAgentState [] None None ()"

lemma poll_keeps:
  "call_keeps (transcript_inv start) poll_steering" "call_keeps (transcript_inv start) poll_followUps"
  by (auto simp: world_keeps_def transcript_inv_def poll_steering_def poll_followUps_def split: prod.split)

lemma sample_setup_safe: "setup_safe sample_setup"
proof -
  have "world_keeps I (\<lambda>a. a)" for I :: "unit agent loop_st \<Rightarrow> bool" by (simp add: world_keeps_def)
  then show ?thesis
    by (auto simp: setup_safe_def sample_setup_def leaves_transcript_def steer_def config_keeps_def createLoopConfig_def
        poll_keeps intro: response_keeps.intros)
qed

lemma sample_prompt_returns:
  "\<exists>r b. prompt sample_setup (PromptMessages ms) sample_agent = Inr (Some (r, b))"
proof -
  let ?b = "begin_run sample_agent"
  let ?s = "\<lparr> st_world = ?b\<lparr> ag_skipSteering := False \<rparr>, st_trace = [] \<rparr>"
  have "\<exists>messages s'. runAgentLoop (agent_env sample_setup) ms (createContextSnapshot sample_setup ?b)
      (createLoopConfig sample_setup) ?s = Some (messages, s')"
    by (rule runAgentLoop_budget [where N = 0]) (simp add: createLoopConfig_def sample_setup_def, simp)
  then obtain messages s' where "runAgentLoop (agent_env sample_setup) ms (createContextSnapshot sample_setup ?b)
      (createLoopConfig sample_setup) ?s = Some (messages, s')" by blast
  moreover have "ag_activeRun sample_agent = None" by (simp add: sample_agent_def createMutableAgentState_def)
  ultimately show ?thesis
    by (simp add: prompt_def normalizePromptInput_def runPromptMessages_def runWithLifecycle_def prompt_loop_def)
qed

section \<open>Correctness of the agent\<close>

text \<open>C22. When a prompt has been processed, the transcript is the old one followed by exactly the messages that
  the loop of the prompt returned, in their order: the prompt messages first, then the messages finished during the
  run, each once. The agent is idle again: no streaming message, no pending tool calls, no active run. The hooks,
  tools, listeners and the stream function of the setup do not throw and leave the transcript and the active run
  alone (they may queue messages and abort the run).\<close>

theorem agent_prompt_transcript:
  assumes "prompt setup input a = Inr (Some (r, b))" and "setup_safe setup"
  shows "\<exists>messages s. prompt_loop setup (normalizePromptInput setup input a) False (begin_run a) = Some (messages, s) \<and>
    ag_messages b = ag_messages a @ messages \<and> messages = ended_messages (st_trace s) \<and>
    take (length (normalizePromptInput setup input a)) messages = normalizePromptInput setup input a \<and>
    r = Inr () \<and> idle b"
proof -
  from assms(1) have "runPromptMessages setup (normalizePromptInput setup input a) False a = Inr (Some (r, b))"
    by (simp add: prompt_def split: if_splits)
  from runPromptMessages_transcript [OF this assms(2)] show ?thesis by blast
qed

theorem agent_prompt_transcript_witness:
  "\<exists>r b messages s. prompt sample_setup (PromptMessages [sample_prompt]) sample_agent = Inr (Some (r, b)) \<and>
     idle b \<and> prompt_loop sample_setup [sample_prompt] False (begin_run sample_agent) = Some (messages, s) \<and>
     ag_messages b = messages \<and> take 1 messages = [sample_prompt]"
proof -
  obtain r b where run: "prompt sample_setup (PromptMessages [sample_prompt]) sample_agent = Inr (Some (r, b))"
    using sample_prompt_returns by blast
  from agent_prompt_transcript [OF this sample_setup_safe] run show ?thesis
    by (auto simp: normalizePromptInput_def sample_agent_def createMutableAgentState_def)
qed

text \<open>A run that throws leaves one more message in the transcript, an assistant message with the
  error's text and the stop reason \<open>Aborted\<close> or \<open>Error\<close>, and the agent is idle again.\<close>

theorem run_failure_recorded:
  assumes "ag_activeRun a = None" and "executor (begin_run a) = Some (Inl e, b)" and "ag_activeRun b = Some aborted"
    and "setup_safe setup"
  shows "\<exists>c m. runWithLifecycle setup executor a = Inr (Some (Inr (), c)) \<and> idle c \<and>
    ag_messages c = ag_messages b @ [AssistantMessage m] \<and>
    am_stopReason m = (if aborted then Aborted else Error) \<and> am_errorMessage m = Some e"
proof -
  have safe: "list_all (\<lambda>listener. \<forall>event. leaves_transcript (listener event)) (as_listeners setup)"
    using assms(4) by (simp add: setup_safe_def)
  let ?m = "failure_message setup e aborted b"
  obtain b1 where 1: "processEvents setup (MessageStart (AssistantMessage ?m)) b = Inr b1"
    "ag_messages b1 = ag_messages b" "ag_activeRun b1 \<noteq> None"
    by (rule processEvents_transcript [OF safe, of b "MessageStart (AssistantMessage ?m)"]) (use assms(3) in simp_all)
  obtain b2 where 2: "processEvents setup (MessageEnd (AssistantMessage ?m)) b1 = Inr b2"
    "ag_messages b2 = ag_messages b @ [AssistantMessage ?m]" "ag_activeRun b2 \<noteq> None"
    by (rule processEvents_transcript [OF safe 1(3), of "MessageEnd (AssistantMessage ?m)"]) (use 1 in simp_all)
  obtain b3 where 3: "processEvents setup (TurnEnd (AssistantMessage ?m) []) b2 = Inr b3"
    "ag_messages b3 = ag_messages b2" "ag_activeRun b3 \<noteq> None"
    by (rule processEvents_transcript [OF safe 2(3), of "TurnEnd (AssistantMessage ?m) []"]) simp_all
  obtain c where 4: "processEvents setup (AgentEnd [AssistantMessage ?m]) b3 = Inr c" "ag_messages c = ag_messages b3"
    by (rule processEvents_transcript [OF safe 3(3), of "AgentEnd [AssistantMessage ?m]"]) simp_all
  have "handleRunFailure setup e aborted b = Inr c"
    by (simp add: handleRunFailure_def 1 2 3 4)
  with assms have "runWithLifecycle setup executor a = Inr (Some (Inr (), finishRun c))"
    by (simp add: runWithLifecycle_def)
  with 2 3 4 show ?thesis by (intro exI [of _ "finishRun c"] exI [of _ ?m]) (simp add: failure_message_def)
qed

theorem run_failure_recorded_witness:
  "\<exists>c m. runWithLifecycle sample_setup (\<lambda>b. Some (Inl ''boom'', abort b)) sample_agent = Inr (Some (Inr (), c)) \<and>
     idle c \<and> ag_messages c = [AssistantMessage m] \<and> am_stopReason m = Aborted \<and> am_errorMessage m = Some ''boom''"
proof -
  have "ag_activeRun sample_agent = None" "ag_activeRun (abort (begin_run sample_agent)) = Some True"
    "ag_messages (abort (begin_run sample_agent)) = []"
    by (simp_all add: sample_agent_def createMutableAgentState_def abort_def begin_run_def)
  with run_failure_recorded [of sample_agent "\<lambda>b. Some (Inl ''boom'', abort b)" "''boom''"
      "abort (begin_run sample_agent)" True sample_setup] sample_setup_safe
  show ?thesis by simp
qed

text \<open>Draining a queue hands out a prefix of it and keeps the rest in order: everything in the
  mode \<open>DrainAll\<close>, else at most one message, and at least one unless the queue is empty. So
  messages reach a run in the order they were queued, none lost and none twice.\<close>

lemma drain_fifo:
  "case drain q of (ms, q') \<Rightarrow>
     ms @ pq_messages q' = pq_messages q \<and> pq_mode q' = pq_mode q \<and>
     (hasItems q = (ms \<noteq> [])) \<and>
     (if pq_mode q = DrainAll then pq_messages q' = [] else length ms \<le> 1)"
  by (auto simp: drain_def hasItems_def split: list.split)

text \<open>Continuing an agent whose transcript ends with an assistant message starts a run with the
  queued messages: after it the transcript is the old one, the drained messages (steering before
  follow-ups) and the messages of the run.\<close>

lemma continue_delivers_queue:
  assumes "ag_messages a \<noteq> []" "message_role (last (ag_messages a)) = RoleAssistant"
    and "continue_agent setup a = (q, Inr (Some (r, b)))" and "setup_safe setup"
  shows "idle b \<and> (\<exists>new. ag_messages b = ag_messages a @
    (if hasItems (ag_steeringQueue a) then fst (drain (ag_steeringQueue a)) else fst (drain (ag_followUpQueue a))) @ new)"
proof -
  have items: "hasItems p \<longleftrightarrow> fst (drain p) \<noteq> []" for p
    by (auto simp: drain_def hasItems_def split: list.split)
  have messages: "ag_messages (a\<lparr> ag_steeringQueue := q1 \<rparr>) = ag_messages a"
    "ag_messages (a\<lparr> ag_steeringQueue := q1, ag_followUpQueue := q2 \<rparr>) = ag_messages a" for q1 q2
    by simp_all
  from assms(1-3) show ?thesis
    using runPromptMessages_appends [OF _ assms(4)]
    by (auto simp: continue_agent_def items Let_def split: if_splits prod.splits dest!: runPromptMessages_appends [OF _ assms(4)])
qed

end
