(* ===== verification/Spec2Isabelle.thy ===== *)
theory Spec2Isabelle
  imports
    Motto_Prelude
    Js_Values
    Js_Sums
    Js_Heap
    Session_Types
    Session_State
    Session_Invariant
    Session_Branch
    Session_Memory
    Session_Context
    Session_Client
    Session_Manager
    Session_Tree
    Session_Runs
    Transform_Messages
    Event_Stream
    Client
    Lane_Reducer
    Lane_Recovery
    Compaction
    Coding_Compaction
    Utf8
    Cbor_Writer
    Cbor_Encoder
    Cbor_Decoder
    Cbor_Roundtrip
    Framing
    Protocol_Codec
    Json_Text
    Jsonl_Codec
    Jsonl_Storage
    Jsonl_Repo
    Truncate
    Edit_Diff
    Edit_Correct
    File_Queue
    Json_Payload
    Server_Protocol
    Live_Sessions
    Agent_Tools
    Agent_Loop
    Loop_Invariants
    Agent
begin

text \<open>
  A verification library for the agent, its harness and the wire protocol of Motto
  (\<^verbatim>\<open>src/packages/agent/src\<close>, \<^verbatim>\<open>src/packages/protocol/src\<close>, \<^verbatim>\<open>src/packages/server/src\<close>, \<^verbatim>\<open>src/packages/client/src\<close>), and for the
  session manager of its command-line application (\<^verbatim>\<open>src/packages/coding-agent/src/core\<close>).

  \<^bold>\<open>The program.\<close> A session is a log of mutations: tree entries (messages, compactions, branch summaries,
  settings), lane records (operations, attempts, queues, usage), lane moves and facts. Every backend
  rebuilds the same state from its log; the session client validates payloads and queries and writes
  through a storage; a lane that was interrupted is recovered from its records; the context of a branch is
  what the model sees; the agent loop streams responses and runs tool calls; compaction replaces old history by a summary. Client and server exchange messages
  as length-prefixed CBOR frames. Tool output is truncated to line and byte limits before it enters a
  message.

  \<^bold>\<open>The theories.\<close>
  \<^item> \<open>Motto_Prelude\<close>: results of code that may throw (\<open>Inl\<close> an error, \<open>Inr\<close> a value), ordered
    dictionaries, collecting loops. \<open>Js_Values\<close>, \<open>Js_Heap\<close>: JavaScript numbers (integers and binary64
    patterns), strings of UTF-16 units, JSON, and values with object identity in a heap. \<open>Js_Sums\<close>: sums of numbers,
    rounded to binary64.
  \<^item> \<open>Session_Types\<close> (\<^verbatim>\<open>session/types.ts\<close>, \<^verbatim>\<open>ai/src/types.ts\<close>, \<^verbatim>\<open>messages.ts\<close>), \<open>Session_State\<close>
    (\<^verbatim>\<open>session/state.ts\<close>): the data, \<open>applyMutation\<close> with the guards of the code, the queries, the walk
    to the root, forks. \<open>Session_Invariant\<close> states the invariant of the state and shows that every mutation keeps
    it (locale \<open>fallible_machine\<close>, interpreted as \<open>session\<close>); \<open>Session_Branch\<close> shows that branch queries meet their
    specification and that forks can always be replayed.
  \<^item> \<open>Session_Memory\<close> (\<^verbatim>\<open>session/memory.ts\<close>): the in-memory storage and repository. The contract of
    \<^verbatim>\<open>SessionStorage\<close> is the locale \<open>session_storage\<close>, interpreted as \<open>memory\<close>; the storage as a step relation
    with its reachable states.
  \<^item> \<open>Json_Text\<close>: \<^verbatim>\<open>JSON.stringify\<close> and \<^verbatim>\<open>JSON.parse\<close>, with the round trip and the fact that no proper beginning of the
    text of an object is JSON. \<open>Jsonl_Codec\<close>, \<open>Jsonl_Storage\<close>, \<open>Jsonl_Repo\<close> (\<^verbatim>\<open>session/jsonl/*.ts\<close>): the session in a
    file, over a file system that may fail. The storage is the second interpretation of \<open>session_storage\<close>
    (\<open>jsonl\<close>); opening a file again gives the state back, also after a crash in the middle of a write, and
    a fork is published as a whole.
  \<^item> \<open>Json_Payload\<close>, \<open>Session_Client\<close> (\<^verbatim>\<open>session/session.ts\<close>): the stack machine that validates durable
    payloads, and the client's queries and writes.
  \<^item> \<open>Session_Context\<close> (\<^verbatim>\<open>messages.ts\<close>, \<^verbatim>\<open>session/context.ts\<close>): the context of a branch.
  \<^item> \<open>Session_Manager\<close> (\<^verbatim>\<open>coding-agent/src/core/session-manager.ts\<close>): the older session format of the command-line application,
    a tree of entries with a leaf in one file. \<open>Session_Tree\<close>: the tree grows, index, labels and file agree with it, a
    session made of one branch keeps its context. \<open>Session_Runs\<close>: the operations as steps on a directory with any files, what every run guarantees,
    migration of old files.
  \<^item> \<open>Lane_Reducer\<close>, \<open>Lane_Recovery\<close> (\<^verbatim>\<open>reducer.ts\<close>): validation of a record log, reconstruction of the
    state of a lane, and what recovery guarantees.
  \<^item> \<open>Compaction\<close> (\<^verbatim>\<open>compaction/compaction.ts\<close>, \<^verbatim>\<open>compaction/utils.ts\<close>): token estimates, the cut point,
    preparation and file lists. \<open>Coding_Compaction\<close> (\<^verbatim>\<open>coding-agent/src/core/compaction/compaction.ts\<close>): the same for the
    branches of the session manager, where a compaction names the first entry it keeps.
  \<^item> \<open>Utf8\<close>, \<open>Cbor_Writer\<close>, \<open>Cbor_Encoder\<close>, \<open>Cbor_Decoder\<close>, \<open>Cbor_Roundtrip\<close> (\<^verbatim>\<open>cbor/*.ts\<close>): text encoding, the
    bounded writer (locale \<open>byte_sink\<close>, interpreted as \<open>writer\<close>), encoder, decoder, round trip and limits.
  \<^item> \<open>Framing\<close> (\<^verbatim>\<open>framing.ts\<close>), \<open>Protocol_Codec\<close> (\<^verbatim>\<open>codec.ts\<close>): the incremental decoders. The locales
    \<open>stream_decoder\<close> and \<open>exact_stream_decoder\<close> say what a chunked decoder promises; they are interpreted on
    frames (\<open>frames\<close>) and on messages (\<open>messages\<close>).
  \<^item> \<open>Agent_Tools\<close>, \<open>Agent_Loop\<close> (\<^verbatim>\<open>packages/agent/src/agent-loop.ts\<close>): the agent loop in a state monad over an
    open world and a trace of events. \<open>traces\<close> is the logic of the events a computation adds; a tool execution is
    a well-founded \<open>tool_run\<close>, concurrent ones advance under an arbitrary scheduler. \<open>Loop_Invariants\<close>: whatever the
    callbacks keep, a run keeps. \<open>Agent\<close> (\<^verbatim>\<open>packages/agent/src/agent.ts\<close>): queues, event reduction, runs.
  \<^item> \<open>Server_Protocol\<close> (\<^verbatim>\<open>packages/server/src/protocol.ts\<close>): what the server makes of messages, with the schemas the items meet.
    \<open>Live_Sessions\<close> (\<^verbatim>\<open>packages/server/src/sessions.ts\<close>, \<^verbatim>\<open>server.ts\<close>): live sessions as interleaved tasks; runtimes are
    exclusive, operations keep them, closing leaves none.
  \<^item> \<open>Client\<close> (\<^verbatim>\<open>packages/client/src\<close>): connection, requests and what a client knows; every request is settled once.
    \<open>Transform_Messages\<close> (\<^verbatim>\<open>packages/ai/src/api/transform-messages.ts\<close>): the conversation as it is sent, with a result for every
    call. \<open>Event_Stream\<close> (\<^verbatim>\<open>packages/ai/src/utils/event-stream.ts\<close>): the queue between a provider and its consumers.
  \<^item> \<open>Truncate\<close> (\<^verbatim>\<open>utils/truncate.ts\<close>): truncation of tool output and UTF-8 byte lengths.
  \<^item> \<open>Edit_Diff\<close>, \<open>Edit_Correct\<close> (\<^verbatim>\<open>tools/edit-diff.ts\<close>, \<^verbatim>\<open>tools/edit.ts\<close>): matching of the old texts, replacing
    them, keeping untouched lines, line endings and the byte order mark. \<open>File_Queue\<close> (\<^verbatim>\<open>tools/file-mutation-queue.ts\<close>):
    the calls of the edit and write tools as an interleaved step relation; calls with one key exclude each other and
    run in the order they registered; the content of a file is that of its calls in this order when the keys of its paths are
    settled, and an example shows an update lost when they are not.

  \<^bold>\<open>Loops and bounds.\<close> Recursions end by a measure (unvisited entries of a walk, unvisited objects of a heap,
  bytes left, the sub-executions of a tool). The JSON parser
  has fuel linear in its input, and more fuel never changes its result. The loops of the frame decoder and of the payload validation are
  partial functions into \<open>option\<close>; theorems show that they return on every input (on every finite heap). An
  agent run may go on for ever; it is shown to return when its stop hook bounds the messages, for tools that settle and streams that end. Bytes are \<open>8 word\<close>,
  UTF-16 units \<open>16 word\<close>, numbers on the wire keep their binary64 pattern.

  \<^bold>\<open>Parameters.\<close> Code outside the repository is an argument: the TypeBox schema check and deep equality, the text
  of \<^verbatim>\<open>JSON.stringify\<close>, \<^verbatim>\<open>Date\<close> parsing, the clock, fresh identifiers, the NFKC
  normalisation of text, the validation of tool arguments, the
  provider stream, the hooks and the tools of an agent, the file system, the text of numbers that are not safe
  integers, and the properties that make up the discriminated part of a stored entry or record. What is
  assumed of them is named (\<open>faithful_fs\<close>, \<open>reliable_fs\<close>, \<open>format_ok\<close>, \<open>storable\<close>) and shown to be possible on a file
  system in memory.

  \<^bold>\<open>Not modelled.\<close> Input and output (files, sockets, processes, databases, provider requests), the asynchronous
  orchestration of the harness, the terminal interface and, but for its session manager, the command-line application. Session strings that
  are only compared are HOL strings. Costs are the rationals that binary64 numbers stand for, and the totals of a session are
  rounded to binary64 at every addition; no infinity or NaN occurs among them. Tools settle and response streams end (their
  datatypes are inductive), and the hooks and listeners of an agent do not throw.
\<close>

section \<open>Compaction and the context of the model\<close>

text \<open>Entries whose message the context shows: no deferred answer, no empty branch summary.\<close>

definition shown :: "entry \<Rightarrow> bool" where
  "shown e =
     (case e_body e of
        MessageEntry (AssistantMessage m) _ \<Rightarrow> am_stopReason m \<noteq> Deferred
      | BranchSummaryEntry _ summary _ _ \<Rightarrow> summary \<noteq> []
      | _ \<Rightarrow> True)"

lemma compaction_entry_messages:
  "e_body c = CompactionEntry summary retainedTail tokensBefore details u \<Longrightarrow>
   sessionEntryToContextMessages date_time c i es options =
     CompactionSummaryMessage \<lparr> cs_summary = summary, cs_tokensBefore = tokensBefore, cs_timestamp = e_timestamp c \<rparr>
     # retainedTail"
  by (simp add: sessionEntryToContextMessages_def createCompactionSummaryMessage_def timestamp_ms_def)

lemma shown_messages:
  assumes "shown e" and "e_type e \<noteq> CompactionT"
  shows "sessionEntryToContextMessages date_time e 0 [] plain_options =
    (case getMessageFromEntryForCompaction date_time e of None \<Rightarrow> [] | Some m \<Rightarrow> [m])"
proof (cases "e_body e")
  case (MessageEntry m t)
  with assms show ?thesis
    by (cases m) (auto simp: shown_def sessionEntryToContextMessages_def getMessageFromEntryForCompaction_def
        getMessageFromEntry_def)
qed (use assms in \<open>auto simp: shown_def sessionEntryToContextMessages_def getMessageFromEntryForCompaction_def
    getMessageFromEntry_def plain_options_def\<close>)

lemma shown_context:
  "list_all shown es \<Longrightarrow> list_all (\<lambda>e. e_type e \<noteq> CompactionT) es \<Longrightarrow>
   concat (map (\<lambda>e. sessionEntryToContextMessages date_time e 0 [] plain_options) es)
    = List.map_filter (getMessageFromEntryForCompaction date_time) es"
  by (induction es) (auto simp: List.map_filter_simps shown_messages split: option.split)

lemma virtual_messages:
  "List.map_filter (getMessageFromEntryForCompaction date_time)
     (map (\<lambda>(i, m). virtual_entry c i m) (enumerate n ms)) = ms"
  by (induction ms arbitrary: n)
    (auto simp: List.map_filter_simps virtual_entry_def getMessageFromEntryForCompaction_def getMessageFromEntry_def)

lemma map_filter_append: "List.map_filter f (xs @ ys) = List.map_filter f xs @ List.map_filter f ys"
  by (simp add: map_filter_def)

lemma compactable_after:
  assumes "e_body c = CompactionEntry summary retainedTail tokensBefore details u"
    and "list_all (\<lambda>e. e_type e \<noteq> CompactionT) ys"
  shows "compactable_messages date_time (xs @ c # ys)
    = retainedTail @ List.map_filter (getMessageFromEntryForCompaction date_time) ys"
proof -
  have "last_compaction (xs @ c # ys) (length (xs @ c # ys)) = Some (length xs)"
    using last_compaction_append [of "length ys" ys c xs] assms by simp
  then have "compactable_entries (xs @ c # ys)
      = map (\<lambda>(i, m). virtual_entry c i m) (enumerate 0 retainedTail) @ ys"
    using assms(1) by (simp add: compactable_entries_def compactable_def nth_append)
  then show ?thesis by (simp add: compactable_messages_def map_filter_append virtual_messages)
qed

text \<open>The summary message of the last compaction of a branch, if there is one.\<close>

definition summary_messages :: "entry list \<Rightarrow> agent_message list" where
  "summary_messages path =
     (case last_compaction path (length path) of
        None \<Rightarrow> []
      | Some i \<Rightarrow>
          (case e_body (path ! i) of
             CompactionEntry summary _ tokensBefore _ _ \<Rightarrow>
               [CompactionSummaryMessage \<lparr> cs_summary = summary, cs_tokensBefore = tokensBefore,
                  cs_timestamp = e_timestamp (path ! i) \<rparr>]
           | _ \<Rightarrow> []))"

lemma context_split:
  assumes "list_all shown path"
  shows "sc_messages (buildSessionContext date_time path plain_options)
    = summary_messages path @ compactable_messages date_time path"
proof (cases "list_ex (\<lambda>e. e_type e = CompactionT) path")
  case False
  then have none: "list_all (\<lambda>e. e_type e \<noteq> CompactionT) path" by (simp add: list_ex_iff list_all_iff)
  then have "last_compaction path (length path) = None" by (simp add: last_compaction_none)
  with none assms show ?thesis
    by (simp add: plain_context transform_no_compaction shown_context summary_messages_def
        compactable_messages_def compactable_entries_def compactable_def)
next
  case True
  then obtain xs c ys where path: "path = xs @ c # ys" "e_type c = CompactionT"
    and ys: "list_all (\<lambda>e. e_type e \<noteq> CompactionT) ys"
    using split_list_last_prop [of path "\<lambda>e. e_type e = CompactionT"]
    by (auto simp: list_ex_iff list_all_iff)
  then obtain summary tail n details u where c: "e_body c = CompactionEntry summary tail n details u"
    by (cases "e_body c") auto
  have "last_compaction path (length path) = Some (length xs)"
    using last_compaction_append [of "length ys" ys c xs] path ys by simp
  then have "summary_messages path = [CompactionSummaryMessage
      \<lparr> cs_summary = summary, cs_tokensBefore = n, cs_timestamp = e_timestamp c \<rparr>]"
    using path(1) c by (simp add: summary_messages_def nth_append)
  moreover have "list_all shown ys" using assms path(1) by simp
  ultimately show ?thesis
    using path transform_after_compaction [OF path(2) ys, of xs] compactable_after [OF c ys, of date_time xs]
    by (simp add: plain_context shown_context [OF _ ys] compaction_entry_messages [OF c])
qed

text \<open>C8. On a path whose messages the context all shows (no answer that was deferred, no empty branch summary; lemma
\<open>deferred_answer_reappears\<close> shows what happens otherwise) compaction is conservative for the model: before it, the context is the previous summary, the messages
to summarize, the prefix of the split turn and the retained tail; after the compaction entry with the new
summary and that tail was appended, the context is the new summary followed by the same retained tail.\<close>

theorem compaction_conserves_context:
  assumes "prepareCompaction json_text date_time path settings = Some p" and "list_all shown path"
    and "e_body c = CompactionEntry summary (pr_retainedTail p) tokensBefore details u"
  shows "sc_messages (buildSessionContext date_time path plain_options)
      = summary_messages path @ pr_messagesToSummarize p @ pr_turnPrefixMessages p @ pr_retainedTail p \<and>
    sc_messages (buildSessionContext date_time (path @ [c]) plain_options)
      = CompactionSummaryMessage \<lparr> cs_summary = summary, cs_tokensBefore = tokensBefore, cs_timestamp = e_timestamp c \<rparr>
        # pr_retainedTail p"
  using context_split [OF assms(2), of date_time] prepare_partition [OF assms(1)]
    transform_after_compaction [of c "[]" path] assms(3)
  by (simp add: plain_context compaction_entry_messages [OF assms(3)])

theorem compaction_conserves_context_witness:
  "\<exists>p. sample_preparation = Some p \<and>
     sc_messages (buildSessionContext (\<lambda>_. 0)
       (sample_path @ [sample_body ''z'' (CompactionEntry ''sum'' (pr_retainedTail p) 7 None None)]) plain_options)
     = CompactionSummaryMessage \<lparr> cs_summary = ''sum'', cs_tokensBefore = 7, cs_timestamp = 9 \<rparr> # pr_retainedTail p"
proof -
  obtain p where p: "sample_preparation = Some p" using sample_prepared by blast
  have "list_all shown sample_path" by code_simp
  from compaction_conserves_context [OF p [unfolded sample_preparation_def] this,
      of "sample_body ''z'' (CompactionEntry ''sum'' (pr_retainedTail p) 7 None None)"] p
  show ?thesis by (intro exI [of _ p]) (simp add: sample_body_def)
qed

text \<open>
  The retained tail of a compaction holds deferred answers that the context before it did not show:
  the hypothesis on the entries above is needed.
\<close>

definition deferred_reply :: agent_message where
  "deferred_reply = (case sample_reply ''later'' of
     AssistantMessage m \<Rightarrow> AssistantMessage (m\<lparr> am_stopReason := Deferred \<rparr>) | m \<Rightarrow> m)"

lemma deferred_answer_reappears:
  "sc_messages (buildSessionContext (\<lambda>_. 0) [sample_body ''a'' (MessageEntry deferred_reply False)] plain_options) = [] \<and>
   (\<exists>p. prepareCompaction (\<lambda>_. []) (\<lambda>_. 0) [sample_body ''a'' (MessageEntry deferred_reply False)] sample_settings = Some p
      \<and> pr_retainedTail p = [deferred_reply])"
proof
  show "sc_messages (buildSessionContext (\<lambda>_. 0) [sample_body ''a'' (MessageEntry deferred_reply False)] plain_options) = []"
    by code_simp
  have "map_option pr_retainedTail (prepareCompaction (\<lambda>_. []) (\<lambda>_. 0)
      [sample_body ''a'' (MessageEntry deferred_reply False)] sample_settings) = Some [deferred_reply]"
    by code_simp
  then show "\<exists>p. prepareCompaction (\<lambda>_. []) (\<lambda>_. 0) [sample_body ''a'' (MessageEntry deferred_reply False)] sample_settings
      = Some p \<and> pr_retainedTail p = [deferred_reply]" by auto
qed

end
